(* ===== verification/Prelude.thy ===== *)
theory Prelude
  imports Main "HOL-Library.Word" "HOL-Library.Monad_Syntax"
begin

text \<open>
  Shared material of the development: the machine types, the option monad in which the C
  routines run (\<open>None\<close> is a failed \<^verbatim>\<open>assert\<close>, an arithmetic overflow that C leaves
  undefined, an access outside an object, or a loop that does not return), ring buffers,
  pointer chains and the contract of a first-in-first-out queue that three components of
  the program provide.
\<close>

unbundle bit_operations_syntax

type_synonym u8 = "8 word"
type_synonym u32 = "32 word"
type_synonym u64 = "64 word"
type_synonym bytes = "u8 list"

text \<open>Simplification rules of the ring buffers and of the queue contracts.\<close>

named_theorems ring_simps
named_theorems fifo_laws

subsection \<open>Assertions\<close>

definition c_assert :: "bool \<Rightarrow> unit option" where
  "c_assert b = (if b then Some () else None)"

lemma c_assert_bind [simp]: "(c_assert b \<bind> f) = (if b then f () else None)"
  by (simp add: c_assert_def)

lemma option_eqI: "(\<And>a. x = Some a \<longleftrightarrow> y = Some a) \<Longrightarrow> x = y"
  by (cases x; cases y) auto

lemma bind_Some_iff: "(m \<bind> f) = Some y \<longleftrightarrow> (\<exists>x. m = Some x \<and> f x = Some y)"
  by (cases m) auto

text \<open>Copying the elements \<open>ys\<close> into an array from position \<open>i\<close>.\<close>

definition store :: "'a list \<Rightarrow> nat \<Rightarrow> 'a list \<Rightarrow> 'a list option" where
  "store xs i ys = (if i + length ys \<le> length xs then Some (take i xs @ ys @ drop (i + length ys) xs) else None)"

text \<open>The largest value of a C \<^verbatim>\<open>int\<close>.\<close>

abbreviation int_max :: nat where "int_max \<equiv> 2147483647"
abbreviation INT_MAX :: int where "INT_MAX \<equiv> 2147483647"

subsection \<open>Masks and lists of optional entries\<close>

lemma and_not_mask_id: "x AND m = 0 \<Longrightarrow> x AND NOT m = (x :: u32)"
proof -
  assume "x AND m = 0"
  moreover have "x = (x AND m) OR (x AND NOT m)"
    by (simp only: bit.conj_disj_distrib [symmetric] bit.disj_cancel_right bit.conj_one_right)
  ultimately show ?thesis by simp
qed

lemma and_not_mask_zero: "x AND m = x \<Longrightarrow> x AND NOT m = (0 :: u32)"
proof -
  assume "x AND m = x"
  then have "x AND NOT m = (x AND m) AND NOT m" by simp
  also have "\<dots> = 0" by (simp only: and.assoc bit.conj_cancel_right bit.conj_zero_right)
  finally show ?thesis .
qed

lemma unat_lt32: "unat (c :: u32) < 2 ^ 32"
  using unsigned_less [of c] by simp

text \<open>A word below half of its range is read the same as signed.\<close>

lemma sint_small: "unat (w :: u32) < 2147483648 \<Longrightarrow> sint w = int (unat w)"
proof -
  assume "unat w < 2147483648"
  moreover have "(2 :: int) ^ 31 = 2147483648" by simp
  ultimately have "- (2 ^ 31) \<le> int (unat w)" "int (unat w) < 2 ^ 31" by linarith+
  then have "signed_take_bit 31 (int (unat w)) = int (unat w)" by (rule signed_take_bit_int_eq_self)
  then show ?thesis unfolding sint_uint uint_nat by simp
qed

lemma unat_lt8: "unat (b :: u8) < 256"
  using unsigned_less [of b] by simp

lemma byte_bits: "8 \<le> n \<Longrightarrow> \<not> bit (b :: u8) n"
  using bit_imp_le_length [of b n] by auto

text \<open>The masks of the code keep the low bits of a word.\<close>

lemma and_masks:
  "(w :: 'a::len word) AND 3 = take_bit 2 w" "w AND 0xf = take_bit 4 w" "w AND 0x3f = take_bit 6 w" "w AND 0xff = take_bit 8 w"
  by (simp_all add: take_bit_eq_mask mask_eq_exp_minus_1)

lemma unat_take_bit_less: "n < LENGTH('a) \<Longrightarrow> unat (take_bit n w) < 2 ^ n" for w :: "'a::len word"
  by (simp add: unsigned_take_bit_eq)

text \<open>A word put together from four bytes, the lowest first, and taken apart again.\<close>

lemma bit_of_le_bytes:
  "bit (ucast (a :: u8) OR push_bit 8 (ucast (b :: u8)) OR push_bit 16 (ucast (c :: u8)) OR push_bit 24 (ucast (d :: u8)) :: u32) n =
    (if n < 8 then bit a n else if n < 16 then bit b (n - 8) else if n < 24 then bit c (n - 16)
     else n < 32 \<and> bit d (n - 24))"
  by (auto simp: bit_simps byte_bits)

lemma le_bytes_word:
  "ucast (ucast (w AND 0xff) :: u8) OR push_bit 8 (ucast (ucast (drop_bit 8 w AND 0xff) :: u8)) OR
   push_bit 16 (ucast (ucast (drop_bit 16 w AND 0xff) :: u8)) OR push_bit 24 (ucast (ucast (drop_bit 24 w AND 0xff) :: u8)) = (w :: u32)"
  unfolding and_masks by (rule bit_word_eqI, subst bit_of_le_bytes) (auto simp: bit_simps)

text \<open>The rotation that the hash functions write with two shifts.\<close>

lemma rotate_word:
  fixes x :: u32
  assumes "0 < c" "c < 32"
  shows "push_bit c x OR drop_bit (32 - c) x = word_rotl c x"
proof (rule bit_word_eqI)
  fix n :: nat
  assume n: "n < LENGTH(32)"
  have rot: "bit (word_rotl c x) n \<longleftrightarrow> bit x ((n + (32 - c)) mod 32)"
    using n assms by (simp add: bit_word_rotl_iff)
  show "bit (push_bit c x OR drop_bit (32 - c) x) n = bit (word_rotl c x) n"
  proof (cases "c \<le> n")
    case True
    have "n + (32 - c) = (n - c) + 32" using True assms by linarith
    then have "(n + (32 - c)) mod 32 = (n - c + 32) mod 32" by (simp only:)
    then have "(n + (32 - c)) mod 32 = n - c" using n by simp
    moreover have "\<not> bit x (32 - c + n)" using True assms bit_imp_le_length [of x "32 - c + n"] by auto
    ultimately show ?thesis using n True unfolding rot by (simp add: bit_simps)
  next
    case False
    then have "(n + (32 - c)) mod 32 = n + (32 - c)" using n assms by simp
    then show ?thesis using n False unfolding rot by (simp add: bit_simps add.commute [of n])
  qed
qed

lemma distinct_filter_Some:
  "(\<And>i j. i < length xs \<Longrightarrow> j < length xs \<Longrightarrow> xs ! i = xs ! j \<Longrightarrow> xs ! i \<noteq> None \<Longrightarrow> i = j) \<Longrightarrow>
   distinct (filter (\<lambda>x. x \<noteq> None) xs)"
proof (induction xs)
  case (Cons x xs)
  have "i = j" if "i < length xs" "j < length xs" "xs ! i = xs ! j" "xs ! i \<noteq> None" for i j
    using Cons.prems [of "Suc i" "Suc j"] that by simp
  then have "distinct (filter (\<lambda>x. x \<noteq> None) xs)" by (rule Cons.IH)
  moreover have "x \<notin> set xs" if x: "x \<noteq> None"
  proof
    assume "x \<in> set xs"
    then obtain j where "j < length xs" "xs ! j = x" unfolding in_set_conv_nth by blast
    then show False using Cons.prems [of 0 "Suc j"] x by simp
  qed
  ultimately show ?case by simp
qed simp

lemma nth_update_None: "xs[i := None] ! j = Some c \<Longrightarrow> xs ! j = Some c"
  by (cases "i < length xs"; cases "i = j") (auto simp: list_update_beyond)

text \<open>The conversion of a \<^verbatim>\<open>size_t\<close> to \<^verbatim>\<open>int\<close>.\<close>

definition int_of_size :: "nat \<Rightarrow> int" where
  "int_of_size n = sint (of_nat n :: u32)"

lemma int_of_size_small: "n \<le> int_max \<Longrightarrow> int_of_size n = int n"
proof -
  assume n: "n \<le> int_max"
  then have "unat (of_nat n :: u32) = n" by (simp add: unsigned_of_nat take_bit_nat_eq_self)
  then show ?thesis using sint_small [of "of_nat n"] n by (simp add: int_of_size_def)
qed

lemma int_of_size_large: "2147483648 \<le> n \<Longrightarrow> n < 4294967296 \<Longrightarrow> int_of_size n < 0"
proof -
  assume n: "2147483648 \<le> n" "n < 4294967296"
  then have "unat (of_nat n :: u32) = n" by (simp add: unsigned_of_nat take_bit_nat_eq_self)
  then have u: "uint (of_nat n :: u32) = int n" by (metis uint_nat)
  show ?thesis
  proof (rule ccontr)
    assume "\<not> int_of_size n < 0"
    then have pos: "0 \<le> sint (of_nat n :: u32)" by (simp add: int_of_size_def)
    have less: "sint (of_nat n :: u32) < 2147483648" using sint_lt [of "of_nat n :: u32"] by simp
    have "uint (of_nat n :: u32) = sint (of_nat n :: u32)"
      using pos less by (simp add: uint_sint take_bit_int_eq_self del: of_nat_numeral)
    then show False using u less n by linarith
  qed
qed

subsection \<open>Ring buffers\<close>

text \<open>The \<open>n\<close> elements of an array read circularly from position \<open>h\<close>.\<close>

definition ring :: "'a list \<Rightarrow> nat \<Rightarrow> nat \<Rightarrow> 'a list" where
  "ring xs h n = map (\<lambda>i. xs ! ((h + i) mod length xs)) [0..<n]"

lemma length_ring [simp]: "length (ring xs h n) = n"
  by (simp add: ring_def)

lemma ring_0 [simp]: "ring xs h 0 = []"
  by (simp add: ring_def)

lemma nth_ring [ring_simps]: "i < n \<Longrightarrow> ring xs h n ! i = xs ! ((h + i) mod length xs)"
  by (simp add: ring_def)

lemma ring_Suc: "ring xs h (Suc n) = ring xs h n @ [xs ! ((h + n) mod length xs)]"
  by (simp add: ring_def)

lemma ring_Cons:
  assumes "h < length xs"
  shows "ring xs h (Suc n) = xs ! h # ring xs (Suc h mod length xs) n"
proof -
  have "(h + Suc i) mod length xs = (Suc h mod length xs + i) mod length xs" for i
    by (simp add: mod_add_left_eq)
  then show ?thesis
    using assms by (simp add: ring_def upt_conv_Cons map_Suc_upt [symmetric] del: upt_Suc)
qed

lemma ring_update_end:
  assumes "h < length xs" "n < length xs"
  shows "ring (xs[(h + n) mod length xs := x]) h n = ring xs h n"
proof (rule nth_equalityI)
  fix i assume "i < length (ring (xs[(h + n) mod length xs := x]) h n)"
  then have i: "i < n" by simp
  have "(h + i) mod length xs \<noteq> (h + n) mod length xs"
  proof
    assume "(h + i) mod length xs = (h + n) mod length xs"
    then have "length xs dvd (h + n) - (h + i)"
      using i by (metis add_le_mono less_or_eq_imp_le mod_eq_dvd_iff_nat order_refl)
    moreover have "0 < (h + n) - (h + i)" "(h + n) - (h + i) < length xs"
      using i assms by auto
    ultimately show False by (simp add: nat_dvd_not_less)
  qed
  then show "ring (xs[(h + n) mod length xs := x]) h n ! i = ring xs h n ! i"
    using i by (simp add: nth_ring)
qed simp

lemma ring_push:
  assumes "h < length xs" "n < length xs"
  shows "ring (xs[(h + n) mod length xs := x]) h (Suc n) = ring xs h n @ [x]"
proof -
  have "(h + n) mod length xs < length xs"
    using assms by (simp add: mod_less_divisor length_greater_0_conv [symmetric] del: length_greater_0_conv)
  then show ?thesis
    using ring_update_end [OF assms, of x] by (simp add: ring_Suc)
qed

lemma ring_from_zero: "n \<le> length xs \<Longrightarrow> ring xs 0 n = take n xs"
  by (rule nth_equalityI) (auto simp: nth_ring)

subsection \<open>Chains of next pointers\<close>

text \<open>
  \<open>chain nxt p xs\<close>: following \<open>nxt\<close> from the pointer \<open>p\<close> visits the cells \<open>xs\<close>
  and ends at the null pointer.
\<close>

primrec chain :: "('a \<Rightarrow> 'a option) \<Rightarrow> 'a option \<Rightarrow> 'a list \<Rightarrow> bool" where
  "chain nxt p [] = (p = None)"
| "chain nxt p (x # xs) = (p = Some x \<and> chain nxt (nxt x) xs)"

lemma chain_None [simp]: "chain nxt None xs \<longleftrightarrow> xs = []"
  by (cases xs) auto

lemma chain_Some: "chain nxt (Some x) xs \<longleftrightarrow> (\<exists>ys. xs = x # ys \<and> chain nxt (nxt x) ys)"
  by (cases xs) auto

lemma chain_cong: "(\<And>x. x \<in> set xs \<Longrightarrow> f x = g x) \<Longrightarrow> chain f p xs = chain g p xs"
  by (induction xs arbitrary: p) auto

lemma chain_update [simp]: "x \<notin> set xs \<Longrightarrow> chain (f(x := v)) p xs = chain f p xs"
  by (rule chain_cong) auto

lemma chain_snoc:
  "distinct (xs @ [x]) \<Longrightarrow> chain f p xs \<Longrightarrow> xs \<noteq> [] \<Longrightarrow>
   chain (f(last xs := Some x, x := None)) p (xs @ [x])"
proof (induction xs arbitrary: p)
  case (Cons y ys)
  show ?case
  proof (cases "ys = []")
    case True
    with Cons.prems show ?thesis by auto
  next
    case False
    with Cons.prems have "chain (f(last ys := Some x, x := None)) (f y) (ys @ [x])"
      by (intro Cons.IH) auto
    moreover have "y \<noteq> last ys" "y \<noteq> x"
      using Cons.prems False by (auto simp: last_in_set)
    ultimately show ?thesis
      using Cons.prems False by (simp add: fun_upd_def)
  qed
qed simp

lemma chain_last_None: "chain f p xs \<Longrightarrow> xs \<noteq> [] \<Longrightarrow> f (last xs) = None"
  by (induction xs arbitrary: p) (auto split: if_splits)

lemma chain_unique: "chain f p xs \<Longrightarrow> chain f p ys \<Longrightarrow> xs = ys"
  by (induction xs arbitrary: p ys) (auto simp: chain_Some)

subsection \<open>The contract of a first-in-first-out queue\<close>

text \<open>
  The message queue of a service, the global queue of message queues and the packet queue of
  the network filter promise the same thing. A queue operation may fail (\<open>None\<close>) only
  where the store cannot hold another element; it then changes nothing the client can see.
\<close>

datatype 'a fifo_op = Enq 'a | Deq

locale fifo =
  fixes enq :: "'a \<Rightarrow> 'q \<Rightarrow> 'q option"
    and deq :: "'q \<Rightarrow> ('a option \<times> 'q) option"
    and content :: "'q \<Rightarrow> 'a list"
    and inv :: "'q \<Rightarrow> bool"
    and accepts :: "'q \<Rightarrow> 'a \<Rightarrow> bool"
  assumes enq_content: "inv q \<Longrightarrow> accepts q x \<Longrightarrow> enq x q = Some q' \<Longrightarrow> content q' = content q @ [x]"
    and enq_inv: "inv q \<Longrightarrow> accepts q x \<Longrightarrow> enq x q = Some q' \<Longrightarrow> inv q'"
    and deq_empty: "inv q \<Longrightarrow> content q = [] \<Longrightarrow> \<exists>q'. deq q = Some (None, q') \<and> content q' = [] \<and> inv q'"
    and deq_cons: "inv q \<Longrightarrow> content q = x # xs \<Longrightarrow>
      \<exists>q'. deq q = Some (Some x, q') \<and> content q' = xs \<and> inv q'"
begin

text \<open>A client's run: the queue after the operations and the elements it received.\<close>

fun run :: "'a fifo_op list \<Rightarrow> 'q \<Rightarrow> ('a list \<times> 'q) option" where
  "run [] q = Some ([], q)"
| "run (Enq x # ops) q =
     (if accepts q x then (case enq x q of None \<Rightarrow> None | Some q' \<Rightarrow> run ops q') else None)"
| "run (Deq # ops) q =
     (case deq q of
        None \<Rightarrow> None
      | Some (None, q') \<Rightarrow> run ops q'
      | Some (Some x, q') \<Rightarrow> (case run ops q' of None \<Rightarrow> None | Some (out, q'') \<Rightarrow> Some (x # out, q'')))"

primrec sent :: "'a fifo_op list \<Rightarrow> 'a list" where
  "sent [] = []"
| "sent (p # ops) = (case p of Enq x \<Rightarrow> x # sent ops | Deq \<Rightarrow> sent ops)"

text \<open>Nothing is lost, duplicated or reordered, whatever the interleaving.\<close>

lemma run_conserves:
  "inv q \<Longrightarrow> run ops q = Some (out, q') \<Longrightarrow> inv q' \<and> out @ content q' = content q @ sent ops"
proof (induction ops arbitrary: q out)
  case Nil
  then show ?case by simp
next
  case (Cons p ops)
  show ?case
  proof (cases p)
    case (Enq x)
    then obtain q1 where q1: "accepts q x" "enq x q = Some q1" "run ops q1 = Some (out, q')"
      using Cons.prems(2) by (auto split: option.splits if_splits)
    show ?thesis
      using Cons.IH [OF enq_inv [OF Cons.prems(1) q1(1,2)] q1(3)]
        enq_content [OF Cons.prems(1) q1(1,2)] Enq by simp
  next
    case Deq
    show ?thesis
    proof (cases "content q")
      case Nil
      then obtain q1 where "deq q = Some (None, q1)" "content q1 = []" "inv q1"
        using deq_empty Cons.prems(1) by blast
      then show ?thesis
        using Cons.IH [of q1 out] Cons.prems(2) Nil Deq by simp
    next
      case (Cons x xs)
      then obtain q1 where q1: "deq q = Some (Some x, q1)" "content q1 = xs" "inv q1"
        using deq_cons Cons.prems(1) by blast
      then obtain out1 where "run ops q1 = Some (out1, q')" "out = x # out1"
        using Cons.prems(2) Deq by (auto split: option.splits)
      then show ?thesis
        using Cons.IH [of q1 out1] q1 Cons Deq by simp
    qed
  qed
qed

lemma deq_hd: "inv q \<Longrightarrow> deq q = Some (Some x, q') \<Longrightarrow> content q = x # content q' \<and> inv q'"
  using deq_empty [of q] deq_cons [of q] by (cases "content q") auto

lemma deq_none: "inv q \<Longrightarrow> deq q = Some (None, q') \<Longrightarrow> content q = [] \<and> content q' = [] \<and> inv q'"
  using deq_empty [of q] deq_cons [of q] by (cases "content q") auto

lemma deq_total: "inv q \<Longrightarrow> deq q \<noteq> None"
  using deq_empty [of q] deq_cons [of q] by (cases "content q") auto

end

end
