(* ===== verification/Socket_Message.thy ===== *)
theory Socket_Message
  imports Prelude
begin

text \<open>
  The messages from the network that a service receives, \<^verbatim>\<open>skynet_socket.h\<close>.
\<close>

text \<open>
  \<^verbatim>\<open>struct skynet_socket_message\<close> and the bytes behind it, which are the text when the
  buffer is a null pointer.
\<close>

record socket_message =
  sm_type :: nat
  sm_id :: u32
  sm_ud :: int
  sm_buffer :: "bytes option"
  sm_padding :: bytes

definition SKYNET_SOCKET_TYPE_DATA :: nat where "SKYNET_SOCKET_TYPE_DATA = 1"
definition SKYNET_SOCKET_TYPE_CONNECT :: nat where "SKYNET_SOCKET_TYPE_CONNECT = 2"
definition SKYNET_SOCKET_TYPE_CLOSE :: nat where "SKYNET_SOCKET_TYPE_CLOSE = 3"
definition SKYNET_SOCKET_TYPE_ACCEPT :: nat where "SKYNET_SOCKET_TYPE_ACCEPT = 4"
definition SKYNET_SOCKET_TYPE_ERROR :: nat where "SKYNET_SOCKET_TYPE_ERROR = 5"
definition SKYNET_SOCKET_TYPE_UDP :: nat where "SKYNET_SOCKET_TYPE_UDP = 6"
definition SKYNET_SOCKET_TYPE_WARNING :: nat where "SKYNET_SOCKET_TYPE_WARNING = 7"

end
