(* ===== verification/Message_Queue.thy ===== *)
theory Message_Queue
  imports Socket_Message
begin

text \<open>
  \<^verbatim>\<open>skynet_mq.c\<close>: the ring buffer that holds the messages of one service, and the
  global queue, a linked list (through the \<^verbatim>\<open>next\<close> field) of the message queues that
  have work. Queues live in a store indexed by address, so that a freed queue is an address
  with no object and any later access is an error (\<open>None\<close>). Every operation of the file
  runs under a spinlock, so each is one atomic step.
\<close>

subsection \<open>Data\<close>

type_synonym addr = nat

text \<open>
  \<^verbatim>\<open>struct remote_name\<close> and \<^verbatim>\<open>struct remote_message\<close> of
  \<^verbatim>\<open>skynet_harbor.h\<close>: what is sent to the harbor service for another node. The payload of
  a message is a block of bytes, such a structure, or that of a message from the network.
\<close>

record remote_name =
  rn_name :: string
  rn_handle :: u32

record remote_message =
  rm_destination :: remote_name
  rm_message :: "bytes option"
  rm_sz :: u64
  rm_type :: u32

datatype payload = Bytes bytes | Remote_Message remote_message | Of_Socket socket_message

text \<open>
  \<^verbatim>\<open>struct skynet_message\<close>. The payload pointer is the payload itself (\<open>None\<close> is
  \<^verbatim>\<open>NULL\<close>); \<open>msg_sz\<close> is a 64-bit \<^verbatim>\<open>size_t\<close> whose top byte is the message type.
\<close>

record message =
  msg_source :: u32
  msg_session :: u32
  msg_data :: "payload option"
  msg_sz :: u64

text \<open>
  \<^verbatim>\<open>struct message_queue\<close>. The C integers \<^verbatim>\<open>cap\<close>, \<^verbatim>\<open>head\<close>, \<^verbatim>\<open>tail\<close>,
  \<^verbatim>\<open>overload\<close> are never negative; the one multiplication that can leave the range of
  \<^verbatim>\<open>int\<close> (in \<^verbatim>\<open>expand_queue\<close>) is checked. \<^verbatim>\<open>release\<close> and
  \<^verbatim>\<open>in_global\<close> are the flags 0 and 1.
\<close>

record message_queue =
  mq_handle :: u32
  mq_cap :: nat
  mq_head :: nat
  mq_tail :: nat
  mq_release :: bool
  mq_in_global :: bool
  mq_overload :: nat
  mq_overload_threshold :: nat
  mq_queue :: "message list"
  mq_next :: "addr option"

text \<open>The heap of queues, the allocator's next address, and \<^verbatim>\<open>struct global_queue\<close>.\<close>

record mq_store =
  queues :: "addr \<rightharpoonup> message_queue"
  fresh :: addr
  gq_head :: "addr option"
  gq_tail :: "addr option"

definition DEFAULT_QUEUE_SIZE :: nat where "DEFAULT_QUEUE_SIZE = 64"
definition MQ_OVERLOAD :: nat where "MQ_OVERLOAD = 1024"

definition null_message :: message where
  "null_message = \<lparr>msg_source = 0, msg_session = 0, msg_data = None, msg_sz = 0\<rparr>"

definition set_queue :: "addr \<Rightarrow> message_queue \<Rightarrow> mq_store \<Rightarrow> mq_store" where
  "set_queue a q s = s\<lparr>queues := (queues s)(a \<mapsto> q)\<rparr>"

subsection \<open>The global queue\<close>

definition skynet_globalmq_push :: "addr \<Rightarrow> mq_store \<Rightarrow> mq_store option" where
  "skynet_globalmq_push a s = do {
     q \<leftarrow> queues s a;
     c_assert (mq_next q = None);
     (case gq_tail s of
        Some t \<Rightarrow> do {
          tq \<leftarrow> queues s t;
          Some (set_queue t (tq\<lparr>mq_next := Some a\<rparr>) s\<lparr>gq_tail := Some a\<rparr>)
        }
      | None \<Rightarrow> Some (s\<lparr>gq_head := Some a, gq_tail := Some a\<rparr>))
   }"

definition skynet_globalmq_pop :: "mq_store \<Rightarrow> (addr option \<times> mq_store) option" where
  "skynet_globalmq_pop s =
     (case gq_head s of
        None \<Rightarrow> Some (None, s)
      | Some a \<Rightarrow> do {
          mq \<leftarrow> queues s a;
          s1 \<leftarrow> (if mq_next mq = None
                then do { c_assert (gq_tail s = Some a); Some (s\<lparr>gq_head := None, gq_tail := None\<rparr>) }
                else Some (s\<lparr>gq_head := mq_next mq\<rparr>));
          Some (Some a, set_queue a (mq\<lparr>mq_next := None\<rparr>) s1)
        })"

definition skynet_mq_init :: mq_store where
  "skynet_mq_init = \<lparr>queues = Map.empty, fresh = 0, gq_head = None, gq_tail = None\<rparr>"

subsection \<open>One message queue\<close>

definition new_queue :: "u32 \<Rightarrow> message_queue" where
  "new_queue h = \<lparr>mq_handle = h, mq_cap = DEFAULT_QUEUE_SIZE, mq_head = 0, mq_tail = 0,
     mq_release = False, mq_in_global = True, mq_overload = 0,
     mq_overload_threshold = MQ_OVERLOAD,
     mq_queue = replicate DEFAULT_QUEUE_SIZE null_message, mq_next = None\<rparr>"

definition skynet_mq_create :: "u32 \<Rightarrow> mq_store \<Rightarrow> addr \<times> mq_store" where
  "skynet_mq_create h s =
     (fresh s, set_queue (fresh s) (new_queue h) s\<lparr>fresh := Suc (fresh s)\<rparr>)"

definition release_queue :: "addr \<Rightarrow> mq_store \<Rightarrow> mq_store option" where
  "release_queue a s = do {
     q \<leftarrow> queues s a;
     c_assert (mq_next q = None);
     Some (s\<lparr>queues := (queues s)(a := None)\<rparr>)
   }"

definition skynet_mq_length :: "message_queue \<Rightarrow> nat" where
  "skynet_mq_length q =
     (if mq_head q \<le> mq_tail q then mq_tail q - mq_head q else mq_tail q + mq_cap q - mq_head q)"

definition skynet_mq_overload :: "message_queue \<Rightarrow> nat \<times> message_queue" where
  "skynet_mq_overload q =
     (if mq_overload q \<noteq> 0 then (mq_overload q, q\<lparr>mq_overload := 0\<rparr>) else (0, q))"

text \<open>
  The \<^verbatim>\<open>while (length > overload_threshold)\<close> loop of \<^verbatim>\<open>skynet_mq_pop\<close>: the new
  values of \<^verbatim>\<open>overload\<close> and \<^verbatim>\<open>overload_threshold\<close>.
\<close>

partial_function (option) overload_loop :: "nat \<Rightarrow> nat \<Rightarrow> nat \<Rightarrow> (nat \<times> nat) option" where
  "overload_loop len ov th =
     (if th < len then overload_loop len len (th * 2) else Some (ov, th))"

definition mq_pop_local :: "message_queue \<Rightarrow> (message option \<times> message_queue) option" where
  "mq_pop_local q =
     (if mq_head q \<noteq> mq_tail q then do {
        c_assert (mq_head q < length (mq_queue q));
        let msg = mq_queue q ! mq_head q;
        let h = (if mq_cap q \<le> Suc (mq_head q) then 0 else Suc (mq_head q));
        let len = (if mq_tail q < h then mq_tail q + mq_cap q - h else mq_tail q - h);
        (ov, th) \<leftarrow> overload_loop len (mq_overload q) (mq_overload_threshold q);
        Some (Some msg, q\<lparr>mq_head := h, mq_overload := ov, mq_overload_threshold := th\<rparr>)
      }
      else Some (None, q\<lparr>mq_overload_threshold := MQ_OVERLOAD, mq_in_global := False\<rparr>))"

definition expand_queue :: "message_queue \<Rightarrow> message_queue option" where
  "expand_queue q = do {
     c_assert (mq_cap q * 2 \<le> int_max);
     Some (q\<lparr>mq_queue := map (\<lambda>i. mq_queue q ! ((mq_head q + i) mod mq_cap q)) [0..<mq_cap q]
                 @ replicate (mq_cap q) null_message,
             mq_head := 0, mq_tail := mq_cap q, mq_cap := mq_cap q * 2\<rparr>)
   }"

definition mq_push_local :: "message \<Rightarrow> message_queue \<Rightarrow> message_queue option" where
  "mq_push_local m q = do {
     c_assert (mq_tail q < length (mq_queue q));
     let t = (if mq_cap q \<le> Suc (mq_tail q) then 0 else Suc (mq_tail q));
     let q1 = q\<lparr>mq_queue := (mq_queue q)[mq_tail q := m], mq_tail := t\<rparr>;
     if mq_head q1 = mq_tail q1 then expand_queue q1 else Some q1
   }"

definition skynet_mq_push :: "addr \<Rightarrow> message \<Rightarrow> mq_store \<Rightarrow> mq_store option" where
  "skynet_mq_push a m s = do {
     q \<leftarrow> queues s a;
     q1 \<leftarrow> mq_push_local m q;
     if \<not> mq_in_global q1
     then skynet_globalmq_push a (set_queue a (q1\<lparr>mq_in_global := True\<rparr>) s)
     else Some (set_queue a q1 s)
   }"

definition skynet_mq_pop :: "addr \<Rightarrow> mq_store \<Rightarrow> (message option \<times> mq_store) option" where
  "skynet_mq_pop a s = do {
     q \<leftarrow> queues s a;
     (m, q1) \<leftarrow> mq_pop_local q;
     Some (m, set_queue a q1 s)
   }"

definition skynet_mq_mark_release :: "addr \<Rightarrow> mq_store \<Rightarrow> mq_store option" where
  "skynet_mq_mark_release a s = do {
     q \<leftarrow> queues s a;
     c_assert (\<not> mq_release q);
     let s1 = set_queue a (q\<lparr>mq_release := True\<rparr>) s;
     if \<not> mq_in_global q then skynet_globalmq_push a s1 else Some s1
   }"

text \<open>
  \<^verbatim>\<open>_drop_queue\<close>: pop until empty, giving each message to the callback, which runs on
  the whole state of the caller (\<open>'s\<close>); then free the queue.
\<close>

partial_function (option) drop_loop ::
  "('s \<Rightarrow> (message option \<times> 's) option) \<Rightarrow> (message \<Rightarrow> 's \<Rightarrow> 's option) \<Rightarrow> 's \<Rightarrow> 's option" where
  "drop_loop pop_func drop_func s = do {
     (m, s1) \<leftarrow> pop_func s;
     (case m of
        None \<Rightarrow> Some s1
      | Some msg \<Rightarrow> do { s2 \<leftarrow> drop_func msg s1; drop_loop pop_func drop_func s2 })
   }"

definition drop_queue :: "(message \<Rightarrow> mq_store \<Rightarrow> mq_store option) \<Rightarrow> addr \<Rightarrow> mq_store \<Rightarrow> mq_store option" where
  "drop_queue drop_func a s = do {
     s1 \<leftarrow> drop_loop (skynet_mq_pop a) drop_func s;
     release_queue a s1
   }"

definition skynet_mq_release :: "(message \<Rightarrow> mq_store \<Rightarrow> mq_store option) \<Rightarrow> addr \<Rightarrow> mq_store \<Rightarrow> mq_store option" where
  "skynet_mq_release drop_func a s = do {
     q \<leftarrow> queues s a;
     if mq_release q then drop_queue drop_func a s else skynet_globalmq_push a s
   }"

subsection \<open>Well-formed queues and their contents\<close>

definition mq_wf :: "message_queue \<Rightarrow> bool" where
  "mq_wf q \<longleftrightarrow> length (mq_queue q) = mq_cap q \<and> mq_head q < mq_cap q \<and> mq_tail q < mq_cap q \<and>
     0 < mq_overload_threshold q"

definition mq_content :: "message_queue \<Rightarrow> message list" where
  "mq_content q = ring (mq_queue q) (mq_head q) (skynet_mq_length q)"

lemma mq_wf_new: "mq_wf (new_queue h)" "mq_content (new_queue h) = []"
  by (simp_all add: mq_wf_def new_queue_def mq_content_def DEFAULT_QUEUE_SIZE_def MQ_OVERLOAD_def
      skynet_mq_length_def)

lemma mq_length_content: "skynet_mq_length q = length (mq_content q)"
  by (simp add: mq_content_def)

lemma mq_length_less: "mq_wf q \<Longrightarrow> skynet_mq_length q < mq_cap q"
  by (auto simp: mq_wf_def skynet_mq_length_def)

lemma mq_tail_ring:
  assumes "mq_wf q" shows "mq_tail q = (mq_head q + skynet_mq_length q) mod mq_cap q"
  using assms by (auto simp: mq_wf_def skynet_mq_length_def mod_if)

lemma ring_length_0: "mq_wf q \<Longrightarrow> mq_content q = [] \<longleftrightarrow> mq_head q = mq_tail q"
  by (auto simp: mq_content_def ring_def mq_wf_def skynet_mq_length_def)

text \<open>The loop ends as soon as the threshold is positive, having doubled it past the length.\<close>

lemma overload_loop_result:
  assumes "0 < th"
  shows "\<exists>th'. overload_loop len ov th = Some (if th < len then len else ov, th') \<and> len \<le> th' \<and> th \<le> th' \<and>
    (th' < 2 * len \<or> th' = th) \<and> (\<exists>k. th' = th * 2 ^ k)"
  using assms
proof (induction "len - th" arbitrary: th ov rule: less_induct)
  case less
  show ?case
  proof (cases "th < len")
    case True
    then have "len - th * 2 < len - th" "0 < th * 2" using less.prems by auto
    from less.hyps [OF this, of len] obtain th' where H:
      "overload_loop len len (th * 2) = Some (if th * 2 < len then len else len, th') \<and> len \<le> th' \<and>
       th * 2 \<le> th' \<and> (th' < 2 * len \<or> th' = th * 2) \<and> (\<exists>k. th' = th * 2 * 2 ^ k)" by blast
    then obtain k where "th' = th * 2 * 2 ^ k" by blast
    then have "\<exists>k. th' = th * 2 ^ k" by (intro exI [of _ "Suc k"]) simp
    moreover have "overload_loop len ov th = Some (len, th')"
      using H True by (simp add: overload_loop.simps [of len ov th])
    moreover have "th' < 2 * len" "th \<le> th'" "len \<le> th'" using H True by auto
    ultimately show ?thesis
      using True by auto
  next
    case False
    then show ?thesis
      by (auto simp: overload_loop.simps [of len ov th] intro!: exI [of _ 0])
  qed
qed

subsection \<open>A queue is a first-in-first-out list of messages\<close>

lemma mq_push_content:
  assumes wf: "mq_wf q" and push: "mq_push_local m q = Some q'"
  shows "mq_wf q' \<and> mq_content q' = mq_content q @ [m]"
proof -
  let ?n = "skynet_mq_length q"
  let ?t = "if mq_cap q \<le> Suc (mq_tail q) then 0 else Suc (mq_tail q)"
  let ?q1 = "q\<lparr>mq_queue := (mq_queue q)[mq_tail q := m], mq_tail := ?t\<rparr>"
  have len: "length (mq_queue q) = mq_cap q" "mq_head q < mq_cap q" "mq_tail q < mq_cap q"
    using wf by (auto simp: mq_wf_def)
  have n: "?n < mq_cap q" by (rule mq_length_less [OF wf])
  have ring: "ring ((mq_queue q)[mq_tail q := m]) (mq_head q) (Suc ?n) = mq_content q @ [m]"
  proof -
    have tail: "mq_tail q = (mq_head q + ?n) mod length (mq_queue q)"
      using mq_tail_ring [OF wf] len(1) by simp
    show ?thesis
      unfolding mq_content_def tail by (rule ring_push) (use len n in simp_all)
  qed
  show ?thesis
  proof (cases "mq_head q = ?t")
    case True
    have Sn: "Suc ?n = mq_cap q"
      using True len n by (auto simp: skynet_mq_length_def split: if_splits)
    have "mq_push_local m q = expand_queue ?q1"
      using True len by (simp add: mq_push_local_def Let_def)
    then have cap: "mq_cap q * 2 \<le> int_max" and q': "q' = ?q1\<lparr>mq_queue :=
        ring (mq_queue ?q1) (mq_head q) (mq_cap q) @ replicate (mq_cap q) null_message,
        mq_head := 0, mq_tail := mq_cap q, mq_cap := mq_cap q * 2\<rparr>"
      using push len by (auto simp: expand_queue_def ring_def split: if_splits)
    let ?r = "ring (mq_queue ?q1) (mq_head q) (mq_cap q)"
    have "skynet_mq_length q' = mq_cap q" "mq_queue q' = ?r @ replicate (mq_cap q) null_message"
      "mq_head q' = 0" using q' by (simp_all add: skynet_mq_length_def)
    then have "mq_content q' = ?r"
      by (simp add: mq_content_def ring_from_zero)
    then have "mq_content q' = mq_content q @ [m]"
      using ring by (simp add: Sn)
    moreover have "mq_wf q'"
      using q' wf len by (simp add: mq_wf_def)
    ultimately show ?thesis by simp
  next
    case False
    then have q': "q' = ?q1"
      using push len by (simp add: mq_push_local_def Let_def)
    then have "skynet_mq_length q' = Suc ?n"
      using False len by (auto simp: skynet_mq_length_def split: if_splits)
    then have "mq_content q' = mq_content q @ [m]"
      using ring q' by (simp add: mq_content_def)
    moreover have "mq_wf q'"
      using q' wf len by (auto simp: mq_wf_def)
    ultimately show ?thesis by simp
  qed
qed

lemma mq_push_total: "mq_wf q \<Longrightarrow> mq_cap q * 2 \<le> int_max \<Longrightarrow> \<exists>q'. mq_push_local m q = Some q'"
  by (auto simp: mq_push_local_def Let_def expand_queue_def mq_wf_def)

lemma mq_pop_nonempty:
  assumes wf: "mq_wf q" and ne: "mq_content q = m # ms"
  shows "\<exists>q'. mq_pop_local q = Some (Some m, q') \<and> mq_content q' = ms \<and> mq_wf q' \<and>
    mq_in_global q' = mq_in_global q \<and>
    mq_overload q' = (if mq_overload_threshold q < length ms then length ms else mq_overload q) \<and>
    length ms \<le> mq_overload_threshold q' \<and>
    (mq_overload_threshold q' = mq_overload_threshold q \<or> mq_overload_threshold q' < 2 * length ms) \<and>
    (\<exists>k. mq_overload_threshold q' = mq_overload_threshold q * 2 ^ k)"
proof -
  have len: "length (mq_queue q) = mq_cap q" "mq_head q < mq_cap q" "mq_tail q < mq_cap q"
    "0 < mq_overload_threshold q" using wf by (auto simp: mq_wf_def)
  have neq: "mq_head q \<noteq> mq_tail q"
    using ring_length_0 [OF wf] ne by simp
  define h where "h = (if mq_cap q \<le> Suc (mq_head q) then 0 else Suc (mq_head q))"
  define n where "n = (if mq_tail q < h then mq_tail q + mq_cap q - h else mq_tail q - h)"
  have hn: "h < mq_cap q" "h = Suc (mq_head q) mod mq_cap q" "skynet_mq_length q = Suc n"
    using len neq by (auto simp: h_def n_def skynet_mq_length_def mod_if)
  define ov where "ov = (if mq_overload_threshold q < n then n else mq_overload q)"
  obtain th where loop: "overload_loop n (mq_overload q) (mq_overload_threshold q) = Some (ov, th)"
    and th: "n \<le> th" "mq_overload_threshold q \<le> th" "th < 2 * n \<or> th = mq_overload_threshold q"
      "\<exists>k. th = mq_overload_threshold q * 2 ^ k"
    using overload_loop_result [OF len(4), of n "mq_overload q", folded ov_def] by (elim exE conjE) blast
  let ?q' = "q\<lparr>mq_head := h, mq_overload := ov, mq_overload_threshold := th\<rparr>"
  have pop: "mq_pop_local q = Some (Some (mq_queue q ! mq_head q), ?q')"
    unfolding mq_pop_local_def Let_def h_def [symmetric] n_def [symmetric]
    using neq len loop by simp
  have "skynet_mq_length ?q' = n"
    using hn len by (auto simp: skynet_mq_length_def n_def)
  moreover have "mq_content q = mq_queue q ! mq_head q # ring (mq_queue q) h n"
    using ring_Cons [of "mq_head q" "mq_queue q" n] len hn by (simp add: mq_content_def)
  ultimately have "m = mq_queue q ! mq_head q" "mq_content ?q' = ms" "length ms = n"
    using ne by (auto simp: mq_content_def)
  moreover have "mq_wf ?q'" using hn(1) len th(2) by (simp add: mq_wf_def)
  ultimately show ?thesis
    using pop th by (intro exI [of _ ?q'] conjI) (simp_all add: disj_commute ov_def)
qed

lemma mq_pop_empty:
  "mq_wf q \<Longrightarrow> mq_content q = [] \<Longrightarrow>
   mq_pop_local q = Some (None, q\<lparr>mq_overload_threshold := MQ_OVERLOAD, mq_in_global := False\<rparr>)"
  by (simp add: ring_length_0 mq_pop_local_def)

lemma mq_flags_irrelevant [simp]:
  "mq_content (q\<lparr>mq_in_global := b\<rparr>) = mq_content q" "mq_wf (q\<lparr>mq_in_global := b\<rparr>) = mq_wf q"
  "mq_content (q\<lparr>mq_next := p\<rparr>) = mq_content q" "mq_wf (q\<lparr>mq_next := p\<rparr>) = mq_wf q"
  "mq_content (q\<lparr>mq_release := b\<rparr>) = mq_content q" "mq_wf (q\<lparr>mq_release := b\<rparr>) = mq_wf q"
  "mq_content (q\<lparr>mq_overload := n\<rparr>) = mq_content q" "mq_wf (q\<lparr>mq_overload := n\<rparr>) = mq_wf q"
  "mq_content (q\<lparr>mq_overload_threshold := n\<rparr>) = mq_content q"
  by (simp_all add: mq_content_def mq_wf_def skynet_mq_length_def)

lemma mq_push_frame:
  "mq_push_local m q = Some q' \<Longrightarrow> mq_in_global q' = mq_in_global q \<and> mq_next q' = mq_next q \<and>
   mq_release q' = mq_release q \<and> mq_handle q' = mq_handle q"
  by (auto simp: mq_push_local_def expand_queue_def Let_def split: if_splits)

lemma mq_pop_frame:
  "mq_pop_local q = Some (r, q') \<Longrightarrow> mq_next q' = mq_next q \<and> mq_release q' = mq_release q \<and>
   mq_handle q' = mq_handle q \<and> (mq_in_global q' = (r \<noteq> None \<and> mq_in_global q))"
  by (auto simp: mq_pop_local_def Let_def bind_Some_iff split: if_splits)

interpretation mq: fifo mq_push_local mq_pop_local mq_content mq_wf "\<lambda>q m. True"
proof unfold_locales
  fix q assume "mq_wf q" "mq_content q = []"
  then show "\<exists>q'. mq_pop_local q = Some (None, q') \<and> mq_content q' = [] \<and> mq_wf q'"
    using mq_pop_empty by (auto simp: mq_wf_def MQ_OVERLOAD_def)
next
  fix q m ms assume "mq_wf q" "mq_content q = m # ms"
  then show "\<exists>q'. mq_pop_local q = Some (Some m, q') \<and> mq_content q' = ms \<and> mq_wf q'"
    using mq_pop_nonempty by blast
qed (auto dest: mq_push_content)

subsection \<open>The global queue is a list of distinct addresses\<close>

text \<open>
  \<open>gq_inv s xs\<close>: the linked list from \<open>gq_head\<close> visits exactly \<open>xs\<close>, the tail pointer is
  its last element, every element is allocated and every other queue has a null
  \<^verbatim>\<open>next\<close> pointer.
\<close>

definition next_of :: "mq_store \<Rightarrow> addr \<Rightarrow> addr option" where
  "next_of s a = (case queues s a of None \<Rightarrow> None | Some q \<Rightarrow> mq_next q)"

definition gq_inv :: "mq_store \<Rightarrow> addr list \<Rightarrow> bool" where
  "gq_inv s xs \<longleftrightarrow> distinct xs \<and> set xs \<subseteq> dom (queues s) \<and> chain (next_of s) (gq_head s) xs \<and>
     gq_tail s = (if xs = [] then None else Some (last xs)) \<and>
     (\<forall>a. a \<notin> set xs \<longrightarrow> next_of s a = None)"

lemma gq_inv_init: "gq_inv skynet_mq_init []"
  by (simp add: gq_inv_def skynet_mq_init_def next_of_def)

lemma gq_inv_unique: "gq_inv s xs \<Longrightarrow> gq_inv s ys \<Longrightarrow> xs = ys"
  by (auto simp: gq_inv_def dest: chain_unique)

lemma next_of_set_queue: "next_of (set_queue a q s) = (next_of s)(a := mq_next q)"
  by (auto simp: next_of_def set_queue_def)

lemma next_of_upd [simp]: "next_of (s\<lparr>gq_head := h\<rparr>) = next_of s" "next_of (s\<lparr>gq_tail := h\<rparr>) = next_of s"
  "next_of (s\<lparr>fresh := n\<rparr>) = next_of s"
  by (auto simp: next_of_def fun_eq_iff)

lemma set_queue_simps [simp]:
  "queues (set_queue a q s) = (queues s)(a \<mapsto> q)" "gq_head (set_queue a q s) = gq_head s"
  "gq_tail (set_queue a q s) = gq_tail s" "fresh (set_queue a q s) = fresh s"
  by (simp_all add: set_queue_def)

lemma gq_inv_update:
  "gq_inv s xs \<Longrightarrow> queues s a = Some q0 \<Longrightarrow> mq_next q = mq_next q0 \<Longrightarrow> gq_inv (set_queue a q s) xs"
  unfolding gq_inv_def next_of_set_queue
  by (auto simp: next_of_def fun_upd_idem)

lemma globalmq_push_inv:
  assumes inv: "gq_inv s xs" and a: "queues s a = Some q" and new: "a \<notin> set xs"
  shows "\<exists>s'. skynet_globalmq_push a s = Some s' \<and> gq_inv s' (xs @ [a]) \<and> fresh s' = fresh s \<and>
    (\<forall>b. map_option (\<lambda>q. q\<lparr>mq_next := None\<rparr>) (queues s' b) = map_option (\<lambda>q. q\<lparr>mq_next := None\<rparr>) (queues s b))"
proof (cases "xs = []")
  case True
  with inv a show ?thesis
    by (auto simp: skynet_globalmq_push_def gq_inv_def next_of_def split: option.splits)
next
  case False
  have next_a: "mq_next q = None" using inv new a by (auto simp: gq_inv_def next_of_def)
  obtain t where t: "last xs = t" "t \<in> set xs" "t \<noteq> a" using False new by (metis last_in_set)
  obtain tq where tq: "queues s t = Some tq" using inv t(2) by (auto simp: gq_inv_def)
  let ?s' = "set_queue t (tq\<lparr>mq_next := Some a\<rparr>) s\<lparr>gq_tail := Some a\<rparr>"
  have push: "skynet_globalmq_push a s = Some ?s'"
    using inv a False t tq next_a by (simp add: skynet_globalmq_push_def gq_inv_def)
  have nxt: "next_of ?s' = (next_of s)(t := Some a, a := None)"
    using next_a a t(3) by (auto simp: next_of_set_queue next_of_def fun_eq_iff)
  have "chain ((next_of s)(last xs := Some a, a := None)) (gq_head s) (xs @ [a])"
    using inv new False by (intro chain_snoc) (auto simp: gq_inv_def)
  then have "chain (next_of ?s') (gq_head s) (xs @ [a])"
    unfolding nxt t(1) .
  then have "gq_inv ?s' (xs @ [a])"
    using inv new a t unfolding gq_inv_def nxt by auto
  then show ?thesis using push tq by auto
qed

lemma globalmq_pop_inv:
  assumes inv: "gq_inv s (a # xs)"
  shows "\<exists>s'. skynet_globalmq_pop s = Some (Some a, s') \<and> gq_inv s' xs \<and> fresh s' = fresh s \<and>
    (\<forall>b. map_option (\<lambda>q. q\<lparr>mq_next := None\<rparr>) (queues s' b) = map_option (\<lambda>q. q\<lparr>mq_next := None\<rparr>) (queues s b))"
proof -
  obtain q where q: "queues s a = Some q" using inv by (auto simp: gq_inv_def)
  have c: "gq_head s = Some a" "chain (next_of s) (mq_next q) xs" "a \<notin> set xs" "distinct xs"
    "gq_tail s = Some (last (a # xs))" "\<forall>b. b \<notin> set (a # xs) \<longrightarrow> next_of s b = None"
    "set xs \<subseteq> dom (queues s)"
    using inv q by (auto simp: gq_inv_def next_of_def)
  let ?s1 = "if mq_next q = None then s\<lparr>gq_head := None, gq_tail := None\<rparr> else s\<lparr>gq_head := mq_next q\<rparr>"
  let ?s' = "set_queue a (q\<lparr>mq_next := None\<rparr>) ?s1"
  have nil: "mq_next q = None \<longleftrightarrow> xs = []" using c(2) by (cases xs) auto
  have "skynet_globalmq_pop s = Some (Some a, ?s')"
    using q c(1,5) nil by (auto simp: skynet_globalmq_pop_def)
  moreover have "next_of ?s' = (next_of s)(a := None)"
    by (auto simp: next_of_set_queue)
  then have "gq_inv ?s' xs"
    unfolding gq_inv_def using c nil by (auto simp: dom_def subset_iff)
  ultimately show ?thesis using q by auto
qed

lemma globalmq_pop_empty: "gq_inv s [] \<Longrightarrow> skynet_globalmq_pop s = Some (None, s)"
  by (simp add: gq_inv_def skynet_globalmq_pop_def)

subsection \<open>The mailbox of a service in the store\<close>

definition mailbox :: "addr \<Rightarrow> mq_store \<Rightarrow> message list" where
  "mailbox a s = (case queues s a of None \<Rightarrow> [] | Some q \<Rightarrow> mq_content q)"

definition mailbox_ok :: "addr \<Rightarrow> mq_store \<Rightarrow> bool" where
  "mailbox_ok a s = (case queues s a of None \<Rightarrow> False | Some q \<Rightarrow> mq_wf q)"

lemma mailbox_okE:
  assumes "mailbox_ok a s"
  obtains q where "queues s a = Some q" "mq_wf q" "mailbox a s = mq_content q"
  using assms by (auto simp: mailbox_ok_def mailbox_def split: option.splits)

lemma globalmq_push_mailbox:
  assumes "skynet_globalmq_push b s = Some s'"
  shows "mailbox a s' = mailbox a s \<and> mailbox_ok a s' = mailbox_ok a s"
  using assms
  by (auto simp: skynet_globalmq_push_def bind_Some_iff mailbox_def mailbox_ok_def split: option.splits if_splits)

lemma mailbox_push:
  assumes ok: "mailbox_ok a s" and push: "skynet_mq_push a m s = Some s'"
  shows "mailbox_ok a s' \<and> mailbox a s' = mailbox a s @ [m]"
proof (rule mailbox_okE [OF ok])
  fix q assume q: "queues s a = Some q" "mq_wf q" "mailbox a s = mq_content q"
  obtain q1 where q1: "mq_push_local m q = Some q1"
    and s': "(if \<not> mq_in_global q1 then skynet_globalmq_push a (set_queue a (q1\<lparr>mq_in_global := True\<rparr>) s)
      else Some (set_queue a q1 s)) = Some s'"
    using push q by (auto simp: skynet_mq_push_def bind_Some_iff)
  have "mq_wf q1" "mq_content q1 = mailbox a s @ [m]" using mq_push_content [OF q(2) q1] q(3) by auto
  then have "mailbox_ok a (set_queue a (q1\<lparr>mq_in_global := b\<rparr>) s) \<and>
      mailbox a (set_queue a (q1\<lparr>mq_in_global := b\<rparr>) s) = mailbox a s @ [m]"
    "mailbox_ok a (set_queue a q1 s) \<and> mailbox a (set_queue a q1 s) = mailbox a s @ [m]" for b
    by (simp_all add: mailbox_ok_def mailbox_def)
  then show ?thesis using s' globalmq_push_mailbox [of a _ s' a] by (cases "mq_in_global q1") auto
qed

lemma mailbox_pop:
  assumes ok: "mailbox_ok a s"
  shows "mailbox a s = [] \<Longrightarrow> \<exists>s'. skynet_mq_pop a s = Some (None, s') \<and> mailbox a s' = [] \<and> mailbox_ok a s'"
    and "mailbox a s = m # ms \<Longrightarrow> \<exists>s'. skynet_mq_pop a s = Some (Some m, s') \<and> mailbox a s' = ms \<and> mailbox_ok a s'"
proof -
  obtain q where q: "queues s a = Some q" "mq_wf q" "mailbox a s = mq_content q" using ok by (rule mailbox_okE)
  { assume "mailbox a s = []"
    then obtain q' where "mq_pop_local q = Some (None, q')" "mq_content q' = []" "mq_wf q'"
      using mq.deq_empty [OF q(2)] q(3) by auto
    then show "\<exists>s'. skynet_mq_pop a s = Some (None, s') \<and> mailbox a s' = [] \<and> mailbox_ok a s'"
      using q(1) by (simp add: skynet_mq_pop_def mailbox_def mailbox_ok_def) }
  { assume "mailbox a s = m # ms"
    then obtain q' where "mq_pop_local q = Some (Some m, q')" "mq_content q' = ms" "mq_wf q'"
      using mq.deq_cons [OF q(2)] q(3) by auto
    then show "\<exists>s'. skynet_mq_pop a s = Some (Some m, s') \<and> mailbox a s' = ms \<and> mailbox_ok a s'"
      using q(1) by (simp add: skynet_mq_pop_def mailbox_def mailbox_ok_def) }
qed

interpretation mailbox: fifo "skynet_mq_push a" "skynet_mq_pop a" "mailbox a" "mailbox_ok a" "\<lambda>s m. True" for a
  by unfold_locales (use mailbox_push mailbox_pop in blast)+

text \<open>A run of sends and receives on one queue, and the messages it was given.\<close>

fun mailbox_run :: "addr \<Rightarrow> message fifo_op list \<Rightarrow> mq_store \<Rightarrow> (message list \<times> mq_store) option" where
  "mailbox_run a [] s = Some ([], s)"
| "mailbox_run a (Enq m # ops) s = do { s1 \<leftarrow> skynet_mq_push a m s; mailbox_run a ops s1 }"
| "mailbox_run a (Deq # ops) s = do {
     (m, s1) \<leftarrow> skynet_mq_pop a s;
     (out, s2) \<leftarrow> mailbox_run a ops s1;
     Some ((case m of None \<Rightarrow> out | Some x \<Rightarrow> x # out), s2)
   }"

lemma mailbox_run_eq: "mailbox_run a ops s = mailbox.run a ops s"
  by (induction a ops s rule: mailbox_run.induct) (auto split: option.splits bind_splits)

subsection \<open>Guarantees\<close>

text \<open>C3. Messages: over any sequence of sends and receives on a queue, whatever growth and
  wrap-around happen inside the ring, the messages received, followed by the ones still queued,
  are the ones queued before followed by the ones sent: nothing is lost, duplicated or
  reordered.\<close>

theorem mailbox_fifo:
  assumes "mailbox_ok a s" "mailbox_run a ops s = Some (out, s')"
  shows "mailbox_ok a s' \<and> out @ mailbox a s' = mailbox a s @ concat (map (\<lambda>p. case p of Enq m \<Rightarrow> [m] | Deq \<Rightarrow> []) ops)"
proof -
  have "mailbox.sent ops = concat (map (\<lambda>p. case p of Enq m \<Rightarrow> [m] | Deq \<Rightarrow> []) ops)"
    by (induction ops) (auto split: fifo_op.splits)
  then show ?thesis using mailbox.run_conserves [OF assms(1)] assms(2) by (simp add: mailbox_run_eq)
qed

definition one_queue :: mq_store where
  "one_queue = snd (skynet_mq_create 1 skynet_mq_init)"

theorem mailbox_fifo_witness:
  "\<exists>out s'. mailbox_run 0 [Deq, Enq null_message, Deq] one_queue = Some (out, s') \<and> out @ mailbox 0 s' = [null_message]"
proof -
  have ok: "mailbox_ok 0 one_queue" "mailbox 0 one_queue = []"
    by (simp_all add: one_queue_def skynet_mq_create_def skynet_mq_init_def mailbox_ok_def mailbox_def mq_wf_new)
  obtain s1 where s1: "skynet_mq_pop 0 one_queue = Some (None, s1)" "mailbox_ok 0 s1" "mailbox 0 s1 = []"
    using mailbox_pop(1) [OF ok] by blast
  have "s1 = set_queue 0 ((new_queue 1)\<lparr>mq_in_global := False\<rparr>) one_queue"
    using s1(1) by (simp add: skynet_mq_pop_def mq_pop_local_def one_queue_def skynet_mq_create_def
        skynet_mq_init_def new_queue_def)
  then obtain s2 where s2: "skynet_mq_push 0 null_message s1 = Some s2"
    by (simp add: skynet_mq_push_def mq_push_local_def new_queue_def DEFAULT_QUEUE_SIZE_def
        skynet_globalmq_push_def one_queue_def skynet_mq_create_def skynet_mq_init_def)
  obtain s3 where "skynet_mq_pop 0 s2 = Some (Some null_message, s3)"
    using mailbox_pop(2) [of 0 s2] mailbox_push [OF s1(2) s2] s1(3) by force
  then have run: "mailbox_run 0 [Deq, Enq null_message, Deq] one_queue = Some ([null_message], s3)"
    using s1(1) s2 by simp
  from mailbox_fifo [OF ok(1) run] run ok(2) show ?thesis by simp
qed

text \<open>Overload: a receive keeps the rest of the queue, doubles the threshold until it covers
  the rest (never beyond twice it) and records the length exactly when the old threshold was
  exceeded.\<close>

theorem mq_pop_overload:
  assumes "mq_wf q" "mq_content q = m # ms"
  shows "\<exists>q'. mq_pop_local q = Some (Some m, q') \<and> mq_content q' = ms \<and>
    mq_overload q' = (if mq_overload_threshold q < length ms then length ms else mq_overload q) \<and>
    length ms \<le> mq_overload_threshold q' \<and>
    (mq_overload_threshold q' = mq_overload_threshold q \<or> mq_overload_threshold q' < 2 * length ms) \<and>
    (\<exists>k. mq_overload_threshold q' = mq_overload_threshold q * 2 ^ k)"
  using mq_pop_nonempty [OF assms] by blast

theorem mq_pop_overload_witness:
  "\<exists>q'. mq_pop_local ((new_queue 1)\<lparr>mq_tail := 2, mq_overload_threshold := 1\<rparr>) = Some (Some null_message, q')"
proof -
  let ?q = "(new_queue 1)\<lparr>mq_tail := 2, mq_overload_threshold := 1\<rparr>"
  have wf: "mq_wf ?q" by (simp add: mq_wf_def new_queue_def DEFAULT_QUEUE_SIZE_def)
  have "mq_content ?q = [null_message, null_message]"
    by (simp add: mq_content_def skynet_mq_length_def new_queue_def DEFAULT_QUEUE_SIZE_def ring_def upt_rec)
  from mq_pop_overload [OF wf this] show ?thesis by blast
qed

text \<open>C16. The global queue is a first-in-first-out list: a queue that is allocated and not yet in
  it goes to the end, the first one is taken out, and neither assertion of the code fails.\<close>

theorem global_queue_fifo:
  assumes "gq_inv s xs"
  shows "(\<forall>a. a \<in> dom (queues s) - set xs \<longrightarrow> (\<exists>s'. skynet_globalmq_push a s = Some s' \<and> gq_inv s' (xs @ [a]))) \<and>
    (case xs of
       [] \<Rightarrow> skynet_globalmq_pop s = Some (None, s)
     | a # ys \<Rightarrow> \<exists>s'. skynet_globalmq_pop s = Some (Some a, s') \<and> gq_inv s' ys)"
proof -
  have "\<exists>s'. skynet_globalmq_push a s = Some s' \<and> gq_inv s' (xs @ [a])" if a: "a \<in> dom (queues s) - set xs" for a
    using globalmq_push_inv [OF assms] a by blast
  moreover have "\<exists>s'. skynet_globalmq_pop s = Some (Some a, s') \<and> gq_inv s' ys" if "xs = a # ys" for a ys
    using globalmq_pop_inv [of s a ys] assms that by blast
  ultimately show ?thesis using assms globalmq_pop_empty by (cases xs) auto
qed

theorem global_queue_fifo_witness:
  "skynet_globalmq_pop skynet_mq_init = Some (None, skynet_mq_init)"
  using global_queue_fifo [OF gq_inv_init] by simp

end
