(* ===== verification/Scheduler.thy ===== *)
theory Scheduler
  imports Message_Queue
begin

text \<open>
  Worker threads, senders and the two queues of \<^verbatim>\<open>skynet_mq.c\<close> as a step relation.
  Each rule is one call that a thread of \<^verbatim>\<open>skynet_server.c\<close> makes while it holds the
  spinlock of the queue concerned, so the interleavings of the rules are the interleavings of
  the program. A thread keeps the queues it has taken from the global queue (the variables
  \<^verbatim>\<open>q\<close> and \<^verbatim>\<open>nq\<close> of \<^verbatim>\<open>skynet_context_message_dispatch\<close>) in \<open>held\<close>;
  \<open>alive\<close> is the set of queues whose context has not been deleted. \<open>drained\<close> are the queues
  of dead services that their thread has found empty and is about to free with
  \<^verbatim>\<open>_release\<close>, which asserts that the queue is not linked.
\<close>

record sched =
  store :: mq_store
  alive :: "addr set"
  held :: "nat \<Rightarrow> addr set"
  drained :: "nat \<Rightarrow> addr set"

definition hold :: "nat \<Rightarrow> addr \<Rightarrow> sched \<Rightarrow> sched" where
  "hold t a s = s\<lparr>held := (held s)(t := insert a (held s t))\<rparr>"

definition unhold :: "nat \<Rightarrow> addr \<Rightarrow> sched \<Rightarrow> sched" where
  "unhold t a s = s\<lparr>held := (held s)(t := held s t - {a}), drained := (drained s)(t := drained s t - {a})\<rparr>"

definition drain :: "nat \<Rightarrow> addr \<Rightarrow> sched \<Rightarrow> sched" where
  "drain t a s = s\<lparr>drained := (drained s)(t := insert a (drained s t))\<rparr>"

definition sched_init :: sched where
  "sched_init = \<lparr>store = skynet_mq_init, alive = {}, held = (\<lambda>t. {}), drained = (\<lambda>t. {})\<rparr>"

inductive sched_step :: "sched \<Rightarrow> sched \<Rightarrow> bool" where
  create: "skynet_mq_create h (store s) = (a, st) \<Longrightarrow>
    sched_step s (hold t a (s\<lparr>store := st, alive := insert a (alive s)\<rparr>))"
| fetch: "skynet_globalmq_pop (store s) = Some (Some a, st) \<Longrightarrow>
    sched_step s (hold t a (s\<lparr>store := st\<rparr>))"
| put_back: "a \<in> held s t \<Longrightarrow> a \<notin> drained s t \<Longrightarrow> skynet_globalmq_push a (store s) = Some st \<Longrightarrow>
    sched_step s (unhold t a (s\<lparr>store := st\<rparr>))"
| deliver: "a \<in> held s t \<Longrightarrow> a \<notin> drained s t \<Longrightarrow> skynet_mq_pop a (store s) = Some (Some m, st) \<Longrightarrow>
    sched_step s (s\<lparr>store := st\<rparr>)"
| idle: "a \<in> held s t \<Longrightarrow> a \<in> alive s \<Longrightarrow> skynet_mq_pop a (store s) = Some (None, st) \<Longrightarrow>
    sched_step s (unhold t a (s\<lparr>store := st\<rparr>))"
| send: "a \<in> alive s \<Longrightarrow> skynet_mq_push a m (store s) = Some st \<Longrightarrow>
    sched_step s (s\<lparr>store := st\<rparr>)"
| die: "a \<in> alive s \<Longrightarrow> skynet_mq_mark_release a (store s) = Some st \<Longrightarrow>
    sched_step s (s\<lparr>store := st, alive := alive s - {a}\<rparr>)"
| empty: "a \<in> held s t \<Longrightarrow> a \<notin> alive s \<Longrightarrow> a \<notin> drained s t \<Longrightarrow> skynet_mq_pop a (store s) = Some (None, st) \<Longrightarrow>
    sched_step s (drain t a (s\<lparr>store := st\<rparr>))"
| free: "a \<in> drained s t \<Longrightarrow> release_queue a (store s) = Some st \<Longrightarrow>
    sched_step s (unhold t a (s\<lparr>store := st\<rparr>))"

inductive reachable :: "sched \<Rightarrow> bool" where
  start: "reachable sched_init"
| step: "reachable s \<Longrightarrow> sched_step s s' \<Longrightarrow> reachable s'"

subsection \<open>The invariant\<close>

text \<open>Who is responsible for a queue: the global queue, or a thread that holds it.\<close>

definition owned :: "sched \<Rightarrow> addr list \<Rightarrow> addr \<Rightarrow> bool" where
  "owned s xs a \<longleftrightarrow> a \<in> set xs \<or> (\<exists>t. a \<in> held s t)"

definition exclusive :: "sched \<Rightarrow> addr list \<Rightarrow> bool" where
  "exclusive s xs \<longleftrightarrow> (\<forall>t u a. a \<in> held s t \<longrightarrow> a \<in> held s u \<longrightarrow> t = u) \<and>
     (\<forall>t. held s t \<inter> set xs = {} \<and> held s t \<subseteq> dom (queues (store s)))"

definition queue_ok :: "sched \<Rightarrow> addr list \<Rightarrow> addr \<Rightarrow> message_queue \<Rightarrow> bool" where
  "queue_ok s xs a q \<longleftrightarrow> mq_wf q \<and> (a \<in> alive s \<longleftrightarrow> \<not> mq_release q) \<and>
     (a \<in> alive s \<longrightarrow> (mq_in_global q \<longleftrightarrow> owned s xs a)) \<and>
     (a \<notin> alive s \<longrightarrow> owned s xs a) \<and>
     (a \<in> alive s \<longrightarrow> mq_content q \<noteq> [] \<longrightarrow> mq_in_global q)"

definition sched_inv :: "sched \<Rightarrow> addr list \<Rightarrow> bool" where
  "sched_inv s xs \<longleftrightarrow> gq_inv (store s) xs \<and> exclusive s xs \<and> alive s \<subseteq> dom (queues (store s)) \<and>
     (\<forall>t. drained s t \<subseteq> held s t - alive s) \<and>
     (\<forall>a q. queues (store s) a = Some q \<longrightarrow> queue_ok s xs a q) \<and>
     (\<forall>a. fresh (store s) \<le> a \<longrightarrow> queues (store s) a = None)"

lemma sched_invI:
  "gq_inv (store s) xs \<Longrightarrow> exclusive s xs \<Longrightarrow> alive s \<subseteq> dom (queues (store s)) \<Longrightarrow>
   (\<And>t. drained s t \<subseteq> held s t - alive s) \<Longrightarrow>
   (\<And>a q. queues (store s) a = Some q \<Longrightarrow> queue_ok s xs a q) \<Longrightarrow>
   (\<And>a. fresh (store s) \<le> a \<Longrightarrow> queues (store s) a = None) \<Longrightarrow> sched_inv s xs"
  by (auto simp: sched_inv_def)

lemma sched_inv_init: "sched_inv sched_init []"
  using gq_inv_init by (simp add: sched_inv_def sched_init_def exclusive_def skynet_mq_init_def)

lemma hold_simps [simp]:
  "store (hold t a s) = store s" "alive (hold t a s) = alive s"
  "held (hold t a s) = (held s)(t := insert a (held s t))"
  "store (unhold t a s) = store s" "alive (unhold t a s) = alive s"
  "held (unhold t a s) = (held s)(t := held s t - {a})"
  "drained (hold t a s) = drained s" "drained (unhold t a s) = (drained s)(t := drained s t - {a})"
  "store (drain t a s) = store s" "alive (drain t a s) = alive s" "held (drain t a s) = held s"
  "drained (drain t a s) = (drained s)(t := insert a (drained s t))"
  by (simp_all add: hold_def unhold_def drain_def)

text \<open>Stores that differ only in \<^verbatim>\<open>next\<close> pointers.\<close>

definition same_queues :: "mq_store \<Rightarrow> mq_store \<Rightarrow> bool" where
  "same_queues st st' \<longleftrightarrow> fresh st' = fresh st \<and>
     (\<forall>b. map_option (\<lambda>q. q\<lparr>mq_next := None\<rparr>) (queues st' b) = map_option (\<lambda>q. q\<lparr>mq_next := None\<rparr>) (queues st b))"

lemma same_queues_dom: "same_queues st st' \<Longrightarrow> dom (queues st') = dom (queues st)"
  by (auto simp: same_queues_def dom_def) (metis map_option_is_None not_None_eq)+

lemma queue_ok_next: "queue_ok s xs a (q\<lparr>mq_next := p\<rparr>) = queue_ok s xs a q"
  by (simp add: queue_ok_def)

lemma same_queues_ok:
  assumes "same_queues st st'" "queues st' a = Some q'"
  obtains q where "queues st a = Some q" "\<And>s xs. queue_ok s xs a q' = queue_ok s xs a q"
proof -
  have "map_option (\<lambda>q. q\<lparr>mq_next := None\<rparr>) (queues st a) = Some (q'\<lparr>mq_next := None\<rparr>)"
    using assms unfolding same_queues_def by (metis option.simps(9))
  then obtain q where q: "queues st a = Some q" "q\<lparr>mq_next := None\<rparr> = q'\<lparr>mq_next := None\<rparr>"
    by auto
  have "queue_ok s xs a q' = queue_ok s xs a q" for s xs
    using queue_ok_next [where q = q and p = None and s = s and xs = xs and a = a] queue_ok_next [where q = q' and p = None and s = s and xs = xs and a = a] q(2) by simp
  then show ?thesis using that q(1) by blast
qed

lemma queue_ok_cong:
  "alive s' = alive s \<Longrightarrow> owned s' ys a = owned s xs a \<Longrightarrow> queue_ok s' ys a q = queue_ok s xs a q"
  by (simp add: queue_ok_def)

lemma queue_ok_transfer:
  "queue_ok s xs a q \<Longrightarrow> (a \<in> alive s' \<longleftrightarrow> a \<in> alive s) \<Longrightarrow> owned s' ys a = owned s xs a \<Longrightarrow> queue_ok s' ys a q"
  unfolding queue_ok_def by metis

text \<open>Moving a queue between the global queue and a thread keeps the invariant.\<close>

lemma sched_inv_move:
  assumes inv: "sched_inv s xs" and gq: "gq_inv st ys" and same: "same_queues (store s) st"
    and s': "store s' = st" "alive s' = alive s" and dr: "\<And>t. drained s' t \<subseteq> held s' t - alive s"
    and ex: "exclusive s' ys" and own: "\<And>a. owned s' ys a = owned s xs a"
  shows "sched_inv s' ys"
proof (rule sched_invI)
  show "alive s' \<subseteq> dom (queues (store s'))"
    using inv same_queues_dom [OF same] s' by (simp add: sched_inv_def)
  show "queues (store s') a = None" if "fresh (store s') \<le> a" for a
    using inv same_queues_dom [OF same] same that s' unfolding sched_inv_def same_queues_def
    by (metis domIff)
  fix a q assume "queues (store s') a = Some q"
  then obtain q0 where "queues (store s) a = Some q0" "\<And>s xs. queue_ok s xs a q = queue_ok s xs a q0"
    using same_queues_ok [OF same] s'(1) by metis
  then show "queue_ok s' ys a q"
    using inv queue_ok_cong [of s' s ys a xs q0] s'(2) own by (simp add: sched_inv_def)
qed (use gq s' ex dr in simp_all)

text \<open>Changing one queue in place.\<close>

lemma sched_inv_set_queue:
  assumes inv: "sched_inv s xs" and a: "queues (store s) a = Some q0" and nx: "mq_next q = mq_next q0"
    and s': "store s' = set_queue a q (store s)" and ex: "exclusive s' xs"
    and al: "alive s' - {a} = alive s - {a}" and own: "\<And>b. b \<noteq> a \<Longrightarrow> owned s' xs b = owned s xs b"
    and ok: "queue_ok s' xs a q" and dr: "\<And>t. drained s' t \<subseteq> held s' t - alive s'"
  shows "sched_inv s' xs"
proof (rule sched_invI)
  show "gq_inv (store s') xs"
    using inv s' gq_inv_update [OF _ a nx] by (simp add: sched_inv_def)
  show "alive s' \<subseteq> dom (queues (store s'))"
    using inv s' al by (auto simp: sched_inv_def)
  show "queues (store s') b = None" if "fresh (store s') \<le> b" for b
    using inv that s' a by (auto simp: sched_inv_def)
  fix b p assume b: "queues (store s') b = Some p"
  show "queue_ok s' xs b p"
  proof (cases "b = a")
    case True
    then show ?thesis using b s' ok by simp
  next
    case False
    then have "queue_ok s xs b p" using inv b s' by (simp add: sched_inv_def)
    moreover have "b \<in> alive s' \<longleftrightarrow> b \<in> alive s" using al False by blast
    ultimately show ?thesis using own [OF False] queue_ok_transfer by blast
  qed
qed (use ex dr in simp_all)

subsection \<open>Every step keeps it\<close>

lemma owned_iff: "owned s xs a \<longleftrightarrow> a \<in> set xs \<or> (\<exists>t. a \<in> held s t)"
  by (simp add: owned_def)

lemma create_inv:
  assumes inv: "sched_inv s xs" and c: "skynet_mq_create h (store s) = (a, st)"
  shows "sched_inv (hold t a (s\<lparr>store := st, alive := insert a (alive s)\<rparr>)) xs"
proof (rule sched_invI)
  let ?s' = "hold t a (s\<lparr>store := st, alive := insert a (alive s)\<rparr>)"
  have a: "a = fresh (store s)" and st: "st = set_queue a (new_queue h) (store s)\<lparr>fresh := Suc a\<rparr>"
    using c by (auto simp: skynet_mq_create_def)
  have none: "queues (store s) a = None" using inv a by (simp add: sched_inv_def)
  then have a_new: "a \<notin> set xs" "a \<notin> held s u" "a \<notin> alive s" for u
    using inv by (auto simp: sched_inv_def gq_inv_def exclusive_def)
  have "next_of st = next_of (store s)"
    using none by (auto simp: st next_of_set_queue next_of_def new_queue_def fun_eq_iff)
  then show "gq_inv (store ?s') xs"
    using inv none by (auto simp: st sched_inv_def gq_inv_def)
  show "exclusive ?s' xs"
    using inv a_new by (auto simp: st sched_inv_def exclusive_def)
  show "alive ?s' \<subseteq> dom (queues (store ?s'))"
    using inv by (auto simp: st sched_inv_def)
  show "drained ?s' u \<subseteq> held ?s' u - alive ?s'" for u
    using inv a_new by (auto simp: sched_inv_def)
  show "queues (store ?s') b = None" if "fresh (store ?s') \<le> b" for b
    using inv that by (auto simp: st a sched_inv_def)
  fix b q assume b: "queues (store ?s') b = Some q"
  show "queue_ok ?s' xs b q"
  proof (cases "b = a")
    case True
    then show ?thesis
      using b mq_wf_new by (auto simp: st queue_ok_def owned_iff) (auto simp: new_queue_def)
  next
    case False
    then have "queue_ok s xs b q" using b inv by (simp add: st sched_inv_def)
    then show ?thesis
      by (rule queue_ok_transfer) (use False in \<open>auto simp: owned_iff\<close>)
  qed
qed

lemma fetch_inv:
  assumes inv: "sched_inv s xs" and p: "skynet_globalmq_pop (store s) = Some (Some a, st)"
  shows "\<exists>ys. sched_inv (hold t a (s\<lparr>store := st\<rparr>)) ys"
proof -
  have gq: "gq_inv (store s) xs" using inv by (simp add: sched_inv_def)
  with p have "xs \<noteq> []" using globalmq_pop_empty by auto
  then obtain b ys where bys: "xs = b # ys" by (cases xs) auto
  then have xs: "xs = a # ys" and ys: "gq_inv st ys" "same_queues (store s) st"
    using p globalmq_pop_inv [of "store s" b ys] gq by (auto simp: same_queues_def)
  have "a \<notin> set ys" using gq xs by (simp add: gq_inv_def)
  moreover have "a \<in> dom (queues st)" "dom (queues st) = dom (queues (store s))"
    using gq xs same_queues_dom [OF ys(2)] by (auto simp: gq_inv_def)
  ultimately show ?thesis
    using inv xs ys
    by (intro exI [of _ ys] sched_inv_move [OF inv ys])
      (auto simp: exclusive_def sched_inv_def owned_iff)
qed

lemma put_back_inv:
  assumes inv: "sched_inv s xs" and a: "a \<in> held s t" and p: "skynet_globalmq_push a (store s) = Some st"
  shows "sched_inv (unhold t a (s\<lparr>store := st\<rparr>)) (xs @ [a])"
proof -
  have gq: "gq_inv (store s) xs" and new: "a \<notin> set xs" and "a \<in> dom (queues (store s))"
    using inv a by (auto simp: sched_inv_def exclusive_def)
  then obtain q where "queues (store s) a = Some q" by auto
  then have ys: "gq_inv st (xs @ [a])" "same_queues (store s) st"
    using p globalmq_push_inv [OF gq _ new] by (auto simp: same_queues_def)
  have "dom (queues st) = dom (queues (store s))"
    by (rule same_queues_dom [OF ys(2)])
  moreover have "u = t" if "a \<in> held s u" for u
    using inv that a by (auto simp: sched_inv_def exclusive_def)
  ultimately show ?thesis
    using inv a new
    by (intro sched_inv_move [OF inv ys]) (auto simp: exclusive_def sched_inv_def owned_iff split: if_splits)
qed

lemma pop_cases:
  assumes "sched_inv s xs" "skynet_mq_pop a (store s) = Some (r, st)"
  obtains q q' where "queues (store s) a = Some q" "st = set_queue a q' (store s)" "queue_ok s xs a q"
    "mq_pop_local q = Some (r, q')" "mq_wf q'"
    "mq_next q' = mq_next q" "mq_release q' = mq_release q" "mq_in_global q' = (r \<noteq> None \<and> mq_in_global q)"
    "r = None \<Longrightarrow> mq_content q = [] \<and> mq_content q' = []"
proof -
  from assms(2) obtain q q' where q: "queues (store s) a = Some q" "mq_pop_local q = Some (r, q')"
    "st = set_queue a q' (store s)" by (auto simp: skynet_mq_pop_def bind_Some_iff)
  then have ok: "queue_ok s xs a q" using assms(1) by (simp add: sched_inv_def)
  then have wf: "mq_wf q" by (simp add: queue_ok_def)
  have "mq_wf q'" using q(2) wf mq.deq_hd mq.deq_none by (cases r) blast+
  moreover have "mq_content q = [] \<and> mq_content q' = []" if "r = None"
    using q(2) wf mq.deq_none that by blast
  ultimately show ?thesis using that q ok mq_pop_frame [OF q(2)] by blast
qed

lemma deliver_inv:
  assumes inv: "sched_inv s xs" and a: "a \<in> held s t" and p: "skynet_mq_pop a (store s) = Some (Some m, st)"
  shows "sched_inv (s\<lparr>store := st\<rparr>) xs"
proof (rule pop_cases [OF inv p])
  fix q q' assume q: "queues (store s) a = Some q" "st = set_queue a q' (store s)" "queue_ok s xs a q"
    "mq_next q' = mq_next q" "mq_release q' = mq_release q"
    "mq_in_global q' = (Some m \<noteq> None \<and> mq_in_global q)" "mq_wf q'"
  have "owned s xs a" using a by (auto simp: owned_iff)
  then have "queue_ok (s\<lparr>store := st\<rparr>) xs a q'"
    using q by (auto simp: queue_ok_def owned_iff)
  then show ?thesis
    using inv q by (intro sched_inv_set_queue [OF inv q(1,4)])
      (auto simp: sched_inv_def exclusive_def owned_iff)
qed

lemma idle_inv:
  assumes inv: "sched_inv s xs" and a: "a \<in> held s t" "a \<in> alive s"
    and p: "skynet_mq_pop a (store s) = Some (None, st)"
  shows "sched_inv (unhold t a (s\<lparr>store := st\<rparr>)) xs"
proof (rule pop_cases [OF inv p])
  fix q q' assume q: "queues (store s) a = Some q" "st = set_queue a q' (store s)" "queue_ok s xs a q"
    "mq_next q' = mq_next q" "mq_release q' = mq_release q"
    "mq_in_global q' = (None \<noteq> (None :: message option) \<and> mq_in_global q)" "mq_wf q'"
    "(None :: message option) = None \<Longrightarrow> mq_content q = [] \<and> mq_content q' = []"
  have one: "u = t" if "a \<in> held s u" for u using inv that a(1) by (auto simp: sched_inv_def exclusive_def)
  have new: "a \<notin> set xs" using inv a(1) by (auto simp: sched_inv_def exclusive_def)
  have "queue_ok (unhold t a (s\<lparr>store := st\<rparr>)) xs a q'"
    using q a(2) one new by (auto simp: queue_ok_def owned_iff split: if_splits)
  then show ?thesis
    using inv q by (intro sched_inv_set_queue [OF inv q(1,4)])
      (auto simp: sched_inv_def exclusive_def owned_iff split: if_splits)
qed

lemma send_inv:
  assumes inv: "sched_inv s xs" and a: "a \<in> alive s" and p: "skynet_mq_push a m (store s) = Some st"
  shows "\<exists>ys. sched_inv (s\<lparr>store := st\<rparr>) ys"
proof -
  from p obtain q q1 where q: "queues (store s) a = Some q" "mq_push_local m q = Some q1"
    and st: "(if \<not> mq_in_global q1 then skynet_globalmq_push a (set_queue a (q1\<lparr>mq_in_global := True\<rparr>) (store s))
      else Some (set_queue a q1 (store s))) = Some st"
    by (auto simp: skynet_mq_push_def bind_Some_iff)
  have ok: "queue_ok s xs a q" using inv q by (simp add: sched_inv_def)
  then have q1: "mq_wf q1" "mq_in_global q1 = mq_in_global q" "mq_next q1 = mq_next q"
    "mq_release q1 = mq_release q"
    using q(2) mq_push_content mq_push_frame by (auto simp: queue_ok_def)
  show ?thesis
  proof (cases "mq_in_global q1")
    case True
    then have "st = set_queue a q1 (store s)" using st by simp
    moreover have "queue_ok (s\<lparr>store := st\<rparr>) xs a q1"
      using ok q1 True by (auto simp: queue_ok_def owned_iff)
    ultimately show ?thesis
      using inv by (intro exI [of _ xs] sched_inv_set_queue [OF inv q(1) q1(3)])
        (auto simp: sched_inv_def exclusive_def owned_iff)
  next
    case False
    let ?st1 = "set_queue a (q1\<lparr>mq_in_global := True\<rparr>) (store s)"
    have push: "skynet_globalmq_push a ?st1 = Some st" using st False by simp
    have new: "a \<notin> set xs" "\<And>t. a \<notin> held s t"
      using ok False q1 a by (auto simp: queue_ok_def owned_iff)
    have gq: "gq_inv ?st1 xs" using inv gq_inv_update [OF _ q(1)] q1 by (simp add: sched_inv_def)
    then have st: "gq_inv st (xs @ [a])" "same_queues ?st1 st"
      using push globalmq_push_inv [OF gq _ new(1)] by (auto simp: same_queues_def)
    let ?s1 = "s\<lparr>store := st\<rparr>"
    have "sched_inv ?s1 (xs @ [a])"
    proof (rule sched_invI)
      show "gq_inv (store ?s1) (xs @ [a])" using st by simp
      have dom: "dom (queues st) = dom (queues (store s))"
        using same_queues_dom [OF st(2)] q(1) by auto
      show "exclusive ?s1 (xs @ [a])" using inv new dom by (auto simp: sched_inv_def exclusive_def)
      show "alive ?s1 \<subseteq> dom (queues (store ?s1))" using inv dom by (simp add: sched_inv_def)
      show "drained ?s1 u \<subseteq> held ?s1 u - alive ?s1" for u using inv by (simp add: sched_inv_def)
      show "queues (store ?s1) b = None" if "fresh (store ?s1) \<le> b" for b
      proof -
        have "queues (store s) b = None"
          using inv that st(2) by (simp add: sched_inv_def same_queues_def)
        then have "b \<notin> dom (queues st)" unfolding dom by (simp add: domIff)
        then show ?thesis by (simp add: domIff)
      qed
      fix b p assume "queues (store ?s1) b = Some p"
      then obtain p0 where p0: "queues ?st1 b = Some p0" "\<And>s xs. queue_ok s xs b p = queue_ok s xs b p0"
        using same_queues_ok [OF st(2)] by auto
      show "queue_ok ?s1 (xs @ [a]) b p"
      proof (cases "b = a")
        case True
        then have "p0 = q1\<lparr>mq_in_global := True\<rparr>" using p0(1) by simp
        then have "queue_ok ?s1 (xs @ [a]) b p0" using ok q1 a True by (simp add: queue_ok_def owned_iff)
        then show ?thesis using p0(2) by simp
      next
        case False
        then have "queue_ok s xs b p0" using inv p0(1) by (simp add: sched_inv_def)
        then have "queue_ok ?s1 (xs @ [a]) b p0"
          by (rule queue_ok_transfer) (use False in \<open>auto simp: owned_iff\<close>)
        then show ?thesis using p0(2) by simp
      qed
    qed
    then show ?thesis by blast
  qed
qed

lemma die_inv:
  assumes inv: "sched_inv s xs" and a: "a \<in> alive s" and p: "skynet_mq_mark_release a (store s) = Some st"
  shows "\<exists>ys. sched_inv (s\<lparr>store := st, alive := alive s - {a}\<rparr>) ys"
proof -
  let ?s1 = "s\<lparr>store := st, alive := alive s - {a}\<rparr>"
  from p obtain q where q: "queues (store s) a = Some q" "\<not> mq_release q"
    and st: "(if \<not> mq_in_global q then skynet_globalmq_push a (set_queue a (q\<lparr>mq_release := True\<rparr>) (store s))
      else Some (set_queue a (q\<lparr>mq_release := True\<rparr>) (store s))) = Some st"
    by (auto simp: skynet_mq_mark_release_def bind_Some_iff Let_def split: if_splits)
  have ok: "queue_ok s xs a q" using inv q by (simp add: sched_inv_def)
  show ?thesis
  proof (cases "mq_in_global q")
    case True
    then have "st = set_queue a (q\<lparr>mq_release := True\<rparr>) (store s)" using st by simp
    moreover have "queue_ok ?s1 xs a (q\<lparr>mq_release := True\<rparr>)"
      using ok True a by (auto simp: queue_ok_def owned_iff)
    ultimately show ?thesis
      using inv by (intro exI [of _ xs] sched_inv_set_queue [OF inv q(1)])
        (auto simp: sched_inv_def exclusive_def owned_iff)
  next
    case False
    let ?st1 = "set_queue a (q\<lparr>mq_release := True\<rparr>) (store s)"
    have push: "skynet_globalmq_push a ?st1 = Some st" using st False by simp
    have new: "a \<notin> set xs" "\<And>t. a \<notin> held s t"
      using ok False a by (auto simp: queue_ok_def owned_iff)
    have gq: "gq_inv ?st1 xs" using inv gq_inv_update [OF _ q(1)] by (simp add: sched_inv_def)
    then have st: "gq_inv st (xs @ [a])" "same_queues ?st1 st"
      using push globalmq_push_inv [OF gq _ new(1)] by (auto simp: same_queues_def)
    have dom: "dom (queues st) = dom (queues (store s))"
      using same_queues_dom [OF st(2)] q(1) by auto
    have "sched_inv ?s1 (xs @ [a])"
    proof (rule sched_invI)
      show "gq_inv (store ?s1) (xs @ [a])" using st by simp
      show "exclusive ?s1 (xs @ [a])" using inv new dom by (auto simp: sched_inv_def exclusive_def)
      show "alive ?s1 \<subseteq> dom (queues (store ?s1))" using inv dom by (auto simp: sched_inv_def)
      show "drained ?s1 u \<subseteq> held ?s1 u - alive ?s1" for u using inv by (auto simp: sched_inv_def)
      show "queues (store ?s1) b = None" if "fresh (store ?s1) \<le> b" for b
      proof -
        have "queues (store s) b = None"
          using inv that st(2) by (simp add: sched_inv_def same_queues_def)
        then have "b \<notin> dom (queues st)" unfolding dom by (simp add: domIff)
        then show ?thesis by (simp add: domIff)
      qed
      fix b p assume "queues (store ?s1) b = Some p"
      then obtain p0 where p0: "queues ?st1 b = Some p0" "\<And>s xs. queue_ok s xs b p = queue_ok s xs b p0"
        using same_queues_ok [OF st(2)] by auto
      show "queue_ok ?s1 (xs @ [a]) b p"
      proof (cases "b = a")
        case True
        then have "p0 = q\<lparr>mq_release := True\<rparr>" using p0(1) by simp
        then have "queue_ok ?s1 (xs @ [a]) b p0" using ok a True by (simp add: queue_ok_def owned_iff)
        then show ?thesis using p0(2) by simp
      next
        case False
        then have "queue_ok s xs b p0" using inv p0(1) by (simp add: sched_inv_def)
        then have "queue_ok ?s1 (xs @ [a]) b p0"
          by (rule queue_ok_transfer) (use False in \<open>auto simp: owned_iff\<close>)
        then show ?thesis using p0(2) by simp
      qed
    qed
    then show ?thesis by blast
  qed
qed

lemma empty_inv:
  assumes inv: "sched_inv s xs" and a: "a \<in> held s t" "a \<notin> alive s" and p: "skynet_mq_pop a (store s) = Some (None, st)"
  shows "sched_inv (drain t a (s\<lparr>store := st\<rparr>)) xs"
proof (rule pop_cases [OF inv p])
  fix q q' assume q: "queues (store s) a = Some q" "st = set_queue a q' (store s)" "queue_ok s xs a q"
    "mq_next q' = mq_next q" "mq_release q' = mq_release q" "mq_wf q'"
  have "queue_ok (drain t a (s\<lparr>store := st\<rparr>)) xs a q'"
    using q a by (auto simp: queue_ok_def owned_iff)
  then show ?thesis
    using inv q a by (intro sched_inv_set_queue [OF inv q(1,4)])
      (auto simp: sched_inv_def exclusive_def owned_iff split: if_splits)
qed

lemma free_inv:
  assumes inv: "sched_inv s xs" and t: "a \<in> drained s t" and f: "release_queue a (store s) = Some st"
  shows "sched_inv (unhold t a (s\<lparr>store := st\<rparr>)) xs"
proof -
  have a: "a \<in> held s t" "a \<notin> alive s" using inv t by (auto simp: sched_inv_def)
  have one: "u = t" if "a \<in> held s u" for u using inv that a(1) by (auto simp: sched_inv_def exclusive_def)
  have new: "a \<notin> set xs" using inv a(1) by (auto simp: sched_inv_def exclusive_def)
  have st: "st = store s\<lparr>queues := (queues (store s))(a := None)\<rparr>"
    using f by (auto simp: release_queue_def bind_Some_iff split: if_splits)
  show ?thesis
  proof (rule sched_invI)
    let ?s1 = "unhold t a (s\<lparr>store := st\<rparr>)"
    have "next_of st = (next_of (store s))(a := None)"
      by (auto simp: st next_of_def)
    then show "gq_inv (store ?s1) xs"
      using new inv by (auto simp: st sched_inv_def gq_inv_def)
    show "exclusive ?s1 xs"
      using inv one by (auto simp: st sched_inv_def exclusive_def split: if_splits)
    show "alive ?s1 \<subseteq> dom (queues (store ?s1))"
      using inv a(2) by (auto simp: st sched_inv_def)
    show "drained ?s1 u \<subseteq> held ?s1 u - alive ?s1" for u
      using inv by (auto simp: sched_inv_def)
    show "queues (store ?s1) b = None" if "fresh (store ?s1) \<le> b" for b
      using inv that by (auto simp: st sched_inv_def)
    show "queue_ok ?s1 xs b p" if "queues (store ?s1) b = Some p" for b p
    proof -
      have b: "b \<noteq> a" "queues (store s) b = Some p"
        using that by (auto simp: st split: if_splits)
      then have "queue_ok s xs b p" using inv by (simp add: sched_inv_def)
      moreover have "owned ?s1 xs b = owned s xs b"
        using b(1) by (auto simp: owned_iff)
      ultimately show ?thesis using queue_ok_transfer [of s xs b p ?s1 xs] by simp
    qed
  qed
qed

lemma sched_step_inv: "sched_step s s' \<Longrightarrow> sched_inv s xs \<Longrightarrow> \<exists>ys. sched_inv s' ys"
proof (induction arbitrary: xs rule: sched_step.induct)
  case (create h s a st t) then show ?case using create_inv by blast
next
  case (fetch s a st t) then show ?case using fetch_inv by blast
next
  case (put_back a s t st) then show ?case using put_back_inv by blast
next
  case (deliver a s t m st) then show ?case using deliver_inv by blast
next
  case (idle a s t st) then show ?case using idle_inv by blast
next
  case (send a s m st) then show ?case using send_inv by blast
next
  case (die a s st) then show ?case using die_inv by blast
next
  case (empty a s t st) then show ?case using empty_inv by blast
next
  case (free a s t st) then show ?case using free_inv by blast
qed

lemma reachable_inv: "reachable s \<Longrightarrow> \<exists>xs. sched_inv s xs"
proof (induction rule: reachable.induct)
  case start
  then show ?case using sched_inv_init by blast
next
  case (step s s')
  then show ?case using sched_step_inv by blast
qed

subsection \<open>The operations that the invariant allows return\<close>

lemma push_total:
  "gq_inv st xs \<Longrightarrow> queues st a = Some q \<Longrightarrow> a \<notin> set xs \<Longrightarrow> skynet_globalmq_push a st \<noteq> None"
  using globalmq_push_inv by blast

lemma fetch_total: "sched_inv s xs \<Longrightarrow> skynet_globalmq_pop (store s) \<noteq> None"
proof (cases xs)
  case (Cons a ys)
  assume "sched_inv s xs"
  then have "gq_inv (store s) (a # ys)" using Cons by (simp add: sched_inv_def)
  from globalmq_pop_inv [OF this] show ?thesis by auto
qed (simp add: sched_inv_def globalmq_pop_empty)

lemma held_total:
  assumes inv: "sched_inv s xs" and t: "a \<in> held s t"
  shows "skynet_globalmq_push a (store s) \<noteq> None \<and> skynet_mq_pop a (store s) \<noteq> None"
proof -
  have a: "a \<notin> set xs" "a \<in> dom (queues (store s))" and gq: "gq_inv (store s) xs"
    using inv t by (auto simp: sched_inv_def exclusive_def)
  then obtain q where q: "queues (store s) a = Some q" by auto
  then have "mq_wf q" using inv by (simp add: sched_inv_def queue_ok_def)
  then obtain r q' where "mq_pop_local q = Some (r, q')" using mq.deq_total by fastforce
  then show ?thesis using push_total [OF gq q a(1)] q by (simp add: skynet_mq_pop_def)
qed

text \<open>The assertion of \<^verbatim>\<open>_release\<close>: a queue that a thread holds is not linked.\<close>

lemma release_total:
  assumes inv: "sched_inv s xs" and t: "a \<in> held s t"
  shows "release_queue a (store s) \<noteq> None"
proof -
  have a: "a \<notin> set xs" "a \<in> dom (queues (store s))" and gq: "gq_inv (store s) xs"
    using inv t by (auto simp: sched_inv_def exclusive_def)
  then obtain q where q: "queues (store s) a = Some q" by auto
  have "next_of (store s) a = None" using gq a(1) by (simp add: gq_inv_def)
  then have "mq_next q = None" using q by (simp add: next_of_def)
  then show ?thesis using q by (simp add: release_queue_def)
qed

lemma die_total:
  assumes inv: "sched_inv s xs" and a: "a \<in> alive s"
  shows "skynet_mq_mark_release a (store s) \<noteq> None"
proof -
  obtain q where q: "queues (store s) a = Some q" using inv a by (auto simp: sched_inv_def)
  then have ok: "queue_ok s xs a q" and gq: "gq_inv (store s) xs" using inv by (auto simp: sched_inv_def)
  have "skynet_globalmq_push a (set_queue a (q\<lparr>mq_release := True\<rparr>) (store s)) \<noteq> None" if "\<not> mq_in_global q"
    by (rule push_total [OF gq_inv_update [OF gq q]])
      (use that ok a in \<open>auto simp: queue_ok_def owned_iff\<close>)
  then show ?thesis
    using q ok a by (auto simp: skynet_mq_mark_release_def queue_ok_def Let_def)
qed

lemma send_total:
  assumes inv: "sched_inv s xs" and a: "a \<in> alive s" and q: "queues (store s) a = Some q"
    and room: "mq_cap q * 2 \<le> int_max"
  shows "skynet_mq_push a m (store s) \<noteq> None"
proof -
  have ok: "queue_ok s xs a q" and gq: "gq_inv (store s) xs" using inv q by (auto simp: sched_inv_def)
  then obtain q1 where q1: "mq_push_local m q = Some q1" using mq_push_total room by (auto simp: queue_ok_def)
  note frame = mq_push_frame [OF q1]
  have "skynet_globalmq_push a (set_queue a (q1\<lparr>mq_in_global := True\<rparr>) (store s)) \<noteq> None"
    if "\<not> mq_in_global q1"
    by (rule push_total [OF gq_inv_update [OF gq q]])
      (use that ok a frame in \<open>auto simp: queue_ok_def owned_iff\<close>)
  then show ?thesis using q q1 by (auto simp: skynet_mq_push_def)
qed

subsection \<open>What every reachable state guarantees\<close>

text \<open>C1. A service is never dispatched by two threads at once: in every reachable state a
  message queue is held by at most one thread, and a queue that some thread holds is not in
  the global queue, where another thread could fetch it.\<close>

theorem exclusive_dispatch:
  assumes "reachable s"
  shows "(\<forall>t u a. a \<in> held s t \<and> a \<in> held s u \<longrightarrow> t = u) \<and>
    (\<exists>xs. gq_inv (store s) xs \<and> (\<forall>t. held s t \<inter> set xs = {}))"
proof -
  obtain xs where "sched_inv s xs" using reachable_inv [OF assms] by blast
  then have "gq_inv (store s) xs" "exclusive s xs" by (simp_all add: sched_inv_def)
  then show ?thesis unfolding exclusive_def by blast
qed

text \<open>C2. No wake-up is lost: whenever the queue of a live service holds a message, that queue
  is in the global queue or some thread holds it and will look at it again.\<close>

theorem no_lost_wakeup:
  assumes "reachable s" "a \<in> alive s" "queues (store s) a = Some q" "mq_content q \<noteq> []"
  shows "(\<exists>t. a \<in> held s t) \<or> (\<exists>xs. gq_inv (store s) xs \<and> a \<in> set xs)"
proof -
  obtain xs where "sched_inv s xs" using reachable_inv [OF assms(1)] by blast
  then have "gq_inv (store s) xs" "queue_ok s xs a q" using assms(3) by (auto simp: sched_inv_def)
  then show ?thesis using assms(2,4) unfolding queue_ok_def owned_def by blast
qed

text \<open>C12. No assertion of the queue code can fail and no freed queue is touched: in every
  reachable state every queue operation that a thread may call returns, the freeing of the queue
  of a dead service with its assertion that the queue is not linked included. The one
  condition is that a queue which has to grow can double within the range of \<^verbatim>\<open>int\<close>.\<close>

theorem queue_assertions_hold:
  assumes "reachable s"
  shows "skynet_globalmq_pop (store s) \<noteq> None \<and>
    (\<forall>t. \<forall>a \<in> held s t. skynet_globalmq_push a (store s) \<noteq> None \<and> skynet_mq_pop a (store s) \<noteq> None) \<and>
    (\<forall>t. \<forall>a \<in> drained s t. release_queue a (store s) \<noteq> None) \<and>
    (\<forall>a \<in> alive s. skynet_mq_mark_release a (store s) \<noteq> None \<and>
       (\<forall>q m. queues (store s) a = Some q \<and> mq_cap q * 2 \<le> int_max \<longrightarrow> skynet_mq_push a m (store s) \<noteq> None))"
proof -
  obtain xs where inv: "sched_inv s xs" using reachable_inv [OF assms] by blast
  then have "a \<in> held s t" if "a \<in> drained s t" for a t using that by (auto simp: sched_inv_def)
  then have "\<forall>t. \<forall>a \<in> drained s t. release_queue a (store s) \<noteq> None" using release_total [OF inv] by blast
  then show ?thesis using fetch_total [OF inv] held_total [OF inv] die_total [OF inv] send_total [OF inv] by blast
qed

text \<open>A run that reaches interesting states: a service is created and sent a message while its
  creator still holds its queue.\<close>

definition demo_msg :: message where
  "demo_msg = \<lparr>msg_source = 2, msg_session = 1, msg_data = Some (Bytes [7]), msg_sz = 1\<rparr>"

definition demo_created :: sched where
  "demo_created = hold 0 0 (sched_init\<lparr>store := snd (skynet_mq_create 1 skynet_mq_init), alive := {0}\<rparr>)"

definition demo_sent :: sched where
  "demo_sent = demo_created\<lparr>store := the (skynet_mq_push 0 demo_msg (store demo_created))\<rparr>"

lemmas demo_simps = demo_sent_def demo_created_def skynet_mq_create_def skynet_mq_init_def new_queue_def
  DEFAULT_QUEUE_SIZE_def MQ_OVERLOAD_def skynet_mq_push_def mq_push_local_def set_queue_def Let_def

lemma demo_created_reachable: "reachable demo_created"
proof -
  have "skynet_mq_create 1 (store sched_init) = (0, snd (skynet_mq_create 1 skynet_mq_init))"
    by (simp add: sched_init_def skynet_mq_create_def skynet_mq_init_def)
  from sched_step.create [OF this, of 0] have "sched_step sched_init demo_created"
    by (simp add: demo_created_def sched_init_def)
  with reachable.start show ?thesis by (rule reachable.step)
qed

lemma demo_sent_reachable: "reachable demo_sent"
proof -
  have "skynet_mq_push 0 demo_msg (store demo_created) = Some (store demo_sent)"
    by (simp add: demo_simps)
  from sched_step.send [OF _ this] have "sched_step demo_created demo_sent"
    by (simp add: demo_sent_def demo_created_def)
  with demo_created_reachable show ?thesis by (rule reachable.step)
qed

theorem exclusive_dispatch_witness:
  "0 \<in> held demo_sent 0 \<and> (\<exists>xs. gq_inv (store demo_sent) xs \<and> (\<forall>t. held demo_sent t \<inter> set xs = {}))"
proof -
  have "0 \<in> held demo_sent 0" by (simp add: demo_sent_def demo_created_def)
  with exclusive_dispatch [OF demo_sent_reachable] show ?thesis by blast
qed

theorem no_lost_wakeup_witness:
  "(\<exists>t. 0 \<in> held demo_sent t) \<or> (\<exists>xs. gq_inv (store demo_sent) xs \<and> 0 \<in> set xs)"
proof -
  obtain q1 where q1: "mq_push_local demo_msg (new_queue 1) = Some q1"
    using mq_push_total [OF mq_wf_new(1)] by (auto simp: new_queue_def DEFAULT_QUEUE_SIZE_def)
  have "mq_in_global q1" using mq_push_frame [OF q1] by (simp add: new_queue_def)
  then have "queues (store demo_sent) 0 = Some q1"
    using q1 by (simp add: demo_sent_def demo_created_def skynet_mq_create_def skynet_mq_init_def
        skynet_mq_push_def set_queue_def)
  moreover have "mq_content q1 \<noteq> []"
    using mq_push_content [OF mq_wf_new(1) q1] by simp
  moreover have "0 \<in> alive demo_sent" by (simp add: demo_sent_def demo_created_def)
  ultimately show ?thesis using no_lost_wakeup [OF demo_sent_reachable] by blast
qed

text \<open>The service dies; the thread that holds its queue finds it empty and is about to free it.\<close>

lemma demo_drained:
  obtains s where "reachable s" "0 \<in> drained s 0"
proof -
  obtain st where st: "skynet_mq_mark_release 0 (store demo_created) = Some st" "queues st 0 = Some ((new_queue 1)\<lparr>mq_release := True\<rparr>)"
    by (simp add: demo_simps skynet_mq_mark_release_def)
  let ?s1 = "demo_created\<lparr>store := st, alive := alive demo_created - {0}\<rparr>"
  have "sched_step demo_created ?s1" by (rule sched_step.die [OF _ st(1)]) (simp add: demo_created_def)
  then have r: "reachable ?s1" by (rule reachable.step [OF demo_created_reachable])
  obtain st2 where "skynet_mq_pop 0 (store ?s1) = Some (None, st2)"
    using st(2) by (simp add: skynet_mq_pop_def mq_pop_local_def new_queue_def)
  then have "sched_step ?s1 (drain 0 0 (?s1\<lparr>store := st2\<rparr>))"
    by (intro sched_step.empty) (simp_all add: demo_created_def sched_init_def)
  then have "reachable (drain 0 0 (?s1\<lparr>store := st2\<rparr>))" by (rule reachable.step [OF r])
  moreover have "0 \<in> drained (drain 0 0 (?s1\<lparr>store := st2\<rparr>)) 0" by simp
  ultimately show thesis by (rule that)
qed

theorem queue_assertions_hold_witness:
  "\<exists>s. reachable s \<and> 0 \<in> drained s 0 \<and> release_queue 0 (store s) \<noteq> None \<and>
    skynet_mq_mark_release 0 (store demo_sent) \<noteq> None \<and> skynet_globalmq_push 0 (store demo_sent) \<noteq> None"
proof -
  have "0 \<in> alive demo_sent" "0 \<in> held demo_sent 0" by (simp_all add: demo_sent_def demo_created_def)
  then have "skynet_mq_mark_release 0 (store demo_sent) \<noteq> None \<and> skynet_globalmq_push 0 (store demo_sent) \<noteq> None"
    using queue_assertions_hold [OF demo_sent_reachable] by blast
  moreover obtain s where "reachable s" "0 \<in> drained s 0" by (rule demo_drained)
  ultimately show ?thesis using queue_assertions_hold by blast
qed

end
