(* ===== verification/Handle_Storage.thy ===== *)
theory Handle_Storage
  imports Message_Queue "HOL-Library.List_Lexorder" "HOL-Library.Char_ord"
begin

text \<open>
  \<^verbatim>\<open>skynet_handle.c\<close>: the table that gives every service a 32-bit handle (an open
  hash table whose size is a power of two) and the sorted array of local names. A context is
  its address; the handle stored in a context (\<^verbatim>\<open>skynet_context_handle\<close>) is read
  through the argument \<open>hof\<close>, because \<^verbatim>\<open>skynet_context_new\<close> writes it only after the
  registration has returned.
\<close>

subsection \<open>Data\<close>

definition HANDLE_MASK :: u32 where "HANDLE_MASK = 0xffffff"
definition HANDLE_REMOTE_SHIFT :: nat where "HANDLE_REMOTE_SHIFT = 24"
definition DEFAULT_SLOT_SIZE :: nat where "DEFAULT_SLOT_SIZE = 4"
definition MAX_SLOT_SIZE :: nat where "MAX_SLOT_SIZE = 0x40000000"

record handle_name =
  hn_name :: string
  hn_handle :: u32

definition no_name :: handle_name where
  "no_name = \<lparr>hn_name = [], hn_handle = 0\<rparr>"

record handle_storage =
  hs_harbor :: u32
  handle_index :: u32
  slot_size :: nat
  slot :: "addr option list"
  name_cap :: nat
  name_count :: nat
  names :: "handle_name list"

subsection \<open>Handles\<close>

definition handle_hash :: "u32 \<Rightarrow> nat \<Rightarrow> nat" where
  "handle_hash h n = unat (h AND (of_nat n - 1))"

text \<open>The inner \<^verbatim>\<open>for\<close> loop of the registration: the first free slot and its handle.\<close>

fun register_scan :: "nat \<Rightarrow> u32 \<Rightarrow> handle_storage \<Rightarrow> (nat \<times> u32) option" where
  "register_scan 0 h s = None"
| "register_scan (Suc n) h s =
     (let h1 = (if h > HANDLE_MASK then 1 else h); hash = handle_hash h1 (slot_size s)
      in if slot s ! hash = None then Some (hash, h1) else register_scan n (h1 + 1) s)"

text \<open>Moving the contexts to the table of twice the size.\<close>

fun rehash :: "(addr \<Rightarrow> u32) \<Rightarrow> nat \<Rightarrow> addr option list \<Rightarrow> addr option list \<Rightarrow> addr option list option" where
  "rehash hof n [] new_slot = Some new_slot"
| "rehash hof n (None # xs) new_slot = rehash hof n xs new_slot"
| "rehash hof n (Some c # xs) new_slot = do {
     let hash = handle_hash (hof c) n;
     c_assert (new_slot ! hash = None);
     rehash hof n xs (new_slot[hash := Some c])
   }"

partial_function (option) skynet_handle_register ::
  "(addr \<Rightarrow> u32) \<Rightarrow> addr \<Rightarrow> handle_storage \<Rightarrow> (u32 \<times> handle_storage) option" where
  "skynet_handle_register hof ctx s =
     (case register_scan (slot_size s) (handle_index s) s of
        Some (hash, h) \<Rightarrow>
          Some (h OR hs_harbor s, s\<lparr>slot := (slot s)[hash := Some ctx], handle_index := h + 1\<rparr>)
      | None \<Rightarrow> do {
          c_assert (slot_size s * 2 - 1 \<le> unat HANDLE_MASK);
          new_slot \<leftarrow> rehash hof (slot_size s * 2) (slot s) (replicate (slot_size s * 2) None);
          skynet_handle_register hof ctx (s\<lparr>slot := new_slot, slot_size := slot_size s * 2\<rparr>)
        })"

definition skynet_handle_grab :: "(addr \<Rightarrow> u32) \<Rightarrow> u32 \<Rightarrow> handle_storage \<Rightarrow> addr option" where
  "skynet_handle_grab hof h s =
     (case slot s ! handle_hash h (slot_size s) of
        Some ctx \<Rightarrow> if hof ctx = h then Some ctx else None
      | None \<Rightarrow> None)"

text \<open>The loop of \<^verbatim>\<open>skynet_handle_retire\<close> that squeezes out the names of a handle.\<close>

function compact_names :: "u32 \<Rightarrow> nat \<Rightarrow> nat \<Rightarrow> nat \<Rightarrow> handle_name list \<Rightarrow> handle_name list \<times> nat" where
  "compact_names h n i j xs =
     (if i < n
      then if hn_handle (xs ! i) = h then compact_names h n (Suc i) j xs
           else compact_names h n (Suc i) (Suc j) (if i \<noteq> j then xs[j := xs ! i] else xs)
      else (xs, j))"
  by pat_completeness auto
termination by (relation "measure (\<lambda>(h, n, i, j, xs). n - i)") auto

declare compact_names.simps [simp del]

text \<open>
  The context returned is the one that the caller must release once the lock is dropped; the
  C function returns 1 exactly when there is one.
\<close>

definition skynet_handle_retire :: "(addr \<Rightarrow> u32) \<Rightarrow> u32 \<Rightarrow> handle_storage \<Rightarrow> addr option \<times> handle_storage" where
  "skynet_handle_retire hof h s =
     (let hash = handle_hash h (slot_size s) in
      case slot s ! hash of
        Some ctx \<Rightarrow>
          if hof ctx = h
          then (let (xs, j) = compact_names h (name_count s) 0 0 (names s)
                in (Some ctx, s\<lparr>slot := (slot s)[hash := None], names := xs, name_count := j\<rparr>))
          else (None, s)
      | None \<Rightarrow> (None, s))"

subsection \<open>Names\<close>

fun strcmp :: "string \<Rightarrow> string \<Rightarrow> int" where
  "strcmp [] [] = 0"
| "strcmp [] (y # ys) = -1"
| "strcmp (x # xs) [] = 1"
| "strcmp (x # xs) (y # ys) = (if x = y then strcmp xs ys else if x < y then -1 else 1)"

text \<open>
  The binary search that \<^verbatim>\<open>skynet_handle_findname\<close> and \<^verbatim>\<open>_insert_name\<close> share:
  the index where the name is (\<open>Inr\<close>), or the final \<^verbatim>\<open>begin\<close> (\<open>Inl\<close>).
\<close>

function name_search :: "handle_name list \<Rightarrow> string \<Rightarrow> int \<Rightarrow> int \<Rightarrow> int + int" where
  "name_search xs nm b e =
     (if b \<le> e
      then let mid = (b + e) div 2; c = strcmp (hn_name (xs ! nat mid)) nm
           in if c = 0 then Inr mid
              else if c < 0 then name_search xs nm (mid + 1) e
              else name_search xs nm b (mid - 1)
      else Inl b)"
  by pat_completeness auto
termination by (relation "measure (\<lambda>(xs, nm, b, e). nat (e - b + 1))") auto

declare name_search.simps [simp del]

definition skynet_handle_findname :: "string \<Rightarrow> handle_storage \<Rightarrow> u32" where
  "skynet_handle_findname nm s =
     (case name_search (names s) nm 0 (int (name_count s) - 1) of
        Inr mid \<Rightarrow> hn_handle (names s ! nat mid)
      | Inl b \<Rightarrow> 0)"

text \<open>\<^verbatim>\<open>for (i=count; i>before; i--) name[i] = name[i-1]\<close>.\<close>

fun shift_names :: "nat \<Rightarrow> nat \<Rightarrow> handle_name list \<Rightarrow> handle_name list" where
  "shift_names before i xs = (if before < i then shift_names before (i - 1) (xs[i := xs ! (i - 1)]) else xs)"

declare shift_names.simps [simp del]

definition insert_name_before :: "handle_name \<Rightarrow> nat \<Rightarrow> handle_storage \<Rightarrow> handle_storage option" where
  "insert_name_before x before s = do {
     s1 \<leftarrow> (if name_cap s \<le> name_count s
       then do {
         c_assert (name_cap s * 2 \<le> MAX_SLOT_SIZE);
         Some (s\<lparr>name_cap := name_cap s * 2,
                 names := map (\<lambda>i. if i < before then names s ! i
                     else if before < i \<and> i \<le> name_count s then names s ! (i - 1) else no_name)
                   [0..<name_cap s * 2]\<rparr>)
       }
       else Some (s\<lparr>names := shift_names before (name_count s) (names s)\<rparr>));
     Some (s1\<lparr>names := (names s1)[before := x], name_count := Suc (name_count s1)\<rparr>)
   }"

text \<open>The result is the registered name, or \<open>None\<close> (\<^verbatim>\<open>NULL\<close>) if the name is taken.\<close>

definition skynet_handle_namehandle :: "u32 \<Rightarrow> string \<Rightarrow> handle_storage \<Rightarrow> (string option \<times> handle_storage) option" where
  "skynet_handle_namehandle h nm s =
     (case name_search (names s) nm 0 (int (name_count s) - 1) of
        Inr mid \<Rightarrow> Some (None, s)
      | Inl b \<Rightarrow> do {
          s1 \<leftarrow> insert_name_before \<lparr>hn_name = nm, hn_handle = h\<rparr> (nat b) s;
          Some (Some nm, s1)
        })"

definition skynet_handle_init :: "u32 \<Rightarrow> handle_storage" where
  "skynet_handle_init harbor =
     \<lparr>hs_harbor = push_bit HANDLE_REMOTE_SHIFT (harbor AND 0xff), handle_index = 1,
      slot_size = DEFAULT_SLOT_SIZE, slot = replicate DEFAULT_SLOT_SIZE None,
      name_cap = 2, name_count = 0, names = replicate 2 no_name\<rparr>"

subsection \<open>Names are a sorted dictionary\<close>

lemma strcmp_eq: "strcmp xs ys = 0 \<longleftrightarrow> xs = ys"
  by (induction xs ys rule: strcmp.induct) auto

lemma strcmp_less: "strcmp xs ys < 0 \<longleftrightarrow> xs < ys"
  by (induction xs ys rule: strcmp.induct) auto

lemma strcmp_greater: "0 < strcmp xs ys \<longleftrightarrow> ys < xs"
  using strcmp_eq [of xs ys] strcmp_less [of xs ys] by (auto simp: not_less_iff_gr_or_eq)

definition name_list :: "handle_storage \<Rightarrow> handle_name list" where
  "name_list s = take (name_count s) (names s)"

definition names_wf :: "handle_storage \<Rightarrow> bool" where
  "names_wf s \<longleftrightarrow> name_count s \<le> name_cap s \<and> length (names s) = name_cap s \<and> 0 < name_cap s \<and>
     sorted_wrt (<) (map hn_name (name_list s))"

definition name_map :: "handle_storage \<Rightarrow> string \<rightharpoonup> u32" where
  "name_map s = map_of (map (\<lambda>x. (hn_name x, hn_handle x)) (name_list s))"

lemma length_name_list [simp]: "names_wf s \<Longrightarrow> length (name_list s) = name_count s"
  by (simp add: names_wf_def name_list_def)

lemma nth_name_list: "i < name_count s \<Longrightarrow> name_list s ! i = names s ! i"
  by (simp add: name_list_def)

lemma sorted_names_less:
  "names_wf s \<Longrightarrow> i < j \<Longrightarrow> j < name_count s \<Longrightarrow> hn_name (names s ! i) < hn_name (names s ! j)"
proof -
  assume wf: "names_wf s" and ij: "i < j" "j < name_count s"
  then have "map hn_name (name_list s) ! i < map hn_name (name_list s) ! j"
    by (intro sorted_wrt_nth_less [of "(<)"]) (auto simp: names_wf_def name_list_def)
  then show ?thesis using ij wf by (simp add: nth_name_list)
qed

lemma name_search_correct:
  assumes "names_wf s" "0 \<le> b" "e < int (name_count s)" "b \<le> e + 1"
    and "\<forall>i. int i < b \<longrightarrow> hn_name (names s ! i) < nm"
    and "\<forall>i. e < int i \<longrightarrow> i < name_count s \<longrightarrow> nm < hn_name (names s ! i)"
  shows "case name_search (names s) nm b e of
      Inr m \<Rightarrow> 0 \<le> m \<and> m < int (name_count s) \<and> hn_name (names s ! nat m) = nm
    | Inl p \<Rightarrow> 0 \<le> p \<and> p \<le> int (name_count s) \<and> (\<forall>i. int i < p \<longrightarrow> hn_name (names s ! i) < nm) \<and>
        (\<forall>i. p \<le> int i \<longrightarrow> i < name_count s \<longrightarrow> nm < hn_name (names s ! i))"
  using assms
proof (induction "names s" nm b e rule: name_search.induct)
  case (1 nm b e)
  show ?case
  proof (cases "b \<le> e")
    case False
    then show ?thesis using "1.prems" by (subst name_search.simps) auto
  next
    case True
    define m where "m = (b + e) div 2"
    have m: "b \<le> m" "m \<le> e" using True by (auto simp: m_def)
    let ?c = "strcmp (hn_name (names s ! nat m)) nm"
    have step: "name_search (names s) nm b e = (if ?c = 0 then Inr m
        else if ?c < 0 then name_search (names s) nm (m + 1) e else name_search (names s) nm b (m - 1))"
      using True by (simp add: name_search.simps [of "names s" nm b e] m_def Let_def)
    consider "?c = 0" | "?c < 0" | "0 < ?c" by linarith
    then show ?thesis
    proof cases
      case 1
      then show ?thesis using step m "1.prems" by (simp add: strcmp_eq)
    next
      case 2
      then have lt: "hn_name (names s ! nat m) < nm" by (simp add: strcmp_less)
      have "hn_name (names s ! i) < nm" if "int i < m + 1" for i
      proof -
        have "i = nat m \<or> i < nat m \<and> nat m < name_count s" using that m "1.prems"(2,3) by linarith
        then show ?thesis using sorted_names_less [OF "1.prems"(1), of i "nat m"] lt by (metis less_trans)
      qed
      then show ?thesis
        using step 2 m "1.prems" "1.hyps"(1) [OF True m_def refl] by simp
    next
      case 3
      then have gt: "nm < hn_name (names s ! nat m)" by (simp add: strcmp_greater)
      have "nm < hn_name (names s ! i)" if "m - 1 < int i" "i < name_count s" for i
      proof -
        have "i = nat m \<or> nat m < i" using that m "1.prems"(2) by linarith
        then show ?thesis using sorted_names_less [OF "1.prems"(1), of "nat m" i] gt that(2) by (metis less_trans)
      qed
      then show ?thesis
        using step 3 m "1.prems" "1.hyps"(2) [OF True m_def refl] by simp
    qed
  qed
qed

lemma sorted_names_distinct:
  "names_wf s \<Longrightarrow> i < name_count s \<Longrightarrow> j < name_count s \<Longrightarrow> hn_name (names s ! i) = hn_name (names s ! j) \<Longrightarrow> i = j"
  using sorted_names_less [of s i j] sorted_names_less [of s j i] by (metis less_irrefl linorder_neqE_nat)

lemma name_map_Some:
  assumes wf: "names_wf s" and i: "i < name_count s"
  shows "name_map s (hn_name (names s ! i)) = Some (hn_handle (names s ! i))"
proof -
  have "distinct (map fst (map (\<lambda>x. (hn_name x, hn_handle x)) (name_list s)))"
    using wf by (simp add: names_wf_def o_def strict_sorted_iff)
  moreover have "(hn_name (names s ! i), hn_handle (names s ! i)) \<in> set (map (\<lambda>x. (hn_name x, hn_handle x)) (name_list s))"
    using wf i nth_name_list [OF i] by (metis (no_types, lifting) length_map length_name_list nth_map nth_mem)
  ultimately show ?thesis by (simp add: name_map_def)
qed

lemma name_map_None:
  assumes "names_wf s" "\<And>i. i < name_count s \<Longrightarrow> hn_name (names s ! i) \<noteq> nm"
  shows "name_map s nm = None"
proof -
  have "hn_name x \<noteq> nm" if "x \<in> set (name_list s)" for x
    using that assms by (metis in_set_conv_nth length_name_list nth_name_list)
  then have "nm \<notin> hn_name ` set (name_list s)" by blast
  then show ?thesis by (simp add: name_map_def map_of_eq_None_iff image_image)
qed

lemma name_search_cases [consumes 1, case_names found absent]:
  assumes wf: "names_wf s"
  obtains (found) m where "name_search (names s) nm 0 (int (name_count s) - 1) = Inr (int m)"
      "m < name_count s" "hn_name (names s ! m) = nm"
  | (absent) p where "name_search (names s) nm 0 (int (name_count s) - 1) = Inl (int p)"
      "p \<le> name_count s" "\<And>i. i < p \<Longrightarrow> hn_name (names s ! i) < nm"
      "\<And>i. p \<le> i \<Longrightarrow> i < name_count s \<Longrightarrow> nm < hn_name (names s ! i)"
proof (cases "name_search (names s) nm 0 (int (name_count s) - 1)")
  case (Inr m)
  then show ?thesis
    using name_search_correct [OF wf, of 0 "int (name_count s) - 1" nm] found [of "nat m"] by auto
next
  case (Inl p)
  then have "0 \<le> p" "p \<le> int (name_count s)" "\<forall>i. int i < p \<longrightarrow> hn_name (names s ! i) < nm"
    "\<forall>i. p \<le> int i \<longrightarrow> i < name_count s \<longrightarrow> nm < hn_name (names s ! i)"
    using name_search_correct [OF wf, of 0 "int (name_count s) - 1" nm] by auto
  then show ?thesis using Inl absent [of "nat p"] by auto
qed

lemma findname_map:
  assumes wf: "names_wf s"
  shows "skynet_handle_findname nm s = (case name_map s nm of Some h \<Rightarrow> h | None \<Rightarrow> 0)"
  using wf
proof (cases rule: name_search_cases [where nm = nm])
  case (found m)
  then show ?thesis using name_map_Some [OF wf, of m] by (simp add: skynet_handle_findname_def)
next
  case (absent p)
  have "hn_name (names s ! i) \<noteq> nm" if "i < name_count s" for i
    using absent(3,4) [of i] that by (metis less_irrefl not_less)
  then have "name_map s nm = None" by (rule name_map_None [OF wf])
  then show ?thesis using absent(1) by (simp add: skynet_handle_findname_def)
qed

text \<open>Inserting: the shifted array is the list with the new element in its place.\<close>

lemma length_shift_names [simp]: "length (shift_names b i xs) = length xs"
  by (induction b i xs rule: shift_names.induct) (subst shift_names.simps, simp)

lemma nth_shift_names:
  "b \<le> i \<Longrightarrow> i < length xs \<Longrightarrow> k < length xs \<Longrightarrow>
   shift_names b i xs ! k = (if b < k \<and> k \<le> i then xs ! (k - 1) else xs ! k)"
proof (induction b i xs rule: shift_names.induct)
  case (1 b i xs)
  show ?case
  proof (cases "b < i")
    case True
    then have "shift_names b i xs ! k = shift_names b (i - 1) (xs[i := xs ! (i - 1)]) ! k"
      by (subst shift_names.simps) simp
    also have "\<dots> = (if b < k \<and> k \<le> i - 1 then xs[i := xs ! (i - 1)] ! (k - 1) else xs[i := xs ! (i - 1)] ! k)"
      using 1 True by simp
    also have "\<dots> = (if b < k \<and> k \<le> i then xs ! (k - 1) else xs ! k)"
      using True "1.prems" by (auto simp: nth_list_update)
    finally show ?thesis .
  next
    case False
    then show ?thesis using "1.prems" by (subst shift_names.simps) auto
  qed
qed

lemma insert_name_list:
  assumes wf: "names_wf s" and p: "p \<le> name_count s" and ins: "insert_name_before x p s = Some s'"
  shows "name_list s' = take p (name_list s) @ [x] @ drop p (name_list s)" "name_count s' = Suc (name_count s)"
    "name_count s' \<le> name_cap s'" "length (names s') = name_cap s'" "0 < name_cap s'"
    "slot s' = slot s" "slot_size s' = slot_size s" "handle_index s' = handle_index s" "hs_harbor s' = hs_harbor s"
proof -
  have cap: "name_count s \<le> name_cap s" "length (names s) = name_cap s" "0 < name_cap s"
    using wf by (auto simp: names_wf_def)
  have "\<exists>ys. s' = s\<lparr>names := ys, name_cap := length ys, name_count := Suc (name_count s)\<rparr> \<and>
      name_count s < length ys \<and>
      (\<forall>k \<le> name_count s. ys ! k = (if k < p then names s ! k else if k = p then x else names s ! (k - 1)))"
  proof (cases "name_cap s \<le> name_count s")
    case True
    then show ?thesis
      using ins cap p
      by (intro exI [of _ "names s'"]) (auto simp: insert_name_before_def nth_list_update split: if_splits)
  next
    case False
    then show ?thesis
      using ins cap p
      by (intro exI [of _ "names s'"]) (auto simp: insert_name_before_def nth_list_update nth_shift_names)
  qed
  then obtain ys where s': "s' = s\<lparr>names := ys, name_cap := length ys, name_count := Suc (name_count s)\<rparr>"
    and len: "name_count s < length ys"
    and ys: "\<And>k. k \<le> name_count s \<Longrightarrow> ys ! k = (if k < p then names s ! k else if k = p then x else names s ! (k - 1))"
    by blast
  show "name_list s' = take p (name_list s) @ [x] @ drop p (name_list s)"
  proof (rule nth_equalityI)
    show "length (name_list s') = length (take p (name_list s) @ [x] @ drop p (name_list s))"
      using s' len cap p by (simp add: name_list_def)
    fix k assume "k < length (name_list s')"
    then have k: "k \<le> name_count s" using s' len by (simp add: name_list_def)
    then have "name_list s' ! k = ys ! k" using s' by (simp add: name_list_def)
    then show "name_list s' ! k = (take p (name_list s) @ [x] @ drop p (name_list s)) ! k"
      using ys [OF k] k p cap by (auto simp: nth_append name_list_def nth_Cons')
  qed
qed (use ins wf in \<open>auto simp: insert_name_before_def names_wf_def split: if_splits\<close>)

lemma map_of_insert_mid:
  "k \<notin> fst ` set xs \<Longrightarrow> map_of (xs @ (k, v) # ys) = (map_of (xs @ ys))(k \<mapsto> v)"
  by (induction xs) (auto simp: fun_upd_twist)

lemma namehandle_taken:
  assumes wf: "names_wf s" and nm: "name_map s nm \<noteq> None"
  shows "skynet_handle_namehandle h nm s = Some (None, s)"
  using wf
proof (cases rule: name_search_cases [where nm = nm])
  case (absent p)
  have "hn_name (names s ! i) \<noteq> nm" if "i < name_count s" for i
    using absent(3,4) [of i] that by (metis less_irrefl not_less)
  then have "name_map s nm = None" by (rule name_map_None [OF wf])
  then show ?thesis using nm by simp
qed (simp add: skynet_handle_namehandle_def)

lemma namehandle_new:
  assumes wf: "names_wf s" and new: "name_map s nm = None"
    and r: "skynet_handle_namehandle h nm s = Some (ret, s')"
  shows "ret = Some nm \<and> names_wf s' \<and> name_map s' = (name_map s)(nm \<mapsto> h) \<and>
    slot s' = slot s \<and> slot_size s' = slot_size s \<and> handle_index s' = handle_index s \<and> hs_harbor s' = hs_harbor s"
  using wf
proof (cases rule: name_search_cases [where nm = nm])
  case (found m)
  then show ?thesis using name_map_Some [OF wf, of m] new by simp
next
  case (absent p)
  let ?x = "\<lparr>hn_name = nm, hn_handle = h\<rparr>"
  have ins: "insert_name_before ?x p s = Some s'" "ret = Some nm"
    using r absent(1) by (auto simp: skynet_handle_namehandle_def bind_Some_iff)
  note l = insert_name_list [OF wf absent(2) ins(1)]
  have below: "hn_name z < nm" if z: "z \<in> set (take p (name_list s))" for z
  proof -
    obtain i where "i < length (take p (name_list s))" "take p (name_list s) ! i = z"
      using z unfolding in_set_conv_nth by blast
    then have "i < p" "z = name_list s ! i" by auto
    then show ?thesis using absent(2,3) by (simp add: nth_name_list)
  qed
  have above: "nm < hn_name z" if z: "z \<in> set (drop p (name_list s))" for z
  proof -
    obtain i where "i < length (drop p (name_list s))" "drop p (name_list s) ! i = z"
      using z unfolding in_set_conv_nth by blast
    then have "p + i < name_count s" "z = name_list s ! (p + i)" using wf absent(2) by auto
    then show ?thesis using absent(4) [of "p + i"] by (simp add: nth_name_list)
  qed
  have "sorted_wrt (<) (map hn_name (take p (name_list s)) @ map hn_name (drop p (name_list s)))"
    using wf by (simp add: names_wf_def flip: map_append)
  then have "sorted_wrt (<) (map hn_name (name_list s'))"
    using below above by (auto simp: l(1) sorted_wrt_append intro: less_trans)
  moreover have "name_map s' = (name_map s)(nm \<mapsto> h)"
  proof -
    let ?f = "\<lambda>x. (hn_name x, hn_handle x)"
    have "nm \<notin> fst ` set (map ?f (take p (name_list s)))"
      using below by (auto simp: image_iff)
    from map_of_insert_mid [OF this, of h "map ?f (drop p (name_list s))"]
    moreover have "map ?f (name_list s) = map ?f (take p (name_list s)) @ map ?f (drop p (name_list s))"
      by (simp flip: map_append)
    ultimately show ?thesis by (simp add: name_map_def l(1))
  qed
  ultimately show ?thesis using ins(2) l by (simp add: names_wf_def)
qed

text \<open>Retiring a handle removes exactly its names.\<close>

lemma compact_names_filter:
  "j \<le> i \<Longrightarrow> i \<le> n \<Longrightarrow> n \<le> length xs \<Longrightarrow> compact_names h n i j xs = (ys, k) \<Longrightarrow>
   length ys = length xs \<and> k \<le> n \<and>
   take k ys = take j xs @ filter (\<lambda>x. hn_handle x \<noteq> h) (drop i (take n xs))"
proof (induction h n i j xs rule: compact_names.induct)
  case (1 h n i j xs)
  show ?case
  proof (cases "i < n")
    case False
    then show ?thesis using "1.prems" by (subst (asm) compact_names.simps) auto
  next
    case True
    then have drop: "drop i (take n xs) = xs ! i # drop (Suc i) (take n xs)"
      using "1.prems"(3) by (simp add: Cons_nth_drop_Suc [symmetric])
    show ?thesis
    proof (cases "hn_handle (xs ! i) = h")
      case eq: True
      then have "compact_names h n (Suc i) j xs = (ys, k)"
        using True "1.prems"(4) by (subst (asm) compact_names.simps) simp
      then show ?thesis using "1.IH"(1) [OF True eq] "1.prems" True drop eq by simp
    next
      case neq: False
      let ?xs = "if i \<noteq> j then xs[j := xs ! i] else xs"
      have "compact_names h n (Suc i) (Suc j) ?xs = (ys, k)"
        using True neq "1.prems"(4) by (subst (asm) compact_names.simps) simp
      moreover have "take (Suc j) ?xs = take j xs @ [xs ! i]"
        using "1.prems" True by (auto simp: take_Suc_conv_app_nth)
      moreover have "drop (Suc i) (take n ?xs) = drop (Suc i) (take n xs)"
        using "1.prems"(1) True by (auto simp: drop_take)
      moreover have "length ?xs = length xs" by simp
      ultimately show ?thesis
        using "1.IH"(2) [OF True neq] "1.prems" True drop neq by simp
    qed
  qed
qed

lemma map_of_filter_handle:
  "distinct (map hn_name xs) \<Longrightarrow>
   map_of (map (\<lambda>x. (hn_name x, hn_handle x)) (filter (\<lambda>x. hn_handle x \<noteq> h) xs)) nm =
     (if map_of (map (\<lambda>x. (hn_name x, hn_handle x)) xs) nm = Some h then None
      else map_of (map (\<lambda>x. (hn_name x, hn_handle x)) xs) nm)"
  by (induction xs) (auto simp: map_of_eq_None_iff image_iff)

lemma retire_names:
  assumes wf: "names_wf s" and r: "skynet_handle_retire hof h s = (Some c, s')"
  shows "names_wf s' \<and> name_map s' = (\<lambda>nm. if name_map s nm = Some h then None else name_map s nm)"
proof -
  obtain ys k where c: "compact_names h (name_count s) 0 0 (names s) = (ys, k)"
    and s': "names s' = ys" "name_count s' = k" "name_cap s' = name_cap s"
    using r by (auto simp: skynet_handle_retire_def Let_def split: option.splits if_splits prod.splits)
  have l: "length ys = length (names s)" "k \<le> name_count s"
    "take k ys = filter (\<lambda>x. hn_handle x \<noteq> h) (name_list s)"
    using compact_names_filter [OF _ _ _ c] wf by (auto simp: names_wf_def name_list_def)
  then have nl: "name_list s' = filter (\<lambda>x. hn_handle x \<noteq> h) (name_list s)"
    using s' by (simp add: name_list_def)
  have so: "sorted_wrt (<) (map hn_name (name_list s))" using wf by (simp add: names_wf_def)
  have d: "distinct (map hn_name (name_list s))"
    using so by (simp add: strict_sorted_iff)
  have "sorted_wrt (<) (map hn_name (name_list s'))"
    using so by (simp add: nl sorted_wrt_map sorted_wrt_filter)
  then have "names_wf s'" using wf l s' by (auto simp: names_wf_def)
  then show ?thesis by (simp add: name_map_def nl fun_eq_iff map_of_filter_handle [OF d])
qed

subsection \<open>The handle table\<close>

lemma handle_hash_mod: "k < 32 \<Longrightarrow> handle_hash h (2 ^ k) = unat h mod 2 ^ k"
proof -
  assume k: "k < 32"
  have "(of_nat (2 ^ k) - 1 :: u32) = mask k" by (simp add: mask_eq_exp_minus_1)
  then have "h AND (of_nat (2 ^ k) - 1) = take_bit k h" by (simp add: take_bit_eq_mask)
  then have "handle_hash h (2 ^ k) = unat (take_bit k h)" by (simp only: handle_hash_def)
  also have "\<dots> = unat h mod 2 ^ k" by (simp only: unsigned_take_bit_eq take_bit_eq_mod [of k "unat h"])
  finally show ?thesis .
qed

definition slots_wf :: "(addr \<Rightarrow> u32) \<Rightarrow> handle_storage \<Rightarrow> bool" where
  "slots_wf hof s \<longleftrightarrow> (\<exists>k. slot_size s = 2 ^ k \<and> 1 \<le> k \<and> k \<le> 24) \<and> length (slot s) = slot_size s \<and>
     1 \<le> handle_index s \<and> handle_index s \<le> HANDLE_MASK + 1 \<and> hs_harbor s AND HANDLE_MASK = 0 \<and>
     (\<forall>i c. i < slot_size s \<longrightarrow> slot s ! i = Some c \<longrightarrow> unat (hof c) mod slot_size s = i \<and> hof c \<noteq> 0)"

lemma slots_wfE:
  assumes "slots_wf hof s"
  obtains k where "slot_size s = 2 ^ k" "1 \<le> k" "k \<le> 24" "\<And>h. handle_hash h (slot_size s) = unat h mod slot_size s"
    "\<And>h :: u32. unat h mod slot_size s < length (slot s)"
  using assms handle_hash_mod by (auto simp: slots_wf_def)

lemma grab_iff:
  assumes wf: "slots_wf hof s"
  shows "skynet_handle_grab hof h s = Some c \<longleftrightarrow> Some c \<in> set (slot s) \<and> hof c = h"
proof (rule slots_wfE [OF wf])
  fix k assume hash: "\<And>h. handle_hash h (slot_size s) = unat h mod slot_size s"
    and lt: "\<And>h :: u32. unat h mod slot_size s < length (slot s)"
  have "slot s ! (unat (hof c) mod slot_size s) = Some c" if c: "Some c \<in> set (slot s)" for c
  proof -
    obtain i where "i < length (slot s)" "slot s ! i = Some c" using c by (auto simp: in_set_conv_nth)
    then show ?thesis using wf by (auto simp: slots_wf_def)
  qed
  then have "skynet_handle_grab hof h s = Some c" if "Some c \<in> set (slot s)" "hof c = h"
    using that by (auto simp: skynet_handle_grab_def hash)
  moreover have "Some c \<in> set (slot s) \<and> hof c = h" if "skynet_handle_grab hof h s = Some c"
    using that nth_mem [OF lt [of h]]
    by (auto simp: skynet_handle_grab_def hash split: option.splits if_splits)
  ultimately show ?thesis by blast
qed

lemma grab_None_iff:
  "slots_wf hof s \<Longrightarrow> skynet_handle_grab hof h s = None \<longleftrightarrow> (\<forall>c. Some c \<in> set (slot s) \<longrightarrow> hof c \<noteq> h)"
  using grab_iff by (metis not_None_eq)

lemma slot_unique:
  "slots_wf hof s \<Longrightarrow> Some c \<in> set (slot s) \<Longrightarrow> slot s ! (unat (hof c) mod slot_size s) = Some c"
  by (auto simp: slots_wf_def in_set_conv_nth)

lemma HANDLE_MASK_unat: "unat HANDLE_MASK = 2 ^ 24 - 1" "HANDLE_MASK = mask 24"
  by (simp_all add: HANDLE_MASK_def mask_eq_exp_minus_1)

text \<open>The scan returns a free slot and a handle in the local range, and misses a free slot only
  if it is slot 0.\<close>

lemma succ_handle:
  assumes "1 \<le> h" "h \<le> HANDLE_MASK"
  shows "unat (h + 1) = Suc (unat h)" "1 \<le> h + 1" "h + 1 \<le> HANDLE_MASK + 1"
proof -
  have "unat h < 2 ^ 24" using assms(2) by (simp add: HANDLE_MASK_def word_le_nat_alt)
  then show "unat (h + 1) = Suc (unat h)"
    by (simp add: unat_word_ariths)
  then show "1 \<le> h + 1" "h + 1 \<le> HANDLE_MASK + 1"
    using assms by (simp_all add: word_le_nat_alt HANDLE_MASK_def)
qed

lemma clip_handle:
  assumes "1 \<le> h"
  shows "1 \<le> (if h > HANDLE_MASK then 1 else h)" "(if h > HANDLE_MASK then 1 else h) \<le> HANDLE_MASK"
  using assms by (auto simp: HANDLE_MASK_def)

lemma scan_Some:
  assumes hash: "\<And>h. handle_hash h (slot_size s) = unat h mod slot_size s"
  shows "1 \<le> h \<Longrightarrow> register_scan n h s = Some (idx, h') \<Longrightarrow>
    slot s ! idx = None \<and> idx = unat h' mod slot_size s \<and> 1 \<le> h' \<and> h' \<le> HANDLE_MASK"
proof (induction n arbitrary: h)
  case (Suc n)
  note c = clip_handle [OF Suc.prems(1)]
  show ?case
    using Suc.prems(2) c Suc.IH [OF succ_handle(2) [OF c]] by (auto simp: Let_def hash split: if_splits)
qed simp

lemma scan_None:
  assumes hash: "\<And>h. handle_hash h (slot_size s) = unat h mod slot_size s"
  shows "1 \<le> h \<Longrightarrow> h \<le> HANDLE_MASK + 1 \<Longrightarrow> register_scan n h s = None \<Longrightarrow> i < n \<Longrightarrow> n < 2 ^ 24 \<Longrightarrow>
    slot s ! ((if unat h + i < 2 ^ 24 then unat h + i else unat h + i + 1 - 2 ^ 24) mod slot_size s) \<noteq> None"
proof (induction n arbitrary: h i)
  case (Suc n)
  let ?h1 = "if h > HANDLE_MASK then 1 else h"
  note c = clip_handle [OF Suc.prems(1)]
  have u: "unat ?h1 = (if unat h < 2 ^ 24 then unat h else unat h + 1 - 2 ^ 24)"
    using Suc.prems(2) by (auto simp: HANDLE_MASK_def word_le_nat_alt word_less_nat_alt)
  have now: "slot s ! (unat ?h1 mod slot_size s) \<noteq> None" and rest: "register_scan n (?h1 + 1) s = None"
    using Suc.prems(3) by (auto simp: Let_def hash split: if_splits)
  show ?case
  proof (cases i)
    case 0
    then show ?thesis using now u by (cases "unat h < 2 ^ 24") (auto simp: not_less)
  next
    case (Suc j)
    have "unat h \<le> 2 ^ 24" using Suc.prems(2) by (simp add: HANDLE_MASK_def word_le_nat_alt)
    then show ?thesis
      using Suc.IH [OF succ_handle(2,3) [OF c] rest, of j] Suc Suc.prems(4,5) u succ_handle(1) [OF c]
      by (auto split: if_splits)
  qed
qed simp

text \<open>Doubling the table moves every context to the slot its handle now selects.\<close>

lemma rehash_places:
  assumes "\<And>c c'. Some c \<in> set xs \<Longrightarrow> Some c' \<in> set xs \<Longrightarrow>
      handle_hash (hof c) n = handle_hash (hof c') n \<Longrightarrow> c = c'"
    and "distinct (filter (\<lambda>x. x \<noteq> None) xs)"
    and "\<And>c. Some c \<in> set xs \<Longrightarrow> handle_hash (hof c) n < length new \<and> new ! handle_hash (hof c) n = None"
  shows "\<exists>new'. rehash hof n xs new = Some new' \<and> length new' = length new \<and>
    (\<forall>j < length new. \<forall>c. new' ! j = Some c \<longleftrightarrow> Some c \<in> set xs \<and> handle_hash (hof c) n = j \<or> new ! j = Some c)"
  using assms
proof (induction hof n xs new rule: rehash.induct)
  case (3 hof n c xs new)
  let ?h = "handle_hash (hof c) n"
  have h: "?h < length new" "new ! ?h = None" using "3.prems"(3) [of c] by auto
  have c: "Some c \<notin> set xs" using "3.prems"(2) by (auto simp: set_filter)
  have "\<exists>new'. rehash hof n xs (new[?h := Some c]) = Some new' \<and> length new' = length (new[?h := Some c]) \<and>
    (\<forall>j < length (new[?h := Some c]). \<forall>d. new' ! j = Some d \<longleftrightarrow>
       Some d \<in> set xs \<and> handle_hash (hof d) n = j \<or> new[?h := Some c] ! j = Some d)"
  proof (rule "3.IH" [OF refl])
    show "c_assert (new ! ?h = None) = Some ()" using h(2) by (simp add: c_assert_def)
    show "distinct (filter (\<lambda>x. x \<noteq> None) xs)" using "3.prems"(2) by simp
    show "d = d'" if "Some d \<in> set xs" "Some d' \<in> set xs" "handle_hash (hof d) n = handle_hash (hof d') n" for d d'
      using "3.prems"(1) that by simp
    show "handle_hash (hof d) n < length (new[?h := Some c]) \<and> new[?h := Some c] ! handle_hash (hof d) n = None"
      if d: "Some d \<in> set xs" for d
    proof -
      have "handle_hash (hof d) n \<noteq> ?h" using "3.prems"(1) [of d c] d c by auto
      then show ?thesis using "3.prems"(3) [of d] d by simp
    qed
  qed
  then obtain new' where new': "rehash hof n xs (new[?h := Some c]) = Some new'" "length new' = length new"
    "\<And>j d. j < length new \<Longrightarrow> new' ! j = Some d \<longleftrightarrow> Some d \<in> set xs \<and> handle_hash (hof d) n = j \<or> new[?h := Some c] ! j = Some d"
    by auto
  have "new' ! j = Some d \<longleftrightarrow> Some d \<in> set (Some c # xs) \<and> handle_hash (hof d) n = j \<or> new ! j = Some d"
    if "j < length new" for j d
    using new'(3) [OF that, of d] h that by (auto simp: nth_list_update)
  then show ?case using new'(1,2) h(2) by (intro exI [of _ new']) simp
qed auto

lemma slots_distinct: "slots_wf hof s \<Longrightarrow> distinct (filter (\<lambda>x. x \<noteq> None) (slot s))"
  by (rule distinct_filter_Some) (metis slots_wf_def not_None_eq)

lemma double_table:
  assumes wf: "slots_wf hof s" and room: "slot_size s * 2 \<le> 2 ^ 24"
  obtains new where "rehash hof (slot_size s * 2) (slot s) (replicate (slot_size s * 2) None) = Some new"
    "slots_wf hof (s\<lparr>slot := new, slot_size := slot_size s * 2\<rparr>)" "\<And>c. Some c \<in> set new \<longleftrightarrow> Some c \<in> set (slot s)"
    "\<And>i. 1 \<le> i \<Longrightarrow> i < slot_size s \<Longrightarrow> new ! i = None \<or> new ! (i + slot_size s) = None"
proof (rule slots_wfE [OF wf])
  fix k let ?n = "slot_size s * 2"
  assume k: "slot_size s = 2 ^ k" "1 \<le> k" "k \<le> 24" and "\<And>h. handle_hash h (slot_size s) = unat h mod slot_size s"
  have k': "?n = 2 ^ Suc k" "Suc k \<le> 24"
    using k room by simp_all (use power_le_imp_le_exp [of "2 :: nat" "Suc k" 24] in auto)
  have hash: "handle_hash h ?n = unat h mod ?n" for h
    using handle_hash_mod [of "Suc k" h] k'(2) unfolding k'(1) by simp
  have uniq: "c = c'" if "Some c \<in> set (slot s)" "Some c' \<in> set (slot s)"
      "unat (hof c) mod slot_size s = unat (hof c') mod slot_size s" for c c'
    using slot_unique [OF wf that(1)] slot_unique [OF wf that(2)] that(3) by (metis option.inject)
  have mm: "m mod ?n mod slot_size s = m mod slot_size s" for m :: nat
    by (simp add: mod_mod_cancel)
  have "\<exists>new'. rehash hof ?n (slot s) (replicate ?n None) = Some new' \<and> length new' = length (replicate ?n (None :: addr option)) \<and>
    (\<forall>j < length (replicate ?n (None :: addr option)). \<forall>c. new' ! j = Some c \<longleftrightarrow>
      Some c \<in> set (slot s) \<and> handle_hash (hof c) ?n = j \<or> replicate ?n None ! j = Some c)"
  proof (rule rehash_places [OF _ slots_distinct [OF wf]])
    fix c c' assume "Some c \<in> set (slot s)" "Some c' \<in> set (slot s)" "handle_hash (hof c) ?n = handle_hash (hof c') ?n"
    then show "c = c'" using uniq mm by (metis hash)
  next
    fix c show "handle_hash (hof c) ?n < length (replicate ?n (None :: addr option)) \<and>
      replicate ?n None ! handle_hash (hof c) ?n = None" unfolding hash using k by simp
  qed
  then obtain new where new: "rehash hof ?n (slot s) (replicate ?n None) = Some new" "length new = ?n"
    "\<And>j c. j < ?n \<Longrightarrow> new ! j = Some c \<longleftrightarrow> Some c \<in> set (slot s) \<and> unat (hof c) mod ?n = j"
    by (auto simp: hash)
  have "slots_wf hof (s\<lparr>slot := new, slot_size := ?n\<rparr>)"
    unfolding slots_wf_def
  proof (intro conjI allI impI)
    show "\<exists>k. slot_size (s\<lparr>slot := new, slot_size := ?n\<rparr>) = 2 ^ k \<and> 1 \<le> k \<and> k \<le> 24"
      using k' by (intro exI [of _ "Suc k"]) simp
    fix i c assume i: "i < slot_size (s\<lparr>slot := new, slot_size := ?n\<rparr>)" "slot (s\<lparr>slot := new, slot_size := ?n\<rparr>) ! i = Some c"
    then have c: "Some c \<in> set (slot s)" "unat (hof c) mod ?n = i" using new(3) by auto
    then show "unat (hof c) mod slot_size (s\<lparr>slot := new, slot_size := ?n\<rparr>) = i" by simp
    show "hof c \<noteq> 0" using c(1) wf by (auto simp: slots_wf_def in_set_conv_nth)
  qed (use wf new(2) in \<open>auto simp: slots_wf_def\<close>)
  moreover have "Some c \<in> set new \<longleftrightarrow> Some c \<in> set (slot s)" for c
  proof
    assume "Some c \<in> set new"
    then obtain j where "j < ?n" "new ! j = Some c" using new(2) by (auto simp: in_set_conv_nth)
    then show "Some c \<in> set (slot s)" using new(3) by blast
  next
    assume "Some c \<in> set (slot s)"
    moreover have "unat (hof c) mod ?n < ?n" using k by simp
    ultimately have "new ! (unat (hof c) mod ?n) = Some c" using new(3) by blast
    then show "Some c \<in> set new" using \<open>_ < ?n\<close> new(2) nth_mem by metis
  qed
  moreover have "new ! i = None \<or> new ! (i + slot_size s) = None" if i: "1 \<le> i" "i < slot_size s" for i
  proof (rule ccontr)
    assume "\<not> ?thesis"
    then obtain c c' where c: "new ! i = Some c" "new ! (i + slot_size s) = Some c'" by auto
    have "Some c \<in> set (slot s)" "unat (hof c) mod ?n = i" using c new(3) [of i] i by auto
    moreover have "Some c' \<in> set (slot s)" "unat (hof c') mod ?n = i + slot_size s"
      using c new(3) [of "i + slot_size s"] i by auto
    ultimately have "c = c'" using uniq mm by (metis mod_add_self2)
    then show False using \<open>unat (hof c) mod ?n = i\<close> \<open>unat (hof c') mod ?n = i + slot_size s\<close> i by simp
  qed
  ultimately show thesis using that new(1) by blast
qed

subsection \<open>Registration, look-up and retirement\<close>

text \<open>One round of the registration loop that finds a free slot.\<close>

lemma register_found:
  assumes wf: "slots_wf hof s" and scan: "register_scan (slot_size s) (handle_index s) s = Some (idx, h0)"
    and new: "Some ctx \<notin> set (slot s)"
  defines "h \<equiv> h0 OR hs_harbor s" and "s' \<equiv> s\<lparr>slot := (slot s)[idx := Some ctx], handle_index := h0 + 1\<rparr>"
  shows "h AND HANDLE_MASK \<noteq> 0 \<and> h AND NOT HANDLE_MASK = hs_harbor s \<and> slots_wf (hof(ctx := h)) s' \<and>
    skynet_handle_grab hof h s = None \<and>
    (\<forall>g. skynet_handle_grab (hof(ctx := h)) g s' = (if g = h then Some ctx else skynet_handle_grab hof g s))"
proof (rule slots_wfE [OF wf])
  fix k assume k: "slot_size s = 2 ^ k" "1 \<le> k" "k \<le> 24"
    and hash: "\<And>h. handle_hash h (slot_size s) = unat h mod slot_size s"
    and lt: "\<And>h :: u32. unat h mod slot_size s < length (slot s)"
  have idx: "slot s ! idx = None" "idx = unat h0 mod slot_size s" "1 \<le> h0" "h0 \<le> HANDLE_MASK"
    using scan_Some [OF hash _ scan] wf by (auto simp: slots_wf_def)
  have h0m: "h0 AND HANDLE_MASK = h0"
  proof -
    have "unat h0 < 2 ^ 24" using idx(4) by (simp add: HANDLE_MASK_def word_le_nat_alt)
    then have "take_bit 24 h0 = h0"
      by (simp add: word_unat_eq_iff unsigned_take_bit_eq take_bit_nat_eq_self)
    then show ?thesis by (simp add: HANDLE_MASK_unat take_bit_eq_mask)
  qed
  have harb: "hs_harbor s AND HANDLE_MASK = 0" using wf by (simp add: slots_wf_def)
  then have low: "h AND HANDLE_MASK = h0"
    unfolding h_def by (simp add: bit.conj_disj_distrib2 h0m)
  have high: "h AND NOT HANDLE_MASK = hs_harbor s"
  proof -
    have "h0 AND NOT HANDLE_MASK = 0" using h0m by (rule and_not_mask_zero)
    moreover have "hs_harbor s AND NOT HANDLE_MASK = hs_harbor s" using harb by (rule and_not_mask_id)
    ultimately show ?thesis unfolding h_def by (simp add: bit.conj_disj_distrib2)
  qed
  have hmod: "unat h mod slot_size s = idx"
  proof -
    have "take_bit 24 h = h0" using low by (simp add: HANDLE_MASK_unat take_bit_eq_mask)
    then have "unat h0 = unat h mod 2 ^ 24" by (metis unsigned_take_bit_eq take_bit_eq_mod)
    moreover have "unat h mod 2 ^ 24 mod 2 ^ k = unat h mod 2 ^ k"
      by (rule mod_mod_cancel) (rule le_imp_power_dvd [OF k(3)])
    ultimately show ?thesis using idx(2) k(1) by simp
  qed
  have il: "idx < length (slot s)" using lt idx(2) by simp
  have hnz: "h \<noteq> 0" "h AND HANDLE_MASK \<noteq> 0" using low idx(3) by auto
  have set': "Some c \<in> set (slot s') \<longleftrightarrow> c = ctx \<or> Some c \<in> set (slot s)" for c
    using il idx(1) unfolding s'_def by (auto simp: in_set_conv_nth nth_list_update) (metis option.distinct(1))
  have wf': "slots_wf (hof(ctx := h)) s'"
    unfolding slots_wf_def
  proof (intro conjI allI impI)
    fix i c assume i: "i < slot_size s'" "slot s' ! i = Some c"
    have "i < length (slot s)" using i(1) wf by (simp add: s'_def slots_wf_def)
    then have "(i = idx \<and> c = ctx) \<or> (i \<noteq> idx \<and> slot s ! i = Some c)"
      using i by (cases "i = idx") (auto simp: s'_def)
    moreover have "c \<noteq> ctx" if "slot s ! i = Some c" using that new \<open>i < length (slot s)\<close> nth_mem by metis
    ultimately show "unat ((hof(ctx := h)) c) mod slot_size s' = i" "(hof(ctx := h)) c \<noteq> 0"
      using hmod hnz wf i(1) by (auto simp: s'_def slots_wf_def)
  qed (use wf k succ_handle [OF idx(3,4)] in \<open>auto simp: s'_def slots_wf_def\<close>)
  have none: "hof c \<noteq> h" if "Some c \<in> set (slot s)" for c
    using slot_unique [OF wf that] hmod idx(1) by auto
  then have "skynet_handle_grab hof h s = None" by (simp add: grab_None_iff [OF wf])
  moreover have "skynet_handle_grab (hof(ctx := h)) g s' = (if g = h then Some ctx else skynet_handle_grab hof g s)" for g
  proof -
    have "skynet_handle_grab (hof(ctx := h)) g s' = Some c \<longleftrightarrow> (if g = h then Some ctx else skynet_handle_grab hof g s) = Some c" for c
      using new none by (auto simp: grab_iff [OF wf] grab_iff [OF wf'] set')
    then show ?thesis by (metis option.exhaust)
  qed
  ultimately show ?thesis using hnz high wf' by blast
qed

text \<open>A fresh table of twice the size always has room, so the loop runs at most twice.\<close>

lemma scan_full:
  assumes wf: "slots_wf hof s" and none: "register_scan (slot_size s) (handle_index s) s = None"
    and small: "slot_size s < 2 ^ 24" and r: "1 \<le> r" "r < slot_size s"
  shows "slot s ! r \<noteq> None"
proof (rule slots_wfE [OF wf])
  fix k assume k: "slot_size s = 2 ^ k" "1 \<le> k" "k \<le> 24"
    and hash: "\<And>h. handle_hash h (slot_size s) = unat h mod slot_size s"
  let ?n = "slot_size s" and ?h = "unat (handle_index s)"
  have dvd: "?n dvd 2 ^ 24" unfolding k(1) by (rule le_imp_power_dvd [OF k(3)])
  have h: "1 \<le> handle_index s" "handle_index s \<le> HANDLE_MASK + 1" using wf by (auto simp: slots_wf_def)
  then have hn: "1 \<le> ?h" "?h \<le> 2 ^ 24" by (auto simp: word_le_nat_alt HANDLE_MASK_def)
  define i where "i = (r + ?n * 2 ^ 24 - ?h) mod ?n"
  have "1 * 2 ^ 24 \<le> ?n * 2 ^ 24" using k by (intro mult_le_mono1) simp
  then have "?h \<le> ?n * 2 ^ 24" using hn by simp
  then have "(?h + i) mod ?n = (r + ?n * 2 ^ 24) mod ?n"
    unfolding i_def by (simp add: mod_add_right_eq)
  then have hi: "(?h + i) mod ?n = r" using r by simp
  have i: "i < ?n" using r by (simp add: i_def)
  note occ = scan_None [OF hash h none _ small]
  show ?thesis
  proof (cases "?h + i < 2 ^ 24")
    case True
    then show ?thesis using occ [OF i] hi by simp
  next
    case False
    have "?h + i \<noteq> 2 ^ 24" using hi dvd r by auto
    then have gt: "2 ^ 24 < ?h + i" using False by simp
    then have i0: "0 < i" using hn by (cases i) auto
    have "(?h + (i - 1) + 1 - 2 ^ 24) mod ?n = r"
    proof -
      have "(?h + i - 2 ^ 24 + 2 ^ 24) mod ?n = r" using gt hi by simp
      then have "(?h + i - 2 ^ 24) mod ?n = r"
        using dvd by (metis add.right_neutral dvd_imp_mod_0 mod_add_right_eq)
      then show ?thesis using i0 by simp
    qed
    moreover have "\<not> ?h + (i - 1) < 2 ^ 24" using gt i0 by simp
    ultimately show ?thesis using occ [of "i - 1"] i by simp
  qed
qed

text \<open>What a registration that returns \<open>h\<close> and the table \<open>s'\<close> has achieved.\<close>

definition registered :: "(addr \<Rightarrow> u32) \<Rightarrow> addr \<Rightarrow> handle_storage \<Rightarrow> u32 \<Rightarrow> handle_storage \<Rightarrow> bool" where
  "registered hof ctx s h s' \<longleftrightarrow> h AND HANDLE_MASK \<noteq> 0 \<and> h AND NOT HANDLE_MASK = hs_harbor s \<and>
     slots_wf (hof(ctx := h)) s' \<and> skynet_handle_grab hof h s = None \<and>
     (\<forall>g. skynet_handle_grab (hof(ctx := h)) g s' = (if g = h then Some ctx else skynet_handle_grab hof g s)) \<and>
     names s' = names s \<and> name_count s' = name_count s \<and> name_cap s' = name_cap s \<and> hs_harbor s' = hs_harbor s"

lemma register_scan_found:
  assumes wf: "slots_wf hof s" and scan: "register_scan (slot_size s) (handle_index s) s = Some (idx, h0)"
    and new: "Some ctx \<notin> set (slot s)"
  shows "\<exists>h s'. skynet_handle_register hof ctx s = Some (h, s') \<and> registered hof ctx s h s'"
  using register_found [OF wf scan new] scan
  by (intro exI [of _ "h0 OR hs_harbor s"]
      exI [of _ "s\<lparr>slot := (slot s)[idx := Some ctx], handle_index := h0 + 1\<rparr>"])
    (simp add: skynet_handle_register.simps [of hof ctx s] registered_def)

lemma register_total:
  assumes wf: "slots_wf hof s" and room: "slot_size s * 2 < 2 ^ 24" and new: "Some ctx \<notin> set (slot s)"
  shows "\<exists>h s'. skynet_handle_register hof ctx s = Some (h, s') \<and> registered hof ctx s h s'"
proof (cases "register_scan (slot_size s) (handle_index s) s")
  case (Some r)
  then show ?thesis using register_scan_found [OF wf _ new] by (cases r) simp
next
  case None
  have "slot_size s * 2 \<le> 2 ^ 24" using room by simp
  from double_table [OF wf this] obtain nsl where
    rh: "rehash hof (slot_size s * 2) (slot s) (replicate (slot_size s * 2) None) = Some nsl"
    and wf2: "slots_wf hof (s\<lparr>slot := nsl, slot_size := slot_size s * 2\<rparr>)"
    and same: "\<And>c. Some c \<in> set nsl \<longleftrightarrow> Some c \<in> set (slot s)"
    and free: "\<And>i. 1 \<le> i \<Longrightarrow> i < slot_size s \<Longrightarrow> nsl ! i = None \<or> nsl ! (i + slot_size s) = None"
    by metis
  let ?s2 = "s\<lparr>slot := nsl, slot_size := slot_size s * 2\<rparr>"
  have "slot_size s * 2 - 1 \<le> unat HANDLE_MASK" using room by (simp add: HANDLE_MASK_def)
  then have step: "skynet_handle_register hof ctx s = skynet_handle_register hof ctx ?s2"
    using None rh by (subst skynet_handle_register.simps) (simp add: c_assert_def)
  have two: "2 \<le> slot_size s"
  proof (rule slots_wfE [OF wf])
    fix k assume k: "slot_size s = 2 ^ k" "1 \<le> k"
    have "(2::nat) ^ 1 \<le> 2 ^ k" by (rule power_increasing [OF k(2)]) simp
    then show ?thesis using k(1) by simp
  qed
  have "register_scan (slot_size ?s2) (handle_index ?s2) ?s2 \<noteq> None"
  proof
    assume full: "register_scan (slot_size ?s2) (handle_index ?s2) ?s2 = None"
    have "slot_size ?s2 < 2 ^ 24" using room by simp
    note occ = scan_full [OF wf2 full this]
    show False using occ [of 1] occ [of "1 + slot_size s"] free [of 1] two by fastforce
  qed
  then obtain idx h0 where scan: "register_scan (slot_size ?s2) (handle_index ?s2) ?s2 = Some (idx, h0)"
    by auto
  have "Some ctx \<notin> set (slot ?s2)" using same new by simp
  from register_scan_found [OF wf2 scan this] obtain h s' where
    r: "skynet_handle_register hof ctx ?s2 = Some (h, s')" "registered hof ctx ?s2 h s'" by blast
  have "skynet_handle_grab hof g ?s2 = skynet_handle_grab hof g s" for g
    by (rule option_eqI) (use same in \<open>simp add: grab_iff [OF wf] grab_iff [OF wf2]\<close>)
  then have "registered hof ctx s h s'" using r(2) by (simp add: registered_def)
  then show ?thesis using r(1) step by auto
qed

lemma retire_slots:
  assumes wf: "slots_wf hof s" and r: "skynet_handle_retire hof h s = (Some c, s')"
  shows "slots_wf hof s' \<and> skynet_handle_grab hof h s = Some c \<and>
    (\<forall>g. skynet_handle_grab hof g s' = (if g = h then None else skynet_handle_grab hof g s))"
proof -
  let ?i = "handle_hash h (slot_size s)"
  have c: "skynet_handle_grab hof h s = Some c"
    and s': "slot s' = (slot s)[?i := None]" "slot_size s' = slot_size s" "handle_index s' = handle_index s"
      "hs_harbor s' = hs_harbor s"
    using r by (auto simp: skynet_handle_retire_def skynet_handle_grab_def Let_def
        split: option.splits if_splits prod.splits)
  have wf': "slots_wf hof s'"
    using wf s' by (auto simp: slots_wf_def dest: nth_update_None)
  have i: "?i < length (slot s)" "?i = unat h mod slot_size s" using wf by (auto elim: slots_wfE)
  have hc: "hof c = h" "Some c \<in> set (slot s)" using c grab_iff [OF wf] by auto
  have set': "Some d \<in> set (slot s') \<longleftrightarrow> Some d \<in> set (slot s) \<and> hof d \<noteq> h" for d
  proof
    assume "Some d \<in> set (slot s')"
    then obtain j where l: "j < length (slot s)" and u: "(slot s)[?i := None] ! j = Some d"
      by (auto simp: s' in_set_conv_nth)
    have "j \<noteq> ?i" using u i(1) by auto
    then have j: "j < length (slot s)" "j \<noteq> ?i" "slot s ! j = Some d" using l u by auto
    then have "unat (hof d) mod slot_size s = j" using wf by (auto simp: slots_wf_def)
    then show "Some d \<in> set (slot s) \<and> hof d \<noteq> h" using j i(2) nth_mem [OF j(1)] by auto
  next
    assume d: "Some d \<in> set (slot s) \<and> hof d \<noteq> h"
    then have "slot s ! (unat (hof d) mod slot_size s) = Some d" using slot_unique [OF wf] by blast
    moreover have "slot s ! ?i = Some c" using slot_unique [OF wf hc(2)] hc(1) i(2) by simp
    ultimately have "unat (hof d) mod slot_size s \<noteq> ?i" using d hc by auto
    then have "slot s' ! (unat (hof d) mod slot_size s) = Some d"
      using \<open>slot s ! _ = Some d\<close> by (simp add: s')
    moreover have "unat (hof d) mod slot_size s < length (slot s')" using wf s' by (auto elim: slots_wfE)
    ultimately show "Some d \<in> set (slot s')" by (metis nth_mem)
  qed
  have "skynet_handle_grab hof g s' = (if g = h then None else skynet_handle_grab hof g s)" for g
    by (rule option_eqI) (use set' in \<open>auto simp: grab_iff [OF wf] grab_iff [OF wf']\<close>)
  then show ?thesis using wf' c by simp
qed

subsection \<open>The name service as an interface\<close>

text \<open>What the command layer relies on when it registers, looks up and retires names.\<close>

locale name_service =
  fixes lookup :: "string \<Rightarrow> 's \<Rightarrow> u32"
    and bind_name :: "u32 \<Rightarrow> string \<Rightarrow> 's \<Rightarrow> (string option \<times> 's) option"
    and dict :: "'s \<Rightarrow> string \<rightharpoonup> u32"
    and ok :: "'s \<Rightarrow> bool"
  assumes lookup_dict: "ok s \<Longrightarrow> lookup nm s = (case dict s nm of Some h \<Rightarrow> h | None \<Rightarrow> 0)"
    and bind_taken: "ok s \<Longrightarrow> dict s nm \<noteq> None \<Longrightarrow> bind_name h nm s = Some (None, s)"
    and bind_free: "ok s \<Longrightarrow> dict s nm = None \<Longrightarrow> bind_name h nm s = Some (r, s') \<Longrightarrow>
      r = Some nm \<and> ok s' \<and> dict s' = (dict s)(nm \<mapsto> h)"
begin

primrec bind_all :: "(string \<times> u32) list \<Rightarrow> 's \<Rightarrow> 's option" where
  "bind_all [] s = Some s"
| "bind_all (b # bs) s = (case bind_name (snd b) (fst b) s of None \<Rightarrow> None | Some (r, s') \<Rightarrow> bind_all bs s')"

text \<open>Over any sequence of registrations the first binding of a name wins.\<close>

lemma first_binding_wins:
  "ok s \<Longrightarrow> bind_all bs s = Some s' \<Longrightarrow>
   ok s' \<and> dict s' = (\<lambda>nm. case dict s nm of Some h \<Rightarrow> Some h | None \<Rightarrow> map_of bs nm)"
proof (induction bs arbitrary: s)
  case (Cons b bs)
  obtain nm h where b: "b = (nm, h)" by (cases b)
  show ?case
  proof (cases "dict s nm")
    case None
    obtain r s1 where s1: "bind_name h nm s = Some (r, s1)" "bind_all bs s1 = Some s'"
      using Cons.prems(2) b by (auto split: option.splits)
    then have "ok s1" "dict s1 = (dict s)(nm \<mapsto> h)" using bind_free [OF Cons.prems(1) None] by auto
    then show ?thesis using Cons.IH [OF _ s1(2)] None b by (auto simp: fun_eq_iff split: option.splits)
  next
    case (Some g)
    then have "bind_all bs s = Some s'" using Cons.prems bind_taken [OF Cons.prems(1), of nm h] b by simp
    then show ?thesis using Cons.IH [OF Cons.prems(1)] Some b by (auto simp: fun_eq_iff split: option.splits)
  qed
qed (auto simp: fun_eq_iff split: option.splits)

end

interpretation names: name_service skynet_handle_findname skynet_handle_namehandle name_map names_wf
  using findname_map namehandle_taken namehandle_new by unfold_locales blast+

subsection \<open>Guarantees\<close>

text \<open>C8. Registration: while the table has at most \<open>2 ^ 22\<close> slots it always succeeds, in a bounded
  number of rounds; the handle is new, its low 24 bits are not zero, its top byte is the
  harbor, and afterwards a look-up finds the new service and every service registered before,
  even when the table had to be rehashed.\<close>

theorem register_unique_handle:
  assumes "slots_wf hof s" "slot_size s * 2 < 2 ^ 24" "Some ctx \<notin> set (slot s)"
  shows "\<exists>h s'. skynet_handle_register hof ctx s = Some (h, s') \<and> registered hof ctx s h s'"
  using register_total [OF assms] .

lemma handle_init_wf: "slots_wf hof (skynet_handle_init harbor)" "names_wf (skynet_handle_init harbor)"
proof -
  have "push_bit 24 (harbor AND 0xff) AND HANDLE_MASK = (0 :: u32)"
    by (rule bit_eqI) (auto simp: bit_simps HANDLE_MASK_unat(2))
  then show "slots_wf hof (skynet_handle_init harbor)"
    by (simp add: slots_wf_def skynet_handle_init_def HANDLE_REMOTE_SHIFT_def DEFAULT_SLOT_SIZE_def
        HANDLE_MASK_def exI [of _ 2])
  show "names_wf (skynet_handle_init harbor)"
    by (simp add: names_wf_def skynet_handle_init_def name_list_def)
qed

theorem register_unique_handle_witness:
  "\<exists>h s'. skynet_handle_register (\<lambda>c. 0) 7 (skynet_handle_init 1) = Some (h, s') \<and>
    registered (\<lambda>c. 0) 7 (skynet_handle_init 1) h s'"
  by (rule register_unique_handle [OF handle_init_wf(1)])
    (simp_all add: skynet_handle_init_def DEFAULT_SLOT_SIZE_def)

text \<open>C13. Retirement: a handle that is registered is removed with exactly the names bound to it;
  every other handle and name still resolves as before, and the table stays well formed.\<close>

theorem retire_removes_exactly:
  assumes "slots_wf hof s" "names_wf s" "skynet_handle_retire hof h s = (Some c, s')"
  shows "slots_wf hof s' \<and> names_wf s' \<and> hof c = h \<and>
    (\<forall>g. skynet_handle_grab hof g s' = (if g = h then None else skynet_handle_grab hof g s)) \<and>
    (\<forall>nm. name_map s' nm = (if name_map s nm = Some h then None else name_map s nm))"
  using retire_slots [OF assms(1,3)] retire_names [OF assms(2,3)] grab_iff [OF assms(1)] by auto

text \<open>C14. Names: the binary search agrees with the dictionary of registered names; a free name is
  bound to its handle, keeping the array sorted and every other binding, and a name that is
  taken is refused without any change.\<close>

theorem names_dictionary:
  assumes "names_wf s"
  shows "skynet_handle_findname nm s = (case name_map s nm of Some h \<Rightarrow> h | None \<Rightarrow> 0) \<and>
    (name_map s nm \<noteq> None \<longrightarrow> skynet_handle_namehandle h nm s = Some (None, s)) \<and>
    (\<forall>ret s'. name_map s nm = None \<and> skynet_handle_namehandle h nm s = Some (ret, s') \<longrightarrow>
       ret = Some nm \<and> names_wf s' \<and> name_map s' = (name_map s)(nm \<mapsto> h))"
  using findname_map [OF assms] namehandle_taken [OF assms] namehandle_new [OF assms] by blast

theorem names_dictionary_witness:
  "skynet_handle_findname ''logger'' (skynet_handle_init 0) =
    (case name_map (skynet_handle_init 0) ''logger'' of Some h \<Rightarrow> h | None \<Rightarrow> 0)"
  using names_dictionary [OF handle_init_wf(2)] by blast

text \<open>A table with the one service 10 under handle 1 and the name \<open>logger\<close>.\<close>

definition demo_table :: handle_storage where
  "demo_table = (skynet_handle_init 0)\<lparr>handle_index := 2, slot := [None, Some 10, None, None],
     name_count := 1, names := [\<lparr>hn_name = ''logger'', hn_handle = 1\<rparr>, no_name]\<rparr>"

lemma demo_table_wf: "slots_wf (\<lambda>c. 1) demo_table" "names_wf demo_table"
proof -
  have "\<exists>k. (4::nat) = 2 ^ k \<and> Suc 0 \<le> k \<and> k \<le> 24" by (intro exI [of _ 2]) simp
  moreover have "i < 4 \<longleftrightarrow> i = 0 \<or> i = 1 \<or> i = 2 \<or> i = 3" for i :: nat by auto
  ultimately show "slots_wf (\<lambda>c. 1) demo_table"
    by (auto simp: demo_table_def slots_wf_def skynet_handle_init_def HANDLE_REMOTE_SHIFT_def
        DEFAULT_SLOT_SIZE_def HANDLE_MASK_def)
  show "names_wf demo_table"
    by (simp add: demo_table_def names_wf_def skynet_handle_init_def name_list_def)
qed

theorem retire_removes_exactly_witness:
  "skynet_handle_grab (\<lambda>c. 1) 1 (snd (skynet_handle_retire (\<lambda>c. 1) 1 demo_table)) = None"
proof -
  have "handle_hash 1 4 = 1" by (simp add: handle_hash_def)
  then have "skynet_handle_retire (\<lambda>c. 1) 1 demo_table =
      (Some 10, snd (skynet_handle_retire (\<lambda>c. 1) 1 demo_table))"
    by (simp add: skynet_handle_retire_def demo_table_def skynet_handle_init_def DEFAULT_SLOT_SIZE_def
        Let_def split: prod.splits)
  from retire_removes_exactly [OF demo_table_wf this] show ?thesis by simp
qed

subsection \<open>Services that are registered at the same time\<close>



text \<open>The registration in a form that is evaluated quickly: the bound is compared as an integer.\<close>

lemma register_code [code]:
  "skynet_handle_register hof ctx s =
     (case register_scan (slot_size s) (handle_index s) s of
        Some (hash, h) \<Rightarrow>
          Some (h OR hs_harbor s, s\<lparr>slot := (slot s)[hash := Some ctx], handle_index := h + 1\<rparr>)
      | None \<Rightarrow>
          if int (slot_size s) * 2 - 1 \<le> 16777215
          then (case rehash hof (slot_size s * 2) (slot s) (replicate (slot_size s * 2) None) of
              None \<Rightarrow> None
            | Some new_slot \<Rightarrow> skynet_handle_register hof ctx (s\<lparr>slot := new_slot, slot_size := slot_size s * 2\<rparr>))
          else None)"
proof -
  have "(slot_size s * 2 - 1 \<le> unat HANDLE_MASK) = (int (slot_size s) * 2 - 1 \<le> 16777215)"
    by (auto simp: HANDLE_MASK_def)
  then show ?thesis by (subst skynet_handle_register.simps) (simp add: c_assert_def split: option.split)
qed







end
