(* ===== verification/Timer.thy ===== *)
theory Timer
  imports Message_Queue
begin

text \<open>
  \<^verbatim>\<open>skynet_timer.c\<close>: the timing wheel. 256 lists hold the nodes of the current block of
  256 ticks and four levels of 64 lists hold the later ones; when the clock enters a new block,
  one list of an upper level is spread over the lower ones. A \<^verbatim>\<open>link_list\<close> is the list
  of its nodes. The lock is released while a list is dispatched; the nodes that other threads
  add in that window are an argument of \<open>timer_execute\<close>. The clocks of the machine
  (\<^verbatim>\<open>gettime\<close>, \<^verbatim>\<open>systime\<close>) are arguments too.
\<close>

subsection \<open>Data\<close>

definition TIME_NEAR_SHIFT :: nat where "TIME_NEAR_SHIFT = 8"
definition TIME_LEVEL_SHIFT :: nat where "TIME_LEVEL_SHIFT = 6"
definition TIME_NEAR :: u32 where "TIME_NEAR = push_bit TIME_NEAR_SHIFT 1"
definition TIME_LEVEL :: u32 where "TIME_LEVEL = push_bit TIME_LEVEL_SHIFT 1"
definition TIME_NEAR_MASK :: u32 where "TIME_NEAR_MASK = TIME_NEAR - 1"
definition TIME_LEVEL_MASK :: u32 where "TIME_LEVEL_MASK = TIME_LEVEL - 1"

record timer_event =
  ev_handle :: u32
  ev_session :: u32

text \<open>\<^verbatim>\<open>struct timer_node\<close> with the event stored behind it.\<close>

record timer_node =
  expire :: u32
  event :: timer_event

record timer =
  near :: "timer_node list list"
  t_levels :: "timer_node list list list"
  tm_time :: u32
  tm_starttime :: u32
  tm_current :: u64
  tm_current_point :: u64

subsection \<open>Operations\<close>

definition link_near :: "nat \<Rightarrow> timer_node \<Rightarrow> timer \<Rightarrow> timer" where
  "link_near i n T = T\<lparr>near := (near T)[i := near T ! i @ [n]]\<rparr>"

definition link_level :: "nat \<Rightarrow> nat \<Rightarrow> timer_node \<Rightarrow> timer \<Rightarrow> timer" where
  "link_level i j n T = T\<lparr>t_levels := (t_levels T)[i := (t_levels T ! i)[j := t_levels T ! i ! j @ [n]]]\<rparr>"

definition clear_near :: "nat \<Rightarrow> timer \<Rightarrow> timer_node list \<times> timer" where
  "clear_near i T = (near T ! i, T\<lparr>near := (near T)[i := []]\<rparr>)"

definition clear_level :: "nat \<Rightarrow> nat \<Rightarrow> timer \<Rightarrow> timer_node list \<times> timer" where
  "clear_level i j T = (t_levels T ! i ! j, T\<lparr>t_levels := (t_levels T)[i := (t_levels T ! i)[j := []]]\<rparr>)"

text \<open>The \<^verbatim>\<open>for\<close> loop of \<^verbatim>\<open>add_node\<close> with \<open>k\<close> rounds left: the level of a node.\<close>

fun add_level :: "nat \<Rightarrow> nat \<Rightarrow> u32 \<Rightarrow> u32 \<Rightarrow> u32 \<Rightarrow> nat" where
  "add_level 0 i msk time current_time = i"
| "add_level (Suc k) i msk time current_time =
     (if time OR (msk - 1) = current_time OR (msk - 1) then i
      else add_level k (Suc i) (push_bit TIME_LEVEL_SHIFT msk) time current_time)"

definition add_node :: "timer_node \<Rightarrow> timer \<Rightarrow> timer" where
  "add_node node T =
     (let time = expire node; current_time = tm_time T
      in if time OR TIME_NEAR_MASK = current_time OR TIME_NEAR_MASK
         then link_near (unat (time AND TIME_NEAR_MASK)) node T
         else let i = add_level 3 0 (push_bit TIME_LEVEL_SHIFT TIME_NEAR) time current_time
              in link_level i (unat (drop_bit (TIME_NEAR_SHIFT + i * TIME_LEVEL_SHIFT) time AND TIME_LEVEL_MASK))
                   node T)"

definition timer_add :: "timer_event \<Rightarrow> u32 \<Rightarrow> timer \<Rightarrow> timer" where
  "timer_add arg time T = add_node \<lparr>expire = time + tm_time T, event = arg\<rparr> T"

definition move_list :: "nat \<Rightarrow> nat \<Rightarrow> timer \<Rightarrow> timer option" where
  "move_list level idx T = do {
     c_assert (level < 4);
     let (current, T1) = clear_level level idx T;
     Some (fold add_node current T1)
   }"

text \<open>The \<^verbatim>\<open>while\<close> loop of \<^verbatim>\<open>timer_shift\<close>.\<close>

partial_function (option) shift_loop :: "u32 \<Rightarrow> u32 \<Rightarrow> u32 \<Rightarrow> nat \<Rightarrow> timer \<Rightarrow> timer option" where
  "shift_loop ct msk time i T =
     (if ct AND (msk - 1) = 0
      then let idx = time AND TIME_LEVEL_MASK
           in if idx \<noteq> 0 then move_list i (unat idx) T
              else shift_loop ct (push_bit TIME_LEVEL_SHIFT msk) (drop_bit TIME_LEVEL_SHIFT time) (Suc i) T
      else Some T)"

definition timer_shift :: "timer \<Rightarrow> timer option" where
  "timer_shift T =
     (let ct = tm_time T + 1; T1 = T\<lparr>tm_time := ct\<rparr>
      in if ct = 0 then move_list 3 0 T1
         else shift_loop ct TIME_NEAR (drop_bit TIME_NEAR_SHIFT ct) 0 T1)"

definition PTYPE_RESPONSE :: u64 where "PTYPE_RESPONSE = 1"
definition MESSAGE_TYPE_SHIFT :: nat where "MESSAGE_TYPE_SHIFT = 56"

text \<open>The message that a fired event sends, with its destination.\<close>

definition timeout_message :: "timer_event \<Rightarrow> u32 \<times> message" where
  "timeout_message ev = (ev_handle ev, \<lparr>msg_source = 0, msg_session = ev_session ev, msg_data = None,
     msg_sz = push_bit MESSAGE_TYPE_SHIFT PTYPE_RESPONSE\<rparr>)"

fun dispatch_list :: "timer_node list \<Rightarrow> (u32 \<times> message) list" where
  "dispatch_list [] = []"
| "dispatch_list (current # temp) = timeout_message (event current) # dispatch_list temp"

text \<open>
  The loop of \<^verbatim>\<open>timer_execute\<close>: \<open>adds\<close> has one list for each time the lock is
  released, the calls of \<^verbatim>\<open>timer_add\<close> that other threads make before it is taken again.
\<close>

type_synonym timer_adds = "(timer_event \<times> u32) list"

definition add_all :: "timer_adds \<Rightarrow> timer \<Rightarrow> timer" where
  "add_all = fold (\<lambda>(ev, d). timer_add ev d)"

partial_function (option) timer_execute ::
  "timer_adds list \<Rightarrow> timer \<Rightarrow> ((u32 \<times> message) list \<times> timer_adds list \<times> timer) option" where
  "timer_execute adds T =
     (let idx = unat (tm_time T AND TIME_NEAR_MASK)
      in if near T ! idx = [] then Some ([], adds, T)
         else let (current, T1) = clear_near idx T;
                  T2 = (case adds of [] \<Rightarrow> T1 | as # adds' \<Rightarrow> add_all as T1)
              in do {
                (out, rest, T3) \<leftarrow> timer_execute (tl adds) T2;
                Some (dispatch_list current @ out, rest, T3)
              })"

definition timer_update :: "timer_adds list \<Rightarrow> timer \<Rightarrow> ((u32 \<times> message) list \<times> timer) option" where
  "timer_update adds T = do {
     (out1, adds1, T1) \<leftarrow> timer_execute adds T;
     T2 \<leftarrow> timer_shift T1;
     (out2, adds2, T3) \<leftarrow> timer_execute adds1 T2;
     Some (out1 @ out2, T3)
   }"

definition timer_create_timer :: timer where
  "timer_create_timer = \<lparr>near = replicate 256 [], t_levels = replicate 4 (replicate 64 []),
     tm_time = 0, tm_starttime = 0, tm_current = 0, tm_current_point = 0\<rparr>"

text \<open>
  \<^verbatim>\<open>skynet_timeout\<close>: a message to push at once, or a new node; \<open>push_ok\<close> is what
  \<^verbatim>\<open>skynet_context_push\<close> reports. The result is the session, or -1.
\<close>

definition skynet_timeout :: "bool \<Rightarrow> u32 \<Rightarrow> int \<Rightarrow> u32 \<Rightarrow> timer \<Rightarrow> u32 \<times> (u32 \<times> message) list \<times> timer" where
  "skynet_timeout push_ok handle time session T =
     (let ev = \<lparr>ev_handle = handle, ev_session = session\<rparr>
      in if time \<le> 0
         then if push_ok then (session, [timeout_message ev], T) else (- 1, [], T)
         else (session, [], timer_add ev (word_of_int time) T))"

primrec timer_updates :: "nat \<Rightarrow> timer \<Rightarrow> ((u32 \<times> message) list \<times> timer) option" where
  "timer_updates 0 T = Some ([], T)"
| "timer_updates (Suc n) T = do {
     (out1, T1) \<leftarrow> timer_update [] T;
     (out2, T2) \<leftarrow> timer_updates n T1;
     Some (out1 @ out2, T2)
   }"

definition skynet_updatetime :: "u64 \<Rightarrow> timer \<Rightarrow> ((u32 \<times> message) list \<times> timer) option" where
  "skynet_updatetime cp T =
     (if cp < tm_current_point T then Some ([], T\<lparr>tm_current_point := cp\<rparr>)
      else if cp \<noteq> tm_current_point T
      then let diff = (ucast (cp - tm_current_point T) :: u32)
           in timer_updates (unat diff)
                (T\<lparr>tm_current_point := cp, tm_current := tm_current T + ucast diff\<rparr>)
      else Some ([], T))"

definition skynet_starttime :: "timer \<Rightarrow> u32" where "skynet_starttime T = tm_starttime T"

definition skynet_now :: "timer \<Rightarrow> u64" where "skynet_now T = tm_current T"

definition skynet_timer_init :: "u32 \<Rightarrow> u32 \<Rightarrow> u64 \<Rightarrow> timer" where
  "skynet_timer_init sec cs point =
     timer_create_timer\<lparr>tm_starttime := sec, tm_current := ucast cs, tm_current_point := point\<rparr>"

subsection \<open>Where a node belongs\<close>

datatype place = Near nat | Level nat nat

definition place_of :: "nat \<Rightarrow> nat \<Rightarrow> place" where
  "place_of c e =
     (if e div 2 ^ 8 = c div 2 ^ 8 then Near (e mod 2 ^ 8)
      else if e div 2 ^ 14 = c div 2 ^ 14 then Level 0 (e div 2 ^ 8 mod 64)
      else if e div 2 ^ 20 = c div 2 ^ 20 then Level 1 (e div 2 ^ 14 mod 64)
      else if e div 2 ^ 26 = c div 2 ^ 26 then Level 2 (e div 2 ^ 20 mod 64)
      else Level 3 (e div 2 ^ 26 mod 64))"

fun list_at :: "timer \<Rightarrow> place \<Rightarrow> timer_node list" where
  "list_at T (Near i) = near T ! i"
| "list_at T (Level i j) = t_levels T ! i ! j"

definition node_place :: "u32 \<Rightarrow> timer_node \<Rightarrow> place" where
  "node_place c n = place_of (unat c) (unat (expire n))"

definition shape :: "timer \<Rightarrow> bool" where
  "shape T \<longleftrightarrow> length (near T) = 256 \<and> length (t_levels T) = 4 \<and> (\<forall>l \<in> set (t_levels T). length l = 64)"

fun valid_place :: "place \<Rightarrow> bool" where
  "valid_place (Near i) = (i < 256)"
| "valid_place (Level i j) = (i < 4 \<and> j < 64)"

text \<open>How far in the future a node is.\<close>

definition ahead :: "u32 \<Rightarrow> timer_node \<Rightarrow> nat" where
  "ahead c n = unat (expire n - c)"

text \<open>The wheel holds exactly the nodes \<open>P\<close>, listed in the order in which they were added.\<close>

definition timer_inv :: "timer_node list \<Rightarrow> timer \<Rightarrow> bool" where
  "timer_inv P T \<longleftrightarrow> shape T \<and> (\<forall>n \<in> set P. 0 < ahead (tm_time T) n \<and> ahead (tm_time T) n < 2 ^ 31) \<and>
     (\<forall>s. valid_place s \<longrightarrow> list_at T s = filter (\<lambda>n. node_place (tm_time T) n = s) P)"

lemma time_simps [simp]:
  "TIME_NEAR_MASK = mask 8" "TIME_LEVEL_MASK = mask 6" "TIME_NEAR = 256" "TIME_NEAR_SHIFT = 8" "TIME_LEVEL_SHIFT = 6"
  by (simp_all add: TIME_NEAR_MASK_def TIME_LEVEL_MASK_def TIME_NEAR_def TIME_LEVEL_def TIME_NEAR_SHIFT_def
      TIME_LEVEL_SHIFT_def mask_eq_exp_minus_1)

lemma or_mask_eq_iff:
  fixes x y :: u32
  shows "x OR mask n = y OR mask n \<longleftrightarrow> unat x div 2 ^ n = unat y div 2 ^ n"
proof -
  have "x OR mask n = y OR mask n \<longleftrightarrow> drop_bit n x = drop_bit n y"
  proof
    assume eq: "x OR mask n = y OR mask n"
    show "drop_bit n x = drop_bit n y"
    proof (rule bit_word_eqI)
      fix k assume "k < LENGTH(32)"
      have "bit (x OR mask n) (n + k) = bit (y OR mask n) (n + k)" using eq by simp
      then show "bit (drop_bit n x) k = bit (drop_bit n y) k"
        by (cases "n + k < 32") (auto simp: bit_simps dest: bit_imp_le_length)
    qed
  next
    assume eq: "drop_bit n x = drop_bit n y"
    show "x OR mask n = y OR mask n"
    proof (rule bit_word_eqI)
      fix k assume k: "k < LENGTH(32)"
      have "bit (drop_bit n x) (k - n) = bit (drop_bit n y) (k - n)" using eq by simp
      then show "bit (x OR mask n) k = bit (y OR mask n) k"
        using k by (cases "k < n") (auto simp: bit_simps)
    qed
  qed
  also have "\<dots> \<longleftrightarrow> unat (drop_bit n x) = unat (drop_bit n y)" by (rule word_unat_eq_iff)
  finally show ?thesis by (simp only: unat_drop_bit_eq drop_bit_eq_div [where 'a = nat])
qed

lemma unat_and_mask: "unat (x AND mask n :: u32) = unat x mod 2 ^ n"
proof -
  have "unat (x AND mask n) = unat (take_bit n x)" by (simp only: take_bit_eq_mask)
  also have "\<dots> = take_bit n (unat x)" by (rule unsigned_take_bit_eq)
  finally show ?thesis by (simp only: take_bit_eq_mod [where 'a = nat])
qed

lemma add_level_place:
  fixes e c :: u32
  shows "add_level 3 0 (push_bit 6 256) e c =
    (if unat e div 2 ^ 14 = unat c div 2 ^ 14 then 0 else if unat e div 2 ^ 20 = unat c div 2 ^ 20 then 1
     else if unat e div 2 ^ 26 = unat c div 2 ^ 26 then 2 else 3)"
proof -
  have m: "push_bit 6 256 - 1 = (mask 14 :: u32)" "push_bit 6 (push_bit 6 256) - 1 = (mask 20 :: u32)"
    "push_bit 6 (push_bit 6 (push_bit 6 256)) - 1 = (mask 26 :: u32)"
    by (simp_all add: mask_eq_exp_minus_1 push_bit_eq_mult)
  have three: "(3 :: nat) = Suc (Suc (Suc 0))" by simp
  show ?thesis unfolding three add_level.simps time_simps m or_mask_eq_iff by simp
qed

lemma add_node_place:
  "add_node n T = (case node_place (tm_time T) n of Near i \<Rightarrow> link_near i n T | Level i j \<Rightarrow> link_level i j n T)"
proof -
  define e c where "e = unat (expire n)" and "c = unat (tm_time T)"
  have m: "unat (drop_bit k (expire n) AND mask 6) = e div 2 ^ k mod 64" for k
    by (simp only: unat_and_mask unat_drop_bit_eq drop_bit_eq_div [where 'a = nat] e_def) simp
  have "add_node n T = (if e div 2 ^ 8 = c div 2 ^ 8 then link_near (e mod 2 ^ 8) n T
    else let i = (if e div 2 ^ 14 = c div 2 ^ 14 then 0 else if e div 2 ^ 20 = c div 2 ^ 20 then 1
        else if e div 2 ^ 26 = c div 2 ^ 26 then 2 else 3)
      in link_level i (e div 2 ^ (8 + i * 6) mod 64) n T)"
    unfolding add_node_def Let_def time_simps or_mask_eq_iff add_level_place unat_and_mask [of _ 8] m
    by (simp only: e_def c_def)
  also have "\<dots> = (case place_of c e of Near i \<Rightarrow> link_near i n T | Level i j \<Rightarrow> link_level i j n T)"
  proof -
    have k: "8 + 0 * 6 = (8 :: nat)" "8 + 1 * 6 = (14 :: nat)" "8 + 2 * 6 = (20 :: nat)" "8 + 3 * 6 = (26 :: nat)"
      by simp_all
    show ?thesis
      unfolding place_of_def Let_def
      by (cases "e div 2 ^ 8 = c div 2 ^ 8"; cases "e div 2 ^ 14 = c div 2 ^ 14";
          cases "e div 2 ^ 20 = c div 2 ^ 20"; cases "e div 2 ^ 26 = c div 2 ^ 26")
        (simp_all only: if_True if_False place.case k simp_thms)
  qed
  finally show ?thesis by (simp only: node_place_def e_def c_def)
qed

lemma node_place_valid: "valid_place (node_place c n)"
  by (simp add: node_place_def place_of_def)

lemma shape_sub: "shape T \<Longrightarrow> i < 4 \<Longrightarrow> length (t_levels T ! i) = 64"
  by (simp add: shape_def)

lemma link_level_simps:
  assumes "shape T" "i < 4" "j < 64"
  shows "shape (link_level i j n T)" "tm_time (link_level i j n T) = tm_time T"
    "valid_place s \<Longrightarrow> list_at (link_level i j n T) s = list_at T s @ (if s = Level i j then [n] else [])"
proof -
  show "shape (link_level i j n T)"
    using assms shape_sub [OF assms(1,2)] by (auto simp: shape_def link_level_def dest: set_update_subset_insert [THEN subsetD])
  show "tm_time (link_level i j n T) = tm_time T" by (simp add: link_level_def)
  show "list_at (link_level i j n T) s = list_at T s @ (if s = Level i j then [n] else [])" if "valid_place s"
    using that assms shape_sub [OF assms(1)]
    by (cases s) (auto simp: link_level_def nth_list_update shape_def)
qed

lemma link_near_simps:
  assumes "shape T" "i < 256"
  shows "shape (link_near i n T)" "tm_time (link_near i n T) = tm_time T"
    "valid_place s \<Longrightarrow> list_at (link_near i n T) s = list_at T s @ (if s = Near i then [n] else [])"
  using assms by (auto simp: link_near_def shape_def nth_list_update) (cases s; simp)+

lemma add_node_lists:
  assumes "shape T"
  shows "shape (add_node n T)" "tm_time (add_node n T) = tm_time T"
    "valid_place s \<Longrightarrow> list_at (add_node n T) s = list_at T s @ (if s = node_place (tm_time T) n then [n] else [])"
  using node_place_valid [of "tm_time T" n] link_near_simps [OF assms] link_level_simps [OF assms]
  unfolding add_node_place by (cases "node_place (tm_time T) n"; simp del: list_at.simps)+

lemma fold_add_node_lists:
  assumes "shape T"
  shows "shape (fold add_node ns T) \<and> tm_time (fold add_node ns T) = tm_time T \<and>
    (\<forall>s. valid_place s \<longrightarrow> list_at (fold add_node ns T) s = list_at T s @ filter (\<lambda>n. node_place (tm_time T) n = s) ns)"
  using assms
proof (induction ns arbitrary: T)
  case (Cons n ns)
  show ?case
    using Cons.IH [OF add_node_lists(1) [OF Cons.prems]] add_node_lists(2,3) [OF Cons.prems] by auto
qed simp

lemma clear_level_lists:
  assumes "shape T" "i < 4" "j < 64"
  shows "fst (clear_level i j T) = list_at T (Level i j)" "shape (snd (clear_level i j T))"
    "tm_time (snd (clear_level i j T)) = tm_time T"
    "valid_place s \<Longrightarrow> list_at (snd (clear_level i j T)) s = (if s = Level i j then [] else list_at T s)"
proof -
  show "fst (clear_level i j T) = list_at T (Level i j)" "tm_time (snd (clear_level i j T)) = tm_time T"
    by (simp_all add: clear_level_def)
  show "shape (snd (clear_level i j T))"
    using assms shape_sub [OF assms(1,2)]
    by (auto simp: shape_def clear_level_def dest: set_update_subset_insert [THEN subsetD])
  show "list_at (snd (clear_level i j T)) s = (if s = Level i j then [] else list_at T s)" if "valid_place s"
    using that assms shape_sub [OF assms(1)]
    by (cases s) (auto simp: clear_level_def nth_list_update shape_def)
qed

lemma clear_near_lists:
  assumes "shape T" "i < 256"
  shows "fst (clear_near i T) = list_at T (Near i)" "shape (snd (clear_near i T))"
    "tm_time (snd (clear_near i T)) = tm_time T"
    "valid_place s \<Longrightarrow> list_at (snd (clear_near i T)) s = (if s = Near i then [] else list_at T s)"
  using assms by (auto simp: clear_near_def shape_def nth_list_update) (cases s; simp)+

lemma move_list_lists:
  assumes "shape T" "i < 4" "j < 64"
  shows "\<exists>T'. move_list i j T = Some T' \<and> shape T' \<and> tm_time T' = tm_time T \<and>
    (\<forall>s. valid_place s \<longrightarrow> list_at T' s = (if s = Level i j then [] else list_at T s) @
       filter (\<lambda>n. node_place (tm_time T) n = s) (list_at T (Level i j)))"
  using fold_add_node_lists [OF clear_level_lists(2) [OF assms], of "list_at T (Level i j)"] assms(2)
    clear_level_lists [OF assms]
  by (simp add: move_list_def c_assert_def case_prod_beta)

subsection \<open>Entering the next tick\<close>

text \<open>Levels are ordered: the lists of a level are spread over those of smaller rank.\<close>

fun rank :: "place \<Rightarrow> nat" where
  "rank (Near i) = 0"
| "rank (Level i j) = Suc i"

definition soon :: "nat \<Rightarrow> nat \<Rightarrow> bool" where
  "soon c e \<longleftrightarrow> (c < e \<and> e < c + 2 ^ 31) \<or> (e < c \<and> e + 2 ^ 32 < c + 2 ^ 31)"

lemma div_step: "(x :: nat) div 2 ^ (b + 6) = x div 2 ^ b div 64"
  by (simp add: power_add div_mult2_eq)

lemma not_same_block:
  assumes c': "c' = (c + 1) mod 2 ^ 32" "c' mod 2 ^ b = 0" and b: "b \<le> 26" and "soon c e"
  shows "e div 2 ^ b \<noteq> c div 2 ^ b"
proof
  let ?m = "2 ^ b :: nat"
  assume eq: "e div ?m = c div ?m"
  have m: "?m \<le> 2 ^ 26" using b by (rule power_increasing) simp
  have "?m dvd 2 ^ 32" using b by (intro le_imp_power_dvd) simp
  then have "(c + 1) mod ?m = 0" using c' by (simp add: mod_mod_cancel)
  then have "c mod ?m = ?m - 1" by (simp add: mod_Suc split: if_splits)
  then have c: "c = c div ?m * ?m + (?m - 1)" using div_mult_mod_eq [of c ?m] by simp
  have "e mod ?m < ?m" by simp
  then have "e mod ?m \<le> ?m - 1" by linarith
  then have e: "e = c div ?m * ?m + e mod ?m" "e mod ?m \<le> ?m - 1" using div_mult_mod_eq [of e ?m] eq by simp_all
  define q where "q = c div ?m * ?m"
  have "c = q + (?m - 1)" "e = q + e mod ?m" using c e q_def by simp_all
  moreover have "(2 :: nat) ^ 32 = 2 * 2 ^ 31" "(2 :: nat) ^ 31 = 32 * 2 ^ 26" by simp_all
  ultimately show False using \<open>soon c e\<close> e(2) m unfolding soon_def by linarith
qed

lemma next_block:
  fixes c c' :: nat
  assumes c': "c' = (c + 1) mod 2 ^ 32" "c' mod 2 ^ b = 0" and nz: "c' div 2 ^ b mod 64 \<noteq> 0" and c: "c < 2 ^ 32"
  shows "c div 2 ^ (b + 6) = c' div 2 ^ (b + 6)"
proof -
  have "c' \<noteq> 0" using nz by (cases "c' = 0") auto
  then have Suc: "c' = c + 1" using c'(1) c by (cases "c + 1 = 2 ^ 32") auto
  obtain k where k: "c' = 2 ^ b * k" using c'(2) by (metis mod_0_imp_dvd dvdE)
  then have k64: "k mod 64 \<noteq> 0" using nz by simp
  then obtain k0 where k0: "k = k0 + 1" by (cases k) auto
  have "c + 1 = 2 ^ b * (k0 + 1)" using Suc k k0 by simp
  then have c0: "c = (2 ^ b - 1) + 2 ^ b * k0" by (simp add: algebra_simps)
  have "((2 ^ b - 1) + 2 ^ b * k0) div 2 ^ b = k0 + (2 ^ b - 1) div 2 ^ b"
    by (rule div_mult_self2) simp
  also have "\<dots> = k0" by simp
  finally have "c div 2 ^ b = k0" by (subst c0) assumption
  moreover have "k0 div 64 = k div 64" using k64 div_Suc [of k0 64] by (simp add: k0)
  ultimately show ?thesis using k by (simp add: div_step)
qed

definition agree :: "nat \<Rightarrow> nat \<Rightarrow> nat \<Rightarrow> bool" where
  "agree c e k \<longleftrightarrow> e div 2 ^ (8 + k * 6) = c div 2 ^ (8 + k * 6)"

lemma agree_Suc: "agree c e k \<Longrightarrow> agree c e (Suc k)"
  using div_step [of e "8 + k * 6"] div_step [of c "8 + k * 6"] by (simp add: agree_def add_ac)

lemma agree_mono: "agree c e k \<Longrightarrow> k \<le> l \<Longrightarrow> agree c e l"
  by (rule lift_Suc_mono_le [of "agree c e", unfolded le_bool_def, rule_format]) (auto intro: agree_Suc)

lemma place_agree:
  "place_of c e = (if agree c e 0 then Near (e mod 2 ^ 8) else if agree c e 1 then Level 0 (e div 2 ^ 8 mod 64)
    else if agree c e 2 then Level 1 (e div 2 ^ 14 mod 64) else if agree c e 3 then Level 2 (e div 2 ^ 20 mod 64)
    else Level 3 (e div 2 ^ 26 mod 64))"
proof -
  have k: "8 + 0 * 6 = (8 :: nat)" "8 + 1 * 6 = (14 :: nat)" "8 + 2 * 6 = (20 :: nat)" "8 + 3 * 6 = (26 :: nat)"
    by simp_all
  show ?thesis by (simp only: place_of_def agree_def k)
qed

lemma rank_place_le4: "rank (place_of c e) \<le> 4"
  by (simp add: place_agree)

lemma equal_by_bounds:
  fixes x y :: nat
  assumes "\<And>k. k \<le> 3 \<Longrightarrow> x \<le> k \<longleftrightarrow> y \<le> k" "x \<le> 4" "y \<le> 4"
  shows "x = y"
  using assms(1) [of x] assms(1) [of y] assms(2,3) by linarith

lemma rank_place: "k \<le> 3 \<Longrightarrow> rank (place_of c e) \<le> k \<longleftrightarrow> agree c e k"
  using agree_mono [of c e] unfolding place_agree le_Suc_eq numeral_3_eq_3 numeral_2_eq_2 One_nat_def le_0_eq
  by (auto split: if_split dest: agree_Suc)

lemma place_rank:
  "place_of c e = (case rank (place_of c e) of 0 \<Rightarrow> Near (e mod 2 ^ 8) | Suc k \<Rightarrow> Level k (e div 2 ^ (8 + k * 6) mod 64))"
proof -
  have k: "8 + 0 * 6 = (8 :: nat)" "8 + 1 * 6 = (14 :: nat)" "8 + 2 * 6 = (20 :: nat)" "8 + 3 * 6 = (26 :: nat)"
    by simp_all
  show ?thesis unfolding place_agree
    by (cases "agree c e 0"; cases "agree c e 1"; cases "agree c e 2"; cases "agree c e 3")
      (simp_all only: if_True if_False rank.simps nat.case k)
qed

text \<open>Entering a block of level \<open>i\<close>: the nodes of the list of that block get a lower place, no node
  had one before, and all others stay.\<close>

lemma enter_level:
  fixes c c' e :: nat
  assumes c: "c < 2 ^ 32" "e < 2 ^ 32" "c' = (c + 1) mod 2 ^ 32" and "soon c e"
    and i: "i < 4" "c' mod 2 ^ (8 + i * 6) = 0" "i < 3 \<longrightarrow> c' div 2 ^ (8 + i * 6) mod 64 \<noteq> 0"
  defines "ms \<equiv> Level i (c' div 2 ^ (8 + i * 6) mod 64)"
  shows "i < rank (place_of c e) \<and> (if place_of c e = ms then rank (place_of c' e) \<le> i else place_of c' e = place_of c e)"
proof -
  have "e div 2 ^ (8 + i * 6) \<noteq> c div 2 ^ (8 + i * 6)"
    by (rule not_same_block [OF c(3) i(2) _ \<open>soon c e\<close>]) (use i(1) in simp)
  then have ne: "\<not> agree c e i" by (simp add: agree_def)
  then have less: "i < rank (place_of c e)" using rank_place [of i c e] i(1) by simp
  have "agree c c' (Suc i)" if "i < 3"
    using next_block [OF c(3) i(2) _ c(1)] i(3) that by (simp add: agree_def add_ac)
  then have up: "agree c' e k = agree c e k" if "i < k" "k \<le> 3" for k
    using agree_mono [of c c' "Suc i" k] that by (auto simp: agree_def)
  have top: "x div 2 ^ 26 mod 64 = x div 2 ^ 26" if "x < 2 ^ 32" for x :: nat
    using that by simp
  have same: "e div 2 ^ (8 + i * 6) mod 64 = c' div 2 ^ (8 + i * 6) mod 64 \<longleftrightarrow> agree c' e i"
    if "i = 3 \<or> agree c' e (Suc i)"
  proof -
    have "agree c' e i" if eq: "e div 2 ^ (8 + i * 6) mod 64 = c' div 2 ^ (8 + i * 6) mod 64" "i \<noteq> 3"
    proof -
      have "e div 2 ^ (8 + i * 6) div 64 = c' div 2 ^ (8 + i * 6) div 64"
        using \<open>i = 3 \<or> agree c' e (Suc i)\<close> eq(2) div_step [of e "8 + i * 6"] div_step [of c' "8 + i * 6"]
        by (simp add: agree_def add_ac)
      then show ?thesis using eq(1) unfolding agree_def by (metis div_mult_mod_eq)
    qed
    moreover have "agree c' e i" if "e div 2 ^ (8 + i * 6) mod 64 = c' div 2 ^ (8 + i * 6) mod 64" "i = 3"
      using that top [OF c(2)] top [of c'] c(3) by (simp add: agree_def)
    ultimately have "e div 2 ^ (8 + i * 6) mod 64 = c' div 2 ^ (8 + i * 6) mod 64 \<Longrightarrow> agree c' e i" by blast
    then show ?thesis unfolding agree_def by metis
  qed
  show ?thesis
  proof (cases "agree c' e i")
    case True
    have "rank (place_of c e) \<le> Suc i"
    proof (cases "i = 3")
      case False
      then have "agree c e (Suc i)" using up [of "Suc i"] agree_Suc [OF True] i(1) by simp
      then show ?thesis using rank_place [of "Suc i" c e] i(1) False by simp
    qed (use rank_place_le4 in simp)
    then have "rank (place_of c e) = Suc i" using less by simp
    then have "place_of c e = Level i (e div 2 ^ (8 + i * 6) mod 64)"
      using place_rank [of c e] by simp
    then have "place_of c e = ms" using True by (simp add: ms_def agree_def)
    moreover have "rank (place_of c' e) \<le> i" using rank_place [of i c' e] True i(1) by simp
    ultimately show ?thesis using less by simp
  next
    case False
    have "rank (place_of c' e) \<le> k \<longleftrightarrow> rank (place_of c e) \<le> k" if "k \<le> 3" for k
    proof (cases "k \<le> i")
      case True
      then show ?thesis using agree_mono [of c' e k i] agree_mono [of c e k i] False ne rank_place that by blast
    qed (use up that rank_place in auto)
    then have "rank (place_of c' e) = rank (place_of c e)"
      using rank_place_le4 by (intro equal_by_bounds) blast+
    then have eq: "place_of c' e = place_of c e" using place_rank [of c e] place_rank [of c' e] by simp
    have "place_of c e \<noteq> ms"
    proof
      assume ms: "place_of c e = ms"
      then have "rank (place_of c e) = Suc i" by (simp add: ms_def)
      moreover from this have "i = 3 \<or> agree c' e (Suc i)"
        using rank_place [of "Suc i" c e] up [of "Suc i"] i(1) by (cases "i \<le> 2") auto
      ultimately show False using same False ms place_rank [of c e] by (simp add: ms_def)
    qed
    then show ?thesis using less eq by simp
  qed
qed

lemma enter_none:
  fixes c c' e :: nat
  assumes "c' = (c + 1) mod 2 ^ 32" "c' mod 2 ^ 8 \<noteq> 0" "c < 2 ^ 32"
  shows "place_of c' e = place_of c e"
proof -
  have Suc: "c' = Suc c" using assms by (cases "c + 1 = 2 ^ 32") auto
  then have "c' div 2 ^ 8 = c div 2 ^ 8" using assms(2) div_Suc [of c "2 ^ 8"] by (simp only: Suc if_False)
  then have "agree c c' 0" by (simp add: agree_def)
  then have "agree c' e k = agree c e k" for k using agree_mono [of c c' 0 k] by (auto simp: agree_def)
  then show ?thesis by (simp add: place_agree)
qed

subsection \<open>The shift\<close>

definition clocks :: "timer \<Rightarrow> u32 \<times> u64 \<times> u64" where
  "clocks T = (tm_starttime T, tm_current T, tm_current_point T)"

lemma clocks_frame [simp]:
  "clocks (add_node n T) = clocks T" "clocks (fold add_node ns T) = clocks T"
  "clocks (snd (clear_level i j T)) = clocks T" "clocks (snd (clear_near i T)) = clocks T"
  "clocks (T\<lparr>tm_time := c\<rparr>) = clocks T"
proof -
  show a: "clocks (add_node n T) = clocks T" for n T
    by (simp add: add_node_def clocks_def link_near_def link_level_def Let_def)
  show "clocks (fold add_node ns T) = clocks T"
    by (induction ns arbitrary: T) (simp_all add: a)
qed (simp_all add: clear_level_def clear_near_def clocks_def)

lemma move_list_clocks: "move_list i j T = Some T' \<Longrightarrow> clocks T' = clocks T"
  using clocks_frame(3) [of i j T]
  by (auto simp: move_list_def bind_Some_iff c_assert_def case_prod_beta split: if_splits)

lemma and_mask_zero_iff: "x AND mask n = (0 :: u32) \<longleftrightarrow> unat x mod 2 ^ n = 0"
  by (metis unat_and_mask unat_eq_zero unsigned_0)

lemma shift_loop_unroll:
  "shift_loop ct (push_bit (8 + i * 6) 1) (drop_bit (8 + i * 6) ct) i T =
    (if unat ct mod 2 ^ (8 + i * 6) = 0
     then if unat ct div 2 ^ (8 + i * 6) mod 64 \<noteq> 0 then move_list i (unat ct div 2 ^ (8 + i * 6) mod 64) T
       else shift_loop ct (push_bit (8 + Suc i * 6) 1) (drop_bit (8 + Suc i * 6) ct) (Suc i) T
     else Some T)"
proof -
  have a: "push_bit k 1 - 1 = (mask k :: u32)" for k by (simp add: mask_eq_exp_minus_1 push_bit_eq_mult)
  have b: "push_bit 6 (push_bit k 1) = (push_bit (k + 6) 1 :: u32)" for k by (simp only: push_bit_push_bit add.commute)
  have c: "drop_bit 6 (drop_bit k ct) = drop_bit (k + 6) ct" for k by (simp only: drop_bit_drop_bit add.commute)
  have d: "8 + i * 6 + 6 = 8 + Suc i * 6" by simp
  have e: "unat (drop_bit k ct AND mask 6) = unat ct div 2 ^ k mod 64" for k
    by (simp only: unat_and_mask unat_drop_bit_eq drop_bit_eq_div [where 'a = nat]) simp
  have g: "(2 :: nat) ^ 6 = 64" by simp
  show ?thesis
    by (subst shift_loop.simps) (simp only: time_simps a b c d e Let_def and_mask_zero_iff unat_drop_bit_eq
        drop_bit_eq_div [where 'a = nat] g)
qed

lemma mod_step:
  fixes x :: nat
  assumes "x mod 2 ^ b = 0" "x div 2 ^ b mod 64 = 0"
  shows "x mod 2 ^ (b + 6) = 0"
  using assms by (simp add: power_add mod_mult2_eq)

lemma shift_loop_result:
  assumes "i \<le> 3" "unat ct mod 2 ^ (8 + i * 6) = 0" "ct \<noteq> 0"
  shows "\<exists>j < 4. unat ct mod 2 ^ (8 + j * 6) = 0 \<and> unat ct div 2 ^ (8 + j * 6) mod 64 \<noteq> 0 \<and>
    shift_loop ct (push_bit (8 + i * 6) 1) (drop_bit (8 + i * 6) ct) i T =
      move_list j (unat ct div 2 ^ (8 + j * 6) mod 64) T"
  using assms
proof (induction "3 - i" arbitrary: i)
  case 0
  then have i: "i = 3" by simp
  have "unat ct div 2 ^ (8 + i * 6) mod 64 \<noteq> 0"
  proof
    assume "unat ct div 2 ^ (8 + i * 6) mod 64 = 0"
    from mod_step [OF 0(3) this] have "unat ct mod 2 ^ 32 = 0" by (simp add: i)
    moreover have "unat ct < 2 ^ 32" using unsigned_less [of ct] by simp
    ultimately have "unat ct = 0" by simp
    then show False using 0(4) unat_eq_zero by blast
  qed
  then show ?case using shift_loop_unroll [of ct i T] 0 i by (intro exI [of _ i]) simp
next
  case (Suc m)
  show ?case
  proof (cases "unat ct div 2 ^ (8 + i * 6) mod 64 = 0")
    case True
    have "unat ct mod 2 ^ (8 + Suc i * 6) = 0" using mod_step [OF Suc(4) True] by (simp add: add_ac)
    then show ?thesis
      using Suc(1) [of "Suc i"] Suc(2-5) shift_loop_unroll [of ct i T] True by (simp only: if_True simp_thms) simp
  next
    case False
    then show ?thesis using shift_loop_unroll [of ct i T] Suc(2-5) by (intro exI [of _ i]) simp
  qed
qed

lemma timer_shift_cases:
  fixes T :: timer
  defines "c' \<equiv> unat (tm_time T + 1)" and "T1 \<equiv> T\<lparr>tm_time := tm_time T + 1\<rparr>"
  obtains (stay) "c' mod 2 ^ 8 \<noteq> 0" "timer_shift T = Some T1"
    | (enter) i where "i < 4" "c' mod 2 ^ (8 + i * 6) = 0" "i < 3 \<longrightarrow> c' div 2 ^ (8 + i * 6) mod 64 \<noteq> 0"
        "timer_shift T = move_list i (c' div 2 ^ (8 + i * 6) mod 64) T1"
proof (cases "tm_time T + 1 = 0")
  case True
  have "c' = 0" unfolding c'_def True by simp
  then have "timer_shift T = move_list 3 (c' div 2 ^ (8 + 3 * 6) mod 64) T1"
    using True by (simp add: timer_shift_def T1_def)
  then show ?thesis using enter [of 3] \<open>c' = 0\<close> by simp
next
  case False
  let ?ct = "tm_time T + 1"
  have s: "timer_shift T = shift_loop ?ct (push_bit (8 + 0 * 6) 1) (drop_bit (8 + 0 * 6) ?ct) 0 T1"
    using False by (simp add: timer_shift_def T1_def Let_def push_bit_eq_mult)
  show ?thesis
  proof (cases "c' mod 2 ^ (8 + 0 * 6) = 0")
    case True
    from shift_loop_result [of 0 ?ct T1] True False show ?thesis
      unfolding s [symmetric] c'_def [symmetric] using enter by auto
  next
    case no: False
    then have "timer_shift T = Some T1" using s shift_loop_unroll [of ?ct 0 T1] by (simp only: c'_def if_False)
    then show ?thesis using stay no by simp
  qed
qed

lemma soon_ahead: "0 < ahead c n \<Longrightarrow> ahead c n < 2 ^ 31 \<Longrightarrow> soon (unat c) (unat (expire n))"
proof -
  assume a: "0 < ahead c n" "ahead c n < 2 ^ 31"
  have "ahead c n = (if unat c \<le> unat (expire n) then unat (expire n) - unat c else unat (expire n) + 2 ^ 32 - unat c)"
    by (simp add: ahead_def unat_sub_if' word_le_nat_alt)
  then show ?thesis using a unfolding soon_def by (auto split: if_splits)
qed

lemma filter_moved:
  assumes "\<And>n. n \<in> set P \<Longrightarrow> i < rank (pl n) \<and> (if pl n = ms then rank (pl' n) \<le> i else pl' n = pl n)"
    and "rank ms = Suc i"
  shows "(if s = ms then [] else filter (\<lambda>n. pl n = s) P) @ filter (\<lambda>n. pl' n = s) (filter (\<lambda>n. pl n = ms) P) =
    filter (\<lambda>n. pl' n = s) P"
proof (cases "rank s \<le> i")
  case True
  have "pl n \<noteq> s" if "n \<in> set P" for n using assms(1) [OF that] True by auto
  then have "filter (\<lambda>n. pl n = s) P = []" by (auto simp: filter_empty_conv)
  moreover have "pl n = ms \<and> pl' n = s \<longleftrightarrow> pl' n = s" if "n \<in> set P" for n
    using assms(1) [OF that] True by (auto split: if_splits)
  then have "filter (\<lambda>n. pl' n = s) (filter (\<lambda>n. pl n = ms) P) = filter (\<lambda>n. pl' n = s) P"
    unfolding filter_filter by (intro filter_cong) auto
  ultimately show ?thesis by simp
next
  case False
  then have none: "filter (\<lambda>n. pl' n = s) (filter (\<lambda>n. pl n = ms) P) = []"
    using assms by (fastforce simp: filter_empty_conv)
  have "pl' n = s \<longleftrightarrow> s \<noteq> ms \<and> pl n = s" if "n \<in> set P" for n
    using assms(1) [OF that] assms(2) False by (auto split: if_splits)
  then have "filter (\<lambda>n. pl' n = s) P = (if s = ms then [] else filter (\<lambda>n. pl n = s) P)"
    by (auto simp: filter_empty_conv intro!: filter_cong)
  then show ?thesis using none by simp
qed

lemma unat_next: "unat (c + 1 :: u32) = (unat c + 1) mod 2 ^ 32"
  by (simp add: unat_word_ariths)

lemma timer_shift_lists:
  assumes inv: "timer_inv P T"
  shows "\<exists>T'. timer_shift T = Some T' \<and> shape T' \<and> tm_time T' = tm_time T + 1 \<and> clocks T' = clocks T \<and>
    (\<forall>s. valid_place s \<longrightarrow> list_at T' s = filter (\<lambda>n. node_place (tm_time T + 1) n = s) P)"
proof -
  let ?T1 = "T\<lparr>tm_time := tm_time T + 1\<rparr>" and ?c' = "unat (tm_time T + 1)"
  have shape: "shape ?T1" using inv by (simp add: timer_inv_def shape_def)
  have at: "list_at ?T1 s = list_at T s" for s by (cases s) simp_all
  have lists: "\<And>s. valid_place s \<Longrightarrow> list_at ?T1 s = filter (\<lambda>n. node_place (tm_time T) n = s) P"
    using inv by (simp add: timer_inv_def at)
  show ?thesis
  proof (cases T rule: timer_shift_cases)
    case stay
    have "node_place (tm_time T + 1) n = node_place (tm_time T) n" for n
      using enter_none [OF unat_next stay(1) unat_lt32] by (simp add: node_place_def)
    then show ?thesis using stay(2) shape lists by (intro exI [of _ ?T1]) simp
  next
    case (enter i)
    let ?ms = "Level i (?c' div 2 ^ (8 + i * 6) mod 64)"
    have "i < rank (node_place (tm_time T) n) \<and>
        (if node_place (tm_time T) n = ?ms then rank (node_place (tm_time T + 1) n) \<le> i
         else node_place (tm_time T + 1) n = node_place (tm_time T) n)" if "n \<in> set P" for n
      unfolding node_place_def
      by (rule enter_level [OF unat_lt32 unat_lt32 unat_next _ enter(1-3)])
        (use soon_ahead inv that in \<open>auto simp: timer_inv_def\<close>)
    note moved = filter_moved [where P = P, OF this]
    have ms: "valid_place ?ms" using enter(1) by simp
    obtain T' where T': "move_list i (?c' div 2 ^ (8 + i * 6) mod 64) ?T1 = Some T'" "shape T'"
      "tm_time T' = tm_time T + 1" and
      l: "\<And>s. valid_place s \<Longrightarrow> list_at T' s = (if s = ?ms then [] else list_at ?T1 s) @
        filter (\<lambda>n. node_place (tm_time T + 1) n = s) (list_at ?T1 ?ms)"
      using move_list_lists [OF shape enter(1), of "?c' div 2 ^ (8 + i * 6) mod 64"] by auto
    have "list_at T' s = filter (\<lambda>n. node_place (tm_time T + 1) n = s) P" if s: "valid_place s" for s
      unfolding l [OF s] lists [OF s] lists [OF ms] by (rule moved) simp_all
    then show ?thesis using T' enter(4) move_list_clocks [OF T'(1)] by (intro exI [of _ T']) simp
  qed
qed

subsection \<open>What an update fires\<close>

lemma node_place_now:
  "node_place c n = Near (unat c mod 2 ^ 8) \<longleftrightarrow> expire n = c"
proof
  assume "node_place c n = Near (unat c mod 2 ^ 8)"
  then have "unat (expire n) div 2 ^ 8 = unat c div 2 ^ 8" "unat (expire n) mod 2 ^ 8 = unat c mod 2 ^ 8"
    by (auto simp: node_place_def place_of_def split: if_splits)
  then have "unat (expire n) = unat c" by (metis div_mult_mod_eq)
  then show "expire n = c" by (simp only: word_unat_eq_iff)
next
  assume "expire n = c"
  then show "node_place c n = Near (unat c mod 2 ^ 8)" by (simp add: node_place_def place_of_def)
qed

lemma slot_now: "unat (c AND TIME_NEAR_MASK) = unat c mod 2 ^ 8"
  by (simp only: time_simps unat_and_mask)

lemma timer_execute_none:
  assumes "timer_inv P T" shows "timer_execute adds T = Some ([], adds, T)"
proof -
  define i where "i = unat (tm_time T) mod 2 ^ 8"
  have "valid_place (Near i)" by (simp add: i_def)
  then have "list_at T (Near i) = filter (\<lambda>n. node_place (tm_time T) n = Near i) P"
    using assms unfolding timer_inv_def by blast
  also have "\<dots> = filter (\<lambda>n. expire n = tm_time T) P" by (simp only: i_def node_place_now)
  also have "\<dots> = []" using assms by (auto simp: timer_inv_def filter_empty_conv ahead_def)
  finally show ?thesis
    unfolding list_at.simps by (subst timer_execute.simps) (simp only: slot_now i_def Let_def simp_thms if_True)
qed

definition valid_adds :: "timer_adds \<Rightarrow> bool" where
  "valid_adds as \<longleftrightarrow> (\<forall>(ev, d) \<in> set as. 0 < unat d \<and> unat d < 2 ^ 31)"

definition new_nodes :: "u32 \<Rightarrow> timer_adds \<Rightarrow> timer_node list" where
  "new_nodes c as = map (\<lambda>(ev, d). \<lparr>expire = d + c, event = ev\<rparr>) as"

lemma timer_inv_add:
  assumes inv: "timer_inv P T" and d: "0 < unat d" "unat d < 2 ^ 31"
  shows "timer_inv (P @ [\<lparr>expire = d + tm_time T, event = ev\<rparr>]) (timer_add ev d T)"
    "tm_time (timer_add ev d T) = tm_time T" "clocks (timer_add ev d T) = clocks T"
proof -
  have shape: "shape T" using inv by (simp add: timer_inv_def)
  show "timer_inv (P @ [\<lparr>expire = d + tm_time T, event = ev\<rparr>]) (timer_add ev d T)"
    using inv d add_node_lists [OF shape] by (auto simp: timer_inv_def timer_add_def ahead_def)
  show "tm_time (timer_add ev d T) = tm_time T" "clocks (timer_add ev d T) = clocks T"
    using add_node_lists(2) [OF shape] by (simp_all add: timer_add_def)
qed

lemma timer_inv_add_all:
  "timer_inv P T \<Longrightarrow> valid_adds as \<Longrightarrow> timer_inv (P @ new_nodes (tm_time T) as) (add_all as T) \<and>
    tm_time (add_all as T) = tm_time T \<and> clocks (add_all as T) = clocks T"
proof (induction as arbitrary: P T)
  case (Cons a as)
  obtain ev d where a: "a = (ev, d)" by (cases a)
  have d: "0 < unat d" "unat d < 2 ^ 31" "valid_adds as" using Cons.prems(2) by (auto simp: valid_adds_def a)
  note add = timer_inv_add [OF Cons.prems(1) d(1,2), of ev]
  show ?case using Cons.IH [OF add(1) d(3)] add(2,3) by (simp add: add_all_def new_nodes_def a)
qed (simp add: add_all_def new_nodes_def)

definition due :: "timer_node list \<Rightarrow> timer \<Rightarrow> timer_node list" where
  "due P T = filter (\<lambda>n. expire n = tm_time T + 1) P"

definition pending_after :: "timer_adds list \<Rightarrow> timer_node list \<Rightarrow> timer \<Rightarrow> timer_node list" where
  "pending_after adds P T = filter (\<lambda>n. expire n \<noteq> tm_time T + 1) P @
     (if due P T = [] \<or> adds = [] then [] else new_nodes (tm_time T + 1) (hd adds))"

lemma ahead_next:
  assumes "0 < ahead c n" shows "ahead (c + 1) n = ahead c n - 1"
proof -
  have "expire n - c \<noteq> 0" using assms by (auto simp: ahead_def)
  then have "unat (expire n - c - 1) = unat (expire n - c) - 1" by (rule unat_minus_one)
  moreover have "expire n - (c + 1) = expire n - c - 1" by simp
  ultimately show ?thesis by (simp only: ahead_def)
qed

lemma ahead_one: "expire n = c + 1 \<longleftrightarrow> ahead c n = 1"
  by (metis ahead_def add_diff_cancel_left' diff_add_cancel add.commute unat_1 word_unat_eq_iff)

lemma timer_update_result:
  assumes inv: "timer_inv P T" and adds: "\<forall>as \<in> set adds. valid_adds as"
  shows "\<exists>T'. timer_update adds T = Some (dispatch_list (due P T), T') \<and> tm_time T' = tm_time T + 1 \<and>
    clocks T' = clocks T \<and> timer_inv (pending_after adds P T) T'"
proof -
  let ?c' = "tm_time T + 1"
  obtain T2 where T2: "timer_shift T = Some T2" "shape T2" "tm_time T2 = ?c'" "clocks T2 = clocks T"
    and l: "\<And>s. valid_place s \<Longrightarrow> list_at T2 s = filter (\<lambda>n. node_place ?c' n = s) P"
    using timer_shift_lists [OF inv] by auto
  define i where "i = unat ?c' mod 2 ^ 8"
  have i: "i < 256" by (simp add: i_def)
  have at_now: "node_place ?c' n = Near i \<longleftrightarrow> expire n = ?c'" for n unfolding i_def by (rule node_place_now)
  have now: "near T2 ! i = due P T" using l [of "Near i"] i by (simp add: due_def at_now)
  have ahead: "0 < ahead ?c' n \<and> ahead ?c' n < 2 ^ 31" if "n \<in> set P" "expire n \<noteq> ?c'" for n
    using inv that ahead_next [of "tm_time T" n] ahead_one [of n "tm_time T"] by (auto simp: timer_inv_def)
  let ?P = "filter (\<lambda>n. expire n \<noteq> ?c') P"
  show ?thesis
  proof (cases "due P T = []")
    case True
    then have P: "?P = P" by (auto simp: due_def filter_empty_conv intro!: filter_True)
    have inv2: "timer_inv P T2" using T2 l ahead True by (auto simp: timer_inv_def due_def filter_empty_conv)
    have "timer_update adds T = Some ([], T2)"
      by (simp add: timer_update_def timer_execute_none [OF inv] T2(1) timer_execute_none [OF inv2])
    then show ?thesis using True T2 inv2 P by (simp add: pending_after_def)
  next
    case False
    let ?T1 = "snd (clear_near i T2)"
    have keep: "list_at ?T1 s = filter (\<lambda>n. node_place ?c' n = s) ?P" if s: "valid_place s" for s
      using clear_near_lists(4) [OF T2(2) i s] l [OF s] at_now
      by (auto simp: filter_empty_conv intro!: filter_cong)
    have inv1: "timer_inv ?P ?T1"
      using clear_near_lists(2,3) [OF T2(2) i] keep ahead T2(3) by (auto simp: timer_inv_def)
    let ?T3 = "case adds of [] \<Rightarrow> ?T1 | as # adds' \<Rightarrow> add_all as ?T1"
    have T3: "timer_inv (pending_after adds P T) ?T3" "tm_time ?T3 = ?c'" "clocks ?T3 = clocks T"
      using timer_inv_add_all [OF inv1] clear_near_lists(3) [OF T2(2) i] adds T2(3,4) False inv1
      by (auto simp: pending_after_def split: list.split)
    have idx: "unat (tm_time T2 AND TIME_NEAR_MASK) = i" unfolding T2(3) i_def by (rule slot_now)
    have "timer_execute adds T2 = Some (dispatch_list (due P T), tl adds, ?T3)"
      using False now timer_execute_none [OF T3(1)] clear_near_lists(1) [OF T2(2) i]
      by (subst timer_execute.simps) (simp add: idx [unfolded time_simps] Let_def case_prod_beta)
    then have "timer_update adds T = Some (dispatch_list (due P T), ?T3)"
      by (simp add: timer_update_def timer_execute_none [OF inv] T2(1))
    then show ?thesis using T3 by simp
  qed
qed

lemma dispatch_list_map: "dispatch_list ns = map (\<lambda>n. timeout_message (event n)) ns"
  by (induction ns) simp_all

lemma timer_updates_result:
  "timer_inv P T \<Longrightarrow>
   \<exists>T'. timer_updates n T =
      Some (concat (map (\<lambda>i. dispatch_list (filter (\<lambda>x. ahead (tm_time T) x = Suc i) P)) [0..<n]), T') \<and>
     timer_inv (filter (\<lambda>x. n < ahead (tm_time T) x) P) T' \<and> tm_time T' = tm_time T + of_nat n \<and> clocks T' = clocks T"
proof (induction n arbitrary: P T)
  case 0
  then have "filter (\<lambda>x. 0 < ahead (tm_time T) x) P = P" by (auto simp: timer_inv_def intro!: filter_True)
  then show ?case using 0 by simp
next
  case (Suc n)
  let ?c = "tm_time T" and ?P1 = "pending_after [] P T"
  obtain T1 where T1: "timer_update [] T = Some (dispatch_list (due P T), T1)" "tm_time T1 = ?c + 1"
    "clocks T1 = clocks T" "timer_inv ?P1 T1"
    using timer_update_result [OF Suc.prems, of "[]"] by auto
  have P1: "?P1 = filter (\<lambda>x. ahead ?c x \<noteq> 1) P" by (simp add: pending_after_def ahead_one)
  have pos: "0 < ahead ?c x" if "x \<in> set P" for x using Suc.prems that by (simp add: timer_inv_def)
  have later_tick: "ahead ?c x \<noteq> 1 \<and> ahead (?c + 1) x = Suc i \<longleftrightarrow> ahead ?c x = Suc (Suc i)"
    "ahead ?c x \<noteq> 1 \<and> n < ahead (?c + 1) x \<longleftrightarrow> Suc n < ahead ?c x" if "x \<in> set P" for x i
    using pos [OF that] ahead_next [OF pos [OF that]] by auto
  have later: "filter (\<lambda>x. ahead (tm_time T1) x = Suc i) ?P1 = filter (\<lambda>x. ahead ?c x = Suc (Suc i)) P" for i
    unfolding P1 filter_filter T1(2) using later_tick by (intro filter_cong) auto
  have rest: "filter (\<lambda>x. n < ahead (tm_time T1) x) ?P1 = filter (\<lambda>x. Suc n < ahead ?c x) P"
    unfolding P1 filter_filter T1(2) using later_tick by (intro filter_cong) auto
  have first: "due P T = filter (\<lambda>x. ahead ?c x = Suc 0) P" by (simp add: due_def ahead_one)
  have ix: "[0..<Suc n] = 0 # map Suc [0..<n]" by (simp add: upt_conv_Cons map_Suc_upt del: upt_Suc)
  show ?case
    using Suc.IH [OF T1(4)] T1(1-3) unfolding later rest ix by (auto simp: first comp_def)
qed

lemma timer_create_inv: "timer_inv [] timer_create_timer"
proof -
  have "list_at timer_create_timer s = []" if "valid_place s" for s
    using that by (cases s) (simp_all add: timer_create_timer_def)
  then show ?thesis by (simp add: timer_inv_def shape_def timer_create_timer_def)
qed

lemma timer_inv_clocks: "timer_inv P (T\<lparr>tm_current_point := cp, tm_current := c\<rparr>) = timer_inv P T"
proof -
  have "list_at (T\<lparr>tm_current_point := cp, tm_current := c\<rparr>) s = list_at T s" for s by (cases s) simp_all
  then show ?thesis by (simp add: timer_inv_def shape_def)
qed

subsection \<open>Guarantees\<close>

text \<open>C17. One tick: with the nodes \<open>P\<close> in the wheel, an update fires exactly the nodes whose time is
  the next tick, in the order in which they were added, moves the clock by one (also across the
  end of the 32-bit range) and keeps all others, with whatever other threads add while the lock
  is released; it always returns.\<close>

theorem timer_update_exact:
  assumes "timer_inv P T" "\<forall>as \<in> set adds. valid_adds as"
  shows "\<exists>T'. timer_update adds T = Some (dispatch_list (filter (\<lambda>n. expire n = tm_time T + 1) P), T') \<and>
    tm_time T' = tm_time T + 1 \<and> timer_inv (pending_after adds P T) T'"
  using timer_update_result [OF assms] by (auto simp: due_def)

definition demo_event :: timer_event where
  "demo_event = \<lparr>ev_handle = 9, ev_session = 4\<rparr>"

definition demo_timer :: timer where
  "demo_timer = timer_add demo_event 1 timer_create_timer"

lemma demo_timer_inv: "timer_inv [\<lparr>expire = 1, event = demo_event\<rparr>] demo_timer" "tm_time demo_timer = 0"
  using timer_inv_add [OF timer_create_inv, of 1 demo_event]
  by (simp_all add: demo_timer_def timer_create_timer_def)

theorem timer_update_exact_witness:
  "\<exists>T'. timer_update [] demo_timer = Some ([timeout_message demo_event], T')"
  using timer_update_exact [OF demo_timer_inv(1), of "[]"] by (auto simp: demo_timer_inv(2))

text \<open>C9. Timeouts: over any number of ticks, the nodes fire in the order of their time and, for the
  same time, in the order in which they were added; a node that is \<open>k\<close> ticks ahead fires in the
  \<open>k\<close>-th tick, once, and the others stay pending.\<close>

theorem timeouts_fire_on_time:
  assumes "timer_inv P T"
  shows "\<exists>T'. timer_updates n T =
      Some (concat (map (\<lambda>i. map (\<lambda>x. timeout_message (event x)) (filter (\<lambda>x. ahead (tm_time T) x = Suc i) P)) [0..<n]), T') \<and>
    timer_inv (filter (\<lambda>x. n < ahead (tm_time T) x) P) T' \<and> tm_time T' = tm_time T + of_nat n"
  using timer_updates_result [OF assms, of n] by (auto simp: dispatch_list_map)

theorem timeouts_fire_on_time_witness:
  "\<exists>T'. timer_updates 1 demo_timer = Some ([timeout_message demo_event], T')"
  using timeouts_fire_on_time [OF demo_timer_inv(1), of 1] by (auto simp: demo_timer_inv(2) ahead_def)

text \<open>Requests: a timeout of zero or less is answered at once (or reports -1 when its service is
  gone) and leaves the wheel alone; a positive one is put into the wheel exactly that many ticks
  ahead, behind the nodes that are already there.\<close>

theorem timeout_request:
  assumes "timer_inv P T" "time < 2 ^ 31"
  shows "(time \<le> 0 \<longrightarrow> skynet_timeout push_ok h time session T =
      (if push_ok then (session, [timeout_message \<lparr>ev_handle = h, ev_session = session\<rparr>], T) else (- 1, [], T))) \<and>
    (0 < time \<longrightarrow> (\<exists>n T'. skynet_timeout push_ok h time session T = (session, [], T') \<and>
      timer_inv (P @ [n]) T' \<and> ahead (tm_time T') n = nat time \<and> event n = \<lparr>ev_handle = h, ev_session = session\<rparr>))"
proof (cases "0 < time")
  case True
  let ?ev = "\<lparr>ev_handle = h, ev_session = session\<rparr>" and ?d = "word_of_int time :: u32"
  have d: "unat ?d = nat time" using True assms(2) by (simp add: unat_eq_nat_uint uint_word_of_int)
  have "0 < unat ?d" "unat ?d < 2 ^ 31" using True assms(2) unfolding d by (simp_all add: nat_less_iff)
  note add = timer_inv_add [OF assms(1) this, of ?ev]
  have "ahead (tm_time T) \<lparr>expire = ?d + tm_time T, event = ?ev\<rparr> = nat time" by (simp add: ahead_def d)
  then show ?thesis using True add(1,2) by (auto simp: skynet_timeout_def)
qed (simp add: skynet_timeout_def)

theorem timeout_request_witness:
  "fst (snd (skynet_timeout True 9 0 4 timer_create_timer)) = [timeout_message demo_event]"
proof -
  have "(0 :: int) < 2 ^ 31" by simp
  from timeout_request [OF timer_create_inv this, of True 9 4] show ?thesis
    by (simp add: demo_event_def)
qed

text \<open>Catching up: when the monotonic clock has moved on by \<open>diff\<close> ticks, the timer runs that many
  updates, so that exactly the nodes at most \<open>diff\<close> ticks ahead fire, and the current time grows
  by \<open>diff\<close>; a clock that went back only resets the reference point.\<close>

theorem updatetime_catches_up:
  assumes "timer_inv P T" "tm_current_point T \<le> cp" "unat (cp - tm_current_point T) < 2 ^ 32"
  shows "\<exists>T'. skynet_updatetime cp T =
      Some (concat (map (\<lambda>i. dispatch_list (filter (\<lambda>x. ahead (tm_time T) x = Suc i) P)) [0..<unat (cp - tm_current_point T)]), T') \<and>
    timer_inv (filter (\<lambda>x. unat (cp - tm_current_point T) < ahead (tm_time T) x) P) T' \<and>
    skynet_now T' = skynet_now T + (cp - tm_current_point T) \<and> tm_current_point T' = cp"
proof (cases "cp = tm_current_point T")
  case True
  have "filter (\<lambda>x. 0 < ahead (tm_time T) x) P = P" using assms(1) by (auto simp: timer_inv_def intro!: filter_True)
  then show ?thesis using True assms(1) by (simp add: skynet_updatetime_def skynet_now_def)
next
  case False
  let ?d = "cp - tm_current_point T" and ?T1 = "T\<lparr>tm_current_point := cp, tm_current := tm_current T + (cp - tm_current_point T)\<rparr>"
  have d: "unat (ucast ?d :: u32) = unat ?d" "ucast (ucast ?d :: u32) = ?d"
    using assms(3) by (simp_all add: unsigned_ucast_eq word_unat_eq_iff unsigned_take_bit_eq take_bit_nat_eq_self)
  have inv: "timer_inv P ?T1"
    using timer_inv_clocks [where P = P and T = T and c = "tm_current T + ?d" and cp = cp] assms(1) by simp
  show ?thesis
    using timer_updates_result [OF inv, of "unat ?d"] assms(2) False
    by (auto simp: skynet_updatetime_def Let_def d clocks_def skynet_now_def)
qed

theorem updatetime_catches_up_witness:
  "\<exists>T'. skynet_updatetime 1 demo_timer = Some ([timeout_message demo_event], T')"
proof -
  have "tm_current_point demo_timer = 0"
    using timer_inv_add(3) [OF timer_create_inv, of 1 demo_event]
    by (simp add: clocks_def demo_timer_def timer_create_timer_def)
  then show ?thesis
    using updatetime_catches_up [OF demo_timer_inv(1), of 1] by (auto simp: demo_timer_inv(2) ahead_def)
qed

end
