(* ===== verification/C_String.thy ===== *)
theory C_String
  imports Prelude
begin

text \<open>
  The C library's text functions that the command layer calls: \<^verbatim>\<open>strtoul\<close>,
  \<^verbatim>\<open>strtol\<close>, \<^verbatim>\<open>strsep\<close>, the conversions \<^verbatim>\<open>%d\<close>, \<^verbatim>\<open>%u\<close>,
  \<^verbatim>\<open>%x\<close> of \<^verbatim>\<open>sprintf\<close> and the words that \<^verbatim>\<open>sscanf\<close> reads with
  \<^verbatim>\<open>%s\<close>. A C string is the list of its characters before the terminating zero byte.
\<close>

subsection \<open>Digits\<close>

definition is_space :: "char \<Rightarrow> bool" where
  "is_space c \<longleftrightarrow> c \<in> set [CHR '' '', CHR 0x09, CHR 0x0A, CHR 0x0B, CHR 0x0C, CHR 0x0D]"

definition digit_val :: "char \<Rightarrow> nat option" where
  "digit_val c =
     (let n = (of_char c :: nat)
      in if 48 \<le> n \<and> n \<le> 57 then Some (n - 48)
         else if 97 \<le> n \<and> n \<le> 122 then Some (n - 87)
         else if 65 \<le> n \<and> n \<le> 90 then Some (n - 55)
         else None)"

fun scan_digits :: "nat \<Rightarrow> nat \<Rightarrow> string \<Rightarrow> nat" where
  "scan_digits b acc [] = acc"
| "scan_digits b acc (c # cs) =
     (case digit_val c of
        None \<Rightarrow> acc
      | Some d \<Rightarrow> if d < b then scan_digits b (acc * b + d) cs else acc)"

definition is_digit :: "nat \<Rightarrow> char \<Rightarrow> bool" where
  "is_digit b c = (case digit_val c of None \<Rightarrow> False | Some d \<Rightarrow> d < b)"

text \<open>The optional sign and the optional \<^verbatim>\<open>0x\<close>.\<close>

fun scan_sign :: "string \<Rightarrow> bool \<times> string" where
  "scan_sign (c # cs) = (if c = CHR ''-'' then (True, cs) else if c = CHR ''+'' then (False, cs) else (False, c # cs))"
| "scan_sign [] = (False, [])"

fun has_0x :: "string \<Rightarrow> bool" where
  "has_0x (z # x # d # cs) = (z = CHR ''0'' \<and> (x = CHR ''x'' \<or> x = CHR ''X'') \<and> is_digit 16 d)"
| "has_0x s = False"

definition strtoul16 :: "string \<Rightarrow> u64" where
  "strtoul16 s =
     (let (neg, s1) = scan_sign (dropWhile is_space s);
          v = scan_digits 16 0 (if has_0x s1 then drop 2 s1 else s1)
      in if 2 ^ 64 \<le> v then - 1 else if neg then - of_nat v else of_nat v)"

definition clamp_long :: "bool \<Rightarrow> nat \<Rightarrow> int" where
  "clamp_long neg v = (if neg then max (- (2 ^ 63)) (- int v) else min (2 ^ 63 - 1) (int v))"

definition strtol10 :: "string \<Rightarrow> int" where
  "strtol10 s = (let (neg, s1) = scan_sign (dropWhile is_space s) in clamp_long neg (scan_digits 10 0 s1))"

definition strtol0 :: "string \<Rightarrow> int" where
  "strtol0 s =
     (let (neg, s1) = scan_sign (dropWhile is_space s)
      in clamp_long neg
           (if has_0x s1 then scan_digits 16 0 (drop 2 s1)
            else if take 1 s1 = ''0'' then scan_digits 8 0 s1 else scan_digits 10 0 s1))"

text \<open>The conversion of \<^verbatim>\<open>long\<close> to \<^verbatim>\<open>int\<close>.\<close>

definition to_int :: "int \<Rightarrow> int" where
  "to_int v = sint (word_of_int v :: u32)"

subsection \<open>Formatting\<close>

function digits :: "nat \<Rightarrow> nat \<Rightarrow> nat list" where
  "digits b n = (if b < 2 \<or> n < b then [n] else digits b (n div b) @ [n mod b])"
  by pat_completeness auto
termination
  by (relation "measure snd") auto

declare digits.simps [simp del]

definition lower_digit :: "nat \<Rightarrow> char" where
  "lower_digit d = (if d < 10 then char_of (48 + d) else char_of (87 + d))"

definition upper_digit :: "nat \<Rightarrow> char" where
  "upper_digit d = (if d < 10 then char_of (48 + d) else char_of (55 + d))"

definition fmt_nat :: "nat \<Rightarrow> string" where "fmt_nat n = map lower_digit (digits 10 n)"

definition fmt_int :: "int \<Rightarrow> string" where
  "fmt_int k = (if k < 0 then CHR ''-'' # fmt_nat (nat (- k)) else fmt_nat (nat k))"

definition fmt_x :: "u32 \<Rightarrow> string" where "fmt_x w = map lower_digit (digits 16 (unat w))"

definition fmt_08x :: "u32 \<Rightarrow> string" where
  "fmt_08x w = (let s = fmt_x w in replicate (8 - length s) (CHR ''0'') @ s)"

subsection \<open>Splitting\<close>

definition strsep :: "string \<Rightarrow> string option \<Rightarrow> string option \<times> string option" where
  "strsep delims s =
     (case s of
        None \<Rightarrow> (None, None)
      | Some t \<Rightarrow>
          (Some (takeWhile (\<lambda>c. c \<notin> set delims) t),
           case dropWhile (\<lambda>c. c \<notin> set delims) t of [] \<Rightarrow> None | c # rest \<Rightarrow> Some rest))"

text \<open>One \<^verbatim>\<open>%s\<close> of \<^verbatim>\<open>sscanf\<close>: the next word and the rest.\<close>

definition scan_word :: "string \<Rightarrow> string \<times> string" where
  "scan_word s = (let t = dropWhile is_space s in (takeWhile (\<lambda>c. \<not> is_space c) t, dropWhile (\<lambda>c. \<not> is_space c) t))"

text \<open>The string of a character array with its terminating zero.\<close>

definition c_string :: "string \<Rightarrow> string" where
  "c_string s = takeWhile (\<lambda>c. c \<noteq> CHR 0x00) s"

subsection \<open>Round trips\<close>

lemma digits_less: "2 \<le> b \<Longrightarrow> d \<in> set (digits b n) \<Longrightarrow> d < b"
proof (induction b n rule: digits.induct)
  case (1 b n)
  then show ?case using digits.simps [of b n] by (auto split: if_splits)
qed

lemma digits_not_Nil: "digits b n \<noteq> []"
  by (subst digits.simps) simp

lemma digit_val_lower: "d < 16 \<Longrightarrow> digit_val (lower_digit d) = Some d"
  by (auto simp: digit_val_def lower_digit_def Let_def)

lemma digit_val_upper: "d < 16 \<Longrightarrow> digit_val (upper_digit d) = Some d"
  by (auto simp: digit_val_def upper_digit_def Let_def)

lemma scan_digits_append:
  assumes "\<And>d. d \<in> set ds \<Longrightarrow> d < b \<and> digit_val (f d) = Some d"
  shows "scan_digits b acc (map f ds @ rest) = scan_digits b (foldl (\<lambda>a d. a * b + d) acc ds) rest"
  using assms by (induction ds arbitrary: acc) auto

lemma foldl_digits: "2 \<le> b \<Longrightarrow> foldl (\<lambda>a d. a * b + d) 0 (digits b n) = n"
proof (induction b n rule: digits.induct)
  case (1 b n)
  then show ?case by (subst digits.simps) auto
qed

lemma scan_lower_digits:
  assumes "2 \<le> b" "b \<le> 16"
  shows "scan_digits b 0 (map lower_digit (digits b n)) = n"
proof -
  have "d < b \<and> digit_val (lower_digit d) = Some d" if "d \<in> set (digits b n)" for d
    using digits_less [OF assms(1) that] digit_val_lower [of d] assms(2) by simp
  from scan_digits_append [where rest = "[]" and acc = 0, OF this] show ?thesis
    using foldl_digits [OF assms(1)] by simp
qed

lemma lower_digit_plain:
  assumes "d < 16"
  shows "\<not> is_space (lower_digit d)" "lower_digit d \<noteq> CHR ''-''" "lower_digit d \<noteq> CHR ''+''"
    "lower_digit d \<noteq> CHR ''x''" "lower_digit d \<noteq> CHR ''X''"
proof -
  have "d \<in> set [0..<16]" using assms by simp
  then have "\<not> is_space (lower_digit d) \<and> lower_digit d \<noteq> CHR ''-'' \<and> lower_digit d \<noteq> CHR ''+'' \<and>
    lower_digit d \<noteq> CHR ''x'' \<and> lower_digit d \<noteq> CHR ''X''"
    by (simp add: upt_rec lower_digit_def is_space_def) (auto simp: char_of_def)
  then show "\<not> is_space (lower_digit d)" "lower_digit d \<noteq> CHR ''-''" "lower_digit d \<noteq> CHR ''+''"
    "lower_digit d \<noteq> CHR ''x''" "lower_digit d \<noteq> CHR ''X''" by auto
qed

lemma upper_digit_plain:
  assumes "d < 16"
  shows "\<not> is_space (upper_digit d)" "upper_digit d \<noteq> CHR ''-''" "upper_digit d \<noteq> CHR ''+''"
    "upper_digit d \<noteq> CHR ''x''" "upper_digit d \<noteq> CHR ''X''"
proof -
  have "d \<in> set [0..<16]" using assms by simp
  then have "\<not> is_space (upper_digit d) \<and> upper_digit d \<noteq> CHR ''-'' \<and> upper_digit d \<noteq> CHR ''+'' \<and>
    upper_digit d \<noteq> CHR ''x'' \<and> upper_digit d \<noteq> CHR ''X''"
    by (simp add: upt_rec upper_digit_def is_space_def) (auto simp: char_of_def)
  then show "\<not> is_space (upper_digit d)" "upper_digit d \<noteq> CHR ''-''" "upper_digit d \<noteq> CHR ''+''"
    "upper_digit d \<noteq> CHR ''x''" "upper_digit d \<noteq> CHR ''X''" by auto
qed

text \<open>A word of plain hexadecimal digits is read back as the number it spells.\<close>

lemma strtoul16_digits:
  assumes d: "\<And>d. d \<in> set ds \<Longrightarrow> d < 16"
    and f: "\<And>d. d < 16 \<Longrightarrow> digit_val (f d) = Some d \<and> \<not> is_space (f d) \<and> f d \<noteq> CHR ''-'' \<and> f d \<noteq> CHR ''+'' \<and>
      f d \<noteq> CHR ''x'' \<and> f d \<noteq> CHR ''X''"
    and small: "foldl (\<lambda>a d. a * 16 + d) 0 ds < 2 ^ 64"
  shows "strtoul16 (map f ds) = of_nat (foldl (\<lambda>a d. a * 16 + d) 0 ds)"
proof (cases ds)
  case Nil
  then show ?thesis by (simp add: strtoul16_def)
next
  case (Cons d0 ds0)
  have d0: "d0 < 16" using d Cons by simp
  have "dropWhile is_space (map f ds) = map f ds" using f [OF d0] Cons by simp
  moreover have "scan_sign (map f ds) = (False, map f ds)" using f [OF d0] Cons by simp
  moreover have "\<not> has_0x (map f ds)"
  proof (cases ds0)
    case (Cons d1 ds1)
    then have "d1 < 16" using d \<open>ds = d0 # ds0\<close> by simp
    then show ?thesis using f [of d1] Cons \<open>ds = d0 # ds0\<close> by (cases ds1) auto
  qed (use Cons in simp)
  moreover have "scan_digits 16 0 (map f ds @ []) = scan_digits 16 (foldl (\<lambda>a d. a * 16 + d) 0 ds) []"
    by (rule scan_digits_append) (use d f in blast)
  ultimately show ?thesis using small by (simp add: strtoul16_def)
qed

lemma strtoul16_fmt_x: "(ucast (strtoul16 (fmt_x w)) :: u32) = w"
proof -
  have "foldl (\<lambda>a d. a * 16 + d) 0 (digits 16 (unat w)) = unat w" by (rule foldl_digits) simp
  moreover have "unat w < 2 ^ 64" using unat_lt32 [of w] by simp
  ultimately have "strtoul16 (fmt_x w) = of_nat (unat w)"
    using strtoul16_digits [of "digits 16 (unat w)" lower_digit] digits_less [of 16] digit_val_lower lower_digit_plain
    by (simp add: fmt_x_def)
  moreover have "(ucast (ucast w :: u64) :: u32) = w" by (rule bit_word_eqI) (simp add: bit_simps)
  ultimately show ?thesis by simp
qed

end
