(* ===== verification/Context.thy ===== *)
theory Context
  imports Handle_Storage Timer C_String Message_Types
begin

text \<open>
  The service contexts of \<^verbatim>\<open>skynet_server.c\<close> with the parts of
  \<^verbatim>\<open>skynet_handle.c\<close>, \<^verbatim>\<open>skynet_harbor.c\<close>, \<^verbatim>\<open>skynet_error.c\<close>
  and \<^verbatim>\<open>skynet_monitor.c\<close> that act on them: creation, reference counts, deletion,
  sending and dispatching. The state of the process is the record \<open>node\<close>; what the code does
  to the outside (a module's \<^verbatim>\<open>release\<close> and \<^verbatim>\<open>signal\<close>, log files) and the payloads that it frees
  are listed in \<open>effects\<close>. The handle that a thread notes in its thread-specific data for the allocator is left out. The code of the services, which lives in dynamically loaded modules, is a
  parameter of the definitions that call it.
\<close>

subsection \<open>Data\<close>

text \<open>
  \<^verbatim>\<open>struct skynet_context\<close>. A callback with its user data is a pair of numbers, a log file
  the number of a \<^verbatim>\<open>FILE\<close>; \<^verbatim>\<open>session_id\<close> and \<^verbatim>\<open>message_count\<close> are \<^verbatim>\<open>int\<close>s, here
  words that are read as signed. \<^verbatim>\<open>message_count\<close>, which is only reported, is modelled as
  wrapping where C leaves the overflow undefined.
\<close>

record skynet_context =
  cx_instance :: nat
  cx_mod :: string
  cx_cb :: "(nat \<times> nat) option"
  cx_queue :: addr
  cx_logfile :: "nat option"
  cx_cpu_cost :: u64
  cx_cpu_start :: u64
  cx_result :: string
  cx_handle :: u32
  cx_session_id :: u32
  cx_ref :: int
  cx_message_count :: u32
  cx_init :: bool
  cx_endless :: bool
  cx_profile :: bool

datatype effect =
    Instance_Release string nat
  | Instance_Signal string nat int
  | Log_Output nat u32 u32 u32 "payload option" u64
  | Log_Write nat string
  | Log_Close nat
  | Data_Free payload

text \<open>
  \<^verbatim>\<open>G_NODE\<close> and the other globals: the heap of contexts, the handle table \<^verbatim>\<open>H\<close>, the
  queues \<^verbatim>\<open>Q\<close>, the timer \<^verbatim>\<open>TI\<close>, the environment \<^verbatim>\<open>E\<close>,
  \<^verbatim>\<open>HARBOR\<close> and \<^verbatim>\<open>REMOTE\<close>, and the \<^verbatim>\<open>static\<close> handle of the logger.
\<close>

record node =
  ctxs :: "addr \<rightharpoonup> skynet_context"
  next_ctx :: addr
  total :: int
  monitor_exit :: u32
  node_profile :: bool
  HS :: handle_storage
  MQ :: mq_store
  TI :: timer
  ENV :: "string \<rightharpoonup> string"
  HARBOR :: u32
  REMOTE :: "addr option"
  logger :: u32
  effects :: "effect list"

definition MESSAGE_TYPE_MASK :: u64 where "MESSAGE_TYPE_MASK = drop_bit 8 (- 1)"

text \<open>The handle stored in the context at an address, as the handle table reads it.\<close>

definition hof :: "node \<Rightarrow> addr \<Rightarrow> u32" where
  "hof s a = (case ctxs s a of None \<Rightarrow> 0 | Some c \<Rightarrow> cx_handle c)"

definition upd_ctx :: "addr \<Rightarrow> (skynet_context \<Rightarrow> skynet_context) \<Rightarrow> node \<Rightarrow> node option" where
  "upd_ctx a f s = do { c \<leftarrow> ctxs s a; Some (s\<lparr>ctxs := (ctxs s)(a \<mapsto> f c)\<rparr>) }"

definition emit :: "effect list \<Rightarrow> node \<Rightarrow> node" where
  "emit es s = s\<lparr>effects := effects s @ es\<rparr>"

text \<open>\<^verbatim>\<open>skynet_free\<close> of a payload.\<close>

definition freed :: "payload option \<Rightarrow> effect list" where
  "freed data = (case data of None \<Rightarrow> [] | Some d \<Rightarrow> [Data_Free d])"

definition skynet_free :: "payload option \<Rightarrow> node \<Rightarrow> node" where
  "skynet_free data s = emit (freed data) s"

subsection \<open>Reference counts and the handle table\<close>

definition skynet_context_grab :: "addr \<Rightarrow> node \<Rightarrow> node option" where
  "skynet_context_grab a = upd_ctx a (\<lambda>c. c\<lparr>cx_ref := cx_ref c + 1\<rparr>)"

definition skynet_context_reserve :: "addr \<Rightarrow> node \<Rightarrow> node option" where
  "skynet_context_reserve a s = do { s1 \<leftarrow> skynet_context_grab a s; Some (s1\<lparr>total := total s1 - 1\<rparr>) }"

definition delete_context :: "addr \<Rightarrow> node \<Rightarrow> node option" where
  "delete_context a s = do {
     c \<leftarrow> ctxs s a;
     mq \<leftarrow> skynet_mq_mark_release (cx_queue c) (MQ s);
     Some (emit ((case cx_logfile c of None \<Rightarrow> [] | Some f \<Rightarrow> [Log_Close f]) @ [Instance_Release (cx_mod c) (cx_instance c)])
       (s\<lparr>MQ := mq, ctxs := (ctxs s)(a := None), total := total s - 1\<rparr>))
   }"

text \<open>The result is the context, or \<open>None\<close> (\<^verbatim>\<open>NULL\<close>) if it was deleted.\<close>

definition skynet_context_release :: "addr \<Rightarrow> node \<Rightarrow> (addr option \<times> node) option" where
  "skynet_context_release a s = do {
     c \<leftarrow> ctxs s a;
     if cx_ref c = 1 then do { s1 \<leftarrow> delete_context a s; Some (None, s1) }
     else do { s1 \<leftarrow> upd_ctx a (\<lambda>c. c\<lparr>cx_ref := cx_ref c - 1\<rparr>) s; Some (Some a, s1) }
   }"

definition handle_grab :: "u32 \<Rightarrow> node \<Rightarrow> (addr option \<times> node) option" where
  "handle_grab h s =
     (case skynet_handle_grab (hof s) h (HS s) of
        None \<Rightarrow> Some (None, s)
      | Some a \<Rightarrow> do { s1 \<leftarrow> skynet_context_grab a s; Some (Some a, s1) })"

definition handle_register :: "addr \<Rightarrow> node \<Rightarrow> (u32 \<times> node) option" where
  "handle_register a s = do {
     (h, hs) \<leftarrow> skynet_handle_register (hof s) a (HS s);
     Some (h, s\<lparr>HS := hs\<rparr>)
   }"

definition handle_retire :: "u32 \<Rightarrow> node \<Rightarrow> (bool \<times> node) option" where
  "handle_retire h s =
     (let (c, hs) = skynet_handle_retire (hof s) h (HS s); s1 = s\<lparr>HS := hs\<rparr>
      in case c of
           None \<Rightarrow> Some (False, s1)
         | Some a \<Rightarrow> do { (r, s2) \<leftarrow> skynet_context_release a s1; Some (True, s2) })"

subsection \<open>Sending\<close>

text \<open>0 is success, -1 a handle that is not registered.\<close>

definition skynet_context_push :: "u32 \<Rightarrow> message \<Rightarrow> node \<Rightarrow> (int \<times> node) option" where
  "skynet_context_push h m s = do {
     (r, s1) \<leftarrow> handle_grab h s;
     (case r of
        None \<Rightarrow> Some (-1, s1)
      | Some a \<Rightarrow> do {
          c \<leftarrow> ctxs s1 a;
          mq \<leftarrow> skynet_mq_push (cx_queue c) m (MQ s1);
          (r2, s2) \<leftarrow> skynet_context_release a (s1\<lparr>MQ := mq\<rparr>);
          Some (0, s2)
        })
   }"

definition skynet_context_endless :: "u32 \<Rightarrow> node \<Rightarrow> node option" where
  "skynet_context_endless h s = do {
     (r, s1) \<leftarrow> handle_grab h s;
     (case r of
        None \<Rightarrow> Some s1
      | Some a \<Rightarrow> do {
          s2 \<leftarrow> upd_ctx a (\<lambda>c. c\<lparr>cx_endless := True\<rparr>) s1;
          (r2, s3) \<leftarrow> skynet_context_release a s2;
          Some s3
        })
   }"

text \<open>The bytes of a string with its terminating zero.\<close>

definition string_bytes :: "string \<Rightarrow> bytes" where
  "string_bytes s = map (\<lambda>c. of_nat (of_char c)) s @ [0]"

text \<open>
  \<^verbatim>\<open>skynet_error\<close> with the formatted text; \<open>src\<close> is the handle of the context, 0 for
  \<^verbatim>\<open>NULL\<close>.
\<close>

definition skynet_error :: "u32 \<Rightarrow> string \<Rightarrow> node \<Rightarrow> node option" where
  "skynet_error src text s =
     (let lg = (if logger s = 0 then skynet_handle_findname ''logger'' (HS s) else logger s);
          s1 = s\<lparr>logger := lg\<rparr>
      in if lg = 0 then Some s1
         else do {
           (r, s2) \<leftarrow> skynet_context_push lg
             \<lparr>msg_source = src, msg_session = 0, msg_data = Some (Bytes (string_bytes text)),
              msg_sz = of_nat (length text) OR push_bit MESSAGE_TYPE_SHIFT (ucast PTYPE_TEXT)\<rparr> s1;
           Some s2
         })"

definition ctx_handle :: "addr option \<Rightarrow> node \<Rightarrow> u32 option" where
  "ctx_handle ctx s = (case ctx of None \<Rightarrow> Some 0 | Some a \<Rightarrow> map_option cx_handle (ctxs s a))"

definition ctx_error :: "addr option \<Rightarrow> string \<Rightarrow> node \<Rightarrow> node option" where
  "ctx_error ctx text s = do { h \<leftarrow> ctx_handle ctx s; skynet_error h text s }"

text \<open>The increment of an \<^verbatim>\<open>int\<close> that has its largest value is undefined, so that the test for a wrap comes too late.\<close>

definition skynet_context_newsession :: "addr \<Rightarrow> node \<Rightarrow> (u32 \<times> node) option" where
  "skynet_context_newsession a s = do {
     c \<leftarrow> ctxs s a;
     c_assert (cx_session_id c \<noteq> 0x7fffffff);
     let session = cx_session_id c + 1;
     let session' = (if sint session \<le> 0 then 1 else session);
     s1 \<leftarrow> upd_ctx a (\<lambda>c. c\<lparr>cx_session_id := session'\<rparr>) s;
     Some (session', s1)
   }"

definition skynet_context_send ::
  "addr \<Rightarrow> payload option \<Rightarrow> u64 \<Rightarrow> u32 \<Rightarrow> u32 \<Rightarrow> u32 \<Rightarrow> node \<Rightarrow> node option" where
  "skynet_context_send a msg sz source type session s = do {
     c \<leftarrow> ctxs s a;
     mq \<leftarrow> skynet_mq_push (cx_queue c)
       \<lparr>msg_source = source, msg_session = session, msg_data = msg,
        msg_sz = sz OR push_bit MESSAGE_TYPE_SHIFT (ucast type)\<rparr> (MQ s);
     Some (s\<lparr>MQ := mq\<rparr>)
   }"

definition skynet_harbor_message_isremote :: "u32 \<Rightarrow> node \<Rightarrow> bool option" where
  "skynet_harbor_message_isremote h s = do {
     c_assert (HARBOR s \<noteq> - 1);
     let hb = h AND NOT HANDLE_MASK;
     Some (hb \<noteq> HARBOR s \<and> hb \<noteq> 0)
   }"

definition skynet_isremote :: "u32 \<Rightarrow> node \<Rightarrow> (bool \<times> u32) option" where
  "skynet_isremote h s = do {
     ret \<leftarrow> skynet_harbor_message_isremote h s;
     Some (ret, drop_bit HANDLE_REMOTE_SHIFT h)
   }"

text \<open>The size of \<^verbatim>\<open>struct remote_message\<close> on a 64-bit machine.\<close>

definition REMOTE_MESSAGE_SIZE :: u64 where "REMOTE_MESSAGE_SIZE = 48"

definition invalid_type :: "u32 \<Rightarrow> bool" where
  "invalid_type type \<longleftrightarrow> type \<noteq> PTYPE_SYSTEM \<and> type \<noteq> PTYPE_HARBOR"

definition skynet_harbor_send :: "remote_message \<Rightarrow> u32 \<Rightarrow> u32 \<Rightarrow> node \<Rightarrow> node option" where
  "skynet_harbor_send rmsg source session s = do {
     c_assert (invalid_type (rm_type rmsg));
     a \<leftarrow> REMOTE s;
     skynet_context_send a (Some (Remote_Message rmsg)) REMOTE_MESSAGE_SIZE source PTYPE_SYSTEM session s
   }"

definition skynet_harbor_init :: "u32 \<Rightarrow> node \<Rightarrow> node" where
  "skynet_harbor_init harbor s = s\<lparr>HARBOR := push_bit HANDLE_REMOTE_SHIFT harbor\<rparr>"

definition skynet_harbor_start :: "addr \<Rightarrow> node \<Rightarrow> node option" where
  "skynet_harbor_start a s = do { s1 \<leftarrow> skynet_context_reserve a s; Some (s1\<lparr>REMOTE := Some a\<rparr>) }"

definition skynet_harbor_exit :: "node \<Rightarrow> node option" where
  "skynet_harbor_exit s =
     (case REMOTE s of
        None \<Rightarrow> Some s
      | Some a \<Rightarrow> do { (r, s1) \<leftarrow> skynet_context_release a (s\<lparr>REMOTE := None\<rparr>); Some s1 })"

text \<open>
  \<^verbatim>\<open>_filter_args\<close>: the session, the payload (copied, with a zero byte behind it, unless the
  caller gives the block away) and the size with the type in its top byte. Reading past the end
  of the caller's block is an error.
\<close>

definition copy_payload :: "bytes option \<Rightarrow> u64 \<Rightarrow> bytes option option" where
  "copy_payload data sz =
     (case data of
        None \<Rightarrow> Some None
      | Some d \<Rightarrow> do { c_assert (unat sz \<le> length d); Some (Some (take (unat sz) d @ [0])) })"

definition filter_args ::
  "addr option \<Rightarrow> u32 \<Rightarrow> u32 \<Rightarrow> bytes option \<Rightarrow> u64 \<Rightarrow> node \<Rightarrow> (u32 \<times> bytes option \<times> u64 \<times> node) option" where
  "filter_args ctx type session data sz s = do {
     let needcopy = (type AND PTYPE_TAG_DONTCOPY = 0);
     let allocsession = (type AND PTYPE_TAG_ALLOCSESSION \<noteq> 0);
     let type1 = type AND 0xff;
     (session1, s1) \<leftarrow> (if allocsession
        then do { c_assert (session = 0); a \<leftarrow> ctx; skynet_context_newsession a s }
        else Some (session, s));
     data1 \<leftarrow> (if needcopy then copy_payload data sz else Some data);
     Some (session1, data1, sz OR push_bit MESSAGE_TYPE_SHIFT (ucast type1), s1)
   }"

definition remote_of :: "remote_name \<Rightarrow> bytes option \<Rightarrow> u64 \<Rightarrow> remote_message" where
  "remote_of dest data sz = \<lparr>rm_destination = dest, rm_message = data, rm_sz = sz AND MESSAGE_TYPE_MASK,
     rm_type = ucast (drop_bit MESSAGE_TYPE_SHIFT sz)\<rparr>"

text \<open>Giving away a block that is not taken.\<close>

definition free_if_given :: "u32 \<Rightarrow> bytes option \<Rightarrow> node \<Rightarrow> node" where
  "free_if_given type data s = (if type AND PTYPE_TAG_DONTCOPY \<noteq> 0 then skynet_free (map_option Bytes data) s else s)"

definition too_large :: "u64 \<Rightarrow> bool" where "too_large sz \<longleftrightarrow> sz AND MESSAGE_TYPE_MASK \<noteq> sz"

text \<open>
  The code leaves the bytes of the name in a message to a remote handle as they are in the new block;
  they are zero here, and nothing reads them when the handle is not 0.
\<close>

definition skynet_send ::
  "addr option \<Rightarrow> u32 \<Rightarrow> u32 \<Rightarrow> u32 \<Rightarrow> u32 \<Rightarrow> bytes option \<Rightarrow> u64 \<Rightarrow> node \<Rightarrow> (u32 \<times> node) option" where
  "skynet_send ctx source destination type session data sz s =
     (if too_large sz
      then do { s1 \<leftarrow> ctx_error ctx (''The message to '' @ fmt_x destination @ '' is too large'') s; Some (- 2, free_if_given type data s1) }
      else do {
        (session1, data1, sz1, s1) \<leftarrow> filter_args ctx type session data sz s;
        source1 \<leftarrow> (if source = 0 then do { a \<leftarrow> ctx; map_option cx_handle (ctxs s1 a) } else Some source);
        if destination = 0
        then (if data1 \<noteq> None
              then do { s2 \<leftarrow> ctx_error ctx ''Destination address can't be 0'' s1; Some (- 1, skynet_free (map_option Bytes data1) s2) }
              else Some (session1, s1))
        else do {
          remote \<leftarrow> skynet_harbor_message_isremote destination s1;
          if remote
          then do {
            s2 \<leftarrow> skynet_harbor_send
              (remote_of \<lparr>rn_name = replicate 16 (CHR 0x00), rn_handle = destination\<rparr> data1 sz1) source1 session1 s1;
            Some (session1, s2)
          }
          else do {
            (r, s2) \<leftarrow> skynet_context_push destination
              \<lparr>msg_source = source1, msg_session = session1, msg_data = map_option Bytes data1, msg_sz = sz1\<rparr> s1;
            if r \<noteq> 0 then Some (- 1, skynet_free (map_option Bytes data1) s2) else Some (session1, s2)
          }
        }
      })"

definition GLOBALNAME_LENGTH :: nat where "GLOBALNAME_LENGTH = 16"

definition copy_name :: "string \<Rightarrow> string" where
  "copy_name addr = (let n = take GLOBALNAME_LENGTH addr in n @ replicate (GLOBALNAME_LENGTH - length n) (CHR 0x00))"

definition skynet_sendname ::
  "addr option \<Rightarrow> u32 \<Rightarrow> string \<Rightarrow> u32 \<Rightarrow> u32 \<Rightarrow> bytes option \<Rightarrow> u64 \<Rightarrow> node \<Rightarrow> (u32 \<times> node) option" where
  "skynet_sendname ctx source addr type session data sz s = do {
     source1 \<leftarrow> (if source = 0 then do { a \<leftarrow> ctx; map_option cx_handle (ctxs s a) } else Some source);
     if take 1 addr = '':''
     then skynet_send ctx source1 (ucast (strtoul16 (drop 1 addr))) type session data sz s
     else if take 1 addr = ''.''
     then (let des = skynet_handle_findname (drop 1 addr) (HS s)
           in if des = 0 then Some (- 1, free_if_given type data s) else skynet_send ctx source1 des type session data sz s)
     else if too_large sz
     then do { s1 \<leftarrow> ctx_error ctx (''The message to '' @ addr @ '' is too large'') s; Some (- 2, free_if_given type data s1) }
     else do {
       (session1, data1, sz1, s1) \<leftarrow> filter_args ctx type session data sz s;
       s2 \<leftarrow> skynet_harbor_send (remote_of \<lparr>rn_name = copy_name addr, rn_handle = 0\<rparr> data1 sz1) source1 session1 s1;
       Some (session1, s2)
     }
   }"

subsection \<open>Dead letters\<close>

text \<open>A message to a service that is gone: its payload is freed and its sender gets an error response.\<close>

definition drop_message :: "u32 \<Rightarrow> message \<Rightarrow> node \<Rightarrow> node option" where
  "drop_message source msg s = do {
     c_assert (source \<noteq> 0);
     (r, s1) \<leftarrow> skynet_send None source (msg_source msg) PTYPE_ERROR 0 None 0 (skynet_free (msg_data msg) s);
     Some s1
   }"

definition node_mq_pop :: "addr \<Rightarrow> node \<Rightarrow> (message option \<times> node) option" where
  "node_mq_pop a s = do { (m, mq) \<leftarrow> skynet_mq_pop a (MQ s); Some (m, s\<lparr>MQ := mq\<rparr>) }"

definition node_mq_release :: "u32 \<Rightarrow> addr \<Rightarrow> node \<Rightarrow> node option" where
  "node_mq_release handle a s = do {
     q \<leftarrow> queues (MQ s) a;
     if mq_release q
     then do {
       s1 \<leftarrow> drop_loop (node_mq_pop a) (drop_message handle) s;
       mq \<leftarrow> release_queue a (MQ s1);
       Some (s1\<lparr>MQ := mq\<rparr>)
     }
     else do { mq \<leftarrow> skynet_globalmq_push a (MQ s); Some (s\<lparr>MQ := mq\<rparr>) }
   }"

subsection \<open>Creation\<close>

text \<open>
  The parameters: the instance that the module's \<^verbatim>\<open>create\<close> returns (\<open>None\<close> when the
  module is unknown or gives \<^verbatim>\<open>NULL\<close>) and what its \<^verbatim>\<open>init\<close> does.
\<close>

definition new_context :: "string \<Rightarrow> nat \<Rightarrow> bool \<Rightarrow> skynet_context" where
  "new_context name inst prof = \<lparr>cx_instance = inst, cx_mod = name, cx_cb = None, cx_queue = 0, cx_logfile = None,
     cx_cpu_cost = 0, cx_cpu_start = 0, cx_result = '''', cx_handle = 0, cx_session_id = 0, cx_ref = 2,
     cx_message_count = 0, cx_init = False, cx_endless = False, cx_profile = prof\<rparr>"

definition skynet_context_new ::
  "(string \<Rightarrow> nat option) \<Rightarrow> (nat \<Rightarrow> addr \<Rightarrow> string option \<Rightarrow> node \<Rightarrow> (int \<times> node) option) \<Rightarrow>
   string \<Rightarrow> string option \<Rightarrow> node \<Rightarrow> (addr option \<times> node) option" where
  "skynet_context_new create init name param s =
     (case create name of
        None \<Rightarrow> Some (None, s)
      | Some inst \<Rightarrow> do {
          let ctx = next_ctx s;
          let s1 = s\<lparr>ctxs := (ctxs s)(ctx \<mapsto> new_context name inst (node_profile s)), next_ctx := Suc ctx\<rparr>;
          (handle, s2) \<leftarrow> handle_register ctx s1;
          let (queue, mq) = skynet_mq_create handle (MQ s2);
          s3 \<leftarrow> upd_ctx ctx (\<lambda>c. c\<lparr>cx_handle := handle, cx_queue := queue\<rparr>) (s2\<lparr>MQ := mq\<rparr>);
          (r, s4) \<leftarrow> init inst ctx param (s3\<lparr>total := total s3 + 1\<rparr>);
          if r = 0
          then do {
            (ret, s5) \<leftarrow> skynet_context_release ctx s4;
            s6 \<leftarrow> (if ret \<noteq> None then upd_ctx ctx (\<lambda>c. c\<lparr>cx_init := True\<rparr>) s5 else Some s5);
            mq6 \<leftarrow> skynet_globalmq_push queue (MQ s6);
            s7 \<leftarrow> (if ret \<noteq> None
                  then ctx_error ret (''LAUNCH '' @ name @ '' '' @ (case param of None \<Rightarrow> '''' | Some p \<Rightarrow> p)) (s6\<lparr>MQ := mq6\<rparr>)
                  else Some (s6\<lparr>MQ := mq6\<rparr>));
            Some (ret, s7)
          }
          else do {
            s5 \<leftarrow> ctx_error (Some ctx) (''FAILED launch '' @ name) s4;
            c \<leftarrow> ctxs s5 ctx;
            (r6, s6) \<leftarrow> skynet_context_release ctx s5;
            (r7, s7) \<leftarrow> handle_retire (cx_handle c) s6;
            s8 \<leftarrow> node_mq_release (cx_handle c) queue s7;
            Some (None, s8)
          }
        })"

subsection \<open>Dispatching\<close>

text \<open>
  \<open>cb\<close> runs a callback: its number, the context, its user data, then type, session, source,
  payload and size; it says whether the service keeps the payload. \<open>clock\<close> gives the two
  readings of the thread's clock around it.
\<close>

type_synonym callback =
  "nat \<Rightarrow> addr \<Rightarrow> nat \<Rightarrow> u32 \<Rightarrow> u32 \<Rightarrow> u32 \<Rightarrow> payload option \<Rightarrow> u64 \<Rightarrow> node \<Rightarrow> (bool \<times> node) option"

definition dispatch_message :: "callback \<Rightarrow> u64 \<times> u64 \<Rightarrow> addr \<Rightarrow> message \<Rightarrow> node \<Rightarrow> node option" where
  "dispatch_message cb clock a msg s = do {
     c \<leftarrow> ctxs s a;
     c_assert (cx_init c);
     let type = (ucast (drop_bit MESSAGE_TYPE_SHIFT (msg_sz msg)) :: u32);
     let sz = msg_sz msg AND MESSAGE_TYPE_MASK;
     let s1 = (case cx_logfile c of
         None \<Rightarrow> s
       | Some f \<Rightarrow> emit [Log_Output f (msg_source msg) type (msg_session msg) (msg_data msg) sz] s);
     s2 \<leftarrow> upd_ctx a (\<lambda>c. c\<lparr>cx_message_count := cx_message_count c + 1\<rparr>) s1;
     (f, ud) \<leftarrow> cx_cb c;
     s3 \<leftarrow> (if cx_profile c then upd_ctx a (\<lambda>c. c\<lparr>cx_cpu_start := fst clock\<rparr>) s2 else Some s2);
     (reserve_msg, s4) \<leftarrow> cb f a ud type (msg_session msg) (msg_source msg) (msg_data msg) sz s3;
     s5 \<leftarrow> (if cx_profile c then upd_ctx a (\<lambda>c. c\<lparr>cx_cpu_cost := cx_cpu_cost c + (snd clock - cx_cpu_start c)\<rparr>) s4 else Some s4);
     Some (if reserve_msg then s5 else skynet_free (msg_data msg) s5)
   }"

text \<open>\<^verbatim>\<open>struct skynet_monitor\<close>, one per worker thread.\<close>

record skynet_monitor =
  sm_version :: u32
  sm_check_version :: u32
  sm_source :: u32
  sm_destination :: u32

definition skynet_monitor_new :: skynet_monitor where
  "skynet_monitor_new = \<lparr>sm_version = 0, sm_check_version = 0, sm_source = 0, sm_destination = 0\<rparr>"

definition skynet_monitor_trigger :: "u32 \<Rightarrow> u32 \<Rightarrow> skynet_monitor \<Rightarrow> skynet_monitor" where
  "skynet_monitor_trigger source destination sm =
     sm\<lparr>sm_source := source, sm_destination := destination, sm_version := sm_version sm + 1\<rparr>"

definition skynet_monitor_check :: "skynet_monitor \<Rightarrow> node \<Rightarrow> (skynet_monitor \<times> node) option" where
  "skynet_monitor_check sm s =
     (if sm_version sm = sm_check_version sm
      then if sm_destination sm \<noteq> 0
           then do {
             s1 \<leftarrow> skynet_context_endless (sm_destination sm) s;
             s2 \<leftarrow> skynet_error 0 (''A message from [ :'' @ fmt_08x (sm_source sm) @ '' ] to [ :'' @
                fmt_08x (sm_destination sm) @ '' ] maybe in an endless loop (version = '' @
                fmt_int (sint (sm_version sm)) @ '')'') s1;
             Some (sm, s2)
           }
           else Some (sm, s)
      else Some (sm\<lparr>sm_check_version := sm_version sm\<rparr>, s))"

definition global_pop :: "node \<Rightarrow> (addr option \<times> node) option" where
  "global_pop s = do { (q, mq) \<leftarrow> skynet_globalmq_pop (MQ s); Some (q, s\<lparr>MQ := mq\<rparr>) }"

text \<open>What the loop does with one message that it has popped.\<close>

definition dispatch_one ::
  "callback \<Rightarrow> u64 \<times> u64 \<Rightarrow> addr \<Rightarrow> addr \<Rightarrow> u32 \<Rightarrow> message \<Rightarrow> skynet_monitor \<Rightarrow> node \<Rightarrow> (skynet_monitor \<times> node) option" where
  "dispatch_one cb clock q a handle msg sm s = do {
     mq \<leftarrow> queues (MQ s) q;
     let (overload, mq1) = skynet_mq_overload mq;
     let s1 = s\<lparr>MQ := set_queue q mq1 (MQ s)\<rparr>;
     s2 \<leftarrow> (if overload \<noteq> 0
           then ctx_error (Some a) (''May overload, message queue length = '' @ fmt_nat overload) s1 else Some s1);
     let sm1 = skynet_monitor_trigger (msg_source msg) handle sm;
     c \<leftarrow> ctxs s2 a;
     s3 \<leftarrow> (if cx_cb c = None then Some s2 else dispatch_message cb clock a msg s2);
     Some (skynet_monitor_trigger 0 0 sm1, s3)
   }"

text \<open>
  The \<^verbatim>\<open>for\<close> loop with \<open>k\<close> rounds left; \<open>first\<close> is \<^verbatim>\<open>i == 0\<close>. The first result is
  \<open>True\<close> when the queue ran empty.
\<close>

fun dispatch_loop ::
  "callback \<Rightarrow> u64 \<times> u64 \<Rightarrow> addr \<Rightarrow> addr \<Rightarrow> u32 \<Rightarrow> nat \<Rightarrow> skynet_monitor \<Rightarrow> node \<Rightarrow>
   (bool \<times> skynet_monitor \<times> node) option" where
  "dispatch_loop cb clock q a handle 0 sm s = Some (False, sm, s)"
| "dispatch_loop cb clock q a handle (Suc k) sm s = do {
     (m, s1) \<leftarrow> node_mq_pop q s;
     (case m of
        None \<Rightarrow> Some (True, sm, s1)
      | Some msg \<Rightarrow> do {
          (sm2, s2) \<leftarrow> dispatch_one cb clock q a handle msg sm s1;
          dispatch_loop cb clock q a handle k sm2 s2
        })
   }"

definition skynet_context_message_dispatch ::
  "callback \<Rightarrow> u64 \<times> u64 \<Rightarrow> skynet_monitor \<Rightarrow> addr option \<Rightarrow> int \<Rightarrow> node \<Rightarrow>
   (addr option \<times> skynet_monitor \<times> node) option" where
  "skynet_context_message_dispatch cb clock sm q0 weight s = do {
     (q1, s1) \<leftarrow> (case q0 of None \<Rightarrow> global_pop s | Some q \<Rightarrow> Some (Some q, s));
     (case q1 of
        None \<Rightarrow> Some (None, sm, s1)
      | Some q \<Rightarrow> do {
          mq \<leftarrow> queues (MQ s1) q;
          let handle = mq_handle mq;
          (ctx, s2) \<leftarrow> handle_grab handle s1;
          (case ctx of
             None \<Rightarrow> do {
               s3 \<leftarrow> node_mq_release handle q s2;
               (nq, s4) \<leftarrow> global_pop s3;
               Some (nq, sm, s4)
             }
           | Some a \<Rightarrow> do {
               (m, s3) \<leftarrow> node_mq_pop q s2;
               (emptied, sm4, s4) \<leftarrow> (case m of
                   None \<Rightarrow> Some (True, sm, s3)
                 | Some msg \<Rightarrow> do {
                     mq3 \<leftarrow> queues (MQ s3) q;
                     let n = (if 0 \<le> weight then skynet_mq_length mq3 div 2 ^ nat weight else 1);
                     (sm3, s3') \<leftarrow> dispatch_one cb clock q a handle msg sm s3;
                     dispatch_loop cb clock q a handle (n - 1) sm3 s3'
                   });
               if emptied
               then do {
                 (r, s5) \<leftarrow> skynet_context_release a s4;
                 (nq, s6) \<leftarrow> global_pop s5;
                 Some (nq, sm4, s6)
               }
               else do {
                 c \<leftarrow> ctxs s4 a;
                 c_assert (q = cx_queue c);
                 (nq, s5) \<leftarrow> global_pop s4;
                 (qr, s6) \<leftarrow> (case nq of
                     None \<Rightarrow> Some (q, s5)
                   | Some n \<Rightarrow> do { mq5 \<leftarrow> skynet_globalmq_push q (MQ s5); Some (n, s5\<lparr>MQ := mq5\<rparr>) });
                 (r, s7) \<leftarrow> skynet_context_release a s6;
                 Some (Some qr, sm4, s7)
               }
             })
        })
   }"

text \<open>\<^verbatim>\<open>skynet_context_dispatchall\<close>, which stops when the queue is empty.\<close>

partial_function (option) skynet_context_dispatchall ::
  "callback \<Rightarrow> u64 \<times> u64 \<Rightarrow> addr \<Rightarrow> node \<Rightarrow> node option" where
  "skynet_context_dispatchall cb clock a s = do {
     c \<leftarrow> ctxs s a;
     (m, s1) \<leftarrow> node_mq_pop (cx_queue c) s;
     (case m of
        None \<Rightarrow> Some s1
      | Some msg \<Rightarrow> do {
          s2 \<leftarrow> dispatch_message cb clock a msg s1;
          skynet_context_dispatchall cb clock a s2
        })
   }"

definition skynet_callback :: "addr \<Rightarrow> nat \<Rightarrow> nat \<Rightarrow> node \<Rightarrow> node option" where
  "skynet_callback a ud cb = upd_ctx a (\<lambda>c. c\<lparr>cx_cb := Some (cb, ud)\<rparr>)"

subsection \<open>The queues of the process\<close>

text \<open>A queue in the global queue has its flag set or is marked for release.\<close>

abbreviation linked_ok :: "message_queue \<Rightarrow> bool" where
  "linked_ok q \<equiv> mq_in_global q \<or> mq_release q"

definition mq_ok :: "mq_store \<Rightarrow> bool" where
  "mq_ok st \<longleftrightarrow> (\<exists>xs. gq_inv st xs \<and> (\<forall>a \<in> set xs. \<exists>q. queues st a = Some q \<and> linked_ok q)) \<and>
     (\<forall>a q. queues st a = Some q \<longrightarrow> mq_wf q)"

text \<open>A queue takes \<open>n\<close> more messages without its capacity leaving the range of
  \<^verbatim>\<open>int\<close>.\<close>

definition absorbs :: "nat \<Rightarrow> message_queue \<Rightarrow> bool" where
  "absorbs n q \<longleftrightarrow> (\<exists>k. mq_cap q * 2 ^ k \<le> int_max \<and> length (mq_content q) + n < mq_cap q * 2 ^ k)"

definition roomy :: "nat \<Rightarrow> mq_store \<Rightarrow> bool" where
  "roomy n st \<longleftrightarrow> (\<forall>a q. queues st a = Some q \<longrightarrow> absorbs n q)"

lemma absorbs_mono: "absorbs n q \<Longrightarrow> m \<le> n \<Longrightarrow> absorbs m q"
  by (auto simp: absorbs_def)

lemma roomy_mono: "roomy n st \<Longrightarrow> m \<le> n \<Longrightarrow> roomy m st"
  by (auto simp: roomy_def intro: absorbs_mono)

lemma mq_push_absorbs:
  assumes wf: "mq_wf q" and a: "absorbs (Suc n) q"
  shows "\<exists>q'. mq_push_local m q = Some q' \<and> absorbs n q'"
proof -
  let ?t = "if mq_cap q \<le> Suc (mq_tail q) then 0 else Suc (mq_tail q)"
  let ?q1 = "q\<lparr>mq_queue := (mq_queue q)[mq_tail q := m], mq_tail := ?t\<rparr>"
  obtain k where k: "mq_cap q * 2 ^ k \<le> int_max" "length (mq_content q) + Suc n < mq_cap q * 2 ^ k"
    using a by (auto simp: absorbs_def)
  have w: "length (mq_queue q) = mq_cap q" "mq_head q < mq_cap q" "mq_tail q < mq_cap q" using wf by (auto simp: mq_wf_def)
  show ?thesis
  proof (cases "mq_head q = ?t")
    case True
    then have "skynet_mq_length q + 1 = mq_cap q" using w by (auto simp: skynet_mq_length_def split: if_splits)
    then have "k \<noteq> 0" using k(2) by (cases k) (auto simp: mq_length_content)
    then obtain j where j: "k = Suc j" by (cases k) auto
    have "mq_cap q * 2 * 2 ^ j \<le> int_max" using k(1) j by (simp add: mult_ac)
    moreover have "mq_cap q * 2 \<le> mq_cap q * 2 * 2 ^ j" by simp
    ultimately have cap: "mq_cap q * 2 \<le> int_max" by (rule order_trans [rotated])
    then obtain q' where q': "mq_push_local m q = Some q'" using mq_push_total [OF wf] by blast
    have "mq_cap q' = mq_cap q * 2"
      using q' True w cap by (auto simp: mq_push_local_def Let_def expand_queue_def split: if_splits)
    then show ?thesis using q' mq_push_content [OF wf q'] k j by (auto simp: absorbs_def mult_ac intro!: exI [of _ j])
  next
    case False
    then have q': "mq_push_local m q = Some ?q1" using w by (simp add: mq_push_local_def Let_def)
    then show ?thesis using mq_push_content [OF wf q'] k by (auto simp: absorbs_def)
  qed
qed

text \<open>The owner and the release flag of every queue.\<close>

definition owners :: "mq_store \<Rightarrow> addr \<Rightarrow> (u32 \<times> bool) option" where
  "owners st a = map_option (\<lambda>q. (mq_handle q, mq_release q)) (queues st a)"

definition next_free :: "message_queue option \<Rightarrow> message_queue option" where
  "next_free = map_option (\<lambda>q. q\<lparr>mq_next := None\<rparr>)"

lemma next_free_same:
  assumes "next_free (queues st' b) = next_free (queues st b)"
  shows "owners st' b = owners st b" "mailbox b st' = mailbox b st" "mailbox_ok b st' = mailbox_ok b st"
    "map_option (\<lambda>q. linked_ok q) (queues st' b) = map_option (\<lambda>q. linked_ok q) (queues st b)"
    "(\<exists>q. queues st' b = Some q \<and> mq_wf q) = (\<exists>q. queues st b = Some q \<and> mq_wf q)"
    "map_option (absorbs n) (queues st' b) = map_option (absorbs n) (queues st b)"
proof -
  have *: "mq_handle q = mq_handle q' \<and> mq_release q = mq_release q' \<and> mq_in_global q = mq_in_global q' \<and>
      mq_content q = mq_content q' \<and> mq_wf q = mq_wf q' \<and> absorbs n q = absorbs n q'"
    if eq: "q\<lparr>mq_next := None\<rparr> = q'\<lparr>mq_next := None\<rparr>" for q q' n
    using arg_cong [OF eq, of mq_handle] arg_cong [OF eq, of mq_release] arg_cong [OF eq, of mq_in_global]
      arg_cong [OF eq, of mq_content] arg_cong [OF eq, of mq_wf] arg_cong [OF eq, of mq_cap]
    by (simp add: absorbs_def)
  show "owners st' b = owners st b" "mailbox b st' = mailbox b st" "mailbox_ok b st' = mailbox_ok b st"
    "map_option (\<lambda>q. linked_ok q) (queues st' b) = map_option (\<lambda>q. linked_ok q) (queues st b)"
    "(\<exists>q. queues st' b = Some q \<and> mq_wf q) = (\<exists>q. queues st b = Some q \<and> mq_wf q)"
    "map_option (absorbs n) (queues st' b) = map_option (absorbs n) (queues st b)"
    using assms * [of "the (queues st' b)" "the (queues st b)"]
    by (cases "queues st' b"; cases "queues st b"; simp add: next_free_def owners_def mailbox_def mailbox_ok_def)+
qed

text \<open>Linking an allocated queue that is not linked keeps everything but the pointers.\<close>

lemma global_push_ok:
  assumes inv: "gq_inv st xs" and ok: "\<forall>b \<in> set xs. \<exists>q. queues st b = Some q \<and> linked_ok q"
    and wf: "\<forall>b q. queues st b = Some q \<longrightarrow> mq_wf q"
    and a: "queues st a = Some q" "a \<notin> set xs" "linked_ok q"
  shows "\<exists>st'. skynet_globalmq_push a st = Some st' \<and> mq_ok st' \<and> (\<forall>b. next_free (queues st' b) = next_free (queues st b))"
proof -
  obtain st' where st': "skynet_globalmq_push a st = Some st'" "gq_inv st' (xs @ [a])"
    and same: "\<And>b. next_free (queues st' b) = next_free (queues st b)"
    using globalmq_push_inv [OF inv a(1,2)] unfolding next_free_def by blast
  have "\<exists>q. queues st' b = Some q \<and> linked_ok q" if "b \<in> set (xs @ [a])" for b
  proof -
    have "map_option (\<lambda>q. linked_ok q) (queues st b) = Some True" using that ok a by auto
    then show ?thesis using next_free_same(4) [OF same, of b] by auto
  qed
  moreover have "mq_wf q" if z: "queues st' b = Some q" for b q
  proof -
    obtain q0 where "queues st b = Some q0" using same [of b] z by (cases "queues st b") (auto simp: next_free_def)
    then show ?thesis using next_free_same(5) [OF same, of b] z wf by auto
  qed
  ultimately have "mq_ok st'" using st'(2) unfolding mq_ok_def by blast
  then show ?thesis using st'(1) same by blast
qed

lemma set_queue_ok:
  assumes inv: "gq_inv st xs" and ok: "\<forall>b \<in> set xs. \<exists>q. queues st b = Some q \<and> linked_ok q"
    and wf: "\<forall>b q. queues st b = Some q \<longrightarrow> mq_wf q" and a: "queues st a = Some q0"
    and q: "mq_next q = mq_next q0" "mq_wf q" "a \<in> set xs \<longrightarrow> linked_ok q"
  shows "gq_inv (set_queue a q st) xs" "\<forall>b \<in> set xs. \<exists>q'. queues (set_queue a q st) b = Some q' \<and> linked_ok q'"
    "\<forall>b q'. queues (set_queue a q st) b = Some q' \<longrightarrow> mq_wf q'"
  using gq_inv_update [OF inv a q(1)] ok wf q by auto

text \<open>A message can be pushed to any allocated queue that can still grow; only that queue changes.\<close>

lemma mq_push_ok:
  assumes ok: "mq_ok st" and a: "queues st a = Some q" "absorbs 1 q"
    and live: "\<not> mq_release q"
  shows "\<exists>st'. skynet_mq_push a m st = Some st' \<and> mq_ok st' \<and> owners st' = owners st \<and>
    mailbox a st' = mailbox a st @ [m] \<and> (\<forall>b. b \<noteq> a \<longrightarrow> mailbox b st' = mailbox b st)"
proof -
  obtain xs where xs: "gq_inv st xs" "\<forall>b \<in> set xs. \<exists>q. queues st b = Some q \<and> linked_ok q"
    and wf: "\<forall>b q. queues st b = Some q \<longrightarrow> mq_wf q" using ok unfolding mq_ok_def by blast
  have wfq: "mq_wf q" using wf a(1) by blast
  obtain q1 where q1: "mq_push_local m q = Some q1" using mq_push_absorbs [OF wfq, of 0] a(2) by auto
  have c: "mq_wf q1" "mq_content q1 = mailbox a st @ [m]"
    using mq_push_content [OF wfq q1] a(1) by (simp_all add: mailbox_def)
  note fr = mq_push_frame [OF q1]
  let ?q2 = "q1\<lparr>mq_in_global := True\<rparr>" and ?st1 = "set_queue a (q1\<lparr>mq_in_global := True\<rparr>) st"
  have q2: "mq_next ?q2 = mq_next q" "mq_wf ?q2" "a \<in> set xs \<longrightarrow> linked_ok ?q2" using fr c by simp_all
  note st1 = set_queue_ok [OF xs wf a(1) q2]
  have own: "owners ?st1 = owners st" using fr a(1) by (auto simp: owners_def fun_eq_iff)
  have box: "mailbox a ?st1 = mailbox a st @ [m]" "b \<noteq> a \<Longrightarrow> mailbox b ?st1 = mailbox b st" for b
    using c by (simp_all add: mailbox_def)
  show ?thesis
  proof (cases "mq_in_global q1")
    case True
    then have "?q2 = q1" by simp
    moreover have "skynet_mq_push a m st = Some (set_queue a q1 st)"
      using a(1) q1 True by (simp add: skynet_mq_push_def)
    ultimately have "skynet_mq_push a m st = Some ?st1" by (simp only:)
    moreover have "mq_ok ?st1" using st1 unfolding mq_ok_def by blast
    ultimately show ?thesis using own box by blast
  next
    case False
    then have new: "a \<notin> set xs" using xs(2) a(1) fr live by force
    have "queues ?st1 a = Some ?q2" "linked_ok ?q2" by simp_all
    from global_push_ok [OF st1 this(1) new this(2)] obtain st' where st': "skynet_globalmq_push a ?st1 = Some st'" "mq_ok st'"
      and same: "\<And>b. next_free (queues st' b) = next_free (queues ?st1 b)"
      by blast
    have "skynet_mq_push a m st = Some st'" using a(1) q1 False st'(1) by (simp add: skynet_mq_push_def)
    moreover have "owners st' = owners ?st1" using next_free_same(1) [OF same] by blast
    moreover have "mailbox b st' = mailbox b ?st1" for b by (rule next_free_same(2) [OF same])
    ultimately show ?thesis using st'(2) own box by simp
  qed
qed

lemma mq_push_fresh: "skynet_mq_push a m st = Some st' \<Longrightarrow> fresh st' = fresh st"
  by (auto simp: skynet_mq_push_def skynet_globalmq_push_def bind_Some_iff split: if_splits option.splits)

text \<open>Marking a queue for release changes only its flag and links it if it is not linked.\<close>

lemma mq_mark_release_ok:
  assumes ok: "mq_ok st" and a: "queues st a = Some q" "\<not> mq_release q"
  shows "\<exists>st'. skynet_mq_mark_release a st = Some st' \<and> mq_ok st' \<and> fresh st' = fresh st \<and>
    owners st' = (owners st)(a \<mapsto> (mq_handle q, True)) \<and> (\<forall>b. mailbox b st' = mailbox b st)"
proof -
  obtain xs where xs: "gq_inv st xs" "\<forall>b \<in> set xs. \<exists>q. queues st b = Some q \<and> linked_ok q"
    and wf: "\<forall>b q. queues st b = Some q \<longrightarrow> mq_wf q" using ok unfolding mq_ok_def by blast
  let ?q1 = "q\<lparr>mq_release := True\<rparr>" and ?st1 = "set_queue a (q\<lparr>mq_release := True\<rparr>) st"
  have q1: "mq_next ?q1 = mq_next q" "mq_wf ?q1" "a \<in> set xs \<longrightarrow> linked_ok ?q1" using wf a(1) by auto
  note st1 = set_queue_ok [OF xs wf a(1) q1]
  have own: "owners ?st1 = (owners st)(a \<mapsto> (mq_handle q, True))" by (auto simp: owners_def)
  have box: "mailbox b ?st1 = mailbox b st" for b using a(1) by (auto simp: mailbox_def)
  show ?thesis
  proof (cases "mq_in_global q")
    case True
    have "mq_ok ?st1" using st1 unfolding mq_ok_def by blast
    then show ?thesis using True a own box by (auto simp: skynet_mq_mark_release_def Let_def)
  next
    case False
    then have new: "a \<notin> set xs" using xs(2) a by force
    have "queues ?st1 a = Some ?q1" "linked_ok ?q1" by simp_all
    from global_push_ok [OF st1 this(1) new this(2)] obtain st'
      where st': "skynet_globalmq_push a ?st1 = Some st'" "mq_ok st'"
        and same: "\<And>b. next_free (queues st' b) = next_free (queues ?st1 b)" by blast
    have "skynet_mq_mark_release a st = Some st'"
      using a False st'(1) by (simp add: skynet_mq_mark_release_def Let_def)
    moreover have "owners st' = owners ?st1" using next_free_same(1) [OF same] by blast
    moreover have "mailbox b st' = mailbox b ?st1" for b by (rule next_free_same(2) [OF same])
    moreover have "fresh st' = fresh ?st1"
      using st'(1) by (auto simp: skynet_globalmq_push_def bind_Some_iff split: if_splits option.splits)
    ultimately show ?thesis using st'(2) own box by simp
  qed
qed

subsection \<open>The invariant of the process\<close>

definition node_ok :: "node \<Rightarrow> bool" where
  "node_ok s \<longleftrightarrow> slots_wf (hof s) (HS s) \<and> mq_ok (MQ s) \<and>
     (\<forall>a. Some a \<in> set (slot (HS s)) \<longrightarrow> ctxs s a \<noteq> None) \<and>
     (\<forall>a c. ctxs s a = Some c \<longrightarrow> 1 \<le> cx_ref c \<and> owners (MQ s) (cx_queue c) = Some (cx_handle c, False)) \<and>
     (\<forall>a b c d. ctxs s a = Some c \<longrightarrow> ctxs s b = Some d \<longrightarrow> cx_queue c = cx_queue d \<longrightarrow> a = b) \<and>
     (\<forall>a. next_ctx s \<le> a \<longrightarrow> ctxs s a = None) \<and>
     (\<forall>a. fresh (MQ s) \<le> a \<longrightarrow> owners (MQ s) a = None)"

lemma node_okD:
  assumes "node_ok s"
  shows "slots_wf (hof s) (HS s)" "mq_ok (MQ s)" "Some a \<in> set (slot (HS s)) \<Longrightarrow> \<exists>c. ctxs s a = Some c"
    "ctxs s a = Some c \<Longrightarrow> 1 \<le> cx_ref c" "ctxs s a = Some c \<Longrightarrow> owners (MQ s) (cx_queue c) = Some (cx_handle c, False)"
    "ctxs s a = Some c \<Longrightarrow> ctxs s b = Some d \<Longrightarrow> cx_queue c = cx_queue d \<Longrightarrow> a = b"
    "next_ctx s \<le> a \<Longrightarrow> ctxs s a = None" "fresh (MQ s) \<le> a \<Longrightarrow> owners (MQ s) a = None"
  using assms unfolding node_ok_def by blast+

lemma owned_queue:
  assumes "owners st a = Some (h, r)"
  obtains q where "queues st a = Some q" "mq_handle q = h" "mq_release q = r"
  using assms by (auto simp: owners_def)

lemma slots_wf_cong:
  assumes "slots_wf f s" "\<And>a. Some a \<in> set (slot s) \<Longrightarrow> g a = f a"
  shows "slots_wf g s"
proof -
  have "g c = f c" if "i < slot_size s" "slot s ! i = Some c" for i c
    using assms(2) [of c] nth_mem [of i "slot s"] assms(1) that by (simp add: slots_wf_def)
  then show ?thesis using assms(1) unfolding slots_wf_def by simp
qed

lemma node_ok_mq:
  assumes "node_ok s" "mq_ok mq" "owners mq = owners (MQ s)" "fresh mq = fresh (MQ s)"
  shows "node_ok (s\<lparr>MQ := mq\<rparr>)"
proof -
  have "hof (s\<lparr>MQ := mq\<rparr>) = hof s" by (simp add: hof_def fun_eq_iff)
  then show ?thesis using assms unfolding node_ok_def by simp
qed

lemma node_ok_frame [simp]:
  "node_ok (s\<lparr>logger := l\<rparr>) = node_ok s" "node_ok (s\<lparr>total := n\<rparr>) = node_ok s" "node_ok (emit es s) = node_ok s"
  "node_ok (s\<lparr>REMOTE := r\<rparr>) = node_ok s" "node_ok (s\<lparr>monitor_exit := h\<rparr>) = node_ok s" "node_ok (s\<lparr>TI := t\<rparr>) = node_ok s"
  "node_ok (s\<lparr>ENV := env\<rparr>) = node_ok s" "node_ok (s\<lparr>effects := es\<rparr>) = node_ok s"
  by (simp_all add: node_ok_def hof_def [abs_def] emit_def)

lemma node_ok_upd:
  assumes ok: "node_ok s" and a: "ctxs s a = Some c" and c': "cx_queue c' = cx_queue c" "cx_handle c' = cx_handle c" "1 \<le> cx_ref c'"
  shows "node_ok (s\<lparr>ctxs := (ctxs s)(a \<mapsto> c')\<rparr>)"
proof -
  have h: "hof (s\<lparr>ctxs := (ctxs s)(a \<mapsto> c')\<rparr>) = hof s" using a c' by (auto simp: hof_def fun_eq_iff)
  show ?thesis
    unfolding node_ok_def h using ok a c' unfolding node_ok_def
    by (auto 4 3 simp: split: if_splits)
qed

text \<open>Pushing to a registered handle changes the mailbox of its service and nothing else.\<close>

lemma context_push_missing:
  "skynet_handle_grab (hof s) h (HS s) = None \<Longrightarrow> skynet_context_push h m s = Some (-1, s)"
  by (simp add: skynet_context_push_def handle_grab_def)

lemma context_push_result:
  assumes ok: "node_ok s" "roomy 1 (MQ s)" and h: "skynet_handle_grab (hof s) h (HS s) = Some a" "ctxs s a = Some c"
  shows "\<exists>mq. skynet_context_push h m s = Some (0, s\<lparr>MQ := mq\<rparr>) \<and> node_ok (s\<lparr>MQ := mq\<rparr>) \<and>
    skynet_mq_push (cx_queue c) m (MQ s) = Some mq \<and> owners mq = owners (MQ s) \<and>
    mailbox (cx_queue c) mq = mailbox (cx_queue c) (MQ s) @ [m] \<and> (\<forall>b. b \<noteq> cx_queue c \<longrightarrow> mailbox b mq = mailbox b (MQ s))"
proof -
  obtain q where q: "queues (MQ s) (cx_queue c) = Some q" "\<not> mq_release q"
    using node_okD(5) [OF ok(1) h(2)] by (auto elim: owned_queue)
  have cap: "absorbs 1 q" using ok(2) q(1) by (simp add: roomy_def)
  obtain mq where mq: "skynet_mq_push (cx_queue c) m (MQ s) = Some mq" "mq_ok mq" "owners mq = owners (MQ s)"
      "mailbox (cx_queue c) mq = mailbox (cx_queue c) (MQ s) @ [m]"
      "\<forall>b. b \<noteq> cx_queue c \<longrightarrow> mailbox b mq = mailbox b (MQ s)"
    using mq_push_ok [OF node_okD(2) [OF ok(1)] q(1) cap q(2)] by blast
  have ref: "cx_ref c + 1 \<noteq> 1" using node_okD(4) [OF ok(1) h(2)] by simp
  have "skynet_context_push h m s = Some (0, s\<lparr>MQ := mq\<rparr>)"
    using h mq(1) ref
    by (simp add: skynet_context_push_def handle_grab_def skynet_context_grab_def upd_ctx_def
        skynet_context_release_def fun_upd_idem)
  moreover have "node_ok (s\<lparr>MQ := mq\<rparr>)"
    by (rule node_ok_mq [OF ok(1) mq(2,3) mq_push_fresh [OF mq(1)]])
  ultimately show ?thesis using mq by blast
qed

subsection \<open>Message headers\<close>

lemma header_mask: "MESSAGE_TYPE_MASK = mask 56"
  by (simp add: MESSAGE_TYPE_MASK_def mask_eq_exp_minus_1 drop_bit_eq_div)

lemma too_large_iff: "\<not> too_large sz \<longleftrightarrow> unat sz < 2 ^ 56"
proof -
  have "sz AND mask 56 = sz \<longleftrightarrow> take_bit 56 sz = sz" by (simp add: take_bit_eq_mask)
  also have "\<dots> \<longleftrightarrow> unat sz < 2 ^ 56"
    by (simp add: word_unat_eq_iff unsigned_take_bit_eq take_bit_nat_eq_self_iff)
  finally show ?thesis by (simp add: too_large_def header_mask)
qed

text \<open>The size and the type that \<^verbatim>\<open>_filter_args\<close> packs are the ones that
  \<^verbatim>\<open>dispatch_message\<close> takes apart.\<close>

lemma header_unpack:
  assumes "\<not> too_large sz"
  shows "(sz OR push_bit MESSAGE_TYPE_SHIFT (ucast (type AND 0xff :: u32))) AND MESSAGE_TYPE_MASK = sz"
    "ucast (drop_bit MESSAGE_TYPE_SHIFT (sz OR push_bit MESSAGE_TYPE_SHIFT (ucast (type AND 0xff :: u32)))) = (type AND 0xff :: u32)"
proof -
  have sz: "sz AND mask 56 = sz" using assms by (simp add: too_large_def header_mask)
  have high: "\<not> bit sz n" if "56 \<le> n" for n
    using that arg_cong [OF sz, of "\<lambda>x. bit x n"] by (auto simp: bit_simps)
  have ff: "(0xff :: u32) = mask 8" by (simp add: mask_eq_exp_minus_1)
  show "(sz OR push_bit MESSAGE_TYPE_SHIFT (ucast (type AND 0xff))) AND MESSAGE_TYPE_MASK = sz"
    unfolding header_mask MESSAGE_TYPE_SHIFT_def ff
    by (rule bit_word_eqI) (use high in \<open>auto simp: bit_simps not_le intro: ccontr [of "_ < 56"]\<close>)
  show "ucast (drop_bit MESSAGE_TYPE_SHIFT (sz OR push_bit MESSAGE_TYPE_SHIFT (ucast (type AND 0xff :: u32)))) = (type AND 0xff :: u32)"
    unfolding MESSAGE_TYPE_SHIFT_def ff
    by (rule bit_word_eqI) (use high in \<open>auto simp: bit_simps\<close>)
qed

subsection \<open>Sending to a service of this process\<close>

definition next_session :: "u32 \<Rightarrow> u32" where
  "next_session sid = (if sint (sid + 1) \<le> 0 then 1 else sid + 1)"

lemma next_session_positive: "0 < sint (next_session sid)"
  by (simp add: next_session_def)

lemma newsession_result:
  "ctxs s a = Some c \<Longrightarrow> cx_session_id c \<noteq> 0x7fffffff \<Longrightarrow> skynet_context_newsession a s =
    Some (next_session (cx_session_id c), s\<lparr>ctxs := (ctxs s)(a \<mapsto> c\<lparr>cx_session_id := next_session (cx_session_id c)\<rparr>)\<rparr>)"
  by (simp add: skynet_context_newsession_def next_session_def upd_ctx_def Let_def)

text \<open>The payload that the receiver gets.\<close>

definition delivered :: "u32 \<Rightarrow> bytes option \<Rightarrow> u64 \<Rightarrow> bytes option" where
  "delivered type data sz =
     (if type AND PTYPE_TAG_DONTCOPY = 0 then map_option (\<lambda>d. take (unat sz) d @ [0]) data else data)"

text \<open>The caller's block has the size that is claimed for it.\<close>

definition readable :: "bytes option \<Rightarrow> u64 \<Rightarrow> bool" where
  "readable data sz = (case data of None \<Rightarrow> True | Some d \<Rightarrow> unat sz \<le> length d)"

text \<open>A session is either given or to be allocated, and then the sender has not used all of them.\<close>

definition session_free :: "u32 \<Rightarrow> u32 \<Rightarrow> skynet_context \<Rightarrow> bool" where
  "session_free type session c \<longleftrightarrow> type AND PTYPE_TAG_ALLOCSESSION = 0 \<or> session = 0 \<and> cx_session_id c \<noteq> 0x7fffffff"

text \<open>The session that a send uses, and the sender's context after it.\<close>

definition session_of :: "u32 \<Rightarrow> u32 \<Rightarrow> skynet_context \<Rightarrow> u32" where
  "session_of type session c = (if type AND PTYPE_TAG_ALLOCSESSION = 0 then session else next_session (cx_session_id c))"

definition sender_after :: "u32 \<Rightarrow> skynet_context \<Rightarrow> skynet_context" where
  "sender_after type c =
     (if type AND PTYPE_TAG_ALLOCSESSION = 0 then c else c\<lparr>cx_session_id := next_session (cx_session_id c)\<rparr>)"

definition packed :: "u32 \<Rightarrow> u64 \<Rightarrow> u64" where
  "packed type sz = sz OR push_bit MESSAGE_TYPE_SHIFT (ucast (type AND 0xff))"

lemma filter_args_result:
  assumes "ctxs s a = Some c" "session_free type session c" "readable data sz"
  shows "filter_args (Some a) type session data sz s = Some (session_of type session c, delivered type data sz,
    packed type sz, s\<lparr>ctxs := (ctxs s)(a \<mapsto> sender_after type c)\<rparr>)"
proof -
  have "copy_payload data sz = Some (map_option (\<lambda>d. take (unat sz) d @ [0]) data)"
    using assms(3) by (cases data) (simp_all add: readable_def copy_payload_def)
  moreover have "s\<lparr>ctxs := (ctxs s)(a \<mapsto> c)\<rparr> = s" using assms(1) by (simp add: fun_upd_idem)
  ultimately show ?thesis
    using assms newsession_result [OF assms(1)]
    by (auto simp: filter_args_def session_free_def session_of_def sender_after_def delivered_def packed_def Let_def)
qed

lemma sender_after_simps [simp]:
  "cx_queue (sender_after type c) = cx_queue c" "cx_handle (sender_after type c) = cx_handle c"
  "cx_ref (sender_after type c) = cx_ref c"
  by (simp_all add: sender_after_def)

lemma sender_after_ok:
  assumes "node_ok s" "ctxs s a = Some c"
  shows "node_ok (s\<lparr>ctxs := (ctxs s)(a \<mapsto> sender_after type c)\<rparr>)"
    "hof (s\<lparr>ctxs := (ctxs s)(a \<mapsto> sender_after type c)\<rparr>) = hof s"
  using node_ok_upd [OF assms, of "sender_after type c"] node_okD(4) [OF assms] assms(2)
  by (auto simp: hof_def fun_eq_iff)

definition the_sender :: "u32 \<Rightarrow> skynet_context \<Rightarrow> u32" where
  "the_sender source c = (if source = 0 then cx_handle c else source)"

definition local_handle :: "u32 \<Rightarrow> node \<Rightarrow> bool" where
  "local_handle h s \<longleftrightarrow> skynet_harbor_message_isremote h s = Some False"

lemma local_handle_frame [simp]: "local_handle h (s\<lparr>ctxs := cs\<rparr>) = local_handle h s" "local_handle h (s\<lparr>MQ := mq\<rparr>) = local_handle h s"
  by (simp_all add: local_handle_def skynet_harbor_message_isremote_def)

lemma send_local_result:
  assumes ok: "node_ok s" "roomy 1 (MQ s)" and a: "ctxs s a = Some c"
    and args: "\<not> too_large sz" "readable data sz" "session_free type session c"
    and dest: "dest \<noteq> 0" "local_handle dest s" "skynet_handle_grab (hof s) dest (HS s) = Some b" "ctxs s b = Some d"
  shows "\<exists>mq. skynet_send (Some a) source dest type session data sz s =
      Some (session_of type session c, s\<lparr>ctxs := (ctxs s)(a \<mapsto> sender_after type c), MQ := mq\<rparr>) \<and>
    node_ok (s\<lparr>ctxs := (ctxs s)(a \<mapsto> sender_after type c), MQ := mq\<rparr>) \<and>
    mailbox (cx_queue d) mq = mailbox (cx_queue d) (MQ s) @
      [\<lparr>msg_source = the_sender source c, msg_session = session_of type session c,
        msg_data = map_option Bytes (delivered type data sz), msg_sz = packed type sz\<rparr>] \<and>
    (\<forall>q. q \<noteq> cx_queue d \<longrightarrow> mailbox q mq = mailbox q (MQ s))"
proof -
  let ?s1 = "s\<lparr>ctxs := (ctxs s)(a \<mapsto> sender_after type c)\<rparr>"
  note s1 = sender_after_ok [OF ok(1) a, of type]
  obtain d' where d': "ctxs ?s1 b = Some d'" "cx_queue d' = cx_queue d" using dest(4) a by (cases "b = a") auto
  have grab: "skynet_handle_grab (hof ?s1) dest (HS ?s1) = Some b" using dest(3) s1(2) by simp
  have room: "roomy 1 (MQ ?s1)" using ok(2) by simp
  have loc: "skynet_harbor_message_isremote dest ?s1 = Some False" using dest(2) by (simp add: local_handle_def [symmetric])
  let ?m = "\<lparr>msg_source = the_sender source c, msg_session = session_of type session c,
        msg_data = map_option Bytes (delivered type data sz), msg_sz = packed type sz\<rparr>"
  obtain mq where mq: "skynet_context_push dest ?m ?s1 = Some (0, ?s1\<lparr>MQ := mq\<rparr>)" "node_ok (?s1\<lparr>MQ := mq\<rparr>)"
      "mailbox (cx_queue d) mq = mailbox (cx_queue d) (MQ s) @ [?m]"
      "\<forall>q. q \<noteq> cx_queue d \<longrightarrow> mailbox q mq = mailbox q (MQ s)"
    using context_push_result [OF s1(1) room grab d'(1)] d'(2) by auto
  have "skynet_send (Some a) source dest type session data sz s = Some (session_of type session c, ?s1\<lparr>MQ := mq\<rparr>)"
    using args(1) filter_args_result [OF a args(3,2)] dest(1) loc mq(1)
    by (cases "source = 0") (simp_all add: skynet_send_def the_sender_def)
  then show ?thesis using mq by auto
qed

subsection \<open>Retiring a handle\<close>

lemma retire_step:
  assumes wf: "slots_wf f hs" and g: "skynet_handle_grab f h hs = Some a"
  obtains hs' where "skynet_handle_retire f h hs = (Some a, hs')" "slots_wf f hs'"
    "\<And>b. Some b \<in> set (slot hs') \<longleftrightarrow> Some b \<in> set (slot hs) \<and> b \<noteq> a"
    "\<And>x. skynet_handle_grab f x hs' = (if x = h then None else skynet_handle_grab f x hs)"
proof -
  obtain hs' where r: "skynet_handle_retire f h hs = (Some a, hs')"
    using g by (cases "compact_names h (name_count hs) 0 0 (names hs)")
      (auto simp: skynet_handle_retire_def skynet_handle_grab_def Let_def split: option.splits if_splits)
  note rs = retire_slots [OF wf r]
  have ha: "f a = h" "Some a \<in> set (slot hs)" using g grab_iff [OF wf] by auto
  have "Some b \<in> set (slot hs') \<longleftrightarrow> Some b \<in> set (slot hs) \<and> b \<noteq> a" for b
  proof -
    have "Some b \<in> set (slot hs') \<longleftrightarrow> skynet_handle_grab f (f b) hs' = Some b" using rs grab_iff [of f hs'] by auto
    also have "\<dots> \<longleftrightarrow> f b \<noteq> h \<and> Some b \<in> set (slot hs)" using rs grab_iff [OF wf] by auto
    also have "\<dots> \<longleftrightarrow> Some b \<in> set (slot hs) \<and> b \<noteq> a"
      using ha g grab_iff [OF wf, of h] by (metis option.inject)
    finally show ?thesis .
  qed
  then show ?thesis using that r rs by blast
qed

text \<open>A context goes away with its last reference, and its queue is marked for release.\<close>

lemma delete_context_result:
  assumes ok: "node_ok s" and a: "ctxs s a = Some c" and free: "Some a \<notin> set (slot (HS s))"
  shows "\<exists>s'. delete_context a s = Some s' \<and> node_ok s' \<and> ctxs s' = (ctxs s)(a := None) \<and> HS s' = HS s \<and>
    total s' = total s - 1 \<and> owners (MQ s') (cx_queue c) = Some (cx_handle c, True) \<and>
    (\<forall>q. mailbox q (MQ s') = mailbox q (MQ s)) \<and>
    effects s' = effects s @ (case cx_logfile c of None \<Rightarrow> [] | Some f \<Rightarrow> [Log_Close f]) @ [Instance_Release (cx_mod c) (cx_instance c)]"
proof -
  obtain q where q: "queues (MQ s) (cx_queue c) = Some q" "mq_handle q = cx_handle c" "\<not> mq_release q"
    using node_okD(5) [OF ok a] by (auto elim: owned_queue)
  obtain mq where mq: "skynet_mq_mark_release (cx_queue c) (MQ s) = Some mq" "mq_ok mq" "fresh mq = fresh (MQ s)"
    "owners mq = (owners (MQ s))(cx_queue c \<mapsto> (cx_handle c, True))" "\<And>b. mailbox b mq = mailbox b (MQ s)"
    using mq_mark_release_ok [OF node_okD(2) [OF ok] q(1,3)] q(2) by auto
  let ?s1 = "s\<lparr>MQ := mq, ctxs := (ctxs s)(a := None), total := total s - 1\<rparr>"
  have own: "owners mq (cx_queue d) = owners (MQ s) (cx_queue d)" if "ctxs s b = Some d" "b \<noteq> a" for b d
    using node_okD(6) [OF ok that(1) a] that mq(4) by auto
  have fresh: "owners mq b = None" if "fresh (MQ s) \<le> b" for b
    using node_okD(8) [OF ok that] node_okD(5) [OF ok a] mq(4) by auto
  have "slots_wf (hof ?s1) (HS s)"
    by (rule slots_wf_cong [OF node_okD(1) [OF ok]]) (use free in \<open>auto simp: hof_def\<close>)
  then have "node_ok ?s1"
    unfolding node_ok_def using mq(2,3) own fresh node_okD [OF ok] free
    by (auto split: if_splits) 
  then show ?thesis using a mq by (simp add: delete_context_def emit_def)
qed

lemma handle_retire_result:
  assumes ok: "node_ok s" and g: "skynet_handle_grab (hof s) h (HS s) = Some a" and a: "ctxs s a = Some c"
  shows "\<exists>s'. handle_retire h s = Some (True, s') \<and> node_ok s' \<and>
    (\<forall>x. skynet_handle_grab (hof s') x (HS s') = (if x = h then None else skynet_handle_grab (hof s) x (HS s))) \<and>
    (\<forall>q. mailbox q (MQ s') = mailbox q (MQ s)) \<and>
    (if cx_ref c = 1
     then ctxs s' = (ctxs s)(a := None) \<and> total s' = total s - 1 \<and> owners (MQ s') (cx_queue c) = Some (h, True) \<and>
       Instance_Release (cx_mod c) (cx_instance c) \<in> set (effects s')
     else ctxs s' = (ctxs s)(a \<mapsto> c\<lparr>cx_ref := cx_ref c - 1\<rparr>) \<and> total s' = total s \<and> MQ s' = MQ s \<and> effects s' = effects s)"
proof -
  obtain hs where hs: "skynet_handle_retire (hof s) h (HS s) = (Some a, hs)" "slots_wf (hof s) hs"
    "\<And>b. Some b \<in> set (slot hs) \<longleftrightarrow> Some b \<in> set (slot (HS s)) \<and> b \<noteq> a"
    "\<And>x. skynet_handle_grab (hof s) x hs = (if x = h then None else skynet_handle_grab (hof s) x (HS s))"
    by (rule retire_step [OF node_okD(1) [OF ok] g]) blast
  have ha: "cx_handle c = h" using g grab_iff [OF node_okD(1) [OF ok]] a by (simp add: hof_def)
  let ?s1 = "s\<lparr>HS := hs\<rparr>"
  have hof1: "hof ?s1 = hof s" by (simp add: hof_def fun_eq_iff)
  have ok1: "node_ok ?s1" unfolding node_ok_def hof1 using hs node_okD [OF ok] by simp
  have grab: "skynet_handle_grab (hof s') x hs = (if x = h then None else skynet_handle_grab (hof s) x (HS s))"
    if "node_ok s'" "HS s' = hs" "\<And>b. b \<noteq> a \<Longrightarrow> ctxs s' b = ctxs s b" for s' x
  proof -
    have "hof s' b = hof s b" if "Some b \<in> set (slot hs)" for b
      using that hs(3) \<open>\<And>b. b \<noteq> a \<Longrightarrow> ctxs s' b = ctxs s b\<close> by (simp add: hof_def)
    then have "skynet_handle_grab (hof s') x hs = skynet_handle_grab (hof s) x hs"
      using grab_iff [OF node_okD(1) [OF that(1)], unfolded that(2)] grab_iff [OF hs(2)]
      by (intro option_eqI) auto
    then show ?thesis using hs(4) by simp
  qed
  show ?thesis
  proof (cases "cx_ref c = 1")
    case True
    have "ctxs ?s1 a = Some c" "Some a \<notin> set (slot (HS ?s1))" using a hs(3) by simp_all
    from delete_context_result [OF ok1 this] obtain s' where s': "delete_context a ?s1 = Some s'" "node_ok s'"
      "ctxs s' = (ctxs s)(a := None)" "HS s' = hs" "total s' = total s - 1"
      "owners (MQ s') (cx_queue c) = Some (cx_handle c, True)" "\<forall>q. mailbox q (MQ s') = mailbox q (MQ s)"
      "Instance_Release (cx_mod c) (cx_instance c) \<in> set (effects s')" by auto
    have "handle_retire h s = Some (True, s')"
      using hs(1) s'(1) a True by (simp add: handle_retire_def skynet_context_release_def)
    then show ?thesis using True s' ha grab [OF s'(2,4)] by auto
  next
    case False
    let ?s' = "?s1\<lparr>ctxs := (ctxs s)(a \<mapsto> c\<lparr>cx_ref := cx_ref c - 1\<rparr>)\<rparr>"
    have "1 \<le> cx_ref c - 1" using node_okD(4) [OF ok a] False by simp
    then have ok': "node_ok ?s'" using node_ok_upd [OF ok1, of a c "c\<lparr>cx_ref := cx_ref c - 1\<rparr>"] a by simp
    have "handle_retire h s = Some (True, ?s')"
      using hs(1) a False by (simp add: handle_retire_def skynet_context_release_def upd_ctx_def)
    then show ?thesis using False ok' grab [OF ok'] by simp
  qed
qed

subsection \<open>Dead letters\<close>

text \<open>A queue that is in no list: the thread that took it from the global queue owns it.\<close>

definition unlinked :: "addr \<Rightarrow> mq_store \<Rightarrow> bool" where
  "unlinked a st \<longleftrightarrow> (\<exists>xs. gq_inv st xs \<and> a \<notin> set xs)"

lemma mq_push_unlinked:
  assumes ok: "mq_ok st" and push: "skynet_mq_push a m st = Some st'" and a: "queues st a = Some q" "\<not> mq_release q"
    and b: "unlinked b st" "b \<noteq> a"
  shows "unlinked b st'"
proof -
  obtain xs where xs: "gq_inv st xs" "b \<notin> set xs" using b(1) unfolding unlinked_def by blast
  have linked: "\<forall>b \<in> set xs. \<exists>q. queues st b = Some q \<and> linked_ok q"
    using ok xs(1) gq_inv_unique unfolding mq_ok_def by blast
  obtain q1 where q1: "mq_push_local m q = Some q1"
    and st': "(if \<not> mq_in_global q1 then skynet_globalmq_push a (set_queue a (q1\<lparr>mq_in_global := True\<rparr>) st)
      else Some (set_queue a q1 st)) = Some st'"
    using push a by (auto simp: skynet_mq_push_def bind_Some_iff)
  note fr = mq_push_frame [OF q1]
  show ?thesis
  proof (cases "mq_in_global q1")
    case True
    then have "st' = set_queue a q1 st" using st' by simp
    then have "gq_inv st' xs" using gq_inv_update [OF xs(1) a(1)] fr by simp
    then show ?thesis using xs(2) unfolding unlinked_def by blast
  next
    case False
    let ?st1 = "set_queue a (q1\<lparr>mq_in_global := True\<rparr>) st"
    have "gq_inv ?st1 xs" using gq_inv_update [OF xs(1) a(1)] fr by simp
    moreover have "a \<notin> set xs" using linked a fr False by force
    ultimately obtain st2 where "skynet_globalmq_push a ?st1 = Some st2" "gq_inv st2 (xs @ [a])"
      using globalmq_push_inv [of ?st1 xs a "q1\<lparr>mq_in_global := True\<rparr>"] by auto
    then have "gq_inv st' (xs @ [a])" using st' False by simp
    then show ?thesis using xs(2) b(2) unfolding unlinked_def by auto
  qed
qed

lemma mq_push_roomy:
  assumes ok: "mq_ok st" and push: "skynet_mq_push a m st = Some st'" and a: "queues st a = Some q"
    and room: "roomy (Suc n) st"
  shows "roomy n st'"
proof -
  obtain q1 where q1: "mq_push_local m q = Some q1"
    and st': "(if \<not> mq_in_global q1 then skynet_globalmq_push a (set_queue a (q1\<lparr>mq_in_global := True\<rparr>) st)
      else Some (set_queue a q1 st)) = Some st'"
    using push a by (auto simp: skynet_mq_push_def bind_Some_iff)
  have "mq_wf q" "absorbs (Suc n) q" using ok a room by (auto simp: mq_ok_def roomy_def)
  then have "absorbs n q1" using mq_push_absorbs [of q n m] q1 by auto
  then have st1: "roomy n (set_queue a (q1\<lparr>mq_in_global := g\<rparr>) st)" for g
    using room absorbs_mono [of "Suc n" _ n] by (auto simp: roomy_def absorbs_def [of n "q1\<lparr>mq_in_global := g\<rparr>"] absorbs_def [of n q1])
  show ?thesis
  proof (cases "mq_in_global q1")
    case True
    then show ?thesis using st' st1 [of True] by (cases q1) simp
  next
    case False
    let ?st1 = "set_queue a (q1\<lparr>mq_in_global := True\<rparr>) st"
    have same: "map_option (absorbs n) (queues st' b) = map_option (absorbs n) (queues ?st1 b)" for b
      by (rule next_free_same(6))
        (use st' False in \<open>auto simp: skynet_globalmq_push_def bind_Some_iff next_free_def split: option.splits if_splits\<close>)
    have "absorbs n q'" if z: "queues st' b = Some q'" for b q'
    proof -
      obtain q0 where "queues ?st1 b = Some q0" "absorbs n q0 = absorbs n q'"
        using same [of b] z by (cases "queues ?st1 b") auto
      then show ?thesis using st1 [of True] by (auto simp: roomy_def)
    qed
    then show ?thesis by (simp add: roomy_def)
  qed
qed

lemma mq_pop_ok:
  assumes ok: "mq_ok st" and a: "queues st a = Some q" "mq_release q" and pop: "skynet_mq_pop a st = Some (r, st')"
  shows "mq_ok st'" "owners st' = owners st" "fresh st' = fresh st" "b \<noteq> a \<Longrightarrow> mailbox b st' = mailbox b st"
    "roomy n st \<Longrightarrow> roomy n st'" "unlinked b st \<Longrightarrow> unlinked b st'"
proof -
  obtain xs where xs: "gq_inv st xs" "\<forall>b \<in> set xs. \<exists>q. queues st b = Some q \<and> linked_ok q"
    and wf: "\<forall>b q. queues st b = Some q \<longrightarrow> mq_wf q" using ok unfolding mq_ok_def by blast
  obtain q1 where q1: "mq_pop_local q = Some (r, q1)" and st': "st' = set_queue a q1 st"
    using pop a by (auto simp: skynet_mq_pop_def bind_Some_iff)
  note fr = mq_pop_frame [OF q1]
  have wfq: "mq_wf q" using wf a by blast
  have q1wf: "mq_wf q1 \<and> length (mq_content q1) \<le> length (mq_content q)"
    using mq.deq_hd [OF wfq] mq.deq_none [OF wfq] q1 by (cases r) fastforce+
  have cap: "mq_cap q1 = mq_cap q" using q1 by (auto simp: mq_pop_local_def Let_def bind_Some_iff split: if_splits)
  have q1': "mq_next q1 = mq_next q" "mq_wf q1" "a \<in> set xs \<longrightarrow> linked_ok q1" using fr a(2) q1wf by auto
  show "mq_ok st'" using set_queue_ok [OF xs wf a(1) q1'] unfolding mq_ok_def st' by blast
  show "owners st' = owners st" "fresh st' = fresh st" "b \<noteq> a \<Longrightarrow> mailbox b st' = mailbox b st"
    using fr a by (auto simp: st' owners_def mailbox_def)
  show "roomy n st'" if "roomy n st"
  proof -
    have "absorbs n q" using that a by (simp add: roomy_def)
    then have "absorbs n q1" using q1wf cap by (auto simp: absorbs_def)
    then show ?thesis using that by (simp add: roomy_def st')
  qed
  show "unlinked b st'" if "unlinked b st"
    using that gq_inv_update [OF _ a(1) q1'(1)] unfolding unlinked_def st' by blast
qed

definition dead_letter :: "u32 \<Rightarrow> message" where
  "dead_letter handle = \<lparr>msg_source = handle, msg_session = 0, msg_data = None, msg_sz = packed PTYPE_ERROR 0\<rparr>"

text \<open>The queue of the service that a handle stands for.\<close>

definition letter_box :: "node \<Rightarrow> u32 \<Rightarrow> addr option" where
  "letter_box s h = (case skynet_handle_grab (hof s) h (HS s) of None \<Rightarrow> None | Some a \<Rightarrow> map_option cx_queue (ctxs s a))"

definition letters :: "u32 \<Rightarrow> node \<Rightarrow> addr \<Rightarrow> message list \<Rightarrow> message list" where
  "letters handle s b ms = concat (map (\<lambda>m. if letter_box s (msg_source m) = Some b then [dead_letter handle] else []) ms)"

lemma letter_box_mq [simp]: "letter_box (s\<lparr>MQ := mq\<rparr>) h = letter_box s h"
proof -
  have "hof (s\<lparr>MQ := mq\<rparr>) = hof s" by (simp add: hof_def fun_eq_iff)
  then show ?thesis by (simp add: letter_box_def split: option.split)
qed

lemma letter_box_effects [simp]: "letter_box (s\<lparr>effects := es\<rparr>) h = letter_box s h" "local_handle h (s\<lparr>effects := es\<rparr>) = local_handle h s"
proof -
  have "hof (s\<lparr>effects := es\<rparr>) = hof s" by (simp add: hof_def fun_eq_iff)
  then show "letter_box (s\<lparr>effects := es\<rparr>) h = letter_box s h" by (simp add: letter_box_def split: option.split)
qed (simp add: local_handle_def skynet_harbor_message_isremote_def)

lemma skynet_free_alt: "skynet_free d s = s\<lparr>effects := effects s @ freed d\<rparr>"
  by (simp add: skynet_free_def emit_def)

lemma freed_none [simp]: "freed None = []" "skynet_free None s = s"
  by (simp_all add: skynet_free_def freed_def emit_def)

lemma letter_box_owner: "node_ok s \<Longrightarrow> letter_box s h = Some b \<Longrightarrow> \<exists>h'. owners (MQ s) b = Some (h', False)"
  by (auto simp: letter_box_def split: option.splits dest: node_okD(5))

lemma send_letter_result:
  assumes ok: "node_ok s" "roomy (Suc n) (MQ s)" and src: "msg_source m = 0 \<or> local_handle (msg_source m) s" and h: "handle \<noteq> 0"
  shows "\<exists>mq r. skynet_send None handle (msg_source m) PTYPE_ERROR 0 None 0 s = Some (r, s\<lparr>MQ := mq\<rparr>) \<and> node_ok (s\<lparr>MQ := mq\<rparr>) \<and> roomy n mq \<and> owners mq = owners (MQ s) \<and>
    (\<forall>b. mailbox b mq = mailbox b (MQ s) @ letters handle s b [m]) \<and>
    (\<forall>b h'. unlinked b (MQ s) \<longrightarrow> owners (MQ s) b = Some (h', True) \<longrightarrow> unlinked b mq)"
proof -
  let ?l = "\<lparr>msg_source = handle, msg_session = 0, msg_data = None, msg_sz = packed PTYPE_ERROR 0\<rparr>"
  have fa: "filter_args None PTYPE_ERROR 0 None 0 s = Some (0, None, packed PTYPE_ERROR 0, s)"
    by (simp add: filter_args_def packed_def PTYPE_ERROR_def PTYPE_TAG_ALLOCSESSION_def PTYPE_TAG_DONTCOPY_def
        copy_payload_def Let_def)
  have small: "\<not> too_large 0" by (simp add: too_large_iff)
  have zero: "letter_box s 0 = None"
  proof -
    have "skynet_handle_grab (hof s) 0 (HS s) = None"
      using node_okD(1) [OF ok(1)] grab_None_iff [OF node_okD(1) [OF ok(1)]]
      by (auto simp: slots_wf_def in_set_conv_nth)
    then show ?thesis by (simp add: letter_box_def)
  qed
  have same: "\<exists>mq r. skynet_send None handle (msg_source m) PTYPE_ERROR 0 None 0 s = Some (r, s\<lparr>MQ := mq\<rparr>) \<and> mq = MQ s \<and> letter_box s (msg_source m) = None"
    if "msg_source m = 0 \<or> skynet_handle_grab (hof s) (msg_source m) (HS s) = None"
    using that src fa small h zero context_push_missing [of s "msg_source m"]
    by (auto simp: skynet_send_def local_handle_def letter_box_def)
  show ?thesis
  proof (cases "msg_source m = 0 \<or> skynet_handle_grab (hof s) (msg_source m) (HS s) = None")
    case True
    from same [OF this] show ?thesis using ok roomy_mono [OF ok(2), of n]
      by (intro exI [of _ "MQ s"]) (auto simp: letters_def)
  next
    case False
    then obtain a where a: "skynet_handle_grab (hof s) (msg_source m) (HS s) = Some a" "msg_source m \<noteq> 0" by auto
    obtain c where c: "ctxs s a = Some c"
      using node_okD(3) [OF ok(1), of a] a(1) grab_iff [OF node_okD(1) [OF ok(1)]] by auto
    have room1: "roomy 1 (MQ s)" using roomy_mono [OF ok(2), of 1] by simp
    obtain mq where mq: "skynet_context_push (msg_source m) ?l s = Some (0, s\<lparr>MQ := mq\<rparr>)" "node_ok (s\<lparr>MQ := mq\<rparr>)"
        "skynet_mq_push (cx_queue c) ?l (MQ s) = Some mq" "owners mq = owners (MQ s)"
        "mailbox (cx_queue c) mq = mailbox (cx_queue c) (MQ s) @ [?l]"
        "\<forall>b. b \<noteq> cx_queue c \<longrightarrow> mailbox b mq = mailbox b (MQ s)"
      using context_push_result [OF ok(1) room1 a(1) c, of ?l] by blast
    have "\<exists>r. skynet_send None handle (msg_source m) PTYPE_ERROR 0 None 0 s = Some (r, s\<lparr>MQ := mq\<rparr>)"
      using fa small h a src mq(1) by (simp add: skynet_send_def local_handle_def)
    moreover obtain q where q: "queues (MQ s) (cx_queue c) = Some q" "\<not> mq_release q"
      using node_okD(5) [OF ok(1) c] by (auto elim: owned_queue)
    have "roomy n mq" by (rule mq_push_roomy [OF node_okD(2) [OF ok(1)] mq(3) q(1) ok(2)])
    moreover have "unlinked b mq" if "unlinked b (MQ s)" "owners (MQ s) b = Some (h', True)" for b h'
      by (rule mq_push_unlinked [OF node_okD(2) [OF ok(1)] mq(3) q that(1)])
        (use that(2) node_okD(5) [OF ok(1) c] in auto)
    moreover have "letter_box s (msg_source m) = Some (cx_queue c)" using a c by (simp add: letter_box_def)
    then have "mailbox b mq = mailbox b (MQ s) @ letters handle s b [m]" for b
      using mq(5,6) by (cases "b = cx_queue c") (simp_all add: letters_def dead_letter_def)
    ultimately show ?thesis using mq(2,4) by blast
  qed
qed

lemma drop_message_result:
  assumes ok: "node_ok s" "roomy (Suc n) (MQ s)" and h: "handle \<noteq> 0" and src: "msg_source m = 0 \<or> local_handle (msg_source m) s"
  shows "\<exists>mq. drop_message handle m s = Some (s\<lparr>MQ := mq, effects := effects s @ freed (msg_data m)\<rparr>) \<and> node_ok (s\<lparr>MQ := mq\<rparr>) \<and>
    roomy n mq \<and> owners mq = owners (MQ s) \<and> (\<forall>b. mailbox b mq = mailbox b (MQ s) @ letters handle s b [m]) \<and>
    (\<forall>b h'. unlinked b (MQ s) \<longrightarrow> owners (MQ s) b = Some (h', True) \<longrightarrow> unlinked b mq)"
proof -
  let ?s = "s\<lparr>effects := effects s @ freed (msg_data m)\<rparr>"
  have "node_ok ?s" "roomy (Suc n) (MQ ?s)" "msg_source m = 0 \<or> local_handle (msg_source m) ?s" using ok src by simp_all
  from send_letter_result [OF this h] obtain mq r where
    "skynet_send None handle (msg_source m) PTYPE_ERROR 0 None 0 ?s = Some (r, ?s\<lparr>MQ := mq\<rparr>)" "node_ok (?s\<lparr>MQ := mq\<rparr>)"
    "roomy n mq" "owners mq = owners (MQ s)" "\<forall>b. mailbox b mq = mailbox b (MQ s) @ letters handle ?s b [m]"
    "\<forall>b h'. unlinked b (MQ s) \<longrightarrow> owners (MQ s) b = Some (h', True) \<longrightarrow> unlinked b mq" by auto
  moreover have "?s\<lparr>MQ := mq\<rparr> = s\<lparr>MQ := mq, effects := effects s @ freed (msg_data m)\<rparr>" "letters handle ?s b ms = letters handle s b ms" for mq b ms
    by (simp_all add: letters_def)
  moreover have "node_ok (s\<lparr>MQ := mq, effects := es\<rparr>) = node_ok (s\<lparr>MQ := mq\<rparr>)" for mq es by simp
  ultimately show ?thesis using h by (auto simp: drop_message_def skynet_free_alt)
qed

lemma drop_loop_result:
  assumes "node_ok s" "mailbox qa (MQ s) = ms" "roomy (length ms) (MQ s)" "owners (MQ s) qa = Some (h', True)"
    "unlinked qa (MQ s)" "handle \<noteq> 0" "\<forall>m \<in> set ms. msg_source m = 0 \<or> local_handle (msg_source m) s"
  shows "\<exists>mq. drop_loop (node_mq_pop qa) (drop_message handle) s =
      Some (s\<lparr>MQ := mq, effects := effects s @ concat (map (\<lambda>m. freed (msg_data m)) ms)\<rparr>) \<and> node_ok (s\<lparr>MQ := mq\<rparr>) \<and>
    owners mq = owners (MQ s) \<and> unlinked qa mq \<and> (\<forall>b. b \<noteq> qa \<longrightarrow> mailbox b mq = mailbox b (MQ s) @ letters handle s b ms)"
  using assms
proof (induction ms arbitrary: s)
  case (Nil s)
  obtain q where q: "queues (MQ s) qa = Some q" "mq_release q" using Nil.prems(4) by (auto elim: owned_queue)
  have "mailbox_ok qa (MQ s)" using node_okD(2) [OF Nil.prems(1)] q by (auto simp: mailbox_ok_def mq_ok_def)
  from mailbox_pop(1) [OF this Nil.prems(2)] obtain mq where pop: "skynet_mq_pop qa (MQ s) = Some (None, mq)" by blast
  note p = mq_pop_ok [OF node_okD(2) [OF Nil.prems(1)] q pop]
  have "drop_loop (node_mq_pop qa) (drop_message handle) s = Some (s\<lparr>MQ := mq\<rparr>)"
    by (subst drop_loop.simps) (simp add: node_mq_pop_def pop)
  then have "drop_loop (node_mq_pop qa) (drop_message handle) s = Some (s\<lparr>MQ := mq, effects := effects s @ []\<rparr>)" by simp
  then show ?case using node_ok_mq [OF Nil.prems(1) p(1-3)] p(2,4,6) Nil.prems(5) by (auto simp: letters_def)
next
  case (Cons m ms s)
  obtain q where q: "queues (MQ s) qa = Some q" "mq_release q" using Cons.prems(4) by (auto elim: owned_queue)
  have "mailbox_ok qa (MQ s)" using node_okD(2) [OF Cons.prems(1)] q by (auto simp: mailbox_ok_def mq_ok_def)
  from mailbox_pop(2) [OF this Cons.prems(2)] obtain mq
    where pop: "skynet_mq_pop qa (MQ s) = Some (Some m, mq)" "mailbox qa mq = ms" by blast
  note p = mq_pop_ok [OF node_okD(2) [OF Cons.prems(1)] q pop(1)]
  let ?s1 = "s\<lparr>MQ := mq\<rparr>"
  have ok1: "node_ok ?s1" by (rule node_ok_mq [OF Cons.prems(1) p(1-3)])
  have room1: "roomy (Suc (length ms)) (MQ ?s1)" using p(5) [of "Suc (length ms)"] Cons.prems(3) by simp
  have src1: "msg_source m = 0 \<or> local_handle (msg_source m) ?s1" using Cons.prems(7) by simp
  obtain mq2 where d: "drop_message handle m ?s1 = Some (?s1\<lparr>MQ := mq2, effects := effects s @ freed (msg_data m)\<rparr>)" "node_ok (?s1\<lparr>MQ := mq2\<rparr>)" "roomy (length ms) mq2"
      "owners mq2 = owners mq" "\<And>b. mailbox b mq2 = mailbox b mq @ letters handle ?s1 b [m]"
      "\<And>b h'. unlinked b mq \<Longrightarrow> owners mq b = Some (h', True) \<Longrightarrow> unlinked b mq2"
    using drop_message_result [OF ok1 room1 Cons.prems(6) src1] by auto
  let ?s2 = "s\<lparr>MQ := mq2, effects := effects s @ freed (msg_data m)\<rparr>"
  have ok2: "node_ok ?s2" using d(2) by simp
  have none: "letter_box s x \<noteq> Some qa" for x
    using letter_box_owner [OF Cons.prems(1)] Cons.prems(4) by fastforce
  have "mailbox qa (MQ ?s2) = ms" using d(5) [of qa] none pop(2) by (simp add: letters_def)
  moreover have "unlinked qa (MQ ?s2)" using d(6) [of qa h'] p(2,6) Cons.prems(4,5) by simp
  moreover have "owners (MQ ?s2) qa = Some (h', True)" using d(4) p(2) Cons.prems(4) by simp
  ultimately obtain mq3 where m3: "drop_loop (node_mq_pop qa) (drop_message handle) ?s2 =
        Some (?s2\<lparr>MQ := mq3, effects := effects ?s2 @ concat (map (\<lambda>m. freed (msg_data m)) ms)\<rparr>)"
      "node_ok (?s2\<lparr>MQ := mq3\<rparr>) \<and> owners mq3 = owners (MQ ?s2) \<and> unlinked qa mq3 \<and>
       (\<forall>b. b \<noteq> qa \<longrightarrow> mailbox b mq3 = mailbox b (MQ ?s2) @ letters handle ?s2 b ms)"
    using Cons.IH [of ?s2] ok2 d(3) Cons.prems(6,7) by auto
  have eq: "?s2\<lparr>MQ := mq3\<rparr> = s\<lparr>MQ := mq3, effects := effects ?s2\<rparr>" by simp
  have r3: "node_ok (s\<lparr>MQ := mq3\<rparr>)" "owners mq3 = owners mq2" "unlinked qa mq3"
    and box3: "\<And>b. b \<noteq> qa \<Longrightarrow> mailbox b mq3 = mailbox b mq2 @ letters handle s b ms"
    using m3(2) unfolding eq by (simp_all add: letters_def)
  have "drop_loop (node_mq_pop qa) (drop_message handle) s =
      Some (s\<lparr>MQ := mq3, effects := effects s @ concat (map (\<lambda>m. freed (msg_data m)) (m # ms))\<rparr>)"
    by (subst drop_loop.simps) (use pop(1) d(1) m3(1) in \<open>simp add: node_mq_pop_def\<close>)
  moreover have "mailbox b mq3 = mailbox b (MQ s) @ letters handle s b (m # ms)" if "b \<noteq> qa" for b
    using box3 [OF that] d(5) [of b] p(4) [OF that] by (simp add: letters_def)
  ultimately show ?case using r3 d(4) p(2) by auto
qed

lemma release_queue_result:
  assumes ok: "node_ok s" and qa: "owners (MQ s) qa = Some (h', True)" "unlinked qa (MQ s)"
  shows "\<exists>mq. release_queue qa (MQ s) = Some mq \<and> node_ok (s\<lparr>MQ := mq\<rparr>) \<and> queues mq = (queues (MQ s))(qa := None)"
proof -
  obtain q where q: "queues (MQ s) qa = Some q" using qa(1) by (auto elim: owned_queue)
  obtain xs where xs: "gq_inv (MQ s) xs" "qa \<notin> set xs" using qa(2) unfolding unlinked_def by blast
  then have "next_of (MQ s) qa = None" by (simp add: gq_inv_def)
  then have nx: "mq_next q = None" using q by (simp add: next_of_def)
  let ?mq = "(MQ s)\<lparr>queues := (queues (MQ s))(qa := None)\<rparr>"
  have "next_of ?mq = next_of (MQ s)" using q nx by (auto simp: next_of_def fun_eq_iff)
  then have "gq_inv ?mq xs" using xs by (auto simp: gq_inv_def)
  moreover have "\<forall>b \<in> set xs. \<exists>q. queues (MQ s) b = Some q \<and> linked_ok q"
    using node_okD(2) [OF ok] xs(1) gq_inv_unique unfolding mq_ok_def by blast
  ultimately have "mq_ok ?mq"
    using xs(2) node_okD(2) [OF ok] unfolding mq_ok_def by (auto intro!: exI [of _ xs])
  moreover have "owners ?mq b = (if b = qa then None else owners (MQ s) b)" for b by (simp add: owners_def)
  moreover have "hof (s\<lparr>MQ := ?mq\<rparr>) = hof s" by (simp add: hof_def fun_eq_iff)
  ultimately have "node_ok (s\<lparr>MQ := ?mq\<rparr>)"
    using ok qa(1) unfolding node_ok_def by auto
  then show ?thesis using q nx by (auto simp: release_queue_def)
qed

subsection \<open>Monitors, harbors\<close>

lemma context_endless_result:
  assumes ok: "node_ok s" and h: "skynet_handle_grab (hof s) h (HS s) = Some a" "ctxs s a = Some c"
  shows "skynet_context_endless h s = Some (s\<lparr>ctxs := (ctxs s)(a \<mapsto> c\<lparr>cx_endless := True\<rparr>)\<rparr>)"
  using h node_okD(4) [OF ok h(2)]
  by (simp add: skynet_context_endless_def handle_grab_def skynet_context_grab_def upd_ctx_def skynet_context_release_def)

definition triggers :: "(u32 \<times> u32) list \<Rightarrow> skynet_monitor \<Rightarrow> skynet_monitor" where
  "triggers ts sm = fold (\<lambda>(s, d) sm. skynet_monitor_trigger s d sm) ts sm"

lemma triggers_version:
  "sm_version (triggers ts sm) = sm_version sm + of_nat (length ts) \<and> sm_check_version (triggers ts sm) = sm_check_version sm"
  by (induction ts arbitrary: sm) (auto simp: triggers_def skynet_monitor_trigger_def)

lemma no_logger:
  "logger s = 0 \<Longrightarrow> skynet_handle_findname ''logger'' (HS s) = 0 \<Longrightarrow> skynet_error src text s = Some s"
  by (simp add: skynet_error_def)

lemma harbor_bits: "push_bit 24 (hb AND 0xff) = (push_bit 24 hb :: u32)"
proof -
  have "(0xff :: u32) = mask 8" by (simp add: mask_eq_exp_minus_1)
  then have "push_bit 24 (hb AND 0xff) = push_bit 24 (hb AND mask 8)" by (simp only:)
  also have "\<dots> = push_bit 24 hb" by (rule bit_word_eqI) (auto simp: bit_simps)
  finally show ?thesis .
qed

subsection \<open>Dispatching what was sent\<close>

text \<open>The process when the callback of a service starts, and when its time has been added to the cost.\<close>

definition entered :: "u64 \<times> u64 \<Rightarrow> addr \<Rightarrow> skynet_context \<Rightarrow> effect \<Rightarrow> node \<Rightarrow> node" where
  "entered clock b e line t =
     (emit (if cx_logfile e = None then [] else [line]) t)
       \<lparr>ctxs := (ctxs t)(b \<mapsto> e\<lparr>cx_message_count := cx_message_count e + 1,
          cx_cpu_start := (if cx_profile e then fst clock else cx_cpu_start e)\<rparr>)\<rparr>"

definition charged :: "u64 \<times> u64 \<Rightarrow> addr \<Rightarrow> skynet_context \<Rightarrow> node \<Rightarrow> node option" where
  "charged clock b e t =
     (if cx_profile e then upd_ctx b (\<lambda>c. c\<lparr>cx_cpu_cost := cx_cpu_cost c + (snd clock - cx_cpu_start c)\<rparr>) t else Some t)"

lemma dispatch_packed:
  assumes "ctxs t b = Some e" "cx_init e" "cx_cb e = Some (f, ud)" "\<not> too_large sz"
  shows "dispatch_message cb clock b \<lparr>msg_source = src, msg_session = session, msg_data = data, msg_sz = packed type sz\<rparr> t =
    (case cb f b ud (type AND 0xff) session src data sz
        (entered clock b e (Log_Output (the (cx_logfile e)) src (type AND 0xff) session data sz) t) of
       None \<Rightarrow> None
     | Some (keeps, t') \<Rightarrow> map_option (\<lambda>u. if keeps then u else skynet_free data u) (charged clock b e t'))"
proof -
  have p: "packed type sz AND MESSAGE_TYPE_MASK = sz" "ucast (drop_bit MESSAGE_TYPE_SHIFT (packed type sz)) = (type AND 0xff :: u32)"
    using header_unpack [OF assms(4), of type] unfolding packed_def by blast+
  have fin: "(do { s5 \<leftarrow> charged clock b e t'; Some (if keeps then s5 else skynet_free data s5) }) =
      map_option (\<lambda>u. if keeps then u else skynet_free data u) (charged clock b e t')" for keeps t'
    by (cases "charged clock b e t'") simp_all
  have "dispatch_message cb clock b \<lparr>msg_source = src, msg_session = session, msg_data = data, msg_sz = packed type sz\<rparr> t =
      do { (keeps, t') \<leftarrow> cb f b ud (type AND 0xff) session src data sz
             (entered clock b e (Log_Output (the (cx_logfile e)) src (type AND 0xff) session data sz) t);
           s5 \<leftarrow> charged clock b e t'; Some (if keeps then s5 else skynet_free data s5) }"
    using assms(1-3) p unfolding dispatch_message_def message.select_convs
    by (cases "cx_logfile e"; cases "cx_profile e")
      (simp_all add: upd_ctx_def entered_def charged_def emit_def Let_def split_beta cong: option.case_cong)
  then show ?thesis unfolding fin by (simp split: option.split)
qed

subsection \<open>The logger\<close>

definition error_report :: "u32 \<Rightarrow> string \<Rightarrow> message" where
  "error_report src text = \<lparr>msg_source = src, msg_session = 0, msg_data = Some (Bytes (string_bytes text)),
     msg_sz = of_nat (length text) OR push_bit MESSAGE_TYPE_SHIFT (ucast PTYPE_TEXT)\<rparr>"

text \<open>The mailbox of the logger, if there is one.\<close>

definition logger_box :: "node \<Rightarrow> addr option" where
  "logger_box s = letter_box s (if logger s = 0 then skynet_handle_findname ''logger'' (HS s) else logger s)"

lemma letter_box_zero: "node_ok s \<Longrightarrow> letter_box s 0 = None"
proof -
  assume ok: "node_ok s"
  have "skynet_handle_grab (hof s) 0 (HS s) = None"
    using node_okD(1) [OF ok] grab_None_iff [OF node_okD(1) [OF ok]] by (auto simp: slots_wf_def in_set_conv_nth)
  then show ?thesis by (simp add: letter_box_def)
qed

lemma ctx_error_result:
  assumes ok: "node_ok s" "roomy 1 (MQ s)" and a: "ctxs s a = Some c"
  shows "\<exists>s'. ctx_error (Some a) text s = Some s' \<and> node_ok s' \<and> effects s' = effects s \<and>
    (\<forall>q. mailbox q (MQ s') = mailbox q (MQ s) @ (if logger_box s = Some q then [error_report (cx_handle c) text] else []))"
proof -
  define lg where "lg = (if logger s = 0 then skynet_handle_findname ''logger'' (HS s) else logger s)"
  have box: "logger_box s = letter_box s lg" by (simp add: logger_box_def lg_def)
  let ?s1 = "s\<lparr>logger := lg\<rparr>"
  have hof1: "hof ?s1 = hof s" by (simp add: hof_def fun_eq_iff)
  have ok1: "node_ok ?s1" "roomy 1 (MQ ?s1)" using ok by simp_all
  have err: "ctx_error (Some a) text s =
      (if lg = 0 then Some ?s1 else do { (r, s2) \<leftarrow> skynet_context_push lg (error_report (cx_handle c) text) ?s1; Some s2 })"
    using a by (simp add: ctx_error_def ctx_handle_def skynet_error_def lg_def [symmetric] error_report_def Let_def)
  show ?thesis
  proof (cases "skynet_handle_grab (hof s) lg (HS s)")
    case None
    then have "logger_box s = None" by (simp add: box letter_box_def)
    moreover have "skynet_context_push lg (error_report (cx_handle c) text) ?s1 = Some (-1, ?s1)"
      using context_push_missing [of ?s1 lg] None hof1 by simp
    ultimately show ?thesis using err ok1 by simp
  next
    case (Some b)
    obtain d where d: "ctxs s b = Some d" using node_okD(3) [OF ok(1), of b] Some grab_iff [OF node_okD(1) [OF ok(1)]] by auto
    have lg: "logger_box s = Some (cx_queue d)" using Some d by (simp add: box letter_box_def)
    then have "lg \<noteq> 0" using letter_box_zero [OF ok(1)] box by auto
    moreover obtain mq where "skynet_context_push lg (error_report (cx_handle c) text) ?s1 = Some (0, ?s1\<lparr>MQ := mq\<rparr>)" "node_ok (?s1\<lparr>MQ := mq\<rparr>)"
      "mailbox (cx_queue d) mq = mailbox (cx_queue d) (MQ s) @ [error_report (cx_handle c) text]"
      "\<forall>q. q \<noteq> cx_queue d \<longrightarrow> mailbox q mq = mailbox q (MQ s)"
      using context_push_result [OF ok1, of lg b d "error_report (cx_handle c) text"] Some d hof1 by auto
    ultimately show ?thesis using err lg by auto
  qed
qed

lemma logger_box_sender: "ctxs s a = Some c \<Longrightarrow> logger_box (s\<lparr>ctxs := (ctxs s)(a \<mapsto> sender_after type c)\<rparr>) = logger_box s"
proof -
  assume a: "ctxs s a = Some c"
  then have "hof (s\<lparr>ctxs := (ctxs s)(a \<mapsto> sender_after type c)\<rparr>) = hof s" by (auto simp: hof_def fun_eq_iff)
  then show ?thesis using a by (auto simp: logger_box_def letter_box_def split: option.split)
qed

subsection \<open>Many sessions\<close>

primrec newsessions :: "nat \<Rightarrow> addr \<Rightarrow> node \<Rightarrow> (u32 list \<times> node) option" where
  "newsessions 0 a s = Some ([], s)"
| "newsessions (Suc n) a s = do { (r, s1) \<leftarrow> skynet_context_newsession a s; (rs, s2) \<leftarrow> newsessions n a s1; Some (r # rs, s2) }"

lemma next_session_small:
  assumes "unat w < int_max"
  shows "unat (next_session w) = Suc (unat w)" "sint (next_session w) = int (Suc (unat w))"
proof -
  have u: "unat (w + 1) = Suc (unat w)" using assms by (simp add: unat_word_ariths)
  then have "sint (w + 1) = int (Suc (unat w))" using sint_small [of "w + 1"] assms by simp
  moreover from this have "\<not> sint (w + 1) \<le> 0" by linarith
  ultimately show "unat (next_session w) = Suc (unat w)" "sint (next_session w) = int (Suc (unat w))"
    using u unfolding next_session_def by presburger+
qed

lemma newsessions_some:
  "ctxs s a = Some c \<Longrightarrow> unat (cx_session_id c) + n \<le> int_max \<Longrightarrow>
   \<exists>rs s'. newsessions n a s = Some (rs, s') \<and> map sint rs = map int [Suc (unat (cx_session_id c))..<Suc (unat (cx_session_id c) + n)]"
proof (induction n arbitrary: s c)
  case (Suc n)
  let ?c = "c\<lparr>cx_session_id := next_session (cx_session_id c)\<rparr>"
  have less: "unat (cx_session_id c) < int_max" "cx_session_id c \<noteq> 0x7fffffff" using Suc.prems(2) by auto
  note r = newsession_result [OF Suc.prems(1) less(2)] and ns = next_session_small [OF less(1)]
  obtain rs s' where "newsessions n a (s\<lparr>ctxs := (ctxs s)(a \<mapsto> ?c)\<rparr>) = Some (rs, s')"
    "map sint rs = map int [Suc (Suc (unat (cx_session_id c)))..<Suc (Suc (unat (cx_session_id c) + n))]"
    using Suc.IH [of "s\<lparr>ctxs := (ctxs s)(a \<mapsto> ?c)\<rparr>" ?c] Suc.prems(2) ns(1) by auto
  then show ?case using r ns(2) by (simp add: upt_conv_Cons del: upt_Suc)
qed simp

lemma newsessions_none:
  "ctxs s a = Some c \<Longrightarrow> unat (cx_session_id c) \<le> int_max \<Longrightarrow> int_max < unat (cx_session_id c) + n \<Longrightarrow> newsessions n a s = None"
proof (induction n arbitrary: s c)
  case (Suc n)
  show ?case
  proof (cases "unat (cx_session_id c) = int_max")
    case True
    then have "cx_session_id c = 0x7fffffff" by (simp add: word_unat_eq_iff)
    then show ?thesis using Suc.prems(1) by (simp add: skynet_context_newsession_def)
  next
    case False
    let ?c = "c\<lparr>cx_session_id := next_session (cx_session_id c)\<rparr>"
    have less: "unat (cx_session_id c) < int_max" "cx_session_id c \<noteq> 0x7fffffff" using False Suc.prems(2) by auto
    show ?thesis
      using Suc.IH [of "s\<lparr>ctxs := (ctxs s)(a \<mapsto> ?c)\<rparr>" ?c] Suc.prems newsession_result [OF Suc.prems(1) less(2)] next_session_small [OF less(1)] less(1)
      by simp
  qed
qed simp

subsection \<open>Two processes to look at\<close>

definition demo_ctx :: "u32 \<Rightarrow> addr \<Rightarrow> skynet_context" where
  "demo_ctx h q = (new_context ''demo'' 7 False)\<lparr>cx_handle := h, cx_queue := q, cx_ref := 1, cx_cb := Some (0, 0), cx_init := True\<rparr>"

text \<open>Service 1 lives; the queue of service 2, which is gone, still holds a message of service 1.\<close>

definition dead_queue :: message_queue where
  "dead_queue = (new_queue 2)\<lparr>mq_release := True, mq_tail := 1,
     mq_queue := (replicate 64 null_message)[0 := \<lparr>msg_source = 1, msg_session = 5, msg_data = None, msg_sz = 0\<rparr>]\<rparr>"

definition demo_node :: node where
  "demo_node = \<lparr>ctxs = [0 \<mapsto> demo_ctx 1 0], next_ctx = 1, total = 1, monitor_exit = 0, node_profile = False,
     HS = (skynet_handle_init 0)\<lparr>handle_index := 2, slot := [None, Some 0, None, None]\<rparr>,
     MQ = \<lparr>queues = [0 \<mapsto> new_queue 1, 1 \<mapsto> dead_queue], fresh = 2, gq_head = Some 0, gq_tail = Some 0\<rparr>,
     TI = timer_create_timer, ENV = Map.empty, HARBOR = 0, REMOTE = None, logger = 0, effects = []\<rparr>"

lemma dead_queue_simps:
  "mq_wf dead_queue" "mq_next dead_queue = None" "mq_handle dead_queue = 2" "mq_release dead_queue"
  "mq_content dead_queue = [\<lparr>msg_source = 1, msg_session = 5, msg_data = None, msg_sz = 0\<rparr>]" "mq_cap dead_queue = 64"
  by (simp_all add: dead_queue_def new_queue_def DEFAULT_QUEUE_SIZE_def MQ_OVERLOAD_def mq_wf_def mq_content_def
      skynet_mq_length_def ring_def)

lemma new_queue_simps: "mq_next (new_queue h) = None" "mq_handle (new_queue h) = h" "\<not> mq_release (new_queue h)"
  "mq_in_global (new_queue h)" "mq_cap (new_queue h) = 64"
  by (simp_all add: new_queue_def DEFAULT_QUEUE_SIZE_def)

lemma demo_gq: "gq_inv (MQ demo_node) [0]"
  by (auto simp: gq_inv_def demo_node_def next_of_def dead_queue_simps new_queue_simps)

lemma demo_node_ok: "node_ok demo_node"
proof -
  have lt: "i < 4 \<longleftrightarrow> i = 0 \<or> i = 1 \<or> i = 2 \<or> i = 3" for i :: nat by auto
  have "\<exists>k. (4 :: nat) = 2 ^ k \<and> Suc 0 \<le> k \<and> k \<le> 24" by (intro exI [of _ 2]) simp
  then have "slots_wf (hof demo_node) (HS demo_node)"
    by (auto simp: demo_node_def demo_ctx_def new_context_def hof_def slots_wf_def skynet_handle_init_def
        HANDLE_REMOTE_SHIFT_def DEFAULT_SLOT_SIZE_def HANDLE_MASK_def lt)
  moreover have "mq_ok (MQ demo_node)"
    unfolding mq_ok_def using demo_gq
    by (auto simp: demo_node_def new_queue_simps dead_queue_simps mq_wf_new intro!: exI [of _ "[0]"] split: if_splits)
  ultimately show ?thesis
    by (auto simp: node_ok_def demo_node_def demo_ctx_def new_context_def owners_def new_queue_simps skynet_handle_init_def
        split: if_splits)
qed

lemma demo_roomy: "n \<le> 60 \<Longrightarrow> roomy n (MQ demo_node)"
proof -
  assume "n \<le> 60"
  then have "absorbs n (new_queue 1)" "absorbs n dead_queue"
    using mq_wf_new(2) [of 1] by (auto simp: absorbs_def new_queue_simps dead_queue_simps intro!: exI [of _ 0])
  then show ?thesis by (auto simp: roomy_def demo_node_def split: if_splits)
qed

lemma demo_grab: "skynet_handle_grab (hof demo_node) 1 (HS demo_node) = Some 0" "ctxs demo_node 0 = Some (demo_ctx 1 0)"
proof -
  have "Some 0 \<in> set (slot (HS demo_node))" "hof demo_node 0 = 1"
    by (simp_all add: demo_node_def hof_def demo_ctx_def)
  then show "skynet_handle_grab (hof demo_node) 1 (HS demo_node) = Some 0"
    using grab_iff [OF node_okD(1) [OF demo_node_ok]] by blast
qed (simp add: demo_node_def)

lemma demo_local: "local_handle 1 demo_node"
  by (simp add: local_handle_def skynet_harbor_message_isremote_def demo_node_def HANDLE_MASK_def)

subsection \<open>Guarantees\<close>

text \<open>C18. Sending to a registered service of this process: the send returns the session and appends
  exactly one message, with the sender, the session, the payload (copied, or handed over) and the
  header, to the mailbox of that service and to no other; the process stays consistent.\<close>

theorem send_delivers:
  assumes "node_ok s" "roomy 1 (MQ s)" "ctxs s a = Some c" "\<not> too_large sz" "readable data sz"
    "session_free type session c"
    "dest \<noteq> 0" "local_handle dest s" "skynet_handle_grab (hof s) dest (HS s) = Some b" "ctxs s b = Some d"
  shows "\<exists>s'. skynet_send (Some a) source dest type session data sz s = Some (session_of type session c, s') \<and> node_ok s' \<and>
    ctxs s' = (ctxs s)(a \<mapsto> sender_after type c) \<and> HS s' = HS s \<and> effects s' = effects s \<and>
    mailbox (cx_queue d) (MQ s') = mailbox (cx_queue d) (MQ s) @
      [\<lparr>msg_source = the_sender source c, msg_session = session_of type session c,
        msg_data = map_option Bytes (delivered type data sz), msg_sz = packed type sz\<rparr>] \<and>
    (\<forall>q. q \<noteq> cx_queue d \<longrightarrow> mailbox q (MQ s') = mailbox q (MQ s))"
  using send_local_result [OF assms] by force

theorem send_delivers_witness:
  "\<exists>s'. skynet_send (Some 0) 0 1 0 3 (Some [65, 66]) 2 demo_node = Some (3, s') \<and>
    mailbox 0 (MQ s') = [\<lparr>msg_source = 1, msg_session = 3, msg_data = Some (Bytes [65, 66, 0]), msg_sz = 2\<rparr>]"
proof -
  have "mailbox 0 (MQ demo_node) = []" by (simp add: mailbox_def demo_node_def mq_wf_new)
  moreover have "readable (Some [65, 66 :: u8]) 2" "\<not> too_large 2" by (simp_all add: readable_def too_large_iff)
  moreover have "session_free 0 3 (demo_ctx 1 0)" by (simp add: session_free_def)
  moreover note send_delivers [OF demo_node_ok demo_roomy [of 1] demo_grab(2), of 2 "Some [65, 66]" 0 3 1 0 "demo_ctx 1 0" 0]
  ultimately show ?thesis
    using demo_local demo_grab
    by (auto simp: session_of_def delivered_def packed_def the_sender_def demo_ctx_def)
qed

text \<open>C19. What is sent is what the callback gets: when the message that a send has put into the mailbox of a service is dispatched, the
  callback of the service is called with the type that was sent (its low byte), the session that the send returned, the sender, the payload
  and its size, for every size below \<open>2 ^ 56\<close>. Before the call the message is counted and logged if the service has a log file, and after
  it the payload is freed unless the callback keeps it; with profiling the time of the callback is added to the cost of the service.\<close>

theorem dispatch_reads_header:
  assumes "node_ok s" "roomy 1 (MQ s)" "ctxs s a = Some c" "\<not> too_large sz" "readable data sz" "session_free type session c"
    "dest \<noteq> 0" "local_handle dest s" "skynet_handle_grab (hof s) dest (HS s) = Some b" "ctxs s b = Some d"
    "skynet_send (Some a) source dest type session data sz s = Some (r, s1)"
    "ctxs t b = Some e" "cx_init e" "cx_cb e = Some (f, ud)"
  shows "dispatch_message cb clock b (last (mailbox (cx_queue d) (MQ s1))) t =
    (case cb f b ud (type AND 0xff) r (the_sender source c) (map_option Bytes (delivered type data sz)) sz
        (entered clock b e (Log_Output (the (cx_logfile e)) (the_sender source c) (type AND 0xff) r (map_option Bytes (delivered type data sz)) sz) t) of
       None \<Rightarrow> None
     | Some (keeps, t') \<Rightarrow> map_option (\<lambda>u. if keeps then u else skynet_free (map_option Bytes (delivered type data sz)) u) (charged clock b e t'))"
proof -
  obtain s' where s': "skynet_send (Some a) source dest type session data sz s = Some (session_of type session c, s')"
    "mailbox (cx_queue d) (MQ s') = mailbox (cx_queue d) (MQ s) @
      [\<lparr>msg_source = the_sender source c, msg_session = session_of type session c,
        msg_data = map_option Bytes (delivered type data sz), msg_sz = packed type sz\<rparr>]"
    using send_local_result [OF assms(1-10)] by force
  have "last (mailbox (cx_queue d) (MQ s1)) = \<lparr>msg_source = the_sender source c, msg_session = r,
      msg_data = map_option Bytes (delivered type data sz), msg_sz = packed type sz\<rparr>"
    using s' assms(11) by simp
  then show ?thesis using dispatch_packed [OF assms(12-14,4)] by simp
qed

theorem dispatch_reads_header_witness:
  "\<exists>s1 t' es. skynet_send (Some 0) 0 1 3 5 (Some [65, 66]) 2 demo_node = Some (5, s1) \<and>
     dispatch_message (\<lambda>f a ud type session src data sz s. if type = 3 \<and> session = 5 \<and> src = 1 \<and> sz = 2 then Some (False, s) else None) (10, 14) 0
       (last (mailbox 0 (MQ s1))) (demo_node\<lparr>ctxs := [0 \<mapsto> (demo_ctx 1 0)\<lparr>cx_profile := True, cx_logfile := Some 4\<rparr>]\<rparr>) = Some t' \<and>
     effects t' = [Log_Output 4 1 3 5 (Some (Bytes [65, 66, 0])) 2, Data_Free (Bytes [65, 66, 0])] \<and> map_option cx_cpu_cost (ctxs t' 0) = Some 4"
proof -
  let ?e = "(demo_ctx 1 0)\<lparr>cx_profile := True, cx_logfile := Some 4\<rparr>"
  have a: "readable (Some [65, 66 :: u8]) 2" "\<not> too_large 2" "session_free 3 5 (demo_ctx 1 0)"
    by (simp_all add: readable_def too_large_iff session_free_def PTYPE_TAG_ALLOCSESSION_def)
  note args = demo_node_ok demo_roomy [of 1] demo_grab(2) a(2,1,3) _ demo_local demo_grab
  have d: "delivered 3 (Some [65, 66]) 2 = Some [65, 66, 0]" "the_sender 0 (demo_ctx 1 0) = 1" "cx_queue (demo_ctx 1 0) = 0"
    by (simp_all add: delivered_def PTYPE_TAG_DONTCOPY_def the_sender_def demo_ctx_def)
  obtain s1 where s1: "skynet_send (Some 0) 0 1 3 5 (Some [65, 66]) 2 demo_node = Some (5, s1)"
    using send_local_result [OF args, of 0] by (auto simp: session_of_def PTYPE_TAG_ALLOCSESSION_def)
  have "ctxs (demo_node\<lparr>ctxs := [0 \<mapsto> ?e]\<rparr>) 0 = Some ?e" "cx_init ?e" "cx_cb ?e = Some (0, 0)" by (simp_all add: demo_ctx_def)
  from dispatch_reads_header [OF args s1 this, of "\<lambda>f a ud type session src data sz s. if type = 3 \<and> session = 5 \<and> src = 1 \<and> sz = 2 then Some (False, s) else None" "(10, 14)"]
  show ?thesis
    using s1 d by (simp add: entered_def charged_def upd_ctx_def skynet_free_alt freed_def demo_ctx_def new_context_def demo_node_def emit_def)
qed

text \<open>Retiring a registered service: its handle no longer resolves and all others do as before;
  with the last reference the context is deleted, its instance released and its queue marked,
  otherwise exactly one reference is dropped. No message is lost from any queue.\<close>

theorem retire_drops_reference:
  assumes "node_ok s" "skynet_handle_grab (hof s) h (HS s) = Some a" "ctxs s a = Some c"
  shows "\<exists>s'. handle_retire h s = Some (True, s') \<and> node_ok s' \<and>
    (\<forall>x. skynet_handle_grab (hof s') x (HS s') = (if x = h then None else skynet_handle_grab (hof s) x (HS s))) \<and>
    (\<forall>q. mailbox q (MQ s') = mailbox q (MQ s)) \<and>
    (if cx_ref c = 1
     then ctxs s' = (ctxs s)(a := None) \<and> total s' = total s - 1 \<and> owners (MQ s') (cx_queue c) = Some (h, True) \<and>
       Instance_Release (cx_mod c) (cx_instance c) \<in> set (effects s')
     else ctxs s' = (ctxs s)(a \<mapsto> c\<lparr>cx_ref := cx_ref c - 1\<rparr>) \<and> total s' = total s \<and> MQ s' = MQ s \<and> effects s' = effects s)"
  by (rule handle_retire_result [OF assms])

theorem retire_drops_reference_witness:
  "\<exists>s'. handle_retire 1 demo_node = Some (True, s') \<and> skynet_handle_grab (hof s') 1 (HS s') = None \<and> ctxs s' 0 = None"
proof -
  have "cx_ref (demo_ctx 1 0) = 1" by (simp add: demo_ctx_def)
  with retire_drops_reference [OF demo_node_ok demo_grab] show ?thesis by auto
qed

text \<open>C20. Dead letters: when the queue of a deleted service is drained, every message in it is answered
  by one error message to its sender, in order, if the sender still exists; every payload is freed,
  the queue is freed and the draining ends.\<close>

theorem dead_letters_answered:
  assumes "node_ok s" "queues (MQ s) qa = Some q" "mq_release q" "unlinked qa (MQ s)" "handle \<noteq> 0"
    "roomy (length (mq_content q)) (MQ s)" "\<forall>m \<in> set (mq_content q). msg_source m = 0 \<or> local_handle (msg_source m) s"
  shows "\<exists>s'. node_mq_release handle qa s = Some s' \<and> node_ok s' \<and> queues (MQ s') qa = None \<and>
    effects s' = effects s @ concat (map (\<lambda>m. freed (msg_data m)) (mq_content q)) \<and>
    (\<forall>b. b \<noteq> qa \<longrightarrow> mailbox b (MQ s') = mailbox b (MQ s) @
       map (\<lambda>m. dead_letter handle) (filter (\<lambda>m. letter_box s (msg_source m) = Some b) (mq_content q)))"
proof -
  have box: "mailbox qa (MQ s) = mq_content q" using assms(2) by (simp add: mailbox_def)
  have own: "owners (MQ s) qa = Some (mq_handle q, True)" using assms(2,3) by (simp add: owners_def)
  obtain mq where mq: "drop_loop (node_mq_pop qa) (drop_message handle) s =
        Some (s\<lparr>MQ := mq, effects := effects s @ concat (map (\<lambda>m. freed (msg_data m)) (mq_content q))\<rparr>)" "node_ok (s\<lparr>MQ := mq\<rparr>)"
      "owners mq = owners (MQ s)" "unlinked qa mq"
      "\<forall>b. b \<noteq> qa \<longrightarrow> mailbox b mq = mailbox b (MQ s) @ letters handle s b (mq_content q)"
    using drop_loop_result [OF assms(1) box assms(6) own assms(4,5,7)] by blast
  obtain mq2 where mq2: "release_queue qa mq = Some mq2" "node_ok (s\<lparr>MQ := mq2\<rparr>)" "queues mq2 = (queues mq)(qa := None)"
    using release_queue_result [OF mq(2), of qa] mq(3,4) own by auto
  have l: "letters handle s b ms = map (\<lambda>m. dead_letter handle) (filter (\<lambda>m. letter_box s (msg_source m) = Some b) ms)" for b ms
    by (induction ms) (auto simp: letters_def)
  have "mailbox b mq2 = mailbox b mq" if "b \<noteq> qa" for b using mq2(3) that by (simp add: mailbox_def)
  moreover have "node_mq_release handle qa s =
      Some (s\<lparr>MQ := mq2, effects := effects s @ concat (map (\<lambda>m. freed (msg_data m)) (mq_content q))\<rparr>)"
    using assms(2,3) mq(1) mq2(1) by (simp add: node_mq_release_def)
  moreover have "node_ok (s\<lparr>MQ := mq2, effects := es\<rparr>)" for es using mq2(2) by simp
  ultimately show ?thesis using mq2 mq(5) l by auto
qed

theorem dead_letters_answered_witness:
  "\<exists>s'. node_mq_release 2 1 demo_node = Some s' \<and> queues (MQ s') 1 = None \<and> mailbox 0 (MQ s') = [dead_letter 2]"
proof -
  have q: "queues (MQ demo_node) 1 = Some dead_queue" by (simp add: demo_node_def)
  have u: "unlinked 1 (MQ demo_node)" using demo_gq unfolding unlinked_def by force
  have r: "roomy (length (mq_content dead_queue)) (MQ demo_node)" by (rule demo_roomy) (simp add: dead_queue_simps)
  have l: "\<forall>m \<in> set (mq_content dead_queue). msg_source m = 0 \<or> local_handle (msg_source m) demo_node"
    using demo_local by (simp add: dead_queue_simps)
  have box: "letter_box demo_node 1 = Some 0" by (simp add: letter_box_def demo_grab demo_ctx_def)
  have "mailbox 0 (MQ demo_node) = []" by (simp add: mailbox_def demo_node_def mq_wf_new)
  then show ?thesis
    using dead_letters_answered [OF demo_node_ok q dead_queue_simps(4) u _ r l, of 2] box
    by (auto simp: dead_queue_simps(5))
qed

text \<open>Harbors: the table and the harbor part of one process are started with the same number, so a
  handle that the table gives out is never taken for a remote one, and its harbor number is that
  of the process.\<close>

theorem registered_handles_are_local:
  assumes "slots_wf f hs" "slot_size hs * 2 < 2 ^ 24" "Some ctx \<notin> set (slot hs)"
    "hs_harbor hs = hs_harbor (skynet_handle_init hb)"
  shows "\<exists>h hs'. skynet_handle_register f ctx hs = Some (h, hs') \<and>
    skynet_isremote h (skynet_harbor_init hb s) = Some (False, hb AND 0xff)"
proof -
  obtain h hs' where h: "skynet_handle_register f ctx hs = Some (h, hs')" "registered f ctx hs h hs'"
    using register_total [OF assms(1-3)] by blast
  have hn: "h AND NOT HANDLE_MASK = push_bit 24 hb"
    using h(2) assms(4) harbor_bits [of hb]
    by (simp add: registered_def skynet_handle_init_def HANDLE_REMOTE_SHIFT_def)
  have m: "HANDLE_MASK = mask 24" by (rule HANDLE_MASK_unat(2))
  have ff: "(0xff :: u32) = mask 8" by (simp add: mask_eq_exp_minus_1)
  have "push_bit 24 hb \<noteq> (- 1 :: u32)"
  proof
    assume "push_bit 24 hb = (- 1 :: u32)"
    then have "bit (push_bit 24 hb) 0 = bit (- 1 :: u32) 0" by simp
    then show False by (simp add: bit_simps)
  qed
  moreover have "drop_bit 24 h = hb AND 0xff"
  proof (rule bit_word_eqI)
    fix n assume n: "n < LENGTH(32)"
    have "bit (h AND NOT (mask 24)) (24 + n) = bit (push_bit 24 hb) (24 + n)" using hn m by simp
    then show "bit (drop_bit 24 h) n = bit (hb AND 0xff) n"
      using n unfolding ff by (cases "n < 8") (auto simp: bit_simps dest: bit_imp_le_length)
  qed
  ultimately show ?thesis
    using h(1) hn
    by (simp add: skynet_isremote_def skynet_harbor_message_isremote_def skynet_harbor_init_def HANDLE_REMOTE_SHIFT_def Let_def)
qed

theorem registered_handles_are_local_witness:
  "\<exists>h hs'. skynet_handle_register (\<lambda>c. 0) 7 (skynet_handle_init 3) = Some (h, hs') \<and>
    skynet_isremote h (skynet_harbor_init 3 demo_node) = Some (False, 3)"
proof -
  have "slot_size (skynet_handle_init 3) * 2 < 2 ^ 24" "Some 7 \<notin> set (slot (skynet_handle_init 3))"
    by (simp_all add: skynet_handle_init_def DEFAULT_SLOT_SIZE_def)
  from registered_handles_are_local [OF handle_init_wf(1) this refl, of "\<lambda>c. 0" demo_node] show ?thesis by simp
qed

text \<open>C21. Errors of a send: a payload whose size does not leave room for the type gives -2, a payload for handle 0 and a handle that nobody
  has give -1. No mailbox changes, but that of the logger if there is one: it gets the text of the error in the first two cases. The payload
  is not lost: too large it is freed when it was given away, otherwise it (or its copy) is freed once.\<close>

theorem send_failures:
  assumes "node_ok s" "roomy 1 (MQ s)" "ctxs s a = Some c" "readable data sz" "session_free type session c"
    "too_large sz \<or> (dest = 0 \<and> data \<noteq> None) \<or> (dest \<noteq> 0 \<and> local_handle dest s \<and> skynet_handle_grab (hof s) dest (HS s) = None)"
  shows "\<exists>s'. skynet_send (Some a) source dest type session data sz s = Some (if too_large sz then - 2 else - 1, s') \<and> node_ok s' \<and>
    (\<forall>q. mailbox q (MQ s') = mailbox q (MQ s) @
       (if (too_large sz \<or> dest = 0) \<and> logger_box s = Some q
        then [error_report (cx_handle c)
           (if too_large sz then ''The message to '' @ fmt_x dest @ '' is too large'' else ''Destination address can't be 0'')]
        else [])) \<and>
    effects s' = effects s @
      (if too_large sz then (if type AND PTYPE_TAG_DONTCOPY \<noteq> 0 then freed (map_option Bytes data) else [])
       else freed (map_option Bytes (delivered type data sz)))"
proof (cases "too_large sz")
  case True
  obtain s' where "ctx_error (Some a) (''The message to '' @ fmt_x dest @ '' is too large'') s = Some s'" "node_ok s'" "effects s' = effects s"
    "\<forall>q. mailbox q (MQ s') = mailbox q (MQ s) @
      (if logger_box s = Some q then [error_report (cx_handle c) (''The message to '' @ fmt_x dest @ '' is too large'')] else [])"
    using ctx_error_result [OF assms(1-3)] by blast
  then show ?thesis using True by (simp add: skynet_send_def free_if_given_def skynet_free_alt)
next
  case False
  let ?s1 = "s\<lparr>ctxs := (ctxs s)(a \<mapsto> sender_after type c)\<rparr>"
  note s1 = sender_after_ok [OF assms(1,3), of type]
  have fa: "filter_args (Some a) type session data sz s = Some (session_of type session c, delivered type data sz, packed type sz, ?s1)"
    by (rule filter_args_result [OF assms(3,5,4)])
  show ?thesis
  proof (cases "dest = 0")
    case True
    then have "delivered type data sz \<noteq> None" using assms(6) False by (auto simp: delivered_def)
    moreover obtain s' where "ctx_error (Some a) ''Destination address can't be 0'' ?s1 = Some s'" "node_ok s'" "effects s' = effects s"
      "\<forall>q. mailbox q (MQ s') = mailbox q (MQ s) @
        (if logger_box s = Some q then [error_report (cx_handle c) ''Destination address can't be 0''] else [])"
      using ctx_error_result [OF s1(1), of a "sender_after type c" "''Destination address can't be 0''"] assms(2)
      unfolding logger_box_sender [OF assms(3)] sender_after_simps by (auto simp del: fun_upd_apply) fastforce
    ultimately show ?thesis using False True fa
      by (cases "source = 0") (simp_all add: skynet_send_def skynet_free_alt)
  next
    case dest: False
    then have "skynet_harbor_message_isremote dest ?s1 = Some False" "skynet_handle_grab (hof ?s1) dest (HS ?s1) = None"
      using assms(6) False s1(2) by (simp_all add: local_handle_def [symmetric])
    then show ?thesis using False dest fa context_push_missing [of ?s1 dest] s1(1)
      by (cases "source = 0") (simp_all add: skynet_send_def skynet_free_alt)
  qed
qed

text \<open>Service 1 as the logger gets the report of its own mistake.\<close>

theorem send_failures_witness:
  "\<exists>s'. skynet_send (Some 0) 0 0 PTYPE_TAG_DONTCOPY 3 (Some [9]) 1 (demo_node\<lparr>logger := 1\<rparr>) = Some (- 1, s') \<and>
     mailbox 0 (MQ s') = [error_report 1 ''Destination address can't be 0''] \<and> effects s' = [Data_Free (Bytes [9])]"
proof -
  let ?s = "demo_node\<lparr>logger := 1\<rparr>"
  have "hof ?s = hof demo_node" by (simp add: hof_def fun_eq_iff)
  then have "logger_box ?s = Some 0" using demo_grab by (simp add: logger_box_def letter_box_def demo_ctx_def)
  moreover have "mailbox 0 (MQ demo_node) = []" "effects demo_node = []" by (simp_all add: mailbox_def demo_node_def mq_wf_new)
  moreover have "\<not> too_large 1" "readable (Some [9 :: u8]) 1" "session_free PTYPE_TAG_DONTCOPY 3 (demo_ctx 1 0)"
    by (simp_all add: too_large_iff readable_def session_free_def PTYPE_TAG_DONTCOPY_def PTYPE_TAG_ALLOCSESSION_def)
  moreover have "delivered PTYPE_TAG_DONTCOPY (Some [9]) 1 = Some [9]" by (simp add: delivered_def PTYPE_TAG_DONTCOPY_def)
  moreover have "node_ok ?s" "roomy 1 (MQ ?s)" "ctxs ?s 0 = Some (demo_ctx 1 0)" using demo_node_ok demo_roomy [of 1] demo_grab(2) by simp_all
  ultimately show ?thesis
    using send_failures [of ?s 0 "demo_ctx 1 0" "Some [9]" 1 PTYPE_TAG_DONTCOPY 3 0 0] by (auto simp: freed_def demo_ctx_def)
qed

text \<open>C22. Sessions: as long as its counter does not exceed the largest int, a context gives out the numbers that follow its counter, one after
  the other: all positive and all different. The allocation that would have to wrap around increments an int that has its largest value.\<close>

theorem sessions_positive:
  assumes "ctxs s a = Some c" "unat (cx_session_id c) \<le> int_max"
  shows "if unat (cx_session_id c) + n \<le> int_max
    then \<exists>rs s'. newsessions n a s = Some (rs, s') \<and>
      map sint rs = map int [Suc (unat (cx_session_id c))..<Suc (unat (cx_session_id c) + n)] \<and> (\<forall>r \<in> set rs. 0 < sint r) \<and> distinct rs
    else newsessions n a s = None"
proof (cases "unat (cx_session_id c) + n \<le> int_max")
  case True
  from newsessions_some [OF assms(1) True] obtain rs s' where
    rs: "newsessions n a s = Some (rs, s')" "map sint rs = map int [Suc (unat (cx_session_id c))..<Suc (unat (cx_session_id c) + n)]" by blast
  have "sint r \<in> int ` {Suc (unat (cx_session_id c))..<Suc (unat (cx_session_id c) + n)}" if "r \<in> set rs" for r
  proof -
    have "sint r \<in> set (map sint rs)" using that by simp
    then show ?thesis unfolding rs(2) set_map set_upt .
  qed
  then have "\<forall>r \<in> set rs. 0 < sint r" by fastforce
  moreover have "distinct (map int [Suc (unat (cx_session_id c))..<Suc (unat (cx_session_id c) + n)])" by (simp add: distinct_map)
  then have "distinct rs" unfolding rs(2) [symmetric] by (simp add: distinct_map)
  ultimately show ?thesis using rs True by auto
next
  case False
  then show ?thesis using newsessions_none [OF assms(1,2)] by simp
qed

theorem sessions_positive_witness:
  "\<exists>rs s'. newsessions 3 0 demo_node = Some (rs, s') \<and> map sint rs = [1, 2, 3]"
proof -
  have "unat (cx_session_id (demo_ctx 1 0)) = 0" by (simp add: demo_ctx_def new_context_def)
  then show ?thesis using sessions_positive [OF demo_grab(2), of 3] by (auto simp: upt_rec)
qed

text \<open>The monitor: if fewer than \<open>2 ^ 32\<close> (and at least one) dispatch events happened since the last
  check, a check only remembers the new version; if none happened while a message is being
  dispatched, the check marks exactly the service that is dispatching as endless.\<close>

theorem monitor_detects_stall:
  assumes "node_ok s" "logger s = 0" "skynet_handle_findname ''logger'' (HS s) = 0"
    "sm_check_version sm = sm_version sm" "skynet_handle_grab (hof s) (sm_destination sm) (HS s) = Some a" "ctxs s a = Some c"
  shows "skynet_monitor_check sm s = Some (sm, s\<lparr>ctxs := (ctxs s)(a \<mapsto> c\<lparr>cx_endless := True\<rparr>)\<rparr>) \<and>
    (0 < length ts \<and> length ts < 2 ^ 32 \<longrightarrow>
      skynet_monitor_check (triggers ts sm) s =
        Some ((triggers ts sm)\<lparr>sm_check_version := sm_version (triggers ts sm)\<rparr>, s))"
proof -
  have "sm_destination sm \<noteq> 0"
  proof
    assume "sm_destination sm = 0"
    then have "Some a \<in> set (slot (HS s))" "hof s a = 0" using grab_iff [OF node_okD(1) [OF assms(1)]] assms(5) by auto
    then show False using node_okD(1) [OF assms(1)] by (auto simp: slots_wf_def in_set_conv_nth)
  qed
  then have "skynet_monitor_check sm s = Some (sm, s\<lparr>ctxs := (ctxs s)(a \<mapsto> c\<lparr>cx_endless := True\<rparr>)\<rparr>)"
    using assms(2-4) context_endless_result [OF assms(1,5,6)] no_logger by (simp add: skynet_monitor_check_def)
  moreover have "sm_version (triggers ts sm) \<noteq> sm_check_version (triggers ts sm)" if "0 < length ts" "length ts < 2 ^ 32"
  proof -
    have "unat (of_nat (length ts) :: u32) = length ts" using that(2) by (simp add: unsigned_of_nat take_bit_nat_eq_self)
    then have "(of_nat (length ts) :: u32) \<noteq> 0" using that(1) by (metis unat_0 less_numeral_extra(3))
    then show ?thesis using triggers_version [of ts sm] assms(4) by simp
  qed
  ultimately show ?thesis by (simp add: skynet_monitor_check_def)
qed

theorem monitor_detects_stall_witness:
  "skynet_monitor_check (skynet_monitor_new\<lparr>sm_destination := 1\<rparr>) demo_node \<noteq> None"
proof -
  have "names_wf (HS demo_node)" "name_map (HS demo_node) ''logger'' = None"
    by (simp_all add: demo_node_def names_wf_def name_map_def skynet_handle_init_def name_list_def)
  then have "skynet_handle_findname ''logger'' (HS demo_node) = 0" using findname_map [of "HS demo_node"] by simp
  moreover have "logger demo_node = 0" by (simp add: demo_node_def)
  ultimately show ?thesis
    using monitor_detects_stall [OF demo_node_ok _ _ _ _ demo_grab(2), of "skynet_monitor_new\<lparr>sm_destination := 1\<rparr>" "[]"] demo_grab(1)
    by (simp add: skynet_monitor_new_def)
qed

end
