(* ===== verification/Command.thy ===== *)
theory Command
  imports Context
begin

text \<open>
  The commands of \<^verbatim>\<open>skynet_server.c\<close> (\<^verbatim>\<open>skynet_command\<close> and its table), the
  environment of \<^verbatim>\<open>skynet_env.c\<close> and the opening and closing of log files of
  \<^verbatim>\<open>skynet_log.c\<close>. A command gets a context and a parameter (\<open>None\<close> is
  \<^verbatim>\<open>NULL\<close>) and returns a string or \<open>None\<close>.
\<close>

subsection \<open>Environment\<close>

definition skynet_getenv :: "string \<Rightarrow> node \<Rightarrow> string option" where
  "skynet_getenv key s = ENV s key"

definition skynet_setenv :: "string \<Rightarrow> string \<Rightarrow> node \<Rightarrow> node option" where
  "skynet_setenv key val s = do {
     c_assert (ENV s key = None);
     Some (s\<lparr>ENV := (ENV s)(key \<mapsto> val)\<rparr>)
   }"

subsection \<open>Log files\<close>

text \<open>\<open>fopen\<close> gives the number of the file for a path, \<open>ctime\<close> the text of a time.\<close>

definition skynet_log_open ::
  "(string \<Rightarrow> nat option) \<Rightarrow> (u64 \<Rightarrow> string) \<Rightarrow> addr \<Rightarrow> u32 \<Rightarrow> node \<Rightarrow> (nat option \<times> node) option" where
  "skynet_log_open fopen ctime ctx handle s =
     (case skynet_getenv ''logpath'' s of
        None \<Rightarrow> Some (None, s)
      | Some logpath \<Rightarrow>
          (let tmp = logpath @ ''/'' @ fmt_08x handle @ ''.log''
           in case fopen tmp of
                Some f \<Rightarrow> do {
                  let ti = ucast (skynet_starttime (TI s)) + skynet_now (TI s) div 100;
                  s1 \<leftarrow> ctx_error (Some ctx) (''Open log file '' @ tmp) s;
                  Some (Some f, emit [Log_Write f (''open time: '' @
                    fmt_nat (unat (ucast (skynet_now (TI s)) :: u32)) @ '' '' @ ctime ti)] s1)
                }
              | None \<Rightarrow> do {
                  s1 \<leftarrow> ctx_error (Some ctx) (''Open log file '' @ tmp @ '' fail'') s;
                  Some (None, s1)
                }))"

definition skynet_log_close :: "addr \<Rightarrow> nat \<Rightarrow> u32 \<Rightarrow> node \<Rightarrow> node option" where
  "skynet_log_close ctx f handle s = do {
     s1 \<leftarrow> ctx_error (Some ctx) (''Close log file :'' @ fmt_08x handle) s;
     Some (emit [Log_Write f (''close time: '' @ fmt_nat (unat (ucast (skynet_now (TI s1)) :: u32)) @ [CHR 0x0A]),
       Log_Close f] s1)
   }"

subsection \<open>Handles as text\<close>

definition id_to_hex :: "u32 \<Rightarrow> string" where
  "id_to_hex h = CHR '':'' # map (\<lambda>i. upper_digit (unat (drop_bit ((7 - i) * 4) h AND 0xf))) [0..<8]"

definition skynet_queryname :: "addr option \<Rightarrow> string \<Rightarrow> node \<Rightarrow> (u32 \<times> node) option" where
  "skynet_queryname ctx name s =
     (if take 1 name = '':'' then Some (ucast (strtoul16 (drop 1 name)), s)
      else if take 1 name = ''.'' then Some (skynet_handle_findname (drop 1 name) (HS s), s)
      else do { s1 \<leftarrow> ctx_error ctx (''Don't support query global name '' @ name) s; Some (0, s1) })"

definition tohandle :: "addr \<Rightarrow> string \<Rightarrow> node \<Rightarrow> (u32 \<times> node) option" where
  "tohandle ctx param s =
     (if take 1 param = '':'' then Some (ucast (strtoul16 (drop 1 param)), s)
      else if take 1 param = ''.'' then Some (skynet_handle_findname (drop 1 param) (HS s), s)
      else do { s1 \<leftarrow> ctx_error (Some ctx) (''Can't convert '' @ param @ '' to handle'') s; Some (0, s1) })"

definition handle_exit :: "addr \<Rightarrow> u32 \<Rightarrow> node \<Rightarrow> node option" where
  "handle_exit ctx handle s = do {
     (h, s1) \<leftarrow> (if handle = 0
        then do { c \<leftarrow> ctxs s ctx; s1 \<leftarrow> ctx_error (Some ctx) ''KILL self'' s; Some (cx_handle c, s1) }
        else do { s1 \<leftarrow> ctx_error (Some ctx) (''KILL :'' @ fmt_x handle) s; Some (handle, s1) });
     s2 \<leftarrow> (if monitor_exit s1 \<noteq> 0
        then do { (r, s2) \<leftarrow> skynet_send (Some ctx) h (monitor_exit s1) PTYPE_CLIENT 0 None 0 s1; Some s2 }
        else Some s1);
     (r, s3) \<leftarrow> handle_retire h s2;
     Some s3
   }"

definition set_result :: "addr \<Rightarrow> string \<Rightarrow> node \<Rightarrow> (string option \<times> node) option" where
  "set_result ctx text s = do { s1 \<leftarrow> upd_ctx ctx (\<lambda>c. c\<lparr>cx_result := text\<rparr>) s; Some (Some text, s1) }"

definition node_timeout :: "u32 \<Rightarrow> int \<Rightarrow> u32 \<Rightarrow> node \<Rightarrow> (u32 \<times> node) option" where
  "node_timeout handle time session s =
     (let (ret, msgs, t) = skynet_timeout True handle time session (TI s); s1 = s\<lparr>TI := t\<rparr>
      in case msgs of
           [] \<Rightarrow> Some (ret, s1)
         | (dest, m) # _ \<Rightarrow> do { (r, s2) \<leftarrow> skynet_context_push dest m s1; Some (if r \<noteq> 0 then - 1 else ret, s2) })"

subsection \<open>The commands\<close>

type_synonym command = "addr \<Rightarrow> string option \<Rightarrow> node \<Rightarrow> (string option \<times> node) option"

definition cmd_timeout :: command where
  "cmd_timeout ctx p s = do {
     param \<leftarrow> p;
     let ti = to_int (strtol10 param);
     (session, s1) \<leftarrow> skynet_context_newsession ctx s;
     c \<leftarrow> ctxs s1 ctx;
     (r, s2) \<leftarrow> node_timeout (cx_handle c) ti session s1;
     set_result ctx (fmt_int (sint session)) s2
   }"

definition node_namehandle :: "u32 \<Rightarrow> string \<Rightarrow> node \<Rightarrow> (string option \<times> node) option" where
  "node_namehandle handle name s = do { (r, hs) \<leftarrow> skynet_handle_namehandle handle name (HS s); Some (r, s\<lparr>HS := hs\<rparr>) }"

definition cmd_reg :: command where
  "cmd_reg ctx p s = do {
     c \<leftarrow> ctxs s ctx;
     (case p of
        None \<Rightarrow> set_result ctx (CHR '':'' # fmt_x (cx_handle c)) s
      | Some param \<Rightarrow>
          if param = [] then set_result ctx (CHR '':'' # fmt_x (cx_handle c)) s
          else if take 1 param = ''.'' then node_namehandle (cx_handle c) (drop 1 param) s
          else do { s1 \<leftarrow> ctx_error (Some ctx) (''Can't register global name '' @ param @ '' in C'') s; Some (None, s1) })
   }"

definition cmd_query :: command where
  "cmd_query ctx p s = do {
     param \<leftarrow> p;
     if take 1 param = ''.''
     then (let handle = skynet_handle_findname (drop 1 param) (HS s)
           in if handle \<noteq> 0 then set_result ctx (CHR '':'' # fmt_x handle) s else Some (None, s))
     else Some (None, s)
   }"

text \<open>\<^verbatim>\<open>sscanf\<close> leaves the second array uninitialised when there is no second word.\<close>

definition cmd_name :: command where
  "cmd_name ctx p s = do {
     param \<leftarrow> p;
     let (name, rest) = scan_word param;
     let (handle, rest2) = scan_word rest;
     c_assert (handle \<noteq> []);
     if take 1 handle \<noteq> '':'' then Some (None, s)
     else do {
       let handle_id = (ucast (strtoul16 (drop 1 handle)) :: u32);
       if handle_id = 0 then Some (None, s)
       else if take 1 name = ''.'' then node_namehandle handle_id (drop 1 name) s
       else do { s1 \<leftarrow> ctx_error (Some ctx) (''Can't set global name '' @ name @ '' in C'') s; Some (None, s1) }
     }
   }"

definition cmd_exit :: command where
  "cmd_exit ctx p s = do { s1 \<leftarrow> handle_exit ctx 0 s; Some (None, s1) }"

definition cmd_kill :: command where
  "cmd_kill ctx p s = do {
     param \<leftarrow> p;
     (handle, s1) \<leftarrow> tohandle ctx param s;
     s2 \<leftarrow> (if handle \<noteq> 0 then handle_exit ctx handle s1 else Some s1);
     Some (None, s2)
   }"

definition cmd_launch ::
  "(string \<Rightarrow> nat option) \<Rightarrow> (nat \<Rightarrow> addr \<Rightarrow> string option \<Rightarrow> node \<Rightarrow> (int \<times> node) option) \<Rightarrow> command" where
  "cmd_launch create init ctx p s = do {
     param \<leftarrow> p;
     let (m, args) = strsep [CHR '' '', CHR 0x09, CHR 0x0D, CHR 0x0A] (Some param);
     let (args1, rest) = strsep [CHR 0x0D, CHR 0x0A] args;
     name \<leftarrow> m;
     (inst, s1) \<leftarrow> skynet_context_new create init name args1 s;
     (case inst of
        None \<Rightarrow> Some (None, s1)
      | Some a \<Rightarrow> do { c \<leftarrow> ctxs s1 a; set_result ctx (id_to_hex (cx_handle c)) s1 })
   }"

definition cmd_getenv :: command where
  "cmd_getenv ctx p s = do { param \<leftarrow> p; Some (skynet_getenv param s, s) }"

definition cmd_setenv :: command where
  "cmd_setenv ctx p s = do {
     param \<leftarrow> p;
     let key = takeWhile (\<lambda>c. c \<noteq> CHR '' '') param;
     let rest = dropWhile (\<lambda>c. c \<noteq> CHR '' '') param;
     if rest = [] then Some (None, s)
     else do { s1 \<leftarrow> skynet_setenv key (drop 1 rest) s; Some (None, s1) }
   }"

definition cmd_starttime :: command where
  "cmd_starttime ctx p s = set_result ctx (fmt_nat (unat (skynet_starttime (TI s)))) s"

text \<open>
  One pass of \<^verbatim>\<open>skynet_handle_retireall\<close> over the slots from \<open>i\<close>, \<open>n\<close> counting the
  contexts seen; the slot count is read again in every round, and so is the table.
\<close>

function retire_pass :: "nat \<Rightarrow> nat \<Rightarrow> nat \<Rightarrow> node \<Rightarrow> (nat \<times> node) option" where
  "retire_pass fuel i n s =
     (if i < slot_size (HS s)
      then (case fuel of
              0 \<Rightarrow> None
            | Suc k \<Rightarrow> do {
                let ctx = slot (HS s) ! i;
                let handle = (case ctx of None \<Rightarrow> 0 | Some a \<Rightarrow> hof s a);
                let n1 = (case ctx of None \<Rightarrow> n | Some a \<Rightarrow> Suc n);
                s1 \<leftarrow> (if handle \<noteq> 0 then do { (r, s1) \<leftarrow> handle_retire handle s; Some s1 } else Some s);
                retire_pass k (Suc i) n1 s1
              })
      else Some (n, s))"
  by pat_completeness auto
termination by (relation "measure fst") auto

declare retire_pass.simps [simp del]

partial_function (option) skynet_handle_retireall :: "node \<Rightarrow> node option" where
  "skynet_handle_retireall s = do {
     (n, s1) \<leftarrow> retire_pass (slot_size (HS s)) 0 0 s;
     if n = 0 then Some s1 else skynet_handle_retireall s1
   }"

definition cmd_abort :: command where
  "cmd_abort ctx p s = do { s1 \<leftarrow> skynet_handle_retireall s; Some (None, s1) }"

definition cmd_monitor :: command where
  "cmd_monitor ctx p s =
     (let param = (case p of None \<Rightarrow> '''' | Some t \<Rightarrow> t)
      in if param = []
         then (if monitor_exit s \<noteq> 0 then set_result ctx (CHR '':'' # fmt_x (monitor_exit s)) s else Some (None, s))
         else do { (handle, s1) \<leftarrow> tohandle ctx param s; Some (None, s1\<lparr>monitor_exit := handle\<rparr>) })"

text \<open>\<^verbatim>\<open>%lf\<close> of a number of microseconds divided by a million.\<close>

definition fmt_seconds :: "nat \<Rightarrow> string" where
  "fmt_seconds n = (let r = fmt_nat (n mod 1000000) in fmt_nat (n div 1000000) @ ''.'' @ replicate (6 - length r) (CHR ''0'') @ r)"

definition cmd_stat :: "u64 \<Rightarrow> command" where
  "cmd_stat thread_time ctx p s = do {
     param \<leftarrow> p;
     c \<leftarrow> ctxs s ctx;
     if param = ''mqlen''
     then do { q \<leftarrow> queues (MQ s) (cx_queue c); set_result ctx (fmt_nat (skynet_mq_length q)) s }
     else if param = ''endless''
     then (if cx_endless c
           then do { s1 \<leftarrow> upd_ctx ctx (\<lambda>c. c\<lparr>cx_endless := False\<rparr>) s; set_result ctx ''1'' s1 }
           else set_result ctx ''0'' s)
     else if param = ''cpu'' then set_result ctx (fmt_seconds (unat (cx_cpu_cost c))) s
     else if param = ''time''
     then (if cx_profile c then set_result ctx (fmt_seconds (unat (thread_time - cx_cpu_start c))) s else set_result ctx ''0'' s)
     else if param = ''message'' then set_result ctx (fmt_int (sint (cx_message_count c))) s
     else set_result ctx '''' s
   }"

text \<open>The context that a parameter names, grabbed; \<open>None\<close> when there is none.\<close>

definition grab_param :: "addr \<Rightarrow> string \<Rightarrow> node \<Rightarrow> ((u32 \<times> addr) option \<times> node) option" where
  "grab_param ctx param s = do {
     (handle, s1) \<leftarrow> tohandle ctx param s;
     if handle = 0 then Some (None, s1)
     else do {
       (r, s2) \<leftarrow> handle_grab handle s1;
       Some (map_option (\<lambda>a. (handle, a)) r, s2)
     }
   }"

definition cmd_logon :: "(string \<Rightarrow> nat option) \<Rightarrow> (u64 \<Rightarrow> string) \<Rightarrow> command" where
  "cmd_logon fopen ctime ctx p s = do {
     param \<leftarrow> p;
     (g, s1) \<leftarrow> grab_param ctx param s;
     (case g of
        None \<Rightarrow> Some (None, s1)
      | Some (handle, a) \<Rightarrow> do {
          c \<leftarrow> ctxs s1 a;
          s2 \<leftarrow> (if cx_logfile c = None
             then do {
               (f, s2) \<leftarrow> skynet_log_open fopen ctime ctx handle s1;
               (case f of None \<Rightarrow> Some s2 | Some n \<Rightarrow> upd_ctx a (\<lambda>c. c\<lparr>cx_logfile := Some n\<rparr>) s2)
             }
             else Some s1);
          (r, s3) \<leftarrow> skynet_context_release a s2;
          Some (None, s3)
        })
   }"

definition cmd_logoff :: command where
  "cmd_logoff ctx p s = do {
     param \<leftarrow> p;
     (g, s1) \<leftarrow> grab_param ctx param s;
     (case g of
        None \<Rightarrow> Some (None, s1)
      | Some (handle, a) \<Rightarrow> do {
          c \<leftarrow> ctxs s1 a;
          s2 \<leftarrow> (case cx_logfile c of
               None \<Rightarrow> Some s1
             | Some f \<Rightarrow> do {
                 s2 \<leftarrow> upd_ctx a (\<lambda>c. c\<lparr>cx_logfile := None\<rparr>) s1;
                 skynet_log_close ctx f handle s2
               });
          (r, s3) \<leftarrow> skynet_context_release a s2;
          Some (None, s3)
        })
   }"

definition cmd_signal :: command where
  "cmd_signal ctx p s = do {
     param \<leftarrow> p;
     (g, s1) \<leftarrow> grab_param ctx param s;
     (case g of
        None \<Rightarrow> Some (None, s1)
      | Some (handle, a) \<Rightarrow> do {
          c \<leftarrow> ctxs s1 a;
          let rest = dropWhile (\<lambda>c. c \<noteq> CHR '' '') param;
          let sig = (if rest = [] then 0 else to_int (strtol0 rest));
          (r, s2) \<leftarrow> skynet_context_release a (emit [Instance_Signal (cx_mod c) (cx_instance c) sig] s1);
          Some (None, s2)
        })
   }"

text \<open>\<^verbatim>\<open>cmd_funcs\<close>, with what the commands need from outside.\<close>

definition cmd_funcs ::
  "(string \<Rightarrow> nat option) \<Rightarrow> (nat \<Rightarrow> addr \<Rightarrow> string option \<Rightarrow> node \<Rightarrow> (int \<times> node) option) \<Rightarrow> u64 \<Rightarrow>
   (string \<Rightarrow> nat option) \<Rightarrow> (u64 \<Rightarrow> string) \<Rightarrow> (string \<times> command) list" where
  "cmd_funcs create init thread_time fopen ctime =
    [(''TIMEOUT'', cmd_timeout), (''REG'', cmd_reg), (''QUERY'', cmd_query), (''NAME'', cmd_name),
     (''EXIT'', cmd_exit), (''KILL'', cmd_kill), (''LAUNCH'', cmd_launch create init), (''GETENV'', cmd_getenv),
     (''SETENV'', cmd_setenv), (''STARTTIME'', cmd_starttime), (''ABORT'', cmd_abort), (''MONITOR'', cmd_monitor),
     (''STAT'', cmd_stat thread_time), (''LOGON'', cmd_logon fopen ctime), (''LOGOFF'', cmd_logoff), (''SIGNAL'', cmd_signal)]"

fun skynet_command :: "(string \<times> command) list \<Rightarrow> addr \<Rightarrow> string \<Rightarrow> string option \<Rightarrow> node \<Rightarrow> (string option \<times> node) option" where
  "skynet_command [] ctx cmd param s = Some (None, s)"
| "skynet_command ((name, func) # methods) ctx cmd param s =
     (if cmd = name then func ctx param s else skynet_command methods ctx cmd param s)"

subsection \<open>Handles as text are read back\<close>

lemma nibbles:
  fixes h :: u32
  shows "foldl (\<lambda>a d. a * 16 + d) 0 (map (\<lambda>i. unat (drop_bit ((7 - i) * 4) h AND 0xf)) [0..<8]) = unat h"
proof -
  define n where "n = unat h"
  have ff: "(0xf :: u32) = mask 4" by (simp add: mask_eq_exp_minus_1)
  have d: "unat (drop_bit k h AND 0xf) = n div 2 ^ k mod 16" for k
    unfolding ff by (simp only: unat_and_mask unat_drop_bit_eq drop_bit_eq_div [where 'a = nat] n_def) simp
  have n: "n < 4294967296" using unat_lt32 [of h] by (simp add: n_def)
  have e: "[0..<8] = [0, 1, 2, 3, 4, 5, 6, 7 :: nat]" by (simp add: upt_rec)
  have "foldl (\<lambda>a d. a * 16 + d) 0 (map (\<lambda>i. n div 2 ^ ((7 - i) * 4) mod 16) [0..<8]) = n"
  proof -
    have s: "m div (16 * k) * 16 + m div k mod 16 = m div k" for m k :: nat
      by (metis div_mult2_eq div_mult_mod_eq mult.commute)
    have t: "n div 268435456 mod 16 = n div 268435456" using n by simp
    show ?thesis
      using s [of n 1] s [of n 16] s [of n 256] s [of n 4096] s [of n 65536] s [of n 1048576] s [of n 16777216] t
      unfolding e by simp
  qed
  then show ?thesis unfolding d n_def .
qed

lemma id_to_hex_read: "ucast (strtoul16 (drop 1 (id_to_hex h))) = h"
proof -
  let ?ds = "map (\<lambda>i. unat (drop_bit ((7 - i) * 4) h AND 0xf)) [0..<8]"
  have ff: "(0xf :: u32) = mask 4" by (simp add: mask_eq_exp_minus_1)
  have small: "d < 16" if "d \<in> set ?ds" for d
    using that unfolding ff by (auto simp only: set_map image_iff unat_and_mask) simp_all
  have "strtoul16 (map upper_digit ?ds) = of_nat (foldl (\<lambda>a d. a * 16 + d) 0 ?ds)"
    by (rule strtoul16_digits [OF small]) (use digit_val_upper upper_digit_plain nibbles unat_lt32 [of h] in auto)
  then have "strtoul16 (drop 1 (id_to_hex h)) = of_nat (unat h)"
    by (simp only: nibbles id_to_hex_def map_map comp_def drop_Suc_Cons One_nat_def drop_0)
  moreover have "(ucast (ucast h :: u64) :: u32) = h" by (rule bit_word_eqI) (simp add: bit_simps)
  ultimately show ?thesis by simp
qed

subsection \<open>Guarantees\<close>

text \<open>The two ways in which the commands print a handle (eight upper-case digits after a launch,
  the shortest lower-case ones elsewhere) are both read back as the same handle by every command
  that takes one.\<close>

theorem handle_text_roundtrip:
  "tohandle ctx (id_to_hex h) s = Some (h, s) \<and> tohandle ctx (CHR '':'' # fmt_x h) s = Some (h, s) \<and>
   skynet_queryname c (id_to_hex h) s = Some (h, s) \<and> skynet_queryname c (CHR '':'' # fmt_x h) s = Some (h, s)"
  using id_to_hex_read [of h] strtoul16_fmt_x [of h]
  by (simp add: tohandle_def skynet_queryname_def) (simp add: id_to_hex_def)

text \<open>Environment: setting a free key makes it readable with exactly the given value (spaces
  included) and leaves the other keys alone; a parameter without a value does nothing; setting a
  key twice fails.\<close>

theorem setenv_getenv:
  assumes "CHR '' '' \<notin> set key"
  shows "(ENV s key = None \<longrightarrow> (\<exists>s'. cmd_setenv ctx (Some (key @ '' '' @ val)) s = Some (None, s') \<and>
      cmd_getenv ctx (Some key) s' = Some (Some val, s') \<and>
      (\<forall>k. k \<noteq> key \<longrightarrow> cmd_getenv ctx (Some k) s' = Some (skynet_getenv k s, s')) \<and>
      cmd_setenv ctx (Some (key @ '' '' @ val)) s' = None)) \<and>
    cmd_setenv ctx (Some key) s = Some (None, s)"
proof -
  have a: "takeWhile (\<lambda>c. c \<noteq> CHR '' '') (key @ '' '' @ val) = key" "dropWhile (\<lambda>c. c \<noteq> CHR '' '') (key @ '' '' @ val) = '' '' @ val"
    "dropWhile (\<lambda>c. c \<noteq> CHR '' '') key = []"
    using assms by (induction key) auto
  show ?thesis
    unfolding cmd_setenv_def cmd_getenv_def Let_def bind.bind_lunit a
    by (simp add: skynet_setenv_def skynet_getenv_def)
qed

theorem setenv_getenv_witness:
  "\<exists>s'. cmd_setenv 0 (Some ''thread 8'') demo_node = Some (None, s') \<and> cmd_getenv 0 (Some ''thread'') s' = Some (Some ''8'', s')"
  using setenv_getenv [of "''thread''" demo_node 0 "''8''"] by (auto simp: demo_node_def)

text \<open>Names: after a context has registered a free name, a query for that name answers with text
  that is read back as the handle of the context, and so does every other use of the name.\<close>

theorem reg_then_query:
  assumes "names_wf (HS s)" "ctxs s ctx = Some c" "cx_handle c \<noteq> 0" "name_map (HS s) nm = None"
    "cmd_reg ctx (Some (CHR ''.'' # nm)) s = Some (r, s')"
  shows "r = Some nm \<and> tohandle ctx (CHR ''.'' # nm) s' = Some (cx_handle c, s') \<and>
    (\<exists>t s''. cmd_query ctx (Some (CHR ''.'' # nm)) s' = Some (Some t, s'') \<and> tohandle ctx t s'' = Some (cx_handle c, s''))"
proof -
  have reg: "node_namehandle (cx_handle c) nm s = Some (r, s')" using assms(2,5) by (simp add: cmd_reg_def)
  then obtain hs where hs: "skynet_handle_namehandle (cx_handle c) nm (HS s) = Some (r, hs)" "s' = s\<lparr>HS := hs\<rparr>"
    by (auto simp: node_namehandle_def bind_Some_iff)
  have n: "r = Some nm" "names_wf hs" "name_map hs = (name_map (HS s))(nm \<mapsto> cx_handle c)"
    using names.bind_free [OF assms(1,4) hs(1)] by auto
  have f: "skynet_handle_findname nm hs = cx_handle c" using findname_map [OF n(2), of nm] n(3) by simp
  let ?t = "CHR '':'' # fmt_x (cx_handle c)"
  have "cmd_query ctx (Some (CHR ''.'' # nm)) s' = Some (Some ?t, s'\<lparr>ctxs := (ctxs s)(ctx \<mapsto> c\<lparr>cx_result := ?t\<rparr>)\<rparr>)"
    using f assms(2,3) hs(2) by (simp add: cmd_query_def set_result_def upd_ctx_def Let_def)
  moreover have "tohandle ctx ?t x = Some (cx_handle c, x)" for x
    using strtoul16_fmt_x [of "cx_handle c"] by (simp add: tohandle_def)
  moreover have "tohandle ctx (CHR ''.'' # nm) s' = Some (cx_handle c, s')" using f hs(2) by (simp add: tohandle_def)
  ultimately show ?thesis using n(1) by blast
qed

theorem reg_then_query_witness:
  "\<exists>s'. tohandle 0 ''.a'' s' = Some (1, s')"
proof -
  have wf: "names_wf (HS demo_node)" "name_map (HS demo_node) ''a'' = None"
    by (simp_all add: demo_node_def names_wf_def name_map_def skynet_handle_init_def name_list_def)
  have nz: "cx_handle (demo_ctx 1 0) \<noteq> 0" by (simp add: demo_ctx_def)
  obtain hs where hs: "skynet_handle_namehandle 1 ''a'' (HS demo_node) = Some (Some ''a'', hs)"
    by (simp add: demo_node_def skynet_handle_namehandle_def skynet_handle_init_def name_search.simps insert_name_before_def
        MAX_SLOT_SIZE_def Let_def)
  have "cmd_reg 0 (Some (CHR ''.'' # ''a'')) demo_node = Some (Some ''a'', demo_node\<lparr>HS := hs\<rparr>)"
    using hs demo_grab(2) by (simp add: cmd_reg_def node_namehandle_def demo_ctx_def)
  from reg_then_query [OF wf(1) demo_grab(2) nz wf(2) this] show ?thesis by (auto simp: demo_ctx_def)
qed

subsection \<open>Aborting the process\<close>

text \<open>The contexts of the table, slot by slot, from slot \<open>i\<close>.\<close>

lemma retire_sizes: "skynet_handle_retire f h hs = (r, hs') \<Longrightarrow> slot_size hs' = slot_size hs"
  by (auto simp: skynet_handle_retire_def Let_def split: option.splits if_splits prod.splits)

lemma handle_retire_frame:
  assumes "node_ok s" "skynet_handle_grab (hof s) h (HS s) = Some a"
  shows "\<exists>s'. handle_retire h s = Some (True, s') \<and> node_ok s' \<and> slot_size (HS s') = slot_size (HS s) \<and>
    (\<forall>i. slot (HS s') ! i \<noteq> None \<longrightarrow> slot (HS s') ! i = slot (HS s) ! i) \<and> slot (HS s') ! handle_hash h (slot_size (HS s)) = None"
proof -
  obtain c where c: "ctxs s a = Some c"
    using node_okD(3) [OF assms(1), of a] assms(2) grab_iff [OF node_okD(1) [OF assms(1)]] by auto
  obtain s' where s': "handle_retire h s = Some (True, s')" "node_ok s'"
    using handle_retire_result [OF assms c] by blast
  obtain hs where hs: "skynet_handle_retire (hof s) h (HS s) = (Some a, hs)"
    by (rule retire_step [OF node_okD(1) [OF assms(1)] assms(2)]) blast
  obtain r where rel: "skynet_context_release a (s\<lparr>HS := hs\<rparr>) = Some (r, s')"
    using s'(1) hs by (auto simp: handle_retire_def bind_Some_iff)
  have "HS s' = hs"
    using rel by (auto simp: skynet_context_release_def delete_context_def upd_ctx_def emit_def bind_Some_iff split: if_splits)
  moreover have "slot hs = (slot (HS s))[handle_hash h (slot_size (HS s)) := None]" "slot_size hs = slot_size (HS s)"
    using hs by (auto simp: skynet_handle_retire_def Let_def split: option.splits if_splits prod.splits)
  moreover have "handle_hash h (slot_size (HS s)) < length (slot (HS s))"
    using node_okD(1) [OF assms(1)] by (auto elim: slots_wfE)
  ultimately show ?thesis using s' by (auto simp: nth_list_update)
qed

lemma retire_pass_result:
  assumes "node_ok s" "slot_size (HS s) \<le> i + fuel" "\<forall>j < i. slot (HS s) ! j = None"
  shows "\<exists>k s'. retire_pass fuel i n s = Some (n + k, s') \<and> node_ok s' \<and> slot_size (HS s') = slot_size (HS s) \<and>
    (\<forall>j < slot_size (HS s). slot (HS s') ! j = None) \<and> ((\<forall>j < slot_size (HS s). slot (HS s) ! j = None) \<longrightarrow> k = 0 \<and> s' = s)"
  using assms
proof (induction fuel arbitrary: i n s)
  case 0
  then show ?case by (subst retire_pass.simps) auto
next
  case (Suc fuel)
  show ?case
  proof (cases "i < slot_size (HS s)")
    case False
    then show ?thesis using Suc.prems by (subst retire_pass.simps) auto
  next
    case i: True
    show ?thesis
    proof (cases "slot (HS s) ! i")
      case None
      have "\<forall>j < Suc i. slot (HS s) ! j = None" using Suc.prems(3) None by (auto simp: less_Suc_eq)
      then show ?thesis
        using Suc.IH [of s "Suc i" n] Suc.prems(1,2) i None by (subst retire_pass.simps) auto
    next
      case (Some a)
      have wf: "slots_wf (hof s) (HS s)" by (rule node_okD(1) [OF Suc.prems(1)])
      have mem: "Some a \<in> set (slot (HS s))" using wf i Some nth_mem [of i "slot (HS s)"] by (simp add: slots_wf_def)
      have h: "hof s a \<noteq> 0" "unat (hof s a) mod slot_size (HS s) = i" using wf i Some by (auto simp: slots_wf_def)
      have hash: "handle_hash (hof s a) (slot_size (HS s)) = i" using wf h(2) by (auto elim: slots_wfE)
      have grab: "skynet_handle_grab (hof s) (hof s a) (HS s) = Some a" using mem grab_iff [OF wf] by simp
      obtain s1 where s1: "handle_retire (hof s a) s = Some (True, s1)" "node_ok s1" "slot_size (HS s1) = slot_size (HS s)"
          "\<And>j. slot (HS s1) ! j \<noteq> None \<Longrightarrow> slot (HS s1) ! j = slot (HS s) ! j" "slot (HS s1) ! i = None"
        using handle_retire_frame [OF Suc.prems(1) grab] hash by auto
      have "\<forall>j < Suc i. slot (HS s1) ! j = None" using s1(4,5) Suc.prems(3) by (metis less_Suc_eq)
      then obtain k s' where "retire_pass fuel (Suc i) (Suc n) s1 = Some (Suc n + k, s')" "node_ok s'"
          "slot_size (HS s') = slot_size (HS s)" "\<forall>j < slot_size (HS s). slot (HS s') ! j = None"
        using Suc.IH [of s1 "Suc i" "Suc n"] s1(2,3) Suc.prems(2) by auto
      moreover have "retire_pass (Suc fuel) i n s = retire_pass fuel (Suc i) (Suc n) s1"
        using i Some h(1) s1(1) by (subst retire_pass.simps) simp
      ultimately show ?thesis using Some i by (intro exI [of _ "Suc k"] exI [of _ s']) auto
    qed
  qed
qed

text \<open>Abort: the command ends, after at most two passes over the table, with every service
  retired: no handle resolves any more, and the process is consistent.\<close>

theorem abort_retires_all:
  assumes "node_ok s"
  shows "\<exists>s'. cmd_abort ctx p s = Some (None, s') \<and> node_ok s' \<and> (\<forall>h. skynet_handle_grab (hof s') h (HS s') = None)"
proof -
  obtain k s1 where s1: "retire_pass (slot_size (HS s)) 0 0 s = Some (k, s1)" "node_ok s1"
      "slot_size (HS s1) = slot_size (HS s)" "\<forall>j < slot_size (HS s). slot (HS s1) ! j = None"
    using retire_pass_result [OF assms, of 0 "slot_size (HS s)" 0] by auto
  have again: "retire_pass (slot_size (HS s1)) 0 0 s1 = Some (0, s1)"
    using retire_pass_result [OF s1(2), of 0 "slot_size (HS s1)" 0] s1(3,4) by auto
  have stop: "skynet_handle_retireall s1 = Some s1" by (subst skynet_handle_retireall.simps) (simp add: again)
  have "skynet_handle_retireall s = Some s1" by (subst skynet_handle_retireall.simps) (simp add: s1(1) stop)
  moreover have "Some a \<notin> set (slot (HS s1))" for a
    using s1(3,4) node_okD(1) [OF s1(2)] by (auto simp: slots_wf_def in_set_conv_nth)
  then have "skynet_handle_grab (hof s1) h (HS s1) = None" for h
    using grab_None_iff [OF node_okD(1) [OF s1(2)]] by auto
  ultimately show ?thesis using s1(2) by (simp add: cmd_abort_def)
qed

theorem abort_retires_all_witness:
  "\<exists>s'. cmd_abort 0 None demo_node = Some (None, s') \<and> skynet_handle_grab (hof s') 1 (HS s') = None"
  using abort_retires_all [OF demo_node_ok, of 0 None] by blast

end
