(* ===== verification/Locks.thy ===== *)
theory Locks
  imports Prelude
begin

text \<open>
  The spinlock of \<^verbatim>\<open>spinlock.h\<close> and the reader-writer lock of \<^verbatim>\<open>rwlock.h\<close> (the
  versions on C11 atomics) as step relations: each atomic load, store, exchange or fetch-and-add
  is one step of one thread, so the runs of the relation are the sequentially consistent
  interleavings of the code. The state has the fields of the structure and, for every thread,
  the place in the code it has reached.
\<close>

subsection \<open>The spinlock\<close>

text \<open>\<open>Exchange\<close>: before \<^verbatim>\<open>atomic_test_and_set_\<close>; \<open>Spin\<close>: in the inner loop; \<open>Try\<close>: between the two halves of
  \<^verbatim>\<open>spinlock_trylock\<close>.\<close>

datatype spin_pc = Free | Exchange | Spin | Try | Holds

record spinlock =
  sl_lock :: bool
  sl_pc :: "nat \<Rightarrow> spin_pc"

definition sl_at :: "nat \<Rightarrow> spin_pc \<Rightarrow> spinlock \<Rightarrow> spinlock" where
  "sl_at t p s = s\<lparr>sl_pc := (sl_pc s)(t := p)\<rparr>"

definition spinlock_init :: spinlock where
  "spinlock_init = \<lparr>sl_lock = False, sl_pc = (\<lambda>t. Free)\<rparr>"

inductive spin_step :: "spinlock \<Rightarrow> spinlock \<Rightarrow> bool" where
  lock: "sl_pc s t = Free \<Longrightarrow> spin_step s (sl_at t Exchange s)"
| exchange_free: "sl_pc s t = Exchange \<Longrightarrow> \<not> sl_lock s \<Longrightarrow> spin_step s (sl_at t Holds (s\<lparr>sl_lock := True\<rparr>))"
| exchange_taken: "sl_pc s t = Exchange \<Longrightarrow> sl_lock s \<Longrightarrow> spin_step s (sl_at t Spin (s\<lparr>sl_lock := True\<rparr>))"
| spin: "sl_pc s t = Spin \<Longrightarrow> sl_lock s \<Longrightarrow> spin_step s s"
| spin_end: "sl_pc s t = Spin \<Longrightarrow> \<not> sl_lock s \<Longrightarrow> spin_step s (sl_at t Exchange s)"
| trylock_fail: "sl_pc s t = Free \<Longrightarrow> sl_lock s \<Longrightarrow> spin_step s s"
| trylock: "sl_pc s t = Free \<Longrightarrow> \<not> sl_lock s \<Longrightarrow> spin_step s (sl_at t Try s)"
| try_free: "sl_pc s t = Try \<Longrightarrow> \<not> sl_lock s \<Longrightarrow> spin_step s (sl_at t Holds (s\<lparr>sl_lock := True\<rparr>))"
| try_taken: "sl_pc s t = Try \<Longrightarrow> sl_lock s \<Longrightarrow> spin_step s (sl_at t Free (s\<lparr>sl_lock := True\<rparr>))"
| unlock: "sl_pc s t = Holds \<Longrightarrow> spin_step s (sl_at t Free (s\<lparr>sl_lock := False\<rparr>))"

inductive spin_reachable :: "spinlock \<Rightarrow> bool" where
  spin_start: "spin_reachable spinlock_init"
| spin_next: "spin_reachable s \<Longrightarrow> spin_step s s' \<Longrightarrow> spin_reachable s'"

inductive_cases spin_stepE: "spin_step s s'"

lemma sl_at_simps [simp]:
  "sl_pc (sl_at t p s) = (sl_pc s)(t := p)" "sl_lock (sl_at t p s) = sl_lock s"
  by (simp_all add: sl_at_def)

definition spin_inv :: "spinlock \<Rightarrow> bool" where
  "spin_inv s \<longleftrightarrow> (sl_lock s \<longleftrightarrow> (\<exists>t. sl_pc s t = Holds)) \<and> (\<forall>t u. sl_pc s t = Holds \<longrightarrow> sl_pc s u = Holds \<longrightarrow> t = u)"

lemma spin_inv_step: "spin_step s s' \<Longrightarrow> spin_inv s \<Longrightarrow> spin_inv s'"
  by (erule spin_stepE; simp add: spin_inv_def; metis spin_pc.distinct)

lemma spin_inv_reachable: "spin_reachable s \<Longrightarrow> spin_inv s"
proof (induction rule: spin_reachable.induct)
  case spin_start
  show ?case by (simp add: spin_inv_def spinlock_init_def)
qed (rule spin_inv_step)

subsection \<open>The reader-writer lock\<close>

text \<open>
  Readers: \<open>R_Wait\<close> before \<^verbatim>\<open>while(ATOM_LOAD(&lock->write))\<close>, \<open>R_Inc\<close> before the
  increment, \<open>R_Check\<close> before the second load, \<open>R_Back\<close> before the decrement that gives up,
  \<open>R_In\<close> inside. Writers: \<open>W_Cas\<close> before the compare-and-swap, \<open>W_Wait\<close> in the loop on
  \<^verbatim>\<open>read\<close>, \<open>W_In\<close> inside.
\<close>

datatype rw_pc = Outside | R_Wait | R_Inc | R_Check | R_Back | R_In | W_Cas | W_Wait | W_In

record rwlock =
  rw_write :: bool
  rw_read :: int
  rw_pc :: "nat \<Rightarrow> rw_pc"

definition rw_at :: "nat \<Rightarrow> rw_pc \<Rightarrow> rwlock \<Rightarrow> rwlock" where
  "rw_at t p s = s\<lparr>rw_pc := (rw_pc s)(t := p)\<rparr>"

definition rwlock_init :: rwlock where
  "rwlock_init = \<lparr>rw_write = False, rw_read = 0, rw_pc = (\<lambda>t. Outside)\<rparr>"

inductive rw_step :: "rwlock \<Rightarrow> rwlock \<Rightarrow> bool" where
  rlock: "rw_pc s t = Outside \<Longrightarrow> rw_step s (rw_at t R_Wait s)"
| r_spin: "rw_pc s t = R_Wait \<Longrightarrow> rw_write s \<Longrightarrow> rw_step s s"
| r_go: "rw_pc s t = R_Wait \<Longrightarrow> \<not> rw_write s \<Longrightarrow> rw_step s (rw_at t R_Inc s)"
| r_inc: "rw_pc s t = R_Inc \<Longrightarrow> rw_step s (rw_at t R_Check (s\<lparr>rw_read := rw_read s + 1\<rparr>))"
| r_fail: "rw_pc s t = R_Check \<Longrightarrow> rw_write s \<Longrightarrow> rw_step s (rw_at t R_Back s)"
| r_enter: "rw_pc s t = R_Check \<Longrightarrow> \<not> rw_write s \<Longrightarrow> rw_step s (rw_at t R_In s)"
| r_back: "rw_pc s t = R_Back \<Longrightarrow> rw_step s (rw_at t R_Wait (s\<lparr>rw_read := rw_read s - 1\<rparr>))"
| runlock: "rw_pc s t = R_In \<Longrightarrow> rw_step s (rw_at t Outside (s\<lparr>rw_read := rw_read s - 1\<rparr>))"
| wlock: "rw_pc s t = Outside \<Longrightarrow> rw_step s (rw_at t W_Cas s)"
| w_spin: "rw_pc s t = W_Cas \<Longrightarrow> rw_write s \<Longrightarrow> rw_step s s"
| w_cas: "rw_pc s t = W_Cas \<Longrightarrow> \<not> rw_write s \<Longrightarrow> rw_step s (rw_at t W_Wait (s\<lparr>rw_write := True\<rparr>))"
| w_wait: "rw_pc s t = W_Wait \<Longrightarrow> rw_read s \<noteq> 0 \<Longrightarrow> rw_step s s"
| w_enter: "rw_pc s t = W_Wait \<Longrightarrow> rw_read s = 0 \<Longrightarrow> rw_step s (rw_at t W_In s)"
| wunlock: "rw_pc s t = W_In \<Longrightarrow> rw_step s (rw_at t Outside (s\<lparr>rw_write := False\<rparr>))"

inductive rw_reachable :: "rwlock \<Rightarrow> bool" where
  rw_start: "rw_reachable rwlock_init"
| rw_next: "rw_reachable s \<Longrightarrow> rw_step s s' \<Longrightarrow> rw_reachable s'"

inductive_cases rw_stepE: "rw_step s s'"

lemma rw_at_simps [simp]:
  "rw_pc (rw_at t p s) = (rw_pc s)(t := p)" "rw_write (rw_at t p s) = rw_write s" "rw_read (rw_at t p s) = rw_read s"
  by (simp_all add: rw_at_def)

definition counted :: "rw_pc \<Rightarrow> bool" where
  "counted p \<longleftrightarrow> p = R_Check \<or> p = R_Back \<or> p = R_In"

definition writing :: "rw_pc \<Rightarrow> bool" where
  "writing p \<longleftrightarrow> p = W_Wait \<or> p = W_In"

text \<open>The threads at the places with a property.\<close>

definition threads_at :: "(rw_pc \<Rightarrow> bool) \<Rightarrow> rwlock \<Rightarrow> nat set" where
  "threads_at P s = {t. P (rw_pc s t)}"

abbreviation readers :: "rwlock \<Rightarrow> nat set" where "readers s \<equiv> threads_at counted s"
abbreviation writers :: "rwlock \<Rightarrow> nat set" where "writers s \<equiv> threads_at writing s"

text \<open>The counter is the number of readers that have incremented it, the flag belongs to one writer,
  and a writer that is inside has no reader beside it.\<close>

definition rw_inv :: "rwlock \<Rightarrow> bool" where
  "rw_inv s \<longleftrightarrow> finite (readers s) \<and> rw_read s = int (card (readers s)) \<and>
     (if rw_write s then \<exists>t. writers s = {t} else writers s = {}) \<and>
     (threads_at (\<lambda>p. p = W_In) s = {} \<or> threads_at (\<lambda>p. p = R_In) s = {})"

text \<open>How a step of one thread changes these sets.\<close>

lemma threads_at_move [simp]:
  "threads_at P (rw_at t p s) = (if P p then insert t (threads_at P s) else threads_at P s - {t})"
  by (auto simp: threads_at_def rw_at_def)

lemma threads_at_upd [simp]:
  "threads_at P (s\<lparr>rw_read := n\<rparr>) = threads_at P s" "threads_at P (s\<lparr>rw_write := b\<rparr>) = threads_at P s"
  by (simp_all add: threads_at_def)

lemma threads_at_iff: "t \<in> threads_at P s \<longleftrightarrow> P (rw_pc s t)"
  by (simp add: threads_at_def)

lemma pc_sets:
  "rw_pc s t = p \<Longrightarrow> \<not> P p \<Longrightarrow> threads_at P s - {t} = threads_at P s"
  "rw_pc s t = p \<Longrightarrow> P p \<Longrightarrow> insert t (threads_at P s) = threads_at P s"
  by (auto simp: threads_at_def)

lemmas rw_simps = rw_inv_def counted_def writing_def pc_sets

lemma card_leave:
  "rw_pc s t = p \<Longrightarrow> counted p \<Longrightarrow> finite (readers s) \<Longrightarrow> int (card (readers s - {t})) = int (card (readers s)) - 1"
  using card_Suc_Diff1 [of "readers s" t] by (auto simp: threads_at_iff)

lemma card_enter:
  "rw_pc s t = p \<Longrightarrow> \<not> counted p \<Longrightarrow> finite (readers s) \<Longrightarrow> int (card (insert t (readers s))) = int (card (readers s)) + 1"
  by (auto simp: threads_at_iff)

lemma rw_inv_step:
  assumes "rw_step s s'" "rw_inv s" shows "rw_inv s'"
  using assms(1)
proof cases
  case (r_inc t)
  then show ?thesis using assms(2) card_enter [OF r_inc(2)] by (auto simp: rw_simps)
next
  case (r_enter t)
  then have "threads_at (\<lambda>p. p = W_In) s = {}" using assms(2) by (auto simp: rw_inv_def threads_at_def writing_def)
  then show ?thesis using r_enter assms(2) by (simp add: rw_simps)
next
  case (r_back t)
  then show ?thesis using assms(2) card_leave [OF r_back(2)] by (auto simp: rw_simps)
next
  case (runlock t)
  then show ?thesis using assms(2) card_leave [OF runlock(2)] by (auto simp: rw_simps)
next
  case (w_enter t)
  then have "readers s = {}" using assms(2) by (auto simp: rw_inv_def)
  then have "threads_at (\<lambda>p. p = R_In) s = {}" by (auto simp: threads_at_def counted_def)
  moreover have "t \<in> writers s" using w_enter(2) by (simp add: threads_at_iff writing_def)
  then have "rw_write s" using assms(2) by (auto simp: rw_inv_def split: if_splits)
  ultimately show ?thesis using w_enter assms(2) by (simp add: rw_simps)
next
  case (wunlock t)
  then have "t \<in> writers s" by (simp add: threads_at_iff writing_def)
  then have "writers s = {t}" using assms(2) by (auto simp: rw_inv_def split: if_splits)
  moreover have "threads_at (\<lambda>p. p = W_In) s \<subseteq> writers s" by (auto simp: threads_at_def writing_def)
  ultimately have "writers s - {t} = {}" "threads_at (\<lambda>p. p = W_In) s - {t} = {}" by auto
  then show ?thesis using wunlock assms(2) by (simp add: rw_simps)
qed (use assms(2) in \<open>auto simp: rw_simps split: if_splits\<close>)

lemma rw_inv_reachable: "rw_reachable s \<Longrightarrow> rw_inv s"
proof (induction rule: rw_reachable.induct)
  case rw_start
  show ?case by (simp add: rw_inv_def rwlock_init_def threads_at_def counted_def writing_def)
qed (rule rw_inv_step)

subsection \<open>Guarantees\<close>

text \<open>C23. The spinlock: in every interleaving of lock, trylock and unlock at most one thread holds the
  lock, and the flag is set exactly while one does.\<close>

theorem spinlock_exclusive:
  assumes "spin_reachable s"
  shows "(sl_lock s \<longleftrightarrow> (\<exists>t. sl_pc s t = Holds)) \<and> (\<forall>t u. sl_pc s t = Holds \<and> sl_pc s u = Holds \<longrightarrow> t = u)"
  using spin_inv_reachable [OF assms] by (auto simp: spin_inv_def)

definition demo_spin :: spinlock where
  "demo_spin = sl_at 1 Spin (sl_at 1 Exchange (sl_at 0 Holds (sl_at 0 Exchange spinlock_init\<lparr>sl_lock := True\<rparr>)))"

lemma demo_spin_reachable: "spin_reachable demo_spin"
proof -
  let ?s1 = "sl_at 0 Exchange spinlock_init"
  let ?s2 = "sl_at 0 Holds (?s1\<lparr>sl_lock := True\<rparr>)"
  let ?s3 = "sl_at 1 Exchange ?s2"
  have 1: "spin_reachable ?s1" by (rule spin_next [OF spin_start spin_step.lock]) (simp add: spinlock_init_def)
  have 2: "spin_reachable ?s2" by (rule spin_next [OF 1 spin_step.exchange_free]) (simp_all add: spinlock_init_def)
  have 3: "spin_reachable ?s3" by (rule spin_next [OF 2 spin_step.lock]) (simp add: spinlock_init_def)
  have "spin_reachable (sl_at 1 Spin (?s3\<lparr>sl_lock := True\<rparr>))"
    by (rule spin_next [OF 3 spin_step.exchange_taken]) simp_all
  then show ?thesis by (simp add: demo_spin_def sl_at_def)
qed

theorem spinlock_exclusive_witness: "sl_lock demo_spin \<and> sl_pc demo_spin 1 \<noteq> Holds"
proof -
  have "sl_pc demo_spin 0 = Holds" "sl_pc demo_spin 1 = Spin" by (simp_all add: demo_spin_def)
  with spinlock_exclusive [OF demo_spin_reachable] show ?thesis by auto
qed

text \<open>C24. The reader-writer lock: in every interleaving a writer inside excludes every reader and
  every other writer, although readers announce themselves and back off without holding any
  lock; the counter is the number of readers that have announced themselves, so that both
  fields are back to zero whenever no thread is in the code of the lock.\<close>

theorem rwlock_exclusive:
  assumes "rw_reachable s"
  shows "(\<forall>t u. rw_pc s t = W_In \<longrightarrow> rw_pc s u \<noteq> R_In \<and> (rw_pc s u = W_In \<longrightarrow> t = u)) \<and>
    rw_read s = int (card {t. rw_pc s t \<in> {R_Check, R_Back, R_In}}) \<and>
    ((\<forall>t. rw_pc s t = Outside) \<longrightarrow> \<not> rw_write s \<and> rw_read s = 0)"
proof -
  note inv = rw_inv_reachable [OF assms]
  have "{t. rw_pc s t \<in> {R_Check, R_Back, R_In}} = readers s" by (auto simp: threads_at_def counted_def)
  then have count: "rw_read s = int (card {t. rw_pc s t \<in> {R_Check, R_Back, R_In}})" using inv by (simp add: rw_inv_def)
  have no_reader: "rw_pc s u \<noteq> R_In" if "rw_pc s t = W_In" for t u
  proof -
    have "threads_at (\<lambda>p. p = W_In) s \<noteq> {}" using that by (auto simp: threads_at_def)
    then have "threads_at (\<lambda>p. p = R_In) s = {}" using inv by (auto simp: rw_inv_def)
    then show ?thesis by (auto simp: threads_at_def)
  qed
  have one_writer: "t = u" if "rw_pc s t = W_In" "rw_pc s u = W_In" for t u
  proof -
    have "t \<in> writers s" "u \<in> writers s" using that by (auto simp: threads_at_iff writing_def)
    then show ?thesis using inv by (auto simp: rw_inv_def split: if_splits)
  qed
  have quiet: "\<not> rw_write s \<and> rw_read s = 0" if "\<forall>t. rw_pc s t = Outside"
  proof -
    have "readers s = {}" "writers s = {}" using that by (auto simp: threads_at_def counted_def writing_def)
    then show ?thesis using inv by (auto simp: rw_inv_def split: if_splits)
  qed
  show ?thesis
  proof (intro conjI count)
    show "\<forall>t u. rw_pc s t = W_In \<longrightarrow> rw_pc s u \<noteq> R_In \<and> (rw_pc s u = W_In \<longrightarrow> t = u)"
      using no_reader one_writer by blast
    show "(\<forall>t. rw_pc s t = Outside) \<longrightarrow> \<not> rw_write s \<and> rw_read s = 0" using quiet by (rule impI)
  qed
qed

text \<open>A reader that saw the flag clear announces itself while a writer is already inside.\<close>

definition demo_rw :: rwlock where
  "demo_rw = rw_at 2 R_Check (rw_at 1 W_In (rw_at 2 R_Inc (rwlock_init\<lparr>rw_write := True, rw_read := 1\<rparr>)))"

lemma demo_rw_reachable: "rw_reachable demo_rw"
proof -
  let ?s1 = "rw_at 2 R_Wait rwlock_init"
  let ?s2 = "rw_at 2 R_Inc ?s1"
  let ?s3 = "rw_at 1 W_Cas ?s2"
  let ?s4 = "rw_at 1 W_Wait (?s3\<lparr>rw_write := True\<rparr>)"
  let ?s5 = "rw_at 1 W_In ?s4"
  have 1: "rw_reachable ?s1" by (rule rw_next [OF rw_start rw_step.rlock]) (simp add: rwlock_init_def)
  have 2: "rw_reachable ?s2" by (rule rw_next [OF 1 rw_step.r_go]) (simp_all add: rwlock_init_def)
  have 3: "rw_reachable ?s3" by (rule rw_next [OF 2 rw_step.wlock]) (simp add: rwlock_init_def)
  have 4: "rw_reachable ?s4" by (rule rw_next [OF 3 rw_step.w_cas]) (simp_all add: rwlock_init_def)
  have 5: "rw_reachable ?s5" by (rule rw_next [OF 4 rw_step.w_enter]) (simp_all add: rwlock_init_def)
  have "rw_reachable (rw_at 2 R_Check (?s5\<lparr>rw_read := rw_read ?s5 + 1\<rparr>))" by (rule rw_next [OF 5 rw_step.r_inc]) simp
  moreover have "rw_at 2 R_Check (?s5\<lparr>rw_read := rw_read ?s5 + 1\<rparr>) = demo_rw"
    by (simp add: demo_rw_def rwlock_init_def rw_at_def fun_upd_twist)
  ultimately show ?thesis by simp
qed

theorem rwlock_exclusive_witness:
  "rw_reachable demo_rw \<and> rw_pc demo_rw 1 = W_In \<and> rw_pc demo_rw 2 = R_Check \<and> rw_write demo_rw \<and>
    (\<forall>u. rw_pc demo_rw u \<noteq> R_In) \<and> rw_read demo_rw = int (card {2 :: nat})"
proof -
  have pc: "rw_pc demo_rw 1 = W_In" "rw_pc demo_rw 2 = R_Check" "rw_write demo_rw"
    by (simp_all add: demo_rw_def)
  have "{t. rw_pc demo_rw t \<in> {R_Check, R_Back, R_In}} = {2}" by (auto simp: demo_rw_def rwlock_init_def)
  then show ?thesis using rwlock_exclusive [OF demo_rw_reachable] demo_rw_reachable pc by metis
qed

end
