(* ===== verification/Module.thy ===== *)
theory Module
  imports C_String "HOL-Library.Sublist"
begin

text \<open>
  The cache of service modules, \<^verbatim>\<open>skynet_module.c\<close>: the search for a module along the
  configured path, the lookup of its functions and the table of at most 32 modules. The dynamic
  linker is a parameter: \<open>dlopen\<close> gives the handle of a file, \<open>dlsym\<close> the address of a
  symbol of an opened file. \<open>None\<close> as the result of a C routine is an access outside an array.
\<close>

subsection \<open>The search path\<close>

datatype found = Opened nat | Not_Found | Invalid_Path

text \<open>
  \<^verbatim>\<open>_try_open\<close>: each round skips semicolons, copies the next template into
  \<^verbatim>\<open>tmp\<close>, an array of \<open>sz\<close> characters, with the name in place of its first question mark,
  and opens that file. A template without a question mark ends the process.
\<close>

function try_open_loop :: "(string \<Rightarrow> nat option) \<Rightarrow> nat \<Rightarrow> string \<Rightarrow> string \<Rightarrow> found option" where
  "try_open_loop dlopen sz name path =
     (let p = dropWhile (\<lambda>c. c = CHR '';'') path
      in if p = [] then Some Not_Found
         else
           let seg = takeWhile (\<lambda>c. c \<noteq> CHR '';'') p;
               pre = takeWhile (\<lambda>c. c \<noteq> CHR ''?'') seg
           in do {
             tmp1 \<leftarrow> store (replicate sz (CHR 0x00)) 0 pre;
             tmp2 \<leftarrow> store tmp1 (length pre) name;
             if length pre < length seg then do {
               tmp3 \<leftarrow> store tmp2 (length pre + length name) (drop (length pre + 1) seg);
               c_assert (CHR 0x00 \<in> set tmp3);
               (case dlopen (c_string tmp3) of
                  Some dl \<Rightarrow> Some (Opened dl)
                | None \<Rightarrow> try_open_loop dlopen sz name (dropWhile (\<lambda>c. c \<noteq> CHR '';'') p))
             }
             else Some Invalid_Path
           })"
  by pat_completeness auto
termination
proof (relation "measure (\<lambda>(_, _, _, path). length path)")
  fix path p seg :: string
  assume p: "p = dropWhile (\<lambda>c. c = CHR '';'') path" "p \<noteq> []"
  have "hd p \<noteq> CHR '';''" using p hd_dropWhile [of "\<lambda>c. c = CHR '';''" path] by auto
  then have "length (dropWhile (\<lambda>c. c \<noteq> CHR '';'') p) < length p"
    using p(2) by (cases p) (auto intro: le_less_trans [OF length_dropWhile_le])
  also have "length p \<le> length path" using p(1) by (simp add: length_dropWhile_le)
  finally show "\<And>dlopen sz name. ((dlopen, sz, name, dropWhile (\<lambda>c. c \<noteq> CHR '';'') p), dlopen, sz, name, path)
      \<in> measure (\<lambda>(_ :: string \<Rightarrow> nat option, _ :: nat, _ :: string, path). length path)" by simp
qed simp

declare try_open_loop.simps [simp del]

definition try_open :: "(string \<Rightarrow> nat option) \<Rightarrow> string \<Rightarrow> string \<Rightarrow> found option" where
  "try_open dlopen path name = try_open_loop dlopen (length path + length name) name path"

subsection \<open>The table of modules\<close>

record skynet_module =
  md_name :: string
  md_module :: nat
  md_create :: "nat option"
  md_init :: "nat option"
  md_release :: "nat option"
  md_signal :: "nat option"

text \<open>The first \<^verbatim>\<open>count\<close> elements of the array \<^verbatim>\<open>m\<close>; the others are never read.\<close>

record modules =
  mods :: "skynet_module list"
  mods_path :: string

definition MAX_MODULE_TYPE :: nat where "MAX_MODULE_TYPE = 32"

definition skynet_module_init :: "string \<Rightarrow> modules" where
  "skynet_module_init path = \<lparr>mods = [], mods_path = path\<rparr>"

primrec query_from :: "string \<Rightarrow> nat \<Rightarrow> skynet_module list \<Rightarrow> nat option" where
  "query_from name i [] = None"
| "query_from name i (m # ms) = (if md_name m = name then Some i else query_from name (i + 1) ms)"

definition query_name :: "string \<Rightarrow> modules \<Rightarrow> nat option" where
  "query_name name M = query_from name 0 (mods M)"

text \<open>The symbol is what follows the last dot of the file name and the suffix together.\<close>

definition get_api :: "(nat \<Rightarrow> string \<Rightarrow> nat option) \<Rightarrow> skynet_module \<Rightarrow> string \<Rightarrow> nat option" where
  "get_api dlsym m api =
     dlsym (md_module m) (rev (takeWhile (\<lambda>c. c \<noteq> CHR ''.'') (rev (md_name m @ api))))"

definition open_sym :: "(nat \<Rightarrow> string \<Rightarrow> nat option) \<Rightarrow> skynet_module \<Rightarrow> bool \<times> skynet_module" where
  "open_sym dlsym m =
     (let m1 = m\<lparr>md_create := get_api dlsym m ''_create'', md_init := get_api dlsym m ''_init'',
                md_release := get_api dlsym m ''_release'', md_signal := get_api dlsym m ''_signal''\<rparr>
      in (md_init m1 = None, m1))"

text \<open>
  \<^verbatim>\<open>skynet_module_query\<close>: the first lookup reads the table without the lock, in a state
  \<open>M0\<close> that may be older than the state \<open>M\<close> under the lock. \<open>Exits\<close> is the call of
  \<^verbatim>\<open>exit\<close> for an invalid path.
\<close>

datatype query = Exits | Answers "nat option" modules

definition skynet_module_query ::
    "(string \<Rightarrow> nat option) \<Rightarrow> (nat \<Rightarrow> string \<Rightarrow> nat option) \<Rightarrow> string \<Rightarrow> modules \<Rightarrow> modules \<Rightarrow> query option" where
  "skynet_module_query dlopen dlsym name M0 M =
     (case query_name name M0 of
        Some i \<Rightarrow> Some (Answers (Some i) M)
      | None \<Rightarrow>
          (case query_name name M of
             Some i \<Rightarrow> Some (Answers (Some i) M)
           | None \<Rightarrow>
               if length (mods M) < MAX_MODULE_TYPE then
                 (case try_open dlopen (mods_path M) name of
                    None \<Rightarrow> None
                  | Some Invalid_Path \<Rightarrow> Some Exits
                  | Some Not_Found \<Rightarrow> Some (Answers None M)
                  | Some (Opened dl) \<Rightarrow>
                      let (failed, m) = open_sym dlsym \<lparr>md_name = name, md_module = dl, md_create = None,
                             md_init = None, md_release = None, md_signal = None\<rparr>
                      in if failed then Some (Answers None M)
                         else Some (Answers (Some (length (mods M))) (M\<lparr>mods := mods M @ [m]\<rparr>)))
               else Some (Answers None M)))"

text \<open>The calls into a module; \<open>create\<close> stands for the module's code at an address.\<close>

definition skynet_module_instance_create :: "(nat \<Rightarrow> u64) \<Rightarrow> skynet_module \<Rightarrow> u64" where
  "skynet_module_instance_create create m = (case md_create m of Some f \<Rightarrow> create f | None \<Rightarrow> - 1)"

definition skynet_module_instance_init :: "(nat \<Rightarrow> u64 \<Rightarrow> string \<Rightarrow> int) \<Rightarrow> skynet_module \<Rightarrow> u64 \<Rightarrow> string \<Rightarrow> int option" where
  "skynet_module_instance_init init m inst parm = (case md_init m of None \<Rightarrow> None | Some f \<Rightarrow> Some (init f inst parm))"

definition skynet_module_instance_release :: "skynet_module \<Rightarrow> u64 \<Rightarrow> (nat \<times> u64) list" where
  "skynet_module_instance_release m inst = (case md_release m of None \<Rightarrow> [] | Some f \<Rightarrow> [(f, inst)])"

definition skynet_module_instance_signal :: "skynet_module \<Rightarrow> u64 \<Rightarrow> int \<Rightarrow> (nat \<times> u64 \<times> int) list" where
  "skynet_module_instance_signal m inst sg = (case md_signal m of None \<Rightarrow> [] | Some f \<Rightarrow> [(f, inst, sg)])"

subsection \<open>The path as a list of templates\<close>

function templates :: "string \<Rightarrow> string list" where
  "templates path =
     (let p = dropWhile (\<lambda>c. c = CHR '';'') path
      in if p = [] then []
         else takeWhile (\<lambda>c. c \<noteq> CHR '';'') p # templates (dropWhile (\<lambda>c. c \<noteq> CHR '';'') p))"
  by pat_completeness auto
termination
proof (relation "measure length")
  fix path p :: string
  assume p: "p = dropWhile (\<lambda>c. c = CHR '';'') path" "p \<noteq> []"
  have "hd p \<noteq> CHR '';''" using p hd_dropWhile [of "\<lambda>c. c = CHR '';''" path] by auto
  then have "length (dropWhile (\<lambda>c. c \<noteq> CHR '';'') p) < length p"
    using p(2) by (cases p) (auto intro: le_less_trans [OF length_dropWhile_le])
  also have "length p \<le> length path" using p(1) by (simp add: length_dropWhile_le)
  finally show "(dropWhile (\<lambda>c. c \<noteq> CHR '';'') p, path) \<in> measure length" by simp
qed simp

declare templates.simps [simp del]

fun file_name :: "string \<Rightarrow> string \<Rightarrow> string" where
  "file_name name [] = []"
| "file_name name (c # cs) = (if c = CHR ''?'' then name @ cs else c # file_name name cs)"

primrec search :: "(string \<Rightarrow> nat option) \<Rightarrow> string \<Rightarrow> string list \<Rightarrow> found" where
  "search dlopen name [] = Not_Found"
| "search dlopen name (t # ts) =
     (if CHR ''?'' \<notin> set t then Invalid_Path
      else (case dlopen (file_name name t) of Some dl \<Rightarrow> Opened dl | None \<Rightarrow> search dlopen name ts))"

lemma file_name_split:
  "CHR ''?'' \<in> set t \<Longrightarrow>
   file_name name t = takeWhile (\<lambda>c. c \<noteq> CHR ''?'') t @ name @ drop (length (takeWhile (\<lambda>c. c \<noteq> CHR ''?'') t) + 1) t"
  by (induction t) auto

lemma c_string_padded: "CHR 0x00 \<notin> set s \<Longrightarrow> 0 < n \<Longrightarrow> c_string (s @ replicate n (CHR 0x00)) = s"
  by (cases n) (auto simp: c_string_def takeWhile_append)

lemma takeWhile_short: "length (takeWhile P xs) < length xs \<longleftrightarrow> (\<exists>x \<in> set xs. \<not> P x)"
  by (induction xs) auto

lemma template_le: "length (takeWhile P (dropWhile Q xs)) \<le> length xs"
  using length_takeWhile_le [of P "dropWhile Q xs"] length_dropWhile_le [of Q xs] by linarith

text \<open>One round of the loop fits its array and opens the file that the template names.\<close>

lemma store_template:
  fixes seg name :: string
  defines "pre \<equiv> takeWhile (\<lambda>c. c \<noteq> CHR ''?'') seg"
  assumes "length seg + length name \<le> sz"
  shows "store (replicate sz (CHR 0x00)) 0 pre = Some (pre @ replicate (sz - length pre) (CHR 0x00))"
    "store (pre @ replicate (sz - length pre) (CHR 0x00)) (length pre) name =
       Some (pre @ name @ replicate (sz - length pre - length name) (CHR 0x00))"
    "length pre < length seg \<Longrightarrow>
       store (pre @ name @ replicate (sz - length pre - length name) (CHR 0x00)) (length pre + length name) (drop (length pre + 1) seg) =
       Some (file_name name seg @ replicate (sz + 1 - length seg - length name) (CHR 0x00))"
proof -
  have le: "length pre \<le> length seg" by (simp add: pre_def length_takeWhile_le)
  show "store (replicate sz (CHR 0x00)) 0 pre = Some (pre @ replicate (sz - length pre) (CHR 0x00))"
    using le assms(2) by (simp add: store_def)
  show "store (pre @ replicate (sz - length pre) (CHR 0x00)) (length pre) name =
       Some (pre @ name @ replicate (sz - length pre - length name) (CHR 0x00))"
    using le assms(2) by (simp add: store_def)
  assume short: "length pre < length seg"
  then have "CHR ''?'' \<in> set seg" unfolding pre_def takeWhile_short by auto
  from file_name_split [OF this, of name] short assms(2)
  show "store (pre @ name @ replicate (sz - length pre - length name) (CHR 0x00)) (length pre + length name) (drop (length pre + 1) seg) =
       Some (file_name name seg @ replicate (sz + 1 - length seg - length name) (CHR 0x00))"
    by (auto simp: store_def pre_def [symmetric] add.commute)
qed

lemma file_name_length: "CHR ''?'' \<in> set t \<Longrightarrow> length (file_name name t) + 1 = length t + length name"
  by (induction t) auto

lemma file_name_set: "set (file_name name t) \<subseteq> set name \<union> set t"
  by (induction t) auto

lemma try_open_round:
  assumes p: "p = dropWhile (\<lambda>c. c = CHR '';'') path" "p \<noteq> []" and seg: "seg = takeWhile (\<lambda>c. c \<noteq> CHR '';'') p"
    and fit: "length seg + length name \<le> sz" and nul: "CHR 0x00 \<notin> set seg" "CHR 0x00 \<notin> set name"
  shows "try_open_loop dlopen sz name path =
    (if CHR ''?'' \<notin> set seg then Some Invalid_Path
     else (case dlopen (file_name name seg) of Some dl \<Rightarrow> Some (Opened dl)
           | None \<Rightarrow> try_open_loop dlopen sz name (dropWhile (\<lambda>c. c \<noteq> CHR '';'') p)))"
proof -
  define pre where "pre = takeWhile (\<lambda>c. c \<noteq> CHR ''?'') seg"
  note st = store_template [OF fit, folded pre_def]
  have short: "length pre < length seg \<longleftrightarrow> CHR ''?'' \<in> set seg" unfolding pre_def takeWhile_short by blast
  have pos: "0 < sz + 1 - length seg - length name" using fit by linarith
  have "CHR 0x00 \<notin> set (file_name name seg)" using file_name_set [of name seg] nul by blast
  note cs = c_string_padded [OF this pos]
  have "try_open_loop dlopen sz name path =
    (do { tmp1 \<leftarrow> store (replicate sz (CHR 0x00)) 0 pre;
          tmp2 \<leftarrow> store tmp1 (length pre) name;
          if length pre < length seg then do {
            tmp3 \<leftarrow> store tmp2 (length pre + length name) (drop (length pre + 1) seg);
            c_assert (CHR 0x00 \<in> set tmp3);
            (case dlopen (c_string tmp3) of Some dl \<Rightarrow> Some (Opened dl)
             | None \<Rightarrow> try_open_loop dlopen sz name (dropWhile (\<lambda>c. c \<noteq> CHR '';'') p))
          } else Some Invalid_Path })"
    using p(2) unfolding try_open_loop.simps [of _ _ _ path] p(1) [symmetric] seg [symmetric] Let_def pre_def by simp
  then show ?thesis using st cs pos short by auto
qed

lemma try_open_loop_search:
  assumes "length path + length name \<le> sz" "CHR 0x00 \<notin> set path" "CHR 0x00 \<notin> set name"
  shows "try_open_loop dlopen sz name path = Some (search dlopen name (templates path))"
  using assms(1,2)
proof (induction path rule: templates.induct)
  case (1 path)
  define p where "p = dropWhile (\<lambda>c. c = CHR '';'') path"
  define seg where "seg = takeWhile (\<lambda>c. c \<noteq> CHR '';'') p"
  define rest where "rest = dropWhile (\<lambda>c. c \<noteq> CHR '';'') p"
  show ?case
  proof (cases "p = []")
    case True
    then show ?thesis by (simp add: p_def try_open_loop.simps [of _ _ _ path] templates.simps [of path])
  next
    case False
    have t: "templates path = seg # templates rest"
      using False unfolding templates.simps [of path] p_def [symmetric] Let_def seg_def rest_def by simp
    have sub: "set p \<subseteq> set path" "set seg \<subseteq> set p" "set rest \<subseteq> set p"
      unfolding p_def seg_def rest_def by (auto dest: set_takeWhileD set_dropWhileD)
    have le: "length p \<le> length path" "length seg \<le> length p" "length rest \<le> length p"
      unfolding p_def seg_def rest_def by (rule length_dropWhile_le length_takeWhile_le)+
    have "try_open_loop dlopen sz name rest = Some (search dlopen name (templates rest))"
      using 1(1) [OF p_def False] 1(2,3) le sub unfolding rest_def [symmetric] by auto
    moreover have "length seg + length name \<le> sz" "CHR 0x00 \<notin> set seg" using 1(2,3) le sub by auto
    note try_open_round [OF p_def False seg_def this assms(3), folded rest_def]
    ultimately show ?thesis by (simp add: t split: option.split)
  qed
qed

subsection \<open>The table\<close>

definition mods_ok :: "modules \<Rightarrow> bool" where
  "mods_ok M \<longleftrightarrow> length (mods M) \<le> MAX_MODULE_TYPE \<and> distinct (map md_name (mods M)) \<and>
     (\<forall>m \<in> set (mods M). md_init m \<noteq> None)"

lemma query_from_Some:
  "query_from name k ms = Some i \<Longrightarrow> k \<le> i \<and> i - k < length ms \<and> md_name (ms ! (i - k)) = name"
proof (induction ms arbitrary: k)
  case (Cons m ms)
  show ?case
  proof (cases "md_name m = name")
    case False
    then have "Suc k \<le> i \<and> i - Suc k < length ms \<and> md_name (ms ! (i - Suc k)) = name"
      using Cons.IH [of "Suc k"] Cons.prems by simp
    moreover from this have "i - k = Suc (i - Suc k)" by linarith
    ultimately show ?thesis by simp
  qed (use Cons.prems in simp)
qed simp

lemma query_from_None: "query_from name k ms = None \<longleftrightarrow> name \<notin> md_name ` set ms"
  by (induction ms arbitrary: k) auto

lemma query_from_append:
  "query_from name k (ms @ ns) = (case query_from name k ms of Some i \<Rightarrow> Some i | None \<Rightarrow> query_from name (k + length ms) ns)"
  by (induction ms arbitrary: k) (auto split: option.splits)

lemma query_name_grow:
  "query_name name M = Some i \<Longrightarrow> prefix (mods M) (mods N) \<Longrightarrow> query_name name N = Some i"
  by (auto simp: query_name_def query_from_append elim!: prefixE)

lemma query_name_Some:
  "query_name name M = Some i \<Longrightarrow> i < length (mods M) \<and> md_name (mods M ! i) = name"
  using query_from_Some [of name 0 "mods M" i] by (simp add: query_name_def)

lemma get_api_cong: "get_api dlsym (m\<lparr>md_create := a, md_init := b, md_release := c, md_signal := d\<rparr>) = get_api dlsym m"
  by (rule ext) (simp add: get_api_def)

text \<open>The query in one formula: what it answers and the table it leaves.\<close>

lemma query_cases:
  assumes "skynet_module_query dlopen dlsym name M0 M = Some (Answers r M')" "prefix (mods M0) (mods M)"
  obtains i where "query_name name M = Some i" "r = Some i" "M' = M"
  | "query_name name M = None" "r = None" "M' = M"
  | m where "query_name name M = None" "r = Some (length (mods M))" "M' = M\<lparr>mods := mods M @ [m]\<rparr>"
      "length (mods M) < MAX_MODULE_TYPE" "md_name m = name" "md_init m \<noteq> None"
proof (cases "query_name name M")
  case None
  then have "query_name name M0 = None" using query_name_grow [OF _ assms(2)] by (cases "query_name name M0") auto
  define m where "m dl = snd (open_sym dlsym \<lparr>md_name = name, md_module = dl, md_create = None,
     md_init = None, md_release = None, md_signal = None\<rparr>)" for dl
  have m: "open_sym dlsym \<lparr>md_name = name, md_module = dl, md_create = None,
     md_init = None, md_release = None, md_signal = None\<rparr> = (md_init (m dl) = None, m dl)" "md_name (m dl) = name" for dl
    by (simp_all add: m_def open_sym_def Let_def)
  have "r = None \<and> M' = M \<or> (\<exists>dl. length (mods M) < MAX_MODULE_TYPE \<and> md_init (m dl) \<noteq> None \<and>
      r = Some (length (mods M)) \<and> M' = M\<lparr>mods := mods M @ [m dl]\<rparr>)"
    using assms(1) None \<open>query_name name M0 = None\<close>
    by (auto simp: skynet_module_query_def m(1) split: if_splits option.splits found.splits)
  then show thesis using that(2) that(3) None m(2) by blast
next
  case (Some i)
  then show thesis
    using that(1) assms(1) query_name_grow [OF _ assms(2)]
    by (fastforce simp: skynet_module_query_def split: option.splits)
qed

subsection \<open>Guarantees\<close>

text \<open>The search for a module is the search of the reference definition: the templates of the path
  in order, each with the name in place of its first question mark, until one opens; and it
  stays within its buffer for every path and every name.\<close>

theorem module_search:
  assumes "CHR 0x00 \<notin> set path" "CHR 0x00 \<notin> set name"
  shows "try_open dlopen path name = Some (search dlopen name (templates path))"
  using try_open_loop_search [OF order_refl assms] by (simp add: try_open_def)

theorem module_search_witness:
  "try_open (\<lambda>f. if f = ''b/gate.so'' then Some 7 else None) '';a/?.so;b/?.so'' ''gate'' = Some (Opened 7)"
proof -
  have "templates '';a/?.so;b/?.so'' = [''a/?.so'', ''b/?.so'']" by (simp add: templates.simps)
  then show ?thesis by (subst module_search) simp_all
qed

text \<open>The table of modules: a query keeps the table well formed (at most 32 modules with different
  names, each with an initialisation function), never moves a module that is in it, and answers
  with a module of that name; from then on every query for the name gives the same module,
  whatever the dynamic linker would say, even when its unlocked first lookup is out of date.\<close>

theorem module_query:
  assumes "mods_ok M" "prefix (mods M0) (mods M)" "skynet_module_query dlopen dlsym name M0 M = Some (Answers r M')"
  shows "mods_ok M' \<and> prefix (mods M) (mods M') \<and>
    (case r of None \<Rightarrow> M' = M \<and> query_name name M = None
     | Some i \<Rightarrow> i < length (mods M') \<and> md_name (mods M' ! i) = name \<and>
         (\<forall>op sym N0 N. prefix (mods M') (mods N) \<and> prefix (mods N0) (mods N) \<longrightarrow>
            skynet_module_query op sym name N0 N = Some (Answers (Some i) N)))"
  using assms(3,2)
proof (cases rule: query_cases)
  have later: "skynet_module_query op sym name N0 N = Some (Answers (Some i) N)"
    if n: "query_name name M' = Some i" "prefix (mods M') (mods N)" "prefix (mods N0) (mods N)" for op sym N0 N i
    using query_name_grow [OF n(1,2)] query_name_grow [OF _ n(3)]
    by (auto simp: skynet_module_query_def split: option.splits)
  {
    case (1 i)
    then show ?thesis using later [of i] assms(1) query_name_Some [of name M i] by auto
  next
    case 2
    then show ?thesis using assms(1) by simp
  next
    case (3 m)
    have name: "query_name name M' = Some (length (mods M))"
      using 3(1,3,5) by (simp add: query_name_def query_from_append)
    have "name \<notin> md_name ` set (mods M)" using 3(1) by (simp add: query_name_def query_from_None)
    then have "mods_ok M'" using assms(1) 3 by (auto simp: mods_ok_def)
    then show ?thesis using 3 later [OF name] by auto
  }
qed

theorem module_query_witness:
  "\<exists>M'. skynet_module_query (\<lambda>f. Some 7) (\<lambda>h s. Some 1) ''gate'' (skynet_module_init ''./?.so'') (skynet_module_init ''./?.so'') =
      Some (Answers (Some 0) M') \<and> mods_ok M' \<and>
      skynet_module_query (\<lambda>f. None) (\<lambda>h s. None) ''gate'' (skynet_module_init ''./?.so'') M' = Some (Answers (Some 0) M')"
proof -
  let ?M = "skynet_module_init ''./?.so''"
  have t: "try_open (\<lambda>f. Some 7) ''./?.so'' ''gate'' = Some (Opened 7)"
    using try_open_loop_search [where path = "''./?.so''" and name = "''gate''", OF order_refl]
    by (simp add: try_open_def templates.simps)
  obtain M' where q: "skynet_module_query (\<lambda>f. Some 7) (\<lambda>h s. Some 1) ''gate'' ?M ?M = Some (Answers (Some 0) M')"
    using t by (simp add: skynet_module_query_def skynet_module_init_def query_name_def MAX_MODULE_TYPE_def open_sym_def get_api_def Let_def)
  have ok: "mods_ok ?M" by (simp add: mods_ok_def skynet_module_init_def)
  have "prefix (mods ?M) (mods M')" by (simp add: skynet_module_init_def)
  then show ?thesis using module_query [OF ok prefix_order.order_refl q] q by auto
qed

end
