(* ===== verification/DES.thy ===== *)
theory DES
  imports Prelude
begin

text \<open>
  The DES cipher of \<^verbatim>\<open>lua-crypt.c\<close> and the functions \<^verbatim>\<open>desencode\<close> and
  \<^verbatim>\<open>desdecode\<close> that Lua calls, with both padding modes. An array is a list; reading
  outside of one makes the result \<open>None\<close>. An error raised to Lua is a value of the left side of
  a sum. The loops count with an \<^verbatim>\<open>int\<close>, to which the size of the text is converted;
  \<open>None\<close> is also the overflow of an \<^verbatim>\<open>int\<close> and a result with bytes that were never written.
\<close>

subsection \<open>The S-boxes and the tables of the first permutation\<close>

definition SB1 :: "u32 list" where
  "SB1 = [
    0x01010400, 0x00000000, 0x00010000, 0x01010404,
    0x01010004, 0x00010404, 0x00000004, 0x00010000,
    0x00000400, 0x01010400, 0x01010404, 0x00000400,
    0x01000404, 0x01010004, 0x01000000, 0x00000004,
    0x00000404, 0x01000400, 0x01000400, 0x00010400,
    0x00010400, 0x01010000, 0x01010000, 0x01000404,
    0x00010004, 0x01000004, 0x01000004, 0x00010004,
    0x00000000, 0x00000404, 0x00010404, 0x01000000,
    0x00010000, 0x01010404, 0x00000004, 0x01010000,
    0x01010400, 0x01000000, 0x01000000, 0x00000400,
    0x01010004, 0x00010000, 0x00010400, 0x01000004,
    0x00000400, 0x00000004, 0x01000404, 0x00010404,
    0x01010404, 0x00010004, 0x01010000, 0x01000404,
    0x01000004, 0x00000404, 0x00010404, 0x01010400,
    0x00000404, 0x01000400, 0x01000400, 0x00000000,
    0x00010004, 0x00010400, 0x00000000, 0x01010004]"

definition SB2 :: "u32 list" where
  "SB2 = [
    0x80108020, 0x80008000, 0x00008000, 0x00108020,
    0x00100000, 0x00000020, 0x80100020, 0x80008020,
    0x80000020, 0x80108020, 0x80108000, 0x80000000,
    0x80008000, 0x00100000, 0x00000020, 0x80100020,
    0x00108000, 0x00100020, 0x80008020, 0x00000000,
    0x80000000, 0x00008000, 0x00108020, 0x80100000,
    0x00100020, 0x80000020, 0x00000000, 0x00108000,
    0x00008020, 0x80108000, 0x80100000, 0x00008020,
    0x00000000, 0x00108020, 0x80100020, 0x00100000,
    0x80008020, 0x80100000, 0x80108000, 0x00008000,
    0x80100000, 0x80008000, 0x00000020, 0x80108020,
    0x00108020, 0x00000020, 0x00008000, 0x80000000,
    0x00008020, 0x80108000, 0x00100000, 0x80000020,
    0x00100020, 0x80008020, 0x80000020, 0x00100020,
    0x00108000, 0x00000000, 0x80008000, 0x00008020,
    0x80000000, 0x80100020, 0x80108020, 0x00108000]"

definition SB3 :: "u32 list" where
  "SB3 = [
    0x00000208, 0x08020200, 0x00000000, 0x08020008,
    0x08000200, 0x00000000, 0x00020208, 0x08000200,
    0x00020008, 0x08000008, 0x08000008, 0x00020000,
    0x08020208, 0x00020008, 0x08020000, 0x00000208,
    0x08000000, 0x00000008, 0x08020200, 0x00000200,
    0x00020200, 0x08020000, 0x08020008, 0x00020208,
    0x08000208, 0x00020200, 0x00020000, 0x08000208,
    0x00000008, 0x08020208, 0x00000200, 0x08000000,
    0x08020200, 0x08000000, 0x00020008, 0x00000208,
    0x00020000, 0x08020200, 0x08000200, 0x00000000,
    0x00000200, 0x00020008, 0x08020208, 0x08000200,
    0x08000008, 0x00000200, 0x00000000, 0x08020008,
    0x08000208, 0x00020000, 0x08000000, 0x08020208,
    0x00000008, 0x00020208, 0x00020200, 0x08000008,
    0x08020000, 0x08000208, 0x00000208, 0x08020000,
    0x00020208, 0x00000008, 0x08020008, 0x00020200]"

definition SB4 :: "u32 list" where
  "SB4 = [
    0x00802001, 0x00002081, 0x00002081, 0x00000080,
    0x00802080, 0x00800081, 0x00800001, 0x00002001,
    0x00000000, 0x00802000, 0x00802000, 0x00802081,
    0x00000081, 0x00000000, 0x00800080, 0x00800001,
    0x00000001, 0x00002000, 0x00800000, 0x00802001,
    0x00000080, 0x00800000, 0x00002001, 0x00002080,
    0x00800081, 0x00000001, 0x00002080, 0x00800080,
    0x00002000, 0x00802080, 0x00802081, 0x00000081,
    0x00800080, 0x00800001, 0x00802000, 0x00802081,
    0x00000081, 0x00000000, 0x00000000, 0x00802000,
    0x00002080, 0x00800080, 0x00800081, 0x00000001,
    0x00802001, 0x00002081, 0x00002081, 0x00000080,
    0x00802081, 0x00000081, 0x00000001, 0x00002000,
    0x00800001, 0x00002001, 0x00802080, 0x00800081,
    0x00002001, 0x00002080, 0x00800000, 0x00802001,
    0x00000080, 0x00800000, 0x00002000, 0x00802080]"

definition SB5 :: "u32 list" where
  "SB5 = [
    0x00000100, 0x02080100, 0x02080000, 0x42000100,
    0x00080000, 0x00000100, 0x40000000, 0x02080000,
    0x40080100, 0x00080000, 0x02000100, 0x40080100,
    0x42000100, 0x42080000, 0x00080100, 0x40000000,
    0x02000000, 0x40080000, 0x40080000, 0x00000000,
    0x40000100, 0x42080100, 0x42080100, 0x02000100,
    0x42080000, 0x40000100, 0x00000000, 0x42000000,
    0x02080100, 0x02000000, 0x42000000, 0x00080100,
    0x00080000, 0x42000100, 0x00000100, 0x02000000,
    0x40000000, 0x02080000, 0x42000100, 0x40080100,
    0x02000100, 0x40000000, 0x42080000, 0x02080100,
    0x40080100, 0x00000100, 0x02000000, 0x42080000,
    0x42080100, 0x00080100, 0x42000000, 0x42080100,
    0x02080000, 0x00000000, 0x40080000, 0x42000000,
    0x00080100, 0x02000100, 0x40000100, 0x00080000,
    0x00000000, 0x40080000, 0x02080100, 0x40000100]"

definition SB6 :: "u32 list" where
  "SB6 = [
    0x20000010, 0x20400000, 0x00004000, 0x20404010,
    0x20400000, 0x00000010, 0x20404010, 0x00400000,
    0x20004000, 0x00404010, 0x00400000, 0x20000010,
    0x00400010, 0x20004000, 0x20000000, 0x00004010,
    0x00000000, 0x00400010, 0x20004010, 0x00004000,
    0x00404000, 0x20004010, 0x00000010, 0x20400010,
    0x20400010, 0x00000000, 0x00404010, 0x20404000,
    0x00004010, 0x00404000, 0x20404000, 0x20000000,
    0x20004000, 0x00000010, 0x20400010, 0x00404000,
    0x20404010, 0x00400000, 0x00004010, 0x20000010,
    0x00400000, 0x20004000, 0x20000000, 0x00004010,
    0x20000010, 0x20404010, 0x00404000, 0x20400000,
    0x00404010, 0x20404000, 0x00000000, 0x20400010,
    0x00000010, 0x00004000, 0x20400000, 0x00404010,
    0x00004000, 0x00400010, 0x20004010, 0x00000000,
    0x20404000, 0x20000000, 0x00400010, 0x20004010]"

definition SB7 :: "u32 list" where
  "SB7 = [
    0x00200000, 0x04200002, 0x04000802, 0x00000000,
    0x00000800, 0x04000802, 0x00200802, 0x04200800,
    0x04200802, 0x00200000, 0x00000000, 0x04000002,
    0x00000002, 0x04000000, 0x04200002, 0x00000802,
    0x04000800, 0x00200802, 0x00200002, 0x04000800,
    0x04000002, 0x04200000, 0x04200800, 0x00200002,
    0x04200000, 0x00000800, 0x00000802, 0x04200802,
    0x00200800, 0x00000002, 0x04000000, 0x00200800,
    0x04000000, 0x00200800, 0x00200000, 0x04000802,
    0x04000802, 0x04200002, 0x04200002, 0x00000002,
    0x00200002, 0x04000000, 0x04000800, 0x00200000,
    0x04200800, 0x00000802, 0x00200802, 0x04200800,
    0x00000802, 0x04000002, 0x04200802, 0x04200000,
    0x00200800, 0x00000000, 0x00000002, 0x04200802,
    0x00000000, 0x00200802, 0x04200000, 0x00000800,
    0x04000002, 0x04000800, 0x00000800, 0x00200002]"

definition SB8 :: "u32 list" where
  "SB8 = [
    0x10001040, 0x00001000, 0x00040000, 0x10041040,
    0x10000000, 0x10001040, 0x00000040, 0x10000000,
    0x00040040, 0x10040000, 0x10041040, 0x00041000,
    0x10041000, 0x00041040, 0x00001000, 0x00000040,
    0x10040000, 0x10000040, 0x10001000, 0x00001040,
    0x00041000, 0x00040040, 0x10040040, 0x10041000,
    0x00001040, 0x00000000, 0x00000000, 0x10040040,
    0x10000040, 0x10001000, 0x00041040, 0x00040000,
    0x00041040, 0x00040000, 0x10041000, 0x00001000,
    0x00000040, 0x10040040, 0x00001000, 0x00041040,
    0x10001000, 0x00000040, 0x10000040, 0x10040000,
    0x10040040, 0x10000000, 0x00040000, 0x10001040,
    0x00000000, 0x10041040, 0x00040040, 0x10000040,
    0x10040000, 0x10001000, 0x10001040, 0x00000000,
    0x10041040, 0x00041000, 0x00041000, 0x00001040,
    0x00001040, 0x00040040, 0x10000000, 0x10041000]"

definition LHs :: "u32 list" where
  "LHs = [
    0x00000000, 0x00000001, 0x00000100, 0x00000101,
    0x00010000, 0x00010001, 0x00010100, 0x00010101,
    0x01000000, 0x01000001, 0x01000100, 0x01000101,
    0x01010000, 0x01010001, 0x01010100, 0x01010101]"

definition RHs :: "u32 list" where
  "RHs = [
    0x00000000, 0x01000000, 0x00010000, 0x01010000,
    0x00000100, 0x01000100, 0x00010100, 0x01010100,
    0x00000001, 0x01000001, 0x00010001, 0x01010001,
    0x00000101, 0x01000101, 0x00010101, 0x01010101]"
subsection \<open>The permutations and the round\<close>

text \<open>Big-endian words of a byte array.\<close>

definition GET_UINT32 :: "bytes \<Rightarrow> nat \<Rightarrow> u32" where
  "GET_UINT32 b i = push_bit 24 (ucast (b ! i)) OR push_bit 16 (ucast (b ! (i + 1))) OR
     push_bit 8 (ucast (b ! (i + 2))) OR ucast (b ! (i + 3))"

definition PUT_UINT32 :: "u32 \<Rightarrow> bytes" where
  "PUT_UINT32 n = [ucast (drop_bit 24 n), ucast (drop_bit 16 n), ucast (drop_bit 8 n), ucast n]"

definition DES_IP :: "u32 \<Rightarrow> u32 \<Rightarrow> u32 \<times> u32" where
  "DES_IP X Y =
     (let T = (drop_bit 4 X XOR Y) AND 0x0F0F0F0F; Y = Y XOR T; X = X XOR push_bit 4 T;
          T = (drop_bit 16 X XOR Y) AND 0x0000FFFF; Y = Y XOR T; X = X XOR push_bit 16 T;
          T = (drop_bit 2 Y XOR X) AND 0x33333333; X = X XOR T; Y = Y XOR push_bit 2 T;
          T = (drop_bit 8 Y XOR X) AND 0x00FF00FF; X = X XOR T; Y = Y XOR push_bit 8 T;
          Y = (push_bit 1 Y OR drop_bit 31 Y) AND 0xFFFFFFFF;
          T = (X XOR Y) AND 0xAAAAAAAA; Y = Y XOR T; X = X XOR T;
          X = (push_bit 1 X OR drop_bit 31 X) AND 0xFFFFFFFF
      in (X, Y))"

definition DES_FP :: "u32 \<Rightarrow> u32 \<Rightarrow> u32 \<times> u32" where
  "DES_FP X Y =
     (let X = (push_bit 31 X OR drop_bit 1 X) AND 0xFFFFFFFF;
          T = (X XOR Y) AND 0xAAAAAAAA; X = X XOR T; Y = Y XOR T;
          Y = (push_bit 31 Y OR drop_bit 1 Y) AND 0xFFFFFFFF;
          T = (drop_bit 8 Y XOR X) AND 0x00FF00FF; X = X XOR T; Y = Y XOR push_bit 8 T;
          T = (drop_bit 2 Y XOR X) AND 0x33333333; X = X XOR T; Y = Y XOR push_bit 2 T;
          T = (drop_bit 16 X XOR Y) AND 0x0000FFFF; Y = Y XOR T; X = X XOR push_bit 16 T;
          T = (drop_bit 4 X XOR Y) AND 0x0F0F0F0F; Y = Y XOR T; X = X XOR push_bit 4 T
      in (X, Y))"

text \<open>An entry of a table selected by the low bits of a word.\<close>

definition pick :: "u32 list \<Rightarrow> u32 \<Rightarrow> u32 \<Rightarrow> u32" where
  "pick S m w = S ! unat (w AND m)"

text \<open>The macro changes \<^verbatim>\<open>Y\<close>; the two words that \<^verbatim>\<open>*SK++\<close> reads are arguments.\<close>

definition DES_ROUND :: "u32 \<Rightarrow> u32 \<Rightarrow> u32 \<Rightarrow> u32 \<Rightarrow> u32" where
  "DES_ROUND sk0 sk1 X Y =
     (let T = sk0 XOR X;
          Y = Y XOR (pick SB8 0x3F T XOR pick SB6 0x3F (drop_bit 8 T) XOR pick SB4 0x3F (drop_bit 16 T) XOR
                pick SB2 0x3F (drop_bit 24 T));
          T = sk1 XOR (push_bit 28 X OR drop_bit 4 X)
      in Y XOR (pick SB7 0x3F T XOR pick SB5 0x3F (drop_bit 8 T) XOR pick SB3 0x3F (drop_bit 16 T) XOR
           pick SB1 0x3F (drop_bit 24 T)))"

subsection \<open>The key schedule\<close>

definition rot28 :: "nat \<Rightarrow> u32 \<Rightarrow> u32" where
  "rot28 n X = (push_bit n X OR drop_bit (28 - n) X) AND 0x0FFFFFFF"

definition subkeys :: "u32 \<Rightarrow> u32 \<Rightarrow> u32 list" where
  "subkeys X Y =
     [ (push_bit 4 X AND 0x24000000) OR (push_bit 28 X AND 0x10000000)
       OR (push_bit 14 X AND 0x08000000) OR (push_bit 18 X AND 0x02080000)
       OR (push_bit 6 X AND 0x01000000) OR (push_bit 9 X AND 0x00200000)
       OR (drop_bit 1 X AND 0x00100000) OR (push_bit 10 X AND 0x00040000)
       OR (push_bit 2 X AND 0x00020000) OR (drop_bit 10 X AND 0x00010000)
       OR (drop_bit 13 Y AND 0x00002000) OR (drop_bit 4 Y AND 0x00001000)
       OR (push_bit 6 Y AND 0x00000800) OR (drop_bit 1 Y AND 0x00000400)
       OR (drop_bit 14 Y AND 0x00000200) OR (Y AND 0x00000100)
       OR (drop_bit 5 Y AND 0x00000020) OR (drop_bit 10 Y AND 0x00000010)
       OR (drop_bit 3 Y AND 0x00000008) OR (drop_bit 18 Y AND 0x00000004)
       OR (drop_bit 26 Y AND 0x00000002) OR (drop_bit 24 Y AND 0x00000001),
       (push_bit 15 X AND 0x20000000) OR (push_bit 17 X AND 0x10000000)
       OR (push_bit 10 X AND 0x08000000) OR (push_bit 22 X AND 0x04000000)
       OR (drop_bit 2 X AND 0x02000000) OR (push_bit 1 X AND 0x01000000)
       OR (push_bit 16 X AND 0x00200000) OR (push_bit 11 X AND 0x00100000)
       OR (push_bit 3 X AND 0x00080000) OR (drop_bit 6 X AND 0x00040000)
       OR (push_bit 15 X AND 0x00020000) OR (drop_bit 4 X AND 0x00010000)
       OR (drop_bit 2 Y AND 0x00002000) OR (push_bit 8 Y AND 0x00001000)
       OR (drop_bit 14 Y AND 0x00000808) OR (drop_bit 9 Y AND 0x00000400)
       OR (Y AND 0x00000200) OR (push_bit 7 Y AND 0x00000100)
       OR (drop_bit 7 Y AND 0x00000020) OR (drop_bit 3 Y AND 0x00000011)
       OR (push_bit 2 Y AND 0x00000004) OR (drop_bit 21 Y AND 0x00000002) ]"

text \<open>The rounds \<open>is\<close> of the loop over \<^verbatim>\<open>i\<close>.\<close>

primrec key_rounds :: "nat list \<Rightarrow> u32 \<Rightarrow> u32 \<Rightarrow> u32 list" where
  "key_rounds [] X Y = []"
| "key_rounds (i # is) X Y =
     (let n = (if i < 2 \<or> i = 8 \<or> i = 15 then 1 else 2); X = rot28 n X; Y = rot28 n Y
      in subkeys X Y @ key_rounds is X Y)"

definition des_main_ks :: "bytes \<Rightarrow> u32 list" where
  "des_main_ks key =
     (let X = GET_UINT32 key 0; Y = GET_UINT32 key 4;
          T = (drop_bit 4 Y XOR X) AND 0x0F0F0F0F; X = X XOR T; Y = Y XOR push_bit 4 T;
          T = (Y XOR X) AND 0x10101010; X = X XOR T; Y = Y XOR T;
          L = (\<lambda>n. pick LHs 0xF (drop_bit n X)); R = (\<lambda>n. pick RHs 0xF (drop_bit n Y));
          X = push_bit 3 (L 0) OR push_bit 2 (L 8) OR push_bit 1 (L 16) OR L 24
            OR push_bit 7 (L 5) OR push_bit 6 (L 13) OR push_bit 5 (L 21) OR push_bit 4 (L 29);
          Y = push_bit 3 (R 1) OR push_bit 2 (R 9) OR push_bit 1 (R 17) OR R 25
            OR push_bit 7 (R 4) OR push_bit 6 (R 12) OR push_bit 5 (R 20) OR push_bit 4 (R 28)
      in key_rounds [0..<16] (X AND 0x0FFFFFFF) (Y AND 0x0FFFFFFF))"

subsection \<open>One block\<close>

text \<open>Each line of the code runs the two rounds that use the next four words of the schedule.\<close>

fun des_rounds :: "u32 list \<Rightarrow> u32 \<Rightarrow> u32 \<Rightarrow> u32 \<times> u32" where
  "des_rounds (a # b # c # d # SK) X Y =
     (let X = DES_ROUND a b Y X; Y = DES_ROUND c d X Y in des_rounds SK X Y)"
| "des_rounds SK X Y = (X, Y)"

definition des_crypt :: "u32 list \<Rightarrow> bytes \<Rightarrow> bytes" where
  "des_crypt SK input =
     (let (X, Y) = DES_IP (GET_UINT32 input 0) (GET_UINT32 input 4);
          (X, Y) = des_rounds SK X Y;
          (Y, X) = DES_FP Y X
      in PUT_UINT32 Y @ PUT_UINT32 X)"

subsection \<open>Padding\<close>

definition PADDING_MODE_ISO7816_4 :: int where "PADDING_MODE_ISO7816_4 = 0"
definition PADDING_MODE_PKCS7 :: int where "PADDING_MODE_PKCS7 = 1"
definition PADDING_MODE_COUNT :: int where "PADDING_MODE_COUNT = 2"

datatype des_error = Invalid_Padding_Mode int | Invalid_Padding | Invalid_Key_Size nat | Invalid_Text_Length nat | Invalid_Text

text \<open>What the two functions write to the buffer from \<open>offset\<close> on.\<close>

definition padding_add_iso7816_4 :: "nat \<Rightarrow> bytes" where
  "padding_add_iso7816_4 offset = 0x80 # replicate (7 - offset) 0"

definition padding_add_pkcs7 :: "nat \<Rightarrow> bytes" where
  "padding_add_pkcs7 offset = replicate (8 - offset) (of_nat (8 - offset))"

text \<open>\<open>rs\<close> is the buffer backwards, from the byte at \<^verbatim>\<open>last\<close>.\<close>

fun remove_iso :: "nat \<Rightarrow> int \<Rightarrow> bytes \<Rightarrow> int option" where
  "remove_iso 0 padding rs = Some 0"
| "remove_iso (Suc n) padding [] = None"
| "remove_iso (Suc n) padding (b # rs) =
     (if b = 0 then remove_iso n (padding + 1) rs else if b = 0x80 then Some padding else Some 0)"

definition padding_remove_iso7816_4 :: "bytes \<Rightarrow> int option" where
  "padding_remove_iso7816_4 rs = remove_iso 8 1 rs"

fun all_padding :: "nat \<Rightarrow> int \<Rightarrow> bytes \<Rightarrow> int option" where
  "all_padding 0 padding rs = Some padding"
| "all_padding (Suc n) padding [] = None"
| "all_padding (Suc n) padding (b # rs) = (if uint b \<noteq> padding then Some 0 else all_padding n padding rs)"

definition padding_remove_pkcs7 :: "bytes \<Rightarrow> int option" where
  "padding_remove_pkcs7 rs =
     (case rs of [] \<Rightarrow> None | b # rs' \<Rightarrow> all_padding (unat b - 1) (uint b) rs')"

definition check_padding_mode :: "int \<Rightarrow> bool" where
  "check_padding_mode mode \<longleftrightarrow> \<not> (mode < 0 \<or> mode \<ge> PADDING_MODE_COUNT)"

definition add_padding :: "bytes \<Rightarrow> int \<Rightarrow> int \<Rightarrow> (des_error + bytes) option" where
  "add_padding src offset mode =
     (if \<not> check_padding_mode mode then Some (Inl (Invalid_Padding_Mode mode))
      else if offset \<ge> 8 then Some (Inl Invalid_Padding)
      else do {
        c_assert (0 \<le> offset \<and> nat offset \<le> length src);
        Some (Inr (take (nat offset) src @
          (if mode = PADDING_MODE_ISO7816_4 then padding_add_iso7816_4 (nat offset) else padding_add_pkcs7 (nat offset))))
      })"

definition remove_padding :: "bytes \<Rightarrow> int \<Rightarrow> (des_error + int) option" where
  "remove_padding rs mode =
     (if \<not> check_padding_mode mode then Some (Inl (Invalid_Padding_Mode mode))
      else map_option Inr
        (if mode = PADDING_MODE_ISO7816_4 then padding_remove_iso7816_4 rs else padding_remove_pkcs7 rs))"

subsection \<open>The functions for Lua\<close>

definition des_key :: "bytes \<Rightarrow> des_error + u32 list" where
  "des_key key = (if length key \<noteq> 8 then Inl (Invalid_Key_Size (length key)) else Inr (des_main_ks key))"

text \<open>\<^verbatim>\<open>for (; i < bound; i += 8)\<close> over the text from \<open>i\<close> on: what it writes, the last \<open>i\<close> and the text it leaves.\<close>

function crypt_loop :: "u32 list \<Rightarrow> int \<Rightarrow> int \<Rightarrow> bytes \<Rightarrow> bytes \<times> int \<times> bytes" where
  "crypt_loop SK i bound text =
     (if i < bound
      then let (out, j, rest) = crypt_loop SK (i + 8) bound (drop 8 text) in (des_crypt SK (take 8 text) @ out, j, rest)
      else ([], i, text))"
  by pat_completeness auto
termination by (relation "measure (\<lambda>(SK, i, bound, text). nat (bound - i))") auto

declare crypt_loop.simps [simp del]

definition ldesencode :: "bytes \<Rightarrow> bytes \<Rightarrow> int \<Rightarrow> (des_error + bytes) option" where
  "ldesencode key text mode =
     (case des_key key of
        Inl e \<Rightarrow> Some (Inl e)
      | Inr SK \<Rightarrow> do {
          let textsz = length text;
          let chunksz = (textsz + 8) div 8 * 8;
          c_assert (- (2 ^ 31) \<le> int_of_size textsz - 7);
          let (out, i, rest) = crypt_loop SK 0 (int_of_size textsz - 7) text;
          padded \<leftarrow> add_padding rest (int_of_size (textsz - nat i)) mode;
          (case padded of
             Inl e \<Rightarrow> Some (Inl e)
           | Inr tail \<Rightarrow> do { c_assert (chunksz = nat i + 8); Some (Inr (out @ des_crypt SK tail)) })
        })"

text \<open>The schedule backwards, pair by pair: \<^verbatim>\<open>SK[i] = ESK[30-i]; SK[i+1] = ESK[31-i]\<close>.\<close>

definition decode_keys :: "u32 list \<Rightarrow> u32 list" where
  "decode_keys ESK = concat (map (\<lambda>i. [ESK ! (30 - 2 * i), ESK ! (31 - 2 * i)]) [0..<16])"

definition ldesdecode :: "bytes \<Rightarrow> bytes \<Rightarrow> int \<Rightarrow> (des_error + bytes) option" where
  "ldesdecode key text mode =
     (case des_key key of
        Inl e \<Rightarrow> Some (Inl e)
      | Inr ESK \<Rightarrow>
          if length text mod 8 \<noteq> 0 \<or> length text = 0 then Some (Inl (Invalid_Text_Length (length text)))
          else do {
            c_assert (length text \<le> int_max);
            let buffer = fst (crypt_loop (decode_keys ESK) 0 (int (length text)) text);
            (case remove_padding (rev buffer) mode of
               None \<Rightarrow> None
             | Some (Inl e) \<Rightarrow> Some (Inl e)
             | Some (Inr padding) \<Rightarrow>
                 (if padding \<le> 0 \<or> padding > 8 then Some (Inl Invalid_Text)
                  else Some (Inr (take (length text - nat padding) buffer))))
          })"

subsection \<open>The loops over the whole blocks\<close>

function whole_blocks :: "u32 list \<Rightarrow> bytes \<Rightarrow> bytes \<times> bytes" where
  "whole_blocks SK text =
     (if length text < 8 then ([], text)
      else let (out, rest) = whole_blocks SK (drop 8 text) in (des_crypt SK (take 8 text) @ out, rest))"
  by pat_completeness auto
termination by (relation "measure (\<lambda>(SK, text). length text)") auto

declare whole_blocks.simps [simp del]

lemma crypt_loop_blocks:
  "bound = i + int (length text) - 7 \<or> bound = i + int (length text) \<and> length text mod 8 = 0 \<Longrightarrow>
   crypt_loop SK i bound text = (fst (whole_blocks SK text), i + 8 * int (length text div 8), snd (whole_blocks SK text))"
proof (induction SK "text" arbitrary: i rule: whole_blocks.induct)
  case (1 SK t)
  show ?case
  proof (cases "length t < 8")
    case True
    then have "bound \<le> i" using 1(2) by auto
    then show ?thesis using True by (simp add: crypt_loop.simps [of SK i] whole_blocks.simps [of SK t])
  next
    case False
    then have less: "i < bound" and mod: "length t mod 8 = 0 \<Longrightarrow> (length t - 8) mod 8 = 0" using 1(2) by (auto simp: le_mod_geq)
    have d: "length t div 8 = Suc ((length t - 8) div 8)" using False by (simp add: le_div_geq)
    have "crypt_loop SK (i + 8) bound (drop 8 t) =
        (fst (whole_blocks SK (drop 8 t)), (i + 8) + 8 * int (length (drop 8 t) div 8), snd (whole_blocks SK (drop 8 t)))"
      using 1(1) [OF False, of "i + 8"] 1(2) False mod by (auto simp: of_nat_diff)
    then show ?thesis
      using less False d by (simp add: crypt_loop.simps [of SK i] whole_blocks.simps [of SK t] split_beta Let_def)
  qed
qed

subsection \<open>Both permutations are inverse to each other\<close>

text \<open>The exchange of the bits \<open>m\<close> of a word with those \<open>n\<close> places higher in another word.\<close>

definition exchange :: "nat \<Rightarrow> u32 \<Rightarrow> u32 \<times> u32 \<Rightarrow> u32 \<times> u32" where
  "exchange n m p = (let T = (drop_bit n (fst p) XOR snd p) AND m in (fst p XOR push_bit n T, snd p XOR T))"

lemma exchange_twice:
  assumes "drop_bit n (push_bit n m) = m"
  shows "exchange n m (exchange n m p) = p"
proof -
  obtain X Y where p: "p = (X, Y)" by force
  define T where "T = (drop_bit n X XOR Y) AND m"
  have m: "n + i < 32" if "bit m i" for i
  proof -
    have "bit (drop_bit n (push_bit n m)) i" using assms that by simp
    then show ?thesis by (simp add: bit_simps)
  qed
  have "(drop_bit n (X XOR push_bit n T) XOR (Y XOR T)) AND m = T"
    by (rule bit_word_eqI) (use m in \<open>auto simp: T_def bit_simps\<close>)
  then show ?thesis by (simp add: p exchange_def T_def [symmetric] Let_def xor.assoc)
qed

definition rotl1 :: "u32 \<Rightarrow> u32" where "rotl1 w = (push_bit 1 w OR drop_bit 31 w) AND 0xFFFFFFFF"
definition rotr1 :: "u32 \<Rightarrow> u32" where "rotr1 w = (push_bit 31 w OR drop_bit 1 w) AND 0xFFFFFFFF"

lemma all_ones: "(0xFFFFFFFF :: u32) = mask 32"
  by (simp add: mask_eq_exp_minus_1)

lemma rot_inverse [simp]: "rotr1 (rotl1 w) = w" "rotl1 (rotr1 w) = w"
proof -
  have l: "bit (rotl1 w) i \<longleftrightarrow> i < 32 \<and> (if i = 0 then bit w 31 else bit w (i - 1))" for w i
    unfolding rotl1_def all_ones bit_and_iff bit_or_iff bit_push_bit_iff bit_drop_bit_eq o_def bit_mask_iff
    by (auto simp: bit_simps dest: bit_imp_le_length)
  have r: "bit (rotr1 w) i \<longleftrightarrow> i < 32 \<and> (if i = 31 then bit w 0 else bit w (i + 1))" for w i
    unfolding rotr1_def all_ones bit_and_iff bit_or_iff bit_push_bit_iff bit_drop_bit_eq o_def bit_mask_iff
    by (auto simp: bit_simps le_Suc_eq dest: bit_imp_le_length)
  show "rotr1 (rotl1 w) = w" "rotl1 (rotr1 w) = w" by (rule bit_word_eqI; auto simp: l r)+
qed

lemma DES_IP_eq:
  "DES_IP X Y = apfst rotl1 (exchange 0 0xAAAAAAAA (apsnd rotl1 (prod.swap (exchange 8 0x00FF00FF
     (exchange 2 0x33333333 (prod.swap (exchange 16 0x0000FFFF (exchange 4 0x0F0F0F0F (X, Y)))))))))"
  by (simp only: DES_IP_def exchange_def rotl1_def Let_def fst_conv snd_conv swap_simp apfst_conv apsnd_conv
      drop_bit_0 push_bit_0_id id_apply)

lemma DES_FP_eq:
  "DES_FP X Y = exchange 4 0x0F0F0F0F (exchange 16 0x0000FFFF (prod.swap (exchange 2 0x33333333
     (exchange 8 0x00FF00FF (prod.swap (apsnd rotr1 (exchange 0 0xAAAAAAAA (apfst rotr1 (X, Y)))))))))"
  by (simp only: DES_FP_def exchange_def rotr1_def Let_def fst_conv snd_conv swap_simp apfst_conv apsnd_conv
      drop_bit_0 push_bit_0_id id_apply)

lemma permutation_inverse:
  "DES_IP X Y = (A, B) \<Longrightarrow> DES_FP A B = (X, Y)"
  "DES_FP X Y = (A, B) \<Longrightarrow> DES_IP A B = (X, Y)"
proof -
  have rot: "apfst rotr1 (apfst rotl1 p) = p" "apsnd rotr1 (apsnd rotl1 p) = p"
    "apfst rotl1 (apfst rotr1 p) = p" "apsnd rotl1 (apsnd rotr1 p) = p" for p :: "u32 \<times> u32"
    by (cases p; simp)+
  note inv = rot exchange_twice
  {
    assume "DES_IP X Y = (A, B)"
    from this [symmetric] show "DES_FP A B = (X, Y)" unfolding DES_FP_eq by (simp add: DES_IP_eq inv)
  next
    assume "DES_FP X Y = (A, B)"
    from this [symmetric] show "DES_IP A B = (X, Y)" unfolding DES_IP_eq by (simp add: DES_FP_eq inv)
  }
qed

lemma length_PUT [simp]: "length (PUT_UINT32 n) = 4"
  by (simp add: PUT_UINT32_def)

text \<open>The bits of a word made of four bytes.\<close>

lemma bit_of_bytes:
  "bit (push_bit 24 (ucast (a :: u8)) OR push_bit 16 (ucast (b :: u8)) OR push_bit 8 (ucast (c :: u8)) OR ucast (d :: u8) :: u32) n =
    (if n < 8 then bit d n else if n < 16 then bit c (n - 8) else if n < 24 then bit b (n - 16)
     else n < 32 \<and> bit a (n - 24))"
proof -
  have no: "8 \<le> i \<Longrightarrow> \<not> bit w i" for w :: u8 and i using bit_imp_le_length [of w i] by auto
  show ?thesis by (auto simp: bit_simps no)
qed

lemma bytes_of_word:
  "push_bit 24 (ucast (ucast (drop_bit 24 n) :: u8)) OR push_bit 16 (ucast (ucast (drop_bit 16 n) :: u8)) OR
   push_bit 8 (ucast (ucast (drop_bit 8 n) :: u8)) OR ucast (ucast n :: u8) = (n :: u32)"
  by (rule bit_word_eqI, subst bit_of_bytes) (auto simp: bit_simps)

lemma GET_PUT: "GET_UINT32 (PUT_UINT32 n @ rest) 0 = n"
  using bytes_of_word [of n] by (simp add: GET_UINT32_def PUT_UINT32_def)

lemma GET_PUT_4: "length pre = 4 \<Longrightarrow> GET_UINT32 (pre @ PUT_UINT32 n) 4 = n"
  using bytes_of_word [of n] by (simp add: GET_UINT32_def PUT_UINT32_def nth_append)

lemma word_of_bytes:
  fixes a b c d :: u8
  defines "w \<equiv> push_bit 24 (ucast a) OR push_bit 16 (ucast b) OR push_bit 8 (ucast c) OR ucast d :: u32"
  shows "ucast (drop_bit 24 w) = a" "ucast (drop_bit 16 w) = b" "ucast (drop_bit 8 w) = c" "ucast w = d"
  unfolding w_def by (rule bit_word_eqI, simp only: bit_ucast_iff bit_drop_bit_eq o_def bit_of_bytes; simp)+

lemma PUT_GET: "i + 4 \<le> length b \<Longrightarrow> PUT_UINT32 (GET_UINT32 b i) = take 4 (drop i b)"
proof -
  assume "i + 4 \<le> length b"
  then have "take 4 (drop i b) = [b ! i, b ! (i + 1), b ! (i + 2), b ! (i + 3)]"
    by (intro nth_equalityI) (auto simp: less_Suc_eq numeral_eq_Suc)
  then show ?thesis unfolding PUT_UINT32_def GET_UINT32_def word_of_bytes by simp
qed

subsection \<open>Decryption inverts encryption of a block\<close>

fun reverse_pairs :: "u32 list \<Rightarrow> u32 list" where
  "reverse_pairs (a # b # SK) = reverse_pairs SK @ [a, b]"
| "reverse_pairs SK = SK"

lemma round_twice [simp]: "DES_ROUND a b X (DES_ROUND a b X Y) = Y"
  by (simp add: DES_ROUND_def Let_def xor.assoc xor.left_commute)

lemma des_rounds_append:
  "length ks mod 4 = 0 \<Longrightarrow> des_rounds (ks @ ls) X Y = (let (X, Y) = des_rounds ks X Y in des_rounds ls X Y)"
  by (induction ks X Y rule: des_rounds.induct) (auto simp: Let_def)

lemma length_reverse_pairs [simp]: "length (reverse_pairs SK) = length SK"
  by (induction SK rule: reverse_pairs.induct) auto

lemma rounds_reverse:
  "length SK mod 4 = 0 \<Longrightarrow> des_rounds SK X Y = (X', Y') \<Longrightarrow> des_rounds (reverse_pairs SK) Y' X' = (Y, X)"
proof (induction SK X Y arbitrary: X' Y' rule: des_rounds.induct)
  case (1 a b c d SK X Y)
  then show ?case by (simp add: Let_def des_rounds_append)
qed auto

lemma des_crypt_inverse:
  assumes "length SK mod 4 = 0" "length b = 8"
  shows "des_crypt (reverse_pairs SK) (des_crypt SK b) = b"
proof -
  obtain X Y where ip: "DES_IP (GET_UINT32 b 0) (GET_UINT32 b 4) = (X, Y)" by force
  obtain X' Y' where r: "des_rounds SK X Y = (X', Y')" by force
  obtain U V where fp: "DES_FP Y' X' = (U, V)" by force
  have "des_crypt SK b = PUT_UINT32 U @ PUT_UINT32 V" by (simp add: des_crypt_def ip r fp)
  moreover have "DES_IP U V = (Y', X')" by (rule permutation_inverse(2) [OF fp])
  moreover have "des_rounds (reverse_pairs SK) Y' X' = (Y, X)" by (rule rounds_reverse [OF assms(1) r])
  moreover have "DES_FP X Y = (GET_UINT32 b 0, GET_UINT32 b 4)" by (rule permutation_inverse(1) [OF ip])
  moreover have "take 4 b @ take 4 (drop 4 b) = b" using assms(2) append_take_drop_id [of 4 b] by simp
  ultimately show ?thesis using assms(2) by (simp add: des_crypt_def GET_PUT GET_PUT_4 PUT_GET)
qed

subsection \<open>Whole texts\<close>

lemma length_des_crypt [simp]: "length (des_crypt SK b) = 8"
  by (simp add: des_crypt_def split: prod.split)

lemma length_des_main_ks [simp]: "length (des_main_ks key) = 32"
proof -
  have "length (key_rounds rs X Y) = 2 * length rs" for rs X Y
    by (induction rs arbitrary: X Y) (simp_all add: subkeys_def Let_def)
  then show ?thesis by (simp add: des_main_ks_def Let_def)
qed

lemma reverse_pairs_nth:
  "length SK = 2 * m \<Longrightarrow> reverse_pairs SK = concat (map (\<lambda>i. [SK ! (2 * m - 2 - 2 * i), SK ! (2 * m - 1 - 2 * i)]) [0..<m])"
proof (induction SK arbitrary: m rule: reverse_pairs.induct)
  case (1 a b SK)
  then obtain k where k: "m = Suc k" "length SK = 2 * k" by (cases m) auto
  define f where "f i = [(a # b # SK) ! (2 * m - 2 - 2 * i), (a # b # SK) ! (2 * m - 1 - 2 * i)]" for i
  define g where "g i = [SK ! (2 * k - 2 - 2 * i), SK ! (2 * k - 1 - 2 * i)]" for i
  have "f i = g i" if "i < k" for i
  proof -
    have "2 * m - 2 - 2 * i = Suc (Suc (2 * k - 2 - 2 * i))" "2 * m - 1 - 2 * i = Suc (Suc (2 * k - 1 - 2 * i))"
      using that k(1) by linarith+
    then show ?thesis by (simp add: f_def g_def)
  qed
  then have "map f [0..<k] = map g [0..<k]" by (intro map_cong) auto
  moreover have "f k = [a, b]" using k(1) by (simp add: f_def)
  moreover have "concat (map f [0..<m]) = concat (map f [0..<k]) @ f k" by (simp add: k(1))
  moreover have "reverse_pairs SK = concat (map g [0..<k])" using 1(1) [OF k(2)] unfolding g_def .
  ultimately have "reverse_pairs (a # b # SK) = concat (map f [0..<m])" unfolding reverse_pairs.simps by (simp only:)
  then show ?case unfolding f_def .
qed auto

lemma decode_keys_reverse: "length ESK = 32 \<Longrightarrow> decode_keys ESK = reverse_pairs ESK"
  using reverse_pairs_nth [of ESK 16] by (simp add: decode_keys_def)

lemma whole_blocks_inverse:
  "length SK mod 4 = 0 \<Longrightarrow> \<exists>pre. text = pre @ snd (whole_blocks SK text) \<and> length (fst (whole_blocks SK text)) = length pre \<and>
    length pre mod 8 = 0 \<and> length (snd (whole_blocks SK text)) < 8 \<and>
    (\<forall>tail. fst (whole_blocks (reverse_pairs SK) (fst (whole_blocks SK text) @ tail)) =
       pre @ fst (whole_blocks (reverse_pairs SK) tail))"
proof (induction SK "text" rule: whole_blocks.induct)
  case (1 SK t)
  show ?case
  proof (cases "length t < 8")
    case True
    then show ?thesis by (simp add: whole_blocks.simps [of SK t])
  next
    case False
    obtain out rest where w: "whole_blocks SK (drop 8 t) = (out, rest)" by force
    have tt: "whole_blocks SK t = (des_crypt SK (take 8 t) @ out, rest)"
      using False w by (subst whole_blocks.simps) simp
    obtain pre where pre: "drop 8 t = pre @ rest" "length out = length pre" "length pre mod 8 = 0" "length rest < 8"
      "\<And>tail. fst (whole_blocks (reverse_pairs SK) (out @ tail)) = pre @ fst (whole_blocks (reverse_pairs SK) tail)"
      using 1(1) [OF False 1(2)] w by auto
    have "whole_blocks (reverse_pairs SK) (des_crypt SK (take 8 t) @ xs) =
        (take 8 t @ fst (whole_blocks (reverse_pairs SK) xs), snd (whole_blocks (reverse_pairs SK) xs))" for xs
      using False des_crypt_inverse [OF 1(2), of "take 8 t"]
      by (subst whole_blocks.simps) (simp add: split_beta Let_def)
    moreover have "t = (take 8 t @ pre) @ rest" using append_take_drop_id [of 8 t] pre(1) by simp
    ultimately show ?thesis
      using pre False by (intro exI [of _ "take 8 t @ pre"]) (simp add: tt)
  qed
qed

lemma remove_iso_zeros:
  "k < n \<Longrightarrow> remove_iso n p (replicate k 0 @ 0x80 # rs) = Some (p + int k)"
proof (induction k arbitrary: n p)
  case 0
  then show ?case by (cases n) auto
next
  case (Suc k)
  then obtain m where "n = Suc m" "k < m" by (cases n) auto
  then show ?case using Suc.IH [of m "p + 1"] by simp
qed

lemma all_padding_replicate: "uint b = p \<Longrightarrow> all_padding k p (replicate k b @ rs) = Some p"
  by (induction k) auto

lemma all_padding_outside: "uint b = p \<Longrightarrow> all_padding (Suc k) p (replicate k b) = None"
  by (induction k) auto

lemma remove_added_padding:
  assumes "length rest < 8" "add_padding rest (int (length rest)) mode = Some (Inr tail)"
  shows "length tail = 8 \<and> remove_padding (rev (pre @ tail)) mode = Some (Inr (8 - int (length rest))) \<and>
    take (length rest) tail = rest"
proof -
  have mode: "check_padding_mode mode" using assms(2) by (auto simp: add_padding_def split: if_splits)
  show ?thesis
  proof (cases "mode = PADDING_MODE_ISO7816_4")
    case True
    have "remove_iso 8 1 (replicate (7 - length rest) 0 @ 0x80 # rev rest @ rev pre) = Some (1 + int (7 - length rest))"
      by (rule remove_iso_zeros) simp
    moreover have "1 + int (7 - length rest) = 8 - int (length rest)" using assms(1) by linarith
    ultimately show ?thesis
      using mode True assms by (auto simp: add_padding_def remove_padding_def padding_add_iso7816_4_def padding_remove_iso7816_4_def)
  next
    case False
    define k where "k = 8 - length rest"
    have k: "0 < k" "k \<le> 8" "int k = 8 - int (length rest)" using assms(1) by (auto simp: k_def)
    have u: "unat (of_nat k :: u8) = k" using k(2) by (simp add: unsigned_of_nat take_bit_eq_mod)
    then have ui: "uint (of_nat k :: u8) = int k" by (metis uint_nat)
    have tail: "tail = rest @ replicate k (of_nat k)"
      using assms mode False by (auto simp: add_padding_def padding_add_pkcs7_def k_def)
    have "rev (pre @ tail) = of_nat k # replicate (k - 1) (of_nat k) @ rev rest @ rev pre"
      using k(1) by (cases k) (simp_all add: tail replicate_append_same)
    then have "padding_remove_pkcs7 (rev (pre @ tail)) = Some (int k)"
      using all_padding_replicate [OF ui, of "k - 1"] u ui by (simp add: padding_remove_pkcs7_def)
    then show ?thesis using mode False k tail assms(1) by (simp add: remove_padding_def)
  qed
qed

text \<open>A block of eight bytes 9 in the second padding mode: the check reads in front of the buffer.\<close>

lemma pkcs7_reads_outside:
  assumes "length key = 8"
  shows "ldesdecode key (des_crypt (des_main_ks key) (replicate 8 9)) PADDING_MODE_PKCS7 = None"
proof -
  let ?SK = "des_main_ks key"
  have nine: "replicate 8 (9 :: u8) = 9 # replicate 7 9" by (simp add: eval_nat_numeral)
  have eight: "all_padding (unat (9 :: u8) - 1) (uint (9 :: u8)) (replicate 7 (9 :: u8)) = None"
    using all_padding_outside [of "9 :: u8" "uint (9 :: u8)" 7] by simp
  have "des_crypt (reverse_pairs ?SK) (des_crypt ?SK (replicate 8 9)) = replicate 8 9"
    by (rule des_crypt_inverse) simp_all
  then have "fst (crypt_loop (reverse_pairs ?SK) 0 8 (des_crypt ?SK (replicate 8 9))) = replicate 8 9"
    using crypt_loop_blocks [of 8 0 "des_crypt ?SK (replicate 8 9)" "reverse_pairs ?SK"]
    by (simp add: whole_blocks.simps [of _ "des_crypt _ _"] whole_blocks.simps [of _ "[]"])
  moreover have "padding_remove_pkcs7 (rev (replicate 8 9)) = None"
    by (subst rev_replicate, unfold padding_remove_pkcs7_def nine list.case, rule eight)
  then have "remove_padding (rev (replicate 8 9)) PADDING_MODE_PKCS7 = None"
    unfolding remove_padding_def
    by (simp add: check_padding_mode_def PADDING_MODE_PKCS7_def PADDING_MODE_ISO7816_4_def PADDING_MODE_COUNT_def)
  ultimately show ?thesis using assms by (simp add: ldesdecode_def des_key_def decode_keys_reverse)
qed

subsection \<open>Guarantees\<close>

text \<open>C25. The cipher: with a key of eight bytes and either padding mode, encryption of a text whose size fits an int succeeds with the next
  multiple of eight bytes, and decryption with the same key and mode returns the text exactly, if that multiple still fits an int; if not,
  the counter of the decryption overflows. With another key size or mode, encryption is refused.\<close>

theorem des_roundtrip:
  assumes "length text \<le> int_max"
  shows "if length key = 8 \<and> mode \<in> {PADDING_MODE_ISO7816_4, PADDING_MODE_PKCS7} then
     \<exists>c. ldesencode key text mode = Some (Inr c) \<and> length c = (length text div 8 + 1) * 8 \<and>
       ldesdecode key c mode = (if length text < 2147483640 then Some (Inr text) else None)
   else \<exists>e. ldesencode key text mode = Some (Inl e)"
proof (cases "length key = 8")
  case False
  then show ?thesis by (simp add: ldesencode_def des_key_def)
next
  case key: True
  let ?SK = "des_main_ks key"
  obtain out rest where w: "whole_blocks ?SK text = (out, rest)" by force
  obtain pre where pre: "text = pre @ rest" "length out = length pre" "length pre mod 8 = 0" "length rest < 8"
    "\<And>tail. fst (whole_blocks (reverse_pairs ?SK) (out @ tail)) = pre @ fst (whole_blocks (reverse_pairs ?SK) tail)"
    using whole_blocks_inverse [of ?SK "text"] w by auto
  obtain q where q: "length pre = 8 * q" using pre(3) by (metis mod_0_imp_dvd dvdE)
  have size: "length text = 8 * q + length rest" "length text div 8 = q" using pre(1,4) q by simp_all
  have loop: "crypt_loop ?SK 0 (int_of_size (length text) - 7) text = (out, int (8 * q), rest)"
    using crypt_loop_blocks [of "int (length text) - 7" 0 "text" ?SK] int_of_size_small [OF assms] w size(2) by simp
  have enc: "ldesencode key text mode = do {
      padded \<leftarrow> add_padding rest (int (length rest)) mode;
      (case padded of Inl e \<Rightarrow> Some (Inl e) | Inr tail \<Rightarrow> Some (Inr (out @ des_crypt ?SK tail)))
    }"
  proof -
    have "length text - 8 * q = length rest" "(length text + 8) div 8 * 8 = 8 * q + 8" using size(1) pre(4) by presburger+
    moreover have "nat (8 * int q) = 8 * q" by (metis nat_int of_nat_mult of_nat_numeral)
    moreover have "int_of_size (length rest) = int (length rest)" using pre(4) by (simp add: int_of_size_small)
    ultimately show ?thesis using key loop int_of_size_small [OF assms] by (simp add: ldesencode_def des_key_def Let_def)
  qed
  show ?thesis
  proof (cases "check_padding_mode mode")
    case False
    then have "\<exists>e. ldesencode key text mode = Some (Inl e)" by (simp add: enc add_padding_def)
    moreover have "mode \<notin> {PADDING_MODE_ISO7816_4, PADDING_MODE_PKCS7}"
      using False by (auto simp: check_padding_mode_def PADDING_MODE_COUNT_def PADDING_MODE_ISO7816_4_def PADDING_MODE_PKCS7_def)
    ultimately show ?thesis by simp
  next
    case True
    then have modes: "mode = PADDING_MODE_ISO7816_4 \<or> mode = PADDING_MODE_PKCS7"
      by (auto simp: check_padding_mode_def PADDING_MODE_COUNT_def PADDING_MODE_ISO7816_4_def PADDING_MODE_PKCS7_def)
    obtain tail where tail: "add_padding rest (int (length rest)) mode = Some (Inr tail)" using True pre(4) by (simp add: add_padding_def)
    note rm = remove_added_padding [OF pre(4) tail]
    let ?c = "out @ des_crypt ?SK tail"
    have c: "ldesencode key text mode = Some (Inr ?c)" using enc tail by simp
    have len: "length ?c = 8 * q + 8" using pre(2) q by simp
    have "des_crypt (reverse_pairs ?SK) (des_crypt ?SK tail) = tail" by (rule des_crypt_inverse) (use rm in simp_all)
    then have "fst (whole_blocks (reverse_pairs ?SK) (des_crypt ?SK tail)) = tail"
      using rm by (simp add: whole_blocks.simps [of _ "des_crypt _ _"] whole_blocks.simps [of _ "[]"])
    then have "fst (whole_blocks (decode_keys ?SK) ?c) = pre @ tail" using pre(5) by (simp add: decode_keys_reverse)
    then have buf: "fst (crypt_loop (decode_keys ?SK) 0 (int (length ?c)) ?c) = pre @ tail"
      using crypt_loop_blocks [of "int (length ?c)" 0 ?c "decode_keys ?SK"] len by simp
    have cut: "take (8 * q + 8 - nat (8 - int (length rest))) (pre @ tail) = text"
    proof -
      have "8 * q + 8 - nat (8 - int (length rest)) = length pre + length rest" using pre(4) q by linarith
      then show ?thesis using rm pre(1) by simp
    qed
    have "ldesdecode key ?c mode = (if 8 * q + 8 \<le> int_max then Some (Inr text) else None)"
      using key len buf cut rm pre(4) by (simp add: ldesdecode_def des_key_def Let_def)
    moreover have "8 * q + 8 \<le> int_max \<longleftrightarrow> length text < 2147483640" using size(1) pre(4) by presburger
    ultimately have "\<exists>c. ldesencode key text mode = Some (Inr c) \<and> length c = (length text div 8 + 1) * 8 \<and>
        ldesdecode key c mode = (if length text < 2147483640 then Some (Inr text) else None)"
      using c len size(2) by (intro exI [of _ ?c]) simp
    then show ?thesis using key modes by simp
  qed
qed

theorem des_roundtrip_witness:
  "\<exists>c. ldesencode (replicate 8 1) [65, 66, 67] PADDING_MODE_PKCS7 = Some (Inr c) \<and> length c = 8 \<and>
     ldesdecode (replicate 8 1) c PADDING_MODE_PKCS7 = Some (Inr [65, 66, 67])"
  using des_roundtrip [of "[65, 66, 67]" "replicate 8 1" PADDING_MODE_PKCS7] by simp

end
