(* ===== verification/DH.thy ===== *)
theory DH
  imports Prelude
begin

text \<open>
  The Diffie-Hellman key exchange of \<^verbatim>\<open>lua-crypt.c\<close>: multiplication and exponentiation modulo
  the largest 64-bit prime without 128-bit arithmetic, and the two functions that Lua calls. A
  recursion that does not end has the value \<open>None\<close>.
\<close>

definition P :: u64 where "P = 0xffffffffffffffc5"
definition G :: u64 where "G = 5"

subsection \<open>Arithmetic modulo the prime\<close>

text \<open>The loop of \<^verbatim>\<open>mul_mod_p\<close>.\<close>

function mul_loop :: "u64 \<Rightarrow> u64 \<Rightarrow> u64 \<Rightarrow> u64" where
  "mul_loop m a b =
     (if b = 0 then m
      else
        let m = (if b AND 1 \<noteq> 0 then let t = P - a in if m \<ge> t then m - t else m + a else m);
            a = (if a \<ge> P - a then a * 2 - P else a * 2)
        in mul_loop m a (drop_bit 1 b))"
  by pat_completeness auto
termination
proof (relation "measure (\<lambda>(m, a, b). unat b)")
  fix b m a x y :: u64
  assume "b \<noteq> 0"
  then have "0 < unat b" by (simp add: unat_gt_0)
  then have "unat (drop_bit 1 b) < unat b" unfolding unat_drop_bit_eq drop_bit_eq_div [where 'a = nat] by simp
  then show "((x, y, drop_bit 1 b), m, a, b) \<in> measure (\<lambda>(m, a, b). unat b)" by simp
qed simp

declare mul_loop.simps [simp del]

definition mul_mod_p :: "u64 \<Rightarrow> u64 \<Rightarrow> u64" where
  "mul_mod_p a b = mul_loop 0 a b"

partial_function (option) pow_mod_p :: "u64 \<Rightarrow> u64 \<Rightarrow> u64 option" where
  "pow_mod_p a b =
     (if b = 1 then Some a
      else do {
        t \<leftarrow> pow_mod_p a (drop_bit 1 b);
        let t = mul_mod_p t t in Some (if b mod 2 \<noteq> 0 then mul_mod_p t a else t)
      })"

declare pow_mod_p.simps [code]

definition powmodp :: "u64 \<Rightarrow> u64 \<Rightarrow> u64 option" where
  "powmodp a b = pow_mod_p (if a > P then a mod P else a) b"

subsection \<open>The functions for Lua\<close>

datatype dh_error = Invalid_X | Invalid_Y | Invalid_Dh_Key | Cant_Be_0

text \<open>Eight bytes as a little-endian number.\<close>

definition read_u32 :: "bytes \<Rightarrow> nat \<Rightarrow> u32" where
  "read_u32 x i = ucast (x ! i) OR push_bit 8 (ucast (x ! (i + 1))) OR push_bit 16 (ucast (x ! (i + 2))) OR
     push_bit 24 (ucast (x ! (i + 3)))"

definition read_u64 :: "bytes \<Rightarrow> u64" where
  "read_u64 x = ucast (read_u32 x 0) OR push_bit 32 (ucast (read_u32 x 4))"

definition push64 :: "u64 \<Rightarrow> bytes" where
  "push64 r = map (\<lambda>i. ucast (drop_bit (8 * i) r AND 0xff)) [0..<8]"

definition ldhsecret :: "bytes \<Rightarrow> bytes \<Rightarrow> (dh_error + bytes) option" where
  "ldhsecret x y =
     (if length x \<noteq> 8 then Some (Inl Invalid_X)
      else if length y \<noteq> 8 then Some (Inl Invalid_Y)
      else
        let xx = read_u64 x; yy = read_u64 y
        in if xx = 0 \<or> yy = 0 then Some (Inl Cant_Be_0) else map_option (\<lambda>r. Inr (push64 r)) (powmodp xx yy))"

definition ldhexchange :: "bytes \<Rightarrow> (dh_error + bytes) option" where
  "ldhexchange x =
     (if length x \<noteq> 8 then Some (Inl Invalid_Dh_Key)
      else
        let x64 = read_u64 x
        in if x64 = 0 then Some (Inl Cant_Be_0) else map_option (\<lambda>r. Inr (push64 r)) (powmodp G x64))"

subsection \<open>Multiplication\<close>

abbreviation p :: nat where "p \<equiv> unat P"

lemma p_value: "p = 18446744073709551557"
  by (simp add: P_def)

lemma unat_P_minus: "unat a < p \<Longrightarrow> unat (P - a) = p - unat a"
  by (simp add: unat_sub word_le_nat_alt)

lemma add_step:
  assumes "unat m < p" "unat a < p"
  shows "unat (if m \<ge> P - a then m - (P - a) else m + a) = (unat m + unat a) mod p"
proof (cases "m \<ge> P - a")
  case True
  then have le: "p - unat a \<le> unat m" using unat_P_minus [OF assms(2)] by (simp add: word_le_nat_alt)
  have "unat (m - (P - a)) = unat m - (p - unat a)" using True unat_P_minus [OF assms(2)] by (simp add: unat_sub)
  also have "\<dots> = (unat m + unat a) - p" using le assms by linarith
  also have "\<dots> = (unat m + unat a) mod p"
  proof -
    have "unat m + unat a = ((unat m + unat a) - p) + p" "(unat m + unat a) - p < p" using le assms by linarith+
    then show ?thesis by (metis mod_add_self2 mod_less)
  qed
  finally show ?thesis using True by simp
next
  case False
  then have lt: "unat m + unat a < p" using unat_P_minus [OF assms(2)] assms by (simp add: word_le_nat_alt)
  moreover have "p < 2 ^ 64" by (simp add: p_value)
  ultimately have "unat (m + a) = unat m + unat a" by (simp add: unat_word_ariths)
  then show ?thesis using False lt by simp
qed

lemma double_step:
  assumes "unat a < p"
  shows "unat (if a \<ge> P - a then a * 2 - P else a * 2) = (unat a * 2) mod p"
proof -
  have "(if a \<ge> P - a then a * 2 - P else a * 2) = (if a \<ge> P - a then a - (P - a) else a + a)" by simp
  then show ?thesis using add_step [OF assms assms] by (simp add: mult_2_right)
qed

lemma mod_add_mult: "(x mod q + y mod q * z) mod q = (x + y * z) mod (q :: nat)"
  by (metis mod_add_eq mod_mod_trivial mod_mult_left_eq)

lemma mul_loop_value:
  "unat m < p \<Longrightarrow> unat a < p \<Longrightarrow> unat (mul_loop m a b) = (unat m + unat a * unat b) mod p"
proof (induction m a b rule: mul_loop.induct)
  case (1 m a b)
  show ?case
  proof (cases "b = 0")
    case True
    then show ?thesis using 1(2) by (simp add: mul_loop.simps [of m a 0])
  next
    case False
    define m' where "m' = (if b AND 1 \<noteq> 0 then let t = P - a in if m \<ge> t then m - t else m + a else m)"
    define a' where "a' = (if a \<ge> P - a then a * 2 - P else a * 2)"
    have pos: "0 < p" by (simp add: p_value)
    have odd: "b AND 1 \<noteq> 0 \<longleftrightarrow> odd (unat b)" by (simp add: and_one_eq odd_iff_mod_2_eq_one unat_eq_0 [symmetric] unat_mod)
    have m': "unat m' = (unat m + unat a * (unat b mod 2)) mod p"
      using add_step [OF 1(2,3)] 1(2) odd by (auto simp: m'_def Let_def odd_iff_mod_2_eq_one)
    have a': "unat a' = (unat a * 2) mod p" using double_step [OF 1(3)] by (simp add: a'_def)
    have half: "unat (drop_bit 1 b) = unat b div 2" unfolding unat_drop_bit_eq drop_bit_eq_div [where 'a = nat] by simp
    have "unat (mul_loop m a b) = unat (mul_loop m' a' (drop_bit 1 b))"
      using False by (simp add: mul_loop.simps [of m a b] m'_def a'_def Let_def)
    also have "\<dots> = (unat m' + unat a' * unat (drop_bit 1 b)) mod p"
      using 1(1) [OF False m'_def a'_def] m' a' pos by simp
    also have "\<dots> = (unat m + unat a * (unat b mod 2) + (unat a * 2) * (unat b div 2)) mod p"
      unfolding m' a' half by (rule mod_add_mult)
    also have "unat m + unat a * (unat b mod 2) + (unat a * 2) * (unat b div 2) =
        unat m + unat a * (2 * (unat b div 2) + unat b mod 2)"
      by (simp only: distrib_left mult.assoc add.assoc add.commute [of "unat a * (unat b mod 2)"])
    also have "\<dots> = unat m + unat a * unat b" by simp
    finally show ?thesis .
  qed
qed

lemma mul_mod_p_value: "unat a < p \<Longrightarrow> unat (mul_mod_p a b) = (unat a * unat b) mod p"
  using mul_loop_value [of 0 a b] by (simp add: mul_mod_p_def p_value)

subsection \<open>Exponentiation\<close>

lemma pow_mod_p_value:
  "b \<noteq> 0 \<Longrightarrow> unat a < p \<Longrightarrow> \<exists>r. pow_mod_p a b = Some r \<and> unat r = unat a ^ unat b mod p"
proof (induction "unat b" arbitrary: b rule: less_induct)
  case less
  show ?case
  proof (cases "b = 1")
    case True
    then show ?thesis using less.prems by (subst pow_mod_p.simps) simp
  next
    case False
    let ?h = "drop_bit 1 b"
    have half: "unat ?h = unat b div 2" unfolding unat_drop_bit_eq drop_bit_eq_div [where 'a = nat] by simp
    have ne: "unat b \<noteq> 0" "unat b \<noteq> 1" using less.prems(1) False by (simp_all add: word_unat_eq_iff)
    then have "?h \<noteq> 0" "unat ?h < unat b" using half by (auto simp: unat_eq_0 [symmetric])
    then obtain t where t: "pow_mod_p a ?h = Some t" "unat t = unat a ^ (unat b div 2) mod p"
      using less.hyps [of ?h] less.prems(2) half by auto
    have pos: "0 < p" by (simp add: p_value)
    define s where "s = mul_mod_p t t"
    have s: "unat s = unat a ^ (2 * (unat b div 2)) mod p"
      using mul_mod_p_value [of t t] t(2) pos by (simp add: s_def mod_mult_eq power_add [symmetric] mult_2)
    have odd: "b mod 2 \<noteq> 0 \<longleftrightarrow> unat b mod 2 = 1" by (simp add: unat_eq_0 [symmetric] unat_mod)
    have r: "pow_mod_p a b = Some (if b mod 2 \<noteq> 0 then mul_mod_p s a else s)"
      using False t(1) by (subst pow_mod_p.simps) (simp add: s_def)
    have "unat (if b mod 2 \<noteq> 0 then mul_mod_p s a else s) = unat a ^ unat b mod p"
    proof (cases "unat b mod 2 = 1")
      case True
      then have b: "unat b = 2 * (unat b div 2) + 1" by presburger
      have "unat (mul_mod_p s a) = unat a ^ (2 * (unat b div 2)) * unat a mod p"
        using mul_mod_p_value [of s a] s pos by (simp add: mod_mult_left_eq)
      also have "unat a ^ (2 * (unat b div 2)) * unat a = unat a ^ (2 * (unat b div 2) + 1)" by (simp add: mult.commute)
      also have "2 * (unat b div 2) + 1 = unat b" using b by (rule sym)
      finally show ?thesis using odd True by simp
    next
      case even: False
      then have "2 * (unat b div 2) = unat b" by presburger
      then show ?thesis using odd even s by simp
    qed
    then show ?thesis using r by blast
  qed
qed

text \<open>With the exponent 0 the recursion never reaches 1.\<close>

lemma pow_mod_p_zero: "pow_mod_p a 0 = None"
proof -
  have "b \<noteq> 0" if "pow_mod_p a b = Some y" for b y
  proof (rule pow_mod_p.raw_induct [where P = "\<lambda>a b y. b \<noteq> 0", OF _ that])
    fix f :: "u64 \<Rightarrow> u64 \<Rightarrow> u64 option" and a b y
    assume "\<And>a b y. f a b = Some y \<Longrightarrow> b \<noteq> 0"
      "(if b = 1 then Some a else f a (drop_bit 1 b) \<bind> (\<lambda>t. let t = mul_mod_p t t in Some (if b mod 2 \<noteq> 0 then mul_mod_p t a else t))) = Some y"
    then show "b \<noteq> 0" by (cases "b = 0") (fastforce simp: bind_eq_Some_conv)+
  qed
  then show ?thesis by (cases "pow_mod_p a 0") auto
qed

lemma powmodp_value:
  assumes "b \<noteq> 0" "a \<noteq> P"
  shows "\<exists>r. powmodp a b = Some r \<and> unat r = unat a ^ unat b mod p"
proof (cases "a > P")
  case True
  have "unat (a mod P) = unat a mod p" by (simp add: unat_mod)
  moreover have "0 < p" by (simp add: p_value)
  ultimately show ?thesis
    using pow_mod_p_value [OF assms(1), of "a mod P"] True by (simp add: powmodp_def power_mod)
next
  case False
  then have "unat a < p" using assms(2) by (simp add: word_less_nat_alt [symmetric])
  then show ?thesis using pow_mod_p_value [OF assms(1)] False by (simp add: powmodp_def)
qed

text \<open>The comparison lets the prime itself through unreduced.\<close>

lemma powmodp_prime: "powmodp P 1 = Some P"
  by (simp add: powmodp_def pow_mod_p.simps)

subsection \<open>Bytes\<close>

lemma bit_read_u32:
  "bit (read_u32 x i) n = (if n < 8 then bit (x ! i) n else if n < 16 then bit (x ! (i + 1)) (n - 8)
     else if n < 24 then bit (x ! (i + 2)) (n - 16) else n < 32 \<and> bit (x ! (i + 3)) (n - 24))"
  by (simp only: read_u32_def bit_of_le_bytes)

lemma bit_read_u64:
  "bit (read_u64 x) n = (if n < 32 then bit (read_u32 x 0) n else n < 64 \<and> bit (read_u32 x 4) (n - 32))"
  by (auto simp: read_u64_def bit_simps dest: bit_imp_le_length)

lemma length_push64 [simp]: "length (push64 r) = 8"
  by (simp add: push64_def)

lemma nth_push64: "i < 8 \<Longrightarrow> push64 r ! i = ucast (drop_bit (8 * i) r)"
  unfolding push64_def and_masks by (simp, rule bit_word_eqI) (auto simp: bit_simps)

lemma read_push64: "read_u64 (push64 r) = r"
  by (rule bit_word_eqI) (auto simp: bit_read_u64 bit_read_u32 nth_push64 bit_simps)

subsection \<open>Guarantees\<close>

lemma coprime_G: "coprime p (unat G ^ n)"
proof -
  have "gcd (18446744073709551557 :: nat) 5 = gcd 5 2" by (subst gcd_red_nat) simp
  also have "\<dots> = gcd 2 1" by (subst gcd_red_nat) simp
  finally have "coprime (18446744073709551557 :: nat) 5" by (simp add: coprime_iff_gcd_eq_1)
  then show ?thesis by (simp add: p_value G_def)
qed

lemma public_value:
  assumes "length a = 8" "read_u64 a \<noteq> 0"
  obtains A where "ldhexchange a = Some (Inr (push64 A))" "unat A = 5 ^ unat (read_u64 a) mod p" "A \<noteq> 0" "A \<noteq> P"
proof -
  have "G \<noteq> P" by (simp add: G_def P_def)
  then obtain A where A: "powmodp G (read_u64 a) = Some A" "unat A = unat G ^ unat (read_u64 a) mod p"
    using powmodp_value [OF assms(2)] by blast
  have "unat A < p" using A(2) by (simp add: p_value)
  moreover have "unat A \<noteq> 0"
  proof
    assume "unat A = 0"
    then have "p dvd unat G ^ unat (read_u64 a)" using A(2) by (simp add: mod_eq_0_iff_dvd)
    then have "is_unit p" using coprime_G [of "unat (read_u64 a)"] by (metis coprime_common_divisor dvd_refl)
    then show False by (simp add: p_value)
  qed
  ultimately have "A \<noteq> 0" "A \<noteq> P" by auto
  moreover have "unat G = 5" by (simp add: G_def)
  ultimately show thesis using that A assms by (simp add: ldhexchange_def Let_def)
qed

text \<open>C27. Key agreement: for any two secrets of eight bytes that are not zero, the exchange returns the
  power of the generator modulo the prime on both sides, and each side computes the same secret
  from its own number and the other's public one; neither call refuses its arguments or runs
  forever.\<close>

theorem dh_agreement:
  assumes "length a = 8" "length b = 8" "read_u64 a \<noteq> 0" "read_u64 b \<noteq> 0"
  shows "\<exists>A B s. ldhexchange a = Some (Inr A) \<and> ldhexchange b = Some (Inr B) \<and>
    unat (read_u64 A) = 5 ^ unat (read_u64 a) mod p \<and>
    ldhsecret A b = Some (Inr s) \<and> ldhsecret B a = Some (Inr s) \<and>
    unat (read_u64 s) = 5 ^ (unat (read_u64 a) * unat (read_u64 b)) mod p"
proof -
  obtain A where A: "ldhexchange a = Some (Inr (push64 A))" "unat A = 5 ^ unat (read_u64 a) mod p" "A \<noteq> 0" "A \<noteq> P"
    using public_value [OF assms(1,3)] .
  obtain B where B: "ldhexchange b = Some (Inr (push64 B))" "unat B = 5 ^ unat (read_u64 b) mod p" "B \<noteq> 0" "B \<noteq> P"
    using public_value [OF assms(2,4)] .
  obtain s where s: "powmodp A (read_u64 b) = Some s" "unat s = unat A ^ unat (read_u64 b) mod p"
    using powmodp_value [OF assms(4) A(4)] by blast
  obtain t where t: "powmodp B (read_u64 a) = Some t" "unat t = unat B ^ unat (read_u64 a) mod p"
    using powmodp_value [OF assms(3) B(4)] by blast
  have sv: "unat s = 5 ^ (unat (read_u64 a) * unat (read_u64 b)) mod p"
    unfolding s(2) A(2) by (simp add: power_mod power_mult)
  moreover have "unat t = 5 ^ (unat (read_u64 a) * unat (read_u64 b)) mod p"
    unfolding t(2) B(2) by (simp add: power_mod power_mult [symmetric] mult.commute)
  ultimately have "s = t" by (simp add: word_unat_eq_iff)
  then have "ldhsecret (push64 A) b = Some (Inr (push64 s))" "ldhsecret (push64 B) a = Some (Inr (push64 s))"
    using s(1) t(1) A(3) B(3) assms by (simp_all add: ldhsecret_def read_push64)
  then show ?thesis using A(1,2) B(1) sv
    by (intro exI [of _ "push64 A"] exI [of _ "push64 B"] exI [of _ "push64 s"]) (simp add: read_push64)
qed

theorem dh_agreement_witness:
  "\<exists>A B s. ldhexchange [3,0,0,0,0,0,0,0] = Some (Inr A) \<and> ldhexchange [2,0,0,0,0,0,0,0] = Some (Inr B) \<and>
     ldhsecret A [2,0,0,0,0,0,0,0] = Some (Inr s) \<and> ldhsecret B [3,0,0,0,0,0,0,0] = Some (Inr s) \<and>
     unat (read_u64 s) = 15625"
proof -
  have v: "read_u64 [3,0,0,0,0,0,0,0] = 3" "read_u64 [2,0,0,0,0,0,0,0] = 2" by (simp_all add: read_u64_def read_u32_def)
  then have "read_u64 [3,0,0,0,0,0,0,0] \<noteq> 0" "read_u64 [2,0,0,0,0,0,0,0] \<noteq> 0" by simp_all
  from dh_agreement [OF _ _ this] v show ?thesis by (auto simp: p_value)
qed

end
