(* ===== verification/Crypt_Text.thy ===== *)
theory Crypt_Text
  imports Prelude
begin

text \<open>
  The text codings of \<^verbatim>\<open>lua-crypt.c\<close>: hexadecimal, base64, the exclusive or of strings, the
  64-bit string hash and random keys. A Lua string is the list of its bytes; an error raised to
  Lua is a value of the left side of a sum. The code counts with \<^verbatim>\<open>int\<close>s: \<open>None\<close> is the
  overflow of one, an access outside a buffer, or a result with bytes that were never written.
\<close>

datatype text_error = Invalid_Hex_Size nat | Invalid_Hex | Invalid_Base64 | Empty_Key

definition ascii :: "string \<Rightarrow> bytes" where
  "ascii s = map of_char s"

subsection \<open>Hexadecimal\<close>

definition hex :: bytes where "hex = ascii ''0123456789abcdef''"

text \<open>The loop from \<open>i\<close> on, which writes at \<^verbatim>\<open>i*2\<close> and \<^verbatim>\<open>i*2+1\<close>.\<close>

fun tohex_loop :: "int \<Rightarrow> bytes \<Rightarrow> bytes option" where
  "tohex_loop i [] = Some []"
| "tohex_loop i (b # text) = do {
     c_assert (i * 2 + 1 \<le> INT_MAX);
     out \<leftarrow> tohex_loop (i + 1) text;
     Some (hex ! unat (drop_bit 4 b) # hex ! unat (b AND 0xf) # out)
   }"

definition ltohex :: "bytes \<Rightarrow> bytes option" where
  "ltohex text = tohex_loop 0 text"

text \<open>The macro computes in \<^verbatim>\<open>uint8_t\<close>, so the subtractions wrap.\<close>

definition HEX :: "u8 \<Rightarrow> u8" where
  "HEX c = (if 48 \<le> c \<and> c \<le> 57 then c - 48 else c - 97 + 10)"

fun fromhex_loop :: "int \<Rightarrow> bytes \<Rightarrow> (text_error + bytes) option" where
  "fromhex_loop i (x # y # text) =
     (let hi = HEX x; low = HEX y
      in if hi > 16 \<or> low > 16 then Some (Inl Invalid_Hex)
         else do {
           c_assert (i + 2 \<le> INT_MAX);
           r \<leftarrow> fromhex_loop (i + 2) text;
           Some (map_sum id (\<lambda>out. (push_bit 4 hi OR low) # out) r)
         })"
| "fromhex_loop i _ = Some (Inr [])"

definition lfromhex :: "bytes \<Rightarrow> (text_error + bytes) option" where
  "lfromhex text = (if length text mod 2 = 1 then Some (Inl (Invalid_Hex_Size (length text))) else fromhex_loop 0 text)"

subsection \<open>Base64\<close>

definition encoding :: bytes where
  "encoding = ascii ''ABCDEFGHIJKLMNOPQRSTUVWXYZabcdefghijklmnopqrstuvwxyz0123456789+/''"

definition enc :: "u32 \<Rightarrow> u8" where "enc v = encoding ! unat v"

definition SMALL_CHUNK :: int where "SMALL_CHUNK = 256"

text \<open>The size of the buffer: on the stack for small results.\<close>

definition buffer_size :: "int \<Rightarrow> int" where
  "buffer_size sz = (if sz > SMALL_CHUNK then sz else SMALL_CHUNK)"

text \<open>
  The loop over the groups of three bytes from \<open>i\<close> on, which writes from \<open>j\<close> on: what it writes, the last
  \<open>i\<close> and the text it leaves.
\<close>

fun encode_loop :: "int \<Rightarrow> int \<Rightarrow> int \<Rightarrow> int \<Rightarrow> bytes \<Rightarrow> (bytes \<times> int \<times> bytes) option" where
  "encode_loop bound bufsz i j (a # b # c # text) =
     (if i < bound
      then do {
        let v = (push_bit 16 (ucast a) OR push_bit 8 (ucast b) OR ucast c :: u32);
        c_assert (j + 3 < bufsz);
        (out, i1, rest) \<leftarrow> encode_loop bound bufsz (i + 3) (j + 4) text;
        Some (enc (drop_bit 18 v) # enc (drop_bit 12 v AND 0x3f) # enc (drop_bit 6 v AND 0x3f) # enc (v AND 0x3f) # out, i1, rest)
      }
      else Some ([], i, a # b # c # text))"
| "encode_loop bound bufsz i j text = (if i < bound then None else Some ([], i, text))"

definition encode_tail :: "int \<Rightarrow> bytes \<Rightarrow> bytes option" where
  "encode_tail padding text =
     (if padding = 1
      then (case text of a # rest \<Rightarrow> (let v = ucast a :: u32 in Some [enc (drop_bit 2 v), enc (push_bit 4 (v AND 3)), 61, 61]) | _ \<Rightarrow> None)
      else if padding = 2
      then (case text of a # b # rest \<Rightarrow>
              (let v = push_bit 8 (ucast a) OR ucast b :: u32
               in Some [enc (drop_bit 10 v), enc (drop_bit 4 v AND 0x3f), enc (push_bit 2 (v AND 0xf)), 61]) | _ \<Rightarrow> None)
      else Some [])"

definition lb64encode :: "bytes \<Rightarrow> bytes option" where
  "lb64encode text = do {
     let sz = length text;
     let encode_sz = int_of_size ((sz + 2) div 3 * 4);
     let bufsz = buffer_size encode_sz;
     c_assert (- (2 ^ 31) \<le> int_of_size sz - 2);
     (out, i, rest) \<leftarrow> encode_loop (int_of_size sz - 2) bufsz 0 0 text;
     tail \<leftarrow> encode_tail (int_of_size (sz - nat i)) rest;
     c_assert (int (length (out @ tail)) \<le> bufsz);
     c_assert (0 \<le> encode_sz \<and> encode_sz \<le> int (length (out @ tail)));
     Some (take (nat encode_sz) (out @ tail))
   }"

definition decoding :: "int list" where
  "decoding = [62,-1,-1,-1,63,52,53,54,55,56,57,58,59,60,61,-1,-1,-1,-2,-1,-1,-1,0,1,2,3,4,5,6,7,8,9,10,11,12,13,14,15,16,17,18,19,
     20,21,22,23,24,25,-1,-1,-1,-1,-1,-1,26,27,28,29,30,31,32,33,34,35,36,37,38,39,40,41,42,43,44,45,46,47,48,49,50,51]"

definition b64index :: "u8 \<Rightarrow> int" where
  "b64index c =
     (if c < 43 then -1
      else if int (unat (c - 43)) \<ge> int (length decoding) then -1 else decoding ! unat (c - 43))"

text \<open>
  The inner loop at \<open>i\<close>: the next \<open>j\<close> indices, without the characters that are no base64 (index -1), the next
  \<open>i\<close> and the rest of the text. Behind the end of the text the index is that of an equal sign (-2).
\<close>

fun collect_loop :: "nat \<Rightarrow> int \<Rightarrow> bytes \<Rightarrow> (int list \<times> int \<times> bytes) option" where
  "collect_loop 0 i text = Some ([], i, text)"
| "collect_loop (Suc j) i [] = do {
     c_assert (i < INT_MAX);
     (c, i1, rest) \<leftarrow> collect_loop j (i + 1) [];
     Some (-2 # c, i1, rest)
   }"
| "collect_loop (Suc j) i (b # text) = do {
     c_assert (i < INT_MAX);
     if b64index b = -1 then collect_loop (Suc j) (i + 1) text
     else do { (c, i1, rest) \<leftarrow> collect_loop j (i + 1) text; Some (b64index b # c, i1, rest) }
   }"

definition decode_group :: "int list \<Rightarrow> text_error + bytes" where
  "decode_group c =
     (let padding = length (filter (\<lambda>x. x = -2) c); w = (\<lambda>j. word_of_int (c ! j) :: u32)
      in if padding = 0 then
           let v = push_bit 18 (w 0) OR push_bit 12 (w 1) OR push_bit 6 (w 2) OR w 3
           in Inr [ucast (drop_bit 16 v), ucast (drop_bit 8 v AND 0xff), ucast (v AND 0xff)]
         else if padding = 1 then
           if c ! 3 \<noteq> -2 \<or> c ! 2 AND 3 \<noteq> 0 then Inl Invalid_Base64
           else let v = push_bit 10 (w 0) OR push_bit 4 (w 1) OR drop_bit 2 (w 2)
                in Inr [ucast (drop_bit 8 v), ucast (v AND 0xff)]
         else if padding = 2 then
           if c ! 3 \<noteq> -2 \<or> c ! 2 \<noteq> -2 \<or> c ! 1 AND 0xf \<noteq> 0 then Inl Invalid_Base64
           else let v = push_bit 2 (w 0) OR drop_bit 4 (w 1) in Inr [ucast v]
         else Inl Invalid_Base64)"

text \<open>The pure inner loop.\<close>

fun collect :: "nat \<Rightarrow> bytes \<Rightarrow> int list \<times> bytes" where
  "collect 0 text = ([], text)"
| "collect (Suc j) [] = (let (c, rest) = collect j [] in (-2 # c, rest))"
| "collect (Suc j) (b # text) =
     (if b64index b = -1 then collect (Suc j) text
      else let (c, rest) = collect j text in (b64index b # c, rest))"

lemma collect_rest: "length (snd (collect j text)) \<le> length text"
  by (induction j "text" rule: collect.induct) (auto simp: split_beta Let_def)

lemma collect_shrinks: "length (snd (collect (Suc j) (b # text))) < length (b # text)"
proof (induction "text" arbitrary: b)
  case Nil
  show ?case using collect_rest [of j "[]"] collect_rest [of "Suc j" "[]"] by (auto simp: split_beta Let_def)
next
  case (Cons b' t)
  show ?case using Cons [of b'] collect_rest [of j "b' # t"] by (auto simp: split_beta Let_def)
qed

lemma collect_loop_collect: "collect_loop j i text = Some (c, i', rest) \<Longrightarrow> collect j text = (c, rest)"
  by (induction j i "text" arbitrary: c i' rest rule: collect_loop.induct)
    (auto simp: bind_Some_iff c_assert_def Let_def split: if_splits prod.splits)

text \<open>The loop over the groups at \<open>i\<close>, which writes from \<open>pos\<close> on.\<close>

function decode_loop :: "int \<Rightarrow> int \<Rightarrow> int \<Rightarrow> bytes \<Rightarrow> (text_error + bytes) option" where
  "decode_loop bufsz i pos text =
     (if text = [] then Some (Inr [])
      else case collect_loop 4 i text of
        None \<Rightarrow> None
      | Some (c, i1, rest) \<Rightarrow>
          (case decode_group c of
             Inl e \<Rightarrow> Some (Inl e)
           | Inr out \<Rightarrow> do {
               c_assert (pos + int (length out) \<le> bufsz);
               r \<leftarrow> decode_loop bufsz i1 (pos + int (length out)) rest;
               Some (map_sum id (\<lambda>out'. out @ out') r)
             }))"
  by pat_completeness auto
termination
proof (relation "measure (\<lambda>(bufsz, i, pos, text). length text)")
  fix bufsz i pos :: int and t and x and y and c and z and i1 and rest and out
  assume t: "t \<noteq> []" "collect_loop 4 i t = Some x" "(c, y) = x" "(i1, rest) = y"
  then obtain b t' where "t = b # t'" by (cases t) auto
  moreover have "collect (Suc 3) t = (c, rest)" using collect_loop_collect [of 4 i t c i1 rest] t by (simp add: numeral_eq_Suc)
  ultimately have "length rest < length t" using collect_shrinks [of 3 b t'] by simp
  then show "((bufsz, i1, pos + int (length out), rest), bufsz, i, pos, t) \<in> measure (\<lambda>(bufsz, i, pos, text). length text)" by simp
qed simp

declare decode_loop.simps [simp del]

definition lb64decode :: "bytes \<Rightarrow> (text_error + bytes) option" where
  "lb64decode text = decode_loop (buffer_size (int_of_size ((length text + 3) div 4 * 3))) 0 0 text"

subsection \<open>Exclusive or, hash and random keys\<close>

definition lxor_str :: "bytes \<Rightarrow> bytes \<Rightarrow> (text_error + bytes) option" where
  "lxor_str s1 s2 =
     (if s2 = [] then Some (Inl Empty_Key)
      else do {
        c_assert (length s1 \<le> int_max);
        Some (Inr (map (\<lambda>i. s1 ! i XOR s2 ! (i mod length s2)) [0..<length s1]))
      })"

fun hash_loop :: "u32 \<Rightarrow> u32 \<Rightarrow> bytes \<Rightarrow> u32 \<times> u32" where
  "hash_loop djb js [] = (djb, js)"
| "hash_loop djb js (b # str) =
     (let c = ucast b
      in hash_loop (djb + (push_bit 5 djb + c)) (js XOR (push_bit 5 js + c + drop_bit 2 js)) str)"

definition le_bytes :: "u32 \<Rightarrow> bytes" where
  "le_bytes w = [ucast (w AND 0xff), ucast (drop_bit 8 w AND 0xff), ucast (drop_bit 16 w AND 0xff),
     ucast (drop_bit 24 w AND 0xff)]"

definition Hash :: "bytes \<Rightarrow> int \<Rightarrow> bytes" where
  "Hash str sz = (let (djb, js) = hash_loop 5381 1315423911 (take (nat sz) str) in le_bytes djb @ le_bytes js)"

definition lhashkey :: "bytes \<Rightarrow> bytes" where
  "lhashkey key = Hash key (int_of_size (length key))"

text \<open>\<open>rs\<close>: the eight numbers that \<^verbatim>\<open>random()\<close> gives.\<close>

definition lrandomkey :: "u64 list \<Rightarrow> bytes" where
  "lrandomkey rs =
     (let tmp = map (\<lambda>r. ucast (r AND 0xff)) rs; x = fold (XOR) tmp 0
      in if x = 0 then tmp[0 := tmp ! 0 OR 1] else tmp)"

subsection \<open>The codings as functions of texts\<close>

fun base64_text :: "bytes \<Rightarrow> bytes" where
  "base64_text (a # b # c # text) =
     (let v = push_bit 16 (ucast a) OR push_bit 8 (ucast b) OR ucast c :: u32
      in enc (drop_bit 18 v) # enc (drop_bit 12 v AND 0x3f) # enc (drop_bit 6 v AND 0x3f) # enc (v AND 0x3f) #
         base64_text text)"
| "base64_text [a] =
     (let v = ucast a :: u32 in [enc (drop_bit 2 v), enc (push_bit 4 (v AND 3)), 61, 61])"
| "base64_text [a, b] =
     (let v = push_bit 8 (ucast a) OR ucast b :: u32
      in [enc (drop_bit 10 v), enc (drop_bit 4 v AND 0x3f), enc (push_bit 2 (v AND 0xf)), 61])"
| "base64_text [] = []"

function base64_parse :: "bytes \<Rightarrow> text_error + bytes" where
  "base64_parse text =
     (if text = [] then Inr []
      else let (c, rest) = collect 4 text
           in case decode_group c of
                Inl e \<Rightarrow> Inl e
              | Inr out \<Rightarrow> map_sum id (\<lambda>out'. out @ out') (base64_parse rest))"
  by pat_completeness auto
termination
proof (relation "measure length")
  fix t p c rest out
  assume "t \<noteq> []" "p = collect 4 t" "(c, rest) = p"
  then obtain b t' where "t = b # t'" "(c, rest) = collect (Suc 3) (b # t')" by (cases t) (auto simp: numeral_eq_Suc)
  moreover from this(2) have "rest = snd (collect (Suc 3) (b # t'))" by (metis snd_conv)
  ultimately show "(rest, t) \<in> measure length" using collect_shrinks [of 3 b t'] by (simp only: in_measure)
qed simp

declare base64_parse.simps [simp del]

subsection \<open>Properties of the tables\<close>

lemma HEX_hex: "n < 16 \<Longrightarrow> HEX (hex ! n) = of_nat n"
proof -
  have "\<forall>n \<in> set [0..<16]. HEX (hex ! n) = of_nat n" by code_simp
  then show "n < 16 \<Longrightarrow> HEX (hex ! n) = of_nat n" by simp
qed

lemma b64index_encoding: "n < 64 \<Longrightarrow> b64index (encoding ! n) = int n"
proof -
  have "\<forall>n \<in> set [0..<64]. b64index (encoding ! n) = int n" by code_simp
  then show "n < 64 \<Longrightarrow> b64index (encoding ! n) = int n" by simp
qed

lemma b64index_enc: "unat w < 64 \<Longrightarrow> b64index (enc w) = uint w"
  using b64index_encoding [of "unat w"] by (simp add: enc_def)

lemma b64index_pad: "b64index 61 = -2"
  by code_simp

lemma byte_nibbles:
  "unat (drop_bit 4 b) < 16" "unat (b AND 0xf) < 16" "push_bit 4 (drop_bit 4 b) OR (b AND 0xf) = (b :: u8)"
proof -
  show "unat (drop_bit 4 b) < 16" using unat_lt8 [of b] unfolding unat_drop_bit_eq drop_bit_eq_div [where 'a = nat] by simp
  show "unat (b AND 0xf) < 16" using unat_take_bit_less [of 4 b] by (simp add: and_masks)
  show "push_bit 4 (drop_bit 4 b) OR (b AND 0xf) = b" unfolding and_masks by (rule bit_word_eqI) (auto simp: bit_simps)
qed

subsection \<open>Round trips\<close>

lemma tohex_loop_some:
  "0 \<le> i \<Longrightarrow> (i + int (length text)) * 2 - 1 \<le> INT_MAX \<Longrightarrow>
   \<exists>t. tohex_loop i text = Some t \<and> length t = 2 * length text \<and>
     (\<forall>k. k + 2 * int (length text) \<le> INT_MAX \<longrightarrow> fromhex_loop k t = Some (Inr text))"
proof (induction "text" arbitrary: i)
  case (Cons b t)
  have small: "\<not> of_nat (unat w) > (16 :: u8)" if "unat w < 16" for w :: u8
    using that by (simp add: word_less_nat_alt)
  obtain t' where t': "tohex_loop (i + 1) t = Some t'" "length t' = 2 * length t"
    "\<And>k. k + 2 * int (length t) \<le> INT_MAX \<Longrightarrow> fromhex_loop k t' = Some (Inr t)"
    using Cons.IH [of "i + 1"] Cons.prems by auto
  show ?case
    using t' Cons.prems byte_nibbles [of b] HEX_hex small [of "drop_bit 4 b"] small [of "b AND 0xf"]
    by (auto simp: Let_def)
qed simp

lemma tohex_loop_none:
  "0 \<le> i \<Longrightarrow> text \<noteq> [] \<Longrightarrow> INT_MAX < (i + int (length text)) * 2 - 1 \<Longrightarrow> tohex_loop i text = None"
proof (induction "text" arbitrary: i)
  case (Cons b t)
  show ?case
  proof (cases "t = []")
    case True
    then show ?thesis using Cons.prems by simp
  next
    case False
    then show ?thesis using Cons.IH [of "i + 1"] Cons.prems by (simp add: algebra_simps)
  qed
qed simp

lemma collect_enc:
  "unat w < 64 \<Longrightarrow> collect (Suc j) (enc w # text) = (uint w # fst (collect j text), snd (collect j text))"
proof -
  assume "unat w < 64"
  moreover have "uint w \<noteq> -1" using uint_ge_0 [of w] by linarith
  ultimately show ?thesis using b64index_enc [of w] by (simp add: split_beta Let_def)
qed

lemma collect_pad: "collect (Suc j) (61 # text) = (-2 # fst (collect j text), snd (collect j text))"
  using b64index_pad by (simp add: split_beta Let_def)

lemma base64_parse_step:
  "text \<noteq> [] \<Longrightarrow> collect 4 text = (c, rest) \<Longrightarrow> decode_group c = Inr out \<Longrightarrow>
   base64_parse text = map_sum id (\<lambda>out'. out @ out') (base64_parse rest)"
  by (subst base64_parse.simps) simp

text \<open>The indices of a group.\<close>

definition idx :: "u32 \<Rightarrow> bool" where "idx w \<longleftrightarrow> unat w < 64"

lemma idx_masked [simp]: "idx (w AND 0x3f)"
  using unat_take_bit_less [of 6 w] by (simp add: idx_def and_masks)

lemma idx_below: "w < 64 \<Longrightarrow> idx w"
  by (simp add: idx_def word_less_nat_alt)

lemma collect_idx: "idx w \<Longrightarrow> collect (Suc j) (enc w # text) = (uint w # fst (collect j text), snd (collect j text))"
  by (rule collect_enc) (simp add: idx_def)

lemma idx_bits: "(\<And>n. 6 \<le> n \<Longrightarrow> \<not> bit w n) \<Longrightarrow> idx w"
proof -
  assume high: "\<And>n. 6 \<le> n \<Longrightarrow> \<not> bit w n"
  have "w = take_bit 6 w" by (rule bit_word_eqI) (use high not_le in \<open>auto simp: bit_simps\<close>)
  then show ?thesis using unat_take_bit_less [of 6 w] by (simp add: idx_def)
qed

lemma not_pad: "uint (w :: u32) \<noteq> -2"
  using uint_ge_0 [of w] by linarith

text \<open>Putting the groups of bits of a word together again.\<close>

lemma join_bits:
  "push_bit (n + m) (drop_bit (n + m) w) OR push_bit n (take_bit m (drop_bit n w)) = push_bit n (drop_bit n (w :: 'a::len word))"
  by (rule bit_word_eqI) (auto simp: bit_simps cong: conj_cong)

lemma join_low: "push_bit n (drop_bit n w) OR take_bit n w = (w :: 'a::len word)"
  by (rule bit_word_eqI) (auto simp: bit_simps cong: conj_cong)

lemma decode_three:
  fixes a b c :: u8
  defines "v \<equiv> push_bit 16 (ucast a) OR push_bit 8 (ucast b) OR ucast c :: u32"
  shows "idx (drop_bit 18 v)"
    "decode_group [uint (drop_bit 18 v), uint (drop_bit 12 v AND 0x3f), uint (drop_bit 6 v AND 0x3f), uint (v AND 0x3f)] = Inr [a, b, c]"
proof -
  show "idx (drop_bit 18 v)" by (rule idx_bits) (auto simp: v_def bit_simps byte_bits)
  have "push_bit 18 (drop_bit 18 v) OR push_bit 12 (drop_bit 12 v AND 0x3f) OR push_bit 6 (drop_bit 6 v AND 0x3f) OR (v AND 0x3f) = v"
    using join_bits [of 12 6 v] join_bits [of 6 6 v] join_low [of 6 v]
    unfolding and_masks or.assoc [symmetric] by simp
  moreover have "ucast (drop_bit 16 v) = a" "ucast (drop_bit 8 v AND 0xff) = b" "ucast (v AND 0xff) = c"
    unfolding and_masks v_def by (rule bit_word_eqI, auto simp: bit_simps byte_bits)+
  ultimately show "decode_group [uint (drop_bit 18 v), uint (drop_bit 12 v AND 0x3f), uint (drop_bit 6 v AND 0x3f), uint (v AND 0x3f)] = Inr [a, b, c]"
    by (simp add: decode_group_def not_pad numeral_2_eq_2 numeral_3_eq_3)
qed

lemma decode_two:
  fixes a b :: u8
  defines "v \<equiv> push_bit 8 (ucast a) OR ucast b :: u32"
  shows "idx (drop_bit 10 v)" "idx (push_bit 2 (v AND 0xf))"
    "decode_group [uint (drop_bit 10 v), uint (drop_bit 4 v AND 0x3f), uint (push_bit 2 (v AND 0xf)), -2] = Inr [a, b]"
proof -
  show "idx (drop_bit 10 v)" by (rule idx_bits) (auto simp: v_def bit_simps byte_bits)
  show "idx (push_bit 2 (v AND 0xf))" unfolding and_masks by (rule idx_bits) (auto simp: v_def bit_simps byte_bits)
  have "uint (push_bit 2 (v AND 0xf)) AND 3 = uint (push_bit 2 (v AND 0xf) AND 3)" by (simp add: unsigned_and_eq)
  also have "push_bit 2 (v AND 0xf) AND 3 = 0" unfolding and_masks by (rule bit_word_eqI) (auto simp: bit_simps)
  finally have z: "uint (push_bit 2 (v AND 0xf)) AND 3 = 0" by simp
  have "push_bit 10 (drop_bit 10 v) OR push_bit 4 (drop_bit 4 v AND 0x3f) OR drop_bit 2 (push_bit 2 (v AND 0xf)) = v"
  proof -
    have "drop_bit 2 (push_bit 2 (take_bit 4 v)) = take_bit 4 v" by (rule bit_word_eqI) (auto simp: bit_simps)
    then show ?thesis using join_bits [of 4 6 v] join_low [of 4 v] unfolding and_masks or.assoc [symmetric] by simp
  qed
  moreover have "ucast (drop_bit 8 v) = a" "ucast (v AND 0xff) = b"
    unfolding and_masks v_def by (rule bit_word_eqI, auto simp: bit_simps byte_bits)+
  ultimately show "decode_group [uint (drop_bit 10 v), uint (drop_bit 4 v AND 0x3f), uint (push_bit 2 (v AND 0xf)), -2] = Inr [a, b]"
    using z by (simp add: decode_group_def not_pad numeral_2_eq_2 numeral_3_eq_3 del: push_bit_numeral)
qed

lemma decode_one:
  fixes a :: u8
  defines "v \<equiv> ucast a :: u32"
  shows "idx (drop_bit 2 v)" "idx (push_bit 4 (v AND 3))"
    "decode_group [uint (drop_bit 2 v), uint (push_bit 4 (v AND 3)), -2, -2] = Inr [a]"
proof -
  show "idx (drop_bit 2 v)" by (rule idx_bits) (auto simp: v_def bit_simps byte_bits)
  show "idx (push_bit 4 (v AND 3))" unfolding and_masks by (rule idx_bits) (auto simp: v_def bit_simps byte_bits)
  have "uint (push_bit 4 (v AND 3)) AND 0xf = uint (push_bit 4 (v AND 3) AND 0xf)" by (simp add: unsigned_and_eq)
  also have "push_bit 4 (v AND 3) AND 0xf = 0" unfolding and_masks by (rule bit_word_eqI) (auto simp: bit_simps)
  finally have z: "uint (push_bit 4 (v AND 3)) AND 0xf = 0" by simp
  have "push_bit 2 (drop_bit 2 v) OR drop_bit 4 (push_bit 4 (v AND 3)) = v"
  proof -
    have "drop_bit 4 (push_bit 4 (take_bit 2 v)) = take_bit 2 v" by (rule bit_word_eqI) (auto simp: bit_simps)
    then show ?thesis using join_low [of 2 v] unfolding and_masks by simp
  qed
  moreover have "ucast v = a" unfolding v_def by (rule bit_word_eqI) (auto simp: bit_simps)
  ultimately show "decode_group [uint (drop_bit 2 v), uint (push_bit 4 (v AND 3)), -2, -2] = Inr [a]"
    using z by (simp add: decode_group_def not_pad numeral_2_eq_2 numeral_3_eq_3)
qed

lemma four: "4 = Suc (Suc (Suc (Suc 0)))"
  by simp

lemma collect_group:
  "idx w0 \<Longrightarrow> idx w1 \<Longrightarrow> idx w2 \<Longrightarrow> idx w3 \<Longrightarrow>
    collect 4 (enc w0 # enc w1 # enc w2 # enc w3 # rest) = ([uint w0, uint w1, uint w2, uint w3], rest)"
  "idx w0 \<Longrightarrow> idx w1 \<Longrightarrow> idx w2 \<Longrightarrow> collect 4 (enc w0 # enc w1 # enc w2 # 61 # rest) = ([uint w0, uint w1, uint w2, -2], rest)"
  "idx w0 \<Longrightarrow> idx w1 \<Longrightarrow> collect 4 (enc w0 # enc w1 # 61 # 61 # rest) = ([uint w0, uint w1, -2, -2], rest)"
  unfolding four by (simp_all only: collect_idx collect_pad collect.simps(1) fst_conv snd_conv)

lemma decode_group_three: "base64_parse (base64_text (a # b # c # t) @ rest) = map_sum id (\<lambda>out. [a, b, c] @ out) (base64_parse (base64_text t @ rest))"
proof -
  define v :: u32 where "v = push_bit 16 (ucast a) OR push_bit 8 (ucast b) OR ucast c"
  note d = decode_three [of a b c, folded v_def]
  have "base64_text (a # b # c # t) @ rest =
    enc (drop_bit 18 v) # enc (drop_bit 12 v AND 0x3f) # enc (drop_bit 6 v AND 0x3f) # enc (v AND 0x3f) # base64_text t @ rest"
    unfolding v_def by (simp only: base64_text.simps(1) Let_def append_Cons)
  then show ?thesis
    by (simp only:) (rule base64_parse_step [OF _ collect_group(1) [OF d(1) idx_masked idx_masked idx_masked] d(2)], simp)
qed

lemma decode_tail: "base64_parse (base64_text [a]) = Inr [a]" "base64_parse (base64_text [a, b]) = Inr [a, b]"
proof -
  note one = decode_one [of a]
  have "base64_parse (base64_text [a]) = map_sum id (\<lambda>out. [a] @ out) (base64_parse [])"
    unfolding base64_text.simps Let_def by (rule base64_parse_step [OF _ collect_group(3) [OF one(1,2)] one(3)]) simp
  then show "base64_parse (base64_text [a]) = Inr [a]" by (simp add: base64_parse.simps [of "[]"])
  note two = decode_two [of a b]
  have "base64_parse (base64_text [a, b]) = map_sum id (\<lambda>out. [a, b] @ out) (base64_parse [])"
    unfolding base64_text.simps Let_def
    by (rule base64_parse_step [OF _ collect_group(2) [OF two(1) idx_masked two(2)] two(3)]) simp
  then show "base64_parse (base64_text [a, b]) = Inr [a, b]" by (simp add: base64_parse.simps [of "[]"])
qed

lemma map_sum_append: "map_sum id (\<lambda>out. xs @ out) (map_sum id (\<lambda>out. ys @ out) r) = map_sum id (\<lambda>out. (xs @ ys) @ out) r"
  by (cases r) simp_all

lemma decode_encode:
  "length text mod 3 = 0 \<Longrightarrow> base64_parse (base64_text text @ rest) = map_sum id (\<lambda>out. text @ out) (base64_parse rest)"
proof (induction "text" rule: base64_text.induct)
  case (1 a b c t)
  then show ?case using decode_group_three [of a b c t rest]
    by (cases "base64_parse rest") (simp_all add: Let_def del: base64_text.simps)
next
  case 4
  show ?case by (cases "base64_parse rest") simp_all
qed simp_all

lemma length_base64_text: "length (base64_text text) = (length text + 2) div 3 * 4"
proof (induction "text" rule: base64_text.induct)
  case (1 a b c t)
  have "(length (a # b # c # t) + 2) div 3 = (length t + 2) div 3 + 1"
    using div_add_self1 [of 3 "length t + 2"] by (simp add: add.commute)
  then show ?case using 1 by (simp add: Let_def)
qed (simp_all add: Let_def)

lemma parse_text: "base64_parse (base64_text text) = Inr text"
proof (induction "text" rule: base64_text.induct)
  case (1 a b c t)
  then show ?case using decode_group_three [of a b c t "[]"] by (simp add: Let_def del: base64_text.simps)
qed (use decode_tail in \<open>simp_all add: base64_parse.simps [of "[]"] del: base64_text.simps(2,3)\<close>)

subsection \<open>The loops compute these functions\<close>

lemma encode_loop_text:
  "bound = i + int (length text) - 2 \<Longrightarrow> 0 \<le> j \<Longrightarrow> j + 4 * int ((length text + 2) div 3) \<le> bufsz \<Longrightarrow>
   \<exists>out i' rest tail. encode_loop bound bufsz i j text = Some (out, i', rest) \<and> i' + int (length rest) = i + int (length text) \<and>
     i \<le> i' \<and> length rest < 3 \<and> encode_tail (int (length rest)) rest = Some tail \<and> base64_text text = out @ tail"
proof (induction "text" arbitrary: i j rule: base64_text.induct)
  case (1 a b c t)
  have "(length (a # b # c # t) + 2) div 3 = (length t + 2) div 3 + 1"
    using div_add_self1 [of 3 "length t + 2"] by (simp add: add.commute)
  then have bufsz: "j + 4 + 4 * int ((length t + 2) div 3) \<le> bufsz" using 1(4) by simp
  obtain out i' rest tail where "encode_loop bound bufsz (i + 3) (j + 4) t = Some (out, i', rest)" "i' + int (length rest) = i + 3 + int (length t)" "i + 3 \<le> i'"
    "length rest < 3" "encode_tail (int (length rest)) rest = Some tail" "base64_text t = out @ tail"
    using 1(1) [OF refl, of "i + 3" "j + 4"] 1(2,3) bufsz by auto
  then show ?case using 1(2) bufsz by (simp add: Let_def)
next
  case (2 a)
  then show ?case by (simp add: encode_tail_def Let_def)
next
  case (3 a b)
  then show ?case by (simp add: encode_tail_def Let_def)
next
  case 4
  then show ?case by (simp add: encode_tail_def)
qed

lemma lb64encode_text: "length text \<le> 1610612733 \<Longrightarrow> lb64encode text = Some (base64_text text)"
proof -
  assume len: "length text \<le> 1610612733"
  define n where "n = (length text + 2) div 3 * 4"
  have "(length text + 2) div 3 \<le> 536870911" using len by auto
  then have "n \<le> int_max" unfolding n_def by linarith
  then have sz: "int_of_size n = int n" "int_of_size (length text) = int (length text)"
    using len by (intro int_of_size_small; linarith)+
  have "int n \<le> buffer_size (int n)" by (simp add: buffer_size_def)
  then obtain out i' rest tail where r: "encode_loop (int (length text) - 2) (buffer_size (int n)) 0 0 text = Some (out, i', rest)"
    "i' + int (length rest) = int (length text)" "0 \<le> i' \<and> length rest < 3" "encode_tail (int (length rest)) rest = Some tail"
    "base64_text text = out @ tail"
    using encode_loop_text [of "int (length text) - 2" 0 "text" 0 "buffer_size (int n)"] by (auto simp: n_def)
  have "length text - nat i' = length rest" using r(2,3) by linarith
  moreover have "int_of_size (length rest) = int (length rest)" using r(3) by (intro int_of_size_small) simp
  moreover have "length (out @ tail) = n" using length_base64_text [of "text"] r(5) by (simp add: n_def)
  ultimately show ?thesis using r sz \<open>int n \<le> _\<close> unfolding lb64encode_def Let_def n_def [symmetric] by simp
qed

lemma lb64encode_none: "1610612733 < length text \<Longrightarrow> length text \<le> int_max \<Longrightarrow> lb64encode text = None"
proof -
  assume len: "1610612733 < length text" "length text \<le> int_max"
  let ?sz = "(length text + 2) div 3 * 4"
  have "536870912 \<le> (length text + 2) div 3" "(length text + 2) div 3 < 1073741824" using len by auto
  then have "2147483648 \<le> ?sz" "?sz < 4294967296" by linarith+
  then have "\<not> 0 \<le> int_of_size ?sz" using int_of_size_large [of ?sz] by linarith
  then show ?thesis unfolding lb64encode_def Let_def by (auto simp: bind_eq_None_conv split: prod.split)
qed

lemma collect_loop_some:
  "i + int (length text) + int j \<le> INT_MAX \<Longrightarrow> \<exists>i'. collect_loop j i text = Some (fst (collect j text), i', snd (collect j text)) \<and>
     (snd (collect j text) \<noteq> [] \<longrightarrow> i' + int (length (snd (collect j text))) = i + int (length text) \<and> length (snd (collect j text)) + j \<le> length text)"
proof (induction j i "text" rule: collect_loop.induct)
  case (2 j i)
  then show ?case by (auto simp: c_assert_def split_beta Let_def)
next
  case (3 j i b t)
  show ?case
  proof (cases "b64index b = -1")
    case True
    then show ?thesis using 3 by (fastforce simp: c_assert_def)
  next
    case False
    then obtain i' where "collect_loop j (i + 1) t = Some (fst (collect j t), i', snd (collect j t))"
      "snd (collect j t) \<noteq> [] \<longrightarrow> i' + int (length (snd (collect j t))) = i + 1 + int (length t) \<and> length (snd (collect j t)) + j \<le> length t"
      using 3(2) 3(3) by (auto simp: c_assert_def)
    then show ?thesis using False 3(3) by (auto simp: split_beta Let_def)
  qed
qed simp

lemma decode_group_length: "decode_group c = Inr out \<Longrightarrow> length out \<le> 3"
  by (auto simp: decode_group_def Let_def split: if_splits)

lemma decode_loop_parse:
  "i + int (length text) + 4 \<le> INT_MAX \<Longrightarrow> pos + 3 * int ((length text + 3) div 4) \<le> bufsz \<Longrightarrow>
   decode_loop bufsz i pos text = Some (base64_parse text)"
proof (induction "text" arbitrary: i pos rule: base64_parse.induct)
  case (1 t)
  show ?case
  proof (cases "t = []")
    case True
    then show ?thesis by (simp add: decode_loop.simps [of bufsz i pos] base64_parse.simps [of "[]"])
  next
    case False
    obtain c rest where c: "collect 4 t = (c, rest)" by force
    obtain i' where l: "collect_loop 4 i t = Some (c, i', rest)"
      "rest \<noteq> [] \<Longrightarrow> i' + int (length rest) = i + int (length t) \<and> length rest + 4 \<le> length t"
      using collect_loop_some [of i t 4] 1(2) c by auto
    show ?thesis
    proof (cases "decode_group c")
      case (Inl e)
      then show ?thesis using False l(1) c by (simp add: decode_loop.simps [of bufsz i pos] base64_parse.simps [of t])
    next
      case (Inr out)
      note three = decode_group_length [OF Inr]
      have groups: "(length rest + 3) div 4 + 1 \<le> (length t + 3) div 4"
      proof (cases "rest = []")
        case True
        then show ?thesis using False by (cases t) auto
      next
        case False
        then have "length rest + 3 + 4 \<le> length t + 3" using l(2) by simp
        then have "(length rest + 3 + 4) div 4 \<le> (length t + 3) div 4" by (rule div_le_mono)
        then show ?thesis by simp
      qed
      have "decode_loop bufsz i' (pos + int (length out)) rest = Some (base64_parse rest)"
      proof (cases "rest = []")
        case True
        then show ?thesis by (simp add: decode_loop.simps [of bufsz i'] base64_parse.simps [of "[]"])
      next
        case rest: False
        have "pos + int (length out) + 3 * int ((length rest + 3) div 4) \<le> bufsz" using 1(3) groups three by linarith
        moreover have "i' + int (length rest) + 4 \<le> INT_MAX" using l(2) [OF rest] 1(2) by simp
        ultimately show ?thesis using 1(1) [OF False c [symmetric] refl Inr] by simp
      qed
      moreover have "pos + int (length out) \<le> bufsz" using 1(3) groups three by linarith
      ultimately show ?thesis using False l(1) c Inr
        by (simp add: decode_loop.simps [of bufsz i pos] base64_parse.simps [of t])
    qed
  qed
qed

lemma lb64decode_parse: "length text + 4 \<le> int_max \<Longrightarrow> lb64decode text = Some (base64_parse text)"
proof -
  assume len: "length text + 4 \<le> int_max"
  let ?sz = "(length text + 3) div 4 * 3"
  have "int_of_size ?sz = int ?sz" using len by (intro int_of_size_small) auto
  moreover have "int ?sz \<le> buffer_size (int ?sz)" by (simp add: buffer_size_def)
  ultimately show ?thesis using decode_loop_parse [of 0 "text" 0 "buffer_size (int ?sz)"] len by (simp add: lb64decode_def)
qed

subsection \<open>Guarantees\<close>

text \<open>C26. Base64 and hexadecimal: decoding inverts encoding, and the encoded texts have the length that the code reserves for them, for every
  text of bytes up to the sizes that the ints of the code allow: 1,610,612,730 bytes for base64 and 1,073,741,823 bytes for hexadecimal.
  Beyond 1,610,612,733 bytes (2 GB at most) the size of a base64 text overflows, beyond 1 GB the index of the hexadecimal one.\<close>

theorem text_codings_roundtrip:
  "(length text \<le> 1610612730 \<longrightarrow>
      (\<exists>t. lb64encode text = Some t \<and> length t = (length text + 2) div 3 * 4 \<and> lb64decode t = Some (Inr text))) \<and>
   (length text \<le> 1073741823 \<longrightarrow>
      (\<exists>t. ltohex text = Some t \<and> length t = 2 * length text \<and> lfromhex t = Some (Inr text))) \<and>
   (1610612733 < length text \<and> length text \<le> int_max \<longrightarrow> lb64encode text = None) \<and>
   (1073741824 < length text \<longrightarrow> ltohex text = None)"
proof (intro conjI impI)
  assume len: "length text \<le> 1610612730"
  have enc: "lb64encode text = Some (base64_text text)" using len by (intro lb64encode_text) simp
  have "(length text + 2) div 3 * 4 + 4 \<le> int_max" using len by simp
  then have "lb64decode (base64_text text) = Some (base64_parse (base64_text text))"
    by (intro lb64decode_parse) (simp add: length_base64_text)
  then show "\<exists>t. lb64encode text = Some t \<and> length t = (length text + 2) div 3 * 4 \<and> lb64decode t = Some (Inr text)"
    using enc parse_text [of "text"] by (simp add: length_base64_text)
next
  assume "length text \<le> 1073741823"
  then obtain t where "tohex_loop 0 text = Some t" "length t = 2 * length text" "fromhex_loop 0 t = Some (Inr text)"
    using tohex_loop_some [of 0 "text"] by auto
  then show "\<exists>t. ltohex text = Some t \<and> length t = 2 * length text \<and> lfromhex t = Some (Inr text)"
    by (intro exI [of _ t]) (simp add: ltohex_def lfromhex_def)
next
  assume "1610612733 < length text \<and> length text \<le> int_max"
  then show "lb64encode text = None" using lb64encode_none by blast
next
  assume "1073741824 < length text"
  then show "ltohex text = None" using tohex_loop_none [of 0 "text"] by (cases "text = []") (simp_all add: ltohex_def)
qed

theorem text_codings_roundtrip_witness:
  "\<exists>t u. lb64encode [1, 2, 3, 4] = Some t \<and> lb64decode t = Some (Inr [1, 2, 3, 4]) \<and> length t = 8 \<and>
     ltohex [1, 2, 3, 4] = Some u \<and> lfromhex u = Some (Inr [1, 2, 3, 4])"
  using text_codings_roundtrip [of "[1, 2, 3, 4]"] by auto

text \<open>What the decoders accept beyond their own output. Hexadecimal takes the letter \<open>g\<close> and the characters from
  \<open>W\<close> to the back quote for digits; base64 skips a line break inside a text and refuses the same
  text when the line break ends it.\<close>

theorem decoders_lenient:
  "lfromhex (ascii ''g0'') = Some (Inr [0]) \<and> lfromhex (ascii ''W1'') = Some (Inr [1]) \<and>
   (if length text mod 3 = 0 \<and> text \<noteq> [] \<and> length text \<le> 1610612724 then
      lb64decode (10 # base64_text text) = Some (Inr text) \<and> lb64decode (base64_text text @ [10]) = Some (Inl Invalid_Base64)
    else True)"
proof -
  have lf: "b64index 10 = -1" by code_simp
  have "collect 4 [10] = ([-2, -2, -2, -2], [])" unfolding four using lf by simp
  then have nl: "base64_parse [10] = Inl Invalid_Base64"
    by (subst base64_parse.simps) (simp add: decode_group_def)
  have hexes: "lfromhex (ascii ''g0'') = Some (Inr [0])" "lfromhex (ascii ''W1'') = Some (Inr [1])" by code_simp+
  show ?thesis
  proof (cases "length text mod 3 = 0 \<and> text \<noteq> [] \<and> length text \<le> 1610612724")
    case True
    have "(length text + 2) div 3 \<le> 536870908" using True by auto
    then have len: "length (10 # base64_text text) + 4 \<le> int_max" "length (base64_text text @ [10]) + 4 \<le> int_max"
      using True by (simp_all add: length_base64_text)
    have reject: "base64_parse (base64_text text @ [10]) = Inl Invalid_Base64" using decode_encode [of "text" "[10]"] True nl by simp
    have "collect 4 (10 # t) = collect 4 t" for t using lf unfolding four by simp
    moreover have "base64_text text \<noteq> []" using True length_base64_text [of "text"] by (cases "text") auto
    ultimately have "base64_parse (10 # base64_text text) = base64_parse (base64_text text)"
      unfolding base64_parse.simps [of "10 # base64_text text"] base64_parse.simps [of "base64_text text"] by simp
    then show ?thesis using True hexes reject parse_text [of "text"] len by (simp add: lb64decode_parse)
  qed (use hexes in auto)
qed

subsection \<open>Keys and masks\<close>

lemma xor_twice: "lxor_str s k = Some (Inr t) \<Longrightarrow> lxor_str t k = Some (Inr s)"
  by (auto simp: lxor_str_def xor.assoc intro!: nth_equalityI split: if_splits)

text \<open>A random key is never zero.\<close>

lemma fold_xor_zero: "\<forall>b \<in> set bs. b = (0 :: u8) \<Longrightarrow> fold (XOR) bs 0 = 0"
  by (induction bs) auto

lemma randomkey_nonzero:
  assumes "length rs = 8"
  shows "length (lrandomkey rs) = 8 \<and> (\<exists>b \<in> set (lrandomkey rs). b \<noteq> 0)"
proof -
  let ?tmp = "map (\<lambda>r. ucast (r AND 0xff) :: u8) rs"
  show ?thesis
  proof (cases "fold (XOR) ?tmp 0 = 0")
    case True
    have "?tmp ! 0 OR 1 \<noteq> 0" by (simp add: or_eq_0_iff)
    moreover have "?tmp ! 0 OR 1 \<in> set (?tmp[0 := ?tmp ! 0 OR 1])" using assms by (simp add: set_update_memI)
    ultimately show ?thesis using True assms by (auto simp: lrandomkey_def Let_def)
  next
    case False
    then show ?thesis using fold_xor_zero [of ?tmp] assms by (auto simp: lrandomkey_def Let_def)
  qed
qed

end
