(* ===== verification/MD5.thy ===== *)
theory MD5
  imports DH Crypt_Text
begin

text \<open>
  The keyed hashes of \<^verbatim>\<open>lua-crypt.c\<close> that are built from the rounds of MD5:
  \<^verbatim>\<open>hmac64\<close>, \<^verbatim>\<open>hmac64_md5\<close> and \<^verbatim>\<open>hmac_hash\<close>; and the MD5 function of
  RFC 1321 as a reference, with which the second is compared.
\<close>

subsection \<open>The rounds of the code\<close>

definition md5_k :: "u32 list" where
  "md5_k = [
    0xd76aa478, 0xe8c7b756, 0x242070db, 0xc1bdceee,
    0xf57c0faf, 0x4787c62a, 0xa8304613, 0xfd469501,
    0x698098d8, 0x8b44f7af, 0xffff5bb1, 0x895cd7be,
    0x6b901122, 0xfd987193, 0xa679438e, 0x49b40821,
    0xf61e2562, 0xc040b340, 0x265e5a51, 0xe9b6c7aa,
    0xd62f105d, 0x02441453, 0xd8a1e681, 0xe7d3fbc8,
    0x21e1cde6, 0xc33707d6, 0xf4d50d87, 0x455a14ed,
    0xa9e3e905, 0xfcefa3f8, 0x676f02d9, 0x8d2a4c8a,
    0xfffa3942, 0x8771f681, 0x6d9d6122, 0xfde5380c,
    0xa4beea44, 0x4bdecfa9, 0xf6bb4b60, 0xbebfbc70,
    0x289b7ec6, 0xeaa127fa, 0xd4ef3085, 0x04881d05,
    0xd9d4d039, 0xe6db99e5, 0x1fa27cf8, 0xc4ac5665,
    0xf4292244, 0x432aff97, 0xab9423a7, 0xfc93a039,
    0x655b59c3, 0x8f0ccc92, 0xffeff47d, 0x85845dd1,
    0x6fa87e4f, 0xfe2ce6e0, 0xa3014314, 0x4e0811a1,
    0xf7537e82, 0xbd3af235, 0x2ad7d2bb, 0xeb86d391]"

definition md5_r :: "nat list" where
  "md5_r = [
    7, 12, 17, 22, 7, 12, 17, 22, 7, 12, 17, 22, 7, 12, 17, 22,
    5, 9, 14, 20, 5, 9, 14, 20, 5, 9, 14, 20, 5, 9, 14, 20,
    4, 11, 16, 23, 4, 11, 16, 23, 4, 11, 16, 23, 4, 11, 16, 23,
    6, 10, 15, 21, 6, 10, 15, 21, 6, 10, 15, 21, 6, 10, 15, 21]"

definition LEFTROTATE :: "u32 \<Rightarrow> nat \<Rightarrow> u32" where
  "LEFTROTATE x c = push_bit c x OR drop_bit (32 - c) x"

type_synonym md5_state = "u32 \<times> u32 \<times> u32 \<times> u32"

text \<open>The body of the loop: the four variables after round \<open>i\<close>.\<close>

fun md5_round :: "u32 list \<Rightarrow> nat \<Rightarrow> md5_state \<Rightarrow> md5_state" where
  "md5_round w i (a, b, c, d) =
     (let (f, g) =
        (if i < 16 then ((b AND c) OR (NOT b AND d), i)
         else if i < 32 then ((d AND b) OR (NOT d AND c), (5 * i + 1) mod 16)
         else if i < 48 then (b XOR c XOR d, (3 * i + 5) mod 16)
         else (c XOR (b OR NOT d), (7 * i) mod 16))
      in (d, b + LEFTROTATE (a + f + md5_k ! i + w ! g) (md5_r ! i), b, c))"

definition md5_init :: md5_state where
  "md5_init = (0x67452301, 0xefcdab89, 0x98badcfe, 0x10325476)"

definition digest_md5 :: "u32 list \<Rightarrow> md5_state" where
  "digest_md5 w = fold (md5_round w) [0..<64] md5_init"

definition hmac :: "u32 \<times> u32 \<Rightarrow> u32 \<times> u32 \<Rightarrow> u32 \<times> u32" where
  "hmac x y =
     (let w = concat (replicate 4 [snd x, fst x, snd y, fst y]); (r0, r1, r2, r3) = digest_md5 w
      in (r2 XOR r3, r0 XOR r1))"

definition hmac_md5 :: "u32 \<times> u32 \<Rightarrow> u32 \<times> u32 \<Rightarrow> u32 \<times> u32" where
  "hmac_md5 x y =
     (let w = concat (replicate 3 [fst x, snd x, fst y, snd y]) @ [0x80, 0, 384, 0]; (r0, r1, r2, r3) = digest_md5 w
      in ((r0 + 0x67452301) XOR (r2 + 0x98badcfe), (r1 + 0xefcdab89) XOR (r3 + 0x10325476)))"

subsection \<open>The functions for Lua\<close>

definition read64 :: "bytes \<Rightarrow> bytes \<Rightarrow> dh_error + (u32 \<times> u32) \<times> (u32 \<times> u32)" where
  "read64 x y =
     (if length x \<noteq> 8 then Inl Invalid_X
      else if length y \<noteq> 8 then Inl Invalid_Y
      else Inr ((read_u32 x 0, read_u32 x 4), (read_u32 y 0, read_u32 y 4)))"

definition pushqword :: "u32 \<times> u32 \<Rightarrow> bytes" where
  "pushqword r = le_bytes (fst r) @ le_bytes (snd r)"

definition lhmac64 :: "bytes \<Rightarrow> bytes \<Rightarrow> dh_error + bytes" where
  "lhmac64 x y = map_sum id (\<lambda>(xx, yy). pushqword (hmac xx yy)) (read64 x y)"

definition lhmac64_md5 :: "bytes \<Rightarrow> bytes \<Rightarrow> dh_error + bytes" where
  "lhmac64_md5 x y = map_sum id (\<lambda>(xx, yy). pushqword (hmac_md5 xx yy)) (read64 x y)"

definition lhmac_hash :: "bytes \<Rightarrow> bytes \<Rightarrow> dh_error + bytes" where
  "lhmac_hash x text =
     (if length x \<noteq> 8 then Inl Invalid_X
      else
        let key = (read_u32 x 0, read_u32 x 4); h = Hash text (int_of_size (length text)); htext = (read_u32 h 0, read_u32 h 4)
        in Inr (pushqword (hmac htext key)))"

subsection \<open>The reference\<close>

definition rfc_index :: "nat list" where
  "rfc_index = [
    0, 1, 2, 3, 4, 5, 6, 7, 8, 9, 10, 11, 12, 13, 14, 15,
    1, 6, 11, 0, 5, 10, 15, 4, 9, 14, 3, 8, 13, 2, 7, 12,
    5, 8, 11, 14, 1, 4, 7, 10, 13, 0, 3, 6, 9, 12, 15, 2,
    0, 7, 14, 5, 12, 3, 10, 1, 8, 15, 6, 13, 4, 11, 2, 9]"

definition rfc_f :: "nat \<Rightarrow> u32 \<Rightarrow> u32 \<Rightarrow> u32 \<Rightarrow> u32" where
  "rfc_f j x y z =
     (if j = 0 then (x AND y) OR (NOT x AND z)
      else if j = 1 then (x AND z) OR (y AND NOT z)
      else if j = 2 then x XOR y XOR z
      else y XOR (x OR NOT z))"

text \<open>One operation of RFC 1321, with the roles of the registers moved on.\<close>

fun rfc_op :: "u32 list \<Rightarrow> nat \<Rightarrow> md5_state \<Rightarrow> md5_state" where
  "rfc_op X i (a, b, c, d) =
     (d, b + word_rotl (md5_r ! i) (a + rfc_f (i div 16) b c d + X ! (rfc_index ! i) + md5_k ! i), b, c)"

fun add_state :: "md5_state \<Rightarrow> md5_state \<Rightarrow> md5_state" where
  "add_state (a, b, c, d) (a', b', c', d') = (a + a', b + b', c + c', d + d')"

definition rfc_block :: "md5_state \<Rightarrow> bytes \<Rightarrow> md5_state" where
  "rfc_block s b = add_state (fold (rfc_op (map (\<lambda>j. read_u32 b (4 * j)) [0..<16])) [0..<64] s) s"

function rfc_blocks :: "md5_state \<Rightarrow> bytes \<Rightarrow> md5_state" where
  "rfc_blocks s m = (if length m < 64 then s else rfc_blocks (rfc_block s (take 64 m)) (drop 64 m))"
  by pat_completeness auto
termination by (relation "measure (\<lambda>(s, m). length m)") auto

declare rfc_blocks.simps [simp del]

definition rfc_pad :: "bytes \<Rightarrow> bytes" where
  "rfc_pad m = m @ [0x80] @ replicate ((119 - length m mod 64) mod 64) 0 @ push64 (of_nat (8 * length m))"

definition rfc_md5 :: "bytes \<Rightarrow> bytes" where
  "rfc_md5 m = (let (a, b, c, d) = rfc_blocks md5_init (rfc_pad m) in le_bytes a @ le_bytes b @ le_bytes c @ le_bytes d)"

subsection \<open>The rounds are those of the reference\<close>

lemma md5_r_range: "i < 64 \<Longrightarrow> 0 < md5_r ! i \<and> md5_r ! i < 32"
proof -
  have "\<forall>i \<in> set [0..<64]. 0 < md5_r ! i \<and> md5_r ! i < 32" by code_simp
  then show "i < 64 \<Longrightarrow> 0 < md5_r ! i \<and> md5_r ! i < 32" by simp
qed

lemma index_eq:
  "i < 64 \<Longrightarrow> rfc_index ! i = (if i < 16 then i else if i < 32 then (5 * i + 1) mod 16 else if i < 48 then (3 * i + 5) mod 16 else 7 * i mod 16)"
proof -
  have "\<forall>i \<in> set [0..<64]. rfc_index ! i =
    (if i < 16 then i else if i < 32 then (5 * i + 1) mod 16 else if i < 48 then (3 * i + 5) mod 16 else 7 * i mod 16)"
    by code_simp
  then show "i < 64 \<Longrightarrow> ?thesis" by simp
qed

lemma round_eq: "i < 64 \<Longrightarrow> md5_round w i s = rfc_op w i s"
proof -
  assume i: "i < 64"
  obtain a b c d where s: "s = (a, b, c, d)" by (metis prod_cases4)
  have j: "i div 16 = (if i < 16 then 0 else if i < 32 then 1 else if i < 48 then 2 else 3)"
    using i by (auto simp: div_nat_eqI)
  have "md5_round w i s = (d, b + LEFTROTATE (a + rfc_f (i div 16) b c d + md5_k ! i + w ! (rfc_index ! i)) (md5_r ! i), b, c)"
    using index_eq [OF i] j by (simp add: s rfc_f_def and.commute)
  then show ?thesis using rotate_word md5_r_range [OF i] by (simp add: s LEFTROTATE_def add.assoc add.commute [of "md5_k ! i"])
qed

lemma digest_eq: "digest_md5 w = fold (rfc_op w) [0..<64] md5_init"
  unfolding digest_md5_def by (rule fold_cong) (use round_eq in auto)

subsection \<open>Guarantees\<close>

text \<open>The words of the only block of three copies of two numbers.\<close>

lemma rfc_words:
  assumes "length x = 8" "length y = 8"
  shows "map (\<lambda>j. read_u32 (rfc_pad (concat (replicate 3 (x @ y)))) (4 * j)) [0..<16] =
    concat (replicate 3 [read_u32 x 0, read_u32 x 4, read_u32 y 0, read_u32 y 4]) @ [0x80, 0, 384, 0]"
proof -
  obtain x0 x1 x2 x3 x4 x5 x6 x7 where x: "x = [x0, x1, x2, x3, x4, x5, x6, x7]"
    using assms(1) by (auto simp: length_Suc_conv eval_nat_numeral)
  obtain y0 y1 y2 y3 y4 y5 y6 y7 where y: "y = [y0, y1, y2, y3, y4, y5, y6, y7]"
    using assms(2) by (auto simp: length_Suc_conv eval_nat_numeral)
  have len: "push64 (of_nat (8 * length (concat (replicate 3 (x @ y))))) = [0x80, 1, 0, 0, 0, 0, 0, 0]"
  proof -
    have "length (concat (replicate 3 (x @ y))) = 48" using assms by (simp add: numeral_3_eq_3)
    moreover have "push64 (of_nat (8 * 48)) = [0x80, 1, 0, 0, 0, 0, 0, 0]" by code_simp
    ultimately show ?thesis by simp
  qed
  define blk where "blk = rfc_pad (concat (replicate 3 (x @ y)))"
  have blk: "blk = [x0, x1, x2, x3, x4, x5, x6, x7, y0, y1, y2, y3, y4, y5, y6, y7,
      x0, x1, x2, x3, x4, x5, x6, x7, y0, y1, y2, y3, y4, y5, y6, y7,
      x0, x1, x2, x3, x4, x5, x6, x7, y0, y1, y2, y3, y4, y5, y6, y7,
      0x80, 0, 0, 0, 0, 0, 0, 0, 0x80, 1, 0, 0, 0, 0, 0, 0]"
  proof -
    have "length (concat (replicate 3 (x @ y))) = 48" using assms by (simp add: numeral_3_eq_3)
    then have "(119 - length (concat (replicate 3 (x @ y))) mod 64) mod 64 = 7" by simp
    moreover have "replicate 7 (0 :: u8) = [0, 0, 0, 0, 0, 0, 0]" by (simp add: eval_nat_numeral)
    moreover have "concat (replicate 3 (x @ y)) = x @ y @ x @ y @ x @ y" by (simp add: numeral_3_eq_3)
    ultimately show ?thesis unfolding blk_def rfc_pad_def len by (simp only: x y append_Cons append_Nil)
  qed
  have upt: "[0..<16] = [0, 1, 2, 3, 4, 5, 6, 7, 8, 9, 10, 11, 12, 13, 14, 15 :: nat]" by (simp add: upt_rec)
  have three: "concat (replicate 3 ws) = ws @ ws @ ws" for ws :: "u32 list" by (simp add: numeral_3_eq_3)
  show ?thesis
    unfolding blk_def [symmetric] three upt unfolding blk x y by (simp add: read_u32_def)
qed

lemma xor_le_bytes: "map2 (XOR) (le_bytes a) (le_bytes b) = le_bytes (a XOR b)"
  unfolding le_bytes_def and_masks by (auto intro!: bit_word_eqI simp: bit_simps)

lemma length_le_bytes [simp]: "length (le_bytes w) = 4"
  by (simp add: le_bytes_def)

text \<open>C28. The keyed hash \<^verbatim>\<open>hmac64_md5\<close>: for two numbers of eight bytes it is what its comment says,
  the exclusive or of the two halves of the MD5 of RFC 1321 of three copies of both.\<close>

theorem hmac64_md5_reference:
  assumes "length x = 8" "length y = 8"
  shows "lhmac64_md5 x y =
    (let m = rfc_md5 (concat (replicate 3 (x @ y))) in Inr (map2 (XOR) (take 8 m) (drop 8 m)))"
proof -
  let ?m = "concat (replicate 3 (x @ y))"
  let ?w = "concat (replicate 3 [read_u32 x 0, read_u32 x 4, read_u32 y 0, read_u32 y 4]) @ [0x80, 0, 384, 0]"
  have len: "length (rfc_pad ?m) = 64" using assms by (simp add: rfc_pad_def numeral_3_eq_3)
  then have take: "take 64 (rfc_pad ?m) = rfc_pad ?m" "drop 64 (rfc_pad ?m) = []" by simp_all
  obtain a b c d where r: "digest_md5 ?w = (a, b, c, d)" by (metis prod_cases4)
  have "rfc_blocks md5_init (rfc_pad ?m) = rfc_block md5_init (rfc_pad ?m)"
    using len by (subst rfc_blocks.simps, subst rfc_blocks.simps) (simp add: take)
  also have "\<dots> = add_state (a, b, c, d) md5_init"
    unfolding rfc_block_def rfc_words [OF assms] digest_eq [symmetric] r ..
  finally have blocks: "rfc_blocks md5_init (rfc_pad ?m) =
      (a + 0x67452301, b + 0xefcdab89, c + 0x98badcfe, d + 0x10325476)" by (simp add: md5_init_def)
  have "map2 (XOR) (take 8 (rfc_md5 ?m)) (drop 8 (rfc_md5 ?m)) =
      map2 (XOR) (le_bytes (a + 0x67452301)) (le_bytes (c + 0x98badcfe)) @
      map2 (XOR) (le_bytes (b + 0xefcdab89)) (le_bytes (d + 0x10325476))"
    unfolding rfc_md5_def blocks by simp
  then show ?thesis
    using assms r by (simp add: lhmac64_md5_def read64_def hmac_md5_def pushqword_def xor_le_bytes Let_def)
qed

theorem hmac64_md5_reference_witness:
  "length [1, 2, 3, 4, 5, 6, 7, 8 :: u8] = 8 \<and>
   lhmac64_md5 [1, 2, 3, 4, 5, 6, 7, 8] [9, 10, 11, 12, 13, 14, 15, 16] =
   (let m = rfc_md5 (concat (replicate 3 [1, 2, 3, 4, 5, 6, 7, 8, 9, 10, 11, 12, 13, 14, 15, 16]))
    in Inr (map2 (XOR) (take 8 m) (drop 8 m)))"
  using hmac64_md5_reference [of "[1, 2, 3, 4, 5, 6, 7, 8]" "[9, 10, 11, 12, 13, 14, 15, 16]"] by simp

end
