(* ===== verification/SHA1.thy ===== *)
theory SHA1
  imports DH Crypt_Text
begin

text \<open>
  The SHA-1 hash of \<^verbatim>\<open>lsha1.c\<close> (on a little-endian machine, where \<^verbatim>\<open>blk0\<close> swaps the
  bytes of a word), the keyed hash built on it, and both standards, FIPS 180-1 and RFC 2104, as
  references.
\<close>

subsection \<open>The rounds\<close>

definition rol :: "u32 \<Rightarrow> nat \<Rightarrow> u32" where
  "rol value bits = push_bit bits value OR drop_bit (32 - bits) value"

text \<open>The two macros that expand the block in place: the value of the expression and the block.\<close>

definition blk0 :: "u32 list \<Rightarrow> nat \<Rightarrow> u32 \<times> u32 list" where
  "blk0 block i =
     (let v = (rol (block ! i) 24 AND 0xFF00FF00) OR (rol (block ! i) 8 AND 0x00FF00FF) in (v, block[i := v]))"

definition blk :: "u32 list \<Rightarrow> nat \<Rightarrow> u32 \<times> u32 list" where
  "blk block i =
     (let v = rol (block ! ((i + 13) mod 16) XOR block ! ((i + 8) mod 16) XOR block ! ((i + 2) mod 16) XOR block ! (i mod 16)) 1
      in (v, block[i mod 16 := v]))"

text \<open>The round macros: the new \<^verbatim>\<open>w\<close>, the new \<^verbatim>\<open>z\<close> and the block.\<close>

definition R0 :: "u32 \<Rightarrow> u32 \<Rightarrow> u32 \<Rightarrow> u32 \<Rightarrow> u32 \<Rightarrow> nat \<Rightarrow> u32 list \<Rightarrow> u32 \<times> u32 \<times> u32 list" where
  "R0 v w x y z i block =
     (let (b, block) = blk0 block i in (rol w 30, z + (((w AND (x XOR y)) XOR y) + b + 0x5A827999 + rol v 5), block))"

definition R1 :: "u32 \<Rightarrow> u32 \<Rightarrow> u32 \<Rightarrow> u32 \<Rightarrow> u32 \<Rightarrow> nat \<Rightarrow> u32 list \<Rightarrow> u32 \<times> u32 \<times> u32 list" where
  "R1 v w x y z i block =
     (let (b, block) = blk block i in (rol w 30, z + (((w AND (x XOR y)) XOR y) + b + 0x5A827999 + rol v 5), block))"

definition R2 :: "u32 \<Rightarrow> u32 \<Rightarrow> u32 \<Rightarrow> u32 \<Rightarrow> u32 \<Rightarrow> nat \<Rightarrow> u32 list \<Rightarrow> u32 \<times> u32 \<times> u32 list" where
  "R2 v w x y z i block =
     (let (b, block) = blk block i in (rol w 30, z + ((w XOR x XOR y) + b + 0x6ED9EBA1 + rol v 5), block))"

definition R3 :: "u32 \<Rightarrow> u32 \<Rightarrow> u32 \<Rightarrow> u32 \<Rightarrow> u32 \<Rightarrow> nat \<Rightarrow> u32 list \<Rightarrow> u32 \<times> u32 \<times> u32 list" where
  "R3 v w x y z i block =
     (let (b, block) = blk block i
      in (rol w 30, z + ((((w OR x) AND y) OR (w AND x)) + b + 0x8F1BBCDC + rol v 5), block))"

definition R4 :: "u32 \<Rightarrow> u32 \<Rightarrow> u32 \<Rightarrow> u32 \<Rightarrow> u32 \<Rightarrow> nat \<Rightarrow> u32 list \<Rightarrow> u32 \<times> u32 \<times> u32 list" where
  "R4 v w x y z i block =
     (let (b, block) = blk block i in (rol w 30, z + ((w XOR x XOR y) + b + 0xCA62C1D6 + rol v 5), block))"

text \<open>The macro that the unrolled code uses at place \<open>i\<close>, and five places of it, after which every
  variable has its first role again.\<close>

definition R :: "nat \<Rightarrow> u32 \<Rightarrow> u32 \<Rightarrow> u32 \<Rightarrow> u32 \<Rightarrow> u32 \<Rightarrow> u32 list \<Rightarrow> u32 \<times> u32 \<times> u32 list" where
  "R i v w x y z block =
     (if i < 16 then R0 v w x y z i block else if i < 20 then R1 v w x y z i block
      else if i < 40 then R2 v w x y z i block else if i < 60 then R3 v w x y z i block
      else R4 v w x y z i block)"

type_synonym sha1_state = "u32 \<times> u32 \<times> u32 \<times> u32 \<times> u32"

fun five_rounds :: "nat \<Rightarrow> sha1_state \<times> u32 list \<Rightarrow> sha1_state \<times> u32 list" where
  "five_rounds i ((a, b, c, d, e), block) =
     (let (b, e, block) = R i a b c d e block;
          (a, d, block) = R (i + 1) e a b c d block;
          (e, c, block) = R (i + 2) d e a b c block;
          (d, b, block) = R (i + 3) c d e a b block;
          (c, a, block) = R (i + 4) b c d e a block
      in ((a, b, c, d, e), block))"

fun add_vars :: "sha1_state \<Rightarrow> sha1_state \<Rightarrow> sha1_state" where
  "add_vars (s0, s1, s2, s3, s4) (a, b, c, d, e) = (s0 + a, s1 + b, s2 + c, s3 + d, s4 + e)"

definition SHA1_Transform :: "sha1_state \<Rightarrow> bytes \<Rightarrow> sha1_state" where
  "SHA1_Transform state buffer =
     (let block = map (\<lambda>i. read_u32 buffer (4 * i)) [0..<16];
          (vars, block) = fold five_rounds (map (\<lambda>k. 5 * k) [0..<16]) (state, block)
      in add_vars state vars)"

subsection \<open>The context\<close>

record SHA1_CTX =
  sh_state :: sha1_state
  count0 :: u32
  count1 :: u32
  sh_buffer :: bytes

text \<open>\<open>init\<close> leaves the buffer as it is; its first contents are those of the stack.\<close>

definition sat_SHA1_Init :: "bytes \<Rightarrow> SHA1_CTX" where
  "sat_SHA1_Init stack =
     \<lparr>sh_state = (0x67452301, 0xEFCDAB89, 0x98BADCFE, 0x10325476, 0xC3D2E1F0), count0 = 0, count1 = 0, sh_buffer = stack\<rparr>"

text \<open>The bit counter: \<open>len\<close> is a \<^verbatim>\<open>size_t\<close>, the two words have 32 bits.\<close>

definition sha1_count :: "u64 \<Rightarrow> u32 \<times> u32 \<Rightarrow> u32 \<times> u32" where
  "sha1_count len c =
     (let c0 = ucast (ucast (fst c) + push_bit 3 len) :: u32;
          c1 = (if ucast c0 < push_bit 3 len then snd c + 1 else snd c)
      in (c0, c1 + ucast (drop_bit 29 len)))"

fun transform_loop :: "sha1_state \<Rightarrow> bytes \<Rightarrow> sha1_state \<times> bytes" where
  "transform_loop state data =
     (if 64 \<le> length data then transform_loop (SHA1_Transform state (take 64 data)) (drop 64 data) else (state, data))"

declare transform_loop.simps [simp del]

definition overwrite :: "bytes \<Rightarrow> nat \<Rightarrow> bytes \<Rightarrow> bytes" where
  "overwrite buffer j data = take j buffer @ data @ drop (j + length data) buffer"

definition sat_SHA1_Update :: "SHA1_CTX \<Rightarrow> bytes \<Rightarrow> SHA1_CTX" where
  "sat_SHA1_Update ctx data =
     (let j = unat (drop_bit 3 (count0 ctx) AND 63);
          (c0, c1) = sha1_count (of_nat (length data)) (count0 ctx, count1 ctx)
      in if 63 < j + length data then
           let buffer = overwrite (sh_buffer ctx) j (take (64 - j) data);
               (state, rest) = transform_loop (SHA1_Transform (sh_state ctx) buffer) (drop (64 - j) data)
           in \<lparr>sh_state = state, count0 = c0, count1 = c1, sh_buffer = overwrite buffer 0 rest\<rparr>
         else \<lparr>sh_state = sh_state ctx, count0 = c0, count1 = c1, sh_buffer = overwrite (sh_buffer ctx) j data\<rparr>)"

text \<open>The loop of \<^verbatim>\<open>sat_SHA1_Final\<close> that adds zero bytes.\<close>

partial_function (option) zero_loop :: "SHA1_CTX \<Rightarrow> SHA1_CTX option" where
  "zero_loop ctx = (if count0 ctx AND 504 \<noteq> 448 then zero_loop (sat_SHA1_Update ctx [0]) else Some ctx)"

declare zero_loop.simps [code]

definition be_bytes :: "u32 \<Rightarrow> bytes" where
  "be_bytes w = map (\<lambda>i. ucast (drop_bit ((3 - i) * 8) w AND 255)) [0..<4]"

fun state_bytes :: "sha1_state \<Rightarrow> bytes" where
  "state_bytes (a, b, c, d, e) = be_bytes a @ be_bytes b @ be_bytes c @ be_bytes d @ be_bytes e"

text \<open>The digest; the context, which is wiped, is not used again.\<close>

definition sat_SHA1_Final :: "SHA1_CTX \<Rightarrow> bytes option" where
  "sat_SHA1_Final ctx =
     (let finalcount = be_bytes (count1 ctx) @ be_bytes (count0 ctx)
      in do {
        ctx1 \<leftarrow> zero_loop (sat_SHA1_Update ctx [0x80]);
        Some (state_bytes (sh_state (sat_SHA1_Update ctx1 finalcount)))
      })"

definition lsha1 :: "bytes \<Rightarrow> bytes \<Rightarrow> bytes option" where
  "lsha1 stack buffer = sat_SHA1_Final (sat_SHA1_Update (sat_SHA1_Init stack) buffer)"

definition BLOCKSIZE :: nat where "BLOCKSIZE = 64"

definition xor_key :: "bytes \<Rightarrow> u32 \<Rightarrow> bytes" where
  "xor_key key x = concat (map (\<lambda>i. le_bytes (read_u32 key (4 * i) XOR x)) [0..<16])"

definition lhmac_sha1 :: "bytes \<Rightarrow> bytes \<Rightarrow> bytes \<Rightarrow> bytes option" where
  "lhmac_sha1 stack key text =
     do {
       rkey \<leftarrow> (if BLOCKSIZE < length key then do {
                  h \<leftarrow> sat_SHA1_Final (sat_SHA1_Update (sat_SHA1_Init stack) key);
                  Some (overwrite (replicate BLOCKSIZE 0) 0 h)
                } else Some (overwrite (replicate BLOCKSIZE 0) 0 key));
       let rkey1 = xor_key rkey 0x5c5c5c5c;
           ctx1 = sat_SHA1_Update (sat_SHA1_Init stack) rkey1;
           rkey2 = xor_key rkey1 (0x5c5c5c5c XOR 0x36363636);
           ctx2 = sat_SHA1_Update (sat_SHA1_Init stack) rkey2
       in do {
         digest2 \<leftarrow> sat_SHA1_Final (sat_SHA1_Update ctx2 text);
         sat_SHA1_Final (sat_SHA1_Update ctx1 digest2)
       }
     }"

subsection \<open>The standard\<close>

definition read_be :: "bytes \<Rightarrow> nat \<Rightarrow> u32" where
  "read_be b i = push_bit 24 (ucast (b ! i)) OR push_bit 16 (ucast (b ! (i + 1))) OR push_bit 8 (ucast (b ! (i + 2))) OR
     ucast (b ! (i + 3))"

function fips_W :: "bytes \<Rightarrow> nat \<Rightarrow> u32" where
  "fips_W b t =
     (if t < 16 then read_be b (4 * t)
      else word_rotl 1 (fips_W b (t - 3) XOR fips_W b (t - 8) XOR fips_W b (t - 14) XOR fips_W b (t - 16)))"
  by pat_completeness auto
termination by (relation "measure snd") auto

declare fips_W.simps [simp del]

definition fips_f :: "nat \<Rightarrow> u32 \<Rightarrow> u32 \<Rightarrow> u32 \<Rightarrow> u32" where
  "fips_f t b c d =
     (if t < 20 then (b AND c) OR (NOT b AND d) else if t < 40 then b XOR c XOR d
      else if t < 60 then (b AND c) OR (b AND d) OR (c AND d) else b XOR c XOR d)"

definition fips_K :: "nat \<Rightarrow> u32" where
  "fips_K t = (if t < 20 then 0x5A827999 else if t < 40 then 0x6ED9EBA1 else if t < 60 then 0x8F1BBCDC else 0xCA62C1D6)"

fun fips_step :: "bytes \<Rightarrow> nat \<Rightarrow> sha1_state \<Rightarrow> sha1_state" where
  "fips_step m t (a, b, c, d, e) = (word_rotl 5 a + fips_f t b c d + e + fips_W m t + fips_K t, a, word_rotl 30 b, c, d)"

definition fips_block :: "sha1_state \<Rightarrow> bytes \<Rightarrow> sha1_state" where
  "fips_block s m = add_vars s (fold (fips_step m) [0..<80] s)"

function fips_blocks :: "sha1_state \<Rightarrow> bytes \<Rightarrow> sha1_state" where
  "fips_blocks s m = (if length m < 64 then s else fips_blocks (fips_block s (take 64 m)) (drop 64 m))"
  by pat_completeness auto
termination by (relation "measure (\<lambda>(s, m). length m)") auto

declare fips_blocks.simps [simp del]

definition fips_init :: sha1_state where
  "fips_init = (0x67452301, 0xEFCDAB89, 0x98BADCFE, 0x10325476, 0xC3D2E1F0)"

text \<open>A 1 bit, zero bits, and the length of the message in 64 bits.\<close>

definition fips_pad :: "bytes \<Rightarrow> bytes" where
  "fips_pad m = m @ [0x80] @ replicate ((119 - length m mod 64) mod 64) 0 @
     be_bytes (of_nat (8 * length m div 2 ^ 32)) @ be_bytes (of_nat (8 * length m))"

definition fips_sha1 :: "bytes \<Rightarrow> bytes" where
  "fips_sha1 m = state_bytes (fips_blocks fips_init (fips_pad m))"

definition rfc_hmac_sha1 :: "bytes \<Rightarrow> bytes \<Rightarrow> bytes" where
  "rfc_hmac_sha1 key text =
     (let k = (if 64 < length key then fips_sha1 key else key); k0 = k @ replicate (64 - length k) 0
      in fips_sha1 (map (\<lambda>b. b XOR 0x5c) k0 @ fips_sha1 (map (\<lambda>b. b XOR 0x36) k0 @ text)))"

subsection \<open>The rounds are those of the standard\<close>

lemma rol_eq: "0 < n \<Longrightarrow> n < 32 \<Longrightarrow> rol x n = word_rotl n x"
  unfolding rol_def by (rule rotate_word)

lemma bit_read_be:
  "bit (read_be x i) n = (if n < 8 then bit (x ! (i + 3)) n else if n < 16 then bit (x ! (i + 2)) (n - 8)
     else if n < 24 then bit (x ! (i + 1)) (n - 16) else n < 32 \<and> bit (x ! i) (n - 24))"
  by (auto simp: read_be_def bit_simps byte_bits)

lemma swap_bytes: "(rol (read_u32 x i) 24 AND 0xFF00FF00) OR (rol (read_u32 x i) 8 AND 0x00FF00FF) = read_be x i"
proof -
  have m: "(0xFF00FF00 :: u32) = push_bit 24 (mask 8) OR push_bit 8 (mask 8)" "(0x00FF00FF :: u32) = push_bit 16 (mask 8) OR mask 8"
    by (simp_all add: mask_eq_exp_minus_1)
  have c: "n < 8 \<or> 8 \<le> n \<and> n < 16 \<or> 16 \<le> n \<and> n < 24 \<or> 24 \<le> n" for n :: nat by linarith
  show ?thesis
  proof (rule bit_word_eqI)
    fix n :: nat assume "n < LENGTH(32)"
    then show "bit ((rol (read_u32 x i) 24 AND 0xFF00FF00) OR (rol (read_u32 x i) 8 AND 0x00FF00FF)) n = bit (read_be x i) n"
      using c [of n] unfolding m
      by (elim disjE) (auto simp: rol_def bit_read_u32 bit_read_be bit_simps byte_bits)
  qed
qed

lemma choose_eq: "((w AND (x XOR y)) XOR y) = (w AND x) OR (NOT w AND (y :: u32))"
  by (rule bit_word_eqI) (auto simp: bit_simps)

lemma majority_eq: "((w OR x) AND y) OR (w AND x) = (w AND x) OR (w AND y) OR (x AND (y :: u32))"
  by (rule bit_word_eqI) (auto simp: bit_simps)

text \<open>The block before place \<open>i\<close>: the last sixteen words of the schedule, read circularly.\<close>

definition schedule :: "bytes \<Rightarrow> nat \<Rightarrow> u32 list \<Rightarrow> bool" where
  "schedule m i block \<longleftrightarrow> length block = 16 \<and>
     (\<forall>t. t < i \<and> i \<le> t + 16 \<longrightarrow> block ! (t mod 16) = fips_W m t) \<and>
     (\<forall>t. i \<le> t \<and> t < 16 \<longrightarrow> block ! t = read_u32 m (4 * t))"

lemma blk0_step:
  assumes "schedule m i block" "i < 16"
  shows "\<exists>block'. blk0 block i = (fips_W m i, block') \<and> schedule m (i + 1) block'"
proof -
  have "block ! i = read_u32 m (4 * i)" using assms by (auto simp: schedule_def)
  then have "blk0 block i = (read_be m (4 * i), block[i := read_be m (4 * i)])" by (simp add: blk0_def swap_bytes Let_def)
  moreover have "fips_W m i = read_be m (4 * i)" using assms(2) by (simp add: fips_W.simps)
  moreover from this have "schedule m (i + 1) (block[i := read_be m (4 * i)])"
    using assms by (auto simp: schedule_def nth_list_update less_Suc_eq)
  ultimately show ?thesis by simp
qed

lemma back_mod: "k \<le> i \<Longrightarrow> k \<le> 16 \<Longrightarrow> (i + (16 - k)) mod 16 = (i - k) mod 16" for i k :: nat
proof -
  assume "k \<le> i" "k \<le> 16"
  then have "i + (16 - k) = (i - k) + 16" by linarith
  then show ?thesis by simp
qed

lemma blk_step:
  assumes "schedule m i block" "16 \<le> i"
  shows "\<exists>block'. blk block i = (fips_W m i, block') \<and> schedule m (i + 1) block'"
proof -
  have at: "block ! ((i + (16 - k)) mod 16) = fips_W m (i - k)" if "0 < k" "k \<le> 16" for k
    using assms that back_mod [of k i] by (auto simp: schedule_def)
  have "fips_W m i = rol (block ! ((i + 13) mod 16) XOR block ! ((i + 8) mod 16) XOR block ! ((i + 2) mod 16) XOR block ! (i mod 16)) 1"
    using at [of 3] at [of 8] at [of 14] at [of 16] assms(2) by (subst fips_W.simps) (simp add: rol_eq)
  then have "blk block i = (fips_W m i, block[i mod 16 := fips_W m i])" by (simp add: blk_def Let_def)
  moreover have "schedule m (i + 1) (block[i mod 16 := fips_W m i])"
    unfolding schedule_def
  proof (intro conjI allI impI)
    fix t assume t: "t < i + 1 \<and> i + 1 \<le> t + 16"
    show "block[i mod 16 := fips_W m i] ! (t mod 16) = fips_W m t"
    proof (cases "t = i")
      case False
      then have "t < i" "i - t < 16" using t by auto
      then have "t mod 16 \<noteq> i mod 16" by (metis mod_eq_dvd_iff_nat nat_dvd_not_less less_imp_le zero_less_diff)
      then show ?thesis using assms t \<open>t < i\<close> by (simp add: schedule_def)
    qed (use assms in \<open>simp add: schedule_def\<close>)
  qed (use assms in \<open>auto simp: schedule_def\<close>)
  ultimately show ?thesis by blast
qed

lemma R_step:
  assumes "schedule m i block" "i < 80"
  shows "\<exists>block'. R i v w x y z block =
      (word_rotl 30 w, word_rotl 5 v + fips_f i w x y + z + fips_W m i + fips_K i, block') \<and> schedule m (i + 1) block'"
proof (cases "i < 16")
  case True
  then obtain block' where b: "blk0 block i = (fips_W m i, block')" "schedule m (i + 1) block'"
    using blk0_step [OF assms(1)] by auto
  have "R i v w x y z block = (word_rotl 30 w, z + (fips_f i w x y + fips_W m i + fips_K i + word_rotl 5 v), block')"
    using True b(1) by (simp add: R_def R0_def rol_eq choose_eq fips_f_def fips_K_def)
  then show ?thesis using b(2) by (simp add: add.assoc add.commute add.left_commute)
next
  case False
  then obtain block' where b: "blk block i = (fips_W m i, block')" "schedule m (i + 1) block'"
    using blk_step [OF assms(1)] by auto
  have "R i v w x y z block = (word_rotl 30 w, z + (fips_f i w x y + fips_W m i + fips_K i + word_rotl 5 v), block')"
    using False assms(2) b(1)
    by (simp add: R_def R1_def R2_def R3_def R4_def rol_eq choose_eq majority_eq fips_f_def fips_K_def)
  then show ?thesis using b(2) by (simp add: add.assoc add.commute add.left_commute)
qed

lemma five_rounds_step:
  assumes "schedule m i block" "i + 5 \<le> 80"
  shows "\<exists>block'. five_rounds i (s, block) = (fold (fips_step m) [i..<i + 5] s, block') \<and> schedule m (i + 5) block'"
proof -
  obtain a b c d e where s: "s = (a, b, c, d, e)" by (metis prod_cases5)
  let ?z = "\<lambda>j v w x y z. word_rotl 5 v + fips_f j w x y + z + fips_W m j + fips_K j"
  define e1 where "e1 = ?z i a b c d e"
  define b1 where "b1 = word_rotl 30 b"
  define d1 where "d1 = ?z (i + 1) e1 a b1 c d"
  define a1 where "a1 = word_rotl 30 a"
  define c1 where "c1 = ?z (i + 2) d1 e1 a1 b1 c"
  define e2 where "e2 = word_rotl 30 e1"
  define b2 where "b2 = ?z (i + 3) c1 d1 e2 a1 b1"
  define d2 where "d2 = word_rotl 30 d1"
  define a2 where "a2 = ?z (i + 4) b2 c1 d2 e2 a1"
  define c2 where "c2 = word_rotl 30 c1"
  obtain l1 where 1: "R i a b c d e block = (b1, e1, l1)" "schedule m (i + 1) l1"
    using R_step [OF assms(1), of a b c d e] assms(2) by (auto simp: b1_def e1_def)
  obtain l2 where 2: "R (i + 1) e1 a b1 c d l1 = (a1, d1, l2)" "schedule m (i + 2) l2"
    using R_step [OF 1(2), of e1 a b1 c d] assms(2) by (auto simp: a1_def d1_def)
  obtain l3 where 3: "R (i + 2) d1 e1 a1 b1 c l2 = (e2, c1, l3)" "schedule m (i + 3) l3"
    using R_step [OF 2(2), of d1 e1 a1 b1 c] assms(2) by (auto simp: e2_def c1_def numeral_3_eq_3)
  obtain l4 where 4: "R (i + 3) c1 d1 e2 a1 b1 l3 = (d2, b2, l4)" "schedule m (i + 4) l4"
    using R_step [OF 3(2), of c1 d1 e2 a1 b1] assms(2) by (auto simp: d2_def b2_def eval_nat_numeral)
  obtain l5 where 5: "R (i + 4) b2 c1 d2 e2 a1 l4 = (c2, a2, l5)" "schedule m (i + 5) l5"
    using R_step [OF 4(2), of b2 c1 d2 e2 a1] assms(2) by (auto simp: c2_def a2_def eval_nat_numeral)
  have "five_rounds i (s, block) = ((a2, b2, c2, d2, e2), l5)"
    using 1(1) 2(1) 3(1) 4(1) 5(1) by (simp only: s five_rounds.simps Let_def prod.case)
  moreover have "[i..<i + 5] = [i, i + 1, i + 2, i + 3, i + 4]" by (simp add: upt_rec)
  then have "fold (fips_step m) [i..<i + 5] s = (a2, b2, c2, d2, e2)"
    by (simp only: s fold_simps fips_step.simps e1_def b1_def d1_def a1_def c1_def e2_def b2_def d2_def a2_def c2_def)
  ultimately show ?thesis using 5(2) by (intro exI [of _ l5]) simp
qed

lemma transform_fold:
  "k \<le> 16 \<Longrightarrow> schedule m 0 block \<Longrightarrow>
   \<exists>block'. fold five_rounds (map (\<lambda>k. 5 * k) [0..<k]) (s, block) = (fold (fips_step m) [0..<5 * k] s, block') \<and>
     schedule m (5 * k) block'"
proof (induction k)
  case (Suc k)
  then obtain l where l: "fold five_rounds (map (\<lambda>k. 5 * k) [0..<k]) (s, block) = (fold (fips_step m) [0..<5 * k] s, l)"
    "schedule m (5 * k) l" by auto
  have e: "5 * Suc k = 5 * k + 5" by simp
  have "[0..<5 * k + 5] = [0..<5 * k] @ [5 * k..<5 * k + 5]" using upt_add_eq_append [of 0 "5 * k" 5] by simp
  then show ?case
    using l five_rounds_step [OF l(2), of "fold (fips_step m) [0..<5 * k] s"] Suc.prems(1) unfolding e by simp
qed simp

lemma transform_eq: "SHA1_Transform s m = fips_block s m"
proof -
  have "schedule m 0 (map (\<lambda>i. read_u32 m (4 * i)) [0..<16])" by (simp add: schedule_def)
  from transform_fold [OF order_refl this, of s] show ?thesis
    by (auto simp: SHA1_Transform_def fips_block_def)
qed

subsection \<open>The context stands for the message so far\<close>

lemma fips_blocks_short: "length m < 64 \<Longrightarrow> fips_blocks s m = s"
  by (subst fips_blocks.simps) simp

lemma fips_blocks_append:
  "length m mod 64 = 0 \<Longrightarrow> fips_blocks s (m @ d) = fips_blocks (fips_blocks s m) d"
proof (induction s m rule: fips_blocks.induct)
  case (1 s m)
  show ?case
  proof (cases "length m < 64")
    case True
    then have "m = []" using 1(2) by simp
    then show ?thesis by (simp add: fips_blocks_short)
  next
    case False
    then have "length (drop 64 m) mod 64 = 0" using 1(2) by (simp add: le_mod_geq)
    then show ?thesis
      using 1(1) [OF False] False by (simp add: fips_blocks.simps [of s "m @ d"] fips_blocks.simps [of s m])
  qed
qed

lemma transform_loop_blocks:
  "transform_loop s d = (fips_blocks s d, drop (64 * (length d div 64)) d)"
proof (induction s d rule: transform_loop.induct)
  case (1 s d)
  show ?case
  proof (cases "64 \<le> length d")
    case True
    have "length d div 64 = Suc (length (drop 64 d) div 64)" using True by (simp add: le_div_geq)
    then have "drop (64 * (length d div 64)) d = drop (64 * (length (drop 64 d) div 64)) (drop 64 d)"
      by (simp add: add.commute)
    then show ?thesis
      using 1 [OF True] True by (simp add: transform_loop.simps [of s d] fips_blocks.simps [of s d] transform_eq)
  next
    case False
    then show ?thesis by (simp add: transform_loop.simps [of s d] fips_blocks_short)
  qed
qed

text \<open>\<open>absorbed ctx m\<close>: the context has read the bytes \<open>m\<close>; \<open>tail_of m\<close> are those after the last whole block.\<close>

definition tail_of :: "bytes \<Rightarrow> bytes" where
  "tail_of m = drop (64 * (length m div 64)) m"

definition absorbed :: "SHA1_CTX \<Rightarrow> bytes \<Rightarrow> bool" where
  "absorbed ctx m \<longleftrightarrow>
     sh_state ctx = fips_blocks fips_init m \<and> length (sh_buffer ctx) = 64 \<and>
     take (length m mod 64) (sh_buffer ctx) = tail_of m \<and>
     count0 ctx = of_nat (8 * length m) \<and> count1 ctx = of_nat (8 * length m div 2 ^ 32)"

lemma length_tail [simp]: "length (tail_of m) = length m mod 64"
  by (simp add: tail_of_def minus_mult_div_eq_mod)

lemma split_tail: "m = take (64 * (length m div 64)) m @ tail_of m"
  by (simp add: tail_of_def)

lemma blocks_tail:
  "fips_blocks s (m @ d) = fips_blocks (fips_blocks s m) (tail_of m @ d)"
proof -
  let ?m0 = "take (64 * (length m div 64)) m"
  have l: "length ?m0 mod 64 = 0" by simp
  have "fips_blocks s (?m0 @ tail_of m) = fips_blocks s ?m0"
    using fips_blocks_append [OF l, of s "tail_of m"] by (simp add: fips_blocks_short)
  then have "fips_blocks s m = fips_blocks s ?m0" by (simp add: split_tail [symmetric])
  moreover have "fips_blocks s (m @ d) = fips_blocks s (?m0 @ (tail_of m @ d))"
    by (metis append.assoc split_tail)
  ultimately show ?thesis using fips_blocks_append [OF l] by simp
qed

subsection \<open>The bit counter\<close>

lemma carry_div:
  fixes M L B :: nat
  assumes "L < B"
  shows "(M + L) div B = M div B + (if (M + L) mod B < L then 1 else 0)"
proof -
  have B: "B \<noteq> 0" using assms by simp
  have split: "M + L = B * (M div B) + (M mod B + L)" by simp
  have d: "(M + L) div B = M div B + (M mod B + L) div B" by (subst split) (rule div_mult_self4 [OF B])
  have m: "(M + L) mod B = (M mod B + L) mod B" by (rule mod_add_left_eq [symmetric])
  show ?thesis
  proof (cases "M mod B + L < B")
    case True
    then show ?thesis unfolding d m by simp
  next
    case False
    define r where "r = M mod B + L - B"
    have "M mod B < B" using assms by simp
    then have r: "M mod B + L = B + r" "r < L" "r < B" using False assms unfolding r_def by linarith+
    then show ?thesis unfolding d m r(1) by (simp add: div_add_self1 [OF B])
  qed
qed

lemma unat_up: "unat (ucast (x :: u32) :: u64) = unat x"
  using unat_lt32 [of x] by (simp add: unsigned_ucast_eq take_bit_eq_mod)

lemma sha1_count_ok:
  assumes "len < 2 ^ 29"
  shows "sha1_count (of_nat len) (of_nat (8 * n), of_nat (8 * n div 2 ^ 32)) =
    (of_nat (8 * (n + len)), of_nat (8 * (n + len) div 2 ^ 32))"
proof -
  let ?B = "2 ^ 32 :: nat"
  have L: "8 * len < ?B" using assms by simp
  have push: "push_bit 3 (of_nat len :: u64) = of_nat (8 * len)" by (simp add: push_bit_eq_mult)
  have unat_L: "unat (of_nat (8 * len) :: u64) = 8 * len"
    using L by (simp only: unsigned_of_nat take_bit_eq_mod) simp
  define c0 :: u32 where "c0 = ucast (ucast (of_nat (8 * n) :: u32) + of_nat (8 * len) :: u64)"
  have c0: "c0 = of_nat (8 * (n + len))"
  proof -
    have "unat c0 = unat (ucast (of_nat (8 * n) :: u32) + of_nat (8 * len) :: u64) mod ?B"
      by (simp add: c0_def unsigned_ucast_eq take_bit_eq_mod)
    also have "unat (ucast (of_nat (8 * n) :: u32) + of_nat (8 * len) :: u64) = (8 * n) mod ?B + 8 * len"
    proof -
      have u: "unat (ucast (of_nat (8 * n) :: u32) :: u64) = (8 * n) mod ?B"
        unfolding unat_up by (simp only: unsigned_of_nat take_bit_eq_mod) simp
      have "(8 * n) mod ?B < ?B" by (rule mod_less_divisor) simp
      then have "(8 * n) mod ?B + 8 * len < 2 ^ LENGTH(64)" using L by simp
      then show ?thesis unfolding unat_word_ariths(1) u unat_L by (rule mod_less)
    qed
    also have "((8 * n) mod ?B + 8 * len) mod ?B = unat (of_nat (8 * (n + len)) :: u32)"
      by (simp only: unsigned_of_nat take_bit_eq_mod mod_add_left_eq distrib_left) simp
    finally show ?thesis by (simp only: word_unat_eq_iff)
  qed
  have "ucast c0 < (of_nat (8 * len) :: u64) \<longleftrightarrow> (8 * n + 8 * len) mod ?B < 8 * len"
  proof -
    have "unat (ucast c0 :: u64) = (8 * n + 8 * len) mod ?B"
      unfolding c0 unat_up by (simp only: unsigned_of_nat take_bit_eq_mod distrib_left) simp
    then show ?thesis by (simp only: word_less_nat_alt unat_L)
  qed
  moreover have "ucast (drop_bit 29 (of_nat len :: u64)) = (0 :: u32)"
  proof -
    have "unat (of_nat len :: u64) = len" using assms by (simp add: unsigned_of_nat take_bit_eq_mod)
    then have "unat (drop_bit 29 (of_nat len :: u64)) = 0"
      using assms unfolding unat_drop_bit_eq drop_bit_eq_div [where 'a = nat] by simp
    then have "drop_bit 29 (of_nat len :: u64) = 0" by (simp only: unat_eq_0)
    then show ?thesis by simp
  qed
  ultimately have "sha1_count (of_nat len) (of_nat (8 * n), of_nat (8 * n div ?B)) =
      (c0, of_nat (8 * n div ?B + (if (8 * n + 8 * len) mod ?B < 8 * len then 1 else 0)))"
    unfolding sha1_count_def fst_conv snd_conv push Let_def c0_def [symmetric] by simp
  then show ?thesis using carry_div [OF L, of "8 * n"] c0 by (simp only: distrib_left)
qed

text \<open>The comparison of the 32-bit counter with the 64-bit number of bits is always true from \<open>2 ^ 29\<close> bytes on: such
  an update counts a carry that did not happen.\<close>

lemma sha1_count_wrong: "sha1_count (2 ^ 29) (0, 0) = (0, 2)"
  by (simp add: sha1_count_def push_bit_eq_mult)

subsection \<open>Reading bytes\<close>

lemma tail_of_append: "length b mod 64 = 0 \<Longrightarrow> tail_of (b @ d) = tail_of d"
proof -
  assume "length b mod 64 = 0"
  then obtain k where k: "length b = 64 * k" by (metis mod_0_imp_dvd dvdE)
  have "(64 * k + length d) div 64 = k + length d div 64" by simp
  then show ?thesis by (simp add: tail_of_def k distrib_left)
qed

lemma tail_of_short: "length d < 64 \<Longrightarrow> tail_of d = d"
  by (simp add: tail_of_def)

lemma tail_of_step: "tail_of (m @ d) = tail_of (tail_of m @ d)"
proof -
  have "tail_of (m @ d) = tail_of (take (64 * (length m div 64)) m @ (tail_of m @ d))" by (metis append.assoc split_tail)
  then show ?thesis using tail_of_append [of "take (64 * (length m div 64)) m" "tail_of m @ d"] by simp
qed

lemma length_overwrite: "j + length d \<le> length b \<Longrightarrow> length (overwrite b j d) = length b"
  by (simp add: overwrite_def)

lemma count_position: "unat (drop_bit 3 (of_nat (8 * n) :: u32) AND 63) = n mod 64"
proof -
  have "unat (drop_bit 3 (of_nat (8 * n) :: u32) AND 63) = unat (drop_bit 3 (of_nat (8 * n) :: u32)) mod 64"
    unfolding and_masks unsigned_take_bit_eq by (simp add: take_bit_eq_mod)
  also have "unat (drop_bit 3 (of_nat (8 * n) :: u32)) = (8 * n) mod (8 * 2 ^ 29) div 8"
    unfolding unat_drop_bit_eq drop_bit_eq_div [where 'a = nat] by (simp only: unsigned_of_nat take_bit_eq_mod) simp
  also have "\<dots> = n mod 2 ^ 29" by (simp only: mult_mod_right [symmetric] nonzero_mult_div_cancel_left)
  also have "n mod 2 ^ 29 mod 64 = n mod 64" by (simp add: mod_mod_cancel)
  finally show ?thesis .
qed

lemma update_absorbed:
  assumes "absorbed ctx m" "length data < 2 ^ 29"
  shows "absorbed (sat_SHA1_Update ctx data) (m @ data)"
proof -
  define j where "j = length m mod 64"
  have st: "sh_state ctx = fips_blocks fips_init m" "length (sh_buffer ctx) = 64" "take j (sh_buffer ctx) = tail_of m"
    and cn: "count0 ctx = of_nat (8 * length m)" "count1 ctx = of_nat (8 * length m div 2 ^ 32)"
    using assms(1) by (simp_all only: absorbed_def j_def)
  have j: "unat (drop_bit 3 (of_nat (8 * length m) :: u32) AND 63) = j" unfolding j_def by (rule count_position)
  have jl: "j < 64" "length (tail_of m) = j" by (simp_all add: j_def)
  note count = sha1_count_ok [OF assms(2), of "length m"]
  show ?thesis
  proof (cases "63 < j + length data")
    case True
    define b where "b = tail_of m @ take (64 - j) data"
    define d where "d = drop (64 - j) data"
    have b: "overwrite (sh_buffer ctx) j (take (64 - j) data) = b" "length b = 64" "b @ d = tail_of m @ data"
      using True st jl by (simp_all add: overwrite_def b_def d_def)
    have "fips_blocks fips_init (m @ data) = fips_blocks (sh_state ctx) (b @ d)" unfolding b(3) st(1) by (rule blocks_tail)
    also have "\<dots> = fips_blocks (fips_block (sh_state ctx) b) d"
      using b(2) by (subst fips_blocks.simps) simp
    finally have state: "fips_blocks fips_init (m @ data) = fips_blocks (fips_block (sh_state ctx) b) d" .
    have "tail_of (m @ data) = tail_of (b @ d)" unfolding b(3) by (rule tail_of_step)
    also have "\<dots> = tail_of d" by (rule tail_of_append) (simp add: b(2))
    finally have tl: "tail_of (m @ data) = tail_of d" .
    have lt: "length (tail_of d) \<le> length b" using b(2) by simp
    have "length (tail_of (m @ data)) = length (tail_of d)" using tl by simp
    then have lm: "length (m @ data) mod 64 = length (tail_of d)" by simp
    have "sat_SHA1_Update ctx data = \<lparr>sh_state = fips_blocks fips_init (m @ data), count0 = of_nat (8 * (length m + length data)),
        count1 = of_nat (8 * (length m + length data) div 2 ^ 32), sh_buffer = overwrite b 0 (tail_of d)\<rparr>"
      using True unfolding sat_SHA1_Update_def Let_def cn count j b(1) transform_eq d_def [symmetric] transform_loop_blocks state
      by (simp add: tail_of_def)
    then show ?thesis
      using tl lt b(2) lm unfolding absorbed_def
      by (simp add: length_overwrite) (simp add: overwrite_def)
  next
    case False
    then have short: "length (tail_of m @ data) < 64" using jl by simp
    have "tail_of (m @ data) = tail_of m @ data" using tail_of_step [of m data] tail_of_short [OF short] by simp
    moreover from this have "length (m @ data) mod 64 = j + length data" using length_tail [of "m @ data"] jl by simp
    moreover have "fips_blocks fips_init (m @ data) = fips_blocks fips_init m"
      using blocks_tail [of fips_init m data] fips_blocks_short [OF short] by simp
    moreover have "sat_SHA1_Update ctx data = \<lparr>sh_state = sh_state ctx, count0 = of_nat (8 * (length m + length data)),
        count1 = of_nat (8 * (length m + length data) div 2 ^ 32), sh_buffer = overwrite (sh_buffer ctx) j data\<rparr>"
      using False unfolding sat_SHA1_Update_def Let_def cn count j by simp
    ultimately show ?thesis
      using False st jl unfolding absorbed_def length_append by (simp add: length_overwrite) (simp add: overwrite_def)
  qed
qed

lemma init_absorbed: "length stack = 64 \<Longrightarrow> absorbed (sat_SHA1_Init stack) []"
  by (simp add: absorbed_def sat_SHA1_Init_def fips_init_def fips_blocks_short tail_of_def)

subsection \<open>The end of a message\<close>

lemma pad_test:
  assumes "absorbed ctx m"
  shows "count0 ctx AND 504 = 448 \<longleftrightarrow> length m mod 64 = 56"
proof -
  have m: "(504 :: u32) = push_bit 3 (mask 6)" "(63 :: u32) = mask 6" by (simp_all add: mask_eq_exp_minus_1 push_bit_eq_mult)
  have "count0 ctx AND 504 = push_bit 3 (drop_bit 3 (count0 ctx) AND 63)"
    unfolding m by (rule bit_word_eqI) (auto simp: bit_simps cong: conj_cong)
  also have "drop_bit 3 (count0 ctx) AND 63 = of_nat (length m mod 64)"
  proof -
    have "unat (drop_bit 3 (count0 ctx) AND 63) = length m mod 64"
      using count_position [of "length m"] assms by (simp only: absorbed_def)
    moreover have "length m mod 64 < 64" by simp
    ultimately show ?thesis unfolding word_unat_eq_iff by (simp only: unsigned_of_nat take_bit_eq_mod) simp
  qed
  also have "push_bit 3 (of_nat (length m mod 64) :: u32) = of_nat (8 * (length m mod 64))"
    by (simp add: push_bit_eq_mult)
  finally have c: "count0 ctx AND 504 = of_nat (8 * (length m mod 64))" .
  have "length m mod 64 < 64" by simp
  then have "unat (of_nat (8 * (length m mod 64)) :: u32) = 8 * (length m mod 64)"
    by (simp only: unsigned_of_nat take_bit_eq_mod) simp
  then show ?thesis unfolding c by (auto simp: word_unat_eq_iff)
qed

text \<open>The number of zero bytes that are missing.\<close>

lemma missing: "(120 - n mod 64) mod 64 = (if n mod 64 \<le> 56 then 56 - n mod 64 else 120 - n mod 64)" for n :: nat
proof -
  have "n mod 64 < 64" by simp
  then show ?thesis by (simp add: le_mod_geq)
qed

lemma missing_zero: "(120 - n mod 64) mod 64 = 0 \<longleftrightarrow> n mod 64 = 56" for n :: nat
proof -
  have "n mod 64 < 64" by simp
  then show ?thesis unfolding missing by (simp split: if_splits) linarith
qed

lemma missing_Suc: "Suc k = (120 - n mod 64) mod 64 \<Longrightarrow> n mod 64 \<noteq> 56 \<and> k = (120 - Suc n mod 64) mod 64" for n k :: nat
proof -
  assume k: "Suc k = (120 - n mod 64) mod 64"
  then have ne: "n mod 64 \<noteq> 56" using missing_zero [of n] by linarith
  have "n mod 64 < 64" by simp
  then have "k = (120 - Suc n mod 64) mod 64"
  proof (cases "n mod 64 = 63")
    case True
    then have "Suc n mod 64 = 0" by (simp add: mod_Suc)
    then show ?thesis using k True by (simp add: missing)
  next
    case False
    then have "Suc n mod 64 = Suc (n mod 64)" by (simp add: mod_Suc)
    then show ?thesis using k ne \<open>n mod 64 < 64\<close> unfolding missing by (auto split: if_splits)
  qed
  then show ?thesis using ne by simp
qed

lemma zero_loop_absorbed:
  "absorbed ctx m \<Longrightarrow> k = (120 - length m mod 64) mod 64 \<Longrightarrow>
   \<exists>ctx'. zero_loop ctx = Some ctx' \<and> absorbed ctx' (m @ replicate k 0)"
proof (induction k arbitrary: ctx m)
  case 0
  then have "length m mod 64 = 56" using missing_zero [of "length m"] by simp
  then show ?case using 0 pad_test [OF 0(1)] by (subst zero_loop.simps) simp
next
  case (Suc k)
  have k: "length m mod 64 \<noteq> 56" "k = (120 - length (m @ [0]) mod 64) mod 64"
    using missing_Suc [OF Suc.prems(2)] by simp_all
  have "absorbed (sat_SHA1_Update ctx [0]) (m @ [0])" by (rule update_absorbed [OF Suc.prems(1)]) simp
  then obtain ctx' where c: "zero_loop (sat_SHA1_Update ctx [0]) = Some ctx'" "absorbed ctx' ((m @ [0]) @ replicate k 0)"
    using Suc.IH [OF _ k(2)] by blast
  have "(m @ [0]) @ replicate k 0 = m @ replicate (Suc k) (0 :: u8)" by simp
  then show ?case using c k(1) pad_test [OF Suc.prems(1)] by (subst zero_loop.simps) simp
qed

lemma final_absorbed:
  assumes "absorbed ctx m"
  shows "sat_SHA1_Final ctx = Some (fips_sha1 m)"
proof -
  have a: "absorbed (sat_SHA1_Update ctx [0x80]) (m @ [0x80])" by (rule update_absorbed [OF assms]) simp
  have "length m mod 64 < 64" by simp
  then have k: "(119 - length m mod 64) mod 64 = (120 - length (m @ [0x80 :: u8]) mod 64) mod 64"
    by (simp add: mod_Suc)
  obtain ctx' where c: "zero_loop (sat_SHA1_Update ctx [0x80]) = Some ctx'"
    "absorbed ctx' ((m @ [0x80]) @ replicate ((119 - length m mod 64) mod 64) 0)"
    using zero_loop_absorbed [OF a k] by auto
  let ?fc = "be_bytes (count1 ctx) @ be_bytes (count0 ctx)"
  have "absorbed (sat_SHA1_Update ctx' ?fc) (((m @ [0x80]) @ replicate ((119 - length m mod 64) mod 64) 0) @ ?fc)"
    by (rule update_absorbed [OF c(2)]) (simp add: be_bytes_def)
  moreover have "((m @ [0x80]) @ replicate ((119 - length m mod 64) mod 64) 0) @ ?fc = fips_pad m"
    using assms unfolding absorbed_def fips_pad_def by (simp only: append_assoc)
  ultimately have "sh_state (sat_SHA1_Update ctx' ?fc) = fips_blocks fips_init (fips_pad m)"
    by (simp add: absorbed_def)
  then show ?thesis using c(1) by (simp add: sat_SHA1_Final_def fips_sha1_def)
qed

lemma length_fips_sha1 [simp]: "length (fips_sha1 m) = 20"
  by (cases "fips_blocks fips_init (fips_pad m)") (simp add: fips_sha1_def be_bytes_def)

subsection \<open>The key of the keyed hash\<close>

lemma le_xor: "le_bytes (read_u32 k i XOR w) =
    [k ! i XOR ucast w, k ! (i + 1) XOR ucast (drop_bit 8 w), k ! (i + 2) XOR ucast (drop_bit 16 w), k ! (i + 3) XOR ucast (drop_bit 24 w)]"
  unfolding le_bytes_def and_masks
  by (auto intro!: bit_word_eqI simp: bit_simps bit_read_u32)

lemma concat_quads:
  "length xs = 4 * n \<Longrightarrow> concat (map (\<lambda>i. [xs ! (4 * i), xs ! (4 * i + 1), xs ! (4 * i + 2), xs ! (4 * i + 3)]) [0..<n]) = xs"
proof (induction n arbitrary: xs)
  case (Suc n)
  let ?f = "\<lambda>xs i. [xs ! (4 * i), xs ! (4 * i + 1), xs ! (4 * i + 2), xs ! (4 * i + 3)]"
  let ?ys = "take (4 * n) xs"
  have "map (?f xs) [0..<n] = map (?f ?ys) [0..<n]" using Suc.prems by (intro map_cong) auto
  moreover have "concat (map (?f ?ys) [0..<n]) = ?ys" using Suc.IH [of ?ys] Suc.prems by simp
  moreover have "drop (4 * n) xs = ?f xs n"
    using Suc.prems by (intro nth_equalityI) (auto simp: less_Suc_eq eval_nat_numeral)
  moreover have "concat (map (?f xs) [0..<Suc n]) = concat (map (?f xs) [0..<n]) @ ?f xs n" by simp
  ultimately have "concat (map (?f xs) [0..<Suc n]) = ?ys @ drop (4 * n) xs" by (simp only:)
  then show ?case by (simp only: append_take_drop_id)
qed simp

lemma xor_key_map:
  assumes "length key = 64" "ucast w = b" "ucast (drop_bit 8 w) = b" "ucast (drop_bit 16 w) = b" "ucast (drop_bit 24 w) = b"
  shows "xor_key key w = map (\<lambda>c. c XOR b) key"
proof -
  let ?k = "map (\<lambda>c. c XOR b) key"
  have "le_bytes (read_u32 key (4 * i) XOR w) = [?k ! (4 * i), ?k ! (4 * i + 1), ?k ! (4 * i + 2), ?k ! (4 * i + 3)]"
    if "i \<in> set [0..<16]" for i using that assms by (simp add: le_xor)
  then have "map (\<lambda>i. le_bytes (read_u32 key (4 * i) XOR w)) [0..<16] =
      map (\<lambda>i. [?k ! (4 * i), ?k ! (4 * i + 1), ?k ! (4 * i + 2), ?k ! (4 * i + 3)]) [0..<16]"
    by (rule map_cong [OF refl])
  then show ?thesis using concat_quads [of ?k 16] assms(1) by (simp only: xor_key_def length_map)
qed

lemma xor_keys:
  assumes "length key = 64"
  shows "xor_key key 0x5c5c5c5c = map (\<lambda>c. c XOR 0x5c) key"
    "xor_key (map (\<lambda>c. c XOR 0x5c) key) (0x5c5c5c5c XOR 0x36363636) = map (\<lambda>c. c XOR 0x36) key"
proof -
  show "xor_key key 0x5c5c5c5c = map (\<lambda>c. c XOR 0x5c) key"
    by (rule xor_key_map [OF assms]) simp_all
  have x: "(0x5c5c5c5c XOR 0x36363636 :: u32) = 0x6a6a6a6a" by simp
  have "xor_key (map (\<lambda>c. c XOR 0x5c) key) 0x6a6a6a6a = map (\<lambda>c. c XOR 0x6a) (map (\<lambda>c. c XOR 0x5c) key)"
    by (rule xor_key_map) (use assms in simp_all)
  also have "\<dots> = map (\<lambda>c. c XOR 0x36) key" by (simp add: xor.assoc)
  finally show "xor_key (map (\<lambda>c. c XOR 0x5c) key) (0x5c5c5c5c XOR 0x36363636) = map (\<lambda>c. c XOR 0x36) key"
    unfolding x .
qed

lemma short_key: "length k \<le> 64 \<Longrightarrow> overwrite (replicate BLOCKSIZE 0) 0 k = k @ replicate (64 - length k) 0"
  by (simp add: overwrite_def BLOCKSIZE_def)

subsection \<open>Guarantees\<close>

text \<open>C29. SHA-1 and its keyed hash: for texts and keys of less than 512 MB, whatever the stack holds, the
  functions return the hash of FIPS 180-1 and the keyed hash of RFC 2104; in particular the loop
  that pads the message ends.\<close>

theorem sha1_standard:
  assumes "length stack = 64" "length text < 2 ^ 29" "length key < 2 ^ 29"
  shows "lsha1 stack text = Some (fips_sha1 text) \<and> lhmac_sha1 stack key text = Some (rfc_hmac_sha1 key text)"
proof -
  note init = init_absorbed [OF assms(1)]
  have hash: "sat_SHA1_Final (sat_SHA1_Update (sat_SHA1_Init stack) m) = Some (fips_sha1 m)" if "length m < 2 ^ 29" for m
    using final_absorbed [OF update_absorbed [OF init that]] by simp
  have hash2: "sat_SHA1_Final (sat_SHA1_Update (sat_SHA1_Update (sat_SHA1_Init stack) m) d) = Some (fips_sha1 (m @ d))"
    if "length m < 2 ^ 29" "length d < 2 ^ 29" for m d
    using final_absorbed [OF update_absorbed [OF update_absorbed [OF init that(1)] that(2)]] by simp
  define k where "k = (if 64 < length key then fips_sha1 key else key)"
  have "length k \<le> 64" by (simp add: k_def)
  define k0 where "k0 = k @ replicate (64 - length k) 0"
  have k0: "length k0 = 64" using \<open>length k \<le> 64\<close> by (simp add: k0_def)
  have rkey: "(if BLOCKSIZE < length key then do {
      h \<leftarrow> sat_SHA1_Final (sat_SHA1_Update (sat_SHA1_Init stack) key);
      Some (overwrite (replicate BLOCKSIZE 0) 0 h)
    } else Some (overwrite (replicate BLOCKSIZE 0) 0 key)) = Some k0"
    using hash [OF assms(3)] short_key [OF \<open>length k \<le> 64\<close>] by (auto simp: k0_def k_def BLOCKSIZE_def)
  let ?o = "map (\<lambda>c. c XOR 0x5c) k0" and ?i = "map (\<lambda>c. c XOR 0x36) k0"
  have "length ?o < 2 ^ 29" "length ?i < 2 ^ 29" using k0 by simp_all
  then have "lhmac_sha1 stack key text = Some (fips_sha1 (?o @ fips_sha1 (?i @ text)))"
    using hash2 [of ?i "text"] hash2 [of ?o "fips_sha1 (?i @ text)"] assms(2)
    unfolding lhmac_sha1_def rkey bind.bind_lunit Let_def xor_keys [OF k0] by simp
  then show ?thesis using hash [OF assms(2)] by (simp add: lsha1_def rfc_hmac_sha1_def k_def k0_def Let_def)
qed

theorem sha1_standard_witness:
  "length (replicate 64 (7 :: u8)) = 64 \<and> lsha1 (replicate 64 7) (ascii ''abc'') = Some (fips_sha1 (ascii ''abc''))"
  using sha1_standard [of "replicate 64 7" "ascii ''abc''" "ascii ''key''"] by (simp add: ascii_def)

end
