(* ===== verification/Cluster.thy ===== *)
theory Cluster
  imports Prelude
begin

text \<open>
  The messages between the nodes of a cluster, \<^verbatim>\<open>lua-cluster.c\<close>: packing and unpacking of
  requests, pushes and responses, whole or in parts. The functions are called from Lua: a value
  on its stack is a \<open>val\<close>, the results of a call are a list of them, and an error raised with
  \<^verbatim>\<open>luaL_error\<close> is a value of the left side of a sum. \<open>None\<close> is a failed assertion or a write
  outside the temporary buffer.
\<close>

subsection \<open>Values and buffers\<close>

text \<open>\<open>VBuf\<close> is a light userdata with the bytes it points to.\<close>

datatype val = VNil | VBool bool | VInt int | VStr bytes | VBuf bytes

datatype cluster_error =
    Invalid_Request_Message
  | Invalid_Request_Session int
  | Name_Not_String
  | Name_Too_Long bytes
  | Trace_Too_Long nat
  | Invalid_Message nat
  | Invalid_Multi_Size nat
  | Invalid_Multi_Part
  | Empty_Package
  | Invalid_Package_Type int
  | Need_Userdata

definition TEMP_LENGTH :: nat where "TEMP_LENGTH = 0x8200"
definition MULTI_PART :: nat where "MULTI_PART = 0x8000"

definition fill_uint32 :: "u32 \<Rightarrow> bytes" where
  "fill_uint32 n = [ucast (n AND 0xff), ucast (drop_bit 8 n AND 0xff), ucast (drop_bit 16 n AND 0xff), ucast (drop_bit 24 n AND 0xff)]"

definition fill_header :: "nat \<Rightarrow> bytes option" where
  "fill_header sz = (if sz < 0x10000 then Some [of_nat (sz div 256), of_nat sz] else None)"

text \<open>The bytes of \<^verbatim>\<open>buf\<close> that become a string: the header and what follows it.\<close>

definition packet :: "nat \<Rightarrow> bytes \<Rightarrow> bytes option" where
  "packet sz body = do { h \<leftarrow> fill_header sz; c_assert (length (h @ body) \<le> TEMP_LENGTH); Some (h @ body) }"

definition parts_of :: "nat \<Rightarrow> nat" where
  "parts_of sz = (sz - 1) div MULTI_PART + 1"

subsection \<open>Requests\<close>

text \<open>The result of the two functions: the first packet and the number of parts that follow.\<close>

definition packreq_number :: "int \<Rightarrow> int \<Rightarrow> bytes \<Rightarrow> bool \<Rightarrow> (bytes \<times> nat) option" where
  "packreq_number addr session msg is_push =
     (let sz = length msg; s = word_of_int session :: u32; a = fill_uint32 (word_of_int addr)
      in if sz < MULTI_PART then do {
           buf \<leftarrow> packet (sz + 9) (0 # a @ fill_uint32 (if is_push then 0 else s) @ msg);
           Some (buf, 0)
         } else do {
           buf \<leftarrow> packet 13 ((if is_push then 0x41 else 1) # a @ fill_uint32 s @ fill_uint32 (of_nat sz));
           Some (buf, parts_of sz)
         })"

definition packreq_string :: "val \<Rightarrow> int \<Rightarrow> bytes \<Rightarrow> bool \<Rightarrow> (cluster_error + bytes \<times> nat) option" where
  "packreq_string addr session msg is_push =
     (case addr of
        VStr name \<Rightarrow>
          if length name < 1 \<or> length name > 255 then Some (Inl (Name_Too_Long name))
          else
            (let sz = length msg; s = word_of_int session :: u32; n = of_nat (length name) # name
             in if sz < MULTI_PART then do {
                  buf \<leftarrow> packet (sz + 6 + length name) (0x80 # n @ fill_uint32 (if is_push then 0 else s) @ msg);
                  Some (Inr (buf, 0))
                } else do {
                  buf \<leftarrow> packet (10 + length name) ((if is_push then 0xc1 else 0x81) # n @ fill_uint32 s @ fill_uint32 (of_nat sz));
                  Some (Inr (buf, parts_of sz))
                })
      | _ \<Rightarrow> Some (Inl Name_Not_String))"

text \<open>The loop of \<^verbatim>\<open>packreq_multi\<close>: \<open>n\<close> parts are left, \<open>msg\<close> is the rest of the message.\<close>

primrec packreq_multi :: "nat \<Rightarrow> int \<Rightarrow> bytes \<Rightarrow> bytes list option" where
  "packreq_multi 0 session msg = Some []"
| "packreq_multi (Suc n) session msg =
     (let s = (if length msg > MULTI_PART then MULTI_PART else length msg);
          code = (if length msg > MULTI_PART then 2 else 3)
      in do {
        buf \<leftarrow> packet (s + 5) (code # fill_uint32 (word_of_int session) @ take s msg);
        rest \<leftarrow> packreq_multi n session (drop s msg);
        Some (buf # rest)
      })"

text \<open>
  \<open>None\<close> as the message is a null pointer. The results: the first packet, the next session, and
  the table of parts if there is one.
\<close>

definition packrequest :: "val \<Rightarrow> int \<Rightarrow> bytes option \<Rightarrow> bool \<Rightarrow> (cluster_error + bytes \<times> int \<times> bytes list option) option" where
  "packrequest addr session msg is_push =
     (case msg of
        None \<Rightarrow> Some (Inl Invalid_Request_Message)
      | Some m \<Rightarrow>
          if session \<le> 0 then Some (Inl (Invalid_Request_Session session))
          else do {
            r \<leftarrow> (case addr of VInt a \<Rightarrow> map_option Inr (packreq_number a session m is_push)
                              | _ \<Rightarrow> packreq_string addr session m is_push);
            (case r of
               Inl e \<Rightarrow> Some (Inl e)
             | Inr (buf, multipak) \<Rightarrow>
                 (let new = (word_of_int session :: u32) + 1;
                      new_session = (if unat new > 0x7fffffff then 1 else int (unat new))
                  in if multipak \<noteq> 0 then do {
                       ps \<leftarrow> packreq_multi (parts_of (length m)) session m;
                       Some (Inr (buf, new_session, Some ps))
                     } else Some (Inr (buf, new_session, None))))
          })"

definition lpackrequest :: "val \<Rightarrow> int \<Rightarrow> bytes option \<Rightarrow> (cluster_error + bytes \<times> int \<times> bytes list option) option" where
  "lpackrequest addr session msg = packrequest addr session msg False"

definition lpackpush :: "val \<Rightarrow> int \<Rightarrow> bytes option \<Rightarrow> (cluster_error + bytes \<times> int \<times> bytes list option) option" where
  "lpackpush addr session msg = packrequest addr session msg True"

definition lpacktrace :: "bytes \<Rightarrow> (cluster_error + bytes) option" where
  "lpacktrace tag =
     (if length tag > 0x8000 then Some (Inl (Trace_Too_Long (length tag)))
      else map_option Inr (packet (length tag + 1) (4 # tag)))"

subsection \<open>Unpacking requests\<close>

definition unpack_uint32 :: "bytes \<Rightarrow> nat \<Rightarrow> u32" where
  "unpack_uint32 buf i = ucast (buf ! i) OR push_bit 8 (ucast (buf ! (i + 1))) OR push_bit 16 (ucast (buf ! (i + 2))) OR
     push_bit 24 (ucast (buf ! (i + 3)))"

definition return_buffer :: "bytes \<Rightarrow> val list" where
  "return_buffer b = [VBuf b, VInt (int (length b))]"

definition unpackreq_number :: "bytes \<Rightarrow> cluster_error + val list" where
  "unpackreq_number buf =
     (if length buf < 9 then Inl (Invalid_Message (length buf))
      else
        let session = unpack_uint32 buf 5
        in Inr ([VInt (uint (unpack_uint32 buf 1)), VInt (uint session)] @ return_buffer (drop 9 buf) @
                (if session = 0 then [VNil, VBool True] else [])))"

definition unpackmreq_number :: "bytes \<Rightarrow> bool \<Rightarrow> cluster_error + val list" where
  "unpackmreq_number buf is_push =
     (if length buf \<noteq> 13 then Inl (Invalid_Multi_Size (length buf))
      else Inr [VInt (uint (unpack_uint32 buf 1)), VInt (uint (unpack_uint32 buf 5)), VNil, VInt (uint (unpack_uint32 buf 9)),
                VBool True, VBool is_push])"

definition unpackmreq_part :: "bytes \<Rightarrow> cluster_error + val list" where
  "unpackmreq_part buf =
     (if length buf < 5 then Inl Invalid_Multi_Part
      else Inr ([VBool False, VInt (uint (unpack_uint32 buf 1))] @ return_buffer (drop 5 buf) @ [VBool (buf ! 0 = 2)]))"

definition unpacktrace :: "bytes \<Rightarrow> cluster_error + val list" where
  "unpacktrace buf = Inr [VStr (drop 1 buf)]"

definition unpackreq_string :: "bytes \<Rightarrow> cluster_error + val list" where
  "unpackreq_string buf =
     (if length buf < 2 then Inl (Invalid_Message (length buf))
      else
        let namesz = unat (buf ! 1)
        in if length buf < namesz + 6 then Inl (Invalid_Message (length buf))
           else
             let session = unpack_uint32 buf (namesz + 2)
             in Inr ([VStr (take namesz (drop 2 buf)), VInt (uint session)] @ return_buffer (drop (2 + namesz + 4) buf) @
                     (if session = 0 then [VNil, VBool True] else [])))"

definition unpackmreq_string :: "bytes \<Rightarrow> bool \<Rightarrow> cluster_error + val list" where
  "unpackmreq_string buf is_push =
     (if length buf < 2 then Inl (Invalid_Message (length buf))
      else
        let namesz = unat (buf ! 1)
        in if length buf < namesz + 10 then Inl (Invalid_Message (length buf))
           else Inr [VStr (take namesz (drop 2 buf)), VInt (uint (unpack_uint32 buf (namesz + 2))), VNil,
                     VInt (uint (unpack_uint32 buf (namesz + 6))), VBool True, VBool is_push])"

definition lunpackrequest :: "bytes \<Rightarrow> cluster_error + val list" where
  "lunpackrequest msg =
     (if msg = [] then Inl Empty_Package
      else
        let t = msg ! 0
        in if t = 0 then unpackreq_number msg
           else if t = 1 then unpackmreq_number msg False
           else if t = 0x41 then unpackmreq_number msg True
           else if t = 2 \<or> t = 3 then unpackmreq_part msg
           else if t = 4 then unpacktrace msg
           else if t = 0x80 then unpackreq_string msg
           else if t = 0x81 then unpackmreq_string msg False
           else if t = 0xc1 then unpackmreq_string msg True
           else Inl (Invalid_Package_Type (sint t)))"

subsection \<open>Responses\<close>

datatype response = One bytes | Parts "bytes list"

primrec response_parts :: "nat \<Rightarrow> u32 \<Rightarrow> bytes \<Rightarrow> bytes list option" where
  "response_parts 0 session msg = Some []"
| "response_parts (Suc n) session msg =
     (let s = (if length msg > MULTI_PART then MULTI_PART else length msg);
          code = (if length msg > MULTI_PART then 3 else 4)
      in do {
        buf \<leftarrow> packet (s + 5) (fill_uint32 session @ [code] @ take s msg);
        rest \<leftarrow> response_parts n session (drop s msg);
        Some (buf # rest)
      })"

definition lpackresponse :: "int \<Rightarrow> bool \<Rightarrow> bytes \<Rightarrow> response option" where
  "lpackresponse session ok msg =
     (let s = word_of_int session :: u32
      in if ok \<and> length msg > MULTI_PART then do {
           first \<leftarrow> packet 9 (fill_uint32 s @ [2] @ fill_uint32 (of_nat (length msg)));
           rest \<leftarrow> response_parts (parts_of (length msg)) s msg;
           Some (Parts (first # rest))
         } else do {
           buf \<leftarrow> packet (min (length msg) MULTI_PART + 5) (fill_uint32 s @ [if ok then 1 else 0] @ take MULTI_PART msg);
           Some (One buf)
         })"

definition lunpackresponse :: "bytes \<Rightarrow> val list" where
  "lunpackresponse buf =
     (if length buf < 5 then []
      else
        let session = VInt (uint (unpack_uint32 buf 0)); t = buf ! 4; body = VStr (drop 5 buf)
        in if t = 0 then [session, VBool False, body]
           else if t = 1 \<or> t = 4 then [session, VBool True, body]
           else if t = 2 then
             if length buf \<noteq> 9 then [] else [session, VBool True, VInt (uint (unpack_uint32 buf 5)), VBool True]
           else if t = 3 then [session, VBool True, body, VBool True]
           else [])"

subsection \<open>Collecting the parts\<close>

text \<open>The table is the list of its elements; \<open>sz\<close> is the third argument.\<close>

definition lappend :: "val list \<Rightarrow> val \<Rightarrow> int \<Rightarrow> cluster_error + val list" where
  "lappend t buffer sz =
     (case buffer of
        VNil \<Rightarrow> Inr (t @ [VInt sz])
      | VBuf b \<Rightarrow> Inr (t @ [VStr (take (nat sz) b)])
      | _ \<Rightarrow> Inl Need_Userdata)"

text \<open>The loop over the strings of the table; \<open>None\<close> is the return of nothing.\<close>

fun concat_loop :: "nat \<Rightarrow> bytes \<Rightarrow> val list \<Rightarrow> bytes option" where
  "concat_loop sz buff (VStr s # t) =
     (if length s + length buff > sz then None else concat_loop sz (buff @ s) t)"
| "concat_loop sz buff t = (if length buff \<noteq> sz then None else Some buff)"

text \<open>The size is converted to \<^verbatim>\<open>int\<close>; a negative one asks for more memory than there is, and the allocator aborts.\<close>

definition lconcat :: "val list \<Rightarrow> val list option" where
  "lconcat t =
     (case t of
        VInt n # rest \<Rightarrow> do {
          let sz = sint (word_of_int n :: u32);
          c_assert (0 \<le> sz);
          Some (case concat_loop (nat sz) [] rest of None \<Rightarrow> [] | Some b \<Rightarrow> [VBuf b, VInt sz])
        }
      | _ \<Rightarrow> Some [])"

definition lisname :: "bytes \<Rightarrow> val list" where
  "lisname name = (if name \<noteq> [] \<and> name ! 0 = 64 then [VBool True] else [])"

text \<open>The host name and the process number are those of the system.\<close>

definition lnodename :: "bytes option \<Rightarrow> bytes \<Rightarrow> bytes" where
  "lnodename hostname pid =
     (case hostname of
        Some h \<Rightarrow> map (\<lambda>c. if sint c \<le> 32 then 95 else c) h @ pid
      | None \<Rightarrow> map of_char ''noname'' @ pid)"

subsection \<open>The other side\<close>

text \<open>
  What the receiving services do with the functions (\<^verbatim>\<open>lualib/skynet/\<close> and
  \<^verbatim>\<open>service/clusteragent.lua\<close>): the transport removes the header of two bytes, a request in
  parts is collected with \<^verbatim>\<open>append\<close> and joined with \<^verbatim>\<open>concat\<close>.
\<close>

fun unframe :: "bytes \<Rightarrow> bytes option" where
  "unframe (h # l # body) = (if unat h * 256 + unat l = length body then Some body else None)"
| "unframe _ = None"

fun collect_parts :: "val list \<Rightarrow> bytes list \<Rightarrow> val list option" where
  "collect_parts t [] = None"
| "collect_parts t (p # ps) =
     (case lunpackrequest p of
        Inr [VBool b, VInt s, VBuf m, VInt n, VBool padding] \<Rightarrow>
          (case lappend t (VBuf m) n of
             Inr t' \<Rightarrow> if padding then collect_parts t' ps else if ps = [] then lconcat t' else None
           | Inl e \<Rightarrow> None)
      | _ \<Rightarrow> None)"

text \<open>The address, the session, the message and whether it is a push.\<close>

fun receive :: "bytes list \<Rightarrow> (val \<times> int \<times> bytes \<times> bool) option" where
  "receive [] = None"
| "receive (p # ps) =
     (case lunpackrequest p of
        Inr [a, VInt s, VBuf m, VInt n] \<Rightarrow> if ps = [] then Some (a, s, m, False) else None
      | Inr [a, VInt s, VBuf m, VInt n, VNil, VBool push] \<Rightarrow> if ps = [] then Some (a, s, m, push) else None
      | Inr [a, VInt s, VNil, VInt len, VBool True, VBool push] \<Rightarrow>
          (case lappend [] VNil len of
             Inr t \<Rightarrow> (case collect_parts t ps of Some [VBuf m, VInt n] \<Rightarrow> Some (a, s, m, push) | _ \<Rightarrow> None)
           | Inl e \<Rightarrow> None)
      | _ \<Rightarrow> None)"

text \<open>A response: the session, whether the call succeeded, and the data.\<close>

fun response_data :: "val list \<Rightarrow> int \<Rightarrow> bytes list \<Rightarrow> (bool \<times> bytes) option" where
  "response_data t s [] = None"
| "response_data t s (p # ps) =
     (case lunpackresponse p of
        [VInt s', VBool ok, VStr d] \<Rightarrow>
          if s' \<noteq> s \<or> ps \<noteq> [] then None
          else if t = [] then Some (ok, d)
          else (case lconcat (t @ [VStr d]) of Some [VBuf m, VInt n] \<Rightarrow> Some (ok, m) | _ \<Rightarrow> None)
      | [VInt s', VBool ok, d, VBool True] \<Rightarrow> if s' \<noteq> s then None else response_data (t @ [d]) s ps
      | _ \<Rightarrow> None)"

subsection \<open>Numbers and packets\<close>

lemma length_fill [simp]: "length (fill_uint32 w) = 4"
  by (simp add: fill_uint32_def)

lemma unpack_fill: "length pre = i \<Longrightarrow> unpack_uint32 (pre @ fill_uint32 w @ post) i = w"
proof -
  assume "length pre = i"
  then have "(pre @ fill_uint32 w @ post) ! (i + k) = (fill_uint32 w @ post) ! k" for k by (simp add: nth_append)
  from this [of 0] this [of 1] this [of 2] this [of 3] have
    "(pre @ fill_uint32 w @ post) ! i = ucast (w AND 0xff)" "(pre @ fill_uint32 w @ post) ! (i + 1) = ucast (drop_bit 8 w AND 0xff)"
    "(pre @ fill_uint32 w @ post) ! (i + 2) = ucast (drop_bit 16 w AND 0xff)"
    "(pre @ fill_uint32 w @ post) ! (i + 3) = ucast (drop_bit 24 w AND 0xff)"
    by (simp_all add: fill_uint32_def)
  then show ?thesis unfolding unpack_uint32_def by (simp only: le_bytes_word)
qed

lemma packet_ok:
  assumes "sz = length body" "sz \<le> 0x81fe"
  obtains b where "packet sz body = Some b" "unframe b = Some body"
proof
  show "packet sz body = Some ([of_nat (sz div 256), of_nat sz] @ body)"
    using assms by (simp add: packet_def fill_header_def TEMP_LENGTH_def)
  have "sz div 256 < 256" using assms(2) by simp
  then have "unat (of_nat (sz div 256) :: u8) = sz div 256" "unat (of_nat sz :: u8) = sz mod 256"
    by (simp_all add: unsigned_of_nat take_bit_eq_mod)
  then show "unframe ([of_nat (sz div 256), of_nat sz] @ body) = Some body" using assms(1) by simp
qed

lemma concat_loop_parts:
  "length buff + length (concat cs) = sz \<Longrightarrow> concat_loop sz buff (map VStr cs) = Some (buff @ concat cs)"
  by (induction cs arbitrary: buff) auto

lemma lconcat_parts:
  assumes "sz = int (length (concat cs))" "length (concat cs) < 2 ^ 31"
  shows "lconcat (VInt sz # map VStr cs) = Some [VBuf (concat cs), VInt sz]"
proof -
  have "sint (word_of_int sz :: u32) = sz" using int_of_size_small [of "length (concat cs)"] assms by (simp add: int_of_size_def)
  then show ?thesis using concat_loop_parts [of "[]" cs "length (concat cs)"] assms(1) by (simp add: lconcat_def)
qed

text \<open>A part that announces 2 GB or more stops the process that collects the message.\<close>

lemma announced_too_much: "2 ^ 31 \<le> n \<Longrightarrow> n < 2 ^ 32 \<Longrightarrow> lconcat (VInt (int n) # t) = None"
  using int_of_size_large [of n] by (simp add: lconcat_def int_of_size_def)

lemma parts_of_small: "sz \<le> MULTI_PART \<Longrightarrow> parts_of sz = 1"
  by (cases sz) (auto simp: parts_of_def MULTI_PART_def)

lemma parts_of_large: "sz > MULTI_PART \<Longrightarrow> parts_of sz = Suc (parts_of (sz - MULTI_PART)) \<and> 0 < sz - MULTI_PART"
proof -
  assume "sz > MULTI_PART"
  moreover from this have "sz - 1 = (sz - MULTI_PART - 1) + MULTI_PART" by simp
  ultimately show ?thesis by (simp add: parts_of_def MULTI_PART_def)
qed

lemma unpack_part:
  assumes "code = 2 \<or> code = 3"
  shows "lunpackrequest (code # fill_uint32 w @ m) =
    Inr [VBool False, VInt (uint w), VBuf m, VInt (int (length m)), VBool (code = 2)]"
proof -
  have "unpack_uint32 (code # fill_uint32 w @ m) 1 = w" using unpack_fill [of "[code]" 1 w m] by simp
  then show ?thesis using assms by (auto simp: lunpackrequest_def unpackmreq_part_def return_buffer_def)
qed

text \<open>The parts of a message, packed and collected again.\<close>

lemma multi_parts:
  "0 < length msg \<Longrightarrow> n = parts_of (length msg) \<Longrightarrow>
   \<exists>bs fs cs. packreq_multi n session msg = Some bs \<and> those (map unframe bs) = Some fs \<and> concat cs = msg \<and>
     (\<forall>t. collect_parts t fs = (lconcat (t @ map VStr cs)))"
proof (induction n arbitrary: msg)
  case 0
  then show ?case by (simp add: parts_of_def)
next
  case (Suc n)
  let ?w = "word_of_int session :: u32"
  show ?case
  proof (cases "length msg > MULTI_PART")
    case False
    then have n: "n = 0" using Suc.prems(2) parts_of_small [of "length msg"] by simp
    obtain b where b: "packet (length msg + 5) (3 # fill_uint32 ?w @ msg) = Some b" "unframe b = Some (3 # fill_uint32 ?w @ msg)"
      by (rule packet_ok [of "length msg + 5"]) (use False in \<open>auto simp: MULTI_PART_def\<close>)
    have "packreq_multi (Suc n) session msg = Some [b]" using False n b(1) by (simp add: Let_def)
    moreover have "collect_parts t [3 # fill_uint32 ?w @ msg] = lconcat (t @ map VStr [msg])" for t
      using unpack_part [of 3 ?w msg] by (simp add: lappend_def)
    ultimately show ?thesis using b(2)
      by (intro exI [of _ "[b]"] exI [of _ "[3 # fill_uint32 ?w @ msg]"] exI [of _ "[msg]"]) simp
  next
    case True
    let ?c = "take MULTI_PART msg"
    have rest: "0 < length (drop MULTI_PART msg)" "n = parts_of (length (drop MULTI_PART msg))"
      using True Suc.prems(2) parts_of_large [of "length msg"] by simp_all
    obtain bs fs cs where ih: "packreq_multi n session (drop MULTI_PART msg) = Some bs" "those (map unframe bs) = Some fs"
      "concat cs = drop MULTI_PART msg" "\<And>t. collect_parts t fs = lconcat (t @ map VStr cs)"
      using Suc.IH [OF rest] by blast
    have len: "length ?c = MULTI_PART" using True by simp
    obtain b where b: "packet (MULTI_PART + 5) (2 # fill_uint32 ?w @ ?c) = Some b" "unframe b = Some (2 # fill_uint32 ?w @ ?c)"
      by (rule packet_ok [of "MULTI_PART + 5"]) (use len in \<open>auto simp: MULTI_PART_def\<close>)
    have "packreq_multi (Suc n) session msg = Some (b # bs)" using True b(1) ih(1) by (simp add: Let_def)
    moreover have "collect_parts t ((2 # fill_uint32 ?w @ ?c) # fs) = lconcat (t @ map VStr (?c # cs))" for t
      using unpack_part [of 2 ?w ?c] ih(4) [of "t @ [VStr ?c]"] True by (simp add: lappend_def min_absorb2)
    ultimately show ?thesis using b(2) ih(2,3)
      by (intro exI [of _ "b # bs"] exI [of _ "(2 # fill_uint32 ?w @ ?c) # fs"] exI [of _ "?c # cs"]) simp
  qed
qed

subsection \<open>Single packets\<close>

lemma unpack_number:
  "lunpackrequest (0 # fill_uint32 a @ fill_uint32 w @ m) =
    Inr ([VInt (uint a), VInt (uint w), VBuf m, VInt (int (length m))] @ (if w = 0 then [VNil, VBool True] else []))"
proof -
  let ?p = "0 # fill_uint32 a @ fill_uint32 w @ m"
  have "unpack_uint32 ?p 1 = a" "unpack_uint32 ?p 5 = w"
    using unpack_fill [of "[0]" 1 a "fill_uint32 w @ m"] unpack_fill [of "0 # fill_uint32 a" 5 w m] by simp_all
  then show ?thesis by (simp add: lunpackrequest_def unpackreq_number_def return_buffer_def Let_def)
qed

lemma unpack_multi_number:
  "lunpackrequest ((if push then 0x41 else 1) # fill_uint32 a @ fill_uint32 w @ fill_uint32 z) =
    Inr [VInt (uint a), VInt (uint w), VNil, VInt (uint z), VBool True, VBool push]"
proof -
  have "unpack_uint32 (c # fill_uint32 a @ fill_uint32 w @ fill_uint32 z) 1 = a"
    "unpack_uint32 (c # fill_uint32 a @ fill_uint32 w @ fill_uint32 z) 5 = w"
    "unpack_uint32 (c # fill_uint32 a @ fill_uint32 w @ fill_uint32 z) 9 = z" for c
    using unpack_fill [of "[c]" 1 a "fill_uint32 w @ fill_uint32 z"] unpack_fill [of "c # fill_uint32 a" 5 w "fill_uint32 z"]
      unpack_fill [of "c # fill_uint32 a @ fill_uint32 w" 9 z "[]"] by simp_all
  then show ?thesis by (auto simp: lunpackrequest_def unpackmreq_number_def)
qed

lemma name_length: "length name \<le> 255 \<Longrightarrow> unat (of_nat (length name) :: u8) = length name"
  by (simp add: unsigned_of_nat take_bit_eq_mod)

lemma unpack_string:
  assumes "length name \<le> 255"
  shows "lunpackrequest (0x80 # of_nat (length name) # name @ fill_uint32 w @ m) =
    Inr ([VStr name, VInt (uint w), VBuf m, VInt (int (length m))] @ (if w = 0 then [VNil, VBool True] else []))"
proof -
  let ?n = "of_nat (length name) :: u8"
  have "unpack_uint32 (0x80 # ?n # name @ fill_uint32 w @ m) (length name + 2) = w"
    using unpack_fill [of "0x80 # ?n # name" "length name + 2" w m] by simp
  moreover have "2 + length name + 4 = Suc (Suc (length name + 4))" by simp
  then have "drop (2 + length name + 4) (0x80 # ?n # name @ fill_uint32 w @ m) = m" by (simp only: drop_Suc_Cons) simp
  ultimately show ?thesis
    using name_length [OF assms]
    unfolding lunpackrequest_def unpackreq_string_def return_buffer_def Let_def by simp
qed

lemma unpack_multi_string:
  assumes "length name \<le> 255"
  shows "lunpackrequest ((if push then 0xc1 else 0x81) # of_nat (length name) # name @ fill_uint32 w @ fill_uint32 z) =
    Inr [VStr name, VInt (uint w), VNil, VInt (uint z), VBool True, VBool push]"
proof -
  let ?n = "of_nat (length name) :: u8"
  have "unpack_uint32 (c # ?n # name @ fill_uint32 w @ fill_uint32 z) (length name + 2) = w"
    "unpack_uint32 (c # ?n # name @ fill_uint32 w @ fill_uint32 z) (length name + 6) = z" for c
    using unpack_fill [of "c # ?n # name" "length name + 2" w "fill_uint32 z"]
      unpack_fill [of "c # ?n # name @ fill_uint32 w" "length name + 6" z "[]"] by simp_all
  then show ?thesis
    using name_length [OF assms] by (auto simp: lunpackrequest_def unpackmreq_string_def Let_def)
qed

text \<open>The first packet of a request in parts and the parts together.\<close>

lemma receive_multi:
  assumes "lunpackrequest p = Inr [a, VInt w, VNil, VInt (int (length msg)), VBool True, VBool push]"
    "collect_parts [VInt (int (length msg))] fs = lconcat ([VInt (int (length msg))] @ map VStr cs)" "concat cs = msg" "length msg < 2 ^ 31"
  shows "receive (p # fs) = Some (a, w, msg, push)"
  using assms lconcat_parts [of "int (length msg)" cs] by (simp add: lappend_def)

definition good_addr :: "val \<Rightarrow> bool" where
  "good_addr addr \<longleftrightarrow> (case addr of VInt a \<Rightarrow> True | VStr name \<Rightarrow> 1 \<le> length name \<and> length name \<le> 255 | _ \<Rightarrow> False)"

text \<open>An address as the receiver sees it: numbers are cut to 32 bits.\<close>

definition sent_addr :: "val \<Rightarrow> val" where
  "sent_addr addr = (case addr of VInt a \<Rightarrow> VInt (a mod 2 ^ 32) | _ \<Rightarrow> addr)"

lemma first_packet:
  assumes "good_addr addr" "0 < session" "session < 2 ^ 31" "length msg < 2 ^ 31"
  shows "\<exists>b p r. (case addr of VInt a \<Rightarrow> map_option Inr (packreq_number a session msg push) | _ \<Rightarrow> packreq_string addr session msg push) =
      Some (Inr (b, r)) \<and> unframe b = Some p \<and>
    (if length msg < MULTI_PART then r = 0 \<and> lunpackrequest p =
        Inr ([sent_addr addr, VInt (if push then 0 else session), VBuf msg, VInt (int (length msg))] @ (if push then [VNil, VBool True] else []))
     else r = parts_of (length msg) \<and> lunpackrequest p =
        Inr [sent_addr addr, VInt session, VNil, VInt (int (length msg)), VBool True, VBool push])"
proof -
  let ?w = "word_of_int session :: u32" and ?z = "of_nat (length msg) :: u32"
  have w: "uint ?w = session" "?w \<noteq> 0" using assms(2,3) by (simp_all add: unsigned_of_int take_bit_int_eq_self word_of_int_eq_0_iff zdvd_not_zless)
  have z: "uint ?z = int (length msg)" using assms(4) by (simp add: unsigned_of_nat take_bit_nat_eq_self)
  let ?s = "if push then 0 else ?w"
  have s: "uint ?s = (if push then 0 else session)" "?s = 0 \<longleftrightarrow> push" using w by auto
  consider (num) a where "addr = VInt a" | (name) name where "addr = VStr name" "1 \<le> length name" "length name \<le> 255"
    using assms(1) by (auto simp: good_addr_def split: val.splits)
  then show ?thesis
  proof cases
    case num
    let ?a = "fill_uint32 (word_of_int a)"
    have a: "uint (word_of_int a :: u32) = a mod 2 ^ 32" by (simp add: unsigned_of_int take_bit_eq_mod)
    show ?thesis
    proof (cases "length msg < MULTI_PART")
      case True
      obtain b where "packet (length msg + 9) (0 # ?a @ fill_uint32 ?s @ msg) = Some b"
        "unframe b = Some (0 # ?a @ fill_uint32 ?s @ msg)"
        by (rule packet_ok [of "length msg + 9"]) (use True in \<open>auto simp: MULTI_PART_def\<close>)
      then show ?thesis using True num a s unpack_number [of "word_of_int a" ?s msg]
        by (auto simp: packreq_number_def sent_addr_def Let_def)
    next
      case False
      obtain b where "packet 13 ((if push then 0x41 else 1) # ?a @ fill_uint32 ?w @ fill_uint32 ?z) = Some b"
        "unframe b = Some ((if push then 0x41 else 1) # ?a @ fill_uint32 ?w @ fill_uint32 ?z)"
        by (rule packet_ok [of 13]) auto
      then show ?thesis using False num a w(1) z unpack_multi_number [of push "word_of_int a" ?w ?z]
        by (auto simp: packreq_number_def sent_addr_def Let_def)
    qed
  next
    case name
    let ?n = "of_nat (length name) # name :: bytes"
    show ?thesis
    proof (cases "length msg < MULTI_PART")
      case True
      obtain b where "packet (length msg + 6 + length name) (0x80 # ?n @ fill_uint32 ?s @ msg) = Some b"
        "unframe b = Some (0x80 # ?n @ fill_uint32 ?s @ msg)"
        by (rule packet_ok [of "length msg + 6 + length name"]) (use True name in \<open>auto simp: MULTI_PART_def\<close>)
      then show ?thesis using True name s unpack_string [of name ?s msg]
        by (auto simp: packreq_string_def sent_addr_def Let_def)
    next
      case False
      obtain b where "packet (10 + length name) ((if push then 0xc1 else 0x81) # ?n @ fill_uint32 ?w @ fill_uint32 ?z) = Some b"
        "unframe b = Some ((if push then 0xc1 else 0x81) # ?n @ fill_uint32 ?w @ fill_uint32 ?z)"
        by (rule packet_ok [of "10 + length name"]) (use name in auto)
      then show ?thesis using False name w(1) z unpack_multi_string [of name push ?w ?z]
        by (auto simp: packreq_string_def sent_addr_def Let_def)
    qed
  qed
qed

subsection \<open>Responses\<close>

lemma unpack_response:
  "lunpackresponse (fill_uint32 w @ t # m) =
    (if t = 0 then [VInt (uint w), VBool False, VStr m]
     else if t = 1 \<or> t = 4 then [VInt (uint w), VBool True, VStr m]
     else if t = 2 then (if length m \<noteq> 4 then [] else [VInt (uint w), VBool True, VInt (uint (unpack_uint32 m 0)), VBool True])
     else if t = 3 then [VInt (uint w), VBool True, VStr m, VBool True] else [])"
proof -
  have w: "unpack_uint32 (fill_uint32 w @ t # m) 0 = w" using unpack_fill [of "[]" 0 w "t # m"] by simp
  have t: "(fill_uint32 w @ t # m) ! 4 = t" "drop 5 (fill_uint32 w @ t # m) = m" by (simp_all add: nth_append)
  have n: "(fill_uint32 w @ t # m) ! (5 + k) = m ! k" for k by (simp add: nth_append)
  from n [of 0] n [of 1] n [of 2] n [of 3] have "unpack_uint32 (fill_uint32 w @ t # m) 5 = unpack_uint32 m 0"
    by (simp add: unpack_uint32_def numeral_2_eq_2)
  with w t show ?thesis by (cases "t = 2") (simp_all add: lunpackresponse_def Let_def)
qed

lemma response_parts_data:
  "0 < length msg \<Longrightarrow> n = parts_of (length msg) \<Longrightarrow>
   \<exists>bs fs cs. response_parts n w msg = Some bs \<and> those (map unframe bs) = Some fs \<and> concat cs = msg \<and>
     (\<forall>t. t \<noteq> [] \<longrightarrow> response_data t (uint w) fs =
       (case lconcat (t @ map VStr cs) of Some [VBuf m, VInt n] \<Rightarrow> Some (True, m) | _ \<Rightarrow> None))"
proof (induction n arbitrary: msg)
  case 0
  then show ?case by (simp add: parts_of_def)
next
  case (Suc n)
  show ?case
  proof (cases "length msg > MULTI_PART")
    case False
    then have n: "n = 0" using Suc.prems(2) parts_of_small [of "length msg"] by simp
    obtain b where b: "packet (length msg + 5) (fill_uint32 w @ 4 # msg) = Some b" "unframe b = Some (fill_uint32 w @ 4 # msg)"
      by (rule packet_ok [of "length msg + 5"]) (use False in \<open>auto simp: MULTI_PART_def\<close>)
    have "response_parts (Suc n) w msg = Some [b]" using False n b(1) by (simp add: Let_def)
    moreover have "response_data t (uint w) [fill_uint32 w @ 4 # msg] =
        (case lconcat (t @ map VStr [msg]) of Some [VBuf m, VInt n] \<Rightarrow> Some (True, m) | _ \<Rightarrow> None)" if "t \<noteq> []" for t
      using that by (simp add: unpack_response)
    ultimately show ?thesis using b(2)
      by (intro exI [of _ "[b]"] exI [of _ "[fill_uint32 w @ 4 # msg]"] exI [of _ "[msg]"]) simp
  next
    case True
    let ?c = "take MULTI_PART msg"
    have rest: "0 < length (drop MULTI_PART msg)" "n = parts_of (length (drop MULTI_PART msg))"
      using True Suc.prems(2) parts_of_large [of "length msg"] by simp_all
    obtain bs fs cs where ih: "response_parts n w (drop MULTI_PART msg) = Some bs" "those (map unframe bs) = Some fs"
      "concat cs = drop MULTI_PART msg"
      "\<And>t. t \<noteq> [] \<Longrightarrow> response_data t (uint w) fs = (case lconcat (t @ map VStr cs) of Some [VBuf m, VInt n] \<Rightarrow> Some (True, m) | _ \<Rightarrow> None)"
      using Suc.IH [OF rest] by blast
    have len: "length ?c = MULTI_PART" using True by simp
    obtain b where b: "packet (MULTI_PART + 5) (fill_uint32 w @ 3 # ?c) = Some b" "unframe b = Some (fill_uint32 w @ 3 # ?c)"
      by (rule packet_ok [of "MULTI_PART + 5"]) (use len in \<open>auto simp: MULTI_PART_def\<close>)
    have "response_parts (Suc n) w msg = Some (b # bs)" using True b(1) ih(1) by (simp add: Let_def)
    moreover have "response_data t (uint w) ((fill_uint32 w @ 3 # ?c) # fs) =
        (case lconcat (t @ map VStr (?c # cs)) of Some [VBuf m, VInt n] \<Rightarrow> Some (True, m) | _ \<Rightarrow> None)" if "t \<noteq> []" for t
      using that ih(4) [of "t @ [VStr ?c]"] by (simp add: unpack_response)
    ultimately show ?thesis using b(2) ih(2,3)
      by (intro exI [of _ "b # bs"] exI [of _ "(fill_uint32 w @ 3 # ?c) # fs"] exI [of _ "?c # cs"]) simp
  qed
qed

subsection \<open>Guarantees\<close>

text \<open>C30. A request arrives as it was sent: packing a message for a valid address and session succeeds,
  every packet fits the buffer and its header holds its length, and the receiver of the packets,
  which collects the parts of a large message, gets the address (numbers modulo \<open>2 ^ 32\<close>), the session
  (0 for a push in one packet), the whole message and the kind. The next session is positive.\<close>

theorem cluster_request_roundtrip:
  assumes "good_addr addr" "0 < session" "session < 2 ^ 31" "length msg < 2 ^ 31"
  shows "\<exists>first new parts fs. packrequest addr session (Some msg) push = Some (Inr (first, new, parts)) \<and>
    0 < new \<and> new < 2 ^ 31 \<and>
    those (map unframe (first # (case parts of None \<Rightarrow> [] | Some ps \<Rightarrow> ps))) = Some fs \<and>
    receive fs = Some (sent_addr addr, (if push \<and> length msg < MULTI_PART then 0 else session), msg, push)"
proof -
  obtain b p r where first: "(case addr of VInt a \<Rightarrow> map_option Inr (packreq_number a session msg push)
      | _ \<Rightarrow> packreq_string addr session msg push) = Some (Inr (b, r))" "unframe b = Some p"
    and p: "if length msg < MULTI_PART then r = 0 \<and> lunpackrequest p =
        Inr ([sent_addr addr, VInt (if push then 0 else session), VBuf msg, VInt (int (length msg))] @ (if push then [VNil, VBool True] else []))
     else r = parts_of (length msg) \<and> lunpackrequest p =
        Inr [sent_addr addr, VInt session, VNil, VInt (int (length msg)), VBool True, VBool push]"
    using first_packet [OF assms, of push] by blast
  define new where "new = (let n = (word_of_int session :: u32) + 1 in if unat n > 0x7fffffff then 1 else int (unat n))"
  have "unat ((word_of_int session :: u32) + 1) = nat session + 1"
    using assms(2,3) by (simp add: unat_word_ariths unsigned_of_int take_bit_int_eq_self nat_add_distrib [symmetric])
  then have new: "0 < new" "new < 2 ^ 31" using assms(2) by (auto simp: new_def Let_def)
  show ?thesis
  proof (cases "length msg < MULTI_PART")
    case True
    then have "packrequest addr session (Some msg) push = Some (Inr (b, new, None))"
      using first(1) p assms(2) unfolding packrequest_def new_def by (simp add: Let_def)
    moreover have "receive [p] = Some (sent_addr addr, (if push then 0 else session), msg, push)" using p True by simp
    ultimately show ?thesis using True first(2) new by auto
  next
    case False
    then have "0 < length msg" by (auto simp: MULTI_PART_def)
    from multi_parts [OF this refl, of session] obtain bs fs cs where parts:
      "packreq_multi (parts_of (length msg)) session msg = Some bs" "those (map unframe bs) = Some fs" "concat cs = msg"
      "\<And>t. collect_parts t fs = lconcat (t @ map VStr cs)" by blast
    have "r \<noteq> 0" using p False by (auto simp: parts_of_def)
    then have "packrequest addr session (Some msg) push = Some (Inr (b, new, Some bs))"
      using first(1) p assms(2) parts(1) unfolding packrequest_def new_def by (simp add: Let_def)
    moreover have "lunpackrequest p = Inr [sent_addr addr, VInt session, VNil, VInt (int (length msg)), VBool True, VBool push]"
      using p False by simp
    from receive_multi [OF this parts(4,3) assms(4)] have "receive (p # fs) = Some (sent_addr addr, session, msg, push)" .
    ultimately show ?thesis using False first(2) parts(2) new by auto
  qed
qed

theorem cluster_request_roundtrip_witness:
  "\<exists>first new parts fs. packrequest (VStr [97]) 5 (Some [1, 2, 3]) False = Some (Inr (first, new, parts)) \<and>
    receive fs = Some (VStr [97], 5, [1, 2, 3], False)"
  using cluster_request_roundtrip [of "VStr [97]" 5 "[1, 2, 3]" False] by (auto simp: good_addr_def sent_addr_def)

text \<open>C31. A response arrives as it was sent: every packet fits the buffer and its header holds its length, and
  the receiver gets whether the call succeeded and the whole data; of an error message it gets the first 32 KB.\<close>

theorem cluster_response_roundtrip:
  assumes "0 \<le> session" "session < 2 ^ 32" "length msg < 2 ^ 31"
  shows "\<exists>r fs. lpackresponse session ok msg = Some r \<and>
    those (map unframe (case r of One b \<Rightarrow> [b] | Parts bs \<Rightarrow> bs)) = Some fs \<and>
    response_data [] session fs = Some (ok, if ok then msg else take MULTI_PART msg)"
proof -
  let ?w = "word_of_int session :: u32" and ?z = "of_nat (length msg) :: u32"
  have w: "uint ?w = session" using assms(1,2) by (simp add: unsigned_of_int take_bit_int_eq_self)
  have z: "uint ?z = int (length msg)" using assms(3) by (simp add: unsigned_of_nat take_bit_nat_eq_self)
  show ?thesis
  proof (cases "ok \<and> length msg > MULTI_PART")
    case True
    then have "0 < length msg" by auto
    from response_parts_data [OF this refl, of ?w] obtain bs fs cs where parts:
      "response_parts (parts_of (length msg)) ?w msg = Some bs" "those (map unframe bs) = Some fs" "concat cs = msg"
      "\<And>t. t \<noteq> [] \<Longrightarrow> response_data t (uint ?w) fs = (case lconcat (t @ map VStr cs) of Some [VBuf m, VInt n] \<Rightarrow> Some (True, m) | _ \<Rightarrow> None)"
      by blast
    obtain b where b: "packet 9 (fill_uint32 ?w @ 2 # fill_uint32 ?z) = Some b" "unframe b = Some (fill_uint32 ?w @ 2 # fill_uint32 ?z)"
      by (rule packet_ok [of 9]) auto
    have "unpack_uint32 (fill_uint32 ?z) 0 = ?z" using unpack_fill [of "[]" 0 ?z "[]"] by simp
    then have "response_data [] session ((fill_uint32 ?w @ 2 # fill_uint32 ?z) # fs) = Some (True, msg)"
      using w z parts(3) parts(4) [of "[VInt (int (length msg))]"] lconcat_parts [of "int (length msg)" cs] assms(3)
      by (simp add: unpack_response)
    then show ?thesis using True b parts(1,2) by (intro exI [of _ "Parts (b # bs)"]) (simp add: lpackresponse_def Let_def)
  next
    case False
    let ?m = "take MULTI_PART msg"
    obtain b where b: "packet (min (length msg) MULTI_PART + 5) (fill_uint32 ?w @ (if ok then 1 else 0) # ?m) = Some b"
      "unframe b = Some (fill_uint32 ?w @ (if ok then 1 else 0) # ?m)"
      by (rule packet_ok [of "min (length msg) MULTI_PART + 5"]) (auto simp: MULTI_PART_def)
    have "response_data [] session [fill_uint32 ?w @ (if ok then 1 else 0) # ?m] = Some (ok, ?m)"
      using w by (simp add: unpack_response)
    moreover have "?m = (if ok then msg else ?m)" using False by auto
    ultimately show ?thesis using False b by (intro exI [of _ "One b"]) (auto simp: lpackresponse_def Let_def)
  qed
qed

theorem cluster_response_roundtrip_witness:
  "\<exists>r fs. lpackresponse 7 False [1, 2, 3] = Some r \<and> response_data [] 7 fs = Some (False, [1, 2, 3])"
  using cluster_response_roundtrip [of 7 "[1, 2, 3]" False] by (auto simp: MULTI_PART_def)

text \<open>The comment of the code keeps messages of exactly 32 KB whole, the code sends them as one part.\<close>

lemma boundary_message:
  "length msg = MULTI_PART \<Longrightarrow> packreq_number a session msg False = Some (b, r) \<Longrightarrow> r = 1"
  by (auto simp: packreq_number_def parts_of_small Let_def bind_Some_iff)

end
