(* ===== verification/Seri.thy ===== *)
theory Seri
  imports Prelude
begin

text \<open>
  The serialisation of Lua values, \<^verbatim>\<open>lua-seri.c\<close>: packing into a chain of blocks and
  unpacking from a byte array, on a little-endian machine. A raised Lua error is a value of the
  left side of a sum. The unpacking functions take fuel; \<open>unpack_total\<close> shows that four times
  the length of the stream is enough, so that the recursion always ends. The sizes are C
  \<^verbatim>\<open>int\<close>s; a stream of 2 GB, for which \<^verbatim>\<open>wb->len\<close> overflows, is not modelled, nor are the
  limits of the C and Lua stacks.
\<close>

subsection \<open>Lua values\<close>

text \<open>
  Integers are 64-bit words, floats and pointers the 64 bits that represent them. A table has its
  elements \<^verbatim>\<open>1..rawlen\<close> and all its entries in the order of \<^verbatim>\<open>lua_next\<close>. A table with
  the metamethod \<^verbatim>\<open>__pairs\<close> has the pairs that the iteration gives and whether one of its calls
  fails after them. \<open>LOther\<close> is a value of any other type.
\<close>

datatype lval =
    LNil
  | LBool bool
  | LInt u64
  | LReal u64
  | LStr bytes
  | LPtr u64
  | LTable "lval list" "(lval \<times> lval) list"
  | LMeta "(lval \<times> lval) list" bool
  | LOther

datatype pack_error = Too_Deep | Unsupported | Metamethod_Failed

definition TYPE_NIL :: u8 where "TYPE_NIL = 0"
definition TYPE_BOOLEAN :: u8 where "TYPE_BOOLEAN = 1"
definition TYPE_NUMBER :: u8 where "TYPE_NUMBER = 2"
definition TYPE_NUMBER_ZERO :: u8 where "TYPE_NUMBER_ZERO = 0"
definition TYPE_NUMBER_BYTE :: u8 where "TYPE_NUMBER_BYTE = 1"
definition TYPE_NUMBER_WORD :: u8 where "TYPE_NUMBER_WORD = 2"
definition TYPE_NUMBER_DWORD :: u8 where "TYPE_NUMBER_DWORD = 4"
definition TYPE_NUMBER_QWORD :: u8 where "TYPE_NUMBER_QWORD = 6"
definition TYPE_NUMBER_REAL :: u8 where "TYPE_NUMBER_REAL = 8"
definition TYPE_USERDATA :: u8 where "TYPE_USERDATA = 3"
definition TYPE_SHORT_STRING :: u8 where "TYPE_SHORT_STRING = 4"
definition TYPE_LONG_STRING :: u8 where "TYPE_LONG_STRING = 5"
definition TYPE_TABLE :: u8 where "TYPE_TABLE = 6"

definition MAX_COOKIE :: nat where "MAX_COOKIE = 32"
definition BLOCK_SIZE :: nat where "BLOCK_SIZE = 128"
definition MAX_DEPTH :: nat where "MAX_DEPTH = 32"

definition COMBINE_TYPE :: "u8 \<Rightarrow> u8 \<Rightarrow> u8" where
  "COMBINE_TYPE t v = t OR push_bit 3 v"

subsection \<open>Writing blocks\<close>

text \<open>The blocks before the current one, what is written of the current one (its length is
  \<^verbatim>\<open>ptr\<close>), and the total length.\<close>

record write_block =
  wb_full :: "bytes list"
  wb_current :: bytes
  wb_len :: nat

definition wb_init :: write_block where
  "wb_init = \<lparr>wb_full = [], wb_current = [], wb_len = 0\<rparr>"

definition wb_copy :: "bytes \<Rightarrow> write_block \<Rightarrow> write_block" where
  "wb_copy buf b = b\<lparr>wb_current := wb_current b @ buf, wb_len := wb_len b + length buf\<rparr>"

definition blk_alloc :: "write_block \<Rightarrow> write_block" where
  "blk_alloc b = b\<lparr>wb_full := wb_full b @ [wb_current b], wb_current := []\<rparr>"

text \<open>From the label \<^verbatim>\<open>_again\<close> on: a new block and the rest of the data.\<close>

function wb_again :: "bytes \<Rightarrow> write_block \<Rightarrow> write_block" where
  "wb_again buf b =
     (let b = blk_alloc b
      in if length buf \<le> BLOCK_SIZE then wb_copy buf b
         else wb_again (drop BLOCK_SIZE buf) (wb_copy (take BLOCK_SIZE buf) b))"
  by pat_completeness auto
termination by (relation "measure (\<lambda>(buf, b). length buf)") (auto simp: BLOCK_SIZE_def)

declare wb_again.simps [simp del]

definition wb_push :: "bytes \<Rightarrow> write_block \<Rightarrow> write_block" where
  "wb_push buf b =
     (if length (wb_current b) = BLOCK_SIZE then wb_again buf b
      else if length (wb_current b) + length buf \<le> BLOCK_SIZE then wb_copy buf b
      else
        let copy = BLOCK_SIZE - length (wb_current b)
        in wb_again (drop copy buf) (wb_copy (take copy buf) b))"

text \<open>The bytes of the \<open>n\<close> lowest bytes of a number.\<close>

definition le_n :: "nat \<Rightarrow> u64 \<Rightarrow> bytes" where
  "le_n n v = map (\<lambda>i. ucast (drop_bit (8 * i) v)) [0..<n]"

definition wb_nil :: "write_block \<Rightarrow> write_block" where
  "wb_nil = wb_push [TYPE_NIL]"

definition wb_boolean :: "bool \<Rightarrow> write_block \<Rightarrow> write_block" where
  "wb_boolean b = wb_push [COMBINE_TYPE TYPE_BOOLEAN (if b then 1 else 0)]"

definition wb_integer :: "u64 \<Rightarrow> write_block \<Rightarrow> write_block" where
  "wb_integer v wb =
     (if v = 0 then wb_push [COMBINE_TYPE TYPE_NUMBER TYPE_NUMBER_ZERO] wb
      else if sint v \<noteq> sint (ucast v :: u32) then
        wb_push (le_n 8 v) (wb_push [COMBINE_TYPE TYPE_NUMBER TYPE_NUMBER_QWORD] wb)
      else if sint v < 0 then
        wb_push (le_n 4 v) (wb_push [COMBINE_TYPE TYPE_NUMBER TYPE_NUMBER_DWORD] wb)
      else if sint v < 0x100 then
        wb_push (le_n 1 v) (wb_push [COMBINE_TYPE TYPE_NUMBER TYPE_NUMBER_BYTE] wb)
      else if sint v < 0x10000 then
        wb_push (le_n 2 v) (wb_push [COMBINE_TYPE TYPE_NUMBER TYPE_NUMBER_WORD] wb)
      else wb_push (le_n 4 v) (wb_push [COMBINE_TYPE TYPE_NUMBER TYPE_NUMBER_DWORD] wb))"

definition wb_real :: "u64 \<Rightarrow> write_block \<Rightarrow> write_block" where
  "wb_real v wb = wb_push (le_n 8 v) (wb_push [COMBINE_TYPE TYPE_NUMBER TYPE_NUMBER_REAL] wb)"

definition wb_pointer :: "u64 \<Rightarrow> write_block \<Rightarrow> write_block" where
  "wb_pointer v wb = wb_push (le_n 8 v) (wb_push [TYPE_USERDATA] wb)"

text \<open>The conversion of a size to \<^verbatim>\<open>int\<close>.\<close>

definition int_size :: "nat \<Rightarrow> int" where
  "int_size n = sint (of_nat n :: u32)"

definition wb_string :: "bytes \<Rightarrow> int \<Rightarrow> write_block \<Rightarrow> write_block" where
  "wb_string str len wb =
     (if len < int MAX_COOKIE then
        let wb = wb_push [COMBINE_TYPE TYPE_SHORT_STRING (word_of_int len)] wb
        in if len > 0 then wb_push (take (nat len) str) wb else wb
      else if len < 0x10000 then
        wb_push (take (nat len) str) (wb_push (le_n 2 (word_of_int len)) (wb_push [COMBINE_TYPE TYPE_LONG_STRING 2] wb))
      else
        wb_push (take (nat len) str) (wb_push (le_n 4 (word_of_int len)) (wb_push [COMBINE_TYPE TYPE_LONG_STRING 4] wb)))"

subsection \<open>Packing\<close>

text \<open>The header of a table with \<open>n\<close> elements, and the keys that \<^verbatim>\<open>wb_table_hash\<close> passes over.\<close>

definition wb_table_size :: "int \<Rightarrow> write_block \<Rightarrow> write_block" where
  "wb_table_size n wb =
     (if n \<ge> int MAX_COOKIE - 1
      then wb_integer (word_of_int n) (wb_push [COMBINE_TYPE TYPE_TABLE (of_nat (MAX_COOKIE - 1))] wb)
      else wb_push [COMBINE_TYPE TYPE_TABLE (word_of_int n)] wb)"

definition in_array :: "int \<Rightarrow> lval \<Rightarrow> bool" where
  "in_array n k = (case k of LInt x \<Rightarrow> 0 < sint x \<and> sint x \<le> n | _ \<Rightarrow> False)"

text \<open>
  \<open>pack_values\<close> is the loop of \<^verbatim>\<open>wb_table_array\<close> and that of \<^verbatim>\<open>pack_from\<close>;
  \<open>pack_entries\<close> is the loop of \<^verbatim>\<open>wb_table_hash\<close> for a table of \<open>n\<close> elements and,
  with \<open>n = 0\<close>, the loop of \<^verbatim>\<open>wb_table_metapairs\<close>.
\<close>

function (sequential) pack_one :: "nat \<Rightarrow> lval \<Rightarrow> write_block \<Rightarrow> pack_error + write_block"
  and pack_values :: "nat \<Rightarrow> nat \<Rightarrow> lval list \<Rightarrow> write_block \<Rightarrow> pack_error + write_block"
  and pack_entries :: "nat \<Rightarrow> int \<Rightarrow> (lval \<times> lval) list \<Rightarrow> write_block \<Rightarrow> pack_error + write_block"
where
  "pack_one depth v b =
     (if depth > MAX_DEPTH then Inl Too_Deep
      else
        (case v of
           LNil \<Rightarrow> Inr (wb_nil b)
         | LInt x \<Rightarrow> Inr (wb_integer x b)
         | LReal x \<Rightarrow> Inr (wb_real x b)
         | LBool x \<Rightarrow> Inr (wb_boolean x b)
         | LStr s \<Rightarrow> Inr (wb_string s (int_size (length s)) b)
         | LPtr x \<Rightarrow> Inr (wb_pointer x b)
         | LTable arr entries \<Rightarrow>
             (let size = int_size (length arr)
              in case pack_values (depth + 1) (nat size) arr (wb_table_size size b) of
                   Inl e \<Rightarrow> Inl e
                 | Inr b1 \<Rightarrow>
                     (case pack_entries (depth + 1) size entries b1 of
                        Inl e \<Rightarrow> Inl e
                      | Inr b2 \<Rightarrow> Inr (wb_nil b2)))
         | LMeta entries failed \<Rightarrow>
             (case pack_entries (depth + 1) 0 entries (wb_push [COMBINE_TYPE TYPE_TABLE 0] b) of
                Inl e \<Rightarrow> Inl e
              | Inr b1 \<Rightarrow> if failed then Inl Metamethod_Failed else Inr (wb_nil b1))
         | LOther \<Rightarrow> Inl Unsupported))"
| "pack_values depth (Suc n) (v # vs) b =
     (case pack_one depth v b of Inl e \<Rightarrow> Inl e | Inr b1 \<Rightarrow> pack_values depth n vs b1)"
| "pack_values depth n vs b = Inr b"
| "pack_entries depth n [] b = Inr b"
| "pack_entries depth n ((k, v) # es) b =
     (if in_array n k then pack_entries depth n es b
      else
        (case pack_one depth k b of
           Inl e \<Rightarrow> Inl e
         | Inr b1 \<Rightarrow> (case pack_one depth v b1 of Inl e \<Rightarrow> Inl e | Inr b2 \<Rightarrow> pack_entries depth n es b2)))"
  by pat_completeness auto
termination
  by (relation "measure (\<lambda>x. case x of Inl (d, v, b) \<Rightarrow> 2 * size v + 1
        | Inr (Inl (d, n, vs, b)) \<Rightarrow> 2 * size_list size vs
        | Inr (Inr (d, n, es, b)) \<Rightarrow> 2 * size_list (size_prod size size) es)") auto

declare pack_one.simps [simp del]

text \<open>The loop that copies the blocks into one buffer of \<open>len\<close> bytes.\<close>

fun seri :: "bytes list \<Rightarrow> nat \<Rightarrow> bytes" where
  "seri (b # bs) len = (if len = 0 then [] else if len \<ge> BLOCK_SIZE then b @ seri bs (len - BLOCK_SIZE) else take len b)"
| "seri [] len = []"

definition luaseri_pack :: "lval list \<Rightarrow> pack_error + bytes" where
  "luaseri_pack args =
     (case pack_values 0 (length args) args wb_init of
        Inl e \<Rightarrow> Inl e
      | Inr wb \<Rightarrow> Inr (seri (wb_full wb @ [wb_current wb]) (wb_len wb)))"

subsection \<open>Reading\<close>

text \<open>
  \<open>Block_Too_Big\<close> and \<open>Nan_Index\<close> are the errors of \<^verbatim>\<open>lua_pushlstring\<close> and
  \<^verbatim>\<open>lua_rawset\<close>.
\<close>

datatype unpack_error = Invalid_Stream int | Block_Too_Big | Nan_Index | Null_Pointer | Out_Of_Fuel

record read_block =
  rb_buffer :: bytes
  rb_len :: int
  rb_ptr :: nat

definition rball_init :: "bytes \<Rightarrow> int \<Rightarrow> read_block" where
  "rball_init buffer n = \<lparr>rb_buffer = buffer, rb_len = n, rb_ptr = 0\<rparr>"

definition rb_read :: "read_block \<Rightarrow> nat \<Rightarrow> (bytes \<times> read_block) option" where
  "rb_read rb sz =
     (if rb_len rb < int sz then None
      else Some (take sz (drop (rb_ptr rb) (rb_buffer rb)), rb\<lparr>rb_ptr := rb_ptr rb + sz, rb_len := rb_len rb - int sz\<rparr>))"

definition invalid_stream :: "read_block \<Rightarrow> unpack_error + 'a" where
  "invalid_stream rb = Inl (Invalid_Stream (rb_len rb))"

text \<open>The number in little-endian bytes, and a read whose failure raises an error.\<close>

fun of_le :: "bytes \<Rightarrow> u64" where
  "of_le [] = 0"
| "of_le (b # bs) = ucast b OR push_bit 8 (of_le bs)"

definition read_n :: "read_block \<Rightarrow> nat \<Rightarrow> unpack_error + u64 \<times> read_block" where
  "read_n rb n = (case rb_read rb n of None \<Rightarrow> invalid_stream rb | Some (bs, rb1) \<Rightarrow> Inr (of_le bs, rb1))"

definition get_integer :: "read_block \<Rightarrow> u8 \<Rightarrow> unpack_error + u64 \<times> read_block" where
  "get_integer rb cookie =
     (if cookie = TYPE_NUMBER_ZERO then Inr (0, rb)
      else if cookie = TYPE_NUMBER_BYTE then read_n rb 1
      else if cookie = TYPE_NUMBER_WORD then read_n rb 2
      else if cookie = TYPE_NUMBER_DWORD then
        (case read_n rb 4 of Inl e \<Rightarrow> Inl e | Inr (n, rb1) \<Rightarrow> Inr (scast (ucast n :: u32), rb1))
      else if cookie = TYPE_NUMBER_QWORD then read_n rb 8
      else invalid_stream rb)"

definition get_real :: "read_block \<Rightarrow> unpack_error + u64 \<times> read_block" where
  "get_real rb = read_n rb 8"

definition get_pointer :: "read_block \<Rightarrow> unpack_error + u64 \<times> read_block" where
  "get_pointer rb = read_n rb 8"

text \<open>A negative length passes the test of \<^verbatim>\<open>rb_read\<close>, but as a \<^verbatim>\<open>size_t\<close> it is more than
  a Lua string can have.\<close>

definition get_buffer :: "read_block \<Rightarrow> int \<Rightarrow> unpack_error + bytes \<times> read_block" where
  "get_buffer rb len =
     (if len < 0 then Inl Block_Too_Big
      else case rb_read rb (nat len) of None \<Rightarrow> invalid_stream rb | Some (p, rb1) \<Rightarrow> Inr (p, rb1))"

definition get_long_string :: "read_block \<Rightarrow> u8 \<Rightarrow> unpack_error + bytes \<times> read_block" where
  "get_long_string rb cookie =
     (if cookie = 2 then
        (case read_n rb 2 of Inl e \<Rightarrow> Inl e | Inr (n, rb1) \<Rightarrow> get_buffer rb1 (int_size (unat n)))
      else if cookie \<noteq> 4 then invalid_stream rb
      else (case read_n rb 4 of Inl e \<Rightarrow> Inl e | Inr (n, rb1) \<Rightarrow> get_buffer rb1 (int_size (unat n))))"

text \<open>The number of elements of a table.\<close>

definition get_array_size :: "read_block \<Rightarrow> u8 \<Rightarrow> unpack_error + int \<times> read_block" where
  "get_array_size rb cookie =
     (if cookie = of_nat (MAX_COOKIE - 1) then
        (case rb_read rb 1 of
           None \<Rightarrow> invalid_stream rb
         | Some (t, rb1) \<Rightarrow>
             (let type = hd t; cookie = drop_bit 3 type
              in if type AND 7 \<noteq> TYPE_NUMBER \<or> cookie = TYPE_NUMBER_REAL then invalid_stream rb1
                 else (case get_integer rb1 cookie of
                         Inl e \<Rightarrow> Inl e
                       | Inr (n, rb2) \<Rightarrow> Inr (sint (ucast n :: u32), rb2))))
      else Inr (uint cookie, rb))"

text \<open>A key that \<^verbatim>\<open>lua_rawset\<close> refuses: a float that is no number.\<close>

definition nan_key :: "lval \<Rightarrow> bool" where
  "nan_key k = (case k of LReal x \<Rightarrow> 0x7FF0000000000000 < x AND 0x7FFFFFFFFFFFFFFF | _ \<Rightarrow> False)"

text \<open>
  A table is given by its elements and the assignments to it in their order. The functions after
  \<open>push_value\<close> are the two loops of \<^verbatim>\<open>unpack_table\<close>.
\<close>

fun unpack_one :: "nat \<Rightarrow> read_block \<Rightarrow> unpack_error + lval \<times> read_block"
  and push_value :: "nat \<Rightarrow> read_block \<Rightarrow> u8 \<Rightarrow> u8 \<Rightarrow> unpack_error + lval \<times> read_block"
  and unpack_array :: "nat \<Rightarrow> read_block \<Rightarrow> nat \<Rightarrow> unpack_error + lval list \<times> read_block"
  and unpack_hash :: "nat \<Rightarrow> read_block \<Rightarrow> unpack_error + (lval \<times> lval) list \<times> read_block"
where
  "unpack_one (Suc f) rb =
     (case rb_read rb 1 of
        None \<Rightarrow> invalid_stream rb
      | Some (t, rb1) \<Rightarrow> push_value f rb1 (hd t AND 7) (drop_bit 3 (hd t)))"
| "push_value (Suc f) rb type cookie =
     (if type = TYPE_NIL then Inr (LNil, rb)
      else if type = TYPE_BOOLEAN then Inr (LBool (cookie \<noteq> 0), rb)
      else if type = TYPE_NUMBER then
        (if cookie = TYPE_NUMBER_REAL then map_sum id (apfst LReal) (get_real rb)
         else map_sum id (apfst LInt) (get_integer rb cookie))
      else if type = TYPE_USERDATA then map_sum id (apfst LPtr) (get_pointer rb)
      else if type = TYPE_SHORT_STRING then map_sum id (apfst LStr) (get_buffer rb (uint cookie))
      else if type = TYPE_LONG_STRING then map_sum id (apfst LStr) (get_long_string rb cookie)
      else if type = TYPE_TABLE then
        (case get_array_size rb cookie of
           Inl e \<Rightarrow> Inl e
         | Inr (array_size, rb1) \<Rightarrow>
             (case unpack_array f rb1 (nat array_size) of
                Inl e \<Rightarrow> Inl e
              | Inr (arr, rb2) \<Rightarrow>
                  (case unpack_hash f rb2 of Inl e \<Rightarrow> Inl e | Inr (entries, rb3) \<Rightarrow> Inr (LTable arr entries, rb3))))
      else invalid_stream rb)"
| "unpack_array (Suc f) rb n =
     (if n = 0 then Inr ([], rb)
      else
        (case unpack_one f rb of
           Inl e \<Rightarrow> Inl e
         | Inr (v, rb1) \<Rightarrow>
             (case unpack_array f rb1 (n - 1) of Inl e \<Rightarrow> Inl e | Inr (vs, rb2) \<Rightarrow> Inr (v # vs, rb2))))"
| "unpack_hash (Suc f) rb =
     (case unpack_one f rb of
        Inl e \<Rightarrow> Inl e
      | Inr (k, rb1) \<Rightarrow>
          if k = LNil then Inr ([], rb1)
          else
            (case unpack_one f rb1 of
               Inl e \<Rightarrow> Inl e
             | Inr (v, rb2) \<Rightarrow>
                 if nan_key k then Inl Nan_Index
                 else (case unpack_hash f rb2 of Inl e \<Rightarrow> Inl e | Inr (es, rb3) \<Rightarrow> Inr ((k, v) # es, rb3))))"
| "unpack_one 0 rb = Inl Out_Of_Fuel"
| "push_value 0 rb type cookie = Inl Out_Of_Fuel"
| "unpack_array 0 rb n = Inl Out_Of_Fuel"
| "unpack_hash 0 rb = Inl Out_Of_Fuel"

text \<open>The loop of \<^verbatim>\<open>luaseri_unpack\<close>, which ends where no type byte is left.\<close>

fun unpack_all :: "nat \<Rightarrow> read_block \<Rightarrow> unpack_error + lval list" where
  "unpack_all (Suc f) rb =
     (case rb_read rb 1 of
        None \<Rightarrow> Inr []
      | Some (t, rb1) \<Rightarrow>
          (case push_value f rb1 (hd t AND 7) (drop_bit 3 (hd t)) of
             Inl e \<Rightarrow> Inl e
           | Inr (v, rb2) \<Rightarrow> (case unpack_all f rb2 of Inl e \<Rightarrow> Inl e | Inr vs \<Rightarrow> Inr (v # vs))))"
| "unpack_all 0 rb = Inl Out_Of_Fuel"

text \<open>The arguments: none or nil, a null pointer with a size, or a buffer.\<close>

datatype stream = Absent | Null nat | Buffer bytes

definition unpack_fuel :: "bytes \<Rightarrow> nat" where
  "unpack_fuel buffer = 4 * length buffer + 4"

fun luaseri_unpack :: "stream \<Rightarrow> unpack_error + lval list" where
  "luaseri_unpack Absent = Inr []"
| "luaseri_unpack (Null n) = (if int_size n = 0 then Inr [] else Inl Null_Pointer)"
| "luaseri_unpack (Buffer buffer) =
     (let len = int_size (length buffer)
      in if len = 0 then Inr [] else unpack_all (unpack_fuel buffer) (rball_init buffer len))"

subsection \<open>What the writers append\<close>

definition content :: "write_block \<Rightarrow> bytes" where
  "content b = concat (wb_full b) @ wb_current b"

definition wb_ok :: "write_block \<Rightarrow> bool" where
  "wb_ok b \<longleftrightarrow> (\<forall>x \<in> set (wb_full b). length x = BLOCK_SIZE) \<and> length (wb_current b) \<le> BLOCK_SIZE \<and>
     wb_len b = length (content b)"

definition writes :: "(write_block \<Rightarrow> write_block) \<Rightarrow> bytes \<Rightarrow> bool" where
  "writes f xs \<longleftrightarrow> (\<forall>b. wb_ok b \<longrightarrow> wb_ok (f b) \<and> content (f b) = content b @ xs)"

lemma writes_comp: "writes f xs \<Longrightarrow> writes g ys \<Longrightarrow> writes (\<lambda>b. g (f b)) (xs @ ys)"
  by (simp add: writes_def)

lemma wb_copy_ok:
  "wb_ok b \<Longrightarrow> length (wb_current b) + length buf \<le> BLOCK_SIZE \<Longrightarrow>
   wb_ok (wb_copy buf b) \<and> content (wb_copy buf b) = content b @ buf"
  by (auto simp: wb_ok_def content_def wb_copy_def)

lemma blk_alloc_ok:
  "wb_ok b \<Longrightarrow> length (wb_current b) = BLOCK_SIZE \<Longrightarrow>
   wb_ok (blk_alloc b) \<and> content (blk_alloc b) = content b \<and> wb_current (blk_alloc b) = []"
  by (auto simp: wb_ok_def content_def blk_alloc_def)

lemma wb_again_ok:
  "wb_ok b \<Longrightarrow> length (wb_current b) = BLOCK_SIZE \<Longrightarrow>
   wb_ok (wb_again buf b) \<and> content (wb_again buf b) = content b @ buf"
proof (induction buf b rule: wb_again.induct)
  case (1 buf b)
  note alloc = blk_alloc_ok [OF "1.prems"]
  show ?case
  proof (cases "length buf \<le> BLOCK_SIZE")
    case True
    then show ?thesis using alloc wb_copy_ok [of "blk_alloc b" buf] by (simp add: wb_again.simps [of buf])
  next
    case False
    let ?b = "wb_copy (take BLOCK_SIZE buf) (blk_alloc b)"
    have copy: "wb_ok ?b \<and> content ?b = content b @ take BLOCK_SIZE buf"
      using alloc False wb_copy_ok [of "blk_alloc b" "take BLOCK_SIZE buf"] by simp
    have "length (wb_current ?b) = BLOCK_SIZE" using alloc False by (simp add: wb_copy_def)
    then have "wb_ok (wb_again (drop BLOCK_SIZE buf) ?b) \<and>
        content (wb_again (drop BLOCK_SIZE buf) ?b) = content ?b @ drop BLOCK_SIZE buf"
      using copy False "1.IH" [OF refl] by simp
    then show ?thesis using copy False by (simp add: wb_again.simps [of buf])
  qed
qed

lemma writes_push: "writes (wb_push buf) buf"
  unfolding writes_def
proof (intro allI impI)
  fix b
  assume ok: "wb_ok b"
  let ?copy = "BLOCK_SIZE - length (wb_current b)"
  show "wb_ok (wb_push buf b) \<and> content (wb_push buf b) = content b @ buf"
  proof (cases "length (wb_current b) = BLOCK_SIZE \<or> length (wb_current b) + length buf \<le> BLOCK_SIZE")
    case True
    then show ?thesis using ok wb_again_ok wb_copy_ok by (auto simp: wb_push_def)
  next
    case False
    then have len: "length (take ?copy buf) = ?copy" "length (wb_current b) \<le> BLOCK_SIZE"
      using ok by (auto simp: wb_ok_def)
    let ?b = "wb_copy (take ?copy buf) b"
    have copy: "wb_ok ?b" "content ?b = content b @ take ?copy buf"
      using ok len wb_copy_ok [of b "take ?copy buf"] by simp_all
    moreover have "length (wb_current ?b) = BLOCK_SIZE" using len by (simp add: wb_copy_def)
    ultimately show ?thesis using False wb_again_ok [of ?b "drop ?copy buf"] by (simp add: wb_push_def Let_def)
  qed
qed

lemma writes_push_after: "writes f xs \<Longrightarrow> writes (\<lambda>b. wb_push ys (f b)) (xs @ ys)"
  by (rule writes_comp [OF _ writes_push])

lemma seri_content:
  "(\<And>x. x \<in> set full \<Longrightarrow> length x = BLOCK_SIZE) \<Longrightarrow> length cur \<le> BLOCK_SIZE \<Longrightarrow>
   seri (full @ [cur]) (length (concat full @ cur)) = concat full @ cur"
proof (induction full)
  case Nil
  then show ?case by (cases "length cur = BLOCK_SIZE") (auto simp: BLOCK_SIZE_def)
next
  case (Cons x full)
  then show ?case by (simp add: BLOCK_SIZE_def)
qed

lemma seri_wb: "wb_ok b \<Longrightarrow> seri (wb_full b @ [wb_current b]) (wb_len b) = content b"
  using seri_content [of "wb_full b" "wb_current b"] by (simp add: wb_ok_def content_def)

subsection \<open>The format\<close>

text \<open>The bytes of each kind of value.\<close>

definition enc_integer :: "u64 \<Rightarrow> bytes" where
  "enc_integer v =
     (if v = 0 then [COMBINE_TYPE TYPE_NUMBER TYPE_NUMBER_ZERO]
      else if sint v \<noteq> sint (ucast v :: u32) then COMBINE_TYPE TYPE_NUMBER TYPE_NUMBER_QWORD # le_n 8 v
      else if 0 \<le> sint v \<and> sint v < 0x100 then COMBINE_TYPE TYPE_NUMBER TYPE_NUMBER_BYTE # le_n 1 v
      else if 0 \<le> sint v \<and> sint v < 0x10000 then COMBINE_TYPE TYPE_NUMBER TYPE_NUMBER_WORD # le_n 2 v
      else COMBINE_TYPE TYPE_NUMBER TYPE_NUMBER_DWORD # le_n 4 v)"

definition enc_string :: "bytes \<Rightarrow> bytes" where
  "enc_string s =
     (if length s < 32 then [COMBINE_TYPE TYPE_SHORT_STRING (of_nat (length s))]
      else if length s < 0x10000 then COMBINE_TYPE TYPE_LONG_STRING 2 # le_n 2 (of_nat (length s))
      else COMBINE_TYPE TYPE_LONG_STRING 4 # le_n 4 (of_nat (length s))) @ s"

definition enc_size :: "nat \<Rightarrow> bytes" where
  "enc_size n = (if n \<ge> 31 then COMBINE_TYPE TYPE_TABLE 31 # enc_integer (of_nat n) else [COMBINE_TYPE TYPE_TABLE (of_nat n)])"

lemma int_size_small: "n < 2 ^ 31 \<Longrightarrow> int_size n = int n"
  unfolding int_size_def by (simp add: signed_of_nat signed_take_bit_int_eq_self)

lemma writes_integer: "writes (wb_integer v) (enc_integer v)"
  using writes_push writes_push_after [OF writes_push]
  by (auto simp: writes_def wb_integer_def enc_integer_def)

lemma writes_string: "length s < 2 ^ 31 \<Longrightarrow> writes (wb_string s (int_size (length s))) (enc_string s)"
  using writes_push writes_push_after [OF writes_push] writes_push_after [OF writes_push_after [OF writes_push]]
  by (auto simp: writes_def wb_string_def enc_string_def int_size_small MAX_COOKIE_def Let_def)

lemma writes_size: "n < 2 ^ 31 \<Longrightarrow> writes (wb_table_size (int n)) (enc_size n)"
  using writes_push writes_comp [OF writes_push writes_integer]
  by (auto simp: writes_def wb_table_size_def enc_size_def MAX_COOKIE_def)

lemma value_sizes:
  "v \<in> set vs \<Longrightarrow> size v \<le> size_list size vs + n"
  "(k, w) \<in> set es \<Longrightarrow> size k \<le> n + size_list (size_prod size size) es"
  "(k, w) \<in> set es \<Longrightarrow> size w \<le> n + size_list (size_prod size size) es"
  "(k, w) \<in> set es \<Longrightarrow> size k \<le> size_list (size_prod size size) es"
  "(k, w) \<in> set es \<Longrightarrow> size w \<le> size_list (size_prod size size) es" for v :: lval
  by (induction vs, auto) (induction es, auto)+

function value_bytes :: "lval \<Rightarrow> bytes" where
  "value_bytes LNil = [TYPE_NIL]"
| "value_bytes (LBool x) = [COMBINE_TYPE TYPE_BOOLEAN (if x then 1 else 0)]"
| "value_bytes (LInt x) = enc_integer x"
| "value_bytes (LReal x) = COMBINE_TYPE TYPE_NUMBER TYPE_NUMBER_REAL # le_n 8 x"
| "value_bytes (LStr s) = enc_string s"
| "value_bytes (LPtr x) = TYPE_USERDATA # le_n 8 x"
| "value_bytes (LTable arr es) =
     enc_size (length arr) @ concat (map value_bytes arr) @
     concat (map (\<lambda>p. if in_array (int (length arr)) (fst p) then [] else value_bytes (fst p) @ value_bytes (snd p)) es) @ [TYPE_NIL]"
| "value_bytes (LMeta es failed) = enc_size 0 @ concat (map (\<lambda>p. value_bytes (fst p) @ value_bytes (snd p)) es) @ [TYPE_NIL]"
| "value_bytes LOther = []"
  by pat_completeness auto
termination
  by (relation "measure size") (auto simp: less_Suc_eq_le intro: value_sizes)

text \<open>
  The values that can be packed at a depth, the sizes and keys that a table of Lua has, and the value that the receiver
  gets: of a table with \<^verbatim>\<open>__pairs\<close> the pairs, of another table the elements and the entries that are no elements.
\<close>

function packable :: "nat \<Rightarrow> lval \<Rightarrow> bool" where
  "packable d (LTable arr es) \<longleftrightarrow> d \<le> MAX_DEPTH \<and> (\<forall>v \<in> set arr. packable (d + 1) v) \<and>
     (\<forall>p \<in> set es. in_array (int (length arr)) (fst p) \<or> packable (d + 1) (fst p) \<and> packable (d + 1) (snd p))"
| "packable d (LMeta es failed) \<longleftrightarrow> d \<le> MAX_DEPTH \<and> \<not> failed \<and>
     (\<forall>p \<in> set es. packable (d + 1) (fst p) \<and> packable (d + 1) (snd p))"
| "packable d LOther \<longleftrightarrow> False"
| "packable d LNil \<longleftrightarrow> d \<le> MAX_DEPTH"
| "packable d (LBool b) \<longleftrightarrow> d \<le> MAX_DEPTH"
| "packable d (LInt x) \<longleftrightarrow> d \<le> MAX_DEPTH"
| "packable d (LReal x) \<longleftrightarrow> d \<le> MAX_DEPTH"
| "packable d (LStr s) \<longleftrightarrow> d \<le> MAX_DEPTH"
| "packable d (LPtr x) \<longleftrightarrow> d \<le> MAX_DEPTH"
  by pat_completeness auto
termination
  by (relation "measure (size \<circ> snd)") (auto simp: less_Suc_eq_le intro: value_sizes)

function sane :: "lval \<Rightarrow> bool" where
  "sane (LTable arr es) \<longleftrightarrow> length arr < 2 ^ 31 \<and> (\<forall>v \<in> set arr. sane v) \<and>
     (\<forall>p \<in> set es. sane (fst p) \<and> sane (snd p) \<and> fst p \<noteq> LNil \<and> \<not> nan_key (fst p))"
| "sane (LMeta es failed) \<longleftrightarrow>
     (\<forall>p \<in> set es. sane (fst p) \<and> sane (snd p) \<and> fst p \<noteq> LNil \<and> \<not> nan_key (fst p))"
| "sane (LStr s) \<longleftrightarrow> length s < 2 ^ 31"
| "sane LOther \<longleftrightarrow> True"
| "sane LNil \<longleftrightarrow> True"
| "sane (LBool b) \<longleftrightarrow> True"
| "sane (LInt x) \<longleftrightarrow> True"
| "sane (LReal x) \<longleftrightarrow> True"
| "sane (LPtr x) \<longleftrightarrow> True"
  by pat_completeness auto
termination by (relation "measure size") (auto simp: less_Suc_eq_le intro: value_sizes)

function canon :: "lval \<Rightarrow> lval" where
  "canon (LTable arr es) = LTable (map canon arr)
     (map (\<lambda>p. (canon (fst p), canon (snd p))) (filter (\<lambda>p. \<not> in_array (int (length arr)) (fst p)) es))"
| "canon (LMeta es failed) = LTable [] (map (\<lambda>p. (canon (fst p), canon (snd p))) es)"
| "canon LOther = LOther"
| "canon LNil = LNil"
| "canon (LBool b) = LBool b"
| "canon (LInt x) = LInt x"
| "canon (LReal x) = LReal x"
| "canon (LStr x) = LStr x"
| "canon (LPtr x) = LPtr x"
  by pat_completeness auto
termination by (relation "measure size") (auto simp: less_Suc_eq_le intro: value_sizes)

subsection \<open>Packing writes the format\<close>

text \<open>What a packing function does when the value can be packed.\<close>

definition packs :: "(write_block \<Rightarrow> pack_error + write_block) \<Rightarrow> bool \<Rightarrow> bytes \<Rightarrow> bool" where
  "packs f can xs \<longleftrightarrow> (\<forall>b. wb_ok b \<longrightarrow>
     (if can then \<exists>b'. f b = Inr b' \<and> wb_ok b' \<and> content b' = content b @ xs else \<exists>e. f b = Inl e))"

lemma packs_writes: "writes f xs \<Longrightarrow> packs (\<lambda>b. Inr (f b)) True xs"
  by (simp add: packs_def writes_def)

lemma packs_fail: "packs (\<lambda>b. Inl e) False xs"
  by (simp add: packs_def)

lemma packs_bind:
  "packs f c xs \<Longrightarrow> packs g d ys \<Longrightarrow> packs (\<lambda>b. case f b of Inl e \<Rightarrow> Inl e | Inr b1 \<Rightarrow> g b1) (c \<and> d) (xs @ ys)"
  unfolding packs_def by (cases c; cases d) fastforce+

lemma packs_after: "writes f xs \<Longrightarrow> packs g c ys \<Longrightarrow> packs (\<lambda>b. g (f b)) c (xs @ ys)"
  unfolding packs_def writes_def by (cases c) fastforce+

lemma packs_finish: "packs f c xs \<Longrightarrow> packs (\<lambda>b. case f b of Inl e \<Rightarrow> Inl e | Inr b1 \<Rightarrow> Inr (wb_nil b1)) c (xs @ [TYPE_NIL])"
  using packs_bind [OF _ packs_writes [OF writes_push], of f c xs "[TYPE_NIL]"] unfolding wb_nil_def by simp

lemma packs_finish_meta:
  "packs f c xs \<Longrightarrow>
   packs (\<lambda>b. case f b of Inl e \<Rightarrow> Inl e | Inr b1 \<Rightarrow> if failed then Inl Metamethod_Failed else Inr (wb_nil b1)) (\<not> failed \<and> c)
     (xs @ [TYPE_NIL])"
  using packs_finish [of f c xs] unfolding packs_def by (cases failed; cases c) fastforce+

definition enc_entries :: "int \<Rightarrow> (lval \<times> lval) list \<Rightarrow> bytes" where
  "enc_entries n es = concat (map (\<lambda>p. if in_array n (fst p) then [] else value_bytes (fst p) @ value_bytes (snd p)) es)"

definition packable_entries :: "nat \<Rightarrow> int \<Rightarrow> (lval \<times> lval) list \<Rightarrow> bool" where
  "packable_entries d n es \<longleftrightarrow>
     (\<forall>p \<in> set es. in_array n (fst p) \<or> packable d (fst p) \<and> packable d (snd p))"

lemma not_in_array_0: "\<not> in_array 0 k"
  by (simp add: in_array_def split: lval.split)

lemma enc_entries_simps [simp]:
  "enc_entries n [] = []"
  "enc_entries n ((k, v) # es) = (if in_array n k then [] else value_bytes k @ value_bytes v) @ enc_entries n es"
  by (simp_all add: enc_entries_def)

lemma enc_tables:
  "value_bytes (LTable arr es) = enc_size (length arr) @ concat (map value_bytes arr) @ enc_entries (int (length arr)) es @ [TYPE_NIL]"
  "value_bytes (LMeta es failed) = [COMBINE_TYPE TYPE_TABLE 0] @ enc_entries 0 es @ [TYPE_NIL]"
  by (simp_all add: enc_entries_def not_in_array_0 enc_size_def)

lemma packable_entries_simps [simp]:
  "packable_entries d n [] = True"
  "packable_entries d n ((k, v) # es) = ((in_array n k \<or> packable d k \<and> packable d v) \<and> packable_entries d n es)"
  by (auto simp: packable_entries_def)

lemma packable_tables:
  "packable d (LTable arr es) \<longleftrightarrow>
     d \<le> MAX_DEPTH \<and> (\<forall>v \<in> set arr. packable (d + 1) v) \<and> packable_entries (d + 1) (int (length arr)) es"
  "packable d (LMeta es failed) \<longleftrightarrow> d \<le> MAX_DEPTH \<and> \<not> failed \<and> packable_entries (d + 1) 0 es"
  by (simp_all add: packable_entries_def not_in_array_0)

declare value_bytes.simps(7,8) [simp del] packable.simps(1,2) [simp del]

lemma pack_values_content:
  "(\<And>v. v \<in> set vs \<Longrightarrow> packs (pack_one d v) (packable d v) (value_bytes v)) \<Longrightarrow>
   packs (pack_values d (length vs) vs) (\<forall>v \<in> set vs. packable d v) (concat (map value_bytes vs))"
proof (induction vs)
  case Nil
  then show ?case by (simp add: packs_def)
next
  case (Cons v vs)
  have "pack_values d (length (v # vs)) (v # vs) =
      (\<lambda>b. case pack_one d v b of Inl e \<Rightarrow> Inl e | Inr b1 \<Rightarrow> pack_values d (length vs) vs b1)"
    by (rule ext) simp
  then show ?case
    using packs_bind [OF Cons.prems [of v] Cons.IH] Cons.prems by simp
qed

lemma pack_entries_content:
  "(\<And>p. p \<in> set es \<Longrightarrow> packs (pack_one d (fst p)) (packable d (fst p)) (value_bytes (fst p)) \<and>
      packs (pack_one d (snd p)) (packable d (snd p)) (value_bytes (snd p))) \<Longrightarrow>
   packs (pack_entries d n es) (packable_entries d n es) (enc_entries n es)"
proof (induction es)
  case Nil
  then show ?case by (simp add: packs_def)
next
  case (Cons p es)
  obtain k v where p: "p = (k, v)" by (cases p)
  show ?case
  proof (cases "in_array n k")
    case True
    then have "pack_entries d n (p # es) = pack_entries d n es" by (intro ext) (simp add: p)
    then show ?thesis using Cons.IH Cons.prems True by (simp add: p)
  next
    case False
    then have "pack_entries d n (p # es) =
        (\<lambda>b. case pack_one d k b of Inl e \<Rightarrow> Inl e | Inr b1 \<Rightarrow>
           (case pack_one d v b1 of Inl e \<Rightarrow> Inl e | Inr b2 \<Rightarrow> pack_entries d n es b2))"
      by (intro ext) (simp add: p)
    moreover have "packs (pack_one d k) (packable d k) (value_bytes k)" "packs (pack_one d v) (packable d v) (value_bytes v)"
      using Cons.prems [of p] by (simp_all add: p)
    moreover have "packs (pack_entries d n es) (packable_entries d n es) (enc_entries n es)"
      using Cons.IH Cons.prems by simp
    ultimately show ?thesis using False packs_bind [OF _ packs_bind] by (simp add: p)
  qed
qed

lemma packs_guard: "(c \<Longrightarrow> packs f can xs) \<Longrightarrow> packs (\<lambda>b. if c then f b else Inl e) (c \<and> can) xs"
  by (cases c) (simp_all add: packs_def)

lemma pack_one_eq:
  "pack_one d v = (\<lambda>b. if d \<le> MAX_DEPTH then
     (case v of
        LNil \<Rightarrow> Inr (wb_nil b)
      | LInt x \<Rightarrow> Inr (wb_integer x b)
      | LReal x \<Rightarrow> Inr (wb_real x b)
      | LBool x \<Rightarrow> Inr (wb_boolean x b)
      | LStr s \<Rightarrow> Inr (wb_string s (int_size (length s)) b)
      | LPtr x \<Rightarrow> Inr (wb_pointer x b)
      | LTable arr entries \<Rightarrow>
          (let size = int_size (length arr)
           in case pack_values (d + 1) (nat size) arr (wb_table_size size b) of
                Inl e \<Rightarrow> Inl e
              | Inr b1 \<Rightarrow>
                  (case pack_entries (d + 1) size entries b1 of
                     Inl e \<Rightarrow> Inl e
                   | Inr b2 \<Rightarrow> Inr (wb_nil b2)))
      | LMeta entries failed \<Rightarrow>
          (case pack_entries (d + 1) 0 entries (wb_push [COMBINE_TYPE TYPE_TABLE 0] b) of
             Inl e \<Rightarrow> Inl e
           | Inr b1 \<Rightarrow> if failed then Inl Metamethod_Failed else Inr (wb_nil b1))
      | LOther \<Rightarrow> Inl Unsupported) else Inl Too_Deep)"
  by (rule ext) (simp add: pack_one.simps)

lemma packs_simple:
  assumes "writes f (value_bytes v)" "packable d v = (d \<le> MAX_DEPTH)" "\<And>b. d \<le> MAX_DEPTH \<Longrightarrow> pack_one d v b = Inr (f b)"
  shows "packs (pack_one d v) (packable d v) (value_bytes v)"
proof (cases "d \<le> MAX_DEPTH")
  case True
  then show ?thesis using assms by (simp add: packs_def writes_def)
next
  case False
  then show ?thesis using assms(2) by (simp add: packs_def pack_one_eq)
qed

lemma pack_one_content: "sane v \<Longrightarrow> packs (pack_one d v) (packable d v) (value_bytes v)"
proof (induction v arbitrary: d rule: sane.induct)
  case (1 arr es)
  have len: "length arr < 2 ^ 31" using "1.prems" by simp
  then have n: "int_size (length arr) = int (length arr)" by (rule int_size_small)
  have vals: "packs (pack_values (d + 1) (length arr) arr) (\<forall>v \<in> set arr. packable (d + 1) v) (concat (map value_bytes arr))"
    using "1.IH"(1) "1.prems" by (intro pack_values_content) simp
  have ents: "packs (pack_entries (d + 1) (int (length arr)) es) (packable_entries (d + 1) (int (length arr)) es)
      (enc_entries (int (length arr)) es)"
    using "1.IH"(2,3) "1.prems" by (intro pack_entries_content) simp
  have "packs (\<lambda>b. case pack_values (d + 1) (length arr) arr (wb_table_size (int (length arr)) b) of
        Inl e \<Rightarrow> Inl e
      | Inr b1 \<Rightarrow> (case pack_entries (d + 1) (int (length arr)) es b1 of Inl e \<Rightarrow> Inl e | Inr b2 \<Rightarrow> Inr (wb_nil b2)))
     ((\<forall>v \<in> set arr. packable (d + 1) v) \<and> packable_entries (d + 1) (int (length arr)) es) (value_bytes (LTable arr es))"
    using packs_after [OF writes_size [OF len] packs_bind [OF vals packs_finish [OF ents]]] unfolding enc_tables .
  then show ?case by (cases "d \<le> MAX_DEPTH") (simp_all add: pack_one_eq packable_tables n packs_fail Let_def)
next
  case (2 es failed)
  have ents: "packs (pack_entries (d + 1) 0 es) (packable_entries (d + 1) 0 es) (enc_entries 0 es)"
    using "2.IH" "2.prems" by (intro pack_entries_content) simp
  have "packs (\<lambda>b. case pack_entries (d + 1) 0 es (wb_push [COMBINE_TYPE TYPE_TABLE 0] b) of
        Inl e \<Rightarrow> Inl e
      | Inr b1 \<Rightarrow> if failed then Inl Metamethod_Failed else Inr (wb_nil b1))
     (\<not> failed \<and> packable_entries (d + 1) 0 es) (value_bytes (LMeta es failed))"
    using packs_after [OF writes_push packs_finish_meta [OF ents, of failed]] unfolding enc_tables .
  then show ?case by (cases "d \<le> MAX_DEPTH") (simp_all add: pack_one_eq packable_tables packs_fail)
next
  case (3 s)
  then show ?case
    by (intro packs_simple [where f = "wb_string s (int_size (length s))"]) (simp_all add: pack_one_eq writes_string)
next
  case 4
  then show ?case by (simp add: packs_def pack_one_eq)
next
  case 5
  show ?case by (rule packs_simple [where f = wb_nil]) (simp_all add: pack_one_eq wb_nil_def writes_push)
next
  case (6 x)
  show ?case
    by (rule packs_simple [where f = "wb_boolean x"]) (simp_all add: pack_one_eq wb_boolean_def writes_push del: of_bool_eq)
next
  case (7 x)
  show ?case by (rule packs_simple [where f = "wb_integer x"]) (simp_all add: pack_one_eq writes_integer)
next
  case (8 x)
  show ?case using writes_push_after [OF writes_push]
    by (intro packs_simple [where f = "wb_real x"]) (simp_all add: pack_one_eq writes_def wb_real_def)
next
  case (9 x)
  show ?case using writes_push_after [OF writes_push]
    by (intro packs_simple [where f = "wb_pointer x"]) (simp_all add: pack_one_eq writes_def wb_pointer_def)
qed

text \<open>Packing succeeds exactly on the values that can be packed and gives the bytes of the format.\<close>

lemma luaseri_pack_eq:
  assumes "\<And>v. v \<in> set args \<Longrightarrow> sane v"
  shows "if \<forall>v \<in> set args. packable 0 v then luaseri_pack args = Inr (concat (map value_bytes args))
         else \<exists>e. luaseri_pack args = Inl e"
proof -
  have init: "wb_ok wb_init" "content wb_init = []" by (simp_all add: wb_ok_def content_def wb_init_def)
  have "packs (pack_values 0 (length args) args) (\<forall>v \<in> set args. packable 0 v) (concat (map value_bytes args))"
    by (intro pack_values_content pack_one_content assms)
  note packed = this [unfolded packs_def, rule_format, OF init(1)]
  show ?thesis
  proof (cases "\<forall>v \<in> set args. packable 0 v")
    case True
    then obtain b where b: "pack_values 0 (length args) args wb_init = Inr b" "wb_ok b" "content b = concat (map value_bytes args)"
      using packed init by auto
    from b(2) have "seri (wb_full b @ [wb_current b]) (wb_len b) = content b" by (rule seri_wb)
    then show ?thesis using True b by (simp add: luaseri_pack_def)
  next
    case False
    then obtain e where "pack_values 0 (length args) args wb_init = Inl e" using packed unfolding if_not_P [OF False] by blast
    then show ?thesis using False by (simp add: luaseri_pack_def)
  qed
qed

subsection \<open>Reading what was written\<close>

definition rb_rest :: "read_block \<Rightarrow> bytes" where
  "rb_rest rb = drop (rb_ptr rb) (rb_buffer rb)"

definition skip :: "nat \<Rightarrow> read_block \<Rightarrow> read_block" where
  "skip n rb = rb\<lparr>rb_ptr := rb_ptr rb + n, rb_len := rb_len rb - int n\<rparr>"

text \<open>The reader stands before the bytes \<open>xs\<close>.\<close>

definition at :: "read_block \<Rightarrow> bytes \<Rightarrow> bool" where
  "at rb xs \<longleftrightarrow> rb_len rb = int (length (rb_rest rb)) \<and> (\<exists>ys. rb_rest rb = xs @ ys)"

lemma at_append: "at rb (xs @ ys) \<longleftrightarrow> at rb xs \<and> at (skip (length xs) rb) ys"
proof -
  have "rb_rest (skip n rb) = drop n (rb_rest rb)" for n
    by (simp add: rb_rest_def skip_def add.commute)
  then show ?thesis by (auto simp: at_def skip_def)
qed

lemma at_Cons: "at rb (x # xs) \<longleftrightarrow> at rb [x] \<and> at (skip 1 rb) xs"
  using at_append [of rb "[x]" xs] by simp

lemma skip_skip [simp]: "skip m (skip n rb) = skip (n + m) rb"
  by (simp add: skip_def)

lemma skip_0 [simp]: "skip 0 rb = rb"
  by (simp add: skip_def)

lemma rb_read_at: "at rb xs \<Longrightarrow> n = length xs \<Longrightarrow> rb_read rb n = Some (xs, skip n rb)"
  by (auto simp: rb_read_def at_def skip_def simp flip: rb_rest_def)

lemma length_le_n [simp]: "length (le_n n v) = n"
  by (simp add: le_n_def)

lemma le_n_Suc: "le_n (Suc n) v = ucast v # le_n n (drop_bit 8 v)"
  by (simp add: le_n_def upt_conv_Cons map_Suc_upt [symmetric] drop_bit_drop_bit del: upt_Suc) (simp add: algebra_simps)

lemma of_le_le_n: "of_le (le_n n v) = take_bit (8 * n) v"
proof (induction n arbitrary: v)
  case 0
  then show ?case by (simp add: le_n_def)
next
  case (Suc n)
  have "ucast (ucast v :: u8) OR push_bit 8 (take_bit (8 * n) (drop_bit 8 v)) = take_bit (8 + 8 * n) v"
    by (rule bit_word_eqI) (auto simp: bit_simps)
  then show ?case by (simp add: le_n_Suc Suc)
qed

lemma read_n_at: "at rb (le_n n v) \<Longrightarrow> read_n rb n = Inr (take_bit (8 * n) v, skip n rb)"
  by (simp add: read_n_def rb_read_at of_le_le_n)

subsection \<open>The codes\<close>

lemma take_bit_self: "unat w < 2 ^ n \<Longrightarrow> take_bit n w = (w :: 'a::len word)"
  by (simp add: word_unat_eq_iff unsigned_take_bit_eq take_bit_nat_eq_self)

lemma combine_type:
  assumes "t < 8" "v < 32"
  shows "COMBINE_TYPE t v AND 7 = t" "drop_bit 3 (COMBINE_TYPE t v) = v"
proof -
  have t: "take_bit 3 t = t" and v: "take_bit 5 v = v" using assms by (simp_all add: take_bit_self word_less_nat_alt)
  have seven: "w AND 7 = take_bit 3 w" for w :: u8 by (simp add: take_bit_eq_mask mask_eq_exp_minus_1)
  have "take_bit 3 (COMBINE_TYPE (take_bit 3 t) v) = take_bit 3 t"
    unfolding COMBINE_TYPE_def by (rule bit_word_eqI) (auto simp: bit_simps)
  then show "COMBINE_TYPE t v AND 7 = t" by (simp add: t seven)
  have "drop_bit 3 (COMBINE_TYPE (take_bit 3 t) (take_bit 5 v)) = take_bit 5 v"
    unfolding COMBINE_TYPE_def by (rule bit_word_eqI) (auto simp: bit_simps)
  then show "drop_bit 3 (COMBINE_TYPE t v) = v" by (simp add: t v)
qed

lemma small_word:
  assumes "0 \<le> sint v" "sint v < 2 ^ n" "n < 64"
  shows "take_bit n v = (v :: u64)"
proof -
  have "uint v = take_bit 64 (sint v)" by (simp add: uint_sint)
  moreover have "sint v < 2 ^ 63" using sint_lt [of v] by simp
  ultimately have "uint v = sint v" using assms(1) by (simp add: take_bit_int_eq_self)
  then have "unat v < 2 ^ n" using assms(2) by (simp add: unat_eq_nat_uint nat_less_iff)
  then show ?thesis by (rule take_bit_self)
qed

lemma scast_same:
  assumes "sint v = sint (ucast v :: u32)"
  shows "scast (ucast v :: u32) = (v :: u64)"
proof -
  have "word_of_int (sint v) = v" by simp
  then show ?thesis unfolding assms scast_eq .
qed

lemmas type_codes = TYPE_NIL_def TYPE_BOOLEAN_def TYPE_NUMBER_def TYPE_NUMBER_ZERO_def TYPE_NUMBER_BYTE_def
  TYPE_NUMBER_WORD_def TYPE_NUMBER_DWORD_def TYPE_NUMBER_QWORD_def TYPE_NUMBER_REAL_def TYPE_USERDATA_def
  TYPE_SHORT_STRING_def TYPE_LONG_STRING_def TYPE_TABLE_def

text \<open>The cookie of an integer, with the number of bytes that follow it.\<close>

definition int_cookie :: "u64 \<Rightarrow> u8" where
  "int_cookie v = drop_bit 3 (hd (enc_integer v))"

lemma int_cookie:
  "enc_integer v = COMBINE_TYPE TYPE_NUMBER (int_cookie v) # tl (enc_integer v)"
  "int_cookie v < 32" "int_cookie v \<noteq> TYPE_NUMBER_REAL"
  by (auto simp: int_cookie_def enc_integer_def type_codes combine_type)

lemma get_integer_at:
  assumes "at rb (tl (enc_integer v))"
  shows "get_integer rb (int_cookie v) = Inr (v, skip (length (enc_integer v) - 1) rb)"
proof -
  consider (zero) "v = 0" | (qword) "v \<noteq> 0" "sint v \<noteq> sint (ucast v :: u32)"
    | (byte) "v \<noteq> 0" "sint v = sint (ucast v :: u32)" "0 \<le> sint v" "sint v < 0x100"
    | (word) "v \<noteq> 0" "sint v = sint (ucast v :: u32)" "0 \<le> sint v" "\<not> sint v < 0x100" "sint v < 0x10000"
    | (dword) "v \<noteq> 0" "sint v = sint (ucast v :: u32)" "\<not> (0 \<le> sint v \<and> sint v < 0x10000)"
    by linarith
  then show ?thesis
  proof cases
    case zero
    then show ?thesis by (simp add: int_cookie_def enc_integer_def type_codes combine_type get_integer_def)
  next
    case qword
    then have "at rb (le_n 8 v)" "int_cookie v = TYPE_NUMBER_QWORD"
      using assms by (simp_all add: int_cookie_def enc_integer_def type_codes combine_type)
    then show ?thesis using qword read_n_at [of rb 8 v] take_bit_length_eq [of v] by (simp add: enc_integer_def type_codes get_integer_def)
  next
    case byte
    then have "at rb (le_n 1 v)" "int_cookie v = TYPE_NUMBER_BYTE"
      using assms by (simp_all add: int_cookie_def enc_integer_def type_codes combine_type)
    then show ?thesis using byte read_n_at [of rb 1 v] small_word [of v 8]
      by (simp add: enc_integer_def type_codes get_integer_def)
  next
    case word
    then have "at rb (le_n 2 v)" "int_cookie v = TYPE_NUMBER_WORD"
      using assms by (simp_all add: int_cookie_def enc_integer_def type_codes combine_type)
    then show ?thesis using word read_n_at [of rb 2 v] small_word [of v 16]
      by (simp add: enc_integer_def type_codes get_integer_def)
  next
    case dword
    then have "at rb (le_n 4 v)" "int_cookie v = TYPE_NUMBER_DWORD"
      using assms by (auto simp: int_cookie_def enc_integer_def type_codes combine_type)
    moreover have "scast (ucast (take_bit 32 v) :: u32) = v"
      using scast_same [OF dword(2)] take_bit_length_eq [of "ucast v :: u32"] by (simp add: unsigned_take_bit_eq)
    ultimately show ?thesis using dword read_n_at [of rb 4 v] by (auto simp: enc_integer_def type_codes get_integer_def)
  qed
qed

lemma unpack_one_at:
  "at rb (COMBINE_TYPE t c # xs) \<Longrightarrow> t < 8 \<Longrightarrow> c < 32 \<Longrightarrow> unpack_one (Suc f) rb = push_value f (skip 1 rb) t c"
  using rb_read_at [of rb "[COMBINE_TYPE t c]" 1] by (simp add: at_Cons [of rb "COMBINE_TYPE t c" xs] combine_type)

lemma get_buffer_at: "at rb s \<Longrightarrow> n = int (length s) \<Longrightarrow> get_buffer rb n = Inr (s, skip (length s) rb)"
  by (simp add: get_buffer_def rb_read_at)

lemma unat_of_nat_small: "n < 2 ^ LENGTH('a) \<Longrightarrow> unat (of_nat n :: 'a::len word) = n"
  by (simp add: unsigned_of_nat take_bit_nat_eq_self)

lemma get_long_string_at:
  assumes "at rb (le_n k (of_nat (length s)) @ s)" "length s < 2 ^ 31" "length s < 2 ^ (8 * k)" "k = 2 \<or> k = 4"
  shows "get_long_string rb (of_nat k) = Inr (s, skip (k + length s) rb)"
proof -
  have n: "unat (of_nat (length s) :: u64) = length s" using assms(2) by (simp add: unat_of_nat_small)
  then have "take_bit (8 * k) (of_nat (length s) :: u64) = of_nat (length s)" using assms(3) by (simp add: take_bit_self)
  then have "read_n rb k = Inr (of_nat (length s), skip k rb)" using assms(1) read_n_at [of rb k "of_nat (length s)"] by (simp add: at_append)
  moreover have "get_buffer (skip k rb) (int (length s)) = Inr (s, skip (k + length s) rb)"
    using assms(1) get_buffer_at [of "skip k rb" s] by (simp add: at_append)
  ultimately show ?thesis using assms(2,4) n by (auto simp: get_long_string_def int_size_small)
qed

lemma read_string_back:
  assumes "at rb (enc_string s)" "length s < 2 ^ 31"
  shows "unpack_one (Suc (Suc f)) rb = Inr (LStr s, skip (length (enc_string s)) rb)"
proof -
  consider (short) "length s < 32" | (word) "32 \<le> length s" "length s < 0x10000" | (long) "0x10000 \<le> length s" by linarith
  then show ?thesis
  proof cases
    case short
    then have u: "unat (of_nat (length s) :: u8) = length s" by (simp add: unat_of_nat_small)
    then have "uint (of_nat (length s) :: u8) = int (length s)" "(of_nat (length s) :: u8) < 32"
      using short by (simp_all add: word_less_nat_alt uint_nat)
    then show ?thesis
      using assms short get_buffer_at [of "skip 1 rb" s] unpack_one_at [of rb TYPE_SHORT_STRING "of_nat (length s)" s]
      by (simp add: enc_string_def at_Cons [of rb _ s] type_codes)
  next
    case word
    then show ?thesis
      using assms get_long_string_at [of "skip 1 rb" 2 s] unpack_one_at [of rb TYPE_LONG_STRING 2 "le_n 2 (of_nat (length s)) @ s"]
      by (simp add: enc_string_def at_Cons [of rb _ "_ @ s"] type_codes)
  next
    case long
    then show ?thesis
      using assms get_long_string_at [of "skip 1 rb" 4 s] unpack_one_at [of rb TYPE_LONG_STRING 4 "le_n 4 (of_nat (length s)) @ s"]
      by (simp add: enc_string_def at_Cons [of rb _ "_ @ s"] type_codes)
  qed
qed

definition size_cookie :: "nat \<Rightarrow> u8" where
  "size_cookie n = of_nat (min n 31)"

lemma size_cookie: "enc_size n = COMBINE_TYPE TYPE_TABLE (size_cookie n) # tl (enc_size n)" "size_cookie n < 32"
proof -
  have "unat (of_nat (min n 31) :: u8) = min n 31" by (rule unat_of_nat_small) (simp add: min_def)
  then show "size_cookie n < 32" by (simp add: size_cookie_def word_less_nat_alt)
qed (simp add: enc_size_def size_cookie_def min_def)

lemma get_array_size_at:
  assumes "at rb (tl (enc_size n))" "n < 2 ^ 31"
  shows "get_array_size rb (size_cookie n) = Inr (int n, skip (length (enc_size n) - 1) rb)"
proof (cases "n < 31")
  case True
  have "unat (of_nat n :: u8) = n" using True by (simp add: unat_of_nat_small)
  then have "size_cookie n \<noteq> 31" "uint (size_cookie n) = int n"
    using True by (auto simp: size_cookie_def uint_nat dest: arg_cong [of _ _ unat])
  then show ?thesis using True by (simp add: get_array_size_def MAX_COOKIE_def enc_size_def)
next
  case False
  obtain xs where e: "enc_integer (of_nat n) = COMBINE_TYPE TYPE_NUMBER (int_cookie (of_nat n)) # xs"
    using int_cookie(1) by blast
  let ?c = "int_cookie (of_nat n)"
  have "at rb (COMBINE_TYPE TYPE_NUMBER ?c # xs)" using assms(1) False by (simp add: enc_size_def e)
  then have "at rb [COMBINE_TYPE TYPE_NUMBER ?c]" and at: "at (skip 1 rb) xs" by (simp_all add: at_Cons [of _ _ xs])
  then have "rb_read rb 1 = Some ([COMBINE_TYPE TYPE_NUMBER ?c], skip 1 rb)" by (simp add: rb_read_at)
  moreover have "COMBINE_TYPE TYPE_NUMBER ?c AND 7 = TYPE_NUMBER" "drop_bit 3 (COMBINE_TYPE TYPE_NUMBER ?c) = ?c"
    using int_cookie(2) by (simp_all add: combine_type TYPE_NUMBER_def)
  moreover have "ucast (of_nat n :: u64) = (of_nat n :: u32)"
    using assms(2) by (simp add: word_unat_eq_iff unsigned_ucast_eq unsigned_of_nat take_bit_nat_eq_self)
  then have "sint (ucast (of_nat n :: u64) :: u32) = int n" using assms(2) int_size_small [of n] by (simp add: int_size_def)
  moreover have "get_integer (skip 1 rb) ?c = Inr (of_nat n, skip (Suc (length xs)) rb)"
    using get_integer_at [of "skip 1 rb" "of_nat n"] at by (simp add: e)
  ultimately show ?thesis
    using False int_cookie(3) [of "of_nat n"] by (simp add: get_array_size_def size_cookie_def MAX_COOKIE_def enc_size_def e)
qed

lemma enc_length: "packable d v \<Longrightarrow> 0 < length (value_bytes v)"
proof (cases v)
  case (LInt x)
  then show ?thesis using int_cookie(1) [of x] by (metis value_bytes.simps(3) length_greater_0_conv list.discI)
next
  case (LStr x)
  then show ?thesis by (simp add: enc_string_def)
next
  case (LTable arr es)
  then show ?thesis by (simp add: enc_tables)
next
  case (LMeta es failed)
  then show ?thesis by (simp add: enc_tables)
qed auto

text \<open>Reading back one value, a list of values, the entries of a table.\<close>

definition reads_back :: "nat \<Rightarrow> lval \<Rightarrow> bool" where
  "reads_back d v \<longleftrightarrow> packable d v \<and>
     (\<forall>f rb. at rb (value_bytes v) \<longrightarrow> 4 * length (value_bytes v) \<le> f \<longrightarrow> unpack_one f rb = Inr (canon v, skip (length (value_bytes v)) rb))"

lemma reads_backD:
  "reads_back d v \<Longrightarrow> at rb (value_bytes v) \<Longrightarrow> 4 * length (value_bytes v) \<le> f \<Longrightarrow>
   unpack_one f rb = Inr (canon v, skip (length (value_bytes v)) rb)"
  by (simp add: reads_back_def)

lemma reads_back_pos: "reads_back d v \<Longrightarrow> 0 < length (value_bytes v)"
  unfolding reads_back_def by (rule enc_length) (erule conjunct1)

lemma fuel_rest: "4 * (a + b) < Suc g \<Longrightarrow> 0 < a \<Longrightarrow> 4 * b < g" for a b g :: nat
  by simp

lemma fuel_table:
  "4 * (a + b + 2) \<le> f \<Longrightarrow> f = Suc (Suc (f - 2)) \<and> 4 * a < f - 2 \<and> 4 * b + 4 < f - 2" for a b f :: nat
  by presburger

lemma unpack_array_at:
  "(\<And>v. v \<in> set vs \<Longrightarrow> reads_back d v) \<Longrightarrow> at rb (concat (map value_bytes vs)) \<Longrightarrow>
   4 * length (concat (map value_bytes vs)) < f \<Longrightarrow>
   unpack_array f rb (length vs) = Inr (map canon vs, skip (length (concat (map value_bytes vs))) rb)"
proof (induction vs arbitrary: rb f)
  case Nil
  then show ?case by (cases f) simp_all
next
  case (Cons v vs)
  obtain g where f: "f = Suc g" using Cons.prems(3) by (cases f) simp_all
  have v: "reads_back d v" using Cons.prems(1) by simp
  then have pos: "0 < length (value_bytes v)" by (rule reads_back_pos)
  have at: "at rb (value_bytes v)" "at (skip (length (value_bytes v)) rb) (concat (map value_bytes vs))"
    using Cons.prems(2) by (simp_all add: at_append)
  have "unpack_one g rb = Inr (canon v, skip (length (value_bytes v)) rb)"
    using Cons.prems(3) f by (intro reads_backD [OF v at(1)]) simp
  moreover have "4 * length (concat (map value_bytes vs)) < g"
    using Cons.prems(3) pos unfolding f list.map concat.simps length_append by (rule fuel_rest)
  then have "unpack_array g (skip (length (value_bytes v)) rb) (length vs) =
      Inr (map canon vs, skip (length (concat (map value_bytes vs))) (skip (length (value_bytes v)) rb))"
    using Cons.prems(1) by (intro Cons.IH at(2)) simp_all
  ultimately show ?case by (simp add: f)
qed

lemma unpack_nil_at: "at rb [TYPE_NIL] \<Longrightarrow> 2 \<le> f \<Longrightarrow> unpack_one f rb = Inr (LNil, skip 1 rb)"
proof -
  assume at: "at rb [TYPE_NIL]" and "2 \<le> f"
  then obtain g where "f = Suc (Suc g)" by (metis add_2_eq_Suc le_Suc_ex)
  then show ?thesis using at unpack_one_at [of rb 0 0 "[]"] by (simp add: COMBINE_TYPE_def TYPE_NIL_def)
qed

lemma canon_key: "k \<noteq> LNil \<Longrightarrow> canon k \<noteq> LNil" "nan_key (canon k) = nan_key k"
  by (cases k; simp add: nan_key_def)+

definition live :: "int \<Rightarrow> (lval \<times> lval) list \<Rightarrow> (lval \<times> lval) list" where
  "live n es = map (\<lambda>p. (canon (fst p), canon (snd p))) (filter (\<lambda>p. \<not> in_array n (fst p)) es)"

lemma unpack_hash_at:
  "(\<And>p. p \<in> set es \<Longrightarrow> in_array n (fst p) \<or> reads_back d (fst p) \<and> reads_back d (snd p)) \<Longrightarrow>
   (\<And>p. p \<in> set es \<Longrightarrow> fst p \<noteq> LNil \<and> \<not> nan_key (fst p)) \<Longrightarrow>
   at rb (enc_entries n es @ [TYPE_NIL]) \<Longrightarrow> 4 * length (enc_entries n es) + 4 < f \<Longrightarrow>
   unpack_hash f rb = Inr (live n es, skip (length (enc_entries n es) + 1) rb)"
proof (induction es arbitrary: rb f)
  case Nil
  then obtain g where "f = Suc g" "2 \<le> g" by (cases f) simp_all
  then show ?case using Nil.prems(3) by (simp add: unpack_nil_at live_def)
next
  case (Cons p es)
  obtain k v where p: "p = (k, v)" by (cases p)
  show ?case
  proof (cases "in_array n k")
    case True
    then show ?thesis using Cons.IH [of rb f] Cons.prems by (simp add: p live_def)
  next
    case False
    obtain g where f: "f = Suc g" using Cons.prems(4) by (cases f) simp_all
    have k: "reads_back d k" and v: "reads_back d v" using Cons.prems(1) [of p] False by (simp_all add: p)
    have pos: "0 < length (value_bytes k)" using k by (rule reads_back_pos)
    have at: "at rb (value_bytes k)" "at (skip (length (value_bytes k)) rb) (value_bytes v)"
      "at (skip (length (value_bytes k) + length (value_bytes v)) rb) (enc_entries n es @ [TYPE_NIL])"
      using Cons.prems(3) False by (simp_all add: p at_append)
    have "unpack_one g rb = Inr (canon k, skip (length (value_bytes k)) rb)"
      using Cons.prems(4) f False by (intro reads_backD [OF k at(1)]) (simp add: p)
    moreover have "unpack_one g (skip (length (value_bytes k)) rb) = Inr (canon v, skip (length (value_bytes v)) (skip (length (value_bytes k)) rb))"
      using Cons.prems(4) f False by (intro reads_backD [OF v at(2)]) (simp add: p)
    moreover have "length (enc_entries n (p # es)) = length (value_bytes k) + length (value_bytes v) + length (enc_entries n es)"
      using False by (simp add: p)
    then have "4 * length (enc_entries n es) + 4 < g" using Cons.prems(4) pos unfolding f by linarith
    then have "unpack_hash g (skip (length (value_bytes k) + length (value_bytes v)) rb) = Inr (live n es,
        skip (length (enc_entries n es) + 1) (skip (length (value_bytes k) + length (value_bytes v)) rb))"
      using Cons.prems(1,2) by (intro Cons.IH at(3)) simp_all
    moreover have "k \<noteq> LNil" "\<not> nan_key k" using Cons.prems(2) [of p] by (simp_all add: p)
    ultimately show ?thesis using False by (simp add: f p live_def canon_key add.assoc)
  qed
qed

lemma reads_backI:
  "packable d v \<Longrightarrow>
   (\<And>f rb. at rb (value_bytes v) \<Longrightarrow> unpack_one (Suc (Suc f)) rb = Inr (canon v, skip (length (value_bytes v)) rb)) \<Longrightarrow> reads_back d v"
  unfolding reads_back_def
proof (intro conjI allI impI)
  fix f rb
  assume v: "packable d v" and step: "\<And>f rb. at rb (value_bytes v) \<Longrightarrow> unpack_one (Suc (Suc f)) rb = Inr (canon v, skip (length (value_bytes v)) rb)"
    and rb: "at rb (value_bytes v)" "4 * length (value_bytes v) \<le> f"
  have "f = Suc (Suc (f - 2))" using rb(2) enc_length [OF v] by linarith
  then show "unpack_one f rb = Inr (canon v, skip (length (value_bytes v)) rb)" using step [of rb "f - 2"] rb(1) by simp
qed

text \<open>A table: its header, the elements, the entries.\<close>

lemma push_table:
  "push_value (Suc f) rb TYPE_TABLE c =
     (case get_array_size rb c of
        Inl e \<Rightarrow> Inl e
      | Inr (array_size, rb1) \<Rightarrow>
          (case unpack_array f rb1 (nat array_size) of
             Inl e \<Rightarrow> Inl e
           | Inr (arr, rb2) \<Rightarrow>
               (case unpack_hash f rb2 of Inl e \<Rightarrow> Inl e | Inr (entries, rb3) \<Rightarrow> Inr (LTable arr entries, rb3))))"
  by (simp add: type_codes)

lemma unpack_table_at:
  assumes at: "at rb (enc_size (length arr) @ concat (map value_bytes arr) @ enc_entries n es @ [TYPE_NIL])"
    and arr: "\<And>v. v \<in> set arr \<Longrightarrow> reads_back d v" and len: "length arr < 2 ^ 31"
    and es: "\<And>p. p \<in> set es \<Longrightarrow> in_array n (fst p) \<or> reads_back d (fst p) \<and> reads_back d (snd p)"
    and keys: "\<And>p. p \<in> set es \<Longrightarrow> fst p \<noteq> LNil \<and> \<not> nan_key (fst p)"
    and f: "4 * length (enc_size (length arr) @ concat (map value_bytes arr) @ enc_entries n es @ [TYPE_NIL]) \<le> f"
  shows "unpack_one f rb = Inr (LTable (map canon arr) (live n es),
    skip (length (enc_size (length arr) @ concat (map value_bytes arr) @ enc_entries n es @ [TYPE_NIL])) rb)"
proof -
  let ?n = "length arr" and ?a = "length (concat (map value_bytes arr))"
  obtain xs where e: "enc_size ?n = COMBINE_TYPE TYPE_TABLE (size_cookie ?n) # xs" using size_cookie(1) by blast
  have "4 * (?a + length (enc_entries n es) + 2) \<le> f" using f by (simp add: e)
  moreover define g where "g = f - 2"
  ultimately have g: "f = Suc (Suc g)" "4 * ?a < g" "4 * length (enc_entries n es) + 4 < g"
    using fuel_table by blast+
  have "unpack_one f rb = push_value (Suc g) (skip 1 rb) TYPE_TABLE (size_cookie ?n)"
    using at unfolding e append_Cons g(1) by (rule unpack_one_at) (simp_all add: TYPE_TABLE_def size_cookie(2))
  moreover have "get_array_size (skip 1 rb) (size_cookie ?n) = Inr (int ?n, skip (length xs) (skip 1 rb))"
    using get_array_size_at [of "skip 1 rb" ?n] at len by (simp add: e at_Cons [of rb _ "_ @ _"] at_append)
  moreover have "unpack_array g (skip (1 + length xs) rb) ?n = Inr (map canon arr, skip ?a (skip (1 + length xs) rb))"
    using at by (intro unpack_array_at [OF arr] g) (simp_all add: e at_Cons [of rb _ "_ @ _"] at_append)
  moreover have "unpack_hash g (skip (1 + length xs + ?a) rb) =
      Inr (live n es, skip (length (enc_entries n es) + 1) (skip (1 + length xs + ?a) rb))"
    using at by (intro unpack_hash_at [OF es keys] g) (simp_all add: e at_Cons [of rb _ "_ @ _"] at_append add.assoc)
  ultimately show ?thesis by (simp add: push_table e ac_simps del: push_value.simps)
qed

declare unpack_one.simps(1) [simp del]

lemma reads_back: "packable d v \<Longrightarrow> sane v \<Longrightarrow> reads_back d v"
proof (induction v arbitrary: d rule: sane.induct)
  case (1 arr es)
  show ?case unfolding reads_back_def
  proof (intro conjI allI impI)
    fix f rb
    assume "at rb (value_bytes (LTable arr es))" "4 * length (value_bytes (LTable arr es)) \<le> f"
    then have "unpack_one f rb = Inr (LTable (map canon arr) (live (int (length arr)) es),
        skip (length (enc_size (length arr) @ concat (map value_bytes arr) @ enc_entries (int (length arr)) es @ [TYPE_NIL])) rb)"
      using "1.IH" "1.prems"
      by (intro unpack_table_at [where d = "d + 1"]) (auto simp: enc_tables packable_tables packable_entries_def)
    then show "unpack_one f rb = Inr (canon (LTable arr es), skip (length (value_bytes (LTable arr es))) rb)"
      by (simp add: enc_tables live_def)
  qed (rule "1.prems")
next
  case (2 es failed)
  show ?case unfolding reads_back_def
  proof (intro conjI allI impI)
    fix f rb
    assume "at rb (value_bytes (LMeta es failed))" "4 * length (value_bytes (LMeta es failed)) \<le> f"
    then have "unpack_one f rb = Inr (LTable (map canon []) (live 0 es),
        skip (length (enc_size (length ([] :: lval list)) @ concat (map value_bytes []) @ enc_entries 0 es @ [TYPE_NIL])) rb)"
      using "2.IH" "2.prems"
      by (intro unpack_table_at [where d = "d + 1"]) (auto simp: enc_tables packable_tables packable_entries_def enc_size_def)
    then show "unpack_one f rb = Inr (canon (LMeta es failed), skip (length (value_bytes (LMeta es failed))) rb)"
      by (simp add: enc_tables live_def enc_size_def not_in_array_0)
  qed (rule "2.prems")
next
  case (3 s)
  then show ?case by (intro reads_backI) (simp_all add: read_string_back)
next
  case 4
  then show ?case by simp
next
  case 5
  then show ?case by (intro reads_backI) (simp_all add: unpack_nil_at)
next
  case (6 x)
  have "unpack_one (Suc (Suc f)) rb = Inr (LBool x, skip 1 rb)" if "at rb [COMBINE_TYPE TYPE_BOOLEAN (if x then 1 else 0)]" for f rb
    using unpack_one_at [OF that] by (simp add: type_codes)
  with 6 show ?case by (intro reads_backI) simp_all
next
  case (7 x)
  have "unpack_one (Suc (Suc f)) rb = Inr (LInt x, skip (length (enc_integer x)) rb)" if at: "at rb (enc_integer x)" for f rb
  proof -
    obtain xs where e: "enc_integer x = COMBINE_TYPE TYPE_NUMBER (int_cookie x) # xs" using int_cookie(1) by blast
    have "at (skip 1 rb) xs" using at by (simp add: e at_Cons [of rb _ xs])
    then have "get_integer (skip 1 rb) (int_cookie x) = Inr (x, skip (length (enc_integer x)) rb)"
      using get_integer_at [of "skip 1 rb" x] by (simp add: e)
    moreover have "unpack_one (Suc (Suc f)) rb = push_value (Suc f) (skip 1 rb) TYPE_NUMBER (int_cookie x)"
      using at unfolding e by (rule unpack_one_at) (simp_all add: TYPE_NUMBER_def int_cookie(2))
    ultimately show ?thesis using int_cookie(3) by (simp add: type_codes)
  qed
  with 7 show ?case by (intro reads_backI) simp_all
next
  case (8 x)
  have "unpack_one (Suc (Suc f)) rb = Inr (LReal x, skip 9 rb)" if "at rb (COMBINE_TYPE TYPE_NUMBER TYPE_NUMBER_REAL # le_n 8 x)" for f rb
    using unpack_one_at [OF that] that read_n_at [of "skip 1 rb" 8 x] take_bit_length_eq [of x]
    by (simp add: type_codes get_real_def at_Cons [of rb _ "le_n 8 x"])
  with 8 show ?case by (intro reads_backI) simp_all
next
  case (9 x)
  have "unpack_one (Suc (Suc f)) rb = Inr (LPtr x, skip 9 rb)" if "at rb (TYPE_USERDATA # le_n 8 x)" for f rb
  proof -
    have "COMBINE_TYPE TYPE_USERDATA 0 = TYPE_USERDATA" by (simp add: COMBINE_TYPE_def)
    then show ?thesis
      using unpack_one_at [of rb TYPE_USERDATA 0 "le_n 8 x"] that read_n_at [of "skip 1 rb" 8 x] take_bit_length_eq [of x]
      by (simp add: type_codes get_pointer_def at_Cons [of rb _ "le_n 8 x"])
  qed
  with 9 show ?case by (intro reads_backI) simp_all
qed

lemma unpack_all_at:
  "(\<And>v. v \<in> set vs \<Longrightarrow> reads_back 0 v) \<Longrightarrow> rb_len rb = int (length (concat (map value_bytes vs))) \<Longrightarrow>
   at rb (concat (map value_bytes vs)) \<Longrightarrow> 4 * length (concat (map value_bytes vs)) < f \<Longrightarrow> unpack_all f rb = Inr (map canon vs)"
proof (induction vs arbitrary: rb f)
  case Nil
  then show ?case by (cases f) (simp_all add: rb_read_def)
next
  case (Cons v vs)
  obtain g where f: "f = Suc g" using Cons.prems(4) by (cases f) simp_all
  have v: "reads_back 0 v" using Cons.prems(1) by simp
  then have pos: "0 < length (value_bytes v)" by (rule reads_back_pos)
  have at: "at rb (value_bytes v)" "at (skip (length (value_bytes v)) rb) (concat (map value_bytes vs))"
    using Cons.prems(3) by (simp_all add: at_append)
  have "unpack_one (Suc g) rb = Inr (canon v, skip (length (value_bytes v)) rb)"
    using Cons.prems(4) f by (intro reads_backD [OF v at(1)]) simp
  moreover have "4 * length (concat (map value_bytes vs)) < g"
    using Cons.prems(4) pos unfolding f list.map concat.simps length_append by (rule fuel_rest)
  then have "unpack_all g (skip (length (value_bytes v)) rb) = Inr (map canon vs)"
    using Cons.prems(1,2) by (intro Cons.IH at(2)) (simp_all add: skip_def)
  moreover obtain x xs where "value_bytes v = x # xs" using pos by (cases "value_bytes v") simp_all
  then have "rb_read rb 1 \<noteq> None" using Cons.prems(2) by (simp add: rb_read_def)
  ultimately show ?case by (auto simp: f unpack_one.simps(1) split: prod.splits)
qed

text \<open>
  A read stays inside the buffer and moves the reader forward.
\<close>

definition rb_ok :: "read_block \<Rightarrow> bool" where
  "rb_ok rb \<longleftrightarrow> 0 \<le> rb_len rb \<and> rb_len rb + int (rb_ptr rb) \<le> int (length (rb_buffer rb))"

definition advances :: "nat \<Rightarrow> read_block \<Rightarrow> unpack_error + 'a \<times> read_block \<Rightarrow> bool" where
  "advances k rb r \<longleftrightarrow>
     (case r of Inl e \<Rightarrow> e \<noteq> Out_Of_Fuel
      | Inr (x, rb1) \<Rightarrow> rb_ok rb1 \<and> rb_buffer rb1 = rb_buffer rb \<and> rb_len rb1 + int k \<le> rb_len rb)"

lemma rb_read_inside:
  "rb_ok rb \<Longrightarrow> rb_read rb n = Some (bs, rb1) \<Longrightarrow>
   length bs = n \<and> rb_ok rb1 \<and> rb_buffer rb1 = rb_buffer rb \<and> rb_len rb1 + int n = rb_len rb"
  by (auto simp: rb_read_def rb_ok_def split: if_splits)

lemma advances_invalid [simp]: "advances k rb (invalid_stream rb1)"
  by (simp add: advances_def invalid_stream_def)

lemma advances_error: "e \<noteq> Out_Of_Fuel \<Longrightarrow> advances k rb (Inl e)"
  by (simp add: advances_def)

lemma advances_read_n:
  assumes "rb_ok rb"
  shows "advances n rb (read_n rb n)"
proof (cases "rb_read rb n")
  case (Some q)
  then obtain bs rb1 where "rb_read rb n = Some (bs, rb1)" by (cases q) simp
  then show ?thesis using rb_read_inside [OF assms, of n bs rb1] by (simp add: read_n_def advances_def)
qed (simp add: read_n_def)

lemma advances_map: "advances k rb r \<Longrightarrow> advances k rb (map_sum id (apfst f) r)"
  by (auto simp: advances_def split: sum.splits)

lemma advances_weaken: "advances k rb r \<Longrightarrow> j \<le> k \<Longrightarrow> advances j rb r"
  by (auto simp: advances_def split: sum.splits)

lemma advances_bind:
  assumes "advances k rb r" "\<And>x rb1. r = Inr (x, rb1) \<Longrightarrow> rb_ok rb1 \<Longrightarrow> rb_len rb1 + int k \<le> rb_len rb \<Longrightarrow> advances j rb1 (g x rb1)"
  shows "advances (k + j) rb (case r of Inl e \<Rightarrow> Inl e | Inr (x, rb1) \<Rightarrow> g x rb1)"
proof (cases r)
  case (Inl e)
  then show ?thesis using assms(1) by (simp add: advances_def)
next
  case (Inr q)
  then obtain x rb1 where q: "r = Inr (x, rb1)" by (cases q) auto
  then have "rb_ok rb1" "rb_len rb1 + int k \<le> rb_len rb" "rb_buffer rb1 = rb_buffer rb"
    using assms(1) by (simp_all add: advances_def)
  then show ?thesis using assms(2) [OF q] by (auto simp: q advances_def split: sum.splits)
qed

lemma advances_done: "rb_ok rb \<Longrightarrow> advances 0 rb (Inr (x, rb))"
  by (simp add: advances_def)

lemma advances_then: "advances k rb r \<Longrightarrow> advances k rb (case r of Inl e \<Rightarrow> Inl e | Inr (x, rb1) \<Rightarrow> Inr (g x, rb1))"
  by (auto simp: advances_def split: sum.splits)

lemma advances_get_integer: "rb_ok rb \<Longrightarrow> advances 0 rb (get_integer rb c)"
  unfolding get_integer_def
  using advances_read_n [of rb 1, THEN advances_weaken [of _ _ _ 0]] advances_read_n [of rb 2, THEN advances_weaken [of _ _ _ 0]]
    advances_read_n [of rb 8, THEN advances_weaken [of _ _ _ 0]]
    advances_read_n [of rb 4, THEN advances_weaken [of _ _ _ 0]]
  by (simp add: advances_done advances_then)

lemma advances_get_buffer: "rb_ok rb \<Longrightarrow> advances 0 rb (get_buffer rb n)"
proof (cases "n < 0 \<or> rb_read rb (nat n) = None")
  case False
  assume ok: "rb_ok rb"
  obtain p rb1 where "rb_read rb (nat n) = Some (p, rb1)" using False by auto
  then show ?thesis using False rb_read_inside [OF ok, of "nat n" p rb1] by (simp add: get_buffer_def advances_def)
qed (auto simp: get_buffer_def advances_error)

lemma advances_get_long_string: "rb_ok rb \<Longrightarrow> advances 0 rb (get_long_string rb c)"
  unfolding get_long_string_def
  using advances_bind [OF advances_read_n [of rb 2] advances_get_buffer, THEN advances_weaken [of _ _ _ 0]]
    advances_bind [OF advances_read_n [of rb 4] advances_get_buffer, THEN advances_weaken [of _ _ _ 0]]
  by simp

lemma advances_get_array_size:
  assumes "rb_ok rb"
  shows "advances 0 rb (get_array_size rb c)"
proof (cases "rb_read rb 1")
  case None
  then show ?thesis by (simp add: get_array_size_def advances_done assms)
next
  case (Some q)
  then obtain t rb1 where r: "rb_read rb 1 = Some (t, rb1)" by (cases q) simp
  note inside = rb_read_inside [OF assms r]
  have "advances 0 rb1 (case get_integer rb1 (drop_bit 3 (hd t)) of Inl e \<Rightarrow> Inl e | Inr (n, rb2) \<Rightarrow> Inr (sint (ucast n :: u32), rb2))"
    using inside by (simp add: advances_then advances_get_integer)
  then have "advances 0 rb (case get_integer rb1 (drop_bit 3 (hd t)) of Inl e \<Rightarrow> Inl e | Inr (n, rb2) \<Rightarrow> Inr (sint (ucast n :: u32), rb2))"
    using inside by (auto simp: advances_def split: sum.splits)
  then show ?thesis using r assms by (simp add: get_array_size_def advances_done Let_def)
qed

definition enough :: "nat \<Rightarrow> nat \<Rightarrow> read_block \<Rightarrow> bool" where
  "enough f k rb \<longleftrightarrow> rb_ok rb \<and> 4 * rb_len rb + int k \<le> int f"

lemma enough_less:
  "enough (Suc f) j rb \<Longrightarrow> rb_ok rb1 \<Longrightarrow> rb_len rb1 + int n \<le> rb_len rb \<Longrightarrow> k + 1 \<le> j + 4 * n \<Longrightarrow> enough f k rb1"
  by (simp add: enough_def)

lemma enough_0: "0 < k \<Longrightarrow> \<not> enough 0 k rb"
  by (simp add: enough_def rb_ok_def)

lemma unpack_advances:
  "(\<forall>rb. enough f 1 rb \<longrightarrow> advances 1 rb (unpack_one f rb)) \<and>
   (\<forall>rb t c. enough f 3 rb \<longrightarrow> advances 0 rb (push_value f rb t c)) \<and>
   (\<forall>rb n. enough f 2 rb \<longrightarrow> advances 0 rb (unpack_array f rb n)) \<and>
   (\<forall>rb. enough f 2 rb \<longrightarrow> advances 0 rb (unpack_hash f rb))"
proof (induction f)
  case 0
  then show ?case by (simp add: enough_0)
next
  case (Suc f)
  have one: "advances 1 rb (unpack_one f rb)" if "enough f 1 rb" for rb using Suc that by blast
  have push: "advances 0 rb (push_value f rb t c)" if "enough f 3 rb" for rb t c using Suc that by blast
  have array: "advances 0 rb (unpack_array f rb n)" if "enough f 2 rb" for rb n using Suc that by blast
  have hash: "advances 0 rb (unpack_hash f rb)" if "enough f 2 rb" for rb using Suc that by blast
  show ?case
  proof (intro conjI allI impI)
    fix rb
    assume e: "enough (Suc f) 1 rb"
    show "advances 1 rb (unpack_one (Suc f) rb)"
    proof (cases "rb_read rb 1")
      case (Some q)
      then obtain t rb1 where r: "rb_read rb 1 = Some (t, rb1)" by (cases q) simp
      then have inside: "rb_ok rb1" "rb_buffer rb1 = rb_buffer rb" "rb_len rb1 + 1 = rb_len rb"
        using rb_read_inside [of rb 1 t rb1] e by (simp_all add: enough_def)
      have "advances 0 rb1 (push_value f rb1 (hd t AND 7) (drop_bit 3 (hd t)))"
        by (rule push, rule enough_less [OF e, where n = 1]) (use inside in simp_all)
      then show ?thesis using r inside by (auto simp: unpack_one.simps(1) advances_def split: sum.splits)
    qed (simp add: unpack_one.simps(1))
  next
    fix rb t c
    assume e: "enough (Suc f) 3 rb"
    then have ok: "rb_ok rb" by (simp add: enough_def)
    have body: "advances 0 rb1 (case unpack_array f rb1 (nat n) of Inl e \<Rightarrow> Inl e
        | Inr (arr, rb2) \<Rightarrow> (case unpack_hash f rb2 of Inl e \<Rightarrow> Inl e | Inr (entries, rb3) \<Rightarrow> Inr (LTable arr entries, rb3)))"
      if "rb_ok rb1" "rb_len rb1 \<le> rb_len rb" for n rb1
      using that e
      by (intro advances_bind [where k = 0 and j = 0, simplified] array hash advances_done enough_less [OF e, where n = 0]) auto
    show "advances 0 rb (push_value (Suc f) rb t c)"
      using advances_bind [where k = 0 and j = 0, OF advances_get_array_size [OF ok] body]
      by (simp add: ok advances_done advances_map advances_get_integer advances_get_buffer advances_get_long_string
          get_real_def get_pointer_def advances_read_n [THEN advances_weaken])
  next
    fix rb n
    assume e: "enough (Suc f) 2 rb"
    have rest: "advances 0 rb1 (case unpack_array f rb1 (n - 1) of Inl e \<Rightarrow> Inl e | Inr (vs, rb2) \<Rightarrow> Inr (v # vs, rb2))"
      if "rb_ok rb1" "rb_len rb1 + 1 \<le> rb_len rb" for v rb1
      using that by (intro advances_bind [where k = 0 and j = 0, simplified] array advances_done enough_less [OF e, where n = 1]) auto
    have "advances 1 rb (unpack_one f rb)"
      by (rule one, rule enough_less [OF e, where n = 0]) (use e in \<open>simp_all add: enough_def\<close>)
    then have "advances (1 + 0) rb (case unpack_one f rb of Inl e \<Rightarrow> Inl e | Inr (v, rb1) \<Rightarrow>
        (case unpack_array f rb1 (n - 1) of Inl e \<Rightarrow> Inl e | Inr (vs, rb2) \<Rightarrow> Inr (v # vs, rb2)))"
      by (rule advances_bind) (use rest in auto)
    then show "advances 0 rb (unpack_array (Suc f) rb n)"
      using e by (auto simp: advances_done enough_def intro: advances_weaken)
  next
    fix rb
    assume e: "enough (Suc f) 2 rb"
    have tail: "advances 0 rb2 (case unpack_hash f rb2 of Inl e \<Rightarrow> Inl e | Inr (es, rb3) \<Rightarrow> Inr ((k, v) # es, rb3))"
      if "rb_ok rb2" "rb_len rb2 + 1 \<le> rb_len rb" for k v rb2
      using that by (intro advances_bind [where k = 0 and j = 0, simplified] hash advances_done enough_less [OF e, where n = 1]) auto
    have entry: "advances 0 rb1 (if k = LNil then Inr ([], rb1) else
         (case unpack_one f rb1 of Inl e \<Rightarrow> Inl e | Inr (v, rb2) \<Rightarrow>
            if nan_key k then Inl Nan_Index
            else (case unpack_hash f rb2 of Inl e \<Rightarrow> Inl e | Inr (es, rb3) \<Rightarrow> Inr ((k, v) # es, rb3))))"
      if rb1: "rb_ok rb1" "rb_len rb1 + 1 \<le> rb_len rb" for k rb1
    proof -
      have "advances 1 rb1 (unpack_one f rb1)" by (rule one, rule enough_less [OF e, where n = 1]) (use rb1 in simp_all)
      then have "advances (1 + 0) rb1 (case unpack_one f rb1 of Inl e \<Rightarrow> Inl e | Inr (v, rb2) \<Rightarrow>
            if nan_key k then Inl Nan_Index
            else (case unpack_hash f rb2 of Inl e \<Rightarrow> Inl e | Inr (es, rb3) \<Rightarrow> Inr ((k, v) # es, rb3)))"
        by (rule advances_bind) (use rb1 tail in \<open>auto intro: advances_error\<close>)
      then show ?thesis using rb1(1) by (auto simp: advances_done intro: advances_weaken)
    qed
    have "advances 1 rb (unpack_one f rb)"
      by (rule one, rule enough_less [OF e, where n = 0]) (use e in \<open>simp_all add: enough_def\<close>)
    then have "advances (1 + 0) rb (unpack_hash (Suc f) rb)"
      unfolding unpack_hash.simps by (rule advances_bind) (rule entry, simp_all)
    then show "advances 0 rb (unpack_hash (Suc f) rb)" by (rule advances_weaken) simp
  qed
qed

lemma int_size_le: "int_size n \<le> int n"
proof -
  have "int_size n = take_bit 32 (int n) - 2 ^ 32 * of_bool (bit (int n) 31)"
    unfolding int_size_def by (simp add: signed_of_nat signed_take_bit_eq_take_bit_minus)
  moreover have "take_bit 32 (int n) \<le> int n" by (rule take_bit_int_less_eq_self_iff [THEN iffD2]) simp
  ultimately show ?thesis by (simp add: of_bool_def)
qed

lemma unpack_all_fuel: "enough f 2 rb \<Longrightarrow> unpack_all f rb \<noteq> Inl Out_Of_Fuel"
proof (induction f arbitrary: rb)
  case 0
  then show ?case by (simp add: enough_0)
next
  case (Suc f)
  show ?case
  proof (cases "rb_read rb 1")
    case (Some q)
    then obtain t rb1 where r: "rb_read rb 1 = Some (t, rb1)" by (cases q) simp
    then have inside: "rb_ok rb1" "rb_len rb1 + 1 = rb_len rb"
      using rb_read_inside [of rb 1 t rb1] Suc.prems by (simp_all add: enough_def)
    have "advances 0 rb1 (push_value f rb1 (hd t AND 7) (drop_bit 3 (hd t)))"
      using unpack_advances [of f] enough_less [OF Suc.prems, of rb1 1 3] inside by simp
    moreover have "unpack_all f rb2 \<noteq> Inl Out_Of_Fuel" if "rb_ok rb2" "rb_len rb2 \<le> rb_len rb1" for rb2
      using that inside by (intro Suc.IH enough_less [OF Suc.prems, where n = 1]) simp_all
    ultimately show ?thesis using r by (auto simp: advances_def split: sum.splits)
  qed simp
qed

text \<open>Lengths are converted to \<^verbatim>\<open>int\<close> unchecked: of a string of 4 GB and three bytes only the
  three bytes are sent.\<close>

lemma long_string_cut:
  assumes "length s = 2 ^ 32 + 3"
  shows "luaseri_pack [LStr s] = Inr (COMBINE_TYPE TYPE_SHORT_STRING 3 # take 3 s)"
proof -
  let ?e = "[COMBINE_TYPE TYPE_SHORT_STRING 3] @ take 3 s" and ?b = "wb_string s 3 wb_init"
  have "int_size (length s) = 3" unfolding int_size_def assms by simp
  then have "luaseri_pack [LStr s] = Inr (seri (wb_full ?b @ [wb_current ?b]) (wb_len ?b))"
    by (simp add: luaseri_pack_def pack_one_eq MAX_DEPTH_def)
  moreover have "wb_string s 3 = (\<lambda>b. wb_push (take 3 s) (wb_push [COMBINE_TYPE TYPE_SHORT_STRING 3] b))"
    by (rule ext) (simp add: wb_string_def MAX_COOKIE_def)
  then have w: "writes (wb_string s 3) ?e" by (simp only:) (rule writes_push_after [OF writes_push])
  have "wb_ok wb_init" "content wb_init = []" by (simp_all add: wb_ok_def content_def wb_init_def)
  then have "wb_ok ?b" "content ?b = ?e" using w unfolding writes_def by auto
  then have "seri (wb_full ?b @ [wb_current ?b]) (wb_len ?b) = ?e" using seri_wb by simp
  ultimately show ?thesis by simp
qed

subsection \<open>Properties\<close>

text \<open>C32. What is packed is unpacked: for values of Lua (strings and tables below 2 GB, keys that are neither nil nor NaN)
  packing succeeds exactly when the nesting is at most 32 deep, no value has a type that cannot be sent and no
  \<^verbatim>\<open>__pairs\<close> iteration fails; unpacking the bytes, on any stream below 2 GB, then gives the same values in the same
  order, a table by its elements and its other entries.\<close>

theorem seri_roundtrip:
  assumes "\<And>v. v \<in> set args \<Longrightarrow> sane v"
  shows "case luaseri_pack args of
      Inl e \<Rightarrow> \<not> list_all (packable 0) args
    | Inr s \<Rightarrow> list_all (packable 0) args \<and> (length s \<ge> 2 ^ 31 \<or> luaseri_unpack (Buffer s) = Inr (map canon args))"
proof (cases "\<forall>v \<in> set args. packable 0 v")
  case True
  let ?s = "concat (map value_bytes args)"
  have s: "luaseri_pack args = Inr ?s" using luaseri_pack_eq [of args] True assms by simp
  have "luaseri_unpack (Buffer ?s) = Inr (map canon args)" if len: "length ?s < 2 ^ 31"
  proof (cases "?s = []")
    case True
    moreover have "args = []" using calculation \<open>\<forall>v \<in> set args. packable 0 v\<close> enc_length
      by (cases args) fastforce+
    ultimately show ?thesis by (simp add: int_size_small)
  next
    case False
    have "at (rball_init ?s (int (length ?s))) ?s" by (simp add: at_def rball_init_def rb_rest_def)
    then have "unpack_all (unpack_fuel ?s) (rball_init ?s (int (length ?s))) = Inr (map canon args)"
      by (intro unpack_all_at reads_back) (use True assms in \<open>simp_all add: rball_init_def unpack_fuel_def\<close>)
    then show ?thesis using False len by (auto simp: int_size_small Let_def)
  qed
  then show ?thesis
    using s True by (cases "length ?s < 2 ^ 31") (simp_all add: list_all_iff not_less del: luaseri_unpack.simps length_concat)
next
  case False
  have "if \<forall>v \<in> set args. packable 0 v then luaseri_pack args = Inr (concat (map value_bytes args))
    else \<exists>e. luaseri_pack args = Inl e"
    by (rule luaseri_pack_eq) (rule assms)
  then obtain e where "luaseri_pack args = Inl e" unfolding if_not_P [OF False] by blast
  then show ?thesis using False by (simp add: list_all_iff)
qed

theorem seri_roundtrip_witness:
  "case luaseri_pack [LTable [LInt 7] [(LInt 1, LInt 7), (LStr [107], LBool True)]] of
      Inl e \<Rightarrow> \<not> list_all (packable 0) [LTable [LInt 7] [(LInt 1, LInt 7), (LStr [107], LBool True)]]
    | Inr s \<Rightarrow> list_all (packable 0) [LTable [LInt 7] [(LInt 1, LInt 7), (LStr [107], LBool True)]] \<and>
       (length s \<ge> 2 ^ 31 \<or> luaseri_unpack (Buffer s) =
         Inr (map canon [LTable [LInt 7] [(LInt 1, LInt 7), (LStr [107], LBool True)]]))"
  by (rule seri_roundtrip) (auto simp: nan_key_def)

text \<open>C33. Unpacking ends on every stream, hostile ones included: the recursion needs no more steps than four times the
  length of the stream, so that the result is a list of values or one of the raised errors.\<close>

theorem unpack_total: "luaseri_unpack stream \<noteq> Inl Out_Of_Fuel"
proof (cases stream)
  case (Buffer buffer)
  let ?len = "int_size (length buffer)"
  show ?thesis
  proof (cases "?len < 0")
    case True
    have "unpack_all (Suc n) (rball_init buffer ?len) = Inr []" for n
      using True by (simp add: rball_init_def rb_read_def)
    then have "unpack_all (unpack_fuel buffer) (rball_init buffer ?len) = Inr []"
      unfolding unpack_fuel_def by (metis add_Suc_right numeral_nat(2))
    then show ?thesis using True by (simp add: Buffer Let_def)
  next
    case False
    then have "enough (unpack_fuel buffer) 2 (rball_init buffer ?len)"
      using int_size_le [of "length buffer"] by (simp add: enough_def rb_ok_def rball_init_def unpack_fuel_def)
    then show ?thesis using unpack_all_fuel by (simp add: Buffer Let_def)
  qed
qed simp_all

end
