(* ===== verification/Hashid.thy ===== *)
theory Hashid
  imports Prelude
begin

text \<open>
  The table from socket numbers to the slots of connections, \<^verbatim>\<open>hashid.h\<close>: an array of nodes, each
  in one of the chains of a hash table. A pointer to a node is its index. \<open>None\<close> is a failed
  \<^verbatim>\<open>assert\<close>, an overflow of \<^verbatim>\<open>int\<close>, an index outside an array or a chain without an end.
\<close>

record hashid_node =
  hn_id :: int
  hn_next :: "nat option"

record hashid =
  hi_hashmod :: nat
  hi_cap :: nat
  hi_count :: nat
  hi_id :: "hashid_node list"
  hi_hash :: "nat option list"

partial_function (option) hashcap_loop :: "nat \<Rightarrow> nat \<Rightarrow> nat option" where
  "hashcap_loop maximum hashcap =
     (if hashcap < maximum then do { c_assert (hashcap * 2 \<le> int_max); hashcap_loop maximum (hashcap * 2) } else Some hashcap)"

declare hashcap_loop.simps [code]

definition free_node :: hashid_node where
  "free_node = \<lparr>hn_id = -1, hn_next = None\<rparr>"

definition hashid_init :: "nat \<Rightarrow> hashid option" where
  "hashid_init maximum = do {
     hashcap \<leftarrow> hashcap_loop maximum 16;
     Some \<lparr>hi_hashmod = hashcap - 1, hi_cap = maximum, hi_count = 0, hi_id = replicate maximum free_node,
       hi_hash = replicate hashcap None\<rparr>
   }"

definition hashid_clear :: "hashid \<Rightarrow> hashid" where
  "hashid_clear hi = \<lparr>hi_hashmod = 1, hi_cap = 0, hi_count = 0, hi_id = [], hi_hash = []\<rparr>"

text \<open>\<^verbatim>\<open>id & hi->hashmod\<close>\<close>

definition bucket :: "hashid \<Rightarrow> int \<Rightarrow> nat" where
  "bucket hi fd = nat (fd AND int (hi_hashmod hi))"

definition node_at :: "hashid \<Rightarrow> nat \<Rightarrow> hashid_node option" where
  "node_at hi c = (if c < length (hi_id hi) then Some (hi_id hi ! c) else None)"

definition set_node :: "nat \<Rightarrow> hashid_node \<Rightarrow> hashid \<Rightarrow> hashid" where
  "set_node c n hi = hi\<lparr>hi_id := (hi_id hi)[c := n]\<rparr>"

partial_function (option) lookup_loop :: "hashid \<Rightarrow> int \<Rightarrow> nat option \<Rightarrow> int option" where
  "lookup_loop hi fd c =
     (case c of
        None \<Rightarrow> Some (-1)
      | Some i \<Rightarrow> do { n \<leftarrow> node_at hi i; if hn_id n = fd then Some (int i) else lookup_loop hi fd (hn_next n) })"

declare lookup_loop.simps [code]

definition hashid_lookup :: "hashid \<Rightarrow> int \<Rightarrow> int option" where
  "hashid_lookup hi fd = do {
     c_assert (bucket hi fd < length (hi_hash hi));
     lookup_loop hi fd (hi_hash hi ! bucket hi fd)
   }"

text \<open>The loop of \<^verbatim>\<open>hashid_remove\<close> from the node \<open>c\<close> on: the node that was unlinked.\<close>

partial_function (option) remove_loop :: "hashid \<Rightarrow> int \<Rightarrow> nat \<Rightarrow> (nat option \<times> hashid) option" where
  "remove_loop hi fd c = do {
     n \<leftarrow> node_at hi c;
     case hn_next n of
       None \<Rightarrow> Some (None, hi)
     | Some temp \<Rightarrow> do {
         m \<leftarrow> node_at hi temp;
         if hn_id m = fd then Some (Some temp, set_node c (n\<lparr>hn_next := hn_next m\<rparr>) hi) else remove_loop hi fd temp
       }
   }"

declare remove_loop.simps [code]

definition hashid_remove :: "hashid \<Rightarrow> int \<Rightarrow> (int \<times> hashid) option" where
  "hashid_remove hi fd = do {
     let h = bucket hi fd;
     c_assert (h < length (hi_hash hi));
     (r, hi1) \<leftarrow>
       (case hi_hash hi ! h of
          None \<Rightarrow> Some (None, hi)
        | Some c \<Rightarrow> do {
            n \<leftarrow> node_at hi c;
            if hn_id n = fd then Some (Some c, hi\<lparr>hi_hash := (hi_hash hi)[h := hn_next n]\<rparr>) else remove_loop hi fd c
          });
     case r of
       None \<Rightarrow> Some (-1, hi1)
     | Some c \<Rightarrow> Some (int c, (set_node c free_node hi1)\<lparr>hi_count := hi_count hi1 - 1\<rparr>)
   }"

text \<open>The search for a free slot; \<open>n\<close> are left.\<close>

fun insert_scan :: "hashid \<Rightarrow> int \<Rightarrow> nat \<Rightarrow> nat \<Rightarrow> nat option option" where
  "insert_scan hi fd i 0 = Some None"
| "insert_scan hi fd i (Suc n) = do {
     c_assert (0 \<le> int i + fd \<and> int i + fd \<le> int int_max);
     let index = nat (int i + fd) mod hi_cap hi;
     m \<leftarrow> node_at hi index;
     if hn_id m = -1 then Some (Some index) else insert_scan hi fd (i + 1) n
   }"

definition hashid_insert :: "hashid \<Rightarrow> int \<Rightarrow> (nat \<times> hashid) option" where
  "hashid_insert hi fd = do {
     r \<leftarrow> insert_scan hi fd 0 (hi_cap hi);
     c \<leftarrow> r;
     m \<leftarrow> node_at hi c;
     c_assert (hn_next m = None);
     let h = bucket hi fd;
     c_assert (h < length (hi_hash hi));
     Some (c, (set_node c \<lparr>hn_id = fd, hn_next = hi_hash hi ! h\<rparr> hi)\<lparr>hi_count := hi_count hi + 1, hi_hash := (hi_hash hi)[h := Some c]\<rparr>)
   }"

definition hashid_full :: "hashid \<Rightarrow> bool" where
  "hashid_full hi \<longleftrightarrow> hi_count hi = hi_cap hi"

subsection \<open>The table is a finite map\<close>

definition nid :: "hashid \<Rightarrow> nat \<Rightarrow> int" where
  "nid hi i = hn_id (hi_id hi ! i)"

definition nnext :: "hashid \<Rightarrow> nat \<Rightarrow> nat option" where
  "nnext hi i = hn_next (hi_id hi ! i)"

definition used :: "hashid \<Rightarrow> nat set" where
  "used hi = {i. i < hi_cap hi \<and> nid hi i \<noteq> -1}"

text \<open>\<open>hash_at hi h xs\<close>: the chain \<open>h\<close> has the nodes \<open>xs\<close>, which are the used ones with that hash.\<close>

definition hash_at :: "hashid \<Rightarrow> nat \<Rightarrow> nat list \<Rightarrow> bool" where
  "hash_at hi h xs \<longleftrightarrow> chain (nnext hi) (hi_hash hi ! h) xs \<and> distinct xs \<and> set xs = {i \<in> used hi. bucket hi (nid hi i) = h}"

definition hi_ok :: "hashid \<Rightarrow> bool" where
  "hi_ok hi \<longleftrightarrow> length (hi_id hi) = hi_cap hi \<and> length (hi_hash hi) = hi_hashmod hi + 1 \<and>
     (\<forall>h < length (hi_hash hi). \<exists>xs. hash_at hi h xs) \<and>
     (\<forall>i < hi_cap hi. nid hi i = -1 \<longrightarrow> nnext hi i = None) \<and>
     inj_on (nid hi) (used hi) \<and> (\<forall>i \<in> used hi. 0 \<le> nid hi i) \<and> hi_count hi = card (used hi)"

text \<open>The slot of a socket number.\<close>

definition slot_map :: "hashid \<Rightarrow> int \<Rightarrow> nat option" where
  "slot_map hi fd = (if fd = -1 then None else find (\<lambda>i. nid hi i = fd) [0..<hi_cap hi])"

lemma slot_map_None: "slot_map hi fd = None \<longleftrightarrow> fd \<notin> nid hi ` used hi"
  by (auto simp: slot_map_def find_None_iff used_def)

lemma slot_map_Some: "hi_ok hi \<Longrightarrow> slot_map hi fd = Some i \<longleftrightarrow> i \<in> used hi \<and> nid hi i = fd"
proof
  assume "slot_map hi fd = Some i"
  then show "i \<in> used hi \<and> nid hi i = fd" by (auto simp: slot_map_def find_Some_iff used_def split: if_splits)
next
  assume ok: "hi_ok hi" and i: "i \<in> used hi \<and> nid hi i = fd"
  then obtain j where j: "slot_map hi fd = Some j" using slot_map_None [of hi fd] by (cases "slot_map hi fd") auto
  then have "j \<in> used hi \<and> nid hi j = fd" by (auto simp: slot_map_def find_Some_iff used_def split: if_splits)
  then have "j = i" using ok i by (auto simp: hi_ok_def dest: inj_onD)
  then show "slot_map hi fd = Some i" using j by simp
qed

lemma bucket_less: "hi_ok hi \<Longrightarrow> bucket hi fd < length (hi_hash hi)"
proof -
  assume ok: "hi_ok hi"
  have "fd AND int (hi_hashmod hi) \<le> int (hi_hashmod hi)" by (rule AND_upper2) simp
  then have "bucket hi fd \<le> hi_hashmod hi" unfolding bucket_def by (simp add: nat_le_iff)
  then show ?thesis using ok by (simp add: hi_ok_def)
qed

lemma hash_at_ex: "hi_ok hi \<Longrightarrow> \<exists>xs. hash_at hi (bucket hi fd) xs"
  using bucket_less [of hi fd] unfolding hi_ok_def by blast

lemma lookup_loop_chain:
  "chain (nnext hi) c xs \<Longrightarrow> set xs \<subseteq> {..<length (hi_id hi)} \<Longrightarrow>
   lookup_loop hi fd c = Some (case find (\<lambda>i. nid hi i = fd) xs of None \<Rightarrow> -1 | Some i \<Rightarrow> int i)"
proof (induction xs arbitrary: c)
  case Nil
  then show ?case by (simp add: lookup_loop.simps)
next
  case (Cons x xs)
  then have "lookup_loop hi fd (nnext hi x) = Some (case find (\<lambda>i. nid hi i = fd) xs of None \<Rightarrow> -1 | Some i \<Rightarrow> int i)" by simp
  then show ?case using Cons.prems by (simp add: lookup_loop.simps [of hi fd "Some x"] node_at_def nid_def nnext_def)
qed

lemma used_bound: "hi_ok hi \<Longrightarrow> used hi \<subseteq> {..<length (hi_id hi)}"
  by (auto simp: hi_ok_def used_def)

lemma lookup_correct:
  assumes "hi_ok hi"
  shows "hashid_lookup hi fd = Some (case slot_map hi fd of None \<Rightarrow> -1 | Some i \<Rightarrow> int i)"
proof -
  obtain xs where xs: "hash_at hi (bucket hi fd) xs" using hash_at_ex [OF assms] by blast
  then have set: "set xs = {i \<in> used hi. bucket hi (nid hi i) = bucket hi fd}" by (simp add: hash_at_def)
  have "find (\<lambda>i. nid hi i = fd) xs = slot_map hi fd"
  proof (cases "find (\<lambda>i. nid hi i = fd) xs")
    case None
    then have "fd \<notin> nid hi ` used hi" using set by (auto simp: find_None_iff)
    then show ?thesis using None slot_map_None [of hi fd] by simp
  next
    case (Some i)
    then have "i \<in> set xs" "nid hi i = fd" by (auto simp: find_Some_iff)
    then have "slot_map hi fd = Some i" using slot_map_Some [OF assms] set by simp
    then show ?thesis using Some by simp
  qed
  moreover have "set xs \<subseteq> {..<length (hi_id hi)}" using set used_bound [OF assms] by auto
  ultimately show ?thesis
    using lookup_loop_chain [of hi "hi_hash hi ! bucket hi fd" xs fd] xs bucket_less [OF assms]
    by (simp add: hashid_lookup_def hash_at_def)
qed

subsection \<open>Insertion\<close>

lemma insert_scan_found:
  "insert_scan hi fd i n = Some (Some c) \<Longrightarrow> c < length (hi_id hi) \<and> nid hi c = -1"
  by (induction n arbitrary: i) (auto simp: node_at_def nid_def Let_def split: if_splits)

lemma insert_scan_total:
  "length (hi_id hi) = hi_cap hi \<Longrightarrow> 0 < hi_cap hi \<Longrightarrow> 0 \<le> fd \<Longrightarrow> fd + int i + int n \<le> int int_max + 1 \<Longrightarrow>
   \<exists>r. insert_scan hi fd i n = Some r \<and> (r = None \<longrightarrow> (\<forall>j. i \<le> j \<longrightarrow> j < i + n \<longrightarrow> nid hi ((j + nat fd) mod hi_cap hi) \<noteq> -1))"
proof (induction n arbitrary: i)
  case (Suc n)
  have idx: "nat (int i + fd) mod hi_cap hi = (i + nat fd) mod hi_cap hi" using Suc.prems(3) by (simp add: nat_add_distrib)
  have bound: "(i + nat fd) mod hi_cap hi < length (hi_id hi)" using Suc.prems(1,2) by simp
  show ?case
  proof (cases "nid hi ((i + nat fd) mod hi_cap hi) = -1")
    case True
    then show ?thesis using Suc.prems idx bound by (simp add: node_at_def nid_def)
  next
    case False
    obtain r where r: "insert_scan hi fd (i + 1) n = Some r"
      "r = None \<longrightarrow> (\<forall>j. i + 1 \<le> j \<longrightarrow> j < i + 1 + n \<longrightarrow> nid hi ((j + nat fd) mod hi_cap hi) \<noteq> -1)"
      using Suc.IH [of "i + 1"] Suc.prems by auto
    have "insert_scan hi fd i (Suc n) = Some r" using Suc.prems idx bound False r(1) by (simp add: node_at_def nid_def)
    moreover have "r = None \<longrightarrow> (\<forall>j. i \<le> j \<longrightarrow> j < i + Suc n \<longrightarrow> nid hi ((j + nat fd) mod hi_cap hi) \<noteq> -1)"
      using r(2) False by (metis Suc_eq_plus1 add_Suc_right add_Suc_shift le_neq_implies_less less_eq_Suc_le)
    ultimately show ?thesis by blast
  qed
qed simp

text \<open>From any start the scan comes to every slot.\<close>

lemma scan_reaches: "k < cap \<Longrightarrow> \<exists>j < cap. (j + s) mod cap = (k :: nat)"
proof -
  assume k: "k < cap"
  let ?j = "(k + (cap - s mod cap)) mod cap"
  have "(?j + s) mod cap = (k + (cap - s mod cap) + s mod cap) mod cap" by (simp add: mod_add_left_eq mod_add_right_eq)
  also have "k + (cap - s mod cap) + s mod cap = k + cap" using k mod_less_divisor [of cap s] by linarith
  also have "(k + cap) mod cap = k" using k by simp
  finally show ?thesis using k by (intro exI [of _ ?j]) simp
qed

lemma not_full_free:
  assumes "hi_ok hi" "\<not> hashid_full hi"
  shows "\<exists>k < hi_cap hi. nid hi k = -1" "0 < hi_cap hi" "hi_count hi < hi_cap hi"
proof -
  have "used hi \<subseteq> {..<hi_cap hi}" by (auto simp: used_def)
  then have "card (used hi) \<le> hi_cap hi" using card_mono [of "{..<hi_cap hi}" "used hi"] by simp
  then show less: "hi_count hi < hi_cap hi" using assms by (simp add: hashid_full_def hi_ok_def)
  show ex: "\<exists>k < hi_cap hi. nid hi k = -1"
  proof (rule ccontr)
    assume "\<not> ?thesis"
    then have "used hi = {..<hi_cap hi}" by (auto simp: used_def)
    then show False using less assms(1) by (simp add: hi_ok_def)
  qed
  then show "0 < hi_cap hi" by auto
qed

lemma bucket_cong: "hi_hashmod hi' = hi_hashmod hi \<Longrightarrow> bucket hi' = bucket hi"
  by (rule ext) (simp add: bucket_def)

lemma insert_correct:
  assumes ok: "hi_ok hi" and full: "\<not> hashid_full hi" and fd: "0 \<le> fd" "fd + int (hi_cap hi) \<le> int int_max + 1"
    and new: "slot_map hi fd = None"
  shows "\<exists>c hi'. hashid_insert hi fd = Some (c, hi') \<and> hi_ok hi' \<and> c < hi_cap hi \<and> c \<notin> used hi \<and>
    slot_map hi' = (slot_map hi)(fd \<mapsto> c) \<and> hi_cap hi' = hi_cap hi \<and> hi_count hi' = hi_count hi + 1"
proof -
  let ?h = "bucket hi fd"
  note free = not_full_free [OF ok full]
  have len: "length (hi_id hi) = hi_cap hi" using ok by (simp add: hi_ok_def)
  obtain r where r: "insert_scan hi fd 0 (hi_cap hi) = Some r"
    "r = None \<longrightarrow> (\<forall>j. 0 \<le> j \<longrightarrow> j < 0 + hi_cap hi \<longrightarrow> nid hi ((j + nat fd) mod hi_cap hi) \<noteq> -1)"
    using insert_scan_total [OF len free(2) fd(1), of 0 "hi_cap hi"] fd(2) by auto
  obtain k where k: "k < hi_cap hi" "nid hi k = -1" using free(1) by blast
  obtain j where "j < hi_cap hi" "(j + nat fd) mod hi_cap hi = k" using scan_reaches [OF k(1)] by blast
  then have "r \<noteq> None" using r(2) k(2) by auto
  then obtain c where c: "insert_scan hi fd 0 (hi_cap hi) = Some (Some c)" using r(1) by auto
  then have cfree: "c < hi_cap hi" "nid hi c = -1" using insert_scan_found [OF c] len by auto
  then have next_c: "nnext hi c = None" using ok by (simp add: hi_ok_def)
  define hi' where "hi' = (set_node c \<lparr>hn_id = fd, hn_next = hi_hash hi ! ?h\<rparr> hi)\<lparr>hi_count := hi_count hi + 1, hi_hash := (hi_hash hi)[?h := Some c]\<rparr>"
  have ins: "hashid_insert hi fd = Some (c, hi')"
    using c cfree next_c len bucket_less [OF ok] by (simp add: hashid_insert_def node_at_def nnext_def Let_def hi'_def)
  have nid: "nid hi' i = (if i = c then fd else nid hi i)" and nnext: "nnext hi' i = (if i = c then hi_hash hi ! ?h else nnext hi i)" for i
    using cfree(1) len by (simp_all add: nid_def nnext_def set_node_def nth_list_update hi'_def)
  have fields: "hi_cap hi' = hi_cap hi" "hi_count hi' = hi_count hi + 1" "hi_hash hi' = (hi_hash hi)[?h := Some c]"
    "hi_hashmod hi' = hi_hashmod hi" "length (hi_id hi') = length (hi_id hi)" by (simp_all add: hi'_def set_node_def)
  have b: "bucket hi' = bucket hi" by (rule bucket_cong) (simp add: fields)
  have cu: "c \<notin> used hi" using cfree(2) by (simp add: used_def)
  have used: "used hi' = insert c (used hi)" using cfree(1) fd(1) by (auto simp: used_def nid fields)
  have newid: "fd \<notin> nid hi ` used hi" using new slot_map_None by blast
  have chains: "\<exists>xs. hash_at hi' h xs" if h: "h < length (hi_hash hi')" for h
  proof -
    have "h < length (hi_hash hi)" using h by (simp add: fields)
    then obtain xs where xs: "hash_at hi h xs" using ok unfolding hi_ok_def by blast
    then have cx: "c \<notin> set xs" using cu by (auto simp: hash_at_def)
    have eq: "chain (nnext hi') p xs = chain (nnext hi) p xs" for p by (rule chain_cong) (use cx in \<open>auto simp: nnext\<close>)
    show ?thesis
    proof (cases "h = ?h")
      case True
      then have "chain (nnext hi') (hi_hash hi' ! h) (c # xs)"
        using xs eq bucket_less [OF ok] by (simp add: hash_at_def nnext fields)
      moreover have "set (c # xs) = {i \<in> used hi'. bucket hi' (nid hi' i) = h}"
        using xs cu True unfolding used b by (auto simp: hash_at_def nid)
      ultimately show ?thesis using xs cx by (intro exI [of _ "c # xs"]) (simp add: hash_at_def)
    next
      case False
      moreover have "set xs = {i \<in> used hi'. bucket hi' (nid hi' i) = h}"
        using xs cu False unfolding used b by (auto simp: hash_at_def nid)
      ultimately show ?thesis using xs eq by (intro exI [of _ xs]) (simp add: hash_at_def fields)
    qed
  qed
  have "inj_on (nid hi') (used hi')" using ok cu newid unfolding used by (auto simp: hi_ok_def inj_on_def nid)
  moreover have "card (used hi') = hi_count hi + 1"
  proof -
    have "finite (used hi)" by (rule finite_subset [of _ "{..<hi_cap hi}"]) (auto simp: used_def)
    then show ?thesis using ok cu unfolding used by (simp add: hi_ok_def)
  qed
  ultimately have ok': "hi_ok hi'"
    using ok chains fd(1) cu unfolding hi_ok_def used by (auto simp: nid nnext fields)
  have "slot_map hi' = (slot_map hi)(fd \<mapsto> c)"
  proof (rule ext, rule option_eqI)
    fix x a
    show "slot_map hi' x = Some a \<longleftrightarrow> ((slot_map hi)(fd \<mapsto> c)) x = Some a"
      using newid cu unfolding slot_map_Some [OF ok'] used by (auto simp: slot_map_Some [OF ok] nid)
  qed
  then show ?thesis using ins ok' cfree(1) cu by (intro exI [of _ c] exI [of _ hi']) (simp add: fields)
qed

subsection \<open>Removal\<close>

lemma chain_split: "chain f p (ys @ t # zs) \<Longrightarrow> ys \<noteq> [] \<Longrightarrow> f (last ys) = Some t"
  by (induction ys arbitrary: p) (auto split: if_splits)

text \<open>Unlinking a node that has a predecessor.\<close>

lemma chain_unlink:
  "distinct (ys @ t # zs) \<Longrightarrow> ys \<noteq> [] \<Longrightarrow> chain f p (ys @ t # zs) \<Longrightarrow> chain (f(last ys := f t)) p (ys @ zs)"
proof (induction ys arbitrary: p)
  case (Cons y ys)
  show ?case
  proof (cases "ys = []")
    case True
    have "chain (f(y := f t)) (f t) zs = chain f (f t) zs" by (rule chain_cong) (use Cons.prems(1) in auto)
    then show ?thesis using Cons.prems True by (simp del: fun_upd_apply add: fun_upd_same)
  next
    case False
    have "chain (f(last ys := f t)) (f y) (ys @ zs)" using Cons.prems False by (intro Cons.IH) auto
    moreover have "y \<noteq> last ys" using Cons.prems False by auto
    ultimately show ?thesis using Cons.prems False by (simp del: fun_upd_apply add: fun_upd_other)
  qed
qed simp

lemma remove_loop_chain:
  "chain (nnext hi) (Some c) (c # xs) \<Longrightarrow> set (c # xs) \<subseteq> {..<length (hi_id hi)} \<Longrightarrow>
   remove_loop hi fd c = Some (case dropWhile (\<lambda>i. nid hi i \<noteq> fd) xs of
       [] \<Rightarrow> (None, hi)
     | t # zs \<Rightarrow>
         let l = last (c # takeWhile (\<lambda>i. nid hi i \<noteq> fd) xs)
         in (Some t, set_node l ((hi_id hi ! l)\<lparr>hn_next := nnext hi t\<rparr>) hi))"
proof (induction xs arbitrary: c)
  case Nil
  then show ?case by (simp add: remove_loop.simps node_at_def nnext_def)
next
  case (Cons x xs)
  show ?case
  proof (cases "nid hi x = fd")
    case True
    then show ?thesis
      using Cons.prems by (simp add: remove_loop.simps [of hi fd c] node_at_def nnext_def nid_def Let_def)
  next
    case False
    have "remove_loop hi fd c = remove_loop hi fd x"
      using Cons.prems False by (simp add: remove_loop.simps [of hi fd c] node_at_def nnext_def nid_def)
    moreover have "takeWhile (\<lambda>i. nid hi i \<noteq> fd) (x # xs) = x # takeWhile (\<lambda>i. nid hi i \<noteq> fd) xs"
      "dropWhile (\<lambda>i. nid hi i \<noteq> fd) (x # xs) = dropWhile (\<lambda>i. nid hi i \<noteq> fd) xs" using False by simp_all
    moreover have "last (c # x # ys) = last (x # ys)" for ys :: "nat list" by simp
    ultimately show ?thesis using Cons.IH [of x] Cons.prems by (simp only:) simp
  qed
qed

text \<open>The table without the slot \<open>i\<close>, whose chain was \<open>ys @ i # zs\<close>.\<close>

lemma unlinked_ok:
  assumes ok: "hi_ok hi" and i: "i \<in> used hi" and at: "hash_at hi (bucket hi (nid hi i)) (ys @ i # zs)"
    and fields: "hi_cap hi' = hi_cap hi" "hi_count hi' = hi_count hi - 1" "hi_hashmod hi' = hi_hashmod hi"
      "length (hi_id hi') = length (hi_id hi)"
    and hash: "hi_hash hi' = (if ys = [] then (hi_hash hi)[bucket hi (nid hi i) := nnext hi i] else hi_hash hi)"
    and nid: "nid hi' = (nid hi)(i := -1)"
    and nnext: "nnext hi' = (if ys = [] then nnext hi else (nnext hi)(last ys := nnext hi i))(i := None)"
  shows "hi_ok hi'" "slot_map hi' = (slot_map hi)(nid hi i := None)"
proof -
  let ?h = "bucket hi (nid hi i)"
  have b: "bucket hi' = bucket hi" by (rule bucket_cong) (simp add: fields)
  have used: "used hi' = used hi - {i}" by (auto simp: used_def fields nid)
  have idi: "nid hi i \<noteq> -1" using i by (simp add: used_def)
  have inj: "inj_on (nid hi) (used hi)" using ok by (simp add: hi_ok_def)
  have in_chain: "set (ys @ i # zs) = {j \<in> used hi. bucket hi (nid hi j) = ?h}" and dist: "distinct (ys @ i # zs)"
    using at by (simp_all add: hash_at_def)
  have chains: "\<exists>xs. hash_at hi' h xs" if h: "h < length (hi_hash hi)" for h
  proof (cases "h = ?h")
    case True
    have "chain (nnext hi') (hi_hash hi' ! h) (ys @ zs)"
    proof (cases "ys = []")
      case True
      have "chain (nnext hi') (nnext hi i) zs = chain (nnext hi) (nnext hi i) zs"
        by (rule chain_cong) (use dist True in \<open>auto simp: nnext\<close>)
      then show ?thesis using at True \<open>h = ?h\<close> h by (simp add: hash_at_def hash)
    next
      case False
      then show ?thesis
        using at True dist chain_unlink [OF dist False, of "nnext hi" "hi_hash hi ! ?h"] by (simp add: hash_at_def hash nnext)
    qed
    moreover have "set (ys @ zs) = set (ys @ i # zs) - {i}" using dist by auto
    then have "set (ys @ zs) = {j \<in> used hi'. bucket hi' (nid hi' j) = h}" unfolding in_chain used b by (auto simp: nid True)
    ultimately show ?thesis using dist unfolding hash_at_def by (intro exI [of _ "ys @ zs"]) auto
  next
    case False
    then obtain xs where xs: "hash_at hi h xs" using ok h unfolding hi_ok_def by blast
    then have off: "j \<notin> set (ys @ i # zs)" if "j \<in> set xs" for j using that False unfolding in_chain by (simp add: hash_at_def)
    have "chain (nnext hi') (hi_hash hi ! h) xs = chain (nnext hi) (hi_hash hi ! h) xs"
    proof (rule chain_cong)
      fix j assume "j \<in> set xs"
      then have "j \<noteq> i" "ys \<noteq> [] \<Longrightarrow> j \<noteq> last ys" using off [of j] by (auto simp: last_in_set)
      then show "nnext hi' j = nnext hi j" by (auto simp: nnext)
    qed
    moreover have "hi_hash hi' ! h = hi_hash hi ! h" using False by (simp add: hash)
    moreover have "set xs = {j \<in> used hi'. bucket hi' (nid hi' j) = h}"
      using xs False unfolding used b by (auto simp: hash_at_def nid)
    ultimately show ?thesis using xs by (auto simp: hash_at_def)
  qed
  have fin: "finite (used hi)" by (rule finite_subset [of _ "{..<hi_cap hi}"]) (auto simp: used_def)
  have lastu: "last ys \<in> used hi" if "ys \<noteq> []" using in_chain last_in_set [OF that] by auto
  have "\<forall>j < hi_cap hi'. nid hi' j = -1 \<longrightarrow> nnext hi' j = None"
  proof (intro allI impI)
    fix j assume j: "j < hi_cap hi'" "nid hi' j = -1"
    show "nnext hi' j = None"
    proof (cases "j = i")
      case False
      then have n: "nid hi j = -1" using j(2) by (simp add: nid)
      then have "ys \<noteq> [] \<Longrightarrow> j \<noteq> last ys" using lastu by (auto simp: used_def)
      then show ?thesis using False n j(1) ok by (auto simp: nnext hi_ok_def fields)
    qed (simp add: nnext)
  qed
  moreover have "inj_on (nid hi') (used hi')" unfolding used using inj by (auto simp: inj_on_def nid)
  moreover have "hi_count hi' = card (used hi')" unfolding used using ok i fin by (simp add: hi_ok_def fields)
  moreover have "length (hi_hash hi') = length (hi_hash hi)" by (simp add: hash)
  ultimately show ok': "hi_ok hi'" using ok chains unfolding hi_ok_def by (auto simp: fields used nid)
  show "slot_map hi' = (slot_map hi)(nid hi i := None)"
  proof (rule ext, rule option_eqI)
    fix x a
    show "slot_map hi' x = Some a \<longleftrightarrow> ((slot_map hi)(nid hi i := None)) x = Some a"
      using inj i unfolding slot_map_Some [OF ok'] used by (auto simp: slot_map_Some [OF ok] nid dest: inj_onD)
  qed
qed

lemma hash_at_split:
  assumes "hash_at hi h xs" "i \<in> set xs" "inj_on (nid hi) (used hi)"
  shows "xs = takeWhile (\<lambda>j. nid hi j \<noteq> nid hi i) xs @ i # tl (dropWhile (\<lambda>j. nid hi j \<noteq> nid hi i) xs)"
    "dropWhile (\<lambda>j. nid hi j \<noteq> nid hi i) xs = i # tl (dropWhile (\<lambda>j. nid hi j \<noteq> nid hi i) xs)"
proof -
  let ?d = "dropWhile (\<lambda>j. nid hi j \<noteq> nid hi i) xs"
  have ne: "?d \<noteq> []" using assms(2) by (auto simp: dropWhile_eq_Nil_conv)
  then have "nid hi (hd ?d) = nid hi i" using hd_dropWhile [of "\<lambda>j. nid hi j \<noteq> nid hi i" xs] by simp
  moreover have "hd ?d \<in> set xs" using set_dropWhileD [OF hd_in_set [OF ne]] by simp
  ultimately have "hd ?d = i" using assms by (auto simp: hash_at_def dest: inj_onD)
  then show d: "?d = i # tl ?d" using ne by (cases ?d) auto
  show "xs = takeWhile (\<lambda>j. nid hi j \<noteq> nid hi i) xs @ i # tl ?d" by (simp only: d [symmetric] takeWhile_dropWhile_id)
qed

lemma remove_absent:
  assumes ok: "hi_ok hi" and "slot_map hi fd = None"
  shows "hashid_remove hi fd = Some (-1, hi)"
proof -
  let ?h = "bucket hi fd"
  obtain xs where xs: "hash_at hi ?h xs" using hash_at_ex [OF ok] by blast
  have abs: "\<forall>i \<in> set xs. nid hi i \<noteq> fd" using assms(2) xs slot_map_None [of hi fd] by (auto simp: hash_at_def)
  have bound: "set xs \<subseteq> {..<length (hi_id hi)}" using xs used_bound [OF ok] by (auto simp: hash_at_def)
  show ?thesis
  proof (cases xs)
    case Nil
    then show ?thesis using xs bucket_less [OF ok] by (simp add: hashid_remove_def hash_at_def Let_def)
  next
    case (Cons c ys)
    then have hd: "hi_hash hi ! ?h = Some c" and ch: "chain (nnext hi) (Some c) (c # ys)" using xs by (auto simp: hash_at_def)
    have dw: "dropWhile (\<lambda>i. nid hi i \<noteq> fd) ys = []" using abs Cons by (simp add: dropWhile_eq_Nil_conv)
    have "remove_loop hi fd c = Some (None, hi)" using remove_loop_chain [OF ch, of fd, unfolded dw] bound Cons by simp
    then show ?thesis
      using hd bucket_less [OF ok] bound abs Cons by (simp add: hashid_remove_def node_at_def nid_def Let_def)
  qed
qed

lemma remove_present:
  assumes ok: "hi_ok hi" and fd: "slot_map hi fd = Some i"
  shows "\<exists>hi'. hashid_remove hi fd = Some (int i, hi') \<and> hi_ok hi' \<and> slot_map hi' = (slot_map hi)(fd := None) \<and>
    hi_cap hi' = hi_cap hi \<and> hi_count hi' = hi_count hi - 1"
proof -
  have i: "i \<in> used hi" "nid hi i = fd" using slot_map_Some [OF ok] fd by simp_all
  let ?h = "bucket hi fd"
  obtain xs where xs: "hash_at hi ?h xs" using hash_at_ex [OF ok] by blast
  have inj: "inj_on (nid hi) (used hi)" and len: "length (hi_id hi) = hi_cap hi" using ok by (simp_all add: hi_ok_def)
  have bound: "set xs \<subseteq> {..<length (hi_id hi)}" using xs used_bound [OF ok] by (auto simp: hash_at_def)
  have "i \<in> set xs" using xs i by (simp add: hash_at_def)
  note split = hash_at_split [OF xs this inj, unfolded i(2)]
  define ys zs where "ys = takeWhile (\<lambda>j. nid hi j \<noteq> fd) xs" and "zs = tl (dropWhile (\<lambda>j. nid hi j \<noteq> fd) xs)"
  have xs_eq: "xs = ys @ i # zs" using split(1) by (simp add: ys_def zs_def)
  have ib: "i < length (hi_id hi)" using bound xs_eq by auto
  define hi1 where "hi1 = (if ys = [] then hi\<lparr>hi_hash := (hi_hash hi)[?h := nnext hi i]\<rparr>
      else set_node (last ys) ((hi_id hi ! last ys)\<lparr>hn_next := nnext hi i\<rparr>) hi)"
  define hi' where "hi' = (set_node i free_node hi1)\<lparr>hi_count := hi_count hi1 - 1\<rparr>"
  have "hashid_remove hi fd = Some (int i, hi')"
  proof (cases "ys = []")
    case True
    then have "hi_hash hi ! ?h = Some i" using xs xs_eq by (simp add: hash_at_def)
    then show ?thesis
      using True bucket_less [OF ok] ib i(2) by (simp add: hashid_remove_def node_at_def nid_def nnext_def hi1_def hi'_def Let_def)
  next
    case False
    then obtain c ws where c: "ys = c # ws" by (cases ys) auto
    then have hd: "hi_hash hi ! ?h = Some c" and ch: "chain (nnext hi) (Some c) (c # ws @ i # zs)" using xs xs_eq by (auto simp: hash_at_def)
    have "\<forall>j \<in> set ys. nid hi j \<noteq> fd" unfolding ys_def using set_takeWhileD by fast
    then have "nid hi c \<noteq> fd" "takeWhile (\<lambda>j. nid hi j \<noteq> fd) (ws @ i # zs) = ws"
      "dropWhile (\<lambda>j. nid hi j \<noteq> fd) (ws @ i # zs) = i # zs"
      using c i(2) by (simp_all add: takeWhile_append2 dropWhile_append2)
    then show ?thesis
      using remove_loop_chain [OF ch, of fd] bound hd bucket_less [OF ok] c xs_eq False
      by (simp add: hashid_remove_def node_at_def nid_def hi1_def hi'_def Let_def)
  qed
  moreover have lastb: "last ys < length (hi_id hi)" if "ys \<noteq> []" using bound xs_eq last_in_set [OF that] by auto
  have fields: "hi_cap hi' = hi_cap hi" "hi_count hi' = hi_count hi - 1" "hi_hashmod hi' = hi_hashmod hi"
    "length (hi_id hi') = length (hi_id hi)" "hi_hash hi' = (if ys = [] then (hi_hash hi)[bucket hi (nid hi i) := nnext hi i] else hi_hash hi)"
    by (simp_all add: hi'_def hi1_def set_node_def i(2))
  have ne: "last ys \<noteq> i" if "ys \<noteq> []" using xs xs_eq last_in_set [OF that] by (auto simp: hash_at_def)
  have nid: "nid hi' = (nid hi)(i := -1)"
    using ib lastb by (intro ext) (auto simp: nid_def hi'_def hi1_def set_node_def free_node_def nth_list_update)
  have nnext: "nnext hi' = (if ys = [] then nnext hi else (nnext hi)(last ys := nnext hi i))(i := None)"
    using ib lastb ne by (intro ext) (auto simp: nnext_def hi'_def hi1_def set_node_def free_node_def nth_list_update)
  have "hash_at hi (bucket hi (nid hi i)) (ys @ i # zs)" using xs xs_eq i(2) by simp
  note unlinked_ok [OF ok i(1) this fields(1-4) fields(5) nid nnext]
  ultimately show ?thesis using fields(1,2) i(2) by auto
qed

subsection \<open>Creation\<close>

lemma hashcap_loop_some:
  "0 < c \<Longrightarrow> m \<le> 2 ^ 30 \<Longrightarrow> \<exists>r. hashcap_loop m c = Some r \<and> m \<le> r \<and> 0 < r"
proof (induction "m - c" arbitrary: c rule: less_induct)
  case less
  show ?case
  proof (cases "c < m")
    case True
    then show ?thesis using less.hyps [of "c * 2"] less.prems by (simp add: hashcap_loop.simps [of m c])
  qed (use less.prems in \<open>simp add: hashcap_loop.simps [of m c]\<close>)
qed

lemma hashcap_loop_pos:
  assumes "hashcap_loop m c = Some r" "0 < c"
  shows "0 < r"
proof -
  have "0 < c \<longrightarrow> 0 < r"
    by (rule hashcap_loop.raw_induct [where P = "\<lambda>m c r. 0 < c \<longrightarrow> 0 < r", OF _ assms(1)]) (auto split: if_splits)
  then show ?thesis using assms(2) by simp
qed

lemma hashid_init_ok:
  assumes "hashid_init m = Some hi"
  shows "hi_ok hi \<and> slot_map hi = Map.empty \<and> hi_cap hi = m"
proof -
  obtain c where c: "hashcap_loop m 16 = Some c" using assms by (auto simp: hashid_init_def bind_Some_iff)
  then have pos: "0 < c" by (rule hashcap_loop_pos) simp
  have hi: "hi = \<lparr>hi_hashmod = c - 1, hi_cap = m, hi_count = 0, hi_id = replicate m free_node, hi_hash = replicate c None\<rparr>"
    using assms c by (simp add: hashid_init_def)
  have fields: "hi_hashmod hi = c - 1" "hi_cap hi = m" "hi_count hi = 0" "length (hi_id hi) = m" "hi_hash hi = replicate c None"
    by (simp_all add: hi)
  have nid: "nid hi i = -1" "nnext hi i = None" if "i < m" for i
    using that by (simp_all add: nid_def nnext_def free_node_def hi)
  then have used: "used hi = {}" by (auto simp: used_def fields)
  have "hash_at hi h []" if "h < c" for h using that by (simp add: hash_at_def used fields)
  then have "hi_ok hi" using pos nid by (auto simp: hi_ok_def used fields)
  moreover have "slot_map hi = Map.empty"
  proof
    fix x show "slot_map hi x = None" unfolding slot_map_None used by simp
  qed
  ultimately show ?thesis by (simp add: fields)
qed

lemma hashid_init_some: "m \<le> 2 ^ 30 \<Longrightarrow> \<exists>hi. hashid_init m = Some hi"
  using hashcap_loop_some [of 16 m] by (auto simp: hashid_init_def)

subsection \<open>The contract\<close>

text \<open>The answer for a slot that may be missing.\<close>

definition slot_answer :: "nat option \<Rightarrow> int" where
  "slot_answer so = (case so of None \<Rightarrow> -1 | Some i \<Rightarrow> int i)"

lemma slot_answer_simps [simp]: "slot_answer None = -1" "slot_answer (Some i) = int i"
  by (simp_all add: slot_answer_def)

text \<open>
  What the owner of the slots relies on: the table is a map from numbers to slots, no two numbers
  share a slot, and an insertion that is admitted takes a slot that is free.
\<close>

locale slots =
  fixes lookup :: "'t \<Rightarrow> int \<Rightarrow> int option"
    and remove :: "'t \<Rightarrow> int \<Rightarrow> (int \<times> 't) option"
    and insertion :: "'t \<Rightarrow> int \<Rightarrow> (nat \<times> 't) option"
    and slot :: "'t \<Rightarrow> int \<Rightarrow> nat option"
    and capacity :: "'t \<Rightarrow> nat"
    and admits :: "'t \<Rightarrow> int \<Rightarrow> bool"
    and ok :: "'t \<Rightarrow> bool"
  assumes lookup: "ok t \<Longrightarrow> lookup t fd = Some (slot_answer (slot t fd))"
    and remove: "ok t \<Longrightarrow> \<exists>t'. remove t fd = Some (slot_answer (slot t fd), t') \<and> ok t' \<and> capacity t' = capacity t \<and>
      slot t' = (slot t)(fd := None)"
    and insertion: "ok t \<Longrightarrow> admits t fd \<Longrightarrow> slot t fd = None \<Longrightarrow>
      \<exists>c t'. insertion t fd = Some (c, t') \<and> ok t' \<and> capacity t' = capacity t \<and> c \<notin> ran (slot t) \<and> slot t' = (slot t)(fd \<mapsto> c)"
    and slot_bound: "ok t \<Longrightarrow> slot t fd = Some i \<Longrightarrow> i < capacity t"
    and slot_inj: "ok t \<Longrightarrow> slot t a = Some i \<Longrightarrow> slot t b = Some i \<Longrightarrow> a = b"
begin

lemma lookup_Some: "ok t \<Longrightarrow> lookup t fd = Some (int i) \<longleftrightarrow> slot t fd = Some i"
  by (cases "slot t fd") (auto simp: lookup)

lemma lookup_nonneg: "ok t \<Longrightarrow> lookup t fd = Some r \<Longrightarrow> 0 \<le> r \<longleftrightarrow> slot t fd = Some (nat r)"
  by (cases "slot t fd") (auto simp: lookup)

lemma remove_some: "ok t \<Longrightarrow> remove t fd = Some (r, t') \<Longrightarrow>
   ok t' \<and> capacity t' = capacity t \<and> r = slot_answer (slot t fd) \<and> slot t' = (slot t)(fd := None)"
  using remove [of t fd] by auto

lemma inserted_then_removed:
  assumes "ok t" "admits t fd" "slot t fd = None"
  shows "\<exists>c t' t''. insertion t fd = Some (c, t') \<and> lookup t' fd = Some (int c) \<and> remove t' fd = Some (int c, t'') \<and>
    ok t'' \<and> slot t'' = slot t"
proof -
  obtain c t' where t': "insertion t fd = Some (c, t')" "ok t'" "slot t' = (slot t)(fd \<mapsto> c)" using insertion [OF assms] by blast
  then show ?thesis using lookup [OF t'(2), of fd] remove [OF t'(2), of fd] assms(3) by (auto simp: fun_upd_idem)
qed

end

definition admits_id :: "hashid \<Rightarrow> int \<Rightarrow> bool" where
  "admits_id hi fd \<longleftrightarrow> \<not> hashid_full hi \<and> 0 \<le> fd \<and> fd + int (hi_cap hi) \<le> int int_max + 1"

interpretation hs: slots hashid_lookup hashid_remove hashid_insert slot_map hi_cap admits_id hi_ok
proof
  fix t fd assume ok: "hi_ok t"
  show "hashid_lookup t fd = Some (slot_answer (slot_map t fd))" by (simp add: lookup_correct [OF ok] slot_answer_def)
  show "\<exists>t'. hashid_remove t fd = Some (slot_answer (slot_map t fd), t') \<and> hi_ok t' \<and> hi_cap t' = hi_cap t \<and>
    slot_map t' = (slot_map t)(fd := None)"
  proof (cases "slot_map t fd")
    case None
    then show ?thesis using remove_absent [OF ok None] ok by (simp add: fun_upd_idem)
  next
    case (Some i)
    then show ?thesis using remove_present [OF ok Some] by auto
  qed
  assume "admits_id t fd" "slot_map t fd = None"
  then show "\<exists>c t'. hashid_insert t fd = Some (c, t') \<and> hi_ok t' \<and> hi_cap t' = hi_cap t \<and> c \<notin> ran (slot_map t) \<and>
    slot_map t' = (slot_map t)(fd \<mapsto> c)"
    using insert_correct [OF ok, of fd] by (fastforce simp: admits_id_def ran_def slot_map_Some [OF ok])
next
  fix t fd i assume "hi_ok t" "slot_map t fd = Some i"
  then show "i < hi_cap t" using slot_map_Some by (auto simp: used_def)
next
  fix t a i b assume "hi_ok t" "slot_map t a = Some i" "slot_map t b = Some i"
  then show "a = b" using slot_map_Some by auto
qed

text \<open>A table that is not full cannot take a number close to the largest one: the scan adds to it.\<close>

lemma insert_overflows:
  "\<exists>h0 h1. hashid_init 2 = Some h0 \<and> hashid_insert h0 1 = Some (1, h1) \<and> \<not> hashid_full h1 \<and> hashid_insert h1 (int int_max) = None"
proof -
  have "int_max mod Suc (Suc 0) = 1" by (simp add: numeral_2_eq_2 [symmetric])
  then show ?thesis
    by (simp add: hashid_init_def hashcap_loop.simps hashid_insert_def numeral_2_eq_2 free_node_def node_at_def set_node_def bucket_def
        hashid_full_def Let_def)
qed

text \<open>The slots in use are as many as the numbers.\<close>

lemma slot_map_dom: "hi_ok hi \<Longrightarrow> dom (slot_map hi) = nid hi ` used hi"
  unfolding dom_def by (auto simp: slot_map_None)

lemma slot_map_ran: "hi_ok hi \<Longrightarrow> ran (slot_map hi) = used hi"
  by (auto simp: ran_def slot_map_Some)

lemma slot_map_card: "hi_ok hi \<Longrightarrow> hi_count hi = card (dom (slot_map hi))"
  unfolding slot_map_dom by (subst card_image) (simp_all add: hi_ok_def)

lemma full_ran:
  assumes "hi_ok hi"
  shows "hashid_full hi \<longleftrightarrow> ran (slot_map hi) = {..<hi_cap hi}"
proof -
  have sub: "used hi \<subseteq> {..<hi_cap hi}" by (auto simp: used_def)
  have "card (used hi) = hi_cap hi \<longleftrightarrow> used hi = {..<hi_cap hi}"
  proof
    assume "card (used hi) = hi_cap hi"
    then show "used hi = {..<hi_cap hi}" by (intro card_subset_eq [OF _ sub]) simp_all
  qed simp
  then show ?thesis using assms slot_map_ran [OF assms] by (simp add: hashid_full_def hi_ok_def)
qed

text \<open>C36. The table of the gate is a finite map from socket numbers to slots: a lookup answers the slot of the number or -1,
  a removal answers the same and forgets the number only, and as long as the table is not full a new number gets a slot
  that no other number has; the slots count as many as the numbers, and what is inserted and removed again leaves the map as it was.\<close>

theorem hashid_finite_map:
  assumes "hi_ok hi"
  shows "hashid_lookup hi fd = Some (slot_answer (slot_map hi fd)) \<and>
    (\<exists>hi'. hashid_remove hi fd = Some (slot_answer (slot_map hi fd), hi') \<and> hi_ok hi' \<and> slot_map hi' = (slot_map hi)(fd := None)) \<and>
    (admits_id hi fd \<and> slot_map hi fd = None \<longrightarrow>
      (\<exists>c hi' hi''. hashid_insert hi fd = Some (c, hi') \<and> hi_ok hi' \<and> c < hi_cap hi \<and> c \<notin> ran (slot_map hi) \<and>
        slot_map hi' = (slot_map hi)(fd \<mapsto> c) \<and> hashid_remove hi' fd = Some (int c, hi'') \<and> slot_map hi'' = slot_map hi)) \<and>
    hi_count hi = card (dom (slot_map hi)) \<and> (hashid_full hi \<longleftrightarrow> ran (slot_map hi) = {..<hi_cap hi})"
proof (intro conjI impI)
  show "hashid_lookup hi fd = Some (slot_answer (slot_map hi fd))" by (rule hs.lookup [OF assms])
  show "\<exists>hi'. hashid_remove hi fd = Some (slot_answer (slot_map hi fd), hi') \<and> hi_ok hi' \<and> slot_map hi' = (slot_map hi)(fd := None)"
    using hs.remove [OF assms, of fd] by blast
  show "hi_count hi = card (dom (slot_map hi))" by (rule slot_map_card [OF assms])
  show "hashid_full hi \<longleftrightarrow> ran (slot_map hi) = {..<hi_cap hi}" by (rule full_ran [OF assms])
next
  assume new: "admits_id hi fd \<and> slot_map hi fd = None"
  obtain c hi' where "hashid_insert hi fd = Some (c, hi')" "hi_ok hi'" "c < hi_cap hi" "c \<notin> ran (slot_map hi)" "slot_map hi' = (slot_map hi)(fd \<mapsto> c)"
    using insert_correct [OF assms, of fd] new slot_map_ran [OF assms] by (auto simp: admits_id_def)
  moreover from hs.inserted_then_removed [OF assms, of fd] new this(1) obtain hi'' where "hashid_remove hi' fd = Some (int c, hi'')" "slot_map hi'' = slot_map hi" by auto
  ultimately show "\<exists>c hi' hi''. hashid_insert hi fd = Some (c, hi') \<and> hi_ok hi' \<and> c < hi_cap hi \<and> c \<notin> ran (slot_map hi) \<and>
      slot_map hi' = (slot_map hi)(fd \<mapsto> c) \<and> hashid_remove hi' fd = Some (int c, hi'') \<and> slot_map hi'' = slot_map hi"
    by blast
qed

theorem hashid_finite_map_witness:
  "\<exists>hi c hi'. hashid_init 3 = Some hi \<and> hashid_insert hi 16 = Some (c, hi') \<and> slot_map hi' 16 = Some c \<and> hashid_lookup hi' 0 = Some (-1) \<and>
    hashid_lookup hi' 16 = Some (int c)"
proof -
  obtain hi where hi: "hashid_init 3 = Some hi" "hi_ok hi" "slot_map hi = Map.empty" "hi_cap hi = 3" using hashid_init_some [of 3] hashid_init_ok [of 3] by auto
  have "hi_count hi = 0" using hashid_finite_map [OF hi(2), of 16] hi(3) by simp
  then have "admits_id hi 16" using hi(4) by (simp add: admits_id_def hashid_full_def)
  then obtain c hi' where hi': "hashid_insert hi 16 = Some (c, hi')" "hi_ok hi'" "slot_map hi' = [16 \<mapsto> c]"
    using hashid_finite_map [OF hi(2), of 16] hi(3) by auto
  then show ?thesis using hashid_finite_map [OF hi'(2), of 0] hashid_finite_map [OF hi'(2), of 16] hi(1) by auto
qed

end
