(* ===== verification/Databuffer.thy ===== *)
theory Databuffer
  imports Prelude "HOL-Library.Multiset"
begin

text \<open>
  The receive buffer of a connection of the gate service, \<^verbatim>\<open>databuffer.h\<close>: the pieces of data
  as they came from the socket, in a linked list of nodes of a pool (here the list of the nodes with
  their pieces, from the head), read across their borders. A node is a number; the blocks of the pool
  are numbered in the order of their allocation. \<open>None\<close> is a failed \<^verbatim>\<open>assert\<close>, a null
  pointer that is followed, or the overflow of the \<^verbatim>\<open>int\<close> in which the size is kept.
\<close>

definition MESSAGEPOOL :: nat where "MESSAGEPOOL = 1023"

record databuffer =
  db_header :: int
  db_offset :: nat
  db_size :: nat
  db_list :: "(nat \<times> bytes) list"
  db_tail :: "nat option"

text \<open>The number of the blocks that were allocated and the free list of their nodes.\<close>

record messagepool =
  mp_pool :: nat
  mp_free :: "nat list"

definition db_init :: databuffer where
  "db_init = \<lparr>db_header = 0, db_offset = 0, db_size = 0, db_list = [], db_tail = None\<rparr>"

definition mp_init :: messagepool where
  "mp_init = \<lparr>mp_pool = 0, mp_free = []\<rparr>"

definition messagepool_free :: "messagepool \<Rightarrow> messagepool" where
  "messagepool_free mp = \<lparr>mp_pool = 0, mp_free = []\<rparr>"

definition block_nodes :: "nat \<Rightarrow> nat list" where
  "block_nodes n = [MESSAGEPOOL * n..<MESSAGEPOOL * n + MESSAGEPOOL]"

definition return_message :: "databuffer \<Rightarrow> messagepool \<Rightarrow> (databuffer \<times> messagepool) option" where
  "return_message db mp =
     (case db_list db of
        [] \<Rightarrow> None
      | (m, buffer) # ms \<Rightarrow> do {
          db1 \<leftarrow> (if ms = [] then do { c_assert (db_tail db = Some m); Some (db\<lparr>db_list := [], db_tail := None\<rparr>) }
                 else Some (db\<lparr>db_list := ms\<rparr>));
          Some (db1, mp\<lparr>mp_free := m # mp_free mp\<rparr>)
        })"

text \<open>The loop of \<^verbatim>\<open>databuffer_read\<close> over the list \<open>ms\<close>.\<close>

fun read_loop :: "nat \<Rightarrow> (nat \<times> bytes) list \<Rightarrow> databuffer \<Rightarrow> messagepool \<Rightarrow> (bytes \<times> databuffer \<times> messagepool) option" where
  "read_loop sz [] db mp = None"
| "read_loop sz ((a, m) # ms) db mp =
     (let bsz = length m - db_offset db
      in if bsz > sz then Some (take sz (drop (db_offset db) m), db\<lparr>db_offset := db_offset db + sz\<rparr>, mp)
         else if bsz = sz then do {
           (db1, mp1) \<leftarrow> return_message (db\<lparr>db_offset := 0\<rparr>) mp;
           Some (take sz (drop (db_offset db) m), db1, mp1)
         }
         else do {
           (db1, mp1) \<leftarrow> return_message db mp;
           (rest, db2, mp2) \<leftarrow> read_loop (sz - bsz) ms (db1\<lparr>db_offset := 0\<rparr>) mp1;
           Some (take bsz (drop (db_offset db) m) @ rest, db2, mp2)
         })"

definition databuffer_read :: "nat \<Rightarrow> databuffer \<Rightarrow> messagepool \<Rightarrow> (bytes \<times> databuffer \<times> messagepool) option" where
  "databuffer_read sz db mp = do {
     c_assert (db_size db \<ge> sz);
     read_loop sz (db_list db) (db\<lparr>db_size := db_size db - sz\<rparr>) mp
   }"

text \<open>A node from the free list, or the first of a new block.\<close>

definition take_node :: "messagepool \<Rightarrow> nat \<times> messagepool" where
  "take_node mp =
     (case mp_free mp of
        m # rest \<Rightarrow> (m, mp\<lparr>mp_free := rest\<rparr>)
      | [] \<Rightarrow> (hd (block_nodes (mp_pool mp)), mp\<lparr>mp_pool := mp_pool mp + 1, mp_free := tl (block_nodes (mp_pool mp))\<rparr>))"

text \<open>The node is appended behind the tail; the list is one only when the tail is its last node.\<close>

definition databuffer_push :: "bytes \<Rightarrow> databuffer \<Rightarrow> messagepool \<Rightarrow> (databuffer \<times> messagepool) option" where
  "databuffer_push data db mp = do {
     let (m, mp1) = take_node mp;
     c_assert (db_size db + length data \<le> int_max);
     c_assert (db_tail db = (if db_list db = [] then None else Some (fst (last (db_list db)))));
     Some (db\<lparr>db_size := db_size db + length data, db_list := db_list db @ [(m, data)], db_tail := Some m\<rparr>, mp1)
   }"

text \<open>The big-endian number in an \<^verbatim>\<open>int\<close>; a first byte of 128 or more makes it negative.\<close>

definition header_value :: "nat \<Rightarrow> bytes \<Rightarrow> int" where
  "header_value header_size plen =
     (if header_size = 2 then sint (push_bit 8 (ucast (plen ! 0)) OR ucast (plen ! 1) :: u32)
      else sint (push_bit 24 (ucast (plen ! 0)) OR push_bit 16 (ucast (plen ! 1)) OR push_bit 8 (ucast (plen ! 2)) OR
             ucast (plen ! 3) :: u32))"

definition databuffer_readheader :: "nat \<Rightarrow> databuffer \<Rightarrow> messagepool \<Rightarrow> (int \<times> databuffer \<times> messagepool) option" where
  "databuffer_readheader header_size db mp =
     (if db_header db = 0 then
        if db_size db < header_size then Some (-1, db, mp)
        else do {
          (plen, db1, mp1) \<leftarrow> databuffer_read header_size db mp;
          let db2 = db1\<lparr>db_header := header_value header_size plen\<rparr>;
          Some (if int (db_size db2) < db_header db2 then -1 else db_header db2, db2, mp1)
        }
      else Some (if int (db_size db) < db_header db then -1 else db_header db, db, mp))"

definition databuffer_reset :: "databuffer \<Rightarrow> databuffer" where
  "databuffer_reset db = db\<lparr>db_header := 0\<rparr>"

text \<open>The loop of \<^verbatim>\<open>databuffer_clear\<close> over the list \<open>ms\<close>.\<close>

fun clear_nodes :: "(nat \<times> bytes) list \<Rightarrow> databuffer \<Rightarrow> messagepool \<Rightarrow> messagepool option" where
  "clear_nodes [] db mp = Some mp"
| "clear_nodes (m # ms) db mp = do { (db1, mp1) \<leftarrow> return_message db mp; clear_nodes ms db1 mp1 }"

definition databuffer_clear :: "databuffer \<Rightarrow> messagepool \<Rightarrow> (databuffer \<times> messagepool) option" where
  "databuffer_clear db mp = do { mp1 \<leftarrow> clear_nodes (db_list db) db mp; Some (db_init, mp1) }"

subsection \<open>The buffer is a sequence of bytes\<close>

definition db_content :: "databuffer \<Rightarrow> bytes" where
  "db_content db = drop (db_offset db) (concat (map snd (db_list db)))"

definition db_nodes :: "databuffer \<Rightarrow> nat multiset" where
  "db_nodes db = mset (map fst (db_list db))"

fun offset_ok :: "nat \<Rightarrow> (nat \<times> bytes) list \<Rightarrow> bool" where
  "offset_ok off [] \<longleftrightarrow> off = 0"
| "offset_ok off (m # ms) \<longleftrightarrow> off \<le> length (snd m)"

lemma offset_ok_0 [simp]: "offset_ok 0 ms"
  by (cases ms) simp_all

text \<open>What \<^verbatim>\<open>tail\<close> points to.\<close>

definition list_tail :: "(nat \<times> bytes) list \<Rightarrow> nat option" where
  "list_tail ms = (if ms = [] then None else Some (fst (last ms)))"

definition db_ok :: "databuffer \<Rightarrow> bool" where
  "db_ok db \<longleftrightarrow> db_size db = length (db_content db) \<and> db_size db \<le> int_max \<and> offset_ok (db_offset db) (db_list db) \<and>
     db_tail db = list_tail (db_list db)"

lemma db_init_ok: "db_ok db_init" "db_content db_init = []" "db_nodes db_init = {#}"
  by (simp_all add: db_ok_def db_init_def db_content_def list_tail_def db_nodes_def)

text \<open>The nodes in use and the free ones are together the nodes of the blocks, each once.\<close>

definition mp_ok :: "nat multiset \<Rightarrow> messagepool \<Rightarrow> bool" where
  "mp_ok used mp \<longleftrightarrow> used + mset (mp_free mp) = mset [0..<MESSAGEPOOL * mp_pool mp]"

lemma take_node_pool: "take_node mp = (m, mp') \<Longrightarrow> mp_ok used mp \<Longrightarrow> mp_ok (add_mset m used) mp'"
proof (cases "mp_free mp")
  case Nil
  let ?b = "block_nodes (mp_pool mp)"
  have "?b \<noteq> []" by (simp add: block_nodes_def MESSAGEPOOL_def)
  then have split: "add_mset (hd ?b) (mset (tl ?b)) = mset ?b" by (simp flip: mset.simps(2))
  have blocks: "mset [0..<MESSAGEPOOL * Suc n] = mset [0..<MESSAGEPOOL * n] + mset (block_nodes n)" for n
    using upt_add_eq_append [of 0 "MESSAGEPOOL * n" MESSAGEPOOL] by (simp add: block_nodes_def add.commute)
  assume "take_node mp = (m, mp')" "mp_ok used mp"
  then show ?thesis using Nil split blocks [of "mp_pool mp"] by (auto simp: take_node_def mp_ok_def)
qed (auto simp: take_node_def mp_ok_def)

lemma push_content:
  assumes "db_ok db" "length (db_content db) + length data \<le> int_max" "mp_ok (db_nodes db + others) mp"
  shows "\<exists>db' mp'. databuffer_push data db mp = Some (db', mp') \<and> db_ok db' \<and> db_content db' = db_content db @ data \<and>
    db_header db' = db_header db \<and> mp_ok (db_nodes db' + others) mp'"
proof -
  obtain m mp' where t: "take_node mp = (m, mp')" by (cases "take_node mp")
  let ?db = "db\<lparr>db_size := db_size db + length data, db_list := db_list db @ [(m, data)], db_tail := Some m\<rparr>"
  have c: "db_content ?db = db_content db @ data"
    using assms(1) by (cases "db_list db") (auto simp: db_ok_def db_content_def)
  have "offset_ok (db_offset db) (db_list db @ [(m, data)])" using assms(1) by (cases "db_list db") (auto simp: db_ok_def)
  then have "db_ok ?db" using assms(1,2) c by (simp add: db_ok_def list_tail_def)
  moreover have "mp_ok (db_nodes ?db + others) mp'" using take_node_pool [OF t assms(3)] by (simp add: db_nodes_def)
  moreover have "databuffer_push data db mp = Some (?db, mp')"
    using assms(1,2) t by (simp add: databuffer_push_def db_ok_def list_tail_def)
  ultimately show ?thesis using c by simp
qed

lemma push_overflow: "db_ok db \<Longrightarrow> int_max < length (db_content db) + length data \<Longrightarrow> databuffer_push data db mp = None"
  by (simp add: databuffer_push_def db_ok_def split_beta)

text \<open>Returning the head.\<close>

lemma return_head:
  assumes "db_list db = (a, m) # ms" "db_tail db = list_tail (db_list db)"
  shows "return_message db mp = Some (db\<lparr>db_list := ms, db_tail := list_tail ms\<rparr>, mp\<lparr>mp_free := a # mp_free mp\<rparr>)"
proof (cases "ms = []")
  case False
  then have "db_tail db = list_tail ms" using assms by (simp add: list_tail_def)
  then show ?thesis using assms(1) False by (simp add: return_message_def)
qed (use assms in \<open>simp add: return_message_def list_tail_def\<close>)

lemma read_loop_content:
  "db_list db = ms \<Longrightarrow> offset_ok (db_offset db) (db_list db) \<Longrightarrow> db_tail db = list_tail (db_list db) \<Longrightarrow> 0 < sz \<Longrightarrow> sz \<le> length (db_content db) \<Longrightarrow>
   \<exists>db' mp'. read_loop sz ms db mp = Some (take sz (db_content db), db', mp') \<and>
     db_content db' = drop sz (db_content db) \<and> db_header db' = db_header db \<and> db_size db' = db_size db \<and>
     offset_ok (db_offset db') (db_list db') \<and> db_tail db' = list_tail (db_list db') \<and>
     db_nodes db' + mset (mp_free mp') = db_nodes db + mset (mp_free mp) \<and> mp_pool mp' = mp_pool mp"
proof (induction ms arbitrary: sz db mp)
  case Nil
  then show ?case by (simp add: db_content_def)
next
  case (Cons am ms)
  obtain a m where am: "am = (a, m)" by (cases am)
  let ?off = "db_offset db" and ?bsz = "length m - db_offset db"
  have off: "?off \<le> length m" using Cons.prems(1,2) am by simp
  have l: "db_list db = (a, m) # ms" using Cons.prems(1) am by simp
  have c: "db_content db = drop ?off m @ concat (map snd ms)" using l off by (simp add: db_content_def)
  let ?mp = "mp\<lparr>mp_free := a # mp_free mp\<rparr>"
  consider (inside) "sz < ?bsz" | (all) "sz = ?bsz" | (across) "?bsz < sz" by linarith
  then show ?case
  proof cases
    case inside
    then show ?thesis
      using l c off Cons.prems(3) am
      by (intro exI [of _ "db\<lparr>db_offset := ?off + sz\<rparr>"] exI [of _ mp])
        (simp add: db_content_def db_nodes_def add.commute)
  next
    case all
    have "return_message (db\<lparr>db_offset := 0\<rparr>) mp = Some (db\<lparr>db_offset := 0, db_list := ms, db_tail := list_tail ms\<rparr>, ?mp)"
      using return_head [of "db\<lparr>db_offset := 0\<rparr>" a m ms mp] l Cons.prems(3) by simp
    then show ?thesis
      using all l c off am
      by (intro exI [of _ "db\<lparr>db_offset := 0, db_list := ms, db_tail := list_tail ms\<rparr>"] exI [of _ ?mp])
        (simp add: db_content_def db_nodes_def)
  next
    case across
    let ?db = "db\<lparr>db_list := ms, db_tail := list_tail ms, db_offset := 0\<rparr>"
    have le: "sz - ?bsz \<le> length (concat (map snd ms))" using Cons.prems(5) unfolding c by simp
    have dbc: "db_content ?db = concat (map snd ms)" by (simp add: db_content_def)
    obtain db' mp' where rest: "read_loop (sz - ?bsz) ms ?db ?mp = Some (take (sz - ?bsz) (concat (map snd ms)), db', mp')"
      "db_content db' = drop (sz - ?bsz) (concat (map snd ms))" "db_header db' = db_header db" "db_size db' = db_size db"
      "offset_ok (db_offset db') (db_list db')" "db_tail db' = list_tail (db_list db')"
      "db_nodes db' + mset (mp_free mp') = db_nodes ?db + mset (mp_free ?mp)" "mp_pool mp' = mp_pool mp"
      using Cons.IH [of ?db "sz - ?bsz" ?mp] across le unfolding dbc by auto
    have "db_nodes ?db + mset (mp_free ?mp) = db_nodes db + mset (mp_free mp)" using l by (simp add: db_nodes_def)
    then show ?thesis
      using rest across return_head [OF l Cons.prems(3), of mp] c am
      by (intro exI [of _ db'] exI [of _ mp']) simp
  qed
qed

lemma databuffer_read_content:
  assumes "db_ok db" "0 < sz" "sz \<le> length (db_content db)" "mp_ok (db_nodes db + others) mp"
  shows "\<exists>db' mp'. databuffer_read sz db mp = Some (take sz (db_content db), db', mp') \<and> db_ok db' \<and>
    db_content db' = drop sz (db_content db) \<and> db_header db' = db_header db \<and> mp_ok (db_nodes db' + others) mp'"
proof -
  let ?db = "db\<lparr>db_size := db_size db - sz\<rparr>"
  have c: "db_content ?db = db_content db" "db_nodes ?db = db_nodes db" by (simp_all add: db_content_def db_nodes_def)
  have size: "db_size db = length (db_content db)" "db_size db \<le> int_max" using assms(1) by (simp_all add: db_ok_def)
  have "offset_ok (db_offset ?db) (db_list ?db)" "db_tail ?db = list_tail (db_list ?db)" using assms(1) by (simp_all add: db_ok_def)
  from read_loop_content [OF refl this assms(2), of mp] obtain db' mp' where
    r: "read_loop sz (db_list db) ?db mp = Some (take sz (db_content db), db', mp')"
    "db_content db' = drop sz (db_content db)" "db_header db' = db_header db" "db_size db' = db_size db - sz"
    "offset_ok (db_offset db') (db_list db')" "db_tail db' = list_tail (db_list db')"
    "db_nodes db' + mset (mp_free mp') = db_nodes db + mset (mp_free mp)" "mp_pool mp' = mp_pool mp"
    using assms(3) by (auto simp: c)
  have "db_ok db'" using r(2,4-6) size by (simp add: db_ok_def)
  moreover have "mp_ok (db_nodes db' + others) mp'"
    using r(7,8) assms(4) unfolding mp_ok_def by (metis add.assoc add.commute)
  ultimately show ?thesis using r assms(3) size by (simp add: databuffer_read_def)
qed

lemma clear_nodes_content:
  "db_list db = ms \<Longrightarrow> db_tail db = list_tail (db_list db) \<Longrightarrow>
   \<exists>mp'. clear_nodes ms db mp = Some mp' \<and> mset (mp_free mp') = db_nodes db + mset (mp_free mp) \<and> mp_pool mp' = mp_pool mp"
proof (induction ms arbitrary: db mp)
  case (Cons am ms)
  obtain a m where am: "am = (a, m)" by (cases am)
  then have l: "db_list db = (a, m) # ms" using Cons.prems(1) by simp
  obtain mp' where "clear_nodes ms (db\<lparr>db_list := ms, db_tail := list_tail ms\<rparr>) (mp\<lparr>mp_free := a # mp_free mp\<rparr>) = Some mp'"
    "mset (mp_free mp') = db_nodes (db\<lparr>db_list := ms, db_tail := list_tail ms\<rparr>) + add_mset a (mset (mp_free mp))" "mp_pool mp' = mp_pool mp"
    using Cons.IH [of "db\<lparr>db_list := ms, db_tail := list_tail ms\<rparr>" "mp\<lparr>mp_free := a # mp_free mp\<rparr>"] by auto
  then show ?case using return_head [OF l Cons.prems(2), of mp] l am by (intro exI [of _ mp']) (simp add: db_nodes_def)
qed (simp add: db_nodes_def)

subsection \<open>Reading a header\<close>

text \<open>What the buffer and the pool have to fulfil; the nodes \<open>others\<close> of the pool are in other buffers.\<close>

definition buf_ok :: "nat multiset \<Rightarrow> databuffer \<times> messagepool \<Rightarrow> bool" where
  "buf_ok others b \<longleftrightarrow> db_ok (fst b) \<and> mp_ok (db_nodes (fst b) + others) (snd b)"

lemma buf_push:
  assumes "buf_ok others b" "length (db_content (fst b)) + length data \<le> int_max"
  shows "\<exists>b'. databuffer_push data (fst b) (snd b) = Some b' \<and> buf_ok others b' \<and> db_content (fst b') = db_content (fst b) @ data \<and>
    db_header (fst b') = db_header (fst b)"
  using push_content [of "fst b" data others "snd b"] assms by (auto simp: buf_ok_def)

lemma buf_read:
  assumes "buf_ok others b" "0 < sz" "sz \<le> length (db_content (fst b))"
  shows "\<exists>b'. databuffer_read sz (fst b) (snd b) = Some (take sz (db_content (fst b)), b') \<and> buf_ok others b' \<and>
    db_content (fst b') = drop sz (db_content (fst b)) \<and> db_header (fst b') = db_header (fst b)"
  using databuffer_read_content [of "fst b" sz others "snd b"] assms by (auto simp: buf_ok_def)

lemma buf_clear:
  assumes "buf_ok others b"
  shows "\<exists>mp. databuffer_clear (fst b) (snd b) = Some (db_init, mp) \<and> buf_ok others (db_init, mp)"
proof -
  have "db_tail (fst b) = list_tail (db_list (fst b))" using assms by (simp add: buf_ok_def db_ok_def)
  from clear_nodes_content [OF refl this, of "snd b"] obtain mp where
    "clear_nodes (db_list (fst b)) (fst b) (snd b) = Some mp" "mset (mp_free mp) = db_nodes (fst b) + mset (mp_free (snd b))"
    "mp_pool mp = mp_pool (snd b)" by blast
  then show ?thesis using assms by (auto simp: databuffer_clear_def buf_ok_def db_init_ok mp_ok_def ac_simps)
qed

lemma buf_reset: "buf_ok others b \<Longrightarrow> buf_ok others (databuffer_reset (fst b), snd b)"
  by (simp add: buf_ok_def databuffer_reset_def db_ok_def db_content_def db_nodes_def)

lemma reset_content [simp]: "db_content (databuffer_reset db) = db_content db" "db_header (databuffer_reset db) = 0"
  by (simp_all add: databuffer_reset_def db_content_def)

text \<open>The number of a header that was read before or stands in front, and the bytes behind it.\<close>

definition next_header :: "nat \<Rightarrow> int \<Rightarrow> bytes \<Rightarrow> (int \<times> bytes) option" where
  "next_header hs h bs =
     (if h \<noteq> 0 then Some (h, bs) else if length bs < hs then None else Some (header_value hs (take hs bs), drop hs bs))"

lemma readheader_correct:
  assumes "buf_ok others b" "0 < hs"
  shows "\<exists>b'. databuffer_readheader hs (fst b) (snd b) =
      Some (case next_header hs (db_header (fst b)) (db_content (fst b)) of None \<Rightarrow> -1 | Some (v, body) \<Rightarrow> if int (length body) < v then -1 else v, b') \<and>
    buf_ok others b' \<and>
    (db_header (fst b'), db_content (fst b')) =
      (case next_header hs (db_header (fst b)) (db_content (fst b)) of None \<Rightarrow> (0, db_content (fst b)) | Some r \<Rightarrow> r)"
proof -
  obtain db mp where b: "b = (db, mp)" by (cases b)
  have size: "db_size db = length (db_content db)" using assms(1) b by (simp add: buf_ok_def db_ok_def)
  consider (pending) "db_header db \<noteq> 0" | (short) "db_header db = 0" "length (db_content db) < hs"
    | (read) "db_header db = 0" "hs \<le> length (db_content db)" by linarith
  then show ?thesis
  proof cases
    case read
    obtain db1 mp1 where r: "databuffer_read hs db mp = Some (take hs (db_content db), db1, mp1)" "buf_ok others (db1, mp1)"
      "db_content db1 = drop hs (db_content db)"
      using buf_read [OF assms] read(2) b by auto
    define db2 where "db2 = db1\<lparr>db_header := header_value hs (take hs (db_content db))\<rparr>"
    have same: "db_content db2 = db_content db1" "db_size db2 = db_size db1" "db_header db2 = header_value hs (take hs (db_content db))"
      "db_list db2 = db_list db1" "db_offset db2 = db_offset db1" "db_tail db2 = db_tail db1" "db_nodes db2 = db_nodes db1"
      by (simp_all add: db2_def db_content_def db_nodes_def)
    have ok2: "buf_ok others (db2, mp1)" using r(2) by (simp add: buf_ok_def db_ok_def same)
    then have "db_size db1 = length (db_content db) - hs" using r(3) same(1,2) by (simp add: buf_ok_def db_ok_def)
    then have "databuffer_readheader hs db mp =
      Some (if int (length (drop hs (db_content db))) < header_value hs (take hs (db_content db)) then -1 else header_value hs (take hs (db_content db)), db2, mp1)"
      using read r(1) size by (simp add: databuffer_readheader_def db2_def [symmetric] same(3) Let_def)
    then show ?thesis using ok2 r(3) same(1,3) read b by (intro exI [of _ "(db2, mp1)"]) (simp add: next_header_def)
  qed (use assms(1) b size in \<open>auto simp: databuffer_readheader_def next_header_def\<close>)
qed

subsection \<open>Cutting a stream into packets\<close>

text \<open>
  The packets of a stream whose next header has been read as \<open>h\<close> (0: not yet), and how it ends:
  waiting with the next header and the bytes behind it, for ever if that header is negative, or
  broken off by a packet of 16 MB or more. With \<open>con\<close> false nobody takes the packets: their bytes
  stay in the buffer.
\<close>

datatype cut_end = Waiting int bytes | Oversized

function cut :: "bool \<Rightarrow> nat \<Rightarrow> int \<Rightarrow> bytes \<Rightarrow> bytes list \<times> cut_end" where
  "cut con hs h bs =
     (if hs = 0 then ([], Waiting h bs)
      else case next_header hs h bs of
        None \<Rightarrow> ([], Waiting 0 bs)
      | Some (v, body) \<Rightarrow>
          if v < 0 \<or> int (length body) < v then ([], Waiting v body)
          else if v = 0 then cut con hs 0 body
          else if 0x1000000 \<le> v then ([], Oversized)
          else let (ps, e) = cut con hs 0 (if con then drop (nat v) body else body) in (take (nat v) body # ps, e))"
  by pat_completeness auto
termination
  by (relation "measure (\<lambda>(con, hs, h, bs). 2 * length bs + (if h = 0 then 0 else 1))") (auto simp: next_header_def split: if_splits)

declare cut.simps [simp del]

lemma next_header_append: "next_header hs h bs = Some (v, body) \<Longrightarrow> next_header hs h (bs @ ys) = Some (v, body @ ys)"
  by (auto simp: next_header_def split: if_splits)

lemma next_header_pending: "v \<noteq> 0 \<Longrightarrow> next_header hs v bs = Some (v, bs)"
  by (simp add: next_header_def)

text \<open>The cut of a longer stream goes on where that of its beginning waits.\<close>

lemma cut_append:
  "0 < hs \<Longrightarrow> cut con hs h (xs @ ys) =
    (case cut con hs h xs of (ps, Waiting h' r) \<Rightarrow> (case cut con hs h' (r @ ys) of (qs, e) \<Rightarrow> (ps @ qs, e)) | (ps, Oversized) \<Rightarrow> (ps, Oversized))"
proof (induction con hs h xs rule: cut.induct)
  case (1 con hs h xs)
  show ?case
  proof (cases "next_header hs h xs")
    case None
    then have "h = 0" by (simp add: next_header_def split: if_splits)
    then show ?thesis using None 1(3) by (simp add: cut.simps [of con hs 0 xs])
  next
    case (Some r)
    obtain v body where r: "r = (v, body)" by (cases r)
    note nh = Some [unfolded r] and nh' = next_header_append [OF Some [unfolded r], of ys]
    consider (waits) "v < 0 \<or> int (length body) < v" | (zero) "v = 0" | (over) "0x1000000 \<le> v" "int (length body) \<ge> v"
      | (packet) "0 < v" "v < 0x1000000" "v \<le> int (length body)" by linarith
    then show ?thesis
    proof cases
      case waits
      then have "v \<noteq> 0" by auto
      then have "cut con hs h (xs @ ys) = cut con hs v (body @ ys)"
        using 1(3) nh' next_header_pending [of v hs "body @ ys"]
        by (simp add: cut.simps [of con hs h "xs @ ys"] cut.simps [of con hs v "body @ ys"])
      moreover have "cut con hs h xs = ([], Waiting v body)" using 1(3) nh waits by (simp add: cut.simps [of con hs h xs])
      ultimately show ?thesis by simp
    next
      case zero
      then show ?thesis using 1(1) [OF _ nh refl] 1(3) nh nh' by (simp add: cut.simps [of con hs h "xs @ ys"] cut.simps [of con hs h xs])
    next
      case over
      then show ?thesis using 1(3) nh nh' by (simp add: cut.simps [of con hs h "xs @ ys"] cut.simps [of con hs h xs])
    next
      case packet
      have v: "\<not> (v < 0 \<or> int (length body) < v)" "v \<noteq> 0" "\<not> 0x1000000 \<le> v" using packet by auto
      let ?rest = "if con then drop (nat v) body else body"
      have n: "nat v \<le> length body" using packet by simp
      then have eq: "(if con then drop (nat v) (body @ ys) else body @ ys) = ?rest @ ys" "take (nat v) (body @ ys) = take (nat v) body" by simp_all
      have IH: "cut con hs 0 (?rest @ ys) =
          (case cut con hs 0 ?rest of (ps, Waiting h' r) \<Rightarrow> (case cut con hs h' (r @ ys) of (qs, e) \<Rightarrow> (ps @ qs, e)) | (ps, Oversized) \<Rightarrow> (ps, Oversized))"
        using 1(2) [OF _ nh refl v] 1(3) by simp
      have l: "cut con hs h (xs @ ys) = (let (ps, e) = cut con hs 0 (?rest @ ys) in (take (nat v) body # ps, e))"
        using 1(3) nh' v n by (simp add: cut.simps [of con hs h "xs @ ys"] eq del: if_distrib)
      have rr: "cut con hs h xs = (let (ps, e) = cut con hs 0 ?rest in (take (nat v) body # ps, e))"
        using 1(3) nh v by (simp add: cut.simps [of con hs h xs])
      show ?thesis unfolding l rr IH by (auto simp: Let_def split: prod.splits cut_end.splits)
    qed
  qed
qed

subsection \<open>What a connection may keep\<close>

lemma short_header: "0 \<le> header_value 2 plen" "header_value 2 plen < 65536"
proof -
  define w :: u32 where "w = push_bit 8 (ucast (plen ! 0)) OR ucast (plen ! 1)"
  have "n < 16" if "bit (plen ! 0) (n - 8)" for n using that byte_bits [of "n - 8" "plen ! 0"] by linarith
  then have "take_bit 16 w = w" unfolding w_def by (intro bit_word_eqI) (auto simp: bit_simps byte_bits)
  then have "unat w < 65536" using unat_take_bit_less [of 16 w] by simp
  moreover have "header_value 2 plen = sint w" by (simp add: header_value_def w_def)
  ultimately have "header_value 2 plen = int (unat w)" "unat w < 65536" using sint_small [of w] by linarith+
  then show "0 \<le> header_value 2 plen" "header_value 2 plen < 65536" by linarith+
qed

definition header_ok :: "nat \<Rightarrow> int \<Rightarrow> bool" where
  "header_ok hs h \<longleftrightarrow> (hs = 2 \<longrightarrow> 0 \<le> h \<and> h < 65536)"

text \<open>Between two messages a buffer holds no complete packet: a part of a header, or a header and less than it announces.\<close>

definition settled :: "nat \<Rightarrow> databuffer \<Rightarrow> bool" where
  "settled hs db \<longleftrightarrow> header_ok hs (db_header db) \<and>
     (if db_header db = 0 then length (db_content db) < hs else db_header db < 0 \<or> int (length (db_content db)) < db_header db)"

lemma settled_init: "0 < hs \<Longrightarrow> settled hs db_init"
  by (simp add: settled_def header_ok_def db_init_ok) (simp add: db_init_def)

lemma settled_short: "settled 2 db \<Longrightarrow> length (db_content db) < 65536"
  by (auto simp: settled_def header_ok_def split: if_splits)

lemma next_header_ok: "next_header hs h bs = Some (v, body) \<Longrightarrow> header_ok hs h \<Longrightarrow> header_ok hs v"
  using short_header by (auto simp: next_header_def header_ok_def split: if_splits)

lemma cut_waiting:
  "cut con hs h bs = (ps, Waiting h' r) \<Longrightarrow> 0 < hs \<Longrightarrow> header_ok hs h \<Longrightarrow>
   header_ok hs h' \<and> (if h' = 0 then length r < hs else h' < 0 \<or> int (length r) < h')"
proof (induction con hs h bs arbitrary: ps rule: cut.induct)
  case (1 con hs h bs)
  show ?case
  proof (cases "next_header hs h bs")
    case None
    then show ?thesis using 1(3-5) by (auto simp: cut.simps [of con hs h bs] next_header_def split: if_splits)
  next
    case (Some x)
    obtain v body where x: "x = (v, body)" by (cases x)
    note nh = Some [unfolded x] and ok = next_header_ok [OF Some [unfolded x] 1(5)]
    consider (waits) "v < 0 \<or> int (length body) < v" | (zero) "v = 0" | (over) "0x1000000 \<le> v" "v \<le> int (length body)"
      | (packet) "\<not> (v < 0 \<or> int (length body) < v)" "v \<noteq> 0" "\<not> 0x1000000 \<le> v" by linarith
    then show ?thesis
    proof cases
      case waits
      then show ?thesis using 1(3,4) nh ok by (auto simp: cut.simps [of con hs h bs])
    next
      case zero
      then show ?thesis using 1(1) [OF _ nh refl] 1(3,4) nh by (simp add: cut.simps [of con hs h bs] header_ok_def)
    next
      case over
      then show ?thesis using 1(3,4) nh by (auto simp: cut.simps [of con hs h bs])
    next
      case packet
      have "header_ok hs 0" by (simp add: header_ok_def)
      then show ?thesis using 1(2) [OF _ nh refl packet] 1(3,4) nh packet by (auto simp: cut.simps [of con hs h bs] Let_def split: prod.splits)
    qed
  qed
qed

end
