(* ===== verification/Gate.thy ===== *)
theory Gate
  imports Hashid Databuffer Socket_Message Message_Types C_String
begin

text \<open>
  The gate service, \<^verbatim>\<open>service_gate.c\<close>: it owns the client connections of a listening socket,
  cuts what they send into packets and forwards these to other services. A handler returns the new
  state of the gate and the list of the calls into skynet that it made. The answers of skynet that
  the gate uses (the handle of a name, the number of a listening socket) are parameters. \<open>None\<close>
  is a failed \<^verbatim>\<open>assert\<close>, an overflow of \<^verbatim>\<open>int\<close> or an access outside an object.
\<close>

subsection \<open>Data\<close>

record connection =
  cn_id :: int
  cn_agent :: u32
  cn_client :: u32
  cn_remote_name :: string
  cn_buffer :: databuffer

record gate =
  g_listen_id :: int
  g_watchdog :: u32
  g_broker :: u32
  g_client_tag :: u32
  g_header_size :: nat
  g_max_connection :: nat
  g_hash :: hashid
  g_conn :: "connection list"
  g_mp :: messagepool

text \<open>The calls of the gate: sending (source, destination, type, session, message), logging and the socket operations.\<close>

datatype gate_action =
    Skynet_Send u32 u32 u32 int bytes
  | Skynet_Error string
  | Socket_Close int
  | Socket_Start int
  | Socket_Send int bytes

type_synonym 'a gate_result = "('a \<times> gate_action list) option"

definition to_bytes :: "string \<Rightarrow> bytes" where "to_bytes s = map of_char s"
definition of_bytes :: "bytes \<Rightarrow> string" where "of_bytes bs = map (\<lambda>b. char_of (unat b)) bs"

lemma of_to_bytes: "of_bytes (to_bytes s) = s"
proof -
  have "unat (of_char c :: u8) = of_char c" for c
  proof -
    have eq: "(of_char c :: u8) = of_nat (of_char c)" by (rule of_nat_of_char [symmetric])
    have "of_char c mod (256 :: nat) = of_char c" by simp
    then show ?thesis unfolding eq unat_of_nat by simp
  qed
  then show ?thesis by (simp add: of_bytes_def to_bytes_def map_idI)
qed

lemma to_bytes_length [simp]: "length (to_bytes s) = length s"
  by (simp add: to_bytes_def)

definition put_conn :: "nat \<Rightarrow> connection \<Rightarrow> gate \<Rightarrow> gate" where
  "put_conn k c g = g\<lparr>g_conn := (g_conn g)[k := c]\<rparr>"

text \<open>The buffer of the connection \<open>k\<close> together with the pool of the gate.\<close>

definition put_buffer :: "nat \<Rightarrow> databuffer \<times> messagepool \<Rightarrow> gate \<Rightarrow> gate" where
  "put_buffer k b g = put_conn k ((g_conn g ! k)\<lparr>cn_buffer := fst b\<rparr>) g\<lparr>g_mp := snd b\<rparr>"

definition zero_conn :: connection where
  "zero_conn = \<lparr>cn_id = 0, cn_agent = 0, cn_client = 0, cn_remote_name = [], cn_buffer = db_init\<rparr>"

definition gate_create :: gate where
  "gate_create = \<lparr>g_listen_id = -1, g_watchdog = 0, g_broker = 0, g_client_tag = 0, g_header_size = 0, g_max_connection = 0,
     g_hash = \<lparr>hi_hashmod = 0, hi_cap = 0, hi_count = 0, hi_id = [], hi_hash = []\<rparr>, g_conn = [], g_mp = mp_init\<rparr>"

definition gate_release :: "gate \<Rightarrow> gate_action list" where
  "gate_release g =
     map (\<lambda>c. Socket_Close (cn_id c)) (filter (\<lambda>c. 0 \<le> cn_id c) (take (g_max_connection g) (g_conn g))) @
     (if 0 \<le> g_listen_id g then [Socket_Close (g_listen_id g)] else [])"

subsection \<open>Packets\<close>

definition gate_report :: "gate \<Rightarrow> string \<Rightarrow> gate_action list option" where
  "gate_report g data =
     (if g_watchdog g = 0 then Some []
      else do { c_assert (length data < 1024); Some [Skynet_Send 0 (g_watchdog g) PTYPE_TEXT 0 (to_bytes data)] })"

definition gate_forward :: "nat \<Rightarrow> nat \<Rightarrow> gate \<Rightarrow> gate gate_result" where
  "gate_forward k sz g =
     (let c = g_conn g ! k; fd = cn_id c
      in if fd \<le> 0 then Some (g, [])
         else if g_broker g \<noteq> 0 then do {
           (temp, b) \<leftarrow> databuffer_read sz (cn_buffer c) (g_mp g);
           Some (put_buffer k b g, [Skynet_Send 0 (g_broker g) (g_client_tag g OR PTYPE_TAG_DONTCOPY) fd temp])
         }
         else if cn_agent c \<noteq> 0 then do {
           (temp, b) \<leftarrow> databuffer_read sz (cn_buffer c) (g_mp g);
           Some (put_buffer k b g, [Skynet_Send (cn_client c) (cn_agent c) (g_client_tag g OR PTYPE_TAG_DONTCOPY) fd temp])
         }
         else if g_watchdog g \<noteq> 0 then do {
           let tmp = to_bytes (fmt_int (cn_id c) @ '' data '');
           c_assert (length tmp < 32);
           (temp, b) \<leftarrow> databuffer_read sz (cn_buffer c) (g_mp g);
           Some (put_buffer k b g, [Skynet_Send 0 (g_watchdog g) (PTYPE_TEXT OR PTYPE_TAG_DONTCOPY) fd (tmp @ temp)])
         }
         else Some (g, []))"

text \<open>The loop of \<^verbatim>\<open>dispatch_message\<close>.\<close>

partial_function (option) gate_loop :: "nat \<Rightarrow> int \<Rightarrow> gate \<Rightarrow> gate gate_result" where
  "gate_loop k fd g =
     (case databuffer_readheader (g_header_size g) (cn_buffer (g_conn g ! k)) (g_mp g) of
        None \<Rightarrow> None
      | Some (sz, b) \<Rightarrow>
          let g1 = put_buffer k b g
          in if sz < 0 then Some (g1, [])
             else if sz > 0 then
               if sz \<ge> 0x1000000 then do {
                 b1 \<leftarrow> databuffer_clear (fst b) (snd b);
                 Some (put_buffer k b1 g1, [Socket_Close fd, Skynet_Error ''Recv socket message > 16M''])
               }
               else do {
                 (g2, sent) \<leftarrow> gate_forward k (nat sz) g1;
                 (g3, sent2) \<leftarrow> gate_loop k fd (put_buffer k (databuffer_reset (cn_buffer (g_conn g2 ! k)), g_mp g2) g2);
                 Some (g3, sent @ sent2)
               }
             else gate_loop k fd g1)"

declare gate_loop.simps [code]

definition gate_dispatch :: "nat \<Rightarrow> int \<Rightarrow> bytes \<Rightarrow> gate \<Rightarrow> gate gate_result" where
  "gate_dispatch k fd data g = do {
     b \<leftarrow> databuffer_push data (cn_buffer (g_conn g ! k)) (g_mp g);
     gate_loop k fd (put_buffer k b g)
   }"

subsection \<open>Socket messages\<close>

abbreviation sm_fd :: "socket_message \<Rightarrow> int" where "sm_fd m \<equiv> sint (sm_id m)"

definition gate_data :: "gate \<Rightarrow> socket_message \<Rightarrow> gate gate_result" where
  "gate_data g m = do {
     k \<leftarrow> hashid_lookup (g_hash g) (sm_fd m);
     if 0 \<le> k then do {
       buffer \<leftarrow> sm_buffer m;
       c_assert (0 \<le> sm_ud m \<and> sm_ud m \<le> int (length buffer));
       gate_dispatch (nat k) (sm_fd m) (take (nat (sm_ud m)) buffer) g
     }
     else Some (g, [Skynet_Error (''Drop unknown connection '' @ fmt_int (sm_fd m) @ '' message''), Socket_Close (sm_fd m)])
   }"

definition gate_connect :: "gate \<Rightarrow> socket_message \<Rightarrow> gate gate_result" where
  "gate_connect g m =
     (if sm_fd m = g_listen_id g then Some (g, [])
      else do {
        k \<leftarrow> hashid_lookup (g_hash g) (sm_fd m);
        Some (g, if k < 0 then [Skynet_Error (''Close unknown connection '' @ fmt_int (sm_fd m)), Socket_Close (sm_fd m)] else [])
      })"

definition gate_close :: "gate \<Rightarrow> socket_message \<Rightarrow> gate gate_result" where
  "gate_close g m = do {
     (k, h) \<leftarrow> hashid_remove (g_hash g) (sm_fd m);
     let g1 = g\<lparr>g_hash := h\<rparr>;
     if 0 \<le> k then do {
       b \<leftarrow> databuffer_clear (cn_buffer (g_conn g1 ! nat k)) (g_mp g1);
       let g2 = put_conn (nat k) (zero_conn\<lparr>cn_id := -1\<rparr>) (put_buffer (nat k) b g1);
       sent \<leftarrow> gate_report g2 (fmt_int (sm_fd m) @ '' close'');
       Some (g2, sent)
     }
     else Some (g1, [])
   }"

text \<open>The text of an accepted connection is cut to the room of \<^verbatim>\<open>remote_name\<close>.\<close>

definition open_conn :: "socket_message \<Rightarrow> connection \<Rightarrow> connection" where
  "open_conn m c =
     (let sz = (if 32 \<le> length (sm_padding m) then 31 else length (sm_padding m))
      in c\<lparr>cn_id := sm_ud m, cn_remote_name := of_bytes (take sz (sm_padding m))\<rparr>)"

definition gate_accept :: "gate \<Rightarrow> socket_message \<Rightarrow> gate gate_result" where
  "gate_accept g m = do {
     c_assert (g_listen_id g = sm_fd m);
     if hashid_full (g_hash g) then Some (g, [Socket_Close (sm_ud m)])
     else do {
       (k, h) \<leftarrow> hashid_insert (g_hash g) (sm_ud m);
       let c = open_conn m (g_conn g ! k);
       let g1 = put_conn k c g\<lparr>g_hash := h\<rparr>;
       sent \<leftarrow> gate_report g1 (fmt_int (cn_id c) @ '' open '' @ fmt_int (cn_id c) @ '' '' @ c_string (cn_remote_name c) @ '':0'');
       Some (g1, sent @ [Skynet_Error (''socket open: '' @ fmt_x (word_of_int (cn_id c)))])
     }
   }"

definition dispatch_socket_message :: "gate \<Rightarrow> socket_message \<Rightarrow> gate gate_result" where
  "dispatch_socket_message g m =
     (if sm_type m = SKYNET_SOCKET_TYPE_DATA then gate_data g m
      else if sm_type m = SKYNET_SOCKET_TYPE_CONNECT then gate_connect g m
      else if sm_type m = SKYNET_SOCKET_TYPE_CLOSE \<or> sm_type m = SKYNET_SOCKET_TYPE_ERROR then gate_close g m
      else if sm_type m = SKYNET_SOCKET_TYPE_ACCEPT then gate_accept g m
      else if sm_type m = SKYNET_SOCKET_TYPE_WARNING then
        Some (g, [Skynet_Error (''fd ('' @ fmt_int (sm_fd m) @ '') send buffer ('' @ fmt_int (sm_ud m) @ '')K'')])
      else Some (g, []))"

subsection \<open>Commands\<close>

text \<open>The string at a position of an array of characters, and \<^verbatim>\<open>strsep\<close> with a space on it.\<close>

definition str_at :: "string \<Rightarrow> nat \<Rightarrow> string" where
  "str_at tmp p = c_string (drop p tmp)"

definition strsep_at :: "string \<Rightarrow> nat \<Rightarrow> string \<times> nat option" where
  "strsep_at tmp p =
     (let s = str_at tmp p; n = length (takeWhile (\<lambda>c. c \<noteq> CHR '' '') s)
      in if n < length s then (tmp[p + n := CHR 0x00], Some (p + n + 1)) else (tmp, None))"

text \<open>Moving the parameter of a command of \<open>command_sz\<close> characters to the front.\<close>

definition gate_parm :: "string \<Rightarrow> nat \<Rightarrow> nat \<Rightarrow> string" where
  "gate_parm msg sz command_sz =
     (let k = command_sz + length (takeWhile (\<lambda>c. c = CHR '' '') (drop command_sz (take sz msg)));
          msg1 = drop k (take sz msg) @ drop (sz - k) msg
      in msg1[sz - k := CHR 0x00])"

text \<open>\<^verbatim>\<open>memcmp(xs, ys, n) == 0\<close>; no array may end before the first difference.\<close>

fun memcmp_eq :: "nat \<Rightarrow> string \<Rightarrow> string \<Rightarrow> bool option" where
  "memcmp_eq 0 xs ys = Some True"
| "memcmp_eq (Suc n) (x # xs) (y # ys) = (if x = y then memcmp_eq n xs ys else Some False)"
| "memcmp_eq (Suc n) xs ys = None"

definition is_command :: "string \<Rightarrow> nat \<Rightarrow> string \<Rightarrow> bool option" where
  "is_command tmp n name = memcmp_eq n tmp (name @ [CHR 0x00])"

definition forward_agent :: "gate \<Rightarrow> int \<Rightarrow> u32 \<Rightarrow> u32 \<Rightarrow> gate option" where
  "forward_agent g fd agentaddr clientaddr = do {
     k \<leftarrow> hashid_lookup (g_hash g) fd;
     Some (if 0 \<le> k then put_conn (nat k) ((g_conn g ! nat k)\<lparr>cn_agent := agentaddr, cn_client := clientaddr\<rparr>) g else g)
   }"

definition ctrl_kick :: "gate \<Rightarrow> string \<Rightarrow> gate gate_result" where
  "ctrl_kick g tmp = do {
     let uid = to_int (strtol10 (str_at tmp 0));
     k \<leftarrow> hashid_lookup (g_hash g) uid;
     Some (g, if 0 \<le> k then [Socket_Close uid] else [])
   }"

text \<open>\<open>agent + 1\<close> may be the start of the next word, when \<open>agent\<close> is empty.\<close>

definition ctrl_forward :: "gate \<Rightarrow> string \<Rightarrow> gate gate_result" where
  "ctrl_forward g tmp =
     (case strsep_at tmp 0 of
        (tmp1, None) \<Rightarrow> Some (g, [])
      | (tmp1, Some agent) \<Rightarrow>
          let fd = to_int (strtol10 (str_at tmp1 0))
          in case strsep_at tmp1 agent of
               (tmp2, None) \<Rightarrow> Some (g, [])
             | (tmp2, Some client) \<Rightarrow> do {
                 c_assert (client + 1 < length tmp2);
                 g1 \<leftarrow> forward_agent g fd (ucast (strtoul16 (str_at tmp2 (agent + 1)))) (ucast (strtoul16 (str_at tmp2 (client + 1))));
                 Some (g1, [])
               })"

definition ctrl_start :: "gate \<Rightarrow> string \<Rightarrow> gate gate_result" where
  "ctrl_start g tmp = do {
     let uid = to_int (strtol10 (str_at tmp 0));
     k \<leftarrow> hashid_lookup (g_hash g) uid;
     Some (g, if 0 \<le> k then [Socket_Start uid] else [])
   }"

definition ctrl_close :: "gate \<Rightarrow> gate gate_result" where
  "ctrl_close g =
     Some (if 0 \<le> g_listen_id g then (g\<lparr>g_listen_id := -1\<rparr>, [Socket_Close (g_listen_id g)]) else (g, []))"

definition gate_ctrl :: "(string \<Rightarrow> u32) \<Rightarrow> gate \<Rightarrow> bytes \<Rightarrow> gate gate_result" where
  "gate_ctrl queryname g msg =
     (let sz = length msg; tmp = of_bytes msg @ [CHR 0x00]; i = length (takeWhile (\<lambda>c. c \<noteq> CHR '' '') (of_bytes msg))
      in if sz = 0 then Some (g, [])
         else do {
           kick \<leftarrow> is_command tmp i ''kick'';
           if kick then ctrl_kick g (gate_parm tmp sz i)
           else do {
             forward \<leftarrow> is_command tmp i ''forward'';
             if forward then ctrl_forward g (gate_parm tmp sz i)
             else do {
               broker \<leftarrow> is_command tmp i ''broker'';
               if broker then Some (g\<lparr>g_broker := queryname (str_at (gate_parm tmp sz i) 0)\<rparr>, [])
               else do {
                 start \<leftarrow> is_command tmp i ''start'';
                 if start then ctrl_start g (gate_parm tmp sz i)
                 else do {
                   close \<leftarrow> is_command tmp i ''close'';
                   if close then ctrl_close g
                   else Some (g, [Skynet_Error (''[gate] Unkown command : '' @ str_at tmp 0)])
                 }
               }
             }
           }
         })"

subsection \<open>The callback\<close>

text \<open>What arrives: a message of bytes, or for the type of the socket layer its structure.\<close>

datatype gate_message = Raw bytes | From_Socket socket_message

definition gate_client :: "gate \<Rightarrow> u32 \<Rightarrow> bytes \<Rightarrow> (int \<times> gate_action list) option" where
  "gate_client g source msg =
     (let sz = length msg
      in if sz \<le> 4 then Some (0, [Skynet_Error (''Invalid client message from '' @ fmt_x source)])
         else
           let idbuf = drop (sz - 4) msg;
               uid = ucast (idbuf ! 0) OR push_bit 8 (ucast (idbuf ! 1)) OR push_bit 16 (ucast (idbuf ! 2)) OR push_bit 24 (ucast (idbuf ! 3)) :: u32
           in do {
             k \<leftarrow> hashid_lookup (g_hash g) (sint uid);
             Some (if 0 \<le> k then (1, [Socket_Send (sint uid) (take (sz - 4) msg)])
                   else (0, [Skynet_Error (''Invalid client id '' @ fmt_int (sint uid) @ '' from '' @ fmt_x source)]))
           })"

definition gate_cb :: "(string \<Rightarrow> u32) \<Rightarrow> u32 \<Rightarrow> u32 \<Rightarrow> gate_message \<Rightarrow> gate \<Rightarrow> ((int \<times> gate) \<times> gate_action list) option" where
  "gate_cb queryname type source message g =
     (if type = PTYPE_TEXT then
        (case message of Raw msg \<Rightarrow> do { (g1, sent) \<leftarrow> gate_ctrl queryname g msg; Some ((0, g1), sent) } | From_Socket m \<Rightarrow> None)
      else if type = PTYPE_CLIENT then
        (case message of Raw msg \<Rightarrow> do { (r, sent) \<leftarrow> gate_client g source msg; Some ((r, g), sent) } | From_Socket m \<Rightarrow> None)
      else if type = PTYPE_SOCKET then
        (case message of Raw msg \<Rightarrow> None | From_Socket m \<Rightarrow> do { (g1, sent) \<leftarrow> dispatch_socket_message g m; Some ((0, g1), sent) })
      else Some ((0, g), []))"

subsection \<open>Start\<close>

text \<open>\<^verbatim>\<open>strrchr\<close> with a colon: what stands before the last one and behind it.\<close>

definition strrchr_colon :: "string \<Rightarrow> (string \<times> string) option" where
  "strrchr_colon s =
     (if CHR '':'' \<in> set s
      then Some (rev (tl (dropWhile (\<lambda>c. c \<noteq> CHR '':'') (rev s))), rev (takeWhile (\<lambda>c. c \<noteq> CHR '':'') (rev s)))
      else None)"

definition BACKLOG :: int where "BACKLOG = 128"

definition start_listen :: "(string \<Rightarrow> int \<Rightarrow> int \<Rightarrow> int) \<Rightarrow> gate \<Rightarrow> string \<Rightarrow> (int \<times> gate) \<times> gate_action list" where
  "start_listen socket_listen g listen_addr =
     (let (host, port) = (case strrchr_colon listen_addr of
            None \<Rightarrow> ([], to_int (strtol10 listen_addr))
          | Some (before, behind) \<Rightarrow> (before, to_int (strtol10 behind)))
      in if port \<le> 0 then ((1, g), [Skynet_Error (''Invalid gate address '' @ listen_addr)])
         else
           let fd = socket_listen host port BACKLOG; g1 = g\<lparr>g_listen_id := fd\<rparr>
           in if fd < 0 then ((1, g1), []) else ((0, g1), [Socket_Start fd]))"

text \<open>\<^verbatim>\<open>%d\<close> of \<^verbatim>\<open>sscanf\<close>.\<close>

definition scan_int :: "string \<Rightarrow> (int \<times> string) option" where
  "scan_int s =
     (let t = dropWhile is_space s; (neg, u) = scan_sign t
      in if u = [] \<or> \<not> is_digit 10 (hd u) then None else Some (to_int (strtol10 t), dropWhile (is_digit 10) u))"

text \<open>\<^verbatim>\<open>sscanf\<close> with the format of the gate: the number of the conversions and the values.\<close>

definition scan_gate_parm :: "string \<Rightarrow> nat \<times> char \<times> string \<times> string \<times> int \<times> int" where
  "scan_gate_parm parm =
     (case parm of
        [] \<Rightarrow> (0, CHR 0x00, [], [], 0, 0)
      | header # s1 \<Rightarrow>
          (case scan_word s1 of
             ([], s2) \<Rightarrow> (1, header, [], [], 0, 0)
           | (watchdog, s2) \<Rightarrow>
               (case scan_word s2 of
                  ([], s3) \<Rightarrow> (2, header, watchdog, [], 0, 0)
                | (binding, s3) \<Rightarrow>
                    (case scan_int s3 of
                       None \<Rightarrow> (3, header, watchdog, binding, 0, 0)
                     | Some (client_tag, s4) \<Rightarrow>
                         (case scan_int s4 of
                            None \<Rightarrow> (4, header, watchdog, binding, client_tag, 0)
                          | Some (maximum, s5) \<Rightarrow> (5, header, watchdog, binding, client_tag, maximum))))))"

definition gate_init :: "(string \<Rightarrow> u32) \<Rightarrow> (string \<Rightarrow> int \<Rightarrow> int \<Rightarrow> int) \<Rightarrow> gate \<Rightarrow> string option \<Rightarrow> ((int \<times> gate) \<times> gate_action list) option" where
  "gate_init queryname socket_listen g parm_opt =
     (case parm_opt of
        None \<Rightarrow> Some ((1, g), [])
      | Some parm \<Rightarrow>
          let (n, header, watchdog, binding, client_tag, maximum) = scan_gate_parm parm
          in if n < 4 then Some ((1, g), [Skynet_Error (''Invalid gate parm '' @ parm)])
             else if maximum \<le> 0 then Some ((1, g), [Skynet_Error ''Need max connection''])
             else if header \<noteq> CHR ''S'' \<and> header \<noteq> CHR ''L'' then Some ((1, g), [Skynet_Error ''Invalid data header style''])
             else
               let tag = (if client_tag = 0 then PTYPE_CLIENT else word_of_int client_tag);
                   g1 = g\<lparr>g_watchdog := (if hd watchdog = CHR ''!'' then 0 else queryname watchdog)\<rparr>
               in if hd watchdog \<noteq> CHR ''!'' \<and> g_watchdog g1 = 0 then Some ((1, g1), [Skynet_Error (''Invalid watchdog '' @ watchdog)])
                  else do {
                    h \<leftarrow> hashid_init (nat maximum);
                    Some (start_listen socket_listen
                      (g1\<lparr>g_hash := h, g_conn := replicate (nat maximum) (zero_conn\<lparr>cn_id := -1\<rparr>), g_max_connection := nat maximum,
                          g_client_tag := tag, g_header_size := (if header = CHR ''S'' then 2 else 4)\<rparr>) binding)
                  })"

subsection \<open>The buffer of one connection\<close>

lemma put_buffer_put [simp]: "put_buffer k b' (put_buffer k b g) = put_buffer k b' g"
  by (cases "k < length (g_conn g)") (simp_all add: put_buffer_def put_conn_def list_update_beyond)

lemma put_buffer_fields [simp]:
  "g_header_size (put_buffer k b g) = g_header_size g" "g_hash (put_buffer k b g) = g_hash g" "g_mp (put_buffer k b g) = snd b"
  "g_listen_id (put_buffer k b g) = g_listen_id g" "g_watchdog (put_buffer k b g) = g_watchdog g" "g_broker (put_buffer k b g) = g_broker g"
  "g_client_tag (put_buffer k b g) = g_client_tag g" "g_max_connection (put_buffer k b g) = g_max_connection g"
  "length (g_conn (put_buffer k b g)) = length (g_conn g)"
  by (simp_all add: put_buffer_def put_conn_def)

lemma put_buffer_conn [simp]: "k < length (g_conn g) \<Longrightarrow> g_conn (put_buffer k b g) ! k = (g_conn g ! k)\<lparr>cn_buffer := fst b\<rparr>"
  by (simp add: put_buffer_def put_conn_def)

text \<open>Whether somebody takes the packets of the connection \<open>k\<close>, and the call that hands one over.\<close>

definition has_target :: "gate \<Rightarrow> nat \<Rightarrow> bool" where
  "has_target g k \<longleftrightarrow> 0 < cn_id (g_conn g ! k) \<and> (g_broker g \<noteq> 0 \<or> cn_agent (g_conn g ! k) \<noteq> 0 \<or> g_watchdog g \<noteq> 0)"

definition deliver :: "gate \<Rightarrow> nat \<Rightarrow> bytes \<Rightarrow> gate_action" where
  "deliver g k p =
     (let c = g_conn g ! k
      in if g_broker g \<noteq> 0 then Skynet_Send 0 (g_broker g) (g_client_tag g OR PTYPE_TAG_DONTCOPY) (cn_id c) p
         else if cn_agent c \<noteq> 0 then Skynet_Send (cn_client c) (cn_agent c) (g_client_tag g OR PTYPE_TAG_DONTCOPY) (cn_id c) p
         else Skynet_Send 0 (g_watchdog g) (PTYPE_TEXT OR PTYPE_TAG_DONTCOPY) (cn_id c) (to_bytes (fmt_int (cn_id c) @ '' data '') @ p))"

text \<open>The text of an \<^verbatim>\<open>int\<close> is short.\<close>

lemma digits_length: "n < 10 ^ Suc m \<Longrightarrow> length (digits 10 n) \<le> Suc m"
proof (induction m arbitrary: n)
  case 0
  then show ?case by (simp add: digits.simps [of 10 n])
next
  case (Suc m)
  then have "n div 10 < 10 ^ Suc m" by (simp add: less_mult_imp_div_less mult.commute)
  then show ?case using Suc.IH [of "n div 10"] by (simp add: digits.simps [of 10 n])
qed

lemma fmt_int_length: "- (10 ^ 10) < k \<Longrightarrow> k < 10 ^ 10 \<Longrightarrow> length (fmt_int k) \<le> 11"
  using digits_length [of "nat k" 9] digits_length [of "nat (- k)" 9] by (auto simp: fmt_int_def fmt_nat_def nat_less_iff)

text \<open>A number fits \<^verbatim>\<open>int\<close>.\<close>

definition is_int :: "int \<Rightarrow> bool" where
  "is_int k \<longleftrightarrow> - (2 ^ 31) \<le> k \<and> k < 2 ^ 31"

lemma is_int_length: "is_int k \<Longrightarrow> length (fmt_int k) \<le> 11"
  by (rule fmt_int_length) (auto simp: is_int_def)


lemma forward_buffer:
  assumes "k < length (g_conn g)" "is_int (cn_id (g_conn g ! k))" "buf_ok others b" "0 < sz" "sz \<le> length (db_content (fst b))"
  shows "\<exists>b'. gate_forward k sz (put_buffer k b g) =
      Some (put_buffer k b' g, if has_target g k then [deliver g k (take sz (db_content (fst b)))] else []) \<and>
    buf_ok others b' \<and> db_header (fst b') = db_header (fst b) \<and>
    db_content (fst b') = (if has_target g k then drop sz (db_content (fst b)) else db_content (fst b))"
proof -
  obtain b' where r: "databuffer_read sz (fst b) (snd b) = Some (take sz (db_content (fst b)), b')" "buf_ok others b'"
    "db_content (fst b') = drop sz (db_content (fst b))" "db_header (fst b') = db_header (fst b)"
    using buf_read [OF assms(3-5)] by blast
  have short: "length (to_bytes (fmt_int (cn_id (g_conn g ! k)) @ '' data '')) < 32"
    using is_int_length [OF assms(2)] by (simp add: to_bytes_def)
  show ?thesis
  proof (cases "has_target g k")
    case True
    then have "gate_forward k sz (put_buffer k b g) = Some (put_buffer k b' g, [deliver g k (take sz (db_content (fst b)))])"
      using r(1) short assms(1) unfolding has_target_def
      by (cases b') (auto simp: gate_forward_def deliver_def Let_def simp del: fmt_int_def)
    then show ?thesis using r True by (intro exI [of _ b']) simp
  next
    case False
    then have "gate_forward k sz (put_buffer k b g) = Some (put_buffer k b g, [])"
      using assms(1) unfolding has_target_def by (auto simp: gate_forward_def Let_def)
    then show ?thesis using False assms(3) by (intro exI [of _ b]) simp
  qed
qed

definition closing :: "int \<Rightarrow> cut_end \<Rightarrow> gate_action list" where
  "closing fd e = (case e of Waiting h r \<Rightarrow> [] | Oversized \<Rightarrow> [Socket_Close fd, Skynet_Error ''Recv socket message > 16M''])"

text \<open>The header and the content of the buffer afterwards.\<close>

definition left_over :: "cut_end \<Rightarrow> int \<times> bytes" where
  "left_over e = (case e of Waiting h r \<Rightarrow> (h, r) | Oversized \<Rightarrow> (0, []))"

lemma loop_buffer:
  assumes "k < length (g_conn g)" "is_int (cn_id (g_conn g ! k))" "0 < g_header_size g"
  shows "buf_ok others b \<Longrightarrow> con = has_target g k \<Longrightarrow> hs = g_header_size g \<Longrightarrow> h = db_header (fst b) \<Longrightarrow> bs = db_content (fst b) \<Longrightarrow>
    \<exists>b'. gate_loop k fd (put_buffer k b g) =
      Some (put_buffer k b' g, (if con then map (deliver g k) (fst (cut con hs h bs)) else []) @ closing fd (snd (cut con hs h bs))) \<and>
    buf_ok others b' \<and> (db_header (fst b'), db_content (fst b')) = left_over (snd (cut con hs h bs))"
proof (induction con hs h bs arbitrary: b rule: cut.induct)
  case (1 con hs h bs)
  have hs: "0 < hs" using 1(5) assms(3) by simp
  obtain b1 where b1: "databuffer_readheader hs (fst b) (snd b) =
      Some (case next_header hs h bs of None \<Rightarrow> -1 | Some (v, body) \<Rightarrow> if int (length body) < v then -1 else v, b1)"
    "buf_ok others b1" "(db_header (fst b1), db_content (fst b1)) = (case next_header hs h bs of None \<Rightarrow> (0, bs) | Some r \<Rightarrow> r)"
    using readheader_correct [OF 1(3) hs] 1(6,7) by auto
  note unfold = gate_loop.simps [of k fd "put_buffer k b g"]
  show ?case
  proof (cases "next_header hs h bs")
    case None
    then have c: "cut con hs h bs = ([], Waiting 0 bs)" using hs by (simp add: cut.simps [of con hs h bs])
    show ?thesis
      unfolding c using None b1 assms(1) 1(5) by (intro exI [of _ b1]) (simp add: unfold closing_def left_over_def)
  next
    case (Some r)
    obtain v body where r: "r = (v, body)" by (cases r)
    note nh = Some [unfolded r]
    note b1 = b1 [unfolded nh, simplified]
    consider (waits) "v < 0 \<or> int (length body) < v" | (zero) "v = 0" | (over) "0x1000000 \<le> v" "v \<le> int (length body)"
      | (packet) "0 < v" "v < 0x1000000" "v \<le> int (length body)" by linarith
    then show ?thesis
    proof cases
      case waits
      then have c: "cut con hs h bs = ([], Waiting v body)" using hs nh by (simp add: cut.simps [of con hs h bs])
      show ?thesis
        unfolding c using waits b1 assms(1) 1(5) by (intro exI [of _ b1]) (auto simp: unfold closing_def left_over_def)
    next
      case zero
      then have v: "\<not> (v < 0 \<or> int (length body) < v)" by simp
      have c: "cut con hs h bs = cut con hs 0 body" using hs nh zero by (simp add: cut.simps [of con hs h bs])
      have l: "gate_loop k fd (put_buffer k b g) = gate_loop k fd (put_buffer k b1 g)"
        using zero b1(1) assms(1) 1(5) by (simp add: unfold)
      have "db_header (fst b1) = 0" "db_content (fst b1) = body" using b1(3) zero by auto
      from 1(1) [OF _ nh refl v zero b1(2) 1(4,5) this [symmetric]] hs show ?thesis unfolding c l by simp
    next
      case over
      obtain mp where clear: "databuffer_clear (fst b1) (snd b1) = Some (db_init, mp)" "buf_ok others (db_init, mp)"
        using buf_clear [OF b1(2)] by blast
      have "(db_header db_init, db_content db_init) = (0, [])" by (simp add: db_init_ok) (simp add: db_init_def)
      moreover have c: "cut con hs h bs = ([], Oversized)" using hs nh over by (simp add: cut.simps [of con hs h bs])
      ultimately show ?thesis
        unfolding c using over b1 assms(1) 1(5) clear
        by (intro exI [of _ "(db_init, mp)"]) (auto simp: unfold closing_def left_over_def)
    next
      case packet
      have v: "\<not> (v < 0 \<or> int (length body) < v)" "v \<noteq> 0" "\<not> 0x1000000 \<le> v" using packet by auto
      have cb: "db_content (fst b1) = body" "0 < nat v" "nat v \<le> length body" using b1(3) packet by auto
      obtain b2 where b2: "gate_forward k (nat v) (put_buffer k b1 g) =
          Some (put_buffer k b2 g, if has_target g k then [deliver g k (take (nat v) body)] else [])"
        "buf_ok others b2" "db_content (fst b2) = (if has_target g k then drop (nat v) body else body)"
        using forward_buffer [OF assms(1,2) b1(2) cb(2), unfolded cb(1), OF cb(3)] by blast
      let ?b3 = "(databuffer_reset (fst b2), snd b2)"
      define rest where "rest = (if con then drop (nat v) body else body)"
      obtain b' where b': "gate_loop k fd (put_buffer k ?b3 g) =
          Some (put_buffer k b' g, (if con then map (deliver g k) (fst (cut con hs 0 rest)) else []) @ closing fd (snd (cut con hs 0 rest)))"
        "buf_ok others b'" "(db_header (fst b'), db_content (fst b')) = left_over (snd (cut con hs 0 rest))"
        using 1(2) [OF _ nh refl v buf_reset [OF b2(2)] 1(4,5), folded rest_def] hs b2(3) 1(4) rest_def by (simp del: split_paired_Ex) blast
      have l: "gate_loop k fd (put_buffer k b g) =
          (do { (g3, sent2) \<leftarrow> gate_loop k fd (put_buffer k ?b3 g);
                Some (g3, (if con then [deliver g k (take (nat v) body)] else []) @ sent2) })"
        using packet b1(1) b2(1) assms(1) 1(4,5) by (simp add: unfold)
      have c: "cut con hs h bs = (take (nat v) body # fst (cut con hs 0 rest), snd (cut con hs 0 rest))"
        using hs nh v by (simp add: cut.simps [of con hs h bs] Let_def split_beta rest_def)
      show ?thesis unfolding l c using b' by (intro exI [of _ b']) simp
    qed
  qed
qed

subsection \<open>The invariant\<close>

abbreviation free_conn :: connection where "free_conn \<equiv> zero_conn\<lparr>cn_id := -1\<rparr>"

definition conn_use :: "connection \<Rightarrow> nat multiset" where
  "conn_use c = db_nodes (cn_buffer c)"

definition pool_use :: "connection list \<Rightarrow> nat multiset" where
  "pool_use cs = sum_list (map conn_use cs)"

definition others :: "connection list \<Rightarrow> nat \<Rightarrow> nat multiset" where
  "others cs k = pool_use (take k cs) + pool_use (drop (Suc k) cs)"

text \<open>
  The slots of the table and the connections agree, a free slot has no rest of the connection that
  had it before, no buffer holds a complete packet, and every node of the pool is free or in one buffer.
\<close>

definition gate_ok :: "gate \<Rightarrow> bool" where
  "gate_ok g \<longleftrightarrow> hi_ok (g_hash g) \<and> hi_cap (g_hash g) = g_max_connection g \<and> length (g_conn g) = g_max_connection g \<and>
     g_header_size g \<in> {2, 4} \<and>
     (\<forall>fd k. slot_map (g_hash g) fd = Some k \<longrightarrow> cn_id (g_conn g ! k) = fd \<and> is_int fd) \<and>
     (\<forall>k < g_max_connection g. db_ok (cn_buffer (g_conn g ! k)) \<and> settled (g_header_size g) (cn_buffer (g_conn g ! k)) \<and>
        (k \<notin> ran (slot_map (g_hash g)) \<longrightarrow> g_conn g ! k = free_conn)) \<and>
     mp_ok (pool_use (g_conn g)) (g_mp g)"

lemma pool_split: "k < length cs \<Longrightarrow> pool_use cs = conn_use (cs ! k) + others cs k"
  by (subst id_take_nth_drop [of k cs]) (simp_all add: pool_use_def others_def)

lemma others_update [simp]: "others (cs[k := c]) k = others cs k"
  by (simp add: others_def)

lemma gate_buf_ok: "gate_ok g \<Longrightarrow> k < g_max_connection g \<Longrightarrow> buf_ok (others (g_conn g) k) (cn_buffer (g_conn g ! k), g_mp g)"
  using pool_split [of k "g_conn g"] by (simp add: gate_ok_def buf_ok_def conn_use_def)

lemma used_slot:
  assumes "gate_ok g" "slot_map (g_hash g) fd = Some k"
  shows "k < g_max_connection g" "cn_id (g_conn g ! k) = fd" "is_int fd" "k < length (g_conn g)" "k \<in> ran (slot_map (g_hash g))"
  using assms hs.slot_bound [of "g_hash g" fd k] by (auto simp: gate_ok_def intro: ranI)

lemma put_buffer_ok:
  assumes ok: "gate_ok g" and k: "slot_map (g_hash g) fd = Some k" and b: "buf_ok (others (g_conn g) k) b" "settled (g_header_size g) (fst b)"
  shows "gate_ok (put_buffer k b g)"
proof -
  note u = used_slot [OF ok k]
  have "pool_use (g_conn (put_buffer k b g)) = db_nodes (fst b) + others (g_conn g) k"
    using pool_split [of k "g_conn (put_buffer k b g)"] u(4) by (simp add: put_buffer_def put_conn_def conn_use_def)
  moreover have "g_conn (put_buffer k b g) ! j = (if j = k then (g_conn g ! k)\<lparr>cn_buffer := fst b\<rparr> else g_conn g ! j)" for j
    using u(4) by (simp add: put_buffer_def put_conn_def nth_list_update)
  ultimately show ?thesis using ok u b by (auto simp: gate_ok_def buf_ok_def)
qed

text \<open>Another connection in a slot, with the table changed for it.\<close>

lemma put_conn_ok:
  assumes ok: "gate_ok g" and k: "k < g_max_connection g" and h: "hi_ok h" "hi_cap h = g_max_connection g"
    and slots: "\<And>fd j. slot_map h fd = Some j \<Longrightarrow> (if j = k then cn_id c = fd \<and> is_int fd else slot_map (g_hash g) fd = Some j)"
      "\<And>j. j \<noteq> k \<Longrightarrow> j \<in> ran (slot_map (g_hash g)) \<Longrightarrow> j \<in> ran (slot_map h)"
    and c: "db_ok (cn_buffer c) \<and> settled (g_header_size g) (cn_buffer c)" "k \<notin> ran (slot_map h) \<Longrightarrow> c = free_conn" "mp_ok (conn_use c + others (g_conn g) k) mp"
  shows "gate_ok (g\<lparr>g_hash := h, g_conn := (g_conn g)[k := c], g_mp := mp\<rparr>)"
proof -
  have len: "k < length (g_conn g)" using ok k(1) by (simp add: gate_ok_def)
  have "pool_use ((g_conn g)[k := c]) = conn_use c + others (g_conn g) k"
    using pool_split [of k "(g_conn g)[k := c]"] len by simp
  moreover have "cn_id ((g_conn g)[k := c] ! j) = fd \<and> is_int fd" if "slot_map h fd = Some j" for fd j
    using slots(1) [OF that] ok len by (auto simp: gate_ok_def nth_list_update split: if_splits)
  moreover have "db_ok (cn_buffer ((g_conn g)[k := c] ! j)) \<and> settled (g_header_size g) (cn_buffer ((g_conn g)[k := c] ! j)) \<and> (j \<notin> ran (slot_map h) \<longrightarrow> (g_conn g)[k := c] ! j = free_conn)"
    if "j < g_max_connection g" for j
    using that slots(2) [of j] ok len c(1,2) by (auto simp: gate_ok_def nth_list_update)
  ultimately show ?thesis using ok h c(3) by (simp add: gate_ok_def)
qed

text \<open>Data for an open connection.\<close>

lemma dispatch_data:
  assumes ok: "gate_ok g" and k: "slot_map (g_hash g) fd = Some k"
    and room: "length (db_content (cn_buffer (g_conn g ! k))) + length data \<le> int_max"
    and r: "cut (has_target g k) (g_header_size g) (db_header (cn_buffer (g_conn g ! k))) (db_content (cn_buffer (g_conn g ! k)) @ data) = (ps, e)"
  shows "\<exists>b. gate_dispatch k fd data g =
      Some (put_buffer k b g, (if has_target g k then map (deliver g k) ps else []) @ closing fd e) \<and>
    gate_ok (put_buffer k b g) \<and> (db_header (fst b), db_content (fst b)) = left_over e"
proof -
  note u = used_slot [OF ok k]
  note bo = gate_buf_ok [OF ok u(1)]
  obtain b0 where p: "databuffer_push data (cn_buffer (g_conn g ! k)) (g_mp g) = Some b0" and b0: "buf_ok (others (g_conn g) k) b0" "db_content (fst b0) = db_content (cn_buffer (g_conn g ! k)) @ data"
    "db_header (fst b0) = db_header (cn_buffer (g_conn g ! k))"
    using buf_push [OF bo, of data] room by auto
  have "0 < g_header_size g" "is_int (cn_id (g_conn g ! k))" using ok u by (auto simp: gate_ok_def)
  from loop_buffer [OF u(4) this(2,1) b0(1) refl refl refl refl, of fd, unfolded b0(2,3) r] obtain b where
    b: "gate_loop k fd (put_buffer k b0 g) = Some (put_buffer k b g, (if has_target g k then map (deliver g k) ps else []) @ closing fd e)"
    "buf_ok (others (g_conn g) k) b" "(db_header (fst b), db_content (fst b)) = left_over e"
    by auto
  moreover have "settled (g_header_size g) (fst b)"
  proof (cases e)
    case (Waiting h' r')
    have "0 < g_header_size g" "header_ok (g_header_size g) (db_header (cn_buffer (g_conn g ! k)))"
      using ok u(1) by (auto simp: gate_ok_def settled_def)
    from cut_waiting [OF r [unfolded Waiting] this] show ?thesis using b(3) Waiting by (simp add: left_over_def settled_def)
  next
    case Oversized
    then show ?thesis using b(3) ok by (auto simp: left_over_def settled_def header_ok_def gate_ok_def)
  qed
  ultimately show ?thesis using put_buffer_ok [OF ok k b(2)] p by (intro exI [of _ b]) (simp add: gate_dispatch_def)
qed

text \<open>The other socket messages.\<close>

lemma report_short: "length data < 1024 \<Longrightarrow> \<exists>sent. gate_report g data = Some sent"
  by (simp add: gate_report_def)



lemma accept_correct:
  assumes ok: "gate_ok g" and fd: "g_listen_id g = sm_fd m" "slot_map (g_hash g) (sm_ud m) = None" "is_int (sm_ud m)"
    "0 \<le> sm_ud m" "sm_ud m + int (g_max_connection g) \<le> int int_max + 1"
  shows "\<exists>g' sent. gate_accept g m = Some (g', sent) \<and> gate_ok g' \<and>
    (if hashid_full (g_hash g) then g' = g \<and> sent = [Socket_Close (sm_ud m)]
     else \<exists>k. k \<notin> ran (slot_map (g_hash g)) \<and> slot_map (g_hash g') = (slot_map (g_hash g))(sm_ud m \<mapsto> k) \<and> cn_agent (g_conn g' ! k) = 0 \<and> cn_buffer (g_conn g' ! k) = db_init)"
proof (cases "hashid_full (g_hash g)")
  case True
  then show ?thesis using ok fd(1) by (simp add: gate_accept_def)
next
  case False
  have hok: "hi_ok (g_hash g)" "hi_cap (g_hash g) = g_max_connection g" using ok by (simp_all add: gate_ok_def)
  have "admits_id (g_hash g) (sm_ud m)" using False fd hok(2) by (simp add: admits_id_def)
  from hs.insertion [OF hok(1) this fd(2)] obtain k h where h: "hashid_insert (g_hash g) (sm_ud m) = Some (k, h)" "hi_ok h" "hi_cap h = hi_cap (g_hash g)"
    "k \<notin> ran (slot_map (g_hash g))" "slot_map h = (slot_map (g_hash g))(sm_ud m \<mapsto> k)" by blast
  have k: "k < g_max_connection g" using hs.slot_bound [OF h(2), of "sm_ud m" k] h(3,5) hok(2) by simp
  then have free: "g_conn g ! k = free_conn" using ok h(4) by (simp add: gate_ok_def)
  define c where "c = open_conn m (g_conn g ! k)"
  have c: "cn_id c = sm_ud m" "cn_agent c = 0" "cn_buffer c = db_init" by (simp_all add: c_def open_conn_def free zero_conn_def)
  have nm: "length (cn_remote_name c) \<le> 31" by (simp add: c_def open_conn_def of_bytes_def)
  then have "length (c_string (cn_remote_name c)) \<le> 31" unfolding c_string_def using length_takeWhile_le [of _ "cn_remote_name c"] le_trans by blast
  then have "length (fmt_int (cn_id c) @ '' open '' @ fmt_int (cn_id c) @ '' '' @ c_string (cn_remote_name c) @ '':0'') < 1024"
    using is_int_length [OF fd(3)] c(1) by simp
  note rep = report_short [OF this]
  define g' where "g' = g\<lparr>g_hash := h, g_conn := (g_conn g)[k := c], g_mp := g_mp g\<rparr>"
  have "gate_ok g'" unfolding g'_def
  proof (rule put_conn_ok [OF ok k h(2)])
    fix x j assume x: "slot_map h x = Some j"
    then show "if j = k then cn_id c = x \<and> is_int x else slot_map (g_hash g) x = Some j"
      using h(4,5) fd(3) c(1) by (auto simp: ran_def split: if_splits)
  next
    fix j assume "j \<noteq> k" "j \<in> ran (slot_map (g_hash g))"
    then obtain x where x: "slot_map (g_hash g) x = Some j" by (auto simp: ran_def)
    then have "x \<noteq> sm_ud m" using fd(2) by auto
    then show "j \<in> ran (slot_map h)" using h(5) x by (intro ranI [of _ x]) simp
  next
    have "conn_use (g_conn g ! k) = conn_use c" using free c(3) by (simp add: conn_use_def zero_conn_def)
    then show "mp_ok (conn_use c + others (g_conn g) k) (g_mp g)"
      using ok k pool_split [of k "g_conn g"] by (simp add: gate_ok_def)
  next
    have "k \<in> ran (slot_map h)" using h(5) by (intro ranI [of _ "sm_ud m"]) simp
    then show "k \<notin> ran (slot_map h) \<Longrightarrow> c = free_conn" by simp
  qed (use h hok c ok in \<open>auto simp: db_init_ok gate_ok_def settled_init\<close>)
  moreover have "\<exists>sent. gate_accept g m = Some (g', sent)"
  proof -
    have g_eq: "put_conn k c g\<lparr>g_hash := h\<rparr> = g'" by (simp add: put_conn_def g'_def)
    obtain s0 where "gate_report g' (fmt_int (cn_id c) @ '' open '' @ fmt_int (cn_id c) @ '' '' @ c_string (cn_remote_name c) @ '':0'') = Some s0"
      using rep [of g'] by blast
    then show ?thesis
      using False fd(1) h(1) by (simp add: gate_accept_def Let_def c_def [symmetric] g_eq)
  qed
  moreover have "k < length (g_conn g)" using ok k by (simp add: gate_ok_def)
  ultimately show ?thesis using False h(4,5) c(2,3) by (auto simp: g'_def intro!: exI [of _ k])
qed










subsection \<open>Reachable states\<close>

text \<open>
  What the socket layer and the other services promise: data come with their buffer, an accepted
  socket is open and new, and commands are texts.
\<close>

definition valid_socket :: "gate \<Rightarrow> socket_message \<Rightarrow> bool" where
  "valid_socket g m \<longleftrightarrow>
     (sm_type m = SKYNET_SOCKET_TYPE_DATA \<longrightarrow> sm_buffer m \<noteq> None \<and> sm_ud m = int (length (the (sm_buffer m)))) \<and>
     (sm_type m = SKYNET_SOCKET_TYPE_ACCEPT \<longrightarrow> slot_map (g_hash g) (sm_ud m) = None \<and> is_int (sm_ud m) \<and>
       0 \<le> sm_ud m \<and> sm_ud m + int (g_max_connection g) \<le> int int_max + 1)"

definition valid_message :: "gate \<Rightarrow> u32 \<Rightarrow> gate_message \<Rightarrow> bool" where
  "valid_message g type message \<longleftrightarrow>
     (case message of Raw msg \<Rightarrow> type \<noteq> PTYPE_SOCKET \<and> (type = PTYPE_TEXT \<longrightarrow> 0 \<notin> set msg) | From_Socket m \<Rightarrow> type = PTYPE_SOCKET \<and> valid_socket g m)"

lemma ptypes_differ: "PTYPE_SOCKET \<noteq> PTYPE_TEXT" "PTYPE_SOCKET \<noteq> PTYPE_CLIENT"
  by (simp_all add: PTYPE_SOCKET_def PTYPE_TEXT_def PTYPE_CLIENT_def)

lemma socket_types_differ:
  "SKYNET_SOCKET_TYPE_CONNECT \<noteq> SKYNET_SOCKET_TYPE_DATA" "SKYNET_SOCKET_TYPE_CLOSE \<noteq> SKYNET_SOCKET_TYPE_DATA"
  "SKYNET_SOCKET_TYPE_ERROR \<noteq> SKYNET_SOCKET_TYPE_DATA" "SKYNET_SOCKET_TYPE_ACCEPT \<noteq> SKYNET_SOCKET_TYPE_DATA"
  "SKYNET_SOCKET_TYPE_CLOSE \<noteq> SKYNET_SOCKET_TYPE_CONNECT" "SKYNET_SOCKET_TYPE_ERROR \<noteq> SKYNET_SOCKET_TYPE_CONNECT"
  "SKYNET_SOCKET_TYPE_ACCEPT \<noteq> SKYNET_SOCKET_TYPE_CONNECT" "SKYNET_SOCKET_TYPE_ACCEPT \<noteq> SKYNET_SOCKET_TYPE_CLOSE"
  "SKYNET_SOCKET_TYPE_ACCEPT \<noteq> SKYNET_SOCKET_TYPE_ERROR"
  by (simp_all add: SKYNET_SOCKET_TYPE_DATA_def SKYNET_SOCKET_TYPE_CONNECT_def SKYNET_SOCKET_TYPE_CLOSE_def SKYNET_SOCKET_TYPE_ACCEPT_def
      SKYNET_SOCKET_TYPE_ERROR_def)

text \<open>
  The messages at which the gate stops: the acceptance on a socket that is not the listening one (any
  more) fails an \<^verbatim>\<open>assert\<close>, and data for a connection that has kept so much that the sum does not fit
  \<^verbatim>\<open>int\<close> overflow it.
\<close>

definition overflows :: "gate \<Rightarrow> socket_message \<Rightarrow> bool" where
  "overflows g m \<longleftrightarrow>
     (case slot_map (g_hash g) (sm_fd m) of None \<Rightarrow> False
      | Some k \<Rightarrow> int int_max < int (length (db_content (cn_buffer (g_conn g ! k)))) + sm_ud m)"



lemma data_overflows:
  assumes ok: "gate_ok g" and m: "sm_buffer m = Some data" "sm_ud m = int (length data)" "overflows g m"
  shows "gate_data g m = None"
proof -
  obtain k where k: "slot_map (g_hash g) (sm_fd m) = Some k" "int_max < length (db_content (cn_buffer (g_conn g ! k))) + length data"
    using m(2,3) by (auto simp: overflows_def split: option.splits)
  have "hi_ok (g_hash g)" "db_ok (cn_buffer (g_conn g ! k))" using ok used_slot(1) [OF ok k(1)] by (simp_all add: gate_ok_def)
  then show ?thesis using push_overflow [OF _ k(2)] hs.lookup [of "g_hash g" "sm_fd m"] m(1,2) k(1) by (simp add: gate_data_def gate_dispatch_def)
qed




lemma start_listen_state:
  "start_listen socket_listen g addr = ((r, g'), sent) \<Longrightarrow> gate_ok g \<Longrightarrow> gate_ok g' \<and> g_hash g' = g_hash g \<and> g_header_size g' = g_header_size g"
  by (auto simp: start_listen_def gate_ok_def Let_def split: prod.splits option.splits if_splits)

lemma init_correct:
  assumes "gate_init queryname socket_listen gate_create parm = Some ((0, g), sent)"
  shows "gate_ok g \<and> slot_map (g_hash g) = Map.empty"
proof -
  obtain n header watchdog binding client_tag maximum where p: "scan_gate_parm (the parm) = (n, header, watchdog, binding, client_tag, maximum)"
    by (cases "scan_gate_parm (the parm)")
  obtain h w tag where h: "hashid_init (nat maximum) = Some h" and r: "start_listen socket_listen
      (gate_create\<lparr>g_watchdog := w, g_hash := h, g_conn := replicate (nat maximum) free_conn, g_max_connection := nat maximum,
        g_client_tag := tag, g_header_size := (if header = CHR ''S'' then 2 else 4)\<rparr>) binding = ((0, g), sent)"
    using assms p by (cases parm) (auto simp: gate_init_def Let_def bind_Some_iff split: if_splits)
  note hi = hashid_init_ok [OF h]
  have "pool_use (replicate n free_conn) = {#}" for n
    by (induction n) (simp_all add: pool_use_def conn_use_def zero_conn_def db_init_ok)
  then have "gate_ok (gate_create\<lparr>g_watchdog := w, g_hash := h, g_conn := replicate (nat maximum) free_conn, g_max_connection := nat maximum,
      g_client_tag := tag, g_header_size := (if header = CHR ''S'' then 2 else 4)\<rparr>)"
    using hi by (auto simp: gate_ok_def gate_create_def mp_ok_def mp_init_def zero_conn_def db_init_ok settled_init)
  from start_listen_state [OF r this] show ?thesis using hi by simp
qed


inductive gate_reach :: "(string \<Rightarrow> u32) \<Rightarrow> (string \<Rightarrow> int \<Rightarrow> int \<Rightarrow> int) \<Rightarrow> gate \<Rightarrow> bool" for queryname socket_listen where
  started: "gate_init queryname socket_listen gate_create parm = Some ((0, g), sent) \<Longrightarrow> gate_reach queryname socket_listen g"
| served: "gate_reach queryname socket_listen g \<Longrightarrow> valid_message g type message \<Longrightarrow>
    gate_cb queryname type source message g = Some ((r, g'), sent) \<Longrightarrow> gate_reach queryname socket_listen g'"


subsection \<open>What goes wrong\<close>

text \<open>A header of four bytes whose first one is 128 or more is negative; the connection then takes data for ever and delivers nothing.\<close>

lemma negative_header_stuck:
  "header_value 4 [0x80, 0, 0, 0] < 0" "0 < hs \<Longrightarrow> h < 0 \<Longrightarrow> cut con hs h bs = ([], Waiting h bs)"
  by (simp_all add: header_value_def cut.simps [of con hs h bs] next_header_def)

text \<open>A packet that is too large is buffered until all of it is there.\<close>

lemma large_packet_buffered:
  "length bs < 0x7fffffff \<Longrightarrow> 0 < hs \<Longrightarrow> cut con hs 0x7fffffff bs = ([], Waiting 0x7fffffff bs)"
  by (simp add: cut.simps [of con hs "0x7fffffff" bs] next_header_def)

text \<open>When nobody takes the packets, the bytes of a packet are taken for headers.\<close>

lemma payload_as_header: "cut False 2 0 [0, 2, 0, 1, 9] = ([[0, 1], [9]], Waiting 0 [9])"
  by (simp add: cut.simps [of False] next_header_def header_value_def)

text \<open>A text that starts with a space is the command to kick, and so is every beginning of that word.\<close>

lemma empty_command_kicks:
  assumes "gate_ok g" "slot_map (g_hash g) 5 = Some k"
  shows "gate_ctrl queryname g (to_bytes '' 5'') = Some (g, [Socket_Close 5])"
    "gate_ctrl queryname g (to_bytes ''k 5'') = Some (g, [Socket_Close 5])"
proof -
  have "hashid_lookup (g_hash g) 5 = Some (int k)" using assms hs.lookup [of "g_hash g" 5] by (simp add: gate_ok_def)
  moreover have "to_int (strtol10 ''5'') = 5"
    by (simp add: to_int_def strtol10_def is_space_def clamp_long_def digit_val_def scan_digits.simps)
  ultimately have kick: "ctrl_kick g (''5'' @ CHR 0x00 # cs) = Some (g, [Socket_Close 5])" for cs
    by (simp add: ctrl_kick_def str_at_def c_string_def)
  have "gate_parm ('' 5'' @ [CHR 0x00]) (Suc (Suc 0)) 0 = ''5'' @ CHR 0x00 # [CHR 0x00]" "gate_parm (''k 5'' @ [CHR 0x00]) (Suc (Suc (Suc 0))) 1 = ''5'' @ CHR 0x00 # ''5'' @ [CHR 0x00]"
    by (simp_all add: gate_parm_def Let_def)
  then show "gate_ctrl queryname g (to_bytes '' 5'') = Some (g, [Socket_Close 5])" "gate_ctrl queryname g (to_bytes ''k 5'') = Some (g, [Socket_Close 5])"
    using kick by (simp_all add: gate_ctrl_def of_to_bytes to_bytes_length is_command_def Let_def)
qed

text \<open>A connection that was accepted before the listening socket is closed by a command, but whose message comes later, fails the \<^verbatim>\<open>assert\<close>.\<close>

lemma accept_after_close:
  assumes "0 \<le> g_listen_id g" "ctrl_close g = Some (g', sent)" "sm_type m = SKYNET_SOCKET_TYPE_ACCEPT" "sm_fd m = g_listen_id g"
  shows "dispatch_socket_message g' m = None"
  using assms socket_types_differ by (auto simp: ctrl_close_def dispatch_socket_message_def gate_accept_def)

subsection \<open>Properties\<close>

text \<open>A gate that was started and one with a connection, for the witnesses.\<close>

lemma example_start:
  "\<exists>g sent. gate_init (\<lambda>name. 7) (\<lambda>host port backlog. 3) gate_create (Some ''Sw 80 0 2'') = Some ((0, g), sent) \<and>
     g_listen_id g = 3 \<and> g_watchdog g = 7 \<and> g_max_connection g = 2 \<and> g_header_size g = 2"
proof -
  have p: "scan_gate_parm ''Sw 80 0 2'' = (5, CHR ''S'', ''w'', ''80'', 0, 2)" by code_simp
  have l: "strrchr_colon ''80'' = None" "to_int (strtol10 ''80'') = 80" by code_simp+
  obtain h where "hashid_init 2 = Some h" using hashid_init_some [of 2] by auto
  then show ?thesis using p l by (simp add: gate_init_def start_listen_def Let_def)
qed

abbreviation accept_message :: "int \<Rightarrow> socket_message" where
  "accept_message fd \<equiv> \<lparr>sm_type = SKYNET_SOCKET_TYPE_ACCEPT, sm_id = 3, sm_ud = fd, sm_buffer = None, sm_padding = to_bytes ''10.0.0.9''\<rparr>"

lemma example_connection:
  "\<exists>g k. gate_reach (\<lambda>name. 7) (\<lambda>host port backlog. 3) g \<and> gate_ok g \<and> slot_map (g_hash g) 5 = Some k \<and> has_target g k \<and>
     g_header_size g = 2 \<and> cn_buffer (g_conn g ! k) = db_init"
proof -
  obtain g0 s0 where g0: "gate_init (\<lambda>name. 7) (\<lambda>host port backlog. 3) gate_create (Some ''Sw 80 0 2'') = Some ((0, g0), s0)"
    "g_listen_id g0 = 3" "g_watchdog g0 = 7" "g_max_connection g0 = 2" "g_header_size g0 = 2" using example_start by blast
  have ok: "gate_ok g0" and empty: "slot_map (g_hash g0) = Map.empty" using init_correct [OF g0(1)] by simp_all
  have nf: "\<not> hashid_full (g_hash g0)"
    using ok empty g0(4) slot_map_card [of "g_hash g0"] by (simp add: gate_ok_def hashid_full_def)
  have fd: "is_int 5" by (simp add: is_int_def)
  obtain g1 s1 k where g1: "gate_accept g0 (accept_message 5) = Some (g1, s1)" "gate_ok g1" "slot_map (g_hash g1) = [5 \<mapsto> k]"
    "cn_buffer (g_conn g1 ! k) = db_init"
    using accept_correct [OF ok, of "accept_message 5"] g0(2,4) empty fd nf by auto
  have same: "g_watchdog g1 = 7" "g_header_size g1 = 2" using g1(1) nf g0 by (auto simp: gate_accept_def bind_Some_iff Let_def put_conn_def)
  have "gate_cb (\<lambda>name. 7) PTYPE_SOCKET 0 (From_Socket (accept_message 5)) g0 = Some ((0, g1), s1)"
    using g1(1) ptypes_differ socket_types_differ by (simp add: gate_cb_def dispatch_socket_message_def)
  moreover have "valid_message g0 PTYPE_SOCKET (From_Socket (accept_message 5))"
    using g0(2,4) empty fd socket_types_differ by (simp add: valid_message_def valid_socket_def)
  ultimately have "gate_reach (\<lambda>name. 7) (\<lambda>host port backlog. 3) g1" by (rule served [OF started [OF g0(1)], rotated])
  moreover have "has_target g1 k" using used_slot [OF g1(2), of 5 k] g1(3) same(1) by (simp add: has_target_def)
  ultimately show ?thesis using g1(2-4) same(2) by auto
qed

text \<open>C37. Data that arrive for an open connection are cut into packets: the packets that the bytes kept before and the new ones
  complete are forwarded in order to the broker, the agent or the watchdog, what is left waits in the buffer, a packet of 16 MB or more
  closes the connection and drops its buffer; nothing else of the gate changes and the handler always returns. This holds as long as the
  bytes kept and the new ones together fit the int in which their number is kept; when they do not, that int overflows.\<close>

theorem gate_framing:
  assumes "gate_ok g" "slot_map (g_hash g) (sm_fd m) = Some k"
    "sm_type m = SKYNET_SOCKET_TYPE_DATA" "sm_buffer m = Some data" "sm_ud m = int (length data)"
    "cut (has_target g k) (g_header_size g) (db_header (cn_buffer (g_conn g ! k))) (db_content (cn_buffer (g_conn g ! k)) @ data) = (ps, e)"
  shows "if length (db_content (cn_buffer (g_conn g ! k))) + length data \<le> int_max
    then \<exists>b. dispatch_socket_message g m =
        Some (put_buffer k b g, (if has_target g k then map (deliver g k) ps else []) @ closing (sm_fd m) e) \<and>
      gate_ok (put_buffer k b g) \<and> (db_header (fst b), db_content (fst b)) = left_over e
    else dispatch_socket_message g m = None"
proof (cases "length (db_content (cn_buffer (g_conn g ! k))) + length data \<le> int_max")
  case True
  have "hi_ok (g_hash g)" using assms(1) by (simp add: gate_ok_def)
  from hs.lookup [OF this, of "sm_fd m"] have "dispatch_socket_message g m = gate_dispatch k (sm_fd m) data g"
    using assms(2-5) by (simp add: dispatch_socket_message_def gate_data_def)
  then show ?thesis using dispatch_data [OF assms(1,2) True assms(6)] True by simp
next
  case False
  then have "overflows g m" using assms(2,5) by (simp add: overflows_def)
  from data_overflows [OF assms(1,4,5) this] show ?thesis using False assms(3) by (simp add: dispatch_socket_message_def)
qed

theorem gate_framing_witness:
  "\<exists>g k b. gate_ok g \<and> slot_map (g_hash g) 5 = Some k \<and>
     dispatch_socket_message g \<lparr>sm_type = SKYNET_SOCKET_TYPE_DATA, sm_id = 5, sm_ud = 6, sm_buffer = Some [0, 2, 7, 8, 0, 3], sm_padding = []\<rparr> =
       Some (put_buffer k b g, [deliver g k [7, 8]]) \<and> db_header (fst b) = 3"
proof -
  obtain g k where g: "gate_ok g" "slot_map (g_hash g) 5 = Some k" "has_target g k" "g_header_size g = 2" "cn_buffer (g_conn g ! k) = db_init"
    using example_connection by blast
  have c: "cut (has_target g k) (g_header_size g) (db_header (cn_buffer (g_conn g ! k))) (db_content (cn_buffer (g_conn g ! k)) @ [0, 2, 7, 8, 0, 3]) =
      ([[7, 8]], Waiting 3 [])"
    using g(3-5) by (simp add: db_init_ok) (simp add: db_init_def cut.simps [of True] next_header_def header_value_def)
  have e: "db_content (cn_buffer (g_conn g ! k)) = []" using g(5) by (simp add: db_init_ok)
  show ?thesis
    using gate_framing [OF g(1), of "\<lparr>sm_type = SKYNET_SOCKET_TYPE_DATA, sm_id = 5, sm_ud = 6, sm_buffer = Some [0, 2, 7, 8, 0, 3], sm_padding = []\<rparr>" k,
        OF _ _ _ _ c] g(1-3) e
    by (auto simp: left_over_def closing_def)
qed



end
