(* ===== verification/Netpack.thy ===== *)
theory Netpack
  imports Socket_Message
begin

text \<open>
  The packet filter of the gateways, \<^verbatim>\<open>lua-netpack.c\<close>: it cuts the byte streams of many
  sockets into packets with a length of two bytes in front. Packets that are not complete wait in
  a hash table, complete ones that cannot be handed out at once in a ring that grows. Chains of
  nodes are lists, a buffer is the list of the bytes written to it, its freeing is left out.
  \<open>None\<close> is a failed \<^verbatim>\<open>assert\<close> or a read outside the buffer.
\<close>

definition QUEUESIZE :: nat where "QUEUESIZE = 1024"
definition HASHSIZE :: nat where "HASHSIZE = 4096"

record netpack =
  np_id :: u32
  np_size :: int
  np_buffer :: bytes

text \<open>\<open>uc_read\<close> is -1 while only the first byte of the length is known, \<open>uc_header\<close>.\<close>

record uncomplete =
  uc_pack :: netpack
  uc_read :: int
  uc_header :: u8

record queue =
  q_cap :: nat
  q_head :: nat
  q_tail :: nat
  q_hash :: "nat \<Rightarrow> uncomplete list"
  q_queue :: "netpack list"

definition null_pack :: netpack where
  "null_pack = \<lparr>np_id = 0, np_size = 0, np_buffer = []\<rparr>"

text \<open>
  The sum of the shifted numbers. The code adds them as ints and only then converts to \<^verbatim>\<open>uint32_t\<close>; for numbers near the
  largest int the sum overflows, which C leaves undefined, and here it wraps, as the conversion intends. The hash only chooses a list, so that
  nothing below depends on its value.
\<close>

definition hash_fd :: "u32 \<Rightarrow> nat" where
  "hash_fd fd = unat (signed_drop_bit 24 fd + signed_drop_bit 12 fd + fd) mod HASHSIZE"

text \<open>Unlinking the first node of a descriptor from its list.\<close>

fun unlink_fd :: "u32 \<Rightarrow> uncomplete list \<Rightarrow> uncomplete option \<times> uncomplete list" where
  "unlink_fd fd [] = (None, [])"
| "unlink_fd fd (uc # ucs) =
     (if np_id (uc_pack uc) = fd then (Some uc, ucs)
      else let (r, rest) = unlink_fd fd ucs in (r, uc # rest))"

text \<open>A queue that is not there yet is \<open>None\<close>.\<close>

definition find_uncomplete :: "u32 \<Rightarrow> queue option \<Rightarrow> uncomplete option \<times> queue option" where
  "find_uncomplete fd qo =
     (case qo of
        None \<Rightarrow> (None, None)
      | Some q \<Rightarrow>
          let h = hash_fd fd; (r, rest) = unlink_fd fd (q_hash q h)
          in (r, Some (q\<lparr>q_hash := (q_hash q)(h := rest)\<rparr>)))"

definition get_queue :: "queue option \<Rightarrow> queue" where
  "get_queue qo =
     (case qo of
        Some q \<Rightarrow> q
      | None \<Rightarrow> \<lparr>q_cap = QUEUESIZE, q_head = 0, q_tail = 0, q_hash = (\<lambda>h. []), q_queue = replicate QUEUESIZE null_pack\<rparr>)"

text \<open>The larger queue; the old one, left empty, is garbage.\<close>

definition expand_ring :: "queue \<Rightarrow> queue" where
  "expand_ring q =
     \<lparr>q_cap = q_cap q + QUEUESIZE, q_head = 0, q_tail = q_cap q, q_hash = q_hash q,
      q_queue = map (\<lambda>i. q_queue q ! ((q_head q + i) mod q_cap q)) [0..<q_cap q] @ replicate QUEUESIZE null_pack\<rparr>"

definition push_data :: "u32 \<Rightarrow> bytes \<Rightarrow> int \<Rightarrow> queue option \<Rightarrow> queue" where
  "push_data fd buffer sz qo =
     (let q = get_queue qo;
          t = (if q_tail q + 1 \<ge> q_cap q then q_tail q + 1 - q_cap q else q_tail q + 1);
          q1 = q\<lparr>q_queue := (q_queue q)[q_tail q := \<lparr>np_id = fd, np_size = sz, np_buffer = buffer\<rparr>], q_tail := t\<rparr>
      in if q_head q1 = q_tail q1 then expand_ring q1 else q1)"

text \<open>\<^verbatim>\<open>save_uncomplete\<close> with the assignments to the new node that follow each of its calls.\<close>

definition save_uncomplete :: "uncomplete \<Rightarrow> queue option \<Rightarrow> queue" where
  "save_uncomplete uc qo =
     (let q = get_queue qo; h = hash_fd (np_id (uc_pack uc))
      in q\<lparr>q_hash := (q_hash q)(h := uc # q_hash q h)\<rparr>)"

definition save_header :: "u32 \<Rightarrow> u8 \<Rightarrow> queue option \<Rightarrow> queue" where
  "save_header fd b = save_uncomplete \<lparr>uc_pack = \<lparr>np_id = fd, np_size = 0, np_buffer = []\<rparr>, uc_read = -1, uc_header = b\<rparr>"

definition save_part :: "u32 \<Rightarrow> bytes \<Rightarrow> int \<Rightarrow> queue option \<Rightarrow> queue" where
  "save_part fd buffer pack_size =
     save_uncomplete \<lparr>uc_pack = \<lparr>np_id = fd, np_size = pack_size, np_buffer = buffer\<rparr>, uc_read = int (length buffer), uc_header = 0\<rparr>"

definition read_size :: "u8 \<Rightarrow> u8 \<Rightarrow> nat" where
  "read_size a b = unat (push_bit 8 (ucast a) OR ucast b :: u32)"

function push_more :: "u32 \<Rightarrow> bytes \<Rightarrow> queue option \<Rightarrow> queue option" where
  "push_more fd buffer qo =
     (case buffer of
        [] \<Rightarrow> None
      | [b] \<Rightarrow> Some (save_header fd b qo)
      | a # b # rest \<Rightarrow>
          let pack_size = read_size a b
          in if length rest < pack_size then Some (save_part fd rest (int pack_size) qo)
             else
               let q = push_data fd (take pack_size rest) (int pack_size) qo; rest1 = drop pack_size rest
               in if rest1 \<noteq> [] then push_more fd rest1 (Some q) else Some q)"
  by pat_completeness auto
termination by (relation "measure (\<lambda>(fd, buffer, qo). length buffer)") auto

declare push_more.simps [simp del]

definition close_uncomplete :: "u32 \<Rightarrow> queue option \<Rightarrow> queue option" where
  "close_uncomplete fd qo = snd (find_uncomplete fd qo)"

text \<open>What \<^verbatim>\<open>lfilter\<close> returns behind the queue.\<close>

datatype filter_result =
    Nothing
  | Data u32 bytes int
  | More
  | Error u32 bytes
  | Open u32 bytes
  | Close u32
  | Warning u32 int
  | Init u32 bytes int

text \<open>
  The first half of \<^verbatim>\<open>filter_data_\<close>, where a packet is waiting for its rest: the length is
  completed first, if need be.
\<close>

definition fill_header :: "uncomplete \<Rightarrow> bytes \<Rightarrow> (uncomplete \<times> bytes) option" where
  "fill_header uc buffer =
     (if uc_read uc < 0 then do {
        c_assert (uc_read uc = -1);
        c_assert (buffer \<noteq> []);
        let pack_size = read_size (uc_header uc) (hd buffer);
        Some (uc\<lparr>uc_pack := (uc_pack uc)\<lparr>np_size := int pack_size, np_buffer := []\<rparr>, uc_read := 0\<rparr>, tl buffer)
      } else Some (uc, buffer))"

definition fill_uncomplete :: "u32 \<Rightarrow> uncomplete \<Rightarrow> bytes \<Rightarrow> queue \<Rightarrow> (filter_result \<times> queue) option" where
  "fill_uncomplete fd uc0 buffer0 q = do {
     (uc, buffer) \<leftarrow> fill_header uc0 buffer0;
     let pack = uc_pack uc;
     let need = np_size pack - uc_read uc;
     if int (length buffer) < need
     then (let uc1 = uc\<lparr>uc_pack := pack\<lparr>np_buffer := np_buffer pack @ buffer\<rparr>, uc_read := uc_read uc + int (length buffer)\<rparr>;
               h = hash_fd fd
           in Some (Nothing, q\<lparr>q_hash := (q_hash q)(h := uc1 # q_hash q h)\<rparr>))
     else do {
       c_assert (need \<ge> 0);
       let data = np_buffer pack @ take (nat need) buffer;
       let rest = drop (nat need) buffer;
       if rest = [] then Some (Data fd data (np_size pack), q)
       else do {
         q1 \<leftarrow> push_more fd rest (Some (push_data fd data (np_size pack) (Some q)));
         Some (More, q1)
       }
     }
   }"

definition filter_new :: "u32 \<Rightarrow> bytes \<Rightarrow> queue option \<Rightarrow> (filter_result \<times> queue option) option" where
  "filter_new fd buffer qo =
     (case buffer of
        [] \<Rightarrow> None
      | [b] \<Rightarrow> Some (Nothing, Some (save_header fd b qo))
      | a # b # rest \<Rightarrow>
          let pack_size = read_size a b
          in if length rest < pack_size then Some (Nothing, Some (save_part fd rest (int pack_size) qo))
             else if length rest = pack_size then Some (Data fd rest (int (length rest)), qo)
             else do {
               q \<leftarrow> push_more fd (drop pack_size rest) (Some (push_data fd (take pack_size rest) (int pack_size) qo));
               Some (More, Some q)
             })"

definition filter_packets :: "u32 \<Rightarrow> bytes \<Rightarrow> queue option \<Rightarrow> (filter_result \<times> queue option) option" where
  "filter_packets fd buffer qo =
     (case find_uncomplete fd qo of
        (Some uc, Some q) \<Rightarrow> map_option (apsnd Some) (fill_uncomplete fd uc buffer q)
      | (_, q1) \<Rightarrow> filter_new fd buffer q1)"

subsection \<open>The functions for Lua\<close>

text \<open>Of a message with a buffer the size is -1; making a string of it is an error of Lua, here \<open>None\<close>.\<close>

definition sm_text :: "socket_message \<Rightarrow> bytes option" where
  "sm_text m = (case sm_buffer m of None \<Rightarrow> Some (sm_padding m) | Some b \<Rightarrow> None)"

definition lfilter :: "socket_message \<Rightarrow> queue option \<Rightarrow> (filter_result \<times> queue option) option" where
  "lfilter m qo =
     (if sm_type m = SKYNET_SOCKET_TYPE_DATA then
        (case sm_buffer m of
           None \<Rightarrow> None
         | Some buffer \<Rightarrow> do {
             c_assert (0 \<le> sm_ud m \<and> sm_ud m \<le> int (length buffer));
             filter_packets (sm_id m) (take (nat (sm_ud m)) buffer) qo
           })
      else if sm_type m = SKYNET_SOCKET_TYPE_CONNECT then
        do { text \<leftarrow> sm_text m; Some (Init (sm_id m) text (sm_ud m), qo) }
      else if sm_type m = SKYNET_SOCKET_TYPE_CLOSE then Some (Close (sm_id m), close_uncomplete (sm_id m) qo)
      else if sm_type m = SKYNET_SOCKET_TYPE_ACCEPT then
        do { text \<leftarrow> sm_text m; Some (Open (word_of_int (sm_ud m)) text, qo) }
      else if sm_type m = SKYNET_SOCKET_TYPE_ERROR then
        do { text \<leftarrow> sm_text m; Some (Error (sm_id m) text, close_uncomplete (sm_id m) qo) }
      else if sm_type m = SKYNET_SOCKET_TYPE_WARNING then Some (Warning (sm_id m) (sm_ud m), qo)
      else Some (Nothing, qo))"

definition lpop :: "queue option \<Rightarrow> netpack option \<times> queue option" where
  "lpop qo =
     (case qo of
        None \<Rightarrow> (None, None)
      | Some q \<Rightarrow>
          if q_head q = q_tail q then (None, Some q)
          else (Some (q_queue q ! q_head q), Some (q\<lparr>q_head := (if q_head q + 1 \<ge> q_cap q then 0 else q_head q + 1)\<rparr>)))"

text \<open>The buffers that are freed, and the queue.\<close>

definition lclear :: "queue option \<Rightarrow> bytes list \<times> queue option" where
  "lclear qo =
     (case qo of
        None \<Rightarrow> ([], None)
      | Some q \<Rightarrow>
          let waiting = concat (map (\<lambda>i. map (np_buffer \<circ> uc_pack) (q_hash q i)) [0..<HASHSIZE]);
              tail = (if q_head q > q_tail q then q_tail q + q_cap q else q_tail q);
              queued = map (\<lambda>i. np_buffer (q_queue q ! (i mod q_cap q))) [q_head q..<tail]
          in (waiting @ queued, Some (q\<lparr>q_hash := (\<lambda>i. if i < HASHSIZE then [] else q_hash q i), q_head := 0, q_tail := 0\<rparr>)))"

definition write_size :: "nat \<Rightarrow> bytes" where
  "write_size len = [ucast (drop_bit 8 (of_nat len :: u32) AND 0xff), ucast (of_nat len AND 0xff :: u32)]"

text \<open>\<open>Inl\<close> is the error for data that is too long.\<close>

definition lpack :: "bytes \<Rightarrow> nat + bytes" where
  "lpack data = (if length data \<ge> 0x10000 then Inl (length data) else Inr (write_size (length data) @ data))"

subsection \<open>The ring of complete packets\<close>

definition q_count :: "queue \<Rightarrow> nat" where
  "q_count q = (if q_head q \<le> q_tail q then q_tail q - q_head q else q_tail q + q_cap q - q_head q)"

definition q_ring :: "queue \<Rightarrow> bool" where
  "q_ring q \<longleftrightarrow> length (q_queue q) = q_cap q \<and> q_head q < q_cap q \<and> q_tail q < q_cap q"

definition q_content :: "queue \<Rightarrow> netpack list" where
  "q_content q = ring (q_queue q) (q_head q) (q_count q)"

lemma q_count_less: "q_ring q \<Longrightarrow> q_count q < q_cap q"
  by (auto simp: q_ring_def q_count_def)

lemma q_tail_ring: "q_ring q \<Longrightarrow> q_tail q = (q_head q + q_count q) mod q_cap q"
  by (auto simp: q_ring_def q_count_def mod_if)

lemma q_count_0: "q_ring q \<Longrightarrow> q_count q = 0 \<longleftrightarrow> q_head q = q_tail q"
  by (auto simp: q_ring_def q_count_def)

lemma new_queue_ring: "q_ring (get_queue None)" "q_content (get_queue None) = []"
  by (simp_all add: get_queue_def q_ring_def q_content_def q_count_def QUEUESIZE_def)

lemma get_queue_Some [simp]: "get_queue (Some q) = q"
  by (simp add: get_queue_def)

lemma push_data_hash [simp]: "q_hash (push_data fd buffer sz qo) = q_hash (get_queue qo)"
  by (simp add: push_data_def expand_ring_def Let_def)

lemma push_data_ring:
  assumes ok: "q_ring (get_queue qo)"
  shows "q_ring (push_data fd buffer sz qo) \<and>
    q_content (push_data fd buffer sz qo) = q_content (get_queue qo) @ [\<lparr>np_id = fd, np_size = sz, np_buffer = buffer\<rparr>]"
proof -
  let ?q = "get_queue qo" and ?x = "\<lparr>np_id = fd, np_size = sz, np_buffer = buffer\<rparr>"
  let ?n = "q_count ?q"
  let ?t = "if q_tail ?q + 1 \<ge> q_cap ?q then q_tail ?q + 1 - q_cap ?q else q_tail ?q + 1"
  let ?q1 = "?q\<lparr>q_queue := (q_queue ?q)[q_tail ?q := ?x], q_tail := ?t\<rparr>"
  have len: "length (q_queue ?q) = q_cap ?q" "q_head ?q < q_cap ?q" "q_tail ?q < q_cap ?q" using ok by (auto simp: q_ring_def)
  have n: "?n < q_cap ?q" by (rule q_count_less [OF ok])
  have tail: "q_tail ?q = (q_head ?q + ?n) mod length (q_queue ?q)" using q_tail_ring [OF ok] len(1) by simp
  have ring: "ring ((q_queue ?q)[q_tail ?q := ?x]) (q_head ?q) (Suc ?n) = q_content ?q @ [?x]"
    unfolding q_content_def tail by (rule ring_push) (use len n in simp_all)
  show ?thesis
  proof (cases "q_head ?q = ?t")
    case True
    then have Sn: "Suc ?n = q_cap ?q" using len by (auto simp: q_count_def split: if_splits)
    have push: "push_data fd buffer sz qo = expand_ring ?q1" using True by (simp add: push_data_def Let_def)
    have "q_ring (expand_ring ?q1)" using len by (simp add: q_ring_def expand_ring_def QUEUESIZE_def)
    moreover have "q_content (expand_ring ?q1) = ring ((q_queue ?q)[q_tail ?q := ?x]) (q_head ?q) (q_cap ?q)"
      using len by (simp add: q_content_def q_count_def expand_ring_def ring_from_zero) (simp add: ring_def)
    ultimately show ?thesis using push ring by (simp add: Sn)
  next
    case False
    then have push: "push_data fd buffer sz qo = ?q1" by (simp add: push_data_def Let_def)
    have "q_count ?q1 = Suc ?n" using False len by (auto simp: q_count_def split: if_splits)
    then have "q_content ?q1 = q_content ?q @ [?x]" using ring by (simp add: q_content_def)
    moreover have "q_ring ?q1" using len by (auto simp: q_ring_def)
    ultimately show ?thesis using push by simp
  qed
qed

lemma lpop_empty: "q_ring q \<Longrightarrow> q_content q = [] \<Longrightarrow> lpop (Some q) = (None, Some q)"
  using q_count_0 [of q] by (simp add: lpop_def q_content_def ring_def)

lemma lpop_cons:
  assumes ok: "q_ring q" and ne: "q_content q = x # xs"
  shows "\<exists>q'. lpop (Some q) = (Some x, Some q') \<and> q_content q' = xs \<and> q_ring q' \<and> q_hash q' = q_hash q"
proof -
  have len: "length (q_queue q) = q_cap q" "q_head q < q_cap q" "q_tail q < q_cap q" using ok by (auto simp: q_ring_def)
  have neq: "q_head q \<noteq> q_tail q" using ne q_count_0 [OF ok] by (auto simp: q_content_def)
  define h where "h = (if q_head q + 1 \<ge> q_cap q then 0 else q_head q + 1)"
  let ?q' = "q\<lparr>q_head := h\<rparr>"
  have h: "h = Suc (q_head q) mod q_cap q" "h < q_cap q" "q_count q = Suc (q_count ?q')"
    using len neq by (auto simp: h_def q_count_def mod_if)
  have "q_content q = q_queue q ! q_head q # q_content ?q'"
    using ring_Cons [of "q_head q" "q_queue q" "q_count ?q'"] len h by (simp add: q_content_def)
  moreover have "lpop (Some q) = (Some (q_queue q ! q_head q), Some ?q')" using neq by (simp add: lpop_def h_def)
  moreover have "q_ring ?q'" using len h by (simp add: q_ring_def)
  ultimately show ?thesis using ne by auto
qed

text \<open>The ring keeps the contract of a queue; its state is the optional queue on the Lua stack.\<close>

definition ring_state :: "queue option \<Rightarrow> bool" where
  "ring_state qo \<longleftrightarrow> q_ring (get_queue qo)"

definition ring_packs :: "queue option \<Rightarrow> netpack list" where
  "ring_packs qo = q_content (get_queue qo)"

definition push_pack :: "netpack \<Rightarrow> queue option \<Rightarrow> queue option option" where
  "push_pack p qo = Some (Some (push_data (np_id p) (np_buffer p) (np_size p) qo))"

definition pop_pack :: "queue option \<Rightarrow> (netpack option \<times> queue option) option" where
  "pop_pack qo = Some (lpop qo)"

interpretation net: fifo push_pack pop_pack ring_packs ring_state "\<lambda>q p. True"
proof unfold_locales
  fix q :: "queue option" and x q'
  assume "ring_state q" "push_pack x q = Some q'"
  then show "ring_packs q' = ring_packs q @ [x]" "ring_state q'"
    using push_data_ring [of q "np_id x" "np_buffer x" "np_size x"]
    by (auto simp: ring_state_def push_pack_def ring_packs_def)
next
  fix q :: "queue option"
  assume "ring_state q" "ring_packs q = []"
  then show "\<exists>q'. pop_pack q = Some (None, q') \<and> ring_packs q' = [] \<and> ring_state q'"
    using lpop_empty [of "get_queue q"] by (cases q) (auto simp: ring_state_def pop_pack_def ring_packs_def lpop_def)
next
  fix q :: "queue option" and x xs
  assume q: "ring_state q" "ring_packs q = x # xs"
  then obtain r where r: "q = Some r" using new_queue_ring by (cases q) (auto simp: ring_packs_def)
  then show "\<exists>q'. pop_pack q = Some (Some x, q') \<and> ring_packs q' = xs \<and> ring_state q'"
    using lpop_cons [of r x xs] q by (auto simp: ring_state_def pop_pack_def ring_packs_def)
qed

subsection \<open>Streams and packets\<close>

text \<open>The complete packets at the front of a stream, and the rest.\<close>

function frames :: "bytes \<Rightarrow> bytes list \<times> bytes" where
  "frames (a # b # rest) =
     (let n = read_size a b
      in if length rest < n then ([], a # b # rest)
         else let (ps, r) = frames (drop n rest) in (take n rest # ps, r))"
| "frames [] = ([], [])"
| "frames [b] = ([], [b])"
  by pat_completeness auto
termination by (relation "measure length") auto

declare frames.simps(1) [simp del]

lemma read_size_less: "read_size a b < 65536"
proof -
  have "push_bit 8 (ucast a) OR ucast b = take_bit 16 (push_bit 8 (ucast a) OR ucast b :: u32)"
    by (rule bit_word_eqI) (auto simp: bit_simps byte_bits dest: bit_imp_le_length)
  then show ?thesis using unat_take_bit_less [of 16 "push_bit 8 (ucast a) OR ucast b :: u32"] by (simp add: read_size_def)
qed

lemma write_read_size: "write_size (read_size a b) = [a, b]"
proof -
  let ?w = "push_bit 8 (ucast a) OR ucast b :: u32"
  have "ucast (take_bit 8 (drop_bit 8 ?w)) = a" "ucast (take_bit 8 ?w) = b"
    by (rule bit_word_eqI, auto simp: bit_simps byte_bits)+
  then show ?thesis by (simp add: write_size_def read_size_def and_masks)
qed

lemma read_write_size:
  assumes "n < 65536"
  shows "write_size n = [hd (write_size n), hd (tl (write_size n))]" "read_size (hd (write_size n)) (hd (tl (write_size n))) = n"
proof -
  let ?w = "of_nat n :: u32"
  show "write_size n = [hd (write_size n), hd (tl (write_size n))]" by (simp add: write_size_def)
  have n: "unat ?w = n" using assms by (simp add: unsigned_of_nat take_bit_nat_eq_self)
  then have "take_bit 16 ?w = ?w" using assms by (simp add: word_unat_eq_iff unsigned_take_bit_eq take_bit_nat_eq_self)
  moreover have "push_bit 8 (ucast (ucast (take_bit 8 (drop_bit 8 ?w)) :: u8)) OR ucast (ucast (take_bit 8 ?w) :: u8) = take_bit 16 ?w"
    by (rule bit_word_eqI) (auto simp: bit_simps)
  ultimately show "read_size (hd (write_size n)) (hd (tl (write_size n))) = n"
    using n by (simp add: write_size_def read_size_def and_masks)
qed

lemma frames_short: "length rest < read_size a b \<Longrightarrow> frames (a # b # rest) = ([], a # b # rest)"
  by (simp add: frames.simps(1))

lemma frames_packet:
  "read_size a b \<le> length rest \<Longrightarrow> frames (a # b # rest) =
     (take (read_size a b) rest # fst (frames (drop (read_size a b) rest)), snd (frames (drop (read_size a b) rest)))"
  by (simp add: frames.simps(1) case_prod_beta Let_def)

text \<open>A stream can be cut anywhere.\<close>

lemma frames_append:
  "frames (xs @ ys) = (fst (frames xs) @ fst (frames (snd (frames xs) @ ys)), snd (frames (snd (frames xs) @ ys)))"
proof (induction xs rule: frames.induct)
  case (1 a b rest)
  show ?case
  proof (cases "length rest < read_size a b")
    case True
    then show ?thesis by (simp add: frames_short)
  next
    case False
    then show ?thesis using 1 [OF refl False] by (simp add: frames_packet)
  qed
qed simp_all

lemma frames_packed:
  assumes "length p < 65536"
  shows "frames (write_size (length p) @ p @ ys) = (p # fst (frames ys), snd (frames ys))"
proof -
  obtain a b where ab: "write_size (length p) = [a, b]" "read_size a b = length p" using read_write_size [OF assms] by metis
  then show ?thesis using frames_packet [of a b "p @ ys"] by simp
qed

text \<open>What was received of a packet that waits, the packets of a descriptor in the hash table, and its invariant.\<close>

definition raw :: "uncomplete \<Rightarrow> bytes" where
  "raw uc = (if uc_read uc < 0 then [uc_header uc] else write_size (nat (np_size (uc_pack uc))) @ np_buffer (uc_pack uc))"

definition uc_ok :: "uncomplete \<Rightarrow> bool" where
  "uc_ok uc \<longleftrightarrow> uc_read uc = -1 \<or>
     uc_read uc = int (length (np_buffer (uc_pack uc))) \<and> uc_read uc < np_size (uc_pack uc) \<and> np_size (uc_pack uc) < 65536"

abbreviation uc_id :: "uncomplete \<Rightarrow> u32" where "uc_id uc \<equiv> np_id (uc_pack uc)"

definition q_ok :: "queue \<Rightarrow> bool" where
  "q_ok q \<longleftrightarrow> q_ring q \<and>
     (\<forall>h. distinct (map uc_id (q_hash q h)) \<and> (\<forall>uc \<in> set (q_hash q h). hash_fd (uc_id uc) = h \<and> uc_ok uc))"

definition pending :: "queue option \<Rightarrow> u32 \<Rightarrow> bytes" where
  "pending qo fd = concat (map raw (filter (\<lambda>uc. uc_id uc = fd) (q_hash (get_queue qo) (hash_fd fd))))"

lemma q_ok_None: "q_ok (get_queue None)" "pending None = (\<lambda>fd. [])"
  using new_queue_ring by (auto simp: q_ok_def pending_def get_queue_def)

lemma unlink_absent: "fd \<notin> uc_id ` set ucs \<Longrightarrow> unlink_fd fd ucs = (None, ucs)"
  by (induction ucs) auto

lemma unlink_present:
  "distinct (map uc_id ucs) \<Longrightarrow> uc \<in> set ucs \<Longrightarrow> unlink_fd (uc_id uc) ucs = (Some uc, filter (\<lambda>u. uc_id u \<noteq> uc_id uc) ucs)"
proof (induction ucs)
  case (Cons u ucs)
  show ?case
  proof (cases "u = uc")
    case True
    then have "filter (\<lambda>u. uc_id u \<noteq> uc_id uc) ucs = ucs" using Cons.prems(1) by (intro filter_True) (auto simp: image_iff)
    then show ?thesis using True by simp
  next
    case False
    then have "uc \<in> set ucs" using Cons.prems(2) by simp
    moreover have "uc_id u \<noteq> uc_id uc" using calculation Cons.prems(1) by force
    ultimately show ?thesis using Cons by simp
  qed
qed simp

text \<open>The states before and after handling bytes of a descriptor: what went to the ring, what waits now.\<close>

definition moved :: "queue option \<Rightarrow> u32 \<Rightarrow> bytes list \<Rightarrow> bytes \<Rightarrow> queue option \<Rightarrow> bool" where
  "moved qo fd ps rest qo' \<longleftrightarrow> q_ok (get_queue qo') \<and> pending qo' = (pending qo)(fd := rest) \<and>
     ring_packs qo' = ring_packs qo @ map (\<lambda>p. \<lparr>np_id = fd, np_size = int (length p), np_buffer = p\<rparr>) ps"

lemma moved_trans: "moved qo fd ps r q1 \<Longrightarrow> moved q1 fd ps' r' q2 \<Longrightarrow> moved qo fd (ps @ ps') r' q2"
  by (auto simp: moved_def)

lemma write_size_Cons: "\<exists>a b. write_size n = [a, b]"
  by (simp add: write_size_def)

lemma raw_not_Nil: "raw uc \<noteq> []"
  using write_size_Cons [of "nat (np_size (uc_pack uc))"] by (auto simp: raw_def)

lemma pending_Nil: "pending qo fd = [] \<longleftrightarrow> fd \<notin> uc_id ` set (q_hash (get_queue qo) (hash_fd fd))"
  by (auto simp: pending_def raw_not_Nil filter_empty_conv)

lemma pending_unique:
  assumes "q_ok q" "uc \<in> set (q_hash q (hash_fd (uc_id uc)))"
  shows "pending (Some q) (uc_id uc) = raw uc"
proof -
  have d: "distinct (map uc_id (q_hash q (hash_fd (uc_id uc))))" using assms(1) by (simp add: q_ok_def)
  have "filter (\<lambda>u. uc_id u = uc_id uc) ucs = [uc]" if "distinct (map uc_id ucs)" "uc \<in> set ucs" for ucs
    using that
  proof (induction ucs)
    case (Cons u ucs)
    show ?case
    proof (cases "u = uc")
      case True
      then show ?thesis using Cons.prems(1) by (auto simp: filter_empty_conv image_iff)
    next
      case False
      then have "uc \<in> set ucs" using Cons.prems(2) by simp
      moreover have "uc_id u \<noteq> uc_id uc" using calculation Cons.prems(1) by force
      ultimately show ?thesis using Cons by simp
    qed
  qed simp
  from this [OF d assms(2)] show ?thesis by (simp add: pending_def)
qed

lemma find_uncomplete_none:
  assumes "q_ok (get_queue qo)" "pending qo fd = []"
  shows "find_uncomplete fd qo = (None, qo)"
proof (cases qo)
  case (Some q)
  have "unlink_fd fd (q_hash q (hash_fd fd)) = (None, q_hash q (hash_fd fd))"
    using assms(2) by (intro unlink_absent) (simp add: pending_Nil Some)
  then show ?thesis by (simp add: find_uncomplete_def Some Let_def)
qed (simp add: find_uncomplete_def)

lemma find_uncomplete_some:
  assumes ok: "q_ok (get_queue qo)" and ne: "pending qo fd \<noteq> []"
  shows "\<exists>uc q. find_uncomplete fd qo = (Some uc, Some q) \<and> uc_ok uc \<and> uc_id uc = fd \<and> raw uc = pending qo fd \<and>
    moved qo fd [] [] (Some q)"
proof -
  obtain q where q: "qo = Some q" using ne q_ok_None(2) by (cases qo) auto
  obtain uc where uc: "uc \<in> set (q_hash q (hash_fd fd))" "uc_id uc = fd"
    using ne unfolding pending_Nil by (auto simp: q)
  let ?rest = "filter (\<lambda>u. uc_id u \<noteq> fd) (q_hash q (hash_fd fd))"
  let ?q = "q\<lparr>q_hash := (q_hash q)(hash_fd fd := ?rest)\<rparr>"
  have okq: "q_ok q" using ok q by simp
  then have "unlink_fd fd (q_hash q (hash_fd fd)) = (Some uc, ?rest)"
    using unlink_present [of "q_hash q (hash_fd fd)" uc] uc by (simp add: q_ok_def)
  then have find: "find_uncomplete fd qo = (Some uc, Some ?q)" by (simp add: find_uncomplete_def q Let_def)
  have "q_ok ?q" using okq by (auto simp: q_ok_def q_ring_def distinct_map_filter)
  moreover have "pending (Some ?q) = (pending qo)(fd := [])"
  proof
    fix x
    have "filter (\<lambda>u. uc_id u = x) ?rest = (if x = fd then [] else filter (\<lambda>u. uc_id u = x) (q_hash q (hash_fd fd)))"
      by (auto simp: filter_empty_conv intro: filter_cong)
    then show "pending (Some ?q) x = ((pending qo)(fd := [])) x" by (auto simp: pending_def q)
  qed
  ultimately have "moved qo fd [] [] (Some ?q)" by (simp add: moved_def q ring_packs_def q_content_def q_count_def)
  moreover have "uc_ok uc" using okq uc by (auto simp: q_ok_def)
  moreover have "raw uc = pending qo fd" using pending_unique [OF okq, of uc] uc q by simp
  ultimately show ?thesis using find uc(2) by blast
qed

lemma save_uncomplete_moved:
  assumes ok: "q_ok (get_queue qo)" and "pending qo (uc_id uc) = []" and uc: "uc_ok uc"
  shows "moved qo (uc_id uc) [] (raw uc) (Some (save_uncomplete uc qo))"
proof -
  let ?q = "get_queue qo" and ?h = "hash_fd (uc_id uc)"
  have abs: "uc_id uc \<notin> uc_id ` set (q_hash ?q ?h)" using assms(2) by (simp add: pending_Nil)
  then have "q_ok (save_uncomplete uc qo)" using ok uc by (auto simp: q_ok_def save_uncomplete_def q_ring_def Let_def)
  moreover have "pending (Some (save_uncomplete uc qo)) = (pending qo)(uc_id uc := raw uc)"
  proof
    fix x
    have "filter (\<lambda>u. uc_id u = uc_id uc) (q_hash ?q ?h) = []" using abs by (auto simp: filter_empty_conv image_iff)
    then show "pending (Some (save_uncomplete uc qo)) x = ((pending qo)(uc_id uc := raw uc)) x"
      by (auto simp: pending_def save_uncomplete_def Let_def)
  qed
  ultimately show ?thesis
    by (simp add: moved_def ring_packs_def save_uncomplete_def Let_def q_content_def q_count_def)
qed

lemma push_data_moved:
  assumes ok: "q_ok (get_queue qo)" and "pending qo fd = []" "sz = int (length p)"
  shows "moved qo fd [p] [] (Some (push_data fd p sz qo))"
proof -
  have "q_ring (get_queue qo)" using ok by (simp add: q_ok_def)
  note push = push_data_ring [OF this, of fd p sz]
  have "pending (Some (push_data fd p sz qo)) = pending qo" by (rule ext) (simp add: pending_def)
  then show ?thesis using push ok assms(2,3) by (auto simp: moved_def q_ok_def ring_packs_def)
qed

lemma save_header_moved:
  "q_ok (get_queue qo) \<Longrightarrow> pending qo fd = [] \<Longrightarrow> moved qo fd [] [b] (Some (save_header fd b qo))"
  using save_uncomplete_moved [of qo "\<lparr>uc_pack = \<lparr>np_id = fd, np_size = 0, np_buffer = []\<rparr>, uc_read = -1, uc_header = b\<rparr>"]
  by (simp add: save_header_def uc_ok_def raw_def)

lemma save_part_moved:
  assumes "q_ok (get_queue qo)" "pending qo fd = []" "length rest < read_size a b"
  shows "moved qo fd [] (a # b # rest) (Some (save_part fd rest (int (read_size a b)) qo))"
proof -
  let ?uc = "\<lparr>uc_pack = \<lparr>np_id = fd, np_size = int (read_size a b), np_buffer = rest\<rparr>, uc_read = int (length rest), uc_header = 0\<rparr>"
  have "uc_ok ?uc" using assms(3) read_size_less [of a b] by (simp add: uc_ok_def)
  moreover have "raw ?uc = a # b # rest" by (simp add: raw_def write_read_size)
  ultimately show ?thesis using save_uncomplete_moved [of qo ?uc] assms(1,2) by (simp add: save_part_def)
qed

lemma push_more_moved:
  "q_ok (get_queue qo) \<Longrightarrow> pending qo fd = [] \<Longrightarrow> buffer \<noteq> [] \<Longrightarrow>
   \<exists>q. push_more fd buffer qo = Some q \<and> moved qo fd (fst (frames buffer)) (snd (frames buffer)) (Some q)"
proof (induction fd buffer qo rule: push_more.induct)
  case (1 fd buffer qo)
  consider (one) b where "buffer = [b]" | (more) a b rest where "buffer = a # b # rest"
    using "1.prems"(3) by (metis list.exhaust)
  then show ?case
  proof cases
    case one
    then show ?thesis using save_header_moved "1.prems" by (simp add: push_more.simps [of fd "[b]"])
  next
    case more
    show ?thesis
    proof (cases "length rest < read_size a b")
      case True
      then show ?thesis using save_part_moved "1.prems" by (simp add: more push_more.simps [of fd "_ # _ # _"] frames_short)
    next
      case False
      let ?n = "read_size a b"
      let ?q = "push_data fd (take ?n rest) (int ?n) qo"
      have m: "moved qo fd [take ?n rest] [] (Some ?q)" using False "1.prems" by (intro push_data_moved) simp_all
      show ?thesis
      proof (cases "drop ?n rest = []")
        case True
        then show ?thesis using m False by (simp add: more push_more.simps [of fd "_ # _ # _"] frames_packet)
      next
        case rest: False
        have "q_ok (get_queue (Some ?q))" "pending (Some ?q) fd = []" using m by (simp_all add: moved_def)
        then obtain q where "push_more fd (drop ?n rest) (Some ?q) = Some q"
          "moved (Some ?q) fd (fst (frames (drop ?n rest))) (snd (frames (drop ?n rest))) (Some q)"
          using "1.IH" [OF more _ refl False refl refl rest] rest by auto
        then show ?thesis
          using False rest moved_trans [OF m] by (simp add: more push_more.simps [of fd "_ # _ # _"] frames_packet)
      qed
    qed
  qed
qed

text \<open>What one call returns, given the packets that are complete now and the rest.\<close>

definition filtered :: "queue option \<Rightarrow> u32 \<Rightarrow> bytes list \<Rightarrow> bytes \<Rightarrow> filter_result \<Rightarrow> queue option \<Rightarrow> bool" where
  "filtered qo fd ps rest r qo' \<longleftrightarrow>
     (if ps = [] then r = Nothing \<and> moved qo fd [] rest qo'
      else if rest = [] \<and> length ps = 1 then r = Data fd (hd ps) (int (length (hd ps))) \<and> moved qo fd [] [] qo'
      else r = More \<and> moved qo fd ps rest qo')"

lemma filtered_after: "moved qo fd [] [] q1 \<Longrightarrow> filtered q1 fd ps rest r qo' \<Longrightarrow> filtered qo fd ps rest r qo'"
  using moved_trans [of qo fd "[]" "[]" q1] by (auto simp: filtered_def split: if_splits)

lemma frames_None: "fst (frames bs) = [] \<and> snd (frames bs) = [] \<longleftrightarrow> bs = []"
proof (cases bs rule: frames.cases)
  case (1 a b rest)
  then show ?thesis by (cases "length rest < read_size a b") (simp_all add: frames_short frames_packet)
qed simp_all

lemma frames_some: "bs \<noteq> [] \<Longrightarrow> snd (frames bs) = [] \<longrightarrow> fst (frames bs) \<noteq> []"
  using frames_None by blast

lemma filter_new_correct:
  assumes ok: "q_ok (get_queue qo)" and "pending qo fd = []" "buffer \<noteq> []"
  shows "\<exists>r qo'. filter_new fd buffer qo = Some (r, qo') \<and> filtered qo fd (fst (frames buffer)) (snd (frames buffer)) r qo'"
proof -
  consider (one) b where "buffer = [b]" | (more) a b rest where "buffer = a # b # rest"
    using assms(3) by (metis list.exhaust)
  then show ?thesis
  proof cases
    case one
    then show ?thesis using save_header_moved [OF ok assms(2)] by (simp add: filter_new_def filtered_def)
  next
    case more
    let ?n = "read_size a b"
    consider (short) "length rest < ?n" | (exact) "length rest = ?n" | (long) "?n < length rest" by linarith
    then show ?thesis
    proof cases
      case short
      then show ?thesis using save_part_moved [OF ok assms(2)] by (simp add: more filter_new_def filtered_def frames_short)
    next
      case exact
      have "moved qo fd [] [] qo" using ok assms(2) by (auto simp: moved_def)
      then show ?thesis using exact by (simp add: more filter_new_def filtered_def frames_packet)
    next
      case long
      let ?q = "push_data fd (take ?n rest) (int ?n) qo"
      have m: "moved qo fd [take ?n rest] [] (Some ?q)" using long ok assms(2) by (intro push_data_moved) simp_all
      then obtain q where q: "push_more fd (drop ?n rest) (Some ?q) = Some q"
        "moved (Some ?q) fd (fst (frames (drop ?n rest))) (snd (frames (drop ?n rest))) (Some q)"
        using push_more_moved [of "Some ?q" fd "drop ?n rest"] long by (auto simp: moved_def)
      have "snd (frames (drop ?n rest)) = [] \<longrightarrow> fst (frames (drop ?n rest)) \<noteq> []"
        by (rule frames_some) (use long in simp)
      then show ?thesis using q long moved_trans [OF m q(2)]
        by (simp add: more filter_new_def filtered_def frames_packet)
    qed
  qed
qed

lemma fill_header_some:
  assumes "uc_ok uc0" "uc_id uc0 = fd" "buffer0 \<noteq> []"
  shows "\<exists>uc buffer a b. fill_header uc0 buffer0 = Some (uc, buffer) \<and> uc_id uc = fd \<and>
    raw uc0 @ buffer0 = a # b # np_buffer (uc_pack uc) @ buffer \<and> np_size (uc_pack uc) = int (read_size a b) \<and>
    uc_read uc = int (length (np_buffer (uc_pack uc))) \<and> length (np_buffer (uc_pack uc)) \<le> read_size a b"
proof (cases "uc_read uc0 = -1")
  case True
  then show ?thesis
    using assms(2,3) by (intro exI [of _ "uc0\<lparr>uc_pack := (uc_pack uc0)\<lparr>np_size := int (read_size (uc_header uc0) (hd buffer0)),
        np_buffer := []\<rparr>, uc_read := 0\<rparr>"] exI [of _ "tl buffer0"] exI [of _ "uc_header uc0"] exI [of _ "hd buffer0"])
      (simp add: fill_header_def raw_def)
next
  case False
  let ?n = "nat (np_size (uc_pack uc0))"
  have ok: "uc_read uc0 = int (length (np_buffer (uc_pack uc0)))" "length (np_buffer (uc_pack uc0)) < ?n" "?n < 65536"
    using assms(1) False by (auto simp: uc_ok_def)
  note w = read_write_size [OF ok(3)]
  have "raw uc0 @ buffer0 = hd (write_size ?n) # hd (tl (write_size ?n)) # np_buffer (uc_pack uc0) @ buffer0"
    using ok(1) w(1) by (simp add: raw_def)
  then show ?thesis
    using ok w(2) assms(2) by (intro exI [of _ uc0] exI [of _ buffer0] exI [of _ "hd (write_size ?n)"] exI [of _ "hd (tl (write_size ?n))"])
      (simp add: fill_header_def)
qed

lemma fill_uncomplete_correct:
  assumes uc: "uc_ok uc0" "uc_id uc0 = fd" and "buffer0 \<noteq> []" and q: "q_ok q" "pending (Some q) fd = []"
  shows "\<exists>r q'. fill_uncomplete fd uc0 buffer0 q = Some (r, q') \<and>
    filtered (Some q) fd (fst (frames (raw uc0 @ buffer0))) (snd (frames (raw uc0 @ buffer0))) r (Some q')"
proof -
  obtain uc buffer a b where fill: "fill_header uc0 buffer0 = Some (uc, buffer)" "uc_id uc = fd"
    "raw uc0 @ buffer0 = a # b # np_buffer (uc_pack uc) @ buffer" "np_size (uc_pack uc) = int (read_size a b)"
    "uc_read uc = int (length (np_buffer (uc_pack uc)))" "length (np_buffer (uc_pack uc)) \<le> read_size a b"
    using fill_header_some [OF uc assms(3)] by blast
  let ?n = "read_size a b" and ?buf = "np_buffer (uc_pack uc)"
  define need where "need = ?n - length ?buf"
  have need: "int ?n - int (length ?buf) = int need" "length ?buf + need = ?n"
    "nat (int ?n - int (length ?buf)) = need" using fill(6) by (simp_all add: need_def)
  show ?thesis
  proof (cases "length buffer < need")
    case True
    let ?uc = "uc\<lparr>uc_pack := (uc_pack uc)\<lparr>np_buffer := ?buf @ buffer\<rparr>, uc_read := uc_read uc + int (length buffer)\<rparr>"
    have "uc_ok ?uc" using fill True need(2) read_size_less [of a b] by (simp add: uc_ok_def)
    moreover have "raw ?uc = a # b # ?buf @ buffer" using fill(4,5) by (simp add: raw_def write_read_size)
    ultimately have "moved (Some q) fd [] (a # b # ?buf @ buffer) (Some (save_uncomplete ?uc (Some q)))"
      using save_uncomplete_moved [of "Some q" ?uc] q fill(2) by simp
    moreover have "fill_uncomplete fd uc0 buffer0 q = Some (Nothing, save_uncomplete ?uc (Some q))"
      using fill True need by (simp add: fill_uncomplete_def save_uncomplete_def Let_def)
    ultimately show ?thesis using fill(3) True need(2) by (simp add: frames_short filtered_def)
  next
    case False
    let ?data = "?buf @ take need buffer" and ?rest = "drop need buffer"
    have data: "length ?data = ?n" "take ?n (?buf @ buffer) = ?data" "drop ?n (?buf @ buffer) = ?rest"
      using False need(2) by (auto simp: need_def)
    then have frames: "frames (raw uc0 @ buffer0) = (?data # fst (frames ?rest), snd (frames ?rest))"
      using fill(3) frames_packet [of a b "?buf @ buffer"] False need(2) by simp
    show ?thesis
    proof (cases "?rest = []")
      case True
      have "moved (Some q) fd [] [] (Some q)" using q by (auto simp: moved_def)
      moreover have "fill_uncomplete fd uc0 buffer0 q = Some (Data fd ?data (int ?n), q)"
        using fill False True need(3) by (simp add: fill_uncomplete_def Let_def)
      ultimately show ?thesis using frames True data(1) by (simp add: filtered_def)
    next
      case rest: False
      let ?q = "push_data fd ?data (int ?n) (Some q)"
      have m: "moved (Some q) fd [?data] [] (Some ?q)" using data(1) q by (intro push_data_moved) simp_all
      then obtain q' where q': "push_more fd ?rest (Some ?q) = Some q'"
        "moved (Some ?q) fd (fst (frames ?rest)) (snd (frames ?rest)) (Some q')"
        using push_more_moved [of "Some ?q" fd ?rest] rest by (auto simp: moved_def)
      have "fill_uncomplete fd uc0 buffer0 q = Some (More, q')"
        using fill False rest need(3) q'(1) by (simp add: fill_uncomplete_def Let_def)
      moreover have "snd (frames ?rest) = [] \<longrightarrow> fst (frames ?rest) \<noteq> []" by (rule frames_some [OF rest])
      ultimately show ?thesis using frames moved_trans [OF m q'(2)] by (simp add: filtered_def)
    qed
  qed
qed

lemma filter_packets_correct:
  assumes ok: "q_ok (get_queue qo)" and ne: "buffer \<noteq> []"
  shows "\<exists>r qo'. filter_packets fd buffer qo = Some (r, qo') \<and>
    filtered qo fd (fst (frames (pending qo fd @ buffer))) (snd (frames (pending qo fd @ buffer))) r qo'"
proof (cases "pending qo fd = []")
  case True
  then show ?thesis
    using filter_new_correct [OF ok True ne] find_uncomplete_none [OF ok True] by (simp add: filter_packets_def)
next
  case False
  from find_uncomplete_some [OF ok False] obtain uc q where find: "find_uncomplete fd qo = (Some uc, Some q)" "uc_ok uc"
    "uc_id uc = fd" "raw uc = pending qo fd" "moved qo fd [] [] (Some q)" by blast
  then have "q_ok q" "pending (Some q) fd = []" by (simp_all add: moved_def)
  from fill_uncomplete_correct [OF find(2,3) ne this] obtain r q' where fill: "fill_uncomplete fd uc buffer q = Some (r, q')"
    "filtered (Some q) fd (fst (frames (pending qo fd @ buffer))) (snd (frames (pending qo fd @ buffer))) r (Some q')"
    using find(4) by auto
  then show ?thesis using find(1) filtered_after [OF find(5)] by (auto simp: filter_packets_def)
qed

text \<open>A closed or failed socket loses what waited of it; the others and the ring keep theirs.\<close>

lemma close_moved: "q_ok (get_queue qo) \<Longrightarrow> moved qo fd [] [] (close_uncomplete fd qo)"
proof (cases "pending qo fd = []")
  case True
  assume ok: "q_ok (get_queue qo)"
  then have "close_uncomplete fd qo = qo" using True by (simp add: close_uncomplete_def find_uncomplete_none)
  then show ?thesis using ok True by (auto simp: moved_def)
next
  case False
  assume "q_ok (get_queue qo)"
  from find_uncomplete_some [OF this False] show ?thesis by (auto simp: close_uncomplete_def)
qed

text \<open>Clearing frees the buffer of every waiting packet and of every packet in the ring, and leaves nothing.\<close>

lemma lclear_frees:
  assumes "q_ok q"
  shows "\<exists>q'. lclear (Some q) =
      (concat (map (\<lambda>i. map (np_buffer \<circ> uc_pack) (q_hash q i)) [0..<HASHSIZE]) @ map np_buffer (q_content q), Some q') \<and>
    q_ok q' \<and> q_content q' = [] \<and> pending (Some q') = (\<lambda>fd. [])"
proof -
  have ring: "q_ring q" using assms by (simp add: q_ok_def)
  let ?tail = "if q_head q > q_tail q then q_tail q + q_cap q else q_tail q"
  let ?q = "q\<lparr>q_hash := (\<lambda>i. if i < HASHSIZE then [] else q_hash q i), q_head := 0, q_tail := 0\<rparr>"
  have "?tail = q_head q + q_count q" using ring by (auto simp: q_ring_def q_count_def)
  then have "map (\<lambda>i. np_buffer (q_queue q ! (i mod q_cap q))) [q_head q..<?tail] = map np_buffer (q_content q)"
    using ring by (intro nth_equalityI) (simp_all add: q_content_def nth_ring q_ring_def)
  moreover have "q_ok ?q" using assms by (auto simp: q_ok_def q_ring_def)
  moreover have "q_content ?q = []" by (simp add: q_content_def q_count_def)
  moreover have "hash_fd fd < HASHSIZE" for fd by (simp add: hash_fd_def HASHSIZE_def)
  then have "pending (Some ?q) = (\<lambda>fd. [])" by (intro ext) (simp add: pending_def)
  ultimately show ?thesis by (simp add: lclear_def Let_def)
qed

subsection \<open>A gateway\<close>

text \<open>
  How a gateway uses the filter: one call for each piece of data, and after \<^verbatim>\<open>"more"\<close> a call
  of \<^verbatim>\<open>pop\<close> until nothing is left. The result are the packets with their sockets.
\<close>

primrec pop_loop :: "nat \<Rightarrow> queue option \<Rightarrow> (u32 \<times> bytes) list \<times> queue option" where
  "pop_loop 0 qo = ([], qo)"
| "pop_loop (Suc n) qo =
     (case lpop qo of
        (None, q1) \<Rightarrow> ([], q1)
      | (Some p, q1) \<Rightarrow> let (out, q2) = pop_loop n q1 in ((np_id p, np_buffer p) # out, q2))"

definition data_message :: "u32 \<Rightarrow> bytes \<Rightarrow> socket_message" where
  "data_message fd chunk =
     \<lparr>sm_type = SKYNET_SOCKET_TYPE_DATA, sm_id = fd, sm_ud = int (length chunk), sm_buffer = Some chunk, sm_padding = []\<rparr>"

definition serve :: "u32 \<Rightarrow> bytes \<Rightarrow> queue option \<Rightarrow> ((u32 \<times> bytes) list \<times> queue option) option" where
  "serve fd chunk qo = do {
     (r, q1) \<leftarrow> lfilter (data_message fd chunk) qo;
     Some (case r of
         Data i p n \<Rightarrow> ([(i, p)], q1)
       | More \<Rightarrow> pop_loop (Suc (q_count (get_queue q1))) q1
       | _ \<Rightarrow> ([], q1))
   }"

fun serve_all :: "(u32 \<times> bytes) list \<Rightarrow> queue option \<Rightarrow> ((u32 \<times> bytes) list \<times> queue option) option" where
  "serve_all [] qo = Some ([], qo)"
| "serve_all ((fd, chunk) # evs) qo = do {
     (out, q1) \<leftarrow> serve fd chunk qo;
     (outs, q2) \<leftarrow> serve_all evs q1;
     Some (out @ outs, q2)
   }"

text \<open>What arrived on, or was delivered for, one socket.\<close>

definition of_fd :: "u32 \<Rightarrow> (u32 \<times> bytes) list \<Rightarrow> bytes list" where
  "of_fd fd evs = map snd (filter (\<lambda>e. fst e = fd) evs)"

lemma of_fd_simps [simp]:
  "of_fd fd [] = []" "of_fd fd ((i, c) # evs) = (if i = fd then c # of_fd fd evs else of_fd fd evs)"
  "of_fd fd (xs @ ys) = of_fd fd xs @ of_fd fd ys"
  by (simp_all add: of_fd_def)

lemma pop_loop_all:
  "q_ok q \<Longrightarrow> length (q_content q) < n \<Longrightarrow>
   \<exists>q'. pop_loop n (Some q) = (map (\<lambda>p. (np_id p, np_buffer p)) (q_content q), Some q') \<and> q_ok q' \<and> q_content q' = [] \<and>
     pending (Some q') = pending (Some q)"
proof (induction n arbitrary: q)
  case (Suc n)
  have ring: "q_ring q" using Suc.prems(1) by (simp add: q_ok_def)
  show ?case
  proof (cases "q_content q")
    case Nil
    then show ?thesis using lpop_empty [OF ring Nil] Suc.prems(1) by simp
  next
    case (Cons x xs)
    from lpop_cons [OF ring Cons] obtain q1 where q1: "lpop (Some q) = (Some x, Some q1)" "q_content q1 = xs" "q_ring q1"
      "q_hash q1 = q_hash q" by blast
    have "q_ok q1" using Suc.prems(1) q1 by (simp add: q_ok_def)
    moreover have "length (q_content q1) < n" using Suc.prems(2) Cons q1(2) by simp
    ultimately obtain q' where "pop_loop n (Some q1) = (map (\<lambda>p. (np_id p, np_buffer p)) (q_content q1), Some q')"
      "q_ok q'" "q_content q' = []" "pending (Some q') = pending (Some q1)" using Suc.IH by blast
    moreover have "pending (Some q1) = pending (Some q)" by (rule ext) (simp add: pending_def q1(4))
    ultimately show ?thesis using q1(1,2) Cons by simp
  qed
qed simp

lemma of_fd_same: "of_fd fd (map (\<lambda>p. (i, p)) ps) = (if i = fd then ps else [])"
  by (induction ps) auto

lemma serve_correct:
  assumes ok: "q_ok (get_queue qo)" "ring_packs qo = []" and ne: "chunk \<noteq> []"
  shows "\<exists>out qo'. serve fd chunk qo = Some (out, qo') \<and> q_ok (get_queue qo') \<and> ring_packs qo' = [] \<and>
    out = map (\<lambda>p. (fd, p)) (fst (frames (pending qo fd @ chunk))) \<and>
    pending qo' = (pending qo)(fd := snd (frames (pending qo fd @ chunk)))"
proof -
  let ?f = "frames (pending qo fd @ chunk)"
  obtain r q1 where f: "filter_packets fd chunk qo = Some (r, q1)" "filtered qo fd (fst ?f) (snd ?f) r q1"
    using filter_packets_correct [OF ok(1) ne] by blast
  have s: "serve fd chunk qo = Some (case r of
         Data i p n \<Rightarrow> ([(i, p)], q1)
       | More \<Rightarrow> pop_loop (Suc (q_count (get_queue q1))) q1
       | _ \<Rightarrow> ([], q1))"
    using f(1) by (simp add: serve_def lfilter_def data_message_def)
  consider (none) "fst ?f = []" | (one) p where "fst ?f = [p]" "snd ?f = []"
    | (more) "r = More" "moved qo fd (fst ?f) (snd ?f) q1"
    using f(2) by (auto simp: filtered_def length_Suc_conv split: if_splits)
  then show ?thesis
  proof cases
    case none
    then show ?thesis using f(2) s ok by (simp add: filtered_def moved_def)
  next
    case one
    then show ?thesis using f(2) s ok by (simp add: filtered_def moved_def)
  next
    case more
    obtain q where q: "q1 = Some q"
      using f more by (cases q1) (auto simp: filter_packets_def filter_new_def Let_def bind_Some_iff split: list.splits option.splits prod.splits if_splits)
    have "q_ok q" "length (q_content q) < Suc (q_count q)"
      using more(2) by (simp_all add: moved_def q q_content_def)
    from pop_loop_all [OF this] obtain q' where "pop_loop (Suc (q_count q)) (Some q) =
        (map (\<lambda>p. (np_id p, np_buffer p)) (q_content q), Some q')" "q_ok q'" "q_content q' = []"
      "pending (Some q') = pending (Some q)" by blast
    moreover have "q_content q = map (\<lambda>p. \<lparr>np_id = fd, np_size = int (length p), np_buffer = p\<rparr>) (fst ?f)"
      using more(2) ok(2) by (simp add: moved_def ring_packs_def q)
    ultimately show ?thesis using s more by (simp add: q moved_def ring_packs_def comp_def)
  qed
qed

lemma serve_all_correct:
  "q_ok (get_queue qo) \<Longrightarrow> ring_packs qo = [] \<Longrightarrow> (\<And>fd c. (fd, c) \<in> set evs \<Longrightarrow> c \<noteq> []) \<Longrightarrow>
   \<exists>out qo'. serve_all evs qo = Some (out, qo') \<and> ring_packs qo' = [] \<and>
     (\<forall>fd. of_fd fd out = fst (frames (pending qo fd @ concat (of_fd fd evs))) \<and>
        pending qo' fd = snd (frames (pending qo fd @ concat (of_fd fd evs))))"
proof (induction evs arbitrary: qo)
  case Nil
  have "frames (pending qo fd) = ([], pending qo fd)" for fd
  proof (cases "pending qo fd = []")
    case False
    from find_uncomplete_some [OF Nil(1) False] obtain uc where uc: "uc_ok uc" "raw uc = pending qo fd" by blast
    show ?thesis
    proof (cases "uc_read uc < 0")
      case True
      then show ?thesis using uc(2) [symmetric] by (simp add: raw_def)
    next
      case read: False
      obtain a b where w: "write_size (nat (np_size (uc_pack uc))) = [a, b]" using write_size_Cons by blast
      moreover have "nat (np_size (uc_pack uc)) < 65536" using uc(1) read by (auto simp: uc_ok_def)
      ultimately have "read_size a b = nat (np_size (uc_pack uc))"
        using read_write_size(2) [of "nat (np_size (uc_pack uc))"] by simp
      moreover have "length (np_buffer (uc_pack uc)) < nat (np_size (uc_pack uc))" using uc(1) read by (auto simp: uc_ok_def)
      ultimately show ?thesis using read w by (simp add: raw_def frames_short flip: uc(2))
    qed
  qed simp
  then show ?case using Nil by simp
next
  case (Cons e evs)
  obtain i c where e: "e = (i, c)" by (cases e)
  have "c \<noteq> []" by (rule Cons.prems(3) [of i]) (simp add: e)
  from serve_correct [OF Cons.prems(1,2) this, of i] obtain out q1 where serve: "serve i c qo = Some (out, q1)"
    "q_ok (get_queue q1)" "ring_packs q1 = []" "out = map (\<lambda>p. (i, p)) (fst (frames (pending qo i @ c)))"
    "pending q1 = (pending qo)(i := snd (frames (pending qo i @ c)))" by blast
  from Cons.IH [OF serve(2,3)] Cons.prems(3) obtain outs q2 where rest: "serve_all evs q1 = Some (outs, q2)"
    "ring_packs q2 = []" "\<And>fd. of_fd fd outs = fst (frames (pending q1 fd @ concat (of_fd fd evs))) \<and>
      pending q2 fd = snd (frames (pending q1 fd @ concat (of_fd fd evs)))" by auto
  have "of_fd fd (out @ outs) = fst (frames (pending qo fd @ concat (of_fd fd (e # evs)))) \<and>
      pending q2 fd = snd (frames (pending qo fd @ concat (of_fd fd (e # evs))))" for fd
    using rest(3) [of fd] frames_append [of "pending qo i @ c" "concat (of_fd i evs)"]
    by (cases "i = fd") (simp_all add: e serve(4,5) of_fd_same)
  then show ?case using serve(1) rest(1,2) by (simp add: e)
qed

lemma frames_concat:
  "(\<And>p. p \<in> set ps \<Longrightarrow> length p < 65536) \<Longrightarrow> frames (concat (map (\<lambda>p. write_size (length p) @ p) ps)) = (ps, [])"
  by (induction ps) (simp_all add: frames_packed)

subsection \<open>Properties\<close>

text \<open>C34. One piece of data: the filter appends it to what waited of its socket and cuts off the complete packets. None
  complete: it returns nothing. Exactly one and nothing behind it: it returns that packet. Otherwise it puts the packets
  at the end of the ring, in their order, and says \<^verbatim>\<open>"more"\<close>. The incomplete rest waits; what
  waits of other sockets and the packets in the ring before stay.\<close>

theorem netpack_filter:
  assumes "q_ok (get_queue qo)" "chunk \<noteq> []"
  shows "\<exists>r qo'. lfilter (data_message fd chunk) qo = Some (r, qo') \<and> q_ok (get_queue qo') \<and>
    pending qo' = (pending qo)(fd := snd (frames (pending qo fd @ chunk))) \<and>
    (case fst (frames (pending qo fd @ chunk)) of
       [] \<Rightarrow> r = Nothing \<and> ring_packs qo' = ring_packs qo
     | p # ps \<Rightarrow>
         if ps = [] \<and> snd (frames (pending qo fd @ chunk)) = []
         then r = Data fd p (int (length p)) \<and> ring_packs qo' = ring_packs qo
         else r = More \<and> ring_packs qo' = ring_packs qo @
           map (\<lambda>p. \<lparr>np_id = fd, np_size = int (length p), np_buffer = p\<rparr>) (p # ps))"
proof -
  from filter_packets_correct [OF assms] obtain r qo' where "filter_packets fd chunk qo = Some (r, qo')"
    "filtered qo fd (fst (frames (pending qo fd @ chunk))) (snd (frames (pending qo fd @ chunk))) r qo'" by blast
  then show ?thesis
    by (intro exI [of _ r] exI [of _ qo'])
      (auto simp: lfilter_def data_message_def filtered_def moved_def split: list.splits if_splits)
qed

theorem netpack_filter_witness:
  "lfilter (data_message 5 [0, 2, 7, 8, 0]) None =
     Some (More, snd (the (lfilter (data_message 5 [0, 2, 7, 8, 0]) None)))"
proof -
  have "q_ok (get_queue None)" by (rule q_ok_None)
  note this [THEN netpack_filter, of "[0, 2, 7, 8, 0]" 5]
  moreover have "frames [0, 2, 7, 8, 0] = ([[7, 8]], [0])" by (simp add: frames.simps(1) read_size_def)
  ultimately show ?thesis by (auto simp: q_ok_None)
qed

text \<open>C35. Packets survive the network: when the bytes that arrive on a socket, cut into pieces in any way and mixed with
  the traffic of other sockets, are the output of \<^verbatim>\<open>pack\<close> for some packets, the gateway delivers exactly
  these packets for the socket, in order, and its ring is empty again.\<close>

theorem netpack_roundtrip:
  assumes "\<And>i c. (i, c) \<in> set evs \<Longrightarrow> c \<noteq> []" "\<And>p. p \<in> set ps \<Longrightarrow> length p < 65536"
    "concat (of_fd fd evs) = concat (map (\<lambda>p. projr (lpack p)) ps)"
  shows "\<exists>out qo. serve_all evs None = Some (out, qo) \<and> of_fd fd out = ps \<and> ring_packs qo = []"
proof -
  have "projr (lpack p) = write_size (length p) @ p" if "p \<in> set ps" for p
    using assms(2) [OF that] by (simp add: lpack_def)
  then have eq: "map (\<lambda>p. projr (lpack p)) ps = map (\<lambda>p. write_size (length p) @ p) ps" by (intro map_cong refl)
  have "frames (concat (of_fd fd evs)) = (ps, [])" unfolding assms(3) eq by (rule frames_concat) (rule assms(2))
  moreover have "ring_packs None = []" by (simp add: ring_packs_def new_queue_ring)
  ultimately show ?thesis using serve_all_correct [OF q_ok_None(1) _ assms(1)] by (fastforce simp: q_ok_None(2))
qed

theorem netpack_roundtrip_witness:
  "\<exists>out qo. serve_all [(5, [0]), (9, [1, 1]), (5, [2, 7]), (5, [8, 0, 1, 6])] None = Some (out, qo) \<and>
     of_fd 5 out = [[7, 8], [6]] \<and> ring_packs qo = []"
proof (rule netpack_roundtrip)
  show "\<And>i c. (i, c) \<in> set [(5, [0]), (9, [1, 1]), (5, [2, 7]), (5, [8, 0, 1, 6])] \<Longrightarrow> c \<noteq> []" by auto
  show "\<And>p. p \<in> set [[7, 8], [6 :: u8]] \<Longrightarrow> length p < 65536" by auto
  show "concat (of_fd 5 [(5, [0]), (9, [1, 1]), (5, [2, 7]), (5, [8, 0, 1, 6])]) = concat (map (\<lambda>p. projr (lpack p)) [[7, 8], [6]])"
    by (simp add: lpack_def write_size_def)
qed

end
