(* ===== verification/Gate_Stream.thy ===== *)
theory Gate_Stream
  imports Gate Netpack
begin

text \<open>
  The streams of many connections of the gate: what a connection delivers depends on the bytes that
  arrived on it only, not on how they were cut or mixed with those of others. With the packets of
  \<^verbatim>\<open>lua-netpack.c\<close> on the other side this gives a round trip.
\<close>

fun gate_feed :: "(u32 \<times> bytes) list \<Rightarrow> gate \<Rightarrow> gate gate_result" where
  "gate_feed [] g = Some (g, [])"
| "gate_feed ((fd, chunk) # evs) g = do {
     (g1, sent1) \<leftarrow> dispatch_socket_message g (data_message fd chunk);
     (g2, sent2) \<leftarrow> gate_feed evs g1;
     Some (g2, sent1 @ sent2)
   }"

text \<open>The messages with a socket number as their session.\<close>

definition sent_on :: "int \<Rightarrow> gate_action list \<Rightarrow> gate_action list" where
  "sent_on fd = filter (\<lambda>a. case a of Skynet_Send source destination type session msg \<Rightarrow> session = fd | _ \<Rightarrow> False)"

lemma sent_on_append [simp]: "sent_on fd (xs @ ys) = sent_on fd xs @ sent_on fd ys"
  by (simp add: sent_on_def)

lemma sent_on_Nil [simp]: "sent_on fd [] = []"
  by (simp add: sent_on_def)

lemma sent_on_closing [simp]: "sent_on fd (closing i e) = []"
  by (cases e) (simp_all add: sent_on_def closing_def)

lemma sent_on_deliver: "sent_on fd (map (deliver g k) ps) = (if cn_id (g_conn g ! k) = fd then map (deliver g k) ps else [])"
  by (induction ps) (auto simp: sent_on_def deliver_def Let_def)

text \<open>Gates that differ in the buffers only.\<close>

definition same_gate :: "gate \<Rightarrow> gate \<Rightarrow> bool" where
  "same_gate g g' \<longleftrightarrow> g_hash g' = g_hash g \<and> g_header_size g' = g_header_size g \<and> g_broker g' = g_broker g \<and> g_watchdog g' = g_watchdog g \<and>
     g_client_tag g' = g_client_tag g \<and> (\<forall>k. (g_conn g' ! k)\<lparr>cn_buffer := db_init\<rparr> = (g_conn g ! k)\<lparr>cn_buffer := db_init\<rparr>)"

lemma same_gate_refl: "same_gate g g"
  by (simp add: same_gate_def)

lemma same_gate_trans: "same_gate g g1 \<Longrightarrow> same_gate g1 g2 \<Longrightarrow> same_gate g g2"
  by (simp add: same_gate_def)

lemma same_gate_put: "same_gate g (put_buffer k b g)"
  by (auto simp: same_gate_def put_buffer_def put_conn_def nth_list_update list_update_beyond)
    (metis nth_list_update_eq nth_list_update_neq list_update_beyond not_le connection.surjective connection.update_convs(5))

lemma same_gate_conn:
  assumes "same_gate g g'"
  shows "has_target g' k = has_target g k" "deliver g' k = deliver g k"
proof -
  have e: "(g_conn g' ! k)\<lparr>cn_buffer := db_init\<rparr> = (g_conn g ! k)\<lparr>cn_buffer := db_init\<rparr>" using assms by (simp add: same_gate_def)
  then have "cn_id (g_conn g' ! k) = cn_id (g_conn g ! k)" "cn_agent (g_conn g' ! k) = cn_agent (g_conn g ! k)"
    "cn_client (g_conn g' ! k) = cn_client (g_conn g ! k)"
    by (metis connection.select_convs(1) connection.surjective connection.update_convs(5),
        metis connection.select_convs(2) connection.surjective connection.update_convs(5),
        metis connection.select_convs(3) connection.surjective connection.update_convs(5))
  then show "has_target g' k = has_target g k" "deliver g' k = deliver g k"
    using assms by (auto simp: same_gate_def has_target_def deliver_def Let_def fun_eq_iff)
qed

abbreviation waits :: "gate \<Rightarrow> nat \<Rightarrow> int \<times> bytes" where
  "waits g k \<equiv> (db_header (cn_buffer (g_conn g ! k)), db_content (cn_buffer (g_conn g ! k)))"

text \<open>What waits completes no packet.\<close>

lemma cut_settled: "0 < hs \<Longrightarrow> cut con hs h bs = (ps, Waiting h' r) \<Longrightarrow> cut con hs h' r = ([], Waiting h' r)"
  using cut_append [of hs con h bs "[]"] by (simp split: prod.splits)

text \<open>With headers of two bytes there is room for every chunk of less than 2 GB less 64 KB.\<close>

lemma room_for_chunk:
  assumes "gate_ok g" "g_header_size g = 2" "slot_map (g_hash g) fd = Some k" "length (c :: bytes) + 65535 \<le> int_max"
  shows "length (db_content (cn_buffer (g_conn g ! k))) + length c \<le> int_max"
proof -
  have "settled 2 (cn_buffer (g_conn g ! k))" using assms(1,2) used_slot(1) [OF assms(1,3)] by (auto simp: gate_ok_def)
  from settled_short [OF this] show ?thesis using assms(4) by linarith
qed

text \<open>Data for one connection, and what they leave of another.\<close>

lemma serve_data:
  assumes ok: "gate_ok g" and k: "slot_map (g_hash g) (sint i) = Some k" and w: "waits g k = (h, bs)"
    and c: "cut (has_target g k) (g_header_size g) h (bs @ data) = (ps, e)" and room: "length bs + length data \<le> int_max"
  shows "\<exists>g'. dispatch_socket_message g (data_message i data) =
      Some (g', (if has_target g k then map (deliver g k) ps else []) @ closing (sint i) e) \<and> gate_ok g' \<and> same_gate g g' \<and>
    waits g' k = left_over e \<and> (\<forall>j. j \<noteq> k \<longrightarrow> waits g' j = waits g j)"
proof -
  have hok: "hi_ok (g_hash g)" using ok by (simp add: gate_ok_def)
  have d: "dispatch_socket_message g (data_message i data) = gate_dispatch k (sint i) data g"
    using hs.lookup [OF hok, of "sint i"] k by (simp add: dispatch_socket_message_def gate_data_def data_message_def)
  have c': "cut (has_target g k) (g_header_size g) (db_header (cn_buffer (g_conn g ! k))) (db_content (cn_buffer (g_conn g ! k)) @ data) = (ps, e)"
    using c w by simp
  obtain b where b: "gate_dispatch k (sint i) data g = Some (put_buffer k b g, (if has_target g k then map (deliver g k) ps else []) @ closing (sint i) e)"
    "gate_ok (put_buffer k b g)" "(db_header (fst b), db_content (fst b)) = left_over e"
    using dispatch_data [OF ok k _ c'] w room by auto
  have "g_conn (put_buffer k b g) ! j = g_conn g ! j" if "j \<noteq> k" for j using that by (simp add: put_buffer_def put_conn_def)
  then show ?thesis unfolding d using b used_slot(4) [OF ok k] same_gate_put [of g k b] by (intro exI [of _ "put_buffer k b g"]) simp
qed

lemma feed_correct:
  assumes "gate_ok g" "\<forall>i c. (i, c) \<in> set evs \<longrightarrow> slot_map (g_hash g) (sint i) \<noteq> None \<and> length c + 65535 \<le> int_max"
    "slot_map (g_hash g) (sint fd) = Some k" "has_target g k" "waits g k = (h, bs)"
    "cut True (g_header_size g) h bs = ([], Waiting h bs)"
    "cut True (g_header_size g) h (bs @ concat (of_fd fd evs)) = (ps, Waiting h' rest)" "g_header_size g = 2"
  shows "\<exists>g' sent. gate_feed evs g = Some (g', sent) \<and> gate_ok g' \<and> same_gate g g' \<and>
    sent_on (sint fd) sent = map (deliver g k) ps \<and> waits g' k = (h', rest)"
  using assms
proof (induction evs arbitrary: g h bs ps)
  case Nil
  then show ?case by (auto simp: same_gate_refl sent_on_def)
next
  case (Cons ev evs)
  obtain i c where ev: "ev = (i, c)" by (cases ev)
  have hs: "0 < g_header_size g" using Cons.prems(1) by (auto simp: gate_ok_def)
  obtain j where j: "slot_map (g_hash g) (sint i) = Some j" using Cons.prems(2) ev by fastforce
  have room: "length (db_content (cn_buffer (g_conn g ! j))) + length c \<le> int_max"
    using room_for_chunk [OF Cons.prems(1,8) j, of c] Cons.prems(2) ev by auto
  obtain ps1 e1 where c1: "cut (has_target g j) (g_header_size g) (db_header (cn_buffer (g_conn g ! j))) (db_content (cn_buffer (g_conn g ! j)) @ c) = (ps1, e1)"
    by fastforce
  obtain g1 where g1: "dispatch_socket_message g (data_message i c) =
      Some (g1, (if has_target g j then map (deliver g j) ps1 else []) @ closing (sint i) e1)" "gate_ok g1" "same_gate g g1"
    "waits g1 j = left_over e1" "\<forall>l. l \<noteq> j \<longrightarrow> waits g1 l = waits g l"
    using serve_data [OF Cons.prems(1) j refl c1 room] by blast
  note same = same_gate_conn [OF g1(3), of k] and fields = g1(3) [unfolded same_gate_def]
  have mem: "\<forall>l d. (l, d) \<in> set evs \<longrightarrow> slot_map (g_hash g1) (sint l) \<noteq> None \<and> length d + 65535 \<le> int_max" using Cons.prems(2) ev fields by (metis list.set_intros(2))
  have later: "\<exists>g' sent. gate_feed evs g1 = Some (g', sent) \<and> gate_ok g' \<and> same_gate g1 g' \<and>
      sent_on (sint fd) sent = map (deliver g k) qs \<and> waits g' k = (h', rest)"
    if "waits g1 k = (h1, r1)" "cut True (g_header_size g) h1 r1 = ([], Waiting h1 r1)"
      "cut True (g_header_size g) h1 (r1 @ concat (of_fd fd evs)) = (qs, Waiting h' rest)" for h1 r1 qs
    using Cons.IH [OF g1(2) mem, of h1 r1 qs] that Cons.prems(3,4,8) same fields by simp
  have trans: "same_gate g g'" if "same_gate g1 g'" for g' by (rule same_gate_trans [OF g1(3) that])
  have sj: "cn_id (g_conn g ! j) = sint i" using used_slot(2) [OF Cons.prems(1) j] .
  show ?case
  proof (cases "i = fd")
    case True
    then have jk: "j = k" using j Cons.prems(3) by simp
    have c1': "cut True (g_header_size g) h (bs @ c) = (ps1, e1)" using c1 Cons.prems(4,5) jk by simp
    have total: "cut True (g_header_size g) h ((bs @ c) @ concat (of_fd fd evs)) = (ps, Waiting h' rest)" using Cons.prems(7) ev True by simp
    obtain h1 r1 qs where e1: "e1 = Waiting h1 r1" "cut True (g_header_size g) h1 (r1 @ concat (of_fd fd evs)) = (qs, Waiting h' rest)" "ps = ps1 @ qs"
      using total [unfolded cut_append [OF hs, of True h "bs @ c" "concat (of_fd fd evs)"] c1'] by (cases e1) (auto split: prod.splits)
    obtain g' sent where "gate_feed evs g1 = Some (g', sent)" "gate_ok g'" "same_gate g1 g'"
      "sent_on (sint fd) sent = map (deliver g k) qs" "waits g' k = (h', rest)"
      using later [of h1 r1 qs] g1(4) jk e1(1,2) cut_settled [OF hs c1' [unfolded e1(1)]] by (auto simp: left_over_def)
    then show ?thesis using g1(1) ev jk Cons.prems(4) trans e1(3) sj True by (auto simp: sent_on_deliver)
  next
    case False
    then have "sint i \<noteq> sint fd" using signed_word_eqI by blast
    moreover have "j \<noteq> k" using calculation hs.slot_inj [of "g_hash g" "sint i" j "sint fd"] j Cons.prems(1,3) by (auto simp: gate_ok_def)
    ultimately obtain g' sent where "gate_feed evs g1 = Some (g', sent)" "gate_ok g'" "same_gate g1 g'"
      "sent_on (sint fd) sent = map (deliver g k) ps" "waits g' k = (h', rest)"
      using later [of h bs ps] g1(5) Cons.prems(5-7) ev False by auto
    then show ?thesis using g1(1) ev trans sj \<open>sint i \<noteq> sint fd\<close> by (auto simp: sent_on_deliver)
  qed
qed

subsection \<open>The packets of the packer\<close>

lemma header_value_2: "header_value 2 (a # b # rest) = int (read_size a b)"
proof -
  have "unat (push_bit 8 (ucast a) OR ucast b :: u32) < 2147483648" using read_size_less [of a b] unfolding read_size_def by linarith
  from sint_small [OF this] show ?thesis by (simp add: header_value_def read_size_def)
qed

lemma cut_packed:
  assumes "length p < 65536"
  shows "cut True 2 0 (write_size (length p) @ p @ rest) =
    (if p = [] then cut True 2 0 rest else (p # fst (cut True 2 0 rest), snd (cut True 2 0 rest)))"
proof -
  obtain a b where ab: "write_size (length p) = [a, b]" "read_size a b = length p" using read_write_size [OF assms] by blast
  have "next_header 2 0 (write_size (length p) @ p @ rest) = Some (int (length p), p @ rest)"
    using ab header_value_2 [of a b] by (simp add: next_header_def)
  then show ?thesis using assms by (simp add: cut.simps [of True 2 0 "write_size (length p) @ p @ rest"] Let_def split_beta)
qed

lemma cut_concat:
  "(\<And>p. p \<in> set ps \<Longrightarrow> length p < 65536) \<Longrightarrow>
   cut True 2 0 (concat (map (\<lambda>p. write_size (length p) @ p) ps)) = (filter (\<lambda>p. p \<noteq> []) ps, Waiting 0 [])"
proof (induction ps)
  case Nil
  then show ?case by (simp add: cut.simps [of True 2 0 "[]"] next_header_def)
next
  case (Cons p ps)
  then show ?case using cut_packed [of p "concat (map (\<lambda>p. write_size (length p) @ p) ps)"] by simp
qed

subsection \<open>Properties\<close>

text \<open>C11. Packets survive the way through the gate: when the bytes that arrive on a fresh connection, cut into pieces in any way and mixed with
  the traffic of other connections, are the output of the packer for some messages, the gate hands exactly these messages (but the empty
  ones) to their receiver, once and in order, and its buffer is empty again. A piece has at most 2 GB less 64 KB.\<close>

theorem gate_roundtrip:
  assumes "gate_ok g" "\<And>i c. (i, c) \<in> set evs \<Longrightarrow> slot_map (g_hash g) (sint i) \<noteq> None \<and> length c + 65535 \<le> int_max"
    "slot_map (g_hash g) (sint fd) = Some k" "has_target g k" "g_header_size g = 2" "waits g k = (0, [])"
    "\<And>p. p \<in> set ps \<Longrightarrow> length p < 65536" "concat (of_fd fd evs) = concat (map (\<lambda>p. projr (lpack p)) ps)"
  shows "\<exists>g' sent. gate_feed evs g = Some (g', sent) \<and> gate_ok g' \<and>
    sent_on (sint fd) sent = map (deliver g k) (filter (\<lambda>p. p \<noteq> []) ps) \<and> waits g' k = (0, [])"
proof -
  have "projr (lpack p) = write_size (length p) @ p" if "p \<in> set ps" for p
    using assms(7) [OF that] by (simp add: lpack_def)
  then have eq: "map (\<lambda>p. projr (lpack p)) ps = map (\<lambda>p. write_size (length p) @ p) ps" by (intro map_cong refl)
  have "cut True 2 0 (concat (of_fd fd evs)) = (filter (\<lambda>p. p \<noteq> []) ps, Waiting 0 [])"
    unfolding assms(8) eq by (rule cut_concat) (rule assms(7))
  moreover have "cut True 2 0 [] = ([], Waiting 0 [])" using cut_concat [of "[]"] by simp
  ultimately show ?thesis using feed_correct [OF assms(1) _ assms(3,4,6)] assms(2,5) by fastforce
qed

theorem gate_roundtrip_witness:
  "\<exists>g k g' sent. slot_map (g_hash g) 5 = Some k \<and> gate_feed [(5, [0]), (5, [2, 7]), (5, [8, 0, 0, 0, 1, 6])] g = Some (g', sent) \<and>
     sent_on 5 sent = [deliver g k [7, 8], deliver g k [6]]"
proof -
  obtain g k where g: "gate_ok g" "slot_map (g_hash g) 5 = Some k" "has_target g k" "g_header_size g = 2" "cn_buffer (g_conn g ! k) = db_init"
    using example_connection by blast
  have "\<exists>g' sent. gate_feed [(5, [0]), (5, [2, 7]), (5, [8, 0, 0, 0, 1, 6])] g = Some (g', sent) \<and> gate_ok g' \<and>
    sent_on (sint (5 :: u32)) sent = map (deliver g k) (filter (\<lambda>p. p \<noteq> []) [[7, 8], [], [6]]) \<and> waits g' k = (0, [])"
  proof (rule gate_roundtrip [OF g(1)])
    show "\<And>i c. (i :: u32, c) \<in> set [(5, [0]), (5, [2, 7]), (5, [8, 0, 0, 0, 1, 6])] \<Longrightarrow> slot_map (g_hash g) (sint i) \<noteq> None \<and> length c + 65535 \<le> int_max" using g(2) by auto
    show "waits g k = (0, [])" using g(5) by (simp add: db_init_ok) (simp add: db_init_def)
    show "\<And>p. p \<in> set [[7, 8], [], [6 :: u8]] \<Longrightarrow> length p < 65536" by auto
    show "concat (of_fd 5 [(5, [0]), (5, [2, 7]), (5, [8, 0, 0, 0, 1, 6])]) = concat (map (\<lambda>p. projr (lpack p)) [[7, 8], [], [6]])"
      by (simp add: lpack_def write_size_def)
  qed (use g in simp_all)
  then show ?thesis using g(2) by auto
qed

end
