(* ===== verification/Socket_Server.thy ===== *)
theory Socket_Server
  imports C_String
begin

text \<open>
  The sockets of the process, \<^verbatim>\<open>socket_server.c\<close>: one thread polls the sockets and carries out the
  requests that other threads write into a pipe; these threads also write to a socket directly
  when nothing is waiting on it. This theory holds the data, the sending and the closing of sockets.

  The operating system is a parameter: a function from the calls so far with their results and the
  next call to its result, so that every call may have any result. \<open>None\<close> is a failed \<^verbatim>\<open>assert\<close> or a
  loop that does not end. Buffers are values; the list \<open>ss_freed\<close> has those that were freed.
\<close>

subsection \<open>Constants\<close>

definition MAX_SOCKET_P :: nat where "MAX_SOCKET_P = 16"
definition MAX_SOCKET :: nat where "MAX_SOCKET = 65536"
definition MAX_EVENT :: nat where "MAX_EVENT = 64"
definition MIN_READ_BUFFER :: nat where "MIN_READ_BUFFER = 64"
definition UDP_ADDRESS_SIZE :: nat where "UDP_ADDRESS_SIZE = 19"
definition MAX_UDP_PACKAGE :: nat where "MAX_UDP_PACKAGE = 65535"
definition WARNING_SIZE :: int where "WARNING_SIZE = 1024 * 1024"

datatype socket_type =
  T_INVALID | T_RESERVE | T_PLISTEN | T_LISTEN | T_CONNECTING | T_CONNECTED | T_HALFCLOSE_READ | T_HALFCLOSE_WRITE | T_PACCEPT | T_BIND

datatype priority = High | Low

datatype protocol = P_TCP | P_UDP | P_UDPv6 | P_UNKNOWN

fun protocol_code :: "protocol \<Rightarrow> u8" where
  "protocol_code P_TCP = 0" | "protocol_code P_UDP = 1" | "protocol_code P_UDPv6 = 2" | "protocol_code P_UNKNOWN = 255"

text \<open>What a call of \<^verbatim>\<open>socket_server_poll\<close> reports; the last two are for internal use.\<close>

datatype socket_code =
  SOCKET_DATA | SOCKET_CLOSE | SOCKET_OPEN | SOCKET_ACCEPT | SOCKET_ERR | SOCKET_EXIT | SOCKET_UDP | SOCKET_WARNING | SOCKET_RST | SOCKET_MORE

definition HASH_ID :: "int \<Rightarrow> nat" where
  "HASH_ID fd = unat (word_of_int fd :: u32) mod MAX_SOCKET"

definition ID_TAG16 :: "int \<Rightarrow> nat" where
  "ID_TAG16 fd = nat (drop_bit MAX_SOCKET_P fd AND 0xffff)"

definition EINTR :: int where "EINTR = 4"
definition EAGAIN :: int where "EAGAIN = 11"
definition ENFILE :: int where "ENFILE = 23"
definition EMFILE :: int where "EMFILE = 24"
definition EINPROGRESS :: int where "EINPROGRESS = 115"
definition AF_INET :: int where "AF_INET = 2"
definition AF_INET6 :: int where "AF_INET6 = 10"

subsection \<open>Data\<close>

text \<open>
  A buffer to be sent. An object of the user (\<open>pl_user\<close>) has its data elsewhere unless \<open>pl_same\<close>:
  then the address of the data is that of the object.
\<close>

record send_payload =
  pl_data :: bytes
  pl_user :: bool
  pl_same :: bool

datatype buffer_kind = SOCKET_BUFFER_MEMORY | SOCKET_BUFFER_OBJECT | SOCKET_BUFFER_RAWPOINTER

record sendbuffer =
  sb_id :: int
  sb_kind :: buffer_kind
  sb_data :: bytes
  sb_same :: bool

text \<open>\<open>wb_ptr\<close> is the offset of \<^verbatim>\<open>ptr\<close> in the data; \<open>wb_udp\<close> the address of a datagram.\<close>

record write_buffer =
  wb_payload :: send_payload
  wb_ptr :: nat
  wb_sz :: nat
  wb_udp :: bytes

record socket_stat =
  st_rtime :: u64
  st_wtime :: u64
  st_read :: u64
  st_write :: u64

text \<open>\<^verbatim>\<open>sending\<close> has the tag of the socket number in its upper bits. The union \<^verbatim>\<open>p\<close> is two fields.\<close>

record socket =
  so_opaque :: u64
  so_high :: "write_buffer list"
  so_low :: "write_buffer list"
  so_wb_size :: int
  so_stat :: socket_stat
  so_sending :: nat
  so_fd :: int
  so_id :: int
  so_type :: socket_type
  so_protocol :: protocol
  so_reading :: bool
  so_writing :: bool
  so_closing :: bool
  so_udpconnecting :: int
  so_warn_size :: int
  so_size :: nat
  so_udp_address :: bytes
  so_dw_offset :: nat
  so_dw_buffer :: "send_payload option"

text \<open>An event of the poll; the number of the slot is absent for the pipe.\<close>

record event =
  ev_s :: "nat option"
  ev_read :: bool
  ev_write :: bool
  ev_error :: bool
  ev_eof :: bool

text \<open>The requests in the pipe, by their type: \<^verbatim>\<open>R S B L K O X W D P A C T U\<close>.\<close>

datatype request =
    R_Resume int u64
  | R_Pause int u64
  | R_Bind int int u64
  | R_Listen int int u64
  | R_Close int bool u64
  | R_Open int int u64 string
  | R_Exit
  | R_Trigger int
  | R_Send priority int send_payload
  | R_Send_Udp int send_payload bytes
  | R_Set_Udp int bytes
  | R_Setopt int int int
  | R_Udp int int int u64

text \<open>The calls of the operating system, those of the poll wrapper, and messages to the log.\<close>

datatype sys_call =
    Sys_Write int bytes
  | Sys_Sendto int bytes bytes
  | Sys_Read int nat
  | Sys_Recvfrom int nat
  | Sys_Accept int
  | Sys_Close int
  | Sys_Shutdown int bool
  | Sys_Socket_Error int
  | Sys_Setsockopt int int int
  | Sys_Getsockname int
  | Sys_Getpeername int
  | Sys_Getaddrinfo string int
  | Sys_Socket int
  | Sys_Connect int nat
  | Sys_Bind int nat
  | Sys_Listen int int
  | Sys_Dup
  | Sys_Pipe
  | Sys_Nonblocking int
  | Sys_Keepalive int
  | Try_Lock nat
  | Poll_Create
  | Poll_Release int
  | Poll_Add int "nat option"
  | Poll_Del int
  | Poll_Enable int nat bool bool
  | Poll_Wait
  | Log string

text \<open>
  The result of a call: what it returns, \<^verbatim>\<open>errno\<close> after it, and what it stores: numbers, data, a network
  address (its text if it has one, its port, its bytes, whether it is of version 4), the list of the
  addresses of a host (family and text), events.
\<close>

record sys_result =
  sr_ret :: int
  sr_value :: int
  sr_value2 :: int
  sr_errno :: int
  sr_data :: bytes
  sr_name :: "string option"
  sr_port :: nat
  sr_v4 :: bool
  sr_address :: bytes
  sr_addrs :: "(int \<times> string option \<times> bytes) list"
  sr_events :: "event list"

type_synonym trace = "(sys_call \<times> sys_result) list"

record system =
  answer :: "trace \<Rightarrow> sys_call \<Rightarrow> sys_result"
  strerror :: "int \<Rightarrow> string"
  gai_strerror :: "int \<Rightarrow> string"

record socket_server =
  ss_time :: u64
  ss_reserve_fd :: int
  ss_recvctrl_fd :: int
  ss_sendctrl_fd :: int
  ss_checkctrl :: bool
  ss_event_fd :: int
  ss_alloc_id :: u32
  ss_event_n :: nat
  ss_event_index :: nat
  ss_ev :: "event list"
  ss_slot :: "nat \<Rightarrow> socket"
  ss_pipe :: "request list"
  ss_trace :: trace
  ss_freed :: "send_payload list"

text \<open>What is handed to the caller of the poll.\<close>

datatype message_data = No_Data | Text string | Bytes bytes

record server_message =
  m_opaque :: u64
  m_id :: int
  m_ud :: int
  m_data :: message_data

text \<open>A result code with its message; \<open>None\<close> stands for -1.\<close>

type_synonym outcome = "(socket_code \<times> server_message) option"
type_synonym 'a server_step = "('a \<times> socket_server) option"

definition syscall :: "system \<Rightarrow> sys_call \<Rightarrow> socket_server \<Rightarrow> sys_result \<times> socket_server" where
  "syscall os c ss = (let r = answer os (ss_trace ss) c in (r, ss\<lparr>ss_trace := ss_trace ss @ [(c, r)]\<rparr>))"

definition call :: "system \<Rightarrow> sys_call \<Rightarrow> socket_server \<Rightarrow> socket_server" where
  "call os c ss = snd (syscall os c ss)"

text \<open>\<^verbatim>\<open>errno\<close>\<close>

definition cur_errno :: "socket_server \<Rightarrow> int" where
  "cur_errno ss = (if ss_trace ss = [] then 0 else sr_errno (snd (last (ss_trace ss))))"

definition put_slot :: "nat \<Rightarrow> socket \<Rightarrow> socket_server \<Rightarrow> socket_server" where
  "put_slot k s ss = ss\<lparr>ss_slot := (ss_slot ss)(k := s)\<rparr>"

definition upd_slot :: "nat \<Rightarrow> (socket \<Rightarrow> socket) \<Rightarrow> socket_server \<Rightarrow> socket_server" where
  "upd_slot k f ss = put_slot k (f (ss_slot ss k)) ss"

definition free_payloads :: "send_payload list \<Rightarrow> socket_server \<Rightarrow> socket_server" where
  "free_payloads ps ss = ss\<lparr>ss_freed := ss_freed ss @ ps\<rparr>"

definition message_of :: "socket \<Rightarrow> message_data \<Rightarrow> server_message" where
  "message_of s d = \<lparr>m_opaque = so_opaque s, m_id = so_id s, m_ud = 0, m_data = d\<rparr>"

subsection \<open>Numbers of sockets\<close>

definition socket_invalid :: "socket \<Rightarrow> int \<Rightarrow> bool" where
  "socket_invalid s fd \<longleftrightarrow> so_id s \<noteq> fd \<or> so_type s = T_INVALID"

text \<open>
  The next number. The atomic increment of the counter wraps by its own definition, but the code adds 1 to its old value as an
  int, which C leaves undefined for the largest value; the test for a negative number shows that the code counts on a wrap, and so does the model:
  the counter goes from its largest value to 0.
\<close>

definition next_id :: "u32 \<Rightarrow> int \<times> u32" where
  "next_id alloc =
     (let fd = sint (alloc + 1)
      in if fd < 0 then (sint ((alloc + 1) AND 0x7fffffff), (alloc + 1) AND 0x7fffffff) else (fd, alloc + 1))"

fun reserve_loop :: "nat \<Rightarrow> socket_server \<Rightarrow> int \<times> socket_server" where
  "reserve_loop 0 ss = (-1, ss)"
| "reserve_loop (Suc n) ss =
     (let (fd, alloc) = next_id (ss_alloc_id ss); ss1 = ss\<lparr>ss_alloc_id := alloc\<rparr>; s = ss_slot ss1 (HASH_ID fd)
      in if so_type s = T_INVALID
         then (fd, put_slot (HASH_ID fd)
           (s\<lparr>so_type := T_RESERVE, so_id := fd, so_protocol := P_UNKNOWN, so_udpconnecting := 0, so_fd := -1\<rparr>) ss1)
         else reserve_loop n ss1)"

definition reserve_id :: "socket_server \<Rightarrow> int \<times> socket_server" where
  "reserve_id ss = reserve_loop MAX_SOCKET ss"

subsection \<open>Polling\<close>

definition enable_write :: "system \<Rightarrow> nat \<Rightarrow> bool \<Rightarrow> socket_server \<Rightarrow> int \<times> socket_server" where
  "enable_write os k enable ss =
     (let s = ss_slot ss k
      in if so_writing s \<noteq> enable
         then let (r, ss1) = syscall os (Poll_Enable (so_fd s) k (so_reading s) enable) (upd_slot k (so_writing_update (\<lambda>_. enable)) ss)
              in (sr_ret r, ss1)
         else (0, ss))"

definition enable_read :: "system \<Rightarrow> nat \<Rightarrow> bool \<Rightarrow> socket_server \<Rightarrow> int \<times> socket_server" where
  "enable_read os k enable ss =
     (let s = ss_slot ss k
      in if so_reading s \<noteq> enable
         then let (r, ss1) = syscall os (Poll_Enable (so_fd s) k enable (so_writing s)) (upd_slot k (so_reading_update (\<lambda>_. enable)) ss)
              in (sr_ret r, ss1)
         else (0, ss))"

definition set_type :: "nat \<Rightarrow> socket_type \<Rightarrow> socket_server \<Rightarrow> socket_server" where
  "set_type k t ss = upd_slot k (so_type_update (\<lambda>_. t)) ss"

definition zero_stat :: socket_stat where
  "zero_stat = \<lparr>st_rtime = 0, st_wtime = 0, st_read = 0, st_write = 0\<rparr>"

definition new_fd :: "system \<Rightarrow> int \<Rightarrow> int \<Rightarrow> protocol \<Rightarrow> u64 \<Rightarrow> bool \<Rightarrow> socket_server \<Rightarrow> bool server_step" where
  "new_fd os fd sock proto opaque reading ss = do {
     let k = HASH_ID fd;
     c_assert (so_type (ss_slot ss k) = T_RESERVE);
     let (r, ss1) = syscall os (Poll_Add sock (Some k)) ss;
     if sr_ret r \<noteq> 0 then Some (False, set_type k T_INVALID ss1)
     else do {
       let ss2 = upd_slot k (\<lambda>s. s\<lparr>so_id := fd, so_fd := sock, so_reading := True, so_writing := False, so_closing := False,
         so_sending := ID_TAG16 fd * 65536, so_protocol := proto, so_size := MIN_READ_BUFFER, so_opaque := opaque,
         so_wb_size := 0, so_warn_size := 0\<rparr>) ss1;
       c_assert (so_high (ss_slot ss2 k) = [] \<and> so_low (ss_slot ss2 k) = []);
       let ss3 = upd_slot k (\<lambda>s. s\<lparr>so_dw_buffer := None, so_stat := zero_stat\<rparr>) ss2;
       let (err, ss4) = enable_read os k reading ss3;
       Some (if err \<noteq> 0 then (False, set_type k T_INVALID ss4) else (True, ss4))
     }
   }"

definition stat_read :: "nat \<Rightarrow> int \<Rightarrow> socket_server \<Rightarrow> socket_server" where
  "stat_read k n ss =
     upd_slot k (\<lambda>s. s\<lparr>so_stat := (so_stat s)\<lparr>st_read := st_read (so_stat s) + word_of_int n, st_rtime := ss_time ss\<rparr>\<rparr>) ss"

definition stat_write :: "nat \<Rightarrow> int \<Rightarrow> socket_server \<Rightarrow> socket_server" where
  "stat_write k n ss =
     upd_slot k (\<lambda>s. s\<lparr>so_stat := (so_stat s)\<lparr>st_write := st_write (so_stat s) + word_of_int n, st_wtime := ss_time ss\<rparr>\<rparr>) ss"

subsection \<open>Closing\<close>

definition force_close :: "system \<Rightarrow> nat \<Rightarrow> socket_server \<Rightarrow> server_message server_step" where
  "force_close os k ss = do {
     let s = ss_slot ss k;
     let result = message_of s No_Data;
     if so_type s = T_INVALID then Some (result, ss)
     else do {
       c_assert (so_type s \<noteq> T_RESERVE);
       let ss1 = upd_slot k (\<lambda>s. s\<lparr>so_high := [], so_low := []\<rparr>) (free_payloads (map wb_payload (so_high s @ so_low s)) ss);
       let ss2 = call os (Poll_Del (so_fd s)) ss1;
       let ss3 = (if so_type s \<noteq> T_BIND then call os (Sys_Close (so_fd s)) ss2 else ss2);
       let ss4 = set_type k T_INVALID ss3;
       Some (result,
         (case so_dw_buffer s of
            None \<Rightarrow> ss4
          | Some dw \<Rightarrow> upd_slot k (so_dw_buffer_update (\<lambda>_. None)) (free_payloads [dw] ss4)))
     }
   }"

definition report_error :: "socket \<Rightarrow> string \<Rightarrow> outcome" where
  "report_error s err = Some (SOCKET_ERR, message_of s (Text err))"

definition close_write :: "system \<Rightarrow> nat \<Rightarrow> socket_server \<Rightarrow> outcome server_step" where
  "close_write os k ss =
     (let s = ss_slot ss k
      in if so_closing s \<or> so_type s = T_HALFCLOSE_READ then do {
           (result, ss1) \<leftarrow> force_close os k ss;
           Some (Some (SOCKET_RST, result), ss1)
         }
         else if so_type s = T_HALFCLOSE_WRITE then Some (Some (SOCKET_RST, message_of s No_Data), ss)
         else
           let ss1 = call os (Sys_Shutdown (so_fd s) True) (set_type k T_HALFCLOSE_WRITE ss);
               (err, ss2) = enable_write os k False ss1
           in Some (report_error s (strerror os (cur_errno ss2)), ss2))"

definition send_buffer_empty :: "socket \<Rightarrow> bool" where
  "send_buffer_empty s \<longleftrightarrow> so_high s = [] \<and> so_low s = []"

definition nomore_sending_data :: "socket \<Rightarrow> bool" where
  "nomore_sending_data s \<longleftrightarrow>
     (send_buffer_empty s \<and> so_dw_buffer s = None \<and> so_sending s mod 65536 = 0) \<or> so_type s = T_HALFCLOSE_WRITE"

definition close_read :: "system \<Rightarrow> nat \<Rightarrow> socket_server \<Rightarrow> server_message \<times> socket_server" where
  "close_read os k ss =
     (let ss1 = snd (enable_read os k False (set_type k T_HALFCLOSE_READ ss));
          ss2 = call os (Sys_Shutdown (so_fd (ss_slot ss1 k)) False) ss1
      in (message_of (ss_slot ss2 k) No_Data, ss2))"

definition halfclose_read :: "socket \<Rightarrow> bool" where
  "halfclose_read s \<longleftrightarrow> so_type s = T_HALFCLOSE_READ"

subsection \<open>Sending\<close>

definition get_list :: "priority \<Rightarrow> socket \<Rightarrow> write_buffer list" where
  "get_list p s = (case p of High \<Rightarrow> so_high s | Low \<Rightarrow> so_low s)"

definition set_list :: "priority \<Rightarrow> write_buffer list \<Rightarrow> socket \<Rightarrow> socket" where
  "set_list p ws s = (case p of High \<Rightarrow> s\<lparr>so_high := ws\<rparr> | Low \<Rightarrow> s\<lparr>so_low := ws\<rparr>)"

text \<open>What is still to be written of a buffer.\<close>

definition wb_rest :: "write_buffer \<Rightarrow> bytes" where
  "wb_rest wb = take (wb_sz wb) (drop (wb_ptr wb) (pl_data (wb_payload wb)))"

partial_function (option) write_retry :: "system \<Rightarrow> int \<Rightarrow> bytes \<Rightarrow> socket_server \<Rightarrow> sys_result server_step" where
  "write_retry os fd data ss =
     (let (r, ss1) = syscall os (Sys_Write fd data) ss
      in if sr_ret r < 0 \<and> sr_errno r = EINTR then write_retry os fd data ss1 else Some (r, ss1))"

partial_function (option) send_list_tcp :: "system \<Rightarrow> nat \<Rightarrow> priority \<Rightarrow> socket_server \<Rightarrow> outcome server_step" where
  "send_list_tcp os k p ss =
     (case get_list p (ss_slot ss k) of
        [] \<Rightarrow> Some (None, ss)
      | tmp # rest \<Rightarrow> do {
          (r, ss1) \<leftarrow> write_retry os (so_fd (ss_slot ss k)) (wb_rest tmp) ss;
          if sr_ret r < 0 then if sr_errno r = EAGAIN then Some (None, ss1) else close_write os k ss1
          else do {
            let n = nat (sr_ret r);
            let ss2 = upd_slot k (\<lambda>s. s\<lparr>so_wb_size := so_wb_size s - sr_ret r\<rparr>) (stat_write k (sr_ret r) ss1);
            if n \<noteq> wb_sz tmp
            then Some (None, upd_slot k (set_list p (tmp\<lparr>wb_ptr := wb_ptr tmp + n, wb_sz := wb_sz tmp - n\<rparr> # rest)) ss2)
            else send_list_tcp os k p (free_payloads [wb_payload tmp] (upd_slot k (set_list p rest) ss2))
          }
        })"

declare write_retry.simps [code] send_list_tcp.simps [code]

text \<open>The address for \<^verbatim>\<open>sendto\<close>: port and number, when the address has the protocol of the socket.\<close>

definition udp_socket_address :: "socket \<Rightarrow> bytes \<Rightarrow> bytes option" where
  "udp_socket_address s udp_address =
     (if udp_address ! 0 \<noteq> protocol_code (so_protocol s) then None
      else case so_protocol s of
        P_UDP \<Rightarrow> Some (take 6 (drop 1 udp_address))
      | P_UDPv6 \<Rightarrow> Some (take 18 (drop 1 udp_address))
      | _ \<Rightarrow> None)"

definition drop_udp :: "nat \<Rightarrow> priority \<Rightarrow> write_buffer \<Rightarrow> socket_server \<Rightarrow> socket_server" where
  "drop_udp k p tmp ss =
     free_payloads [wb_payload tmp]
       (upd_slot k (\<lambda>s. set_list p (tl (get_list p s)) (s\<lparr>so_wb_size := so_wb_size s - int (wb_sz tmp)\<rparr>)) ss)"

fun send_list_udp :: "system \<Rightarrow> nat \<Rightarrow> priority \<Rightarrow> nat \<Rightarrow> socket_server \<Rightarrow> outcome \<times> socket_server" where
  "send_list_udp os k p 0 ss = (None, ss)"
| "send_list_udp os k p (Suc n) ss =
     (case get_list p (ss_slot ss k) of
        [] \<Rightarrow> (None, ss)
      | tmp # rest \<Rightarrow>
          (case udp_socket_address (ss_slot ss k) (wb_udp tmp) of
             None \<Rightarrow> (None, drop_udp k p tmp (call os (Log ''udp type mismatch'') ss))
           | Some sa \<Rightarrow>
               let (r, ss1) = syscall os (Sys_Sendto (so_fd (ss_slot ss k)) (wb_rest tmp) sa) ss
               in if sr_ret r < 0
                  then if sr_errno r = EINTR \<or> sr_errno r = EAGAIN then (None, ss1)
                       else (None, drop_udp k p tmp (call os (Log ''udp sendto error'') ss1))
                  else send_list_udp os k p n (drop_udp k p tmp (stat_write k (int (wb_sz tmp)) ss1))))"

definition send_list :: "system \<Rightarrow> nat \<Rightarrow> priority \<Rightarrow> socket_server \<Rightarrow> outcome server_step" where
  "send_list os k p ss =
     (if so_protocol (ss_slot ss k) = P_TCP then send_list_tcp os k p ss
      else Some (send_list_udp os k p (length (get_list p (ss_slot ss k))) ss))"

text \<open>\<^verbatim>\<open>ptr != buffer\<close>: some of it was sent, or the data of an object are not where the object is.\<close>

definition list_uncomplete :: "write_buffer list \<Rightarrow> bool" where
  "list_uncomplete ws =
     (case ws of [] \<Rightarrow> False | wb # rest \<Rightarrow> wb_ptr wb \<noteq> 0 \<or> (pl_user (wb_payload wb) \<and> \<not> pl_same (wb_payload wb)))"

definition raise_uncomplete :: "socket \<Rightarrow> socket option" where
  "raise_uncomplete s =
     (case so_low s of
        [] \<Rightarrow> None
      | tmp # rest \<Rightarrow> do { c_assert (so_high s = []); Some (s\<lparr>so_low := rest, so_high := [tmp]\<rparr>) })"

text \<open>Both lists are empty.\<close>

definition finish_sending :: "system \<Rightarrow> nat \<Rightarrow> socket_server \<Rightarrow> outcome server_step" where
  "finish_sending os k ss = do {
     let s = ss_slot ss k;
     c_assert (send_buffer_empty s \<and> so_wb_size s = 0);
     if so_closing s then do { (result, ss1) \<leftarrow> force_close os k ss; Some (None, ss1) }
     else do {
       let (err, ss1) = enable_write os k False ss;
       if err \<noteq> 0 then Some (report_error (ss_slot ss1 k) ''disable write failed'', ss1)
       else if so_warn_size s > 0
       then Some (Some (SOCKET_WARNING, message_of s No_Data), upd_slot k (so_warn_size_update (\<lambda>_. 0)) ss1)
       else Some (None, ss1)
     }
   }"

text \<open>The result of a list: an error is passed on, a reset is not.\<close>

definition sent_result :: "outcome \<Rightarrow> outcome" where
  "sent_result r = (case r of Some (SOCKET_ERR, m) \<Rightarrow> r | _ \<Rightarrow> None)"

definition send_low :: "system \<Rightarrow> nat \<Rightarrow> socket_server \<Rightarrow> outcome server_step" where
  "send_low os k ss =
     (if so_low (ss_slot ss k) = [] then finish_sending os k ss
      else do {
        (ret, ss1) \<leftarrow> send_list os k Low ss;
        if ret \<noteq> None then Some (sent_result ret, ss1)
        else if list_uncomplete (so_low (ss_slot ss1 k)) then do { s \<leftarrow> raise_uncomplete (ss_slot ss1 k); Some (None, put_slot k s ss1) }
        else if so_low (ss_slot ss1 k) \<noteq> [] then Some (None, ss1)
        else finish_sending os k ss1
      })"

definition send_buffer_lists :: "system \<Rightarrow> nat \<Rightarrow> socket_server \<Rightarrow> outcome server_step" where
  "send_buffer_lists os k ss = do {
     c_assert (\<not> list_uncomplete (so_low (ss_slot ss k)));
     (ret, ss1) \<leftarrow> send_list os k High ss;
     if ret \<noteq> None then Some (sent_result ret, ss1)
     else if so_high (ss_slot ss1 k) \<noteq> [] then Some (None, ss1)
     else send_low os k ss1
   }"

text \<open>What another thread could not write goes in front.\<close>

definition raise_direct :: "socket \<Rightarrow> socket" where
  "raise_direct s =
     (case so_dw_buffer s of
        None \<Rightarrow> s
      | Some dw \<Rightarrow>
          let sz = length (pl_data dw) - so_dw_offset s; buf = \<lparr>wb_payload = dw, wb_ptr = so_dw_offset s, wb_sz = sz, wb_udp = []\<rparr>
          in s\<lparr>so_wb_size := so_wb_size s + int sz, so_high := buf # so_high s, so_dw_buffer := None\<rparr>)"

definition send_buffer :: "system \<Rightarrow> nat \<Rightarrow> socket_server \<Rightarrow> outcome server_step" where
  "send_buffer os k ss =
     (let (r, ss1) = syscall os (Try_Lock k) ss
      in if sr_ret r = 0 then Some (None, ss1) else send_buffer_lists os k (upd_slot k raise_direct ss1))"

definition append_sendbuffer :: "priority \<Rightarrow> send_payload \<Rightarrow> bytes \<Rightarrow> socket \<Rightarrow> socket" where
  "append_sendbuffer p buf udp_address s =
     (let wb = \<lparr>wb_payload = buf, wb_ptr = 0, wb_sz = length (pl_data buf), wb_udp = udp_address\<rparr>
      in (set_list p (get_list p s @ [wb]) s)\<lparr>so_wb_size := so_wb_size s + int (wb_sz wb)\<rparr>)"

definition trigger_write :: "system \<Rightarrow> int \<Rightarrow> socket_server \<Rightarrow> outcome \<times> socket_server" where
  "trigger_write os fd ss =
     (let k = HASH_ID fd; s = ss_slot ss k
      in if socket_invalid s fd then (None, ss)
         else let (err, ss1) = enable_write os k True ss
              in (if err \<noteq> 0 then report_error (ss_slot ss1 k) ''enable write failed'' else None, ss1))"

text \<open>A warning when more than a megabyte waits, and again whenever it has doubled.\<close>

definition check_warning :: "nat \<Rightarrow> socket_server \<Rightarrow> outcome \<times> socket_server" where
  "check_warning k ss =
     (let s = ss_slot ss k
      in if so_wb_size s \<ge> WARNING_SIZE \<and> so_wb_size s \<ge> so_warn_size s
         then (Some (SOCKET_WARNING,
                 (message_of s No_Data)\<lparr>m_ud := (if so_wb_size s mod 1024 = 0 then so_wb_size s div 1024 else so_wb_size s div 1024 + 1)\<rparr>),
               upd_slot k (so_warn_size_update (\<lambda>w. if w = 0 then WARNING_SIZE * 2 else w * 2)) ss)
         else (None, ss))"

definition send_socket :: "system \<Rightarrow> int \<Rightarrow> send_payload \<Rightarrow> priority \<Rightarrow> bytes option \<Rightarrow> socket_server \<Rightarrow> outcome \<times> socket_server" where
  "send_socket os fd buf p udp ss =
     (let k = HASH_ID fd; s = ss_slot ss k; udp_address = (case udp of None \<Rightarrow> so_udp_address s | Some a \<Rightarrow> a)
      in if so_type s = T_INVALID \<or> so_id s \<noteq> fd \<or> so_type s = T_HALFCLOSE_WRITE \<or> so_type s = T_PACCEPT \<or> so_closing s
         then (None, free_payloads [buf] ss)
         else if so_type s = T_PLISTEN \<or> so_type s = T_LISTEN
         then (None, free_payloads [buf] (call os (Log ''write to listen fd'') ss))
         else if send_buffer_empty s then
           if so_protocol s = P_TCP then
             let (err, ss1) = enable_write os k True (upd_slot k (append_sendbuffer High buf []) ss)
             in if err \<noteq> 0 then (report_error (ss_slot ss1 k) ''enable write failed'', ss1) else check_warning k ss1
           else
             (case udp_socket_address s udp_address of
                None \<Rightarrow> (None, free_payloads [buf] (call os (Log ''udp socket type mismatch'') ss))
              | Some sa \<Rightarrow>
                  let (r, ss1) = syscall os (Sys_Sendto (so_fd s) (pl_data buf) sa) ss
                  in if sr_ret r \<noteq> int (length (pl_data buf))
                     then let (err, ss2) = enable_write os k True (upd_slot k (append_sendbuffer p buf udp_address) ss1)
                          in if err \<noteq> 0 then (report_error (ss_slot ss2 k) ''enable write failed'', ss2) else check_warning k ss2
                     else (None, free_payloads [buf] (stat_write k (sr_ret r) ss1)))
         else if so_protocol s = P_TCP then check_warning k (upd_slot k (append_sendbuffer p buf []) ss)
         else check_warning k (upd_slot k (append_sendbuffer p buf udp_address) ss))"

end
