(* ===== verification/Socket_Poll.thy ===== *)
theory Socket_Poll
  imports Socket_Server
begin

text \<open>
  The requests and the events of \<^verbatim>\<open>socket_server.c\<close>: what the socket thread does, and the functions
  that other threads call. A request in the pipe is a value, not the bytes of its structure.
\<close>

subsection \<open>Requests\<close>

text \<open>The first address of a host that a connection can be started to: socket, status and address.\<close>

fun connect_loop :: "system \<Rightarrow> (int \<times> string option \<times> bytes) list \<Rightarrow> nat \<Rightarrow> socket_server \<Rightarrow> (int \<times> int \<times> string option) \<times> socket_server" where
  "connect_loop os [] i ss = ((-1, 0, None), ss)"
| "connect_loop os ((family, txt, sa) # addrs) i ss =
     (let (r, ss1) = syscall os (Sys_Socket family) ss; sock = sr_ret r
      in if sock < 0 then connect_loop os addrs (i + 1) ss1
         else
           let ss2 = call os (Sys_Nonblocking sock) (call os (Sys_Keepalive sock) ss1);
               (c, ss3) = syscall os (Sys_Connect sock i) ss2
           in if sr_ret c \<noteq> 0 \<and> sr_errno c \<noteq> EINPROGRESS
              then connect_loop os addrs (i + 1) (call os (Sys_Close sock) ss3)
              else ((sock, sr_ret c, txt), ss3))"

definition open_failed :: "nat \<Rightarrow> server_message \<Rightarrow> string \<Rightarrow> socket_server \<Rightarrow> outcome \<times> socket_server" where
  "open_failed k result err ss = (Some (SOCKET_ERR, result\<lparr>m_data := Text err\<rparr>), set_type k T_INVALID ss)"

definition data_of :: "string option \<Rightarrow> message_data" where
  "data_of t = (case t of None \<Rightarrow> No_Data | Some s \<Rightarrow> Text s)"

definition open_socket :: "system \<Rightarrow> int \<Rightarrow> int \<Rightarrow> u64 \<Rightarrow> string \<Rightarrow> socket_server \<Rightarrow> outcome server_step" where
  "open_socket os fd port opaque host ss =
     (let k = HASH_ID fd; result = \<lparr>m_opaque = opaque, m_id = fd, m_ud = 0, m_data = No_Data\<rparr>;
          (r, ss1) = syscall os (Sys_Getaddrinfo host port) ss
      in if sr_ret r \<noteq> 0 then Some (open_failed k result (gai_strerror os (sr_ret r)) ss1)
         else
           let ((sock, status, txt), ss2) = connect_loop os (sr_addrs r) 0 ss1
           in if sock < 0 then Some (open_failed k result (strerror os (cur_errno ss2)) ss2)
              else do {
                (added, ss3) \<leftarrow> new_fd os fd sock P_TCP opaque True ss2;
                if \<not> added then Some (open_failed k result ''reach skynet socket number limit'' (call os (Sys_Close sock) ss3))
                else if status = 0 then Some (Some (SOCKET_OPEN, result\<lparr>m_data := data_of txt\<rparr>), set_type k T_CONNECTED ss3)
                else do {
                  let (err, ss4) = enable_write os k True ss3;
                  if err \<noteq> 0 then Some (open_failed k result ''enable write failed'' (call os (Sys_Close sock) ss4))
                  else Some (None, set_type k T_CONNECTING ss4)
                }
              })"

definition listen_socket :: "system \<Rightarrow> int \<Rightarrow> int \<Rightarrow> u64 \<Rightarrow> socket_server \<Rightarrow> outcome server_step" where
  "listen_socket os fd listen_fd opaque ss = do {
     let result = \<lparr>m_opaque = opaque, m_id = fd, m_ud = 0, m_data = Text ''listen''\<rparr>;
     (added, ss1) \<leftarrow> new_fd os fd listen_fd P_TCP opaque False ss;
     if \<not> added
     then Some (open_failed (HASH_ID fd) result ''reach skynet socket number limit'' (call os (Sys_Close listen_fd) ss1))
     else do {
       let (r, ss2) = syscall os (Sys_Getsockname listen_fd) (set_type (HASH_ID fd) T_PLISTEN ss1);
       Some
         (if sr_ret r = 0
          then case sr_name r of
            None \<Rightarrow> (Some (SOCKET_ERR, result\<lparr>m_data := Text (strerror os (cur_errno ss2))\<rparr>), ss2)
          | Some name \<Rightarrow> (Some (SOCKET_OPEN, result\<lparr>m_ud := int (sr_port r), m_data := Text name\<rparr>), ss2)
          else (Some (SOCKET_ERR, result\<lparr>m_data := Text (strerror os (cur_errno ss2))\<rparr>), ss2))
     }
   }"

definition close_socket :: "system \<Rightarrow> int \<Rightarrow> bool \<Rightarrow> socket_server \<Rightarrow> outcome server_step" where
  "close_socket os fd shut ss =
     (let k = HASH_ID fd; s = ss_slot ss k; shutdown_read = halfclose_read s
      in if socket_invalid s fd then Some (None, ss)
         else if shut \<or> nomore_sending_data s then do {
           (result, ss1) \<leftarrow> force_close os k ss;
           Some (if shutdown_read then None else Some (SOCKET_CLOSE, result), ss1)
         }
         else
           let ss1 = upd_slot k (so_closing_update (\<lambda>_. True)) ss
           in if shutdown_read then Some (None, ss1)
              else let (result, ss2) = close_read os k ss1 in Some (Some (SOCKET_CLOSE, result), ss2))"

definition bind_socket :: "system \<Rightarrow> int \<Rightarrow> int \<Rightarrow> u64 \<Rightarrow> socket_server \<Rightarrow> outcome server_step" where
  "bind_socket os fd sock opaque ss = do {
     let result = \<lparr>m_opaque = opaque, m_id = fd, m_ud = 0, m_data = No_Data\<rparr>;
     (added, ss1) \<leftarrow> new_fd os fd sock P_TCP opaque True ss;
     Some
       (if \<not> added then (Some (SOCKET_ERR, result\<lparr>m_data := Text ''reach skynet socket number limit''\<rparr>), ss1)
        else (Some (SOCKET_OPEN, result\<lparr>m_data := Text ''binding''\<rparr>), set_type (HASH_ID fd) T_BIND (call os (Sys_Nonblocking sock) ss1)))
   }"

definition resume_socket :: "system \<Rightarrow> int \<Rightarrow> u64 \<Rightarrow> socket_server \<Rightarrow> outcome \<times> socket_server" where
  "resume_socket os fd opaque ss =
     (let k = HASH_ID fd; s = ss_slot ss k; result = \<lparr>m_opaque = opaque, m_id = fd, m_ud = 0, m_data = No_Data\<rparr>
      in if socket_invalid s fd then (Some (SOCKET_ERR, result\<lparr>m_data := Text ''invalid socket''\<rparr>), ss)
         else if halfclose_read s then (Some (SOCKET_ERR, result\<lparr>m_data := Text ''socket closed''\<rparr>), ss)
         else
           let (err, ss1) = enable_read os k True ss
           in if err \<noteq> 0 then (Some (SOCKET_ERR, result\<lparr>m_data := Text ''enable read failed''\<rparr>), ss1)
              else if so_type s = T_PACCEPT \<or> so_type s = T_PLISTEN
              then (Some (SOCKET_OPEN, result\<lparr>m_data := Text ''start''\<rparr>),
                    upd_slot k (\<lambda>s. s\<lparr>so_type := (if so_type s = T_PACCEPT then T_CONNECTED else T_LISTEN), so_opaque := opaque\<rparr>) ss1)
              else if so_type s = T_CONNECTED
              then (Some (SOCKET_OPEN, result\<lparr>m_data := Text ''transfer''\<rparr>), upd_slot k (so_opaque_update (\<lambda>_. opaque)) ss1)
              else (None, ss1))"

definition pause_socket :: "system \<Rightarrow> int \<Rightarrow> socket_server \<Rightarrow> outcome \<times> socket_server" where
  "pause_socket os fd ss =
     (let k = HASH_ID fd
      in if socket_invalid (ss_slot ss k) fd then (None, ss)
         else let (err, ss1) = enable_read os k False ss
              in (if err \<noteq> 0 then report_error (ss_slot ss1 k) ''enable read failed'' else None, ss1))"

definition setopt_socket :: "system \<Rightarrow> int \<Rightarrow> int \<Rightarrow> int \<Rightarrow> socket_server \<Rightarrow> socket_server" where
  "setopt_socket os fd opt v ss =
     (let s = ss_slot ss (HASH_ID fd)
      in if socket_invalid s fd then ss else call os (Sys_Setsockopt (so_fd s) opt v) ss)"

definition add_udp_socket :: "system \<Rightarrow> int \<Rightarrow> int \<Rightarrow> int \<Rightarrow> u64 \<Rightarrow> socket_server \<Rightarrow> outcome server_step" where
  "add_udp_socket os fd sock family opaque ss = do {
     let k = HASH_ID fd;
     (added, ss1) \<leftarrow> new_fd os fd sock (if family = AF_INET6 then P_UDPv6 else P_UDP) opaque True ss;
     Some
       (if \<not> added then (None, set_type k T_INVALID (call os (Sys_Close sock) ss1))
        else (None, upd_slot k (so_udp_address_update (\<lambda>_. replicate UDP_ADDRESS_SIZE 0)) (set_type k T_CONNECTED ss1)))
   }"

definition set_udp_address :: "int \<Rightarrow> bytes \<Rightarrow> socket_server \<Rightarrow> outcome \<times> socket_server" where
  "set_udp_address fd addr ss =
     (let k = HASH_ID fd; s = ss_slot ss k
      in if socket_invalid s fd then (None, ss)
         else if addr ! 0 \<noteq> protocol_code (so_protocol s) then (report_error s ''protocol mismatch'', ss)
         else
           let n = (if addr ! 0 = protocol_code P_UDP then 7 else 19)
           in (None, upd_slot k (\<lambda>s. s\<lparr>so_udp_address := take n addr @ drop n (so_udp_address s), so_udpconnecting := so_udpconnecting s - 1\<rparr>) ss))"

text \<open>The count of the requests to send that are in the pipe; another thread waits while it is at its limit.\<close>

definition inc_sending_ref :: "int \<Rightarrow> socket_server \<Rightarrow> socket_server option" where
  "inc_sending_ref fd ss =
     (let k = HASH_ID fd; s = ss_slot ss k
      in if so_protocol s \<noteq> P_TCP then Some ss
         else if so_sending s div 65536 = ID_TAG16 fd
         then if so_sending s mod 65536 = 65535 then None else Some (upd_slot k (so_sending_update (\<lambda>n. n + 1)) ss)
         else Some ss)"

definition dec_sending_ref :: "int \<Rightarrow> socket_server \<Rightarrow> socket_server option" where
  "dec_sending_ref fd ss =
     (let k = HASH_ID fd; s = ss_slot ss k
      in if so_id s = fd \<and> so_protocol s = P_TCP
         then do { c_assert (so_sending s mod 65536 \<noteq> 0); Some (upd_slot k (so_sending_update (\<lambda>n. n - 1)) ss) }
         else Some ss)"

definition exit_message :: server_message where
  "exit_message = \<lparr>m_opaque = 0, m_id = 0, m_ud = 0, m_data = No_Data\<rparr>"

definition ctrl_cmd :: "system \<Rightarrow> request \<Rightarrow> socket_server \<Rightarrow> outcome server_step" where
  "ctrl_cmd os req ss =
     (case req of
        R_Resume fd opaque \<Rightarrow> Some (resume_socket os fd opaque ss)
      | R_Pause fd opaque \<Rightarrow> Some (pause_socket os fd ss)
      | R_Bind fd sock opaque \<Rightarrow> bind_socket os fd sock opaque ss
      | R_Listen fd sock opaque \<Rightarrow> listen_socket os fd sock opaque ss
      | R_Close fd shut opaque \<Rightarrow> close_socket os fd shut ss
      | R_Open fd port opaque host \<Rightarrow> open_socket os fd port opaque host ss
      | R_Exit \<Rightarrow> Some (Some (SOCKET_EXIT, exit_message), ss)
      | R_Trigger fd \<Rightarrow> Some (trigger_write os fd ss)
      | R_Send p fd buf \<Rightarrow> do {
          let (ret, ss1) = send_socket os fd buf p None ss;
          ss2 \<leftarrow> dec_sending_ref fd ss1;
          Some (ret, ss2)
        }
      | R_Send_Udp fd buf addr \<Rightarrow> Some (send_socket os fd buf High (Some addr) ss)
      | R_Set_Udp fd addr \<Rightarrow> Some (set_udp_address fd addr ss)
      | R_Setopt fd opt v \<Rightarrow> Some (None, setopt_socket os fd opt v ss)
      | R_Udp fd sock family opaque \<Rightarrow> add_udp_socket os fd sock family opaque ss)"

subsection \<open>Events\<close>

text \<open>The size of the next read is an \<^verbatim>\<open>int\<close> and doubles when a read was filled.\<close>

definition forward_message_tcp :: "system \<Rightarrow> nat \<Rightarrow> socket_server \<Rightarrow> outcome server_step" where
  "forward_message_tcp os k ss =
     (let s = ss_slot ss k; sz = so_size s; (r, ss1) = syscall os (Sys_Read (so_fd s) sz) ss; n = sr_ret r
      in if n < 0 then
           Some (if sr_errno r = EINTR \<or> sr_errno r = EAGAIN then None else report_error s (strerror os (sr_errno r)), ss1)
         else if n = 0 then
           if so_closing s then
             if nomore_sending_data s then do { (result, ss2) \<leftarrow> force_close os k ss1; Some (None, ss2) } else Some (None, ss1)
           else if so_type s = T_HALFCLOSE_READ then Some (None, ss1)
           else if so_type s = T_HALFCLOSE_WRITE then do { (result, ss2) \<leftarrow> force_close os k ss1; Some (Some (SOCKET_CLOSE, result), ss2) }
           else let (result, ss2) = close_read os k ss1 in Some (Some (SOCKET_CLOSE, result), ss2)
         else if halfclose_read s then Some (None, ss1)
         else
           let ss2 = stat_read k n ss1;
               result = \<lparr>m_opaque = so_opaque s, m_id = so_id s, m_ud = n, m_data = Bytes (take (nat n) (sr_data r))\<rparr>
           in if n = int sz then do {
                c_assert (sz * 2 \<le> int_max);
                Some (Some (SOCKET_MORE, result), upd_slot k (so_size_update (\<lambda>z. z * 2)) ss2)
              }
              else if sz > MIN_READ_BUFFER \<and> n * 2 < int sz
              then Some (Some (SOCKET_DATA, result), upd_slot k (so_size_update (\<lambda>z. z div 2)) ss2)
              else Some (Some (SOCKET_DATA, result), ss2))"

text \<open>The type, the port and the number.\<close>

definition gen_udp_address :: "protocol \<Rightarrow> bytes \<Rightarrow> bytes" where
  "gen_udp_address proto sa = protocol_code proto # take (if proto = P_UDP then 6 else 18) sa"

definition forward_message_udp :: "system \<Rightarrow> nat \<Rightarrow> socket_server \<Rightarrow> outcome server_step" where
  "forward_message_udp os k ss =
     (let s = ss_slot ss k; (r, ss1) = syscall os (Sys_Recvfrom (so_fd s) MAX_UDP_PACKAGE) ss; n = sr_ret r
      in if n < 0 then
           if sr_errno r = EINTR \<or> sr_errno r = EAGAIN then Some (None, ss1)
           else do {
             (result, ss2) \<leftarrow> force_close os k ss1;
             Some (Some (SOCKET_ERR, result\<lparr>m_data := Text (strerror os (sr_errno r))\<rparr>), ss2)
           }
         else
           let ss2 = stat_read k n ss1; proto = (if sr_v4 r then P_UDP else P_UDPv6)
           in if so_protocol s \<noteq> proto then Some (None, ss2)
              else Some (Some (SOCKET_UDP,
                \<lparr>m_opaque = so_opaque s, m_id = so_id s, m_ud = n,
                  m_data = Bytes (take (nat n) (sr_data r) @ gen_udp_address proto (sr_address r))\<rparr>), ss2))"

definition report_connect :: "system \<Rightarrow> nat \<Rightarrow> socket_server \<Rightarrow> outcome server_step" where
  "report_connect os k ss =
     (let s = ss_slot ss k; (r, ss1) = syscall os (Sys_Socket_Error (so_fd s)) ss;
          error = (if sr_ret r < 0 then sr_errno r else sr_value r)
      in if sr_ret r < 0 \<or> error \<noteq> 0 then do {
           (result, ss2) \<leftarrow> force_close os k ss1;
           Some (Some (SOCKET_ERR, result\<lparr>m_data := Text (strerror os error)\<rparr>), ss2)
         }
         else
           let ss2 = set_type k T_CONNECTED ss1;
               (err, ss3) = (if nomore_sending_data (ss_slot ss2 k) then enable_write os k False ss2 else (0, ss2))
           in if err \<noteq> 0 then do {
                (result, ss4) \<leftarrow> force_close os k ss3;
                Some (Some (SOCKET_ERR, result\<lparr>m_data := Text ''disable write failed''\<rparr>), ss4)
              }
              else
                let (u, ss4) = syscall os (Sys_Getpeername (so_fd s)) ss3
                in Some (Some (SOCKET_OPEN, message_of (ss_slot ss4 k) (if sr_ret u = 0 then data_of (sr_name u) else No_Data)), ss4))"

text \<open>Address and port as a text.\<close>

definition getname :: "sys_result \<Rightarrow> string option" where
  "getname u = map_option (\<lambda>tmp. tmp @ '':'' @ fmt_nat (sr_port u)) (sr_name u)"

text \<open>The answer is 1 for a new connection, -1 when the process has no file left, else 0.\<close>

definition report_accept :: "system \<Rightarrow> nat \<Rightarrow> socket_server \<Rightarrow> (int \<times> server_message) server_step" where
  "report_accept os k ss =
     (let s = ss_slot ss k; (u, ss1) = syscall os (Sys_Accept (so_fd s)) ss; client_fd = sr_ret u
      in if client_fd < 0 then
           if sr_errno u = EMFILE \<or> sr_errno u = ENFILE then
             let result = message_of s (Text (strerror os (sr_errno u)))
             in if ss_reserve_fd ss1 \<ge> 0 then
                  let (v, ss2) = syscall os (Sys_Accept (so_fd s)) (call os (Sys_Close (ss_reserve_fd ss1)) ss1);
                      ss3 = (if sr_ret v \<ge> 0 then call os (Sys_Close (sr_ret v)) ss2 else ss2);
                      (d, ss4) = syscall os Sys_Dup ss3
                  in Some ((-1, result), ss4\<lparr>ss_reserve_fd := sr_ret d\<rparr>)
                else Some ((-1, result), ss1)
           else Some ((0, message_of s No_Data), ss1)
         else
           let (fd, ss2) = reserve_id ss1
           in if fd < 0 then Some ((0, message_of s No_Data), call os (Sys_Close client_fd) ss2)
              else do {
                let ss3 = call os (Sys_Nonblocking client_fd) (call os (Sys_Keepalive client_fd) ss2);
                (added, ss4) \<leftarrow> new_fd os fd client_fd P_TCP (so_opaque s) False ss3;
                Some
                  (if \<not> added then ((0, message_of s No_Data), call os (Sys_Close client_fd) ss4)
                   else
                     ((1, \<lparr>m_opaque = so_opaque s, m_id = so_id s, m_ud = fd, m_data = data_of (getname u)\<rparr>),
                      set_type (HASH_ID fd) T_PACCEPT (stat_read k 1 ss4)))
              })"

text \<open>The events of a socket that was closed are taken back; the first one that was found.\<close>

fun clear_event :: "(nat \<Rightarrow> socket) \<Rightarrow> int \<Rightarrow> event list \<Rightarrow> event list" where
  "clear_event slot fd [] = []"
| "clear_event slot fd (e # es) =
     (case ev_s e of
        None \<Rightarrow> e # clear_event slot fd es
      | Some k \<Rightarrow>
          if socket_invalid (slot k) fd \<and> so_id (slot k) = fd then e\<lparr>ev_s := None\<rparr> # es else e # clear_event slot fd es)"

definition clear_closed_event :: "outcome \<Rightarrow> socket_server \<Rightarrow> socket_server" where
  "clear_closed_event r ss =
     (case r of
        Some (c, m) \<Rightarrow>
          if c = SOCKET_CLOSE \<or> c = SOCKET_ERR
          then let i = ss_event_index ss; n = ss_event_n ss
               in ss\<lparr>ss_ev := take i (ss_ev ss) @ clear_event (ss_slot ss) (m_id m) (drop i (take n (ss_ev ss))) @ drop n (ss_ev ss)\<rparr>
          else ss
      | None \<Rightarrow> ss)"

text \<open>What happens to an event: the poll returns or goes on with the next one.\<close>

definition repeat_event :: "socket_server \<Rightarrow> socket_server" where
  "repeat_event ss = ss\<lparr>ss_event_index := ss_event_index ss - 1\<rparr>"

definition event_read :: "system \<Rightarrow> nat \<Rightarrow> event \<Rightarrow> socket_server \<Rightarrow> outcome server_step" where
  "event_read os k e ss = do {
     (r, ss1) \<leftarrow> (if so_protocol (ss_slot ss k) = P_TCP then forward_message_tcp os k ss else forward_message_udp os k ss);
     let code = map_option fst r;
     if code = Some SOCKET_MORE then Some (map_option (\<lambda>(c, m). (SOCKET_DATA, m)) r, repeat_event ss1)
     else if code = Some SOCKET_UDP then Some (r, repeat_event ss1)
     else if ev_write e \<and> code \<noteq> Some SOCKET_CLOSE \<and> code \<noteq> Some SOCKET_ERR
     then Some (r, repeat_event (ss1\<lparr>ss_ev := (ss_ev ss1)[ss_event_index ss1 - 1 := e\<lparr>ev_read := False\<rparr>]\<rparr>))
     else Some (r, ss1)
   }"

definition event_error :: "system \<Rightarrow> nat \<Rightarrow> socket_server \<Rightarrow> outcome \<times> socket_server" where
  "event_error os k ss =
     (let s = ss_slot ss k; (r, ss1) = syscall os (Sys_Socket_Error (so_fd s)) ss;
          err = (if sr_ret r < 0 then strerror os (sr_errno r) else if sr_value r \<noteq> 0 then strerror os (sr_value r) else ''Unknown error'')
      in (report_error s err, ss1))"

definition event_eof :: "system \<Rightarrow> nat \<Rightarrow> socket_server \<Rightarrow> outcome server_step" where
  "event_eof os k ss = do {
     let halfclose = halfclose_read (ss_slot ss k);
     (result, ss1) \<leftarrow> force_close os k ss;
     Some (if halfclose then None else Some (SOCKET_CLOSE, result), ss1)
   }"

definition dispatch_event :: "system \<Rightarrow> nat \<Rightarrow> event \<Rightarrow> socket_server \<Rightarrow> outcome server_step" where
  "dispatch_event os k e ss =
     (case so_type (ss_slot ss k) of
        T_CONNECTING \<Rightarrow> report_connect os k ss
      | T_LISTEN \<Rightarrow> do {
          ((r, m), ss1) \<leftarrow> report_accept os k ss;
          Some (if r > 0 then Some (SOCKET_ACCEPT, m) else if r < 0 then Some (SOCKET_ERR, m) else None, ss1)
        }
      | T_INVALID \<Rightarrow> Some (None, call os (Log ''socket-server: invalid socket'') ss)
      | _ \<Rightarrow>
          if ev_read e then event_read os k e ss
          else if ev_write e then send_buffer os k ss
          else if ev_error e then Some (event_error os k ss)
          else if ev_eof e then event_eof os k ss
          else Some (None, ss))"

text \<open>The next event of those that wait.\<close>

definition poll_event :: "system \<Rightarrow> socket_server \<Rightarrow> outcome server_step" where
  "poll_event os ss =
     (if ss_event_index ss < length (ss_ev ss) then
        let e = ss_ev ss ! ss_event_index ss; ss1 = ss\<lparr>ss_event_index := ss_event_index ss + 1\<rparr>
        in (case ev_s e of None \<Rightarrow> Some (None, ss1) | Some k \<Rightarrow> dispatch_event os k e ss1)
      else None)"

text \<open>A round without a request: the next event, of a new batch when the last one is done with.\<close>

definition event_round :: "system \<Rightarrow> socket_server \<Rightarrow> (outcome \<times> bool) server_step" where
  "event_round os ss =
     (if ss_event_index ss = ss_event_n ss then
        let (r, ss1) = syscall os Poll_Wait ss;
            ss2 = ss1\<lparr>ss_checkctrl := True, ss_event_index := 0, ss_event_n := nat (sr_ret r), ss_ev := sr_events r\<rparr>
        in if sr_ret r \<le> 0
           then Some ((None, False), if sr_errno r \<noteq> EINTR then call os (Log (strerror os (sr_errno r))) ss2 else ss2)
           else do { (o1, ss3) \<leftarrow> poll_event os ss2; Some ((o1, False), ss3) }
      else do { (o1, ss1) \<leftarrow> poll_event os ss; Some ((o1, True), ss1) })"

text \<open>
  One round of the loop of \<^verbatim>\<open>socket_server_poll\<close>; \<open>more\<close> is the flag for the caller. A request is
  carried out when the pipe has one.
\<close>

definition poll_round :: "system \<Rightarrow> socket_server \<Rightarrow> (outcome \<times> bool) server_step" where
  "poll_round os ss =
     (if \<not> ss_checkctrl ss then event_round os ss
      else case ss_pipe ss of
        [] \<Rightarrow> event_round os (ss\<lparr>ss_checkctrl := False\<rparr>)
      | req # pipe \<Rightarrow> do {
          (r, ss1) \<leftarrow> ctrl_cmd os req (ss\<lparr>ss_pipe := pipe\<rparr>);
          Some ((r, True), clear_closed_event r ss1)
        })"

text \<open>The loop, which returns with the first result; whether more may be ready is the conjunction.\<close>

partial_function (option) socket_server_poll :: "system \<Rightarrow> bool \<Rightarrow> socket_server \<Rightarrow> ((socket_code \<times> server_message) \<times> bool) server_step" where
  "socket_server_poll os go ss =
     (case poll_round os ss of
        None \<Rightarrow> None
      | Some ((Some r, more1), ss1) \<Rightarrow> Some ((r, go \<and> more1), ss1)
      | Some ((None, more1), ss1) \<Rightarrow> socket_server_poll os (go \<and> more1) ss1)"

declare socket_server_poll.simps [code]

end
