(* ===== verification/Socket_Api.thy ===== *)
theory Socket_Api
  imports Socket_Poll
begin

text \<open>
  The functions of \<^verbatim>\<open>socket_server.c\<close> that other threads call. Most of them write a request into the
  pipe; sending writes to the socket directly when nothing is waiting on it. Each call is one step.
\<close>

subsection \<open>Start and end\<close>

definition empty_socket :: "socket \<Rightarrow> socket" where
  "empty_socket s = s\<lparr>so_type := T_INVALID, so_high := [], so_low := []\<rparr>"

definition FD_SETSIZE :: int where "FD_SETSIZE = 1024"

text \<open>
  The slots as they were allocated are a parameter, those beyond the last of them included, which do
  not exist; there is no server when a call fails.
\<close>

definition socket_server_create :: "system \<Rightarrow> u64 \<Rightarrow> socket_server \<Rightarrow> bool server_step" where
  "socket_server_create os time mem =
     (let (efd, ss1) = syscall os Poll_Create mem
      in if sr_ret efd < 0 then Some (False, call os (Log ''create event pool failed'') ss1)
         else
           let (p, ss2) = syscall os Sys_Pipe ss1
           in if sr_ret p \<noteq> 0
              then Some (False, call os (Log ''create socket pair failed'') (call os (Poll_Release (sr_ret efd)) ss2))
              else
                let (a, ss3) = syscall os (Poll_Add (sr_value p) None) ss2; sendctrl = sr_value2 p
                in if sr_ret a \<noteq> 0
                   then Some (False, call os (Poll_Release (sr_ret efd)) (call os (Sys_Close sendctrl) (call os (Sys_Close (sr_value p))
                     (call os (Log ''can't add server fd to event pool'') ss3))))
                   else do {
                     let (d, ss4) = syscall os Sys_Dup ss3;
                     c_assert (sr_value p < FD_SETSIZE);
                     Some (True,
                       ss4\<lparr>ss_time := time, ss_event_fd := sr_ret efd, ss_recvctrl_fd := sr_value p, ss_sendctrl_fd := sendctrl,
                         ss_checkctrl := True, ss_reserve_fd := sr_ret d,
                         ss_slot := (\<lambda>k. empty_socket (ss_slot ss4 k)),
                         ss_alloc_id := 0, ss_event_n := 0, ss_event_index := 0, ss_pipe := []\<rparr>)
                   })"

definition socket_server_updatetime :: "u64 \<Rightarrow> socket_server \<Rightarrow> socket_server" where
  "socket_server_updatetime time ss = ss\<lparr>ss_time := time\<rparr>"

fun release_loop :: "system \<Rightarrow> nat list \<Rightarrow> socket_server \<Rightarrow> socket_server option" where
  "release_loop os [] ss = Some ss"
| "release_loop os (k # ks) ss =
     (if so_type (ss_slot ss k) \<noteq> T_RESERVE then do { (m, ss1) \<leftarrow> force_close os k ss; release_loop os ks ss1 }
      else release_loop os ks ss)"

definition socket_server_release :: "system \<Rightarrow> socket_server \<Rightarrow> socket_server option" where
  "socket_server_release os ss = do {
     ss1 \<leftarrow> release_loop os [0..<MAX_SOCKET] ss;
     let ss2 = call os (Poll_Release (ss_event_fd ss1)) (call os (Sys_Close (ss_recvctrl_fd ss1)) (call os (Sys_Close (ss_sendctrl_fd ss1)) ss1));
     Some (if ss_reserve_fd ss2 \<ge> 0 then call os (Sys_Close (ss_reserve_fd ss2)) ss2 else ss2)
   }"

subsection \<open>Requests\<close>

definition send_request :: "request \<Rightarrow> socket_server \<Rightarrow> socket_server" where
  "send_request req ss = ss\<lparr>ss_pipe := ss_pipe ss @ [req]\<rparr>"

text \<open>The name of a host must fit the structure of 24 bytes in a request of less than 256.\<close>

definition socket_server_connect :: "system \<Rightarrow> u64 \<Rightarrow> string \<Rightarrow> int \<Rightarrow> socket_server \<Rightarrow> int \<times> socket_server" where
  "socket_server_connect os opaque addr port ss =
     (if length addr + 24 \<ge> 256 then (-1, call os (Log (''socket-server : Invalid addr '' @ addr)) ss)
      else
        let (fd, ss1) = reserve_id ss
        in if fd < 0 then (-1, ss1) else (fd, send_request (R_Open fd port opaque addr) ss1))"

definition socket_server_exit :: "socket_server \<Rightarrow> socket_server" where
  "socket_server_exit ss = send_request R_Exit ss"

definition socket_server_close :: "u64 \<Rightarrow> int \<Rightarrow> socket_server \<Rightarrow> socket_server" where
  "socket_server_close opaque fd ss = send_request (R_Close fd False opaque) ss"

definition socket_server_shutdown :: "u64 \<Rightarrow> int \<Rightarrow> socket_server \<Rightarrow> socket_server" where
  "socket_server_shutdown opaque fd ss = send_request (R_Close fd True opaque) ss"

definition socket_server_start :: "u64 \<Rightarrow> int \<Rightarrow> socket_server \<Rightarrow> socket_server" where
  "socket_server_start opaque fd ss = send_request (R_Resume fd opaque) ss"

definition socket_server_pause :: "u64 \<Rightarrow> int \<Rightarrow> socket_server \<Rightarrow> socket_server" where
  "socket_server_pause opaque fd ss = send_request (R_Pause fd opaque) ss"

definition TCP_NODELAY :: int where "TCP_NODELAY = 1"

definition socket_server_nodelay :: "int \<Rightarrow> socket_server \<Rightarrow> socket_server" where
  "socket_server_nodelay fd ss = send_request (R_Setopt fd TCP_NODELAY 1) ss"

definition SO_REUSEADDR :: int where "SO_REUSEADDR = 2"

text \<open>The socket or -1, and the family of the address. An empty name is \<^verbatim>\<open>0.0.0.0\<close>.\<close>

definition do_bind :: "system \<Rightarrow> string option \<Rightarrow> int \<Rightarrow> socket_server \<Rightarrow> (int \<times> int) \<times> socket_server" where
  "do_bind os host port ss =
     (let name = (case host of None \<Rightarrow> ''0.0.0.0'' | Some [] \<Rightarrow> ''0.0.0.0'' | Some h \<Rightarrow> h);
          (r, ss1) = syscall os (Sys_Getaddrinfo name port) ss
      in if sr_ret r \<noteq> 0 then ((-1, 0), ss1)
         else
           let family = fst (hd (sr_addrs r)); (f, ss2) = syscall os (Sys_Socket family) ss1; sock = sr_ret f
           in if sock < 0 then ((-1, family), ss2)
              else
                let (o1, ss3) = syscall os (Sys_Setsockopt sock SO_REUSEADDR 1) ss2
                in if sr_ret o1 = -1 then ((-1, family), call os (Sys_Close sock) ss3)
                   else
                     let (b, ss4) = syscall os (Sys_Bind sock 0) ss3
                     in if sr_ret b \<noteq> 0 then ((-1, family), call os (Sys_Close sock) ss4) else ((sock, family), ss4))"

definition do_listen :: "system \<Rightarrow> string option \<Rightarrow> int \<Rightarrow> int \<Rightarrow> socket_server \<Rightarrow> int \<times> socket_server" where
  "do_listen os host port backlog ss =
     (let ((sock, family), ss1) = do_bind os host port ss
      in if sock < 0 then (-1, ss1)
         else let (r, ss2) = syscall os (Sys_Listen sock backlog) ss1
              in if sr_ret r = -1 then (-1, call os (Sys_Close sock) ss2) else (sock, ss2))"

definition socket_server_listen :: "system \<Rightarrow> u64 \<Rightarrow> string option \<Rightarrow> int \<Rightarrow> int \<Rightarrow> socket_server \<Rightarrow> int \<times> socket_server" where
  "socket_server_listen os opaque addr port backlog ss =
     (let (sock, ss1) = do_listen os addr port backlog ss
      in if sock < 0 then (-1, ss1)
         else
           let (fd, ss2) = reserve_id ss1
           in if fd < 0 then (fd, call os (Sys_Close sock) ss2) else (fd, send_request (R_Listen fd sock opaque) ss2))"

definition socket_server_bind :: "u64 \<Rightarrow> int \<Rightarrow> socket_server \<Rightarrow> int \<times> socket_server" where
  "socket_server_bind opaque sock ss =
     (let (fd, ss1) = reserve_id ss in if fd < 0 then (-1, ss1) else (fd, send_request (R_Bind fd sock opaque) ss1))"

subsection \<open>Sending\<close>

definition clone_buffer :: "sendbuffer \<Rightarrow> send_payload" where
  "clone_buffer buf =
     \<lparr>pl_data = sb_data buf, pl_user = (sb_kind buf = SOCKET_BUFFER_OBJECT), pl_same = (sb_kind buf \<noteq> SOCKET_BUFFER_OBJECT \<or> sb_same buf)\<rparr>"

definition free_buffer :: "sendbuffer \<Rightarrow> socket_server \<Rightarrow> socket_server" where
  "free_buffer buf ss = (if sb_kind buf = SOCKET_BUFFER_RAWPOINTER then ss else free_payloads [clone_buffer buf] ss)"

definition can_direct_write :: "socket \<Rightarrow> int \<Rightarrow> bool" where
  "can_direct_write s fd \<longleftrightarrow> so_id s = fd \<and> nomore_sending_data s \<and> so_type s = T_CONNECTED \<and> so_udpconnecting s = 0"

text \<open>
  Writing to the socket: the number of bytes, 0 after an error; \<open>None\<close> when a datagram has no address.
\<close>

definition direct_write :: "system \<Rightarrow> nat \<Rightarrow> bytes \<Rightarrow> socket_server \<Rightarrow> int option \<times> socket_server" where
  "direct_write os k data ss =
     (let s = ss_slot ss k
      in if so_protocol s = P_TCP
         then let (r, ss1) = syscall os (Sys_Write (so_fd s) data) ss in (Some (if sr_ret r < 0 then 0 else sr_ret r), ss1)
         else case udp_socket_address s (so_udp_address s) of
           None \<Rightarrow> (None, call os (Log ''socket-server : set udp address first.'') ss)
         | Some sa \<Rightarrow> let (r, ss1) = syscall os (Sys_Sendto (so_fd s) data sa) ss in (Some (if sr_ret r < 0 then 0 else sr_ret r), ss1))"

definition queue_send :: "priority \<Rightarrow> sendbuffer \<Rightarrow> socket_server \<Rightarrow> int server_step" where
  "queue_send p buf ss = do {
     ss1 \<leftarrow> inc_sending_ref (sb_id buf) ss;
     Some (0, send_request (R_Send p (sb_id buf) (clone_buffer buf)) ss1)
   }"

definition socket_server_send :: "system \<Rightarrow> sendbuffer \<Rightarrow> socket_server \<Rightarrow> int server_step" where
  "socket_server_send os buf ss =
     (let fd = sb_id buf; k = HASH_ID fd; s = ss_slot ss k
      in if socket_invalid s fd \<or> so_closing s then Some (-1, free_buffer buf ss)
         else if can_direct_write s fd then
           let (l, ss1) = syscall os (Try_Lock k) ss
           in if sr_ret l = 0 then queue_send High buf ss1
              else case direct_write os k (sb_data buf) ss1 of
                (None, ss2) \<Rightarrow> Some (-1, free_buffer buf ss2)
              | (Some n, ss2) \<Rightarrow>
                  let ss3 = stat_write k n ss2
                  in if n = int (length (sb_data buf)) then Some (0, free_buffer buf ss3)
                     else Some (0, send_request (R_Trigger fd)
                       (upd_slot k (\<lambda>s. s\<lparr>so_dw_buffer := Some (clone_buffer buf), so_dw_offset := nat n\<rparr>) ss3))
         else queue_send High buf ss)"

definition socket_server_send_lowpriority :: "sendbuffer \<Rightarrow> socket_server \<Rightarrow> int server_step" where
  "socket_server_send_lowpriority buf ss =
     (if socket_invalid (ss_slot ss (HASH_ID (sb_id buf))) (sb_id buf) then Some (-1, free_buffer buf ss)
      else queue_send Low buf ss)"

subsection \<open>Datagrams\<close>

definition socket_server_udp :: "system \<Rightarrow> u64 \<Rightarrow> string option \<Rightarrow> int \<Rightarrow> socket_server \<Rightarrow> int \<times> socket_server" where
  "socket_server_udp os opaque addr port ss =
     (let ((sock, family), ss1) =
        (if port \<noteq> 0 \<or> addr \<noteq> None then do_bind os addr port ss
         else let (r, s1) = syscall os (Sys_Socket AF_INET) ss in ((sr_ret r, AF_INET), s1))
      in if sock < 0 then (-1, ss1)
         else
           let (fd, ss2) = reserve_id (call os (Sys_Nonblocking sock) ss1)
           in if fd < 0 then (-1, call os (Sys_Close sock) ss2) else (fd, send_request (R_Udp fd sock family opaque) ss2))"

text \<open>The length of an address, by its first byte.\<close>

definition udp_address_size :: "bytes \<Rightarrow> nat option" where
  "udp_address_size address =
     (if address ! 0 = protocol_code P_UDP then Some 7 else if address ! 0 = protocol_code P_UDPv6 then Some 19 else None)"

definition socket_server_udp_send :: "system \<Rightarrow> bytes \<Rightarrow> sendbuffer \<Rightarrow> socket_server \<Rightarrow> int \<times> socket_server" where
  "socket_server_udp_send os addr buf ss =
     (let fd = sb_id buf; k = HASH_ID fd; s = ss_slot ss k
      in if socket_invalid s fd then (-1, free_buffer buf ss)
         else case udp_address_size addr of
           None \<Rightarrow> (-1, free_buffer buf ss)
         | Some addrsz \<Rightarrow>
             let queue = (\<lambda>ss. (0, send_request (R_Send_Udp fd (clone_buffer buf) (take addrsz addr)) ss))
             in if can_direct_write s fd then
                  let (l, ss1) = syscall os (Try_Lock k) ss
                  in if sr_ret l = 0 then queue ss1
                     else case udp_socket_address s addr of
                       None \<Rightarrow> (-1, free_buffer buf ss1)
                     | Some sa \<Rightarrow>
                         let (r, ss2) = syscall os (Sys_Sendto (so_fd s) (sb_data buf) sa) ss1
                         in if sr_ret r \<ge> 0 then (0, free_buffer buf (stat_write k (sr_ret r) ss2)) else queue ss2
                else queue ss)"

definition socket_server_udp_connect :: "system \<Rightarrow> int \<Rightarrow> string \<Rightarrow> int \<Rightarrow> socket_server \<Rightarrow> int \<times> socket_server" where
  "socket_server_udp_connect os fd addr port ss =
     (let k = HASH_ID fd
      in if socket_invalid (ss_slot ss k) fd then (-1, ss)
         else
           let ss1 = upd_slot k (so_udpconnecting_update (\<lambda>n. n + 1)) ss;
               (r, ss2) = syscall os (Sys_Getaddrinfo addr port) ss1
           in if sr_ret r \<noteq> 0 then (-1, ss2)
              else
                let (family, txt, sa) = hd (sr_addrs r)
                in if family = AF_INET then (0, send_request (R_Set_Udp fd (gen_udp_address P_UDP sa)) ss2)
                   else if family = AF_INET6 then (0, send_request (R_Set_Udp fd (gen_udp_address P_UDPv6 sa)) ss2)
                   else (-1, ss2))"

text \<open>The address behind the data of a message.\<close>

definition socket_server_udp_address :: "server_message \<Rightarrow> (bytes \<times> nat) option" where
  "socket_server_udp_address msg =
     (case m_data msg of
        Bytes bs \<Rightarrow> let address = drop (nat (m_ud msg)) bs in map_option (\<lambda>n. (address, n)) (udp_address_size address)
      | _ \<Rightarrow> None)"

subsection \<open>Information\<close>

datatype info_type = SOCKET_INFO_LISTEN | SOCKET_INFO_TCP | SOCKET_INFO_UDP | SOCKET_INFO_BIND | SOCKET_INFO_CLOSING

record socket_info =
  si_id :: int
  si_type :: info_type
  si_opaque :: u64
  si_stat :: socket_stat
  si_wbuffer :: int
  si_reading :: bool
  si_writing :: bool
  si_name :: string

definition name_of :: "sys_result \<Rightarrow> string" where
  "name_of u = (if sr_ret u = 0 then case getname u of None \<Rightarrow> [] | Some t \<Rightarrow> t else [])"

text \<open>The type and the name; an address of a datagram socket is turned into a text by the parameter \<open>ntop\<close>.\<close>

definition query_info :: "system \<Rightarrow> (bytes \<Rightarrow> string) \<Rightarrow> nat \<Rightarrow> socket_server \<Rightarrow> socket_info option \<times> socket_server" where
  "query_info os ntop k ss =
     (let s = ss_slot ss k;
          info = (\<lambda>t n. Some \<lparr>si_id = so_id s, si_type = t, si_opaque = so_opaque s, si_stat = so_stat s, si_wbuffer = so_wb_size s,
            si_reading = so_reading s, si_writing = so_writing s, si_name = n\<rparr>);
          stream = (\<lambda>t. if so_protocol s = P_TCP
            then let (u, ss1) = syscall os (Sys_Getpeername (so_fd s)) ss in (info t (name_of u), ss1)
            else (info SOCKET_INFO_UDP (case udp_socket_address s (so_udp_address s) of None \<Rightarrow> [] | Some sa \<Rightarrow> ntop sa), ss))
      in case so_type s of
           T_BIND \<Rightarrow> (info SOCKET_INFO_BIND [], ss)
         | T_LISTEN \<Rightarrow> let (u, ss1) = syscall os (Sys_Getsockname (so_fd s)) ss in (info SOCKET_INFO_LISTEN (name_of u), ss1)
         | T_HALFCLOSE_READ \<Rightarrow> stream SOCKET_INFO_CLOSING
         | T_HALFCLOSE_WRITE \<Rightarrow> stream SOCKET_INFO_CLOSING
         | T_CONNECTED \<Rightarrow> stream SOCKET_INFO_TCP
         | _ \<Rightarrow> (None, ss))"

text \<open>The list has the last slot first.\<close>

fun info_loop :: "system \<Rightarrow> (bytes \<Rightarrow> string) \<Rightarrow> nat list \<Rightarrow> socket_info list \<Rightarrow> socket_server \<Rightarrow> socket_info list \<times> socket_server" where
  "info_loop os ntop [] si ss = (si, ss)"
| "info_loop os ntop (k # ks) si ss =
     (let (r, ss1) = query_info os ntop k ss in info_loop os ntop ks (case r of None \<Rightarrow> si | Some t \<Rightarrow> t # si) ss1)"

definition socket_server_info :: "system \<Rightarrow> (bytes \<Rightarrow> string) \<Rightarrow> socket_server \<Rightarrow> socket_info list \<times> socket_server" where
  "socket_server_info os ntop ss = info_loop os ntop [0..<MAX_SOCKET] [] ss"

end
