(* ===== verification/Socket_Steps.thy ===== *)
theory Socket_Steps
  imports Socket_Api
begin

text \<open>
  What the socket server guarantees: numbers of sockets, one message for the end of a socket, and
  the order of the bytes of a stream.
\<close>

subsection \<open>Changes of one slot\<close>

named_theorems server_simps

lemma syscall_state [server_simps]:
  "ss_slot (snd (syscall os c ss)) = ss_slot ss" "ss_pipe (snd (syscall os c ss)) = ss_pipe ss"
  "ss_alloc_id (snd (syscall os c ss)) = ss_alloc_id ss"
  "ss_trace (snd (syscall os c ss)) = ss_trace ss @ [(c, fst (syscall os c ss))]"
  by (simp_all add: syscall_def Let_def)

lemma call_state [server_simps]:
  "ss_slot (call os c ss) = ss_slot ss" "ss_pipe (call os c ss) = ss_pipe ss" "ss_alloc_id (call os c ss) = ss_alloc_id ss"
  by (simp_all add: call_def server_simps)

lemma free_state [server_simps]:
  "ss_slot (free_payloads ps ss) = ss_slot ss" "ss_pipe (free_payloads ps ss) = ss_pipe ss" "ss_alloc_id (free_payloads ps ss) = ss_alloc_id ss"
  "ss_trace (free_payloads ps ss) = ss_trace ss"
  by (simp_all add: free_payloads_def)

lemma upd_state [server_simps]:
  "ss_slot (upd_slot k f ss) = (ss_slot ss)(k := f (ss_slot ss k))" "ss_pipe (upd_slot k f ss) = ss_pipe ss"
  "ss_alloc_id (upd_slot k f ss) = ss_alloc_id ss" "ss_trace (upd_slot k f ss) = ss_trace ss"
  "ss_slot (put_slot k s ss) = (ss_slot ss)(k := s)" "ss_pipe (put_slot k s ss) = ss_pipe ss"
  "ss_alloc_id (put_slot k s ss) = ss_alloc_id ss" "ss_trace (put_slot k s ss) = ss_trace ss"
  by (simp_all add: upd_slot_def put_slot_def)

lemma enable_slot [server_simps]:
  "ss_slot (snd (enable_write os k b ss)) = (ss_slot ss)(k := (ss_slot ss k)\<lparr>so_writing := b\<rparr>)"
  "ss_slot (snd (enable_read os k b ss)) = (ss_slot ss)(k := (ss_slot ss k)\<lparr>so_reading := b\<rparr>)"
  "ss_pipe (snd (enable_write os k b ss)) = ss_pipe ss" "ss_pipe (snd (enable_read os k b ss)) = ss_pipe ss"
  "ss_alloc_id (snd (enable_write os k b ss)) = ss_alloc_id ss" "ss_alloc_id (snd (enable_read os k b ss)) = ss_alloc_id ss"
  by (auto simp: enable_write_def enable_read_def Let_def server_simps split_beta)

lemma set_type_state [server_simps]:
  "ss_slot (set_type k t ss) = (ss_slot ss)(k := (ss_slot ss k)\<lparr>so_type := t\<rparr>)" "ss_pipe (set_type k t ss) = ss_pipe ss"
  "ss_alloc_id (set_type k t ss) = ss_alloc_id ss" "ss_trace (set_type k t ss) = ss_trace ss"
  by (simp_all add: set_type_def server_simps)

declare stat_write_def [server_simps] stat_read_def [server_simps]

lemma syscall_eq: "syscall os c ss = (r, ss') \<Longrightarrow> ss_slot ss' = ss_slot ss \<and> ss_pipe ss' = ss_pipe ss \<and> ss_alloc_id ss' = ss_alloc_id ss \<and>
    ss_trace ss' = ss_trace ss @ [(c, r)]"
  using syscall_state [where os = os and c = c and ss = ss] by simp

subsection \<open>Well-formed sockets\<close>

text \<open>The address of the data of a buffer is that of the buffer.\<close>

definition plain :: "send_payload \<Rightarrow> bool" where
  "plain p \<longleftrightarrow> pl_user p \<longrightarrow> pl_same p"

definition wbuf_ok :: "write_buffer \<Rightarrow> bool" where
  "wbuf_ok wb \<longleftrightarrow> wb_ptr wb + wb_sz wb = length (pl_data (wb_payload wb))"

definition list_size :: "write_buffer list \<Rightarrow> int" where
  "list_size ws = sum_list (map (\<lambda>wb. int (wb_sz wb)) ws)"

lemma list_size_simps [simp]:
  "list_size [] = 0" "list_size (wb # ws) = int (wb_sz wb) + list_size ws" "list_size (ws @ ws') = list_size ws + list_size ws'"
  by (simp_all add: list_size_def)

abbreviation open_type :: "socket_type \<Rightarrow> bool" where
  "open_type t \<equiv> t \<noteq> T_INVALID \<and> t \<noteq> T_RESERVE"

definition core :: "socket \<Rightarrow> bool" where
  "core s \<longleftrightarrow> (open_type (so_type s) \<longrightarrow> so_wb_size s = list_size (so_high s) + list_size (so_low s) \<and>
     (\<forall>wb \<in> set (so_high s) \<union> set (so_low s). wbuf_ok wb) \<and> (\<forall>wb \<in> set (so_low s). wb_ptr wb = 0 \<and> plain (wb_payload wb)) \<and>
     (\<forall>p. so_dw_buffer s = Some p \<longrightarrow> so_dw_offset s \<le> length (pl_data p)))"

text \<open>The socket has given its message about the end, or is gone.\<close>

abbreviation ended :: "socket_type \<Rightarrow> bool" where
  "ended t \<equiv> t = T_INVALID \<or> t = T_HALFCLOSE_READ"

text \<open>What changes of one socket must not do.\<close>

definition socket_keeps :: "socket \<Rightarrow> socket \<Rightarrow> bool" where
  "socket_keeps s s' \<longleftrightarrow> so_id s' = so_id s \<and> so_fd s' = so_fd s \<and> so_protocol s' = so_protocol s \<and>
     (so_type s' = T_RESERVE \<longleftrightarrow> so_type s = T_RESERVE) \<and> (so_type s = T_INVALID \<longrightarrow> so_type s' = T_INVALID) \<and> (ended (so_type s) \<longrightarrow> ended (so_type s'))"

definition socket_step :: "socket \<Rightarrow> socket \<Rightarrow> bool" where
  "socket_step s s' \<longleftrightarrow> socket_keeps s s' \<and> so_sending s' = so_sending s \<and> (core s \<longrightarrow> core s')"

definition only_slot :: "nat \<Rightarrow> socket_server \<Rightarrow> socket_server \<Rightarrow> bool" where
  "only_slot k ss ss' \<longleftrightarrow> (\<forall>j. j \<noteq> k \<longrightarrow> ss_slot ss' j = ss_slot ss j) \<and> ss_pipe ss' = ss_pipe ss \<and> ss_alloc_id ss' = ss_alloc_id ss"

text \<open>A step on the slot \<open>k\<close>; it tells the end of the socket when it brings it about only.\<close>

definition lives :: "nat \<Rightarrow> socket_server \<Rightarrow> outcome \<times> socket_server \<Rightarrow> bool" where
  "lives k ss x \<longleftrightarrow> only_slot k ss (snd x) \<and> socket_keeps (ss_slot ss k) (ss_slot (snd x) k) \<and>
     (\<forall>m. fst x = Some (SOCKET_CLOSE, m) \<longrightarrow>
        m_id m = so_id (ss_slot ss k) \<and> \<not> ended (so_type (ss_slot ss k)) \<and> ended (so_type (ss_slot (snd x) k)))"

text \<open>A step that leaves the count of requests in the pipe as it is, and one that keeps the socket well-formed.\<close>

definition keeps :: "nat \<Rightarrow> socket_server \<Rightarrow> outcome \<times> socket_server \<Rightarrow> bool" where
  "keeps k ss x \<longleftrightarrow> lives k ss x \<and> so_sending (ss_slot (snd x) k) = so_sending (ss_slot ss k)"

definition steps :: "nat \<Rightarrow> socket_server \<Rightarrow> outcome \<times> socket_server \<Rightarrow> bool" where
  "steps k ss x \<longleftrightarrow> keeps k ss x \<and> (core (ss_slot ss k) \<longrightarrow> core (ss_slot (snd x) k))"

lemmas step_defs = steps_def keeps_def lives_def socket_step_def socket_keeps_def

lemma socket_step_refl [simp]: "socket_step s s"
  by (simp add: step_defs)

lemma only_slot_refl [simp]: "only_slot k ss ss"
  by (simp add: only_slot_def)

lemma steps_none: "only_slot k ss ss' \<Longrightarrow> socket_step (ss_slot ss k) (ss_slot ss' k) \<Longrightarrow> steps k ss (None, ss')"
  by (simp add: step_defs)

lemma lives_trans: "lives k ss (r, ss1) \<Longrightarrow> lives k ss1 x \<Longrightarrow> lives k ss x"
  unfolding lives_def socket_keeps_def only_slot_def by (auto 0 3)

lemma keeps_trans: "keeps k ss (r, ss1) \<Longrightarrow> keeps k ss1 x \<Longrightarrow> keeps k ss x"
  using lives_trans [of k ss r ss1 x] by (simp add: keeps_def)

lemma steps_trans: "steps k ss (r, ss1) \<Longrightarrow> steps k ss1 x \<Longrightarrow> steps k ss x"
  using keeps_trans [of k ss r ss1 x] by (simp add: steps_def)

lemma steps_then: "steps k ss (r, ss1) \<Longrightarrow> steps k ss (None, ss1)"
  by (simp add: steps_def keeps_def lives_def)

text \<open>A state in which the slot \<open>k\<close> was changed.\<close>

lemma only_slotI:
  "ss_slot ss' = (ss_slot ss)(k := s) \<Longrightarrow> ss_pipe ss' = ss_pipe ss \<Longrightarrow> ss_alloc_id ss' = ss_alloc_id ss \<Longrightarrow> only_slot k ss ss'"
  by (simp add: only_slot_def)

lemma steps_report: "steps k ss (None, ss') \<Longrightarrow> steps k ss (report_error s err, ss')"
  by (simp add: step_defs report_error_def)

subsection \<open>Closing\<close>

lemma force_close_slot:
  "force_close os k ss = Some (m, ss') \<Longrightarrow> ss_pipe ss' = ss_pipe ss \<and> ss_alloc_id ss' = ss_alloc_id ss \<and> m = message_of (ss_slot ss k) No_Data \<and>
    (if so_type (ss_slot ss k) = T_INVALID then ss' = ss
     else so_type (ss_slot ss k) \<noteq> T_RESERVE \<and>
       ss_slot ss' = (ss_slot ss)(k := (ss_slot ss k)\<lparr>so_high := [], so_low := [], so_type := T_INVALID, so_dw_buffer := None\<rparr>))"
  by (cases "so_dw_buffer (ss_slot ss k)") (auto simp: force_close_def Let_def server_simps split: if_splits)

lemma force_close_some: "so_type (ss_slot ss k) \<noteq> T_RESERVE \<Longrightarrow> \<exists>m ss'. force_close os k ss = Some (m, ss')"
  by (auto simp: force_close_def Let_def)

lemma force_close_steps:
  assumes "force_close os k ss = Some (m, ss')"
  shows "steps k ss (None, ss')" "m_id m = so_id (ss_slot ss k)" "so_type (ss_slot ss' k) = T_INVALID"
proof -
  note f = force_close_slot [OF assms]
  have "socket_step (ss_slot ss k) (ss_slot ss' k)" using f by (cases "so_type (ss_slot ss k) = T_INVALID") (auto simp: step_defs core_def)
  moreover have "only_slot k ss ss'" using f by (cases "so_type (ss_slot ss k) = T_INVALID") (auto simp: only_slot_def)
  ultimately show "steps k ss (None, ss')" by (rule steps_none [rotated])
  show "m_id m = so_id (ss_slot ss k)" "so_type (ss_slot ss' k) = T_INVALID" using f by (auto simp: message_of_def split: if_splits)
qed

text \<open>Closing tells the end unless that was told before.\<close>

lemma force_close_reports:
  "force_close os k ss = Some (m, ss') \<Longrightarrow> \<not> ended (so_type (ss_slot ss k)) \<Longrightarrow> steps k ss (Some (SOCKET_CLOSE, m), ss')"
  "force_close os k ss = Some (m, ss') \<Longrightarrow> c \<noteq> SOCKET_CLOSE \<Longrightarrow> steps k ss (Some (c, m'), ss')"
  using force_close_steps [of os k ss m ss'] by (auto simp: step_defs)

lemma set_field_step:
  "socket_step s (so_writing_update b s)" "socket_step s (so_reading_update b s)" "socket_step s (so_stat_update z s)"
  "socket_step s (so_warn_size_update w s)" "socket_step s (so_size_update n s)" "socket_step s (so_closing_update b s)"
  "socket_step s (so_opaque_update q s)" "socket_step s (so_udp_address_update a s)" "socket_step s (so_udpconnecting_update i s)"
  by (simp_all add: step_defs core_def)

lemma enable_steps: "steps k ss (None, snd (enable_write os k b ss))" "steps k ss (None, snd (enable_read os k b ss))"
  by (intro steps_none; simp add: only_slot_def set_field_step server_simps)+

lemma call_steps: "steps k ss (None, call os c ss)" "steps k ss (None, snd (syscall os c ss))" "steps k ss (None, free_payloads ps ss)"
  by (simp_all add: step_defs only_slot_def server_simps)

lemma upd_steps: "socket_step (ss_slot ss k) (f (ss_slot ss k)) \<Longrightarrow> steps k ss (None, upd_slot k f ss)"
  by (simp add: step_defs only_slot_def server_simps)

lemma close_read_steps:
  assumes "close_read os k ss = (m, ss')" "open_type (so_type (ss_slot ss k))"
  shows "steps k ss (None, ss')" "m_id m = so_id (ss_slot ss k)" "so_type (ss_slot ss' k) = T_HALFCLOSE_READ"
proof -
  have slot: "ss_slot ss' = (ss_slot ss)(k := (ss_slot ss k)\<lparr>so_type := T_HALFCLOSE_READ, so_reading := False\<rparr>)" "ss_pipe ss' = ss_pipe ss"
    "ss_alloc_id ss' = ss_alloc_id ss" "m = message_of (ss_slot ss' k) No_Data"
    using assms(1) by (auto simp: close_read_def Let_def server_simps)
  have "socket_step (ss_slot ss k) (ss_slot ss' k)" using assms(2) by (auto simp: slot step_defs core_def)
  then show "steps k ss (None, ss')" using slot by (intro steps_none) (simp_all add: only_slot_def)
  show "m_id m = so_id (ss_slot ss k)" "so_type (ss_slot ss' k) = T_HALFCLOSE_READ" by (simp_all add: slot message_of_def)
qed

lemma close_write_steps:
  assumes "close_write os k ss = Some (r, ss')" "open_type (so_type (ss_slot ss k))"
  shows "steps k ss (r, ss')"
proof (cases "so_closing (ss_slot ss k) \<or> so_type (ss_slot ss k) = T_HALFCLOSE_READ")
  case True
  then obtain m where "force_close os k ss = Some (m, ss')" "r = Some (SOCKET_RST, m)"
    using assms(1) by (auto simp: close_write_def Let_def bind_Some_iff)
  then show ?thesis using force_close_reports(2) by simp
next
  case False
  show ?thesis
  proof (cases "so_type (ss_slot ss k) = T_HALFCLOSE_WRITE")
    case True
    then show ?thesis using False assms(1) by (auto simp: close_write_def Let_def step_defs)
  next
    case other: False
    define ss1 where "ss1 = call os (Sys_Shutdown (so_fd (ss_slot ss k)) True) (set_type k T_HALFCLOSE_WRITE ss)"
    have "ss_slot ss1 k = (ss_slot ss k)\<lparr>so_type := T_HALFCLOSE_WRITE\<rparr>" "only_slot k ss ss1" by (simp_all add: ss1_def server_simps only_slot_def)
    then have "steps k ss (None, ss1)" using False assms(2) by (intro steps_none) (auto simp: step_defs core_def)
    then have "steps k ss (None, snd (enable_write os k False ss1))" using enable_steps(1) steps_trans by blast
    then show ?thesis using False other assms(1) by (auto simp: close_write_def Let_def split_beta ss1_def steps_report)
  qed
qed

lemma close_write_result: "close_write os k ss = Some (r, ss') \<Longrightarrow> r \<noteq> None"
  by (auto simp: close_write_def Let_def bind_Some_iff report_error_def split: if_splits prod.splits)

subsection \<open>Sending\<close>

text \<open>A write does not write more than it was given, and is not interrupted for ever.\<close>

definition posix :: "system \<Rightarrow> bool" where
  "posix os \<longleftrightarrow> (\<forall>tr fd data. sr_ret (answer os tr (Sys_Write fd data)) \<le> int (length data))"

definition interrupts_end :: "system \<Rightarrow> bool" where
  "interrupts_end os \<longleftrightarrow> (\<forall>fd data ss. write_retry os fd data ss \<noteq> None)"

text \<open>The bytes that were written to a file.\<close>

fun written :: "int \<Rightarrow> trace \<Rightarrow> bytes" where
  "written fd [] = []"
| "written fd ((c, r) # tr) =
     (case c of Sys_Write fd' data \<Rightarrow> if fd' = fd \<and> 0 \<le> sr_ret r then take (nat (sr_ret r)) data else [] | _ \<Rightarrow> []) @ written fd tr"

lemma written_append: "written fd (xs @ ys) = written fd xs @ written fd ys"
  by (induction xs) auto

lemma write_retry_result:
  assumes "posix os" "write_retry os fd data ss = Some (r, ss')"
  shows "ss_slot ss' = ss_slot ss \<and> ss_pipe ss' = ss_pipe ss \<and> ss_alloc_id ss' = ss_alloc_id ss \<and> sr_ret r \<le> int (length data) \<and>
    written i (ss_trace ss') = written i (ss_trace ss) @ (if fd = i \<and> 0 \<le> sr_ret r then take (nat (sr_ret r)) data else [])"
proof -
  let ?P = "\<lambda>fd data ss x. ss_slot (snd x) = ss_slot ss \<and> ss_pipe (snd x) = ss_pipe ss \<and> ss_alloc_id (snd x) = ss_alloc_id ss \<and>
    sr_ret (fst x) \<le> int (length data) \<and>
    written i (ss_trace (snd x)) = written i (ss_trace ss) @ (if fd = i \<and> 0 \<le> sr_ret (fst x) then take (nat (sr_ret (fst x))) data else [])"
  have "posix os \<longrightarrow> ?P fd data ss (r, ss')"
  proof (rule write_retry.raw_induct [where P = "\<lambda>os fd data ss x. posix os \<longrightarrow> ?P fd data ss x", OF _ assms(2)], rule impI)
    fix f os fd data ss and x :: "sys_result \<times> socket_server"
    assume IH: "\<And>os fd data ss x. f os fd data ss = Some x \<Longrightarrow> posix os \<longrightarrow> ?P fd data ss x"
      and step: "(let (r, ss1) = syscall os (Sys_Write fd data) ss
        in if sr_ret r < 0 \<and> sr_errno r = EINTR then f os fd data ss1 else Some (r, ss1)) = Some x"
      and posix: "posix os"
    obtain r ss1 where s: "syscall os (Sys_Write fd data) ss = (r, ss1)" by fastforce
    have r: "sr_ret r \<le> int (length data)" using s posix by (auto simp: syscall_def posix_def Let_def)
    note e = syscall_eq [OF s]
    show "?P fd data ss x"
    proof (cases "sr_ret r < 0 \<and> sr_errno r = EINTR")
      case True
      then have "f os fd data ss1 = Some x" using step s by simp
      then have "?P fd data ss1 x" using IH posix by blast
      then show ?thesis using e True by (simp add: written_append)
    next
      case False
      then have "x = (r, ss1)" using step s by auto
      then show ?thesis using e r by (simp add: written_append)
    qed
  qed
  then show ?thesis using assms(1) by simp
qed

lemma wb_rest_length: "length (wb_rest wb) \<le> wb_sz wb"
  by (simp add: wb_rest_def)

lemma set_list_simps [server_simps]:
  "so_id (set_list p ws s) = so_id s" "so_type (set_list p ws s) = so_type s" "so_fd (set_list p ws s) = so_fd s"
  "so_protocol (set_list p ws s) = so_protocol s" "so_sending (set_list p ws s) = so_sending s" "so_closing (set_list p ws s) = so_closing s"
  "so_dw_buffer (set_list p ws s) = so_dw_buffer s" "so_wb_size (set_list p ws s) = so_wb_size s" "get_list p (set_list p ws s) = ws"
  by (cases p; simp add: set_list_def get_list_def)+

text \<open>The head of a list is written in part or whole.\<close>

lemma shrink_step:
  assumes "get_list p s = tmp # rest" "n \<le> wb_sz tmp"
  shows "socket_step s (set_list p rest (s\<lparr>so_wb_size := so_wb_size s - int (wb_sz tmp)\<rparr>))"
    "p = High \<Longrightarrow> socket_step s (set_list p (tmp\<lparr>wb_ptr := wb_ptr tmp + n, wb_sz := wb_sz tmp - n\<rparr> # rest) (s\<lparr>so_wb_size := so_wb_size s - int n\<rparr>))"
  using assms by (cases p; auto simp: get_list_def set_list_def step_defs core_def wbuf_ok_def of_nat_diff)+

text \<open>The lower list while its head is sent in part.\<close>

definition core_low :: "socket \<Rightarrow> bool" where
  "core_low s \<longleftrightarrow> core s \<or> (\<exists>tmp rest. open_type (so_type s) \<and> so_low s = tmp # rest \<and> so_high s = [] \<and> wb_ptr tmp \<noteq> 0 \<and> core (s\<lparr>so_high := [tmp], so_low := rest\<rparr>))"

definition core_of :: "priority \<Rightarrow> outcome \<Rightarrow> socket \<Rightarrow> bool" where
  "core_of p r s = (if p = High \<or> r \<noteq> None then core s else core_low s)"

lemma core_of_core: "core s \<Longrightarrow> core_of p r s"
  by (simp add: core_of_def core_low_def)

lemma head_part:
  assumes "get_list p s = tmp # rest" "n < wb_sz tmp" "open_type (so_type s)" "p = Low \<longrightarrow> so_high s = []"
  shows "core s \<longrightarrow> core_of p None (set_list p (tmp\<lparr>wb_ptr := wb_ptr tmp + n, wb_sz := wb_sz tmp - n\<rparr> # rest) (s\<lparr>so_wb_size := so_wb_size s - int n\<rparr>))"
proof (cases "p = High")
  case True
  then show ?thesis using shrink_step(2) [OF assms(1), of n] assms(2,3) by (simp add: core_of_def step_defs)
next
  case False
  then have p: "p = Low" by (cases p) simp_all
  then show ?thesis
    using assms by (cases "n = 0") (auto simp: core_of_def core_low_def core_def get_list_def set_list_def wbuf_ok_def of_nat_diff)
qed

lemma send_list_tcp_steps:
  assumes "posix os" "send_list_tcp os k p ss = Some x"
  shows "open_type (so_type (ss_slot ss k)) \<longrightarrow> (p = Low \<longrightarrow> so_high (ss_slot ss k) = []) \<longrightarrow>
    keeps k ss x \<and> (core (ss_slot ss k) \<longrightarrow> core_of p (fst x) (ss_slot (snd x) k)) \<and>
    (fst x = None \<longrightarrow> so_type (ss_slot (snd x) k) = so_type (ss_slot ss k))"
proof -
  let ?P = "\<lambda>k p ss x. open_type (so_type (ss_slot ss k)) \<longrightarrow> (p = Low \<longrightarrow> so_high (ss_slot ss k) = []) \<longrightarrow>
    keeps k ss x \<and> (core (ss_slot ss k) \<longrightarrow> core_of p (fst x) (ss_slot (snd x) k)) \<and>
    (fst x = None \<longrightarrow> so_type (ss_slot (snd x) k) = so_type (ss_slot ss k))"
  have "posix os \<longrightarrow> ?P k p ss x"
  proof (rule send_list_tcp.raw_induct [where P = "\<lambda>os k p ss x. posix os \<longrightarrow> ?P k p ss x", OF _ assms(2)], intro impI)
    fix f os k p ss and x :: "outcome \<times> socket_server"
    assume IH: "\<And>os k p ss x. f os k p ss = Some x \<Longrightarrow> posix os \<longrightarrow> ?P k p ss x"
      and step: "(case get_list p (ss_slot ss k) of
          [] \<Rightarrow> Some (None, ss)
        | tmp # rest \<Rightarrow> do {
            (r, ss1) \<leftarrow> write_retry os (so_fd (ss_slot ss k)) (wb_rest tmp) ss;
            if sr_ret r < 0 then if sr_errno r = EAGAIN then Some (None, ss1) else close_write os k ss1
            else do {
              let n = nat (sr_ret r);
              let ss2 = upd_slot k (\<lambda>s. s\<lparr>so_wb_size := so_wb_size s - sr_ret r\<rparr>) (stat_write k (sr_ret r) ss1);
              if n \<noteq> wb_sz tmp
              then Some (None, upd_slot k (set_list p (tmp\<lparr>wb_ptr := wb_ptr tmp + n, wb_sz := wb_sz tmp - n\<rparr> # rest)) ss2)
              else f os k p (free_payloads [wb_payload tmp] (upd_slot k (set_list p rest) ss2))
            }
          }) = Some x"
      and posix: "posix os" and live: "open_type (so_type (ss_slot ss k))" and low: "p = Low \<longrightarrow> so_high (ss_slot ss k) = []"
    show "keeps k ss x \<and> (core (ss_slot ss k) \<longrightarrow> core_of p (fst x) (ss_slot (snd x) k)) \<and>
      (fst x = None \<longrightarrow> so_type (ss_slot (snd x) k) = so_type (ss_slot ss k))"
    proof (cases "get_list p (ss_slot ss k)")
      case Nil
      then show ?thesis using step by (auto simp: step_defs core_of_core)
    next
      case (Cons tmp rest)
      then obtain r ss1 where w: "write_retry os (so_fd (ss_slot ss k)) (wb_rest tmp) ss = Some (r, ss1)" using step by (auto simp: bind_Some_iff)
      note wr = write_retry_result [OF posix w]
      have n: "sr_ret r \<le> int (wb_sz tmp)" using wr [of 0] wb_rest_length [of tmp] by linarith
      have st1: "steps k ss (None, ss1)" using wr by (intro steps_none) (simp_all add: only_slot_def)
      define ss2 where "ss2 = upd_slot k (\<lambda>s. s\<lparr>so_wb_size := so_wb_size s - sr_ret r\<rparr>) (stat_write k (sr_ret r) ss1)"
      define ssw where "ssw = stat_write k (sr_ret r) ss1"
      have ss2: "ss2 = upd_slot k (\<lambda>s. s\<lparr>so_wb_size := so_wb_size s - sr_ret r\<rparr>) ssw" by (simp add: ss2_def ssw_def)
      have stw: "steps k ss (None, ssw)"
        by (rule steps_trans [OF st1]) (simp add: ssw_def stat_write_def upd_steps set_field_step)
      have slotw: "so_type (ss_slot ssw k) = so_type (ss_slot ss k)" "so_high (ss_slot ssw k) = so_high (ss_slot ss k)" "get_list p (ss_slot ssw k) = tmp # rest"
        using wr Cons by (simp_all add: ssw_def server_simps get_list_def split: priority.splits)
      note gw = slotw(3) and livew = live [folded slotw(1)]
      consider "sr_ret r < 0" "sr_errno r = EAGAIN" | "sr_ret r < 0" "sr_errno r \<noteq> EAGAIN" | "0 \<le> sr_ret r" "nat (sr_ret r) \<noteq> wb_sz tmp"
        | "0 \<le> sr_ret r" "nat (sr_ret r) = wb_sz tmp" by linarith
      then show ?thesis
      proof cases
        case 1
        then show ?thesis using step Cons w st1 wr [of 0] by (auto simp: steps_def core_of_core)
      next
        case 2
        then have "close_write os k ss1 = Some x" using step Cons w by simp
        then have "steps k ss1 x" "fst x \<noteq> None" using close_write_steps [of os k ss1 "fst x" "snd x"] close_write_result [of os k ss1 "fst x" "snd x"] live wr
          by simp_all
        moreover from this(1) have "steps k ss x" using st1 steps_trans by blast
        ultimately show ?thesis by (auto simp: steps_def core_of_core)
      next
        case 3
        then have "x = (None, upd_slot k (set_list p (tmp\<lparr>wb_ptr := wb_ptr tmp + nat (sr_ret r), wb_sz := wb_sz tmp - nat (sr_ret r)\<rparr> # rest)) ss2)"
          using step Cons w by (simp add: ss2_def Let_def)
        moreover have "keeps k ssw (None, upd_slot k (set_list p (tmp\<lparr>wb_ptr := wb_ptr tmp + nat (sr_ret r), wb_sz := wb_sz tmp - nat (sr_ret r)\<rparr> # rest)) ss2)"
          by (auto simp: ss2 step_defs only_slot_def server_simps)
        moreover have "core (ss_slot ssw k) \<longrightarrow>
            core_of p None (set_list p (tmp\<lparr>wb_ptr := wb_ptr tmp + nat (sr_ret r), wb_sz := wb_sz tmp - nat (sr_ret r)\<rparr> # rest)
              ((ss_slot ssw k)\<lparr>so_wb_size := so_wb_size (ss_slot ssw k) - sr_ret r\<rparr>))"
          using head_part [OF gw, of "nat (sr_ret r)"] 3 n livew low slotw by simp
        ultimately show ?thesis using stw slotw(1) keeps_trans [of k ss None ssw x] by (auto simp: steps_def ss2 server_simps)
      next
        case 4
        let ?ss3 = "free_payloads [wb_payload tmp] (upd_slot k (set_list p rest) ss2)"
        have "f os k p ?ss3 = Some x" using step Cons w 4 by (simp add: ss2_def Let_def)
        then have IH': "?P k p ?ss3 x" using IH posix by blast
        have "steps k ssw (None, ?ss3)"
        proof -
          have "ss_slot ?ss3 = (ss_slot ssw)(k := set_list p rest ((ss_slot ssw k)\<lparr>so_wb_size := so_wb_size (ss_slot ssw k) - int (wb_sz tmp)\<rparr>))"
            using 4 by (auto simp: ss2 server_simps simp flip: 4(2))
          then show ?thesis
            using shrink_step(1) [OF gw, of 0] livew by (intro steps_none) (auto simp: only_slot_def ss2 server_simps)
        qed
        then have st3: "steps k ss (None, ?ss3)" using stw steps_trans by blast
        then have "so_type (ss_slot ?ss3 k) = so_type (ss_slot ss k)" "open_type (so_type (ss_slot ?ss3 k))" "p = Low \<longrightarrow> so_high (ss_slot ?ss3 k) = []"
          using livew low slotw by (cases p; simp add: ss2 server_simps set_list_def; fail)+
        then show ?thesis using IH' st3 keeps_trans [of k ss None ?ss3 x] by (auto simp: steps_def)
      qed
    qed
  qed
  then show ?thesis using assms(1) by simp
qed

lemma drop_udp_steps:
  assumes "get_list p (ss_slot ss k) = tmp # rest"
  shows "steps k ss (None, drop_udp k p tmp ss)"
proof -
  have "drop_udp k p tmp ss = free_payloads [wb_payload tmp] (upd_slot k (\<lambda>s. set_list p (tl (get_list p s)) (s\<lparr>so_wb_size := so_wb_size s - int (wb_sz tmp)\<rparr>)) ss)"
    by (simp add: drop_udp_def)
  moreover have "socket_step (ss_slot ss k)
      (set_list p (tl (get_list p (ss_slot ss k))) ((ss_slot ss k)\<lparr>so_wb_size := so_wb_size (ss_slot ss k) - int (wb_sz tmp)\<rparr>))"
    using shrink_step(1) [OF assms(1), of 0] assms by simp
  ultimately show ?thesis
    using steps_trans [OF upd_steps call_steps(3)] by simp
qed

lemma syscall_steps: "syscall os c ss = (r, ss') \<Longrightarrow> steps k ss (None, ss')"
  using call_steps(2) [of k ss os c] by simp

lemma drop_udp_type [server_simps]: "so_type (ss_slot (drop_udp k p tmp ss) k) = so_type (ss_slot ss k)"
  by (simp add: drop_udp_def server_simps)

lemma stat_steps: "steps k ss (None, stat_write k n ss)" "steps k ss (None, stat_read k n ss)"
  by (simp_all add: stat_write_def stat_read_def upd_steps set_field_step)

lemma steps_open: "steps k ss (r, ss') \<Longrightarrow> so_type (ss_slot ss k) = T_RESERVE \<longleftrightarrow> so_type (ss_slot ss' k) = T_RESERVE"
  by (simp add: step_defs)

lemma send_list_udp_steps:
  "send_list_udp os k p n ss = (r, ss') \<Longrightarrow> r = None \<and> steps k ss (None, ss') \<and> so_type (ss_slot ss' k) = so_type (ss_slot ss k)"
proof (induction os k p n ss arbitrary: r ss' rule: send_list_udp.induct)
  case (1 os k p ss)
  then show ?case by (auto simp: step_defs)
next
  case (2 os k p n ss)
  show ?case
  proof (cases "get_list p (ss_slot ss k)")
    case Nil
    then show ?thesis using 2 by (auto simp: step_defs)
  next
    case (Cons tmp rest)
    show ?thesis
    proof (cases "udp_socket_address (ss_slot ss k) (wb_udp tmp)")
      case None
      then show ?thesis using 2(2) Cons steps_trans [OF call_steps(1) drop_udp_steps] by (auto simp: server_simps)
    next
      case (Some sa)
      obtain q ss1 where q: "syscall os (Sys_Sendto (so_fd (ss_slot ss k)) (wb_rest tmp) sa) ss = (q, ss1)" by fastforce
      note e = syscall_eq [OF q]
      have st1: "steps k ss (None, ss1)" by (rule syscall_steps [OF q])
      let ?ss2 = "stat_write k (int (wb_sz tmp)) ss1"
      have st2: "steps k ss (None, ?ss2)" using st1 stat_steps(1) steps_trans by blast
      have st3: "steps k ss (None, drop_udp k p tmp ?ss2)"
        using e Cons
        by - (rule steps_trans [OF st2], rule drop_udp_steps [of _ _ _ _ rest], auto simp: server_simps get_list_def split: priority.splits)
      have err: "steps k ss (None, drop_udp k p tmp (call os (Log ''udp sendto error'') ss1))"
        using e Cons
        by - (rule steps_trans [OF st1], rule steps_trans [OF call_steps(1)], rule drop_udp_steps [of _ _ _ _ rest], simp_all add: server_simps)
      show ?thesis
      proof (cases "sr_ret q < 0")
        case True
        then show ?thesis using 2(2) Cons Some q st1 err e by (auto simp: server_simps split: if_splits)
      next
        case False
        then have "send_list_udp os k p n (drop_udp k p tmp ?ss2) = (r, ss')" using 2(2) Cons Some q by simp
        then have "r = None \<and> steps k (drop_udp k p tmp ?ss2) (None, ss') \<and> so_type (ss_slot ss' k) = so_type (ss_slot (drop_udp k p tmp ?ss2) k)" using 2(1) [OF Cons Some q [symmetric] refl False] by blast
        moreover have "so_type (ss_slot (drop_udp k p tmp ?ss2) k) = so_type (ss_slot ss k)" using e by (simp add: server_simps)
        ultimately show ?thesis using st3 steps_trans by auto
      qed
    qed
  qed
qed

text \<open>A socket that an event may be for; a reserved one is not known to be a stream.\<close>

definition active :: "socket \<Rightarrow> bool" where
  "active s \<longleftrightarrow> so_type s \<noteq> T_INVALID \<and> (so_type s = T_RESERVE \<longrightarrow> so_protocol s \<noteq> P_TCP)"

lemma send_list_steps:
  assumes "posix os" "send_list os k p ss = Some x" "active (ss_slot ss k)" "p = Low \<longrightarrow> so_high (ss_slot ss k) = []"
  shows "keeps k ss x" "core (ss_slot ss k) \<Longrightarrow> core_of p (fst x) (ss_slot (snd x) k)"
    "fst x = None \<Longrightarrow> so_type (ss_slot (snd x) k) = so_type (ss_slot ss k)"
proof -
  have "keeps k ss x \<and> (core (ss_slot ss k) \<longrightarrow> core_of p (fst x) (ss_slot (snd x) k)) \<and>
      (fst x = None \<longrightarrow> so_type (ss_slot (snd x) k) = so_type (ss_slot ss k))"
  proof (cases "so_protocol (ss_slot ss k) = P_TCP")
    case True
    then show ?thesis using assms send_list_tcp_steps [OF assms(1), of k p ss x] by (auto simp: send_list_def active_def)
  next
    case False
    then have "send_list_udp os k p (length (get_list p (ss_slot ss k))) ss = x" using assms(2) by (simp add: send_list_def)
    then show ?thesis using send_list_udp_steps [of os k p _ ss "fst x" "snd x"] by (cases x) (auto simp: steps_def core_of_core)
  qed
  then show "keeps k ss x" "core (ss_slot ss k) \<Longrightarrow> core_of p (fst x) (ss_slot (snd x) k)"
    "fst x = None \<Longrightarrow> so_type (ss_slot (snd x) k) = so_type (ss_slot ss k)" by simp_all
qed

lemma raise_core:
  assumes "raise_uncomplete s = Some s'" "core_low s" "list_uncomplete (so_low s)"
  shows "core s'"
proof -
  obtain tmp rest where low: "so_low s = tmp # rest" "so_high s = []" "s' = s\<lparr>so_low := rest, so_high := [tmp]\<rparr>"
    using assms(1) by (auto simp: raise_uncomplete_def split: list.splits if_splits)
  show ?thesis
  proof (cases "core s")
    case True
    then have "\<not> open_type (so_type s)" using assms(3) low by (auto simp: core_def list_uncomplete_def plain_def)
    then show ?thesis by (auto simp: core_def low)
  next
    case False
    then have "core (s\<lparr>so_high := [tmp], so_low := rest\<rparr>)" using assms(2) low by (auto simp: core_low_def)
    moreover have "s\<lparr>so_high := [tmp], so_low := rest\<rparr> = s'" by (simp add: low)
    ultimately show ?thesis by simp
  qed
qed

lemma not_uncomplete_core: "core_low s \<Longrightarrow> \<not> list_uncomplete (so_low s) \<Longrightarrow> core s"
  by (auto simp: core_low_def list_uncomplete_def)

lemma finish_sending_steps:
  assumes "finish_sending os k ss = Some (r, ss')"
  shows "steps k ss (r, ss')"
proof (cases "so_closing (ss_slot ss k)")
  case True
  then obtain m where "force_close os k ss = Some (m, ss')" "r = None" using assms by (auto simp: finish_sending_def Let_def bind_Some_iff split: if_splits)
  then show ?thesis using force_close_steps(1) by simp
next
  case False
  obtain e ss1 where e: "enable_write os k False ss = (e, ss1)" by fastforce
  then have st: "steps k ss (None, ss1)" using enable_steps(1) [of k ss os False] by simp
  then have "steps k ss (None, upd_slot k (so_warn_size_update (\<lambda>_. 0)) ss1)" using steps_trans upd_steps set_field_step(4) by blast
  then have "steps k ss (Some (SOCKET_WARNING, message_of (ss_slot ss k) No_Data), upd_slot k (so_warn_size_update (\<lambda>_. 0)) ss1)"
    by (simp add: steps_def keeps_def lives_def)
  then show ?thesis using False assms st e by (auto simp: finish_sending_def Let_def steps_report split: if_splits)
qed

lemma sent_result_keeps: "keeps k ss (r, ss') \<Longrightarrow> keeps k ss (sent_result r, ss')"
  by (cases r) (auto simp: keeps_def lives_def sent_result_def split: prod.splits socket_code.splits)

lemma keeps_active: "keeps k ss (r, ss') \<Longrightarrow> active (ss_slot ss k) \<Longrightarrow> so_type (ss_slot ss' k) = T_INVALID \<or> active (ss_slot ss' k)"
  by (auto simp: keeps_def lives_def socket_keeps_def active_def)

lemma send_low_steps:
  assumes "posix os" "send_low os k ss = Some (r, ss')" "active (ss_slot ss k)" "so_high (ss_slot ss k) = []"
  shows "steps k ss (r, ss')"
proof (cases "so_low (ss_slot ss k) = []")
  case True
  then show ?thesis using assms(2) finish_sending_steps by (simp add: send_low_def)
next
  case False
  then obtain ret ss1 where sl: "send_list os k Low ss = Some (ret, ss1)" using assms(2) by (auto simp: send_low_def bind_Some_iff)
  note ks = send_list_steps [OF assms(1) sl assms(3)]
  consider "ret \<noteq> None" | "ret = None" "list_uncomplete (so_low (ss_slot ss1 k))"
    | "ret = None" "\<not> list_uncomplete (so_low (ss_slot ss1 k))" by blast
  then show ?thesis
  proof cases
    case 1
    then have "(r, ss') = (sent_result ret, ss1)" using assms(2) False sl by (simp add: send_low_def)
    then show ?thesis using ks assms(4) 1 by (simp add: steps_def sent_result_keeps core_of_def)
  next
    case 2
    then obtain s where s: "raise_uncomplete (ss_slot ss1 k) = Some s" "r = None" "ss' = put_slot k s ss1"
      using assms(2) False sl by (auto simp: send_low_def bind_Some_iff)
    then have "keeps k ss1 (r, ss')" by (auto simp: raise_uncomplete_def step_defs only_slot_def server_simps split: list.splits if_splits)
    then have "keeps k ss (r, ss')" using ks(1) assms(4) keeps_trans by blast
    moreover have "core (ss_slot ss k) \<longrightarrow> core (ss_slot ss' k)" using ks(2) assms(4) 2 s raise_core by (auto simp: core_of_def server_simps)
    ultimately show ?thesis by (simp add: steps_def)
  next
    case 3
    then have "steps k ss (None, ss1)" using ks assms(4) not_uncomplete_core by (auto simp: steps_def core_of_def)
    then show ?thesis using assms(2) False sl 3 steps_trans [OF _ finish_sending_steps] by (auto simp: send_low_def split: if_splits)
  qed
qed

lemma send_buffer_lists_steps:
  assumes "posix os" "send_buffer_lists os k ss = Some (r, ss')" "active (ss_slot ss k)"
  shows "steps k ss (r, ss')"
proof -
  obtain ret ss1 where sl: "send_list os k High ss = Some (ret, ss1)" using assms(2) by (auto simp: send_buffer_lists_def bind_Some_iff split: if_splits)
  note ks = send_list_steps [OF assms(1) sl assms(3)]
  then have st: "steps k ss (ret, ss1)" by (simp add: steps_def core_of_def)
  show ?thesis
  proof (cases "ret = None \<and> so_high (ss_slot ss1 k) = []")
    case True
    then have low: "send_low os k ss1 = Some (r, ss')" using assms(2) sl by (simp add: send_buffer_lists_def split: if_splits)
    have "active (ss_slot ss1 k)" using ks(3) keeps_active [OF ks(1) assms(3)] assms(3) True by (auto simp: active_def)
    then show ?thesis using send_low_steps [OF assms(1) low] True st steps_trans by blast
  next
    case False
    then show ?thesis using st assms(2) sl by (cases ret) (auto simp: send_buffer_lists_def steps_def sent_result_keeps split: if_splits)
  qed
qed

lemma raise_direct_step: "socket_step s (raise_direct s)"
  by (auto simp: raise_direct_def step_defs core_def wbuf_ok_def Let_def split: option.splits)

lemma send_buffer_steps:
  assumes "posix os" "send_buffer os k ss = Some (r, ss')" "active (ss_slot ss k)"
  shows "steps k ss (r, ss')"
proof -
  obtain l ss1 where l: "syscall os (Try_Lock k) ss = (l, ss1)" by fastforce
  have st: "steps k ss (None, ss1)" by (rule syscall_steps [OF l])
  show ?thesis
  proof (cases "sr_ret l = 0")
    case True
    then show ?thesis using assms(2) l st by (simp add: send_buffer_def)
  next
    case False
    then have "send_buffer_lists os k (upd_slot k raise_direct ss1) = Some (r, ss')" using assms(2) l by (simp add: send_buffer_def)
    moreover have st2: "steps k ss (None, upd_slot k raise_direct ss1)" using steps_trans [OF st upd_steps] raise_direct_step by blast
    moreover have "active (ss_slot (upd_slot k raise_direct ss1) k)"
      using assms(3) syscall_eq [OF l] by (auto simp: active_def raise_direct_def Let_def server_simps split: option.splits)
    ultimately show ?thesis using send_buffer_lists_steps [OF assms(1)] steps_trans by blast
  qed
qed

lemma enable_write_steps: "enable_write os k b ss = (e, ss') \<Longrightarrow> steps k ss (None, ss')"
  using enable_steps(1) [of k ss os b] by simp

lemma enable_read_steps: "enable_read os k b ss = (e, ss') \<Longrightarrow> steps k ss (None, ss')"
  using enable_steps(2) [of k ss os b] by simp

lemma append_steps:
  "keeps k ss (None, upd_slot k (append_sendbuffer p buf a) ss)"
  "p = Low \<longrightarrow> plain buf \<Longrightarrow> steps k ss (None, upd_slot k (append_sendbuffer p buf a) ss)"
  by (cases p; auto simp: step_defs core_def only_slot_def append_sendbuffer_def server_simps set_list_def get_list_def wbuf_ok_def Let_def)+

text \<open>A result that is not the end of a socket.\<close>

lemma keeps_quiet: "keeps k ss (None, ss') \<Longrightarrow> \<forall>m. r \<noteq> Some (SOCKET_CLOSE, m) \<Longrightarrow> keeps k ss (r, ss')"
  by (simp add: keeps_def lives_def)

lemma steps_quiet: "steps k ss (None, ss') \<Longrightarrow> \<forall>m. r \<noteq> Some (SOCKET_CLOSE, m) \<Longrightarrow> steps k ss (r, ss')"
  by (simp add: steps_def keeps_quiet)

lemma steps_refl: "\<forall>m. r \<noteq> Some (SOCKET_CLOSE, m) \<Longrightarrow> steps k ss (r, ss)"
  by (simp add: step_defs)

lemma check_warning_steps: "steps k ss (check_warning k ss)"
  by (auto simp: check_warning_def Let_def steps_refl split: if_splits intro!: steps_quiet upd_steps set_field_step)

lemma trigger_write_steps: "trigger_write os fd ss = (r, ss') \<Longrightarrow> steps (HASH_ID fd) ss (r, ss')"
  by (auto simp: trigger_write_def Let_def steps_refl report_error_def split: if_splits prod.splits
    dest!: enable_write_steps intro: steps_quiet)

text \<open>A step that appends \<open>buf\<close> to the list of \<open>p\<close>: the rest has no condition.\<close>

definition appends :: "nat \<Rightarrow> priority \<Rightarrow> send_payload \<Rightarrow> socket_server \<Rightarrow> outcome \<times> socket_server \<Rightarrow> bool" where
  "appends k p buf ss x \<longleftrightarrow> keeps k ss x \<and> ((p = Low \<longrightarrow> plain buf) \<longrightarrow> steps k ss x)"

lemma steps_appends: "steps k ss x \<Longrightarrow> appends k p buf ss x"
  by (simp add: appends_def steps_def)

lemma appends_trans: "appends k p buf ss (r, ss1) \<Longrightarrow> steps k ss1 x \<Longrightarrow> appends k p buf ss x"
  using keeps_trans [of k ss r ss1 x] by (auto simp: appends_def steps_def)

lemma appends_list: "p' = High \<or> p' = p \<Longrightarrow> steps k ss (None, ss1) \<Longrightarrow> appends k p buf ss (None, upd_slot k (append_sendbuffer p' buf a) ss1)"
  using append_steps [where k = k and ss = ss1 and p = p' and buf = buf and a = a] keeps_trans [of k ss None ss1] steps_trans [of k ss None ss1]
  by (auto simp: appends_def steps_def)

lemma appends_quiet: "appends k p buf ss (None, ss') \<Longrightarrow> \<forall>m. r \<noteq> Some (SOCKET_CLOSE, m) \<Longrightarrow> appends k p buf ss (r, ss')"
  by (simp add: appends_def keeps_quiet steps_quiet)

lemma appends_enable:
  assumes "appends k p buf ss (None, ss1)" "enable_write os k True ss1 = (e, ss2)"
    "(if e \<noteq> 0 then (report_error (ss_slot ss2 k) err, ss2) else check_warning k ss2) = x"
  shows "appends k p buf ss x"
proof -
  have st: "appends k p buf ss (None, ss2)" by (rule appends_trans [OF assms(1) enable_write_steps [OF assms(2)]])
  show ?thesis
  proof (cases "e = 0")
    case True
    then show ?thesis using assms(3) appends_trans [OF st check_warning_steps] by simp
  next
    case False
    then show ?thesis using assms(3) st by (auto simp: report_error_def intro!: appends_quiet)
  qed
qed

lemma send_socket_steps:
  assumes "send_socket os fd buf p udp ss = x"
  shows "appends (HASH_ID fd) p buf ss x"
proof -
  let ?k = "HASH_ID fd"
  let ?s = "ss_slot ss ?k"
  let ?a = "case udp of None \<Rightarrow> so_udp_address ?s | Some a \<Rightarrow> a"
  note step = assms [unfolded send_socket_def Let_def]
  have freed: "appends ?k p buf ss (None, free_payloads [buf] (call os c ss))" "appends ?k p buf ss (None, free_payloads [buf] ss)" for c
    using steps_trans [OF call_steps(1) call_steps(3)] call_steps(3) by (auto intro!: steps_appends)
  consider (gone) "so_type ?s = T_INVALID \<or> so_id ?s \<noteq> fd \<or> so_type ?s = T_HALFCLOSE_WRITE \<or> so_type ?s = T_PACCEPT \<or> so_closing ?s"
    | (listens) "\<not> (so_type ?s = T_INVALID \<or> so_id ?s \<noteq> fd \<or> so_type ?s = T_HALFCLOSE_WRITE \<or> so_type ?s = T_PACCEPT \<or> so_closing ?s)"
        "so_type ?s = T_PLISTEN \<or> so_type ?s = T_LISTEN"
    | (sends) "\<not> (so_type ?s = T_INVALID \<or> so_id ?s \<noteq> fd \<or> so_type ?s = T_HALFCLOSE_WRITE \<or> so_type ?s = T_PACCEPT \<or> so_closing ?s)"
        "\<not> (so_type ?s = T_PLISTEN \<or> so_type ?s = T_LISTEN)" by blast
  then show ?thesis
  proof cases
    case gone
    then show ?thesis using step freed by auto
  next
    case listens
    then show ?thesis using step freed by auto
  next
    case sends
    note step = step [unfolded if_not_P [OF sends(1)] if_not_P [OF sends(2)]]
    have app: "appends ?k p buf ss (None, upd_slot ?k (append_sendbuffer p' buf a) ss)" if "p' = High \<or> p' = p" for p' a
      using appends_list [OF that steps_refl] by simp
    consider (first) "send_buffer_empty ?s" "so_protocol ?s = P_TCP" | (datagram) "send_buffer_empty ?s" "so_protocol ?s \<noteq> P_TCP"
      | (waits) "\<not> send_buffer_empty ?s" by blast
    then show ?thesis
    proof cases
      case first
      obtain e ss1 where e: "enable_write os ?k True (upd_slot ?k (append_sendbuffer High buf []) ss) = (e, ss1)" by fastforce
      show ?thesis by (rule appends_enable [OF app e]) (use step first e in simp_all)
    next
      case datagram
      show ?thesis
      proof (cases "udp_socket_address ?s ?a")
        case None
        then show ?thesis using step datagram freed by auto
      next
        case (Some sa)
        obtain r ss1 where r: "syscall os (Sys_Sendto (so_fd ?s) (pl_data buf) sa) ss = (r, ss1)" by fastforce
        have st: "steps ?k ss (None, ss1)" by (rule syscall_steps [OF r])
        show ?thesis
        proof (cases "sr_ret r = int (length (pl_data buf))")
          case True
          have "steps ?k ss (None, free_payloads [buf] (stat_write ?k (sr_ret r) ss1))"
            using steps_trans [OF st] steps_trans [OF stat_steps(1) call_steps(3)] by blast
          then show ?thesis using step datagram Some r True steps_appends by auto
        next
          case False
          obtain e ss2 where e: "enable_write os ?k True (upd_slot ?k (append_sendbuffer p buf ?a) ss1) = (e, ss2)" by fastforce
          show ?thesis by (rule appends_enable [OF appends_list [OF _ st] e]) (use step datagram Some r False e in simp_all)
        qed
      qed
    next
      case waits
      then show ?thesis using step appends_trans [OF app check_warning_steps]
        by (cases "so_protocol ?s = P_TCP") auto
    qed
  qed
qed

subsection \<open>Reading\<close>

lemma forward_message_tcp_steps:
  assumes "forward_message_tcp os k ss = Some (r, ss')" "open_type (so_type (ss_slot ss k))"
  shows "steps k ss (r, ss')"
proof -
  let ?s = "ss_slot ss k"
  obtain q ss1 where q: "syscall os (Sys_Read (so_fd ?s) (so_size ?s)) ss = (q, ss1)" by fastforce
  have st: "steps k ss (None, ss1)" by (rule syscall_steps [OF q])
  have same: "ss_slot ss1 k = ?s" using syscall_eq [OF q] by simp
  note step = assms(1) [unfolded forward_message_tcp_def Let_def q, simplified]
  consider "sr_ret q < 0" | "sr_ret q = 0" | "sr_ret q > 0" by linarith
  then show ?thesis
  proof cases
    case 1
    then show ?thesis using step st by (auto simp: report_error_def split: if_splits intro: steps_quiet)
  next
    case 2
    have silent: "steps k ss (None, ss2)" if "force_close os k ss1 = Some (m, ss2)" for m ss2
      using st force_close_steps(1) [OF that] steps_trans by blast
    have closed: "steps k ss (Some (SOCKET_CLOSE, m), ss2)" if "force_close os k ss1 = Some (m, ss2)" "so_type ?s = T_HALFCLOSE_WRITE" for m ss2
      using st force_close_reports(1) [OF that(1)] that(2) same steps_trans by auto
    have read: "steps k ss (Some (SOCKET_CLOSE, m), ss2)" if "close_read os k ss1 = (m, ss2)" "so_type ?s \<noteq> T_HALFCLOSE_READ" for m ss2
    proof -
      note c = close_read_steps [OF that(1)]
      have "steps k ss1 (Some (SOCKET_CLOSE, m), ss2)" using c same assms(2) that(2) by (auto simp: steps_def keeps_def lives_def)
      then show ?thesis using st steps_trans by blast
    qed
    show ?thesis using step 2 st silent closed read by (auto simp: bind_Some_iff split: if_splits prod.splits)
  next
    case 3
    have more: "steps k ss (None, upd_slot k f (stat_read k n ss1))" if "\<And>s. socket_step s (f s)" for f n
      using steps_trans [OF st] steps_trans [OF stat_steps(2) upd_steps] that by blast
    have stat: "steps k ss (None, stat_read k n ss1)" for n using steps_trans [OF st stat_steps(2)] .
    show ?thesis
      using step 3 st more [of "so_size_update _", OF set_field_step(5)] stat
      by (auto split: if_splits intro: steps_quiet)
  qed
qed

lemma forward_message_udp_steps:
  assumes "forward_message_udp os k ss = Some (r, ss')"
  shows "steps k ss (r, ss')"
proof -
  let ?s = "ss_slot ss k"
  obtain q ss1 where q: "syscall os (Sys_Recvfrom (so_fd ?s) MAX_UDP_PACKAGE) ss = (q, ss1)" by fastforce
  have st: "steps k ss (None, ss1)" by (rule syscall_steps [OF q])
  note step = assms(1) [unfolded forward_message_udp_def Let_def q, simplified]
  show ?thesis
  proof (cases "sr_ret q < 0")
    case True
    have closed: "steps k ss (Some (SOCKET_ERR, m'), ss2)" if "force_close os k ss1 = Some (m, ss2)" for m m' ss2
      using st force_close_reports(2) [OF that] steps_trans by blast
    then show ?thesis using step st True by (auto simp: bind_Some_iff split: if_splits)
  next
    case False
    have "steps k ss (None, stat_read k n ss1)" for n using steps_trans [OF st stat_steps(2)] .
    then show ?thesis using step False by (auto split: if_splits intro: steps_quiet)
  qed
qed

lemma event_steps: "steps k ss (None, ss\<lparr>ss_ev := es\<rparr>)" "steps k ss (None, ss\<lparr>ss_event_index := i\<rparr>)" "steps k ss (None, repeat_event ss)"
  by (simp_all add: step_defs only_slot_def repeat_event_def)

lemma steps_state: "steps k ss (r, ss1) \<Longrightarrow> steps k ss1 (None, ss2) \<Longrightarrow> ended (so_type (ss_slot ss1 k)) \<longrightarrow> ended (so_type (ss_slot ss2 k)) \<Longrightarrow> steps k ss (r, ss2)"
  using steps_trans [of k ss r ss1 "(None, ss2)"] by (auto simp: steps_def keeps_def lives_def)

lemma event_read_steps:
  assumes "event_read os k e ss = Some (r, ss')" "active (ss_slot ss k)"
  shows "steps k ss (r, ss')"
proof -
  obtain q ss1 where q: "(if so_protocol (ss_slot ss k) = P_TCP then forward_message_tcp os k ss else forward_message_udp os k ss) = Some (q, ss1)"
    using assms(1) unfolding event_read_def bind_Some_iff by force
  then have st: "steps k ss (q, ss1)"
    using forward_message_tcp_steps forward_message_udp_steps assms(2) by (auto simp: active_def split: if_splits)
  have rewind: "steps k ss1 (None, repeat_event (ss1\<lparr>ss_ev := es\<rparr>))" "steps k ss1 (None, repeat_event ss1)" for es
    by (simp_all add: step_defs only_slot_def repeat_event_def)
  have other: "steps k ss (r', repeat_event (ss1\<lparr>ss_ev := es\<rparr>))" "steps k ss (r', repeat_event ss1)" if "steps k ss (r', ss1)" for es r'
    using steps_state [OF that rewind(1)] steps_state [OF that rewind(2)] by (simp_all add: repeat_event_def)
  have data: "steps k ss (Some (SOCKET_DATA, m), ss1)" for m using steps_quiet [OF steps_then [OF st]] by simp
  have "event_read os k e ss =
      (let code = map_option fst q
       in if code = Some SOCKET_MORE then Some (map_option (\<lambda>(c, m). (SOCKET_DATA, m)) q, repeat_event ss1)
          else if code = Some SOCKET_UDP then Some (q, repeat_event ss1)
          else if ev_write e \<and> code \<noteq> Some SOCKET_CLOSE \<and> code \<noteq> Some SOCKET_ERR
          then Some (q, repeat_event (ss1\<lparr>ss_ev := (ss_ev ss1)[ss_event_index ss1 - 1 := e\<lparr>ev_read := False\<rparr>]\<rparr>))
          else Some (q, ss1))"
    by (simp add: event_read_def q)
  then consider "\<exists>m. r = Some (SOCKET_DATA, m) \<and> ss' = repeat_event ss1" | "r = q" "ss' = repeat_event ss1"
    | "\<exists>es. r = q \<and> ss' = repeat_event (ss1\<lparr>ss_ev := es\<rparr>)" | "r = q" "ss' = ss1"
    using assms(1) by (fastforce simp: Let_def split: if_splits)
  then show ?thesis
  proof cases
    case 1
    then show ?thesis using other(2) [OF data] by blast
  next
    case 2
    then show ?thesis using other(2) [OF st] by simp
  next
    case 3
    then show ?thesis using other(1) [OF st] by blast
  next
    case 4
    then show ?thesis using st by simp
  qed
qed

lemma event_error_steps: "steps k ss (event_error os k ss)"
proof -
  obtain q ss1 where q: "syscall os (Sys_Socket_Error (so_fd (ss_slot ss k))) ss = (q, ss1)" by fastforce
  show ?thesis using steps_quiet [OF syscall_steps [OF q]] by (simp add: event_error_def Let_def q report_error_def)
qed

lemma event_eof_steps: "event_eof os k ss = Some (r, ss') \<Longrightarrow> so_type (ss_slot ss k) \<noteq> T_INVALID \<Longrightarrow> steps k ss (r, ss')"
  by (auto simp: event_eof_def Let_def bind_Some_iff halfclose_read_def force_close_steps force_close_reports)

lemma report_connect_steps:
  assumes "report_connect os k ss = Some (r, ss')" "so_type (ss_slot ss k) = T_CONNECTING"
  shows "steps k ss (r, ss')"
proof -
  let ?s = "ss_slot ss k"
  obtain q ss1 where q: "syscall os (Sys_Socket_Error (so_fd ?s)) ss = (q, ss1)" by fastforce
  have st: "steps k ss (None, ss1)" by (rule syscall_steps [OF q])
  have same: "ss_slot ss1 = ss_slot ss" using syscall_eq [OF q] by simp
  have closed: "steps k ss (Some (SOCKET_ERR, m'), s')" if "steps k ss (None, s)" "force_close os k s = Some (m, s')" for s m m' s'
    using that force_close_reports(2) steps_trans by blast
  note step = assms(1) [unfolded report_connect_def Let_def q, simplified]
  show ?thesis
  proof (cases "sr_ret q < 0 \<or> sr_value q \<noteq> 0")
    case True
    then show ?thesis using step closed [OF st] by (auto simp: bind_Some_iff split: if_splits)
  next
    case False
    have st2: "steps k ss (None, set_type k T_CONNECTED ss1)"
      using same assms(2) by (intro steps_trans [OF st] steps_none) (auto simp: step_defs core_def only_slot_def server_simps)
    obtain err ss3 where e: "(if nomore_sending_data (ss_slot (set_type k T_CONNECTED ss1) k) then enable_write os k False (set_type k T_CONNECTED ss1)
        else (0, set_type k T_CONNECTED ss1)) = (err, ss3)" by fastforce
    then have st3: "steps k ss (None, ss3)" using st2 steps_trans [OF st2 enable_write_steps] by (auto split: if_splits)
    obtain u ss4 where u: "syscall os (Sys_Getpeername (so_fd ?s)) ss3 = (u, ss4)" by fastforce
    have st4: "steps k ss (None, ss4)" by (rule steps_trans [OF st3 syscall_steps [OF u]])
    show ?thesis using step False e u closed [OF st3] steps_quiet [OF st4] by (auto simp: bind_Some_iff split: if_splits)
  qed
qed

lemma dispatch_event_steps:
  assumes "posix os" "dispatch_event os k e ss = Some (r, ss')" "so_type (ss_slot ss k) \<noteq> T_LISTEN" "so_type (ss_slot ss k) \<noteq> T_INVALID \<Longrightarrow> active (ss_slot ss k)"
  shows "steps k ss (r, ss')"
proof -
  consider "so_type (ss_slot ss k) = T_CONNECTING" | "so_type (ss_slot ss k) = T_INVALID"
    | "so_type (ss_slot ss k) \<noteq> T_CONNECTING" "so_type (ss_slot ss k) \<noteq> T_INVALID" by blast
  then show ?thesis
  proof cases
    case 1
    then show ?thesis using assms(2) report_connect_steps by (simp add: dispatch_event_def)
  next
    case 2
    then show ?thesis using assms(2) call_steps(1) by (auto simp: dispatch_event_def)
  next
    case 3
    then have act: "active (ss_slot ss k)" using assms(4) by simp
    have "(if ev_read e then event_read os k e ss else if ev_write e then send_buffer os k ss
        else if ev_error e then Some (event_error os k ss) else if ev_eof e then event_eof os k ss else Some (None, ss)) = Some (r, ss')"
      using assms(2,3) 3 by (simp add: dispatch_event_def split: socket_type.splits split del: if_split)
    then show ?thesis
      using event_read_steps [OF _ act] send_buffer_steps [OF assms(1) _ act] event_error_steps [of k ss os] event_eof_steps 3 steps_refl
      by (auto split: if_splits)
  qed
qed

end
