(* ===== verification/Socket_Life.thy ===== *)
theory Socket_Life
  imports Socket_Steps
begin

text \<open>
  What a request does to the slot of its number, how a request or a connection opens a slot, how numbers
  are handed out, and what the calls of other threads leave as it is.
\<close>

subsection \<open>Requests for an open socket\<close>

lemma halfclose_read_type [simp]: "halfclose_read s \<longleftrightarrow> so_type s = T_HALFCLOSE_READ"
  by (simp add: halfclose_read_def)

lemma close_socket_steps:
  assumes "close_socket os fd shut ss = Some (r, ss')"
    "\<not> socket_invalid (ss_slot ss (HASH_ID fd)) fd \<Longrightarrow> so_type (ss_slot ss (HASH_ID fd)) \<noteq> T_RESERVE"
  shows "steps (HASH_ID fd) ss (r, ss')"
proof -
  let ?k = "HASH_ID fd"
  let ?s = "ss_slot ss ?k"
  show ?thesis
  proof (cases "socket_invalid ?s fd")
    case True
    then show ?thesis using assms(1) by (simp add: close_socket_def steps_refl)
  next
    case False
    then have live: "open_type (so_type ?s)" using assms(2) by (simp add: socket_invalid_def)
    show ?thesis
    proof (cases "shut \<or> nomore_sending_data ?s")
      case True
      then obtain m where m: "force_close os ?k ss = Some (m, ss')" "r = (if so_type ?s = T_HALFCLOSE_READ then None else Some (SOCKET_CLOSE, m))"
        using assms(1) False by (auto simp: close_socket_def Let_def bind_Some_iff)
      then show ?thesis using force_close_steps(1) [OF m(1)] force_close_reports(1) [OF m(1)] live by auto
    next
      case waits: False
      let ?ss1 = "upd_slot ?k (so_closing_update (\<lambda>_. True)) ss"
      have st: "steps ?k ss (None, ?ss1)" by (rule upd_steps) (rule set_field_step)
      obtain m ss2 where c: "close_read os ?k ?ss1 = (m, ss2)" by fastforce
      have live1: "open_type (so_type (ss_slot ?ss1 ?k))" using live by (simp add: server_simps)
      note cr = close_read_steps [OF c live1]
      have "steps ?k ?ss1 (Some (SOCKET_CLOSE, m), ss2)" if "so_type ?s \<noteq> T_HALFCLOSE_READ"
        using cr that live by (auto simp: steps_def keeps_def lives_def server_simps)
      then show ?thesis using assms(1) False waits st c steps_trans [OF st]
        by (auto simp: close_socket_def Let_def split: if_splits)
    qed
  qed
qed

lemma steps_eq: "steps k ss y \<Longrightarrow> y = x \<Longrightarrow> steps k ss x"
  by simp

lemma resume_socket_steps: "steps (HASH_ID fd) ss (resume_socket os fd opaque ss)"
proof -
  let ?k = "HASH_ID fd"
  let ?s = "ss_slot ss ?k"
  obtain e ss1 where e: "enable_read os ?k True ss = (e, ss1)" by fastforce
  have st: "steps ?k ss (None, ss1)" by (rule enable_read_steps [OF e])
  have slot: "ss_slot ss1 ?k = ?s\<lparr>so_reading := True\<rparr>" using enable_slot(2) [of os ?k True ss] e by simp
  have start: "steps ?k ss (None, upd_slot ?k (\<lambda>s. s\<lparr>so_type := (if so_type s = T_PACCEPT then T_CONNECTED else T_LISTEN), so_opaque := opaque\<rparr>) ss1)"
    if "so_type ?s = T_PACCEPT \<or> so_type ?s = T_PLISTEN"
    using that by (intro steps_trans [OF st] upd_steps) (auto simp: slot step_defs core_def)
  have move: "steps ?k ss (None, upd_slot ?k (so_opaque_update (\<lambda>_. opaque)) ss1)"
    by (intro steps_trans [OF st] upd_steps set_field_step)
  show ?thesis
    using e st start move by (auto simp: resume_socket_def Let_def steps_refl split: prod.splits intro!: steps_quiet [where r = "Some _"])
qed

lemma pause_socket_steps: "steps (HASH_ID fd) ss (pause_socket os fd ss)"
proof -
  obtain e ss1 where e: "enable_read os (HASH_ID fd) False ss = (e, ss1)" by fastforce
  show ?thesis using enable_read_steps [OF e] steps_report by (auto simp: pause_socket_def Let_def e steps_refl)
qed

lemma set_udp_address_steps: "steps (HASH_ID fd) ss (set_udp_address fd addr ss)"
proof -
  have "steps (HASH_ID fd) ss (None, upd_slot (HASH_ID fd) (\<lambda>s. s\<lparr>so_udp_address := a, so_udpconnecting := u\<rparr>) ss)" for a u
    by (rule upd_steps) (simp add: step_defs core_def)
  moreover have "steps (HASH_ID fd) ss (None, upd_slot (HASH_ID fd) (\<lambda>s. s\<lparr>so_udp_address := f s, so_udpconnecting := so_udpconnecting s - 1\<rparr>) ss)" for f
    by (rule upd_steps) (simp add: step_defs core_def)
  ultimately show ?thesis by (auto simp: set_udp_address_def Let_def steps_refl report_error_def)
qed

text \<open>The number that a request names, and the number of a socket that it opens.\<close>

fun request_id :: "request \<Rightarrow> int option" where
  "request_id (R_Resume fd _) = Some fd"
| "request_id (R_Pause fd _) = Some fd"
| "request_id (R_Bind fd _ _) = Some fd"
| "request_id (R_Listen fd _ _) = Some fd"
| "request_id (R_Close fd _ _) = Some fd"
| "request_id (R_Open fd _ _ _) = Some fd"
| "request_id R_Exit = None"
| "request_id (R_Trigger fd) = Some fd"
| "request_id (R_Send _ fd _) = Some fd"
| "request_id (R_Send_Udp fd _ _) = Some fd"
| "request_id (R_Set_Udp fd _) = Some fd"
| "request_id (R_Setopt fd _ _) = Some fd"
| "request_id (R_Udp fd _ _ _) = Some fd"

definition opens :: "request \<Rightarrow> bool" where
  "opens req = (case req of R_Bind _ _ _ \<Rightarrow> True | R_Listen _ _ _ \<Rightarrow> True | R_Open _ _ _ _ \<Rightarrow> True | R_Udp _ _ _ _ \<Rightarrow> True | _ \<Rightarrow> False)"

lemma dec_sending_lives: "lives k ss (r, ss1) \<Longrightarrow> k = HASH_ID fd \<Longrightarrow> dec_sending_ref fd ss1 = Some ss2 \<Longrightarrow> lives k ss (r, ss2)"
  by (auto simp: dec_sending_ref_def Let_def lives_def socket_keeps_def only_slot_def server_simps split: if_splits)

lemma ctrl_cmd_steps:
  assumes "ctrl_cmd os req ss = Some (r, ss')" "request_id req = Some fd" "\<not> opens req" "\<nexists>p buf. req = R_Send p fd buf"
    "\<not> socket_invalid (ss_slot ss (HASH_ID fd)) fd \<Longrightarrow> so_type (ss_slot ss (HASH_ID fd)) \<noteq> T_RESERVE"
  shows "steps (HASH_ID fd) ss (r, ss')"
proof (cases req)
  case (R_Close fd' shut opaque)
  then show ?thesis using assms close_socket_steps by (auto simp: ctrl_cmd_def)
next
  case (R_Setopt fd' opt v)
  then show ?thesis using assms call_steps(1) steps_refl by (auto simp: ctrl_cmd_def setopt_socket_def Let_def)
next
  case (R_Send_Udp fd' buf a)
  then have "appends (HASH_ID fd) High buf ss (r, ss')" using assms send_socket_steps [of os fd buf High "Some a" ss "(r, ss')"] by (auto simp: ctrl_cmd_def)
  then show ?thesis by (simp add: appends_def)
qed (use assms in \<open>auto simp: ctrl_cmd_def opens_def trigger_write_steps
    intro: steps_eq [OF resume_socket_steps] steps_eq [OF pause_socket_steps] steps_eq [OF set_udp_address_steps]\<close>)

lemma ctrl_cmd_lives:
  assumes "ctrl_cmd os req ss = Some (r, ss')" "request_id req = Some fd" "\<not> opens req"
    "\<not> socket_invalid (ss_slot ss (HASH_ID fd)) fd \<Longrightarrow> so_type (ss_slot ss (HASH_ID fd)) \<noteq> T_RESERVE"
  shows "lives (HASH_ID fd) ss (r, ss')"
proof (cases "\<exists>p buf. req = R_Send p fd buf")
  case True
  then obtain p buf ss1 where s: "send_socket os fd buf p None ss = (r, ss1)" "dec_sending_ref fd ss1 = Some ss'"
    using assms(1) by (auto simp: ctrl_cmd_def Let_def bind_Some_iff split: prod.splits)
  then show ?thesis using send_socket_steps [OF s(1)] dec_sending_lives by (auto simp: appends_def keeps_def)
next
  case False
  then show ?thesis using ctrl_cmd_steps [OF assms(1-3) _ assms(4)] by (simp add: steps_def keeps_def)
qed

subsection \<open>Opening\<close>

text \<open>A slot that \<^verbatim>\<open>new_fd\<close> has filled for the number \<open>fd\<close>, and one that it has given up.\<close>

definition fresh :: "int \<Rightarrow> socket \<Rightarrow> bool" where
  "fresh fd s \<longleftrightarrow> so_id s = fd \<and> so_high s = [] \<and> so_low s = [] \<and> so_wb_size s = 0 \<and> so_dw_buffer s = None \<and>
     so_sending s = ID_TAG16 fd * 65536 \<and> \<not> so_closing s"

lemma new_fd_result:
  assumes "new_fd os fd sock proto opaque reading ss = Some (added, ss')"
  shows "only_slot (HASH_ID fd) ss ss'" "so_type (ss_slot ss (HASH_ID fd)) = T_RESERVE"
    "added \<Longrightarrow> fresh fd (ss_slot ss' (HASH_ID fd)) \<and> so_protocol (ss_slot ss' (HASH_ID fd)) = proto"
    "\<not> added \<Longrightarrow> so_type (ss_slot ss' (HASH_ID fd)) = T_INVALID"
proof -
  let ?k = "HASH_ID fd"
  obtain r ss1 where r: "syscall os (Poll_Add sock (Some ?k)) ss = (r, ss1)" by fastforce
  note e = syscall_eq [OF r]
  note step = assms [unfolded new_fd_def Let_def r, simplified]
  show "so_type (ss_slot ss ?k) = T_RESERVE" using step by (auto split: if_splits)
  have "only_slot ?k ss ss' \<and> (added \<longrightarrow> fresh fd (ss_slot ss' ?k) \<and> so_protocol (ss_slot ss' ?k) = proto) \<and>
      (\<not> added \<longrightarrow> so_type (ss_slot ss' ?k) = T_INVALID)"
  proof (cases "sr_ret r = 0")
    case False
    then show ?thesis using step e by (auto simp: only_slot_def server_simps split: if_splits)
  next
    case True
    then show ?thesis using step e
      by (auto simp: only_slot_def fresh_def server_simps split_beta split: if_splits)
  qed
  then show "only_slot ?k ss ss'" "added \<Longrightarrow> fresh fd (ss_slot ss' ?k) \<and> so_protocol (ss_slot ss' ?k) = proto"
    "\<not> added \<Longrightarrow> so_type (ss_slot ss' ?k) = T_INVALID" by simp_all
qed

text \<open>What a request that opens a socket does: the slot is that of \<open>fd\<close>, or given up.\<close>

definition opened :: "int \<Rightarrow> socket_server \<Rightarrow> outcome \<times> socket_server \<Rightarrow> bool" where
  "opened fd ss x \<longleftrightarrow> only_slot (HASH_ID fd) ss (snd x) \<and>
     (so_type (ss_slot (snd x) (HASH_ID fd)) = T_INVALID \<or>
      so_type (ss_slot ss (HASH_ID fd)) = T_RESERVE \<and> open_type (so_type (ss_slot (snd x) (HASH_ID fd))) \<and> fresh fd (ss_slot (snd x) (HASH_ID fd))) \<and>
     (\<forall>m. fst x \<noteq> Some (SOCKET_CLOSE, m))"

lemma only_slot_trans: "only_slot k ss ss1 \<Longrightarrow> only_slot k ss1 ss2 \<Longrightarrow> only_slot k ss ss2"
  by (simp add: only_slot_def)

lemma only_slot_simps [server_simps]:
  "only_slot k ss (call os c ss1) = only_slot k ss ss1" "only_slot k ss (set_type k t ss1) = only_slot k ss ss1"
  "only_slot k ss (snd (syscall os c ss1)) = only_slot k ss ss1" "only_slot k ss (snd (enable_write os k b ss1)) = only_slot k ss ss1"
  "only_slot k ss (upd_slot k f ss1) = only_slot k ss ss1"
  by (auto simp: only_slot_def server_simps)

lemma opened_failed: "open_failed (HASH_ID fd) m err ss' = x \<Longrightarrow> only_slot (HASH_ID fd) ss ss' \<Longrightarrow> opened fd ss x"
  by (auto simp: opened_def open_failed_def server_simps)

lemma fresh_simps [server_simps]: "fresh fd (s\<lparr>so_type := t\<rparr>) = fresh fd s" "fresh fd (s\<lparr>so_writing := b\<rparr>) = fresh fd s"
    "fresh fd (s\<lparr>so_udp_address := a\<rparr>) = fresh fd s" "fresh fd (s\<lparr>so_stat := z\<rparr>) = fresh fd s"
  by (simp_all add: fresh_def)

lemma connect_loop_state:
  "connect_loop os addrs i ss = (y, ss') \<Longrightarrow> ss_slot ss' = ss_slot ss \<and> ss_pipe ss' = ss_pipe ss \<and> ss_alloc_id ss' = ss_alloc_id ss"
proof (induction os addrs i ss arbitrary: y ss' rule: connect_loop.induct)
  case (2 os family name sa addrs i ss)
  obtain r ss1 where r: "syscall os (Sys_Socket family) ss = (r, ss1)" by fastforce
  obtain c ss3 where c: "syscall os (Sys_Connect (sr_ret r) i) (call os (Sys_Nonblocking (sr_ret r)) (call os (Sys_Keepalive (sr_ret r)) ss1)) = (c, ss3)"
    by fastforce
  have e: "ss_slot ss1 = ss_slot ss" "ss_pipe ss1 = ss_pipe ss" "ss_alloc_id ss1 = ss_alloc_id ss"
    "ss_slot ss3 = ss_slot ss" "ss_pipe ss3 = ss_pipe ss" "ss_alloc_id ss3 = ss_alloc_id ss"
    using syscall_eq [OF r] syscall_eq [OF c] by (simp_all add: server_simps)
  consider "sr_ret r < 0" | "\<not> sr_ret r < 0" "sr_ret c \<noteq> 0 \<and> sr_errno c \<noteq> EINPROGRESS" | "\<not> sr_ret r < 0" "\<not> (sr_ret c \<noteq> 0 \<and> sr_errno c \<noteq> EINPROGRESS)"
    by blast
  then show ?case
  proof cases
    case 1
    then show ?thesis using 2(1) [OF refl r [symmetric] refl 1] 2(3) r e by simp
  next
    case c2: 2
    then have "connect_loop os addrs (i + 1) (call os (Sys_Close (sr_ret r)) ss3) = (y, ss')" using 2(3) r c by simp
    then show ?thesis using 2(2) [OF refl r [symmetric] refl c2(1) refl refl c [symmetric] c2(2)] e by (simp add: server_simps)
  next
    case 3
    then show ?thesis using 2(3) r c e by auto
  qed
qed simp

lemma open_socket_opened:
  assumes "open_socket os fd port opaque host ss = Some (r, ss')"
  shows "opened fd ss (r, ss')"
proof -
  let ?k = "HASH_ID fd"
  obtain q ss1 where q: "syscall os (Sys_Getaddrinfo host port) ss = (q, ss1)" by fastforce
  obtain sock status name ss2 where c: "connect_loop os (sr_addrs q) 0 ss1 = ((sock, status, name), ss2)" by (cases "connect_loop os (sr_addrs q) 0 ss1") auto
  have o1: "only_slot ?k ss ss1" "only_slot ?k ss ss2"
    using syscall_eq [OF q] connect_loop_state [OF c] by (simp_all add: only_slot_def)
  note step = assms [unfolded open_socket_def Let_def q, simplified]
  show ?thesis
  proof (cases "sr_ret q \<noteq> 0 \<or> sock < 0")
    case True
    then show ?thesis using step c o1 by (auto split: if_splits intro: opened_failed)
  next
    case False
    then obtain added ss3 where n: "new_fd os fd sock P_TCP opaque True ss2 = Some (added, ss3)"
      using step c by (auto simp: bind_Some_iff)
    note r = new_fd_result [OF n]
    have o3: "only_slot ?k ss ss3" using r(1) o1(2) only_slot_trans by blast
    obtain e ss4 where e: "enable_write os ?k True ss3 = (e, ss4)" by fastforce
    have o4: "only_slot ?k ss ss4" "fresh fd (ss_slot ss4 ?k) = fresh fd (ss_slot ss3 ?k)"
      using only_slot_simps(4) [of ?k ss os True ss3] enable_slot(1) [of os ?k True ss3] e o3 by (simp_all add: server_simps)
    have "ss_slot ss2 = ss_slot ss" using syscall_eq [OF q] connect_loop_state [OF c] by simp
    then show ?thesis using step False c n r o3 o4 e
      by (cases added; cases "status = 0"; cases "e = 0") (auto simp: open_failed_def opened_def server_simps)
  qed
qed

lemma listen_socket_opened:
  assumes "listen_socket os fd listen_fd opaque ss = Some (r, ss')"
  shows "opened fd ss (r, ss')"
proof -
  let ?k = "HASH_ID fd"
  obtain added ss1 where n: "new_fd os fd listen_fd P_TCP opaque False ss = Some (added, ss1)"
    using assms by (auto simp: listen_socket_def Let_def bind_Some_iff)
  note r = new_fd_result [OF n]
  obtain q ss2 where q: "syscall os (Sys_Getsockname listen_fd) (set_type ?k T_PLISTEN ss1) = (q, ss2)" by fastforce
  have "only_slot ?k ss ss2" "ss_slot ss2 ?k = (ss_slot ss1 ?k)\<lparr>so_type := T_PLISTEN\<rparr>"
    using r(1) syscall_eq [OF q] by (simp_all add: only_slot_def server_simps)
  then show ?thesis
    using assms n r q by (cases added) (auto simp: listen_socket_def Let_def open_failed_def opened_def server_simps split: option.splits if_splits)
qed

lemma bind_socket_opened: "bind_socket os fd sock opaque ss = Some (r, ss') \<Longrightarrow> opened fd ss (r, ss')"
  by (auto simp: bind_socket_def Let_def bind_Some_iff opened_def server_simps split: if_splits dest: new_fd_result)

lemma add_udp_socket_opened: "add_udp_socket os fd sock family opaque ss = Some (r, ss') \<Longrightarrow> opened fd ss (r, ss')"
  by (auto simp: add_udp_socket_def bind_Some_iff opened_def server_simps Let_def split: if_splits dest: new_fd_result)

lemma ctrl_cmd_opened:
  "ctrl_cmd os req ss = Some (r, ss') \<Longrightarrow> request_id req = Some fd \<Longrightarrow> opens req \<Longrightarrow> opened fd ss (r, ss')"
  by (cases req) (auto simp: ctrl_cmd_def opens_def open_socket_opened listen_socket_opened bind_socket_opened add_udp_socket_opened)

subsection \<open>Handing out numbers\<close>

lemma next_id_nonneg: "0 \<le> fst (next_id alloc)"
proof -
  have "\<not> bit ((alloc + 1) AND 0x7fffffff) 31" by (simp add: bit_simps)
  then have "0 \<le> sint ((alloc + 1) AND 0x7fffffff)" using bit_last_iff [of "(alloc + 1) AND 0x7fffffff"] by simp
  then show ?thesis by (simp add: next_id_def Let_def)
qed

definition reserved :: "int \<Rightarrow> socket \<Rightarrow> socket" where
  "reserved fd s = s\<lparr>so_type := T_RESERVE, so_id := fd, so_protocol := P_UNKNOWN, so_udpconnecting := 0, so_fd := -1\<rparr>"

lemma reserve_loop_result:
  "reserve_loop n ss = (fd, ss') \<Longrightarrow>
    fd = -1 \<and> (\<exists>alloc. ss' = ss\<lparr>ss_alloc_id := alloc\<rparr>) \<or>
    0 \<le> fd \<and> so_type (ss_slot ss (HASH_ID fd)) = T_INVALID \<and>
      (\<exists>alloc. ss' = put_slot (HASH_ID fd) (reserved fd (ss_slot ss (HASH_ID fd))) (ss\<lparr>ss_alloc_id := alloc\<rparr>))"
proof (induction n ss arbitrary: fd ss' rule: reserve_loop.induct)
  case (1 ss)
  then show ?case by (auto intro: exI [of _ "ss_alloc_id ss"])
next
  case (2 n ss)
  obtain i alloc where i: "next_id (ss_alloc_id ss) = (i, alloc)" by fastforce
  show ?case
  proof (cases "so_type (ss_slot ss (HASH_ID i)) = T_INVALID")
    case True
    then show ?thesis using 2(2) i next_id_nonneg [of "ss_alloc_id ss"] by (auto simp: reserved_def)
  next
    case False
    then have "reserve_loop n (ss\<lparr>ss_alloc_id := alloc\<rparr>) = (fd, ss')" using 2(2) i by simp
    then show ?thesis using 2(1) [OF i [symmetric] refl refl] False by fastforce
  qed
qed

lemma reserve_id_result:
  assumes "reserve_id ss = (fd, ss')"
  shows "fd = -1 \<and> ss_slot ss' = ss_slot ss \<and> ss_pipe ss' = ss_pipe ss \<or>
    0 \<le> fd \<and> so_type (ss_slot ss (HASH_ID fd)) = T_INVALID \<and>
    ss_slot ss' = (ss_slot ss)(HASH_ID fd := reserved fd (ss_slot ss (HASH_ID fd))) \<and> ss_pipe ss' = ss_pipe ss"
  using reserve_loop_result [OF assms [unfolded reserve_id_def]] by (auto simp: put_slot_def)

text \<open>Everything but the statistics of a socket.\<close>

definition same_socket :: "socket \<Rightarrow> socket \<Rightarrow> bool" where
  "same_socket s s' \<longleftrightarrow> s' = s\<lparr>so_stat := so_stat s'\<rparr>"

lemma same_socket_simps [simp]: "same_socket s s" "same_socket s (s\<lparr>so_stat := z\<rparr>)"
  by (simp_all add: same_socket_def)

lemma same_socket_fields:
  assumes "same_socket s s'"
  shows "so_id s' = so_id s" "so_type s' = so_type s" "so_protocol s' = so_protocol s"
  using arg_cong [OF assms [unfolded same_socket_def], of so_id] arg_cong [OF assms [unfolded same_socket_def], of so_type]
    arg_cong [OF assms [unfolded same_socket_def], of so_protocol] by simp_all

text \<open>The numbers that are tried one after the other meet every slot.\<close>

lemma sint_nonneg: "\<not> bit x 31 \<Longrightarrow> sint x = uint (take_bit 31 x)" for x :: u32
  by (simp add: sint_uint signed_take_bit_eq_if_positive unsigned_take_bit_eq bit_uint_iff)

lemma take_bit_id: "\<not> bit x 31 \<Longrightarrow> take_bit 31 x = x" for x :: u32
proof -
  assume top: "\<not> bit x 31"
  have "n < 31" if "bit x n" for n
  proof -
    have "n < 32" using bit_imp_le_length [OF that] by simp
    then show ?thesis using that top by (cases "n = 31") auto
  qed
  then show ?thesis by (auto simp: bit_eq_iff bit_simps)
qed

lemma and_mask: "x AND 0x7fffffff = take_bit 31 x" for x :: u32
  by (simp add: take_bit_eq_mask mask_eq_exp_minus_1)

lemma next_id_take_bit: "next_id alloc = (uint (take_bit 31 (alloc + 1)), take_bit 31 (alloc + 1))"
proof (cases "bit (alloc + 1) 31")
  case True
  have "\<not> bit (take_bit 31 (alloc + 1)) 31" by (simp add: bit_simps)
  then show ?thesis using True bit_last_iff [of "alloc + 1"] by (simp add: next_id_def Let_def and_mask sint_nonneg)
next
  case False
  then show ?thesis using bit_last_iff [of "alloc + 1"] by (simp add: next_id_def Let_def sint_nonneg take_bit_id)
qed

lemma unat_take_bit: "unat (take_bit 31 (alloc + 1)) = (unat alloc + 1) mod 2 ^ 31" for alloc :: u32
proof -
  have "unat (alloc + 1) = (unat alloc + 1) mod 2 ^ 32" by (simp add: unat_word_ariths)
  moreover have "unat (take_bit 31 (alloc + 1)) = take_bit 31 (unat (alloc + 1))" by (rule unsigned_take_bit_eq)
  ultimately show ?thesis by (simp add: take_bit_nat_def mod_mod_cancel)
qed

lemma next_id_eq: "next_id alloc = (int ((unat alloc + 1) mod 2 ^ 31), take_bit 31 (alloc + 1))"
  by (simp only: next_id_take_bit uint_nat unat_take_bit)

lemma hash_next_id: "HASH_ID (int ((n + 1) mod 2 ^ 31)) = (n + 1) mod MAX_SOCKET"
proof -
  have "(n + 1) mod 2 ^ 31 < 2 ^ 32" by (rule less_trans [OF mod_less_divisor]) simp_all
  then have "unat (word_of_int (int ((n + 1) mod 2 ^ 31)) :: u32) = (n + 1) mod 2 ^ 31" by (simp add: unat_of_nat take_bit_nat_eq_self)
  then show ?thesis by (simp add: HASH_ID_def MAX_SOCKET_def mod_mod_cancel)
qed

lemma mod_add_mod: "c dvd m \<Longrightarrow> (a mod m + b) mod c = (a + b) mod (c :: nat)"
  by (metis mod_add_left_eq mod_mod_cancel)

lemma reserve_loop_full:
  "reserve_loop n ss = (-1, ss') \<Longrightarrow> i < n \<Longrightarrow> so_type (ss_slot ss ((unat (ss_alloc_id ss) + 1 + i) mod MAX_SOCKET)) \<noteq> T_INVALID"
proof (induction n arbitrary: ss i)
  case (Suc n)
  let ?a = "unat (ss_alloc_id ss)" and ?ss1 = "ss\<lparr>ss_alloc_id := take_bit 31 (ss_alloc_id ss + 1)\<rparr>"
  have busy: "so_type (ss_slot ss ((?a + 1) mod MAX_SOCKET)) \<noteq> T_INVALID" "reserve_loop n ?ss1 = (-1, ss')"
    using Suc.prems(1) hash_next_id [of ?a] by (auto simp: next_id_eq Let_def split: if_splits)
  show ?case
  proof (cases i)
    case 0
    then show ?thesis using busy(1) by simp
  next
    case (Suc j)
    have "(unat (take_bit 31 (ss_alloc_id ss + 1)) + 1 + j) mod MAX_SOCKET = (?a + 1 + i) mod MAX_SOCKET"
      using mod_add_mod [of MAX_SOCKET "2 ^ 31" "?a + 1" "1 + j"] by (simp add: unat_take_bit Suc MAX_SOCKET_def)
    then show ?thesis using Suc.IH [OF busy(2), of j] Suc.prems(2) Suc by simp
  qed
qed simp

text \<open>A number is found when a slot is free.\<close>

lemma reserve_id_full:
  assumes "reserve_id ss = (-1, ss')" "k < MAX_SOCKET"
  shows "so_type (ss_slot ss k) \<noteq> T_INVALID"
proof -
  let ?a = "unat (ss_alloc_id ss) + 1"
  define i where "i = (k + (MAX_SOCKET - ?a mod MAX_SOCKET)) mod MAX_SOCKET"
  have "(?a + i) mod MAX_SOCKET = (?a mod MAX_SOCKET + (k + (MAX_SOCKET - ?a mod MAX_SOCKET))) mod MAX_SOCKET"
    by (simp only: i_def mod_add_left_eq mod_add_right_eq)
  also have "\<dots> = (k + MAX_SOCKET) mod MAX_SOCKET"
    using mod_less_divisor [of MAX_SOCKET ?a] by (simp add: MAX_SOCKET_def)
  also have "\<dots> = k" using assms(2) by simp
  finally have "(?a + i) mod MAX_SOCKET = k" .
  moreover have "i < MAX_SOCKET" by (simp add: i_def MAX_SOCKET_def)
  ultimately show ?thesis using reserve_loop_full [OF assms(1) [unfolded reserve_id_def], of i] by simp
qed

text \<open>A connection is accepted in a slot that was free, which is free again when there is no message.\<close>

lemma report_accept_result:
  assumes "report_accept os k ss = Some ((n, m), ss')" "so_type (ss_slot ss k) \<noteq> T_INVALID"
  shows "ss_pipe ss' = ss_pipe ss \<and>
    (n \<le> 0 \<and> ss_slot ss' = ss_slot ss \<or>
     (\<exists>fd. so_type (ss_slot ss (HASH_ID fd)) = T_INVALID \<and> (\<forall>j. j \<noteq> HASH_ID fd \<longrightarrow> same_socket (ss_slot ss j) (ss_slot ss' j)) \<and>
       (n \<le> 0 \<and> so_type (ss_slot ss' (HASH_ID fd)) = T_INVALID \<or>
        n = 1 \<and> m_ud m = fd \<and> so_type (ss_slot ss' (HASH_ID fd)) = T_PACCEPT \<and> fresh fd (ss_slot ss' (HASH_ID fd)))))"
proof -
  let ?s = "ss_slot ss k"
  obtain u ss1 where u: "syscall os (Sys_Accept (so_fd ?s)) ss = (u, ss1)" by fastforce
  note e1 = syscall_eq [OF u]
  note step = assms(1) [unfolded report_accept_def Let_def u, simplified]
  show ?thesis
  proof (cases "sr_ret u < 0")
    case True
    then show ?thesis using step e1 by (auto simp: server_simps split_beta split: if_splits)
  next
    case False
    obtain fd ss2 where fd: "reserve_id ss1 = (fd, ss2)" by fastforce
    note r = reserve_id_result [OF fd]
    show ?thesis
    proof (cases "fd < 0")
      case True
      then show ?thesis using step e1 False fd r by (auto simp: server_simps)
    next
      case nonneg: False
      let ?ss3 = "call os (Sys_Nonblocking (sr_ret u)) (call os (Sys_Keepalive (sr_ret u)) ss2)"
      obtain added ss4 where n: "new_fd os fd (sr_ret u) P_TCP (so_opaque ?s) False ?ss3 = Some (added, ss4)"
        using step False fd nonneg by (auto simp: bind_Some_iff)
      note nr = new_fd_result [OF n]
      have r': "so_type (ss_slot ss (HASH_ID fd)) = T_INVALID" "ss_pipe ss2 = ss_pipe ss"
        "\<forall>j. j \<noteq> HASH_ID fd \<longrightarrow> ss_slot ss2 j = ss_slot ss j" using r nonneg e1 by auto
      then have k: "k \<noteq> HASH_ID fd" using assms(2) by auto
      have other: "\<forall>j. j \<noteq> HASH_ID fd \<longrightarrow> ss_slot ss4 j = ss_slot ss j" "ss_pipe ss4 = ss_pipe ss"
        using nr(1) r' by (auto simp: only_slot_def server_simps)
      show ?thesis
      proof (cases added)
        case True
        have res: "n = 1" "m_ud m = fd" "ss' = set_type (HASH_ID fd) T_PACCEPT (stat_read k 1 ss4)"
          using step False fd nonneg n True by auto
        then show ?thesis using nr(3) [OF True] other r' k by (auto simp: server_simps)
      next
        case False
        then have "n = 0" "ss_slot ss' = ss_slot ss4" "ss_pipe ss' = ss_pipe ss4"
          using step \<open>\<not> sr_ret u < 0\<close> fd nonneg n by (auto simp: server_simps)
        then show ?thesis using nr(4) [OF False] other r' by auto
      qed
    qed
  qed
qed

subsection \<open>Calls of other threads\<close>

text \<open>A call for an open socket changes no number and no type, and writes requests that open none.\<close>

definition calls :: "socket_server \<Rightarrow> socket_server \<Rightarrow> bool" where
  "calls ss ss' \<longleftrightarrow>
     (\<forall>k. so_id (ss_slot ss' k) = so_id (ss_slot ss k) \<and> so_type (ss_slot ss' k) = so_type (ss_slot ss k) \<and> so_protocol (ss_slot ss' k) = so_protocol (ss_slot ss k)) \<and>
     (\<exists>reqs. ss_pipe ss' = ss_pipe ss @ reqs \<and> (\<forall>req \<in> set reqs. \<not> opens req))"

lemma calls_refl [simp]: "calls ss ss"
  by (simp add: calls_def)

lemma calls_request: "calls ss ss1 \<Longrightarrow> \<not> opens req \<Longrightarrow> calls ss (send_request req ss1)"
  by (force simp: calls_def send_request_def)

lemma calls_state: "calls ss ss1 \<Longrightarrow> ss_pipe ss2 = ss_pipe ss1 \<Longrightarrow>
    (\<And>k. so_id (ss_slot ss2 k) = so_id (ss_slot ss1 k) \<and> so_type (ss_slot ss2 k) = so_type (ss_slot ss1 k) \<and> so_protocol (ss_slot ss2 k) = so_protocol (ss_slot ss1 k)) \<Longrightarrow>
    calls ss ss2"
  by (simp add: calls_def)

lemma calls_simps [server_simps]:
  "calls ss (free_payloads ps ss1) = calls ss ss1" "calls ss (call os c ss1) = calls ss ss1" "calls ss (snd (syscall os c ss1)) = calls ss ss1"
  "calls ss (upd_slot k (\<lambda>s. s\<lparr>so_stat := z s\<rparr>) ss1) = calls ss ss1"
  "calls ss (upd_slot k (\<lambda>s. s\<lparr>so_dw_buffer := d, so_dw_offset := i\<rparr>) ss1) = calls ss ss1"
  "calls ss (upd_slot k (so_udpconnecting_update u) ss1) = calls ss ss1" "calls ss (upd_slot k (so_sending_update f) ss1) = calls ss ss1"
  by (auto simp: calls_def server_simps)

lemma calls_syscall: "syscall os c ss1 = (r, ss2) \<Longrightarrow> calls ss ss2 = calls ss ss1"
  using calls_simps(3) [of ss os c ss1] by simp

lemma calls_free_buffer [server_simps]: "calls ss (free_buffer buf ss1) = calls ss ss1"
  by (simp add: free_buffer_def server_simps)

lemma not_opens [simp]:
  "\<not> opens R_Exit" "\<not> opens (R_Close fd b q)" "\<not> opens (R_Resume fd q)" "\<not> opens (R_Pause fd q)" "\<not> opens (R_Setopt fd o1 v)"
  "\<not> opens (R_Send p fd buf)" "\<not> opens (R_Send_Udp fd buf a)" "\<not> opens (R_Trigger fd)" "\<not> opens (R_Set_Udp fd a)"
  by (simp_all add: opens_def)

lemma queue_send_calls: "queue_send p buf ss1 = Some (n, ss') \<Longrightarrow> calls ss ss1 \<Longrightarrow> calls ss ss'"
  by (auto simp: queue_send_def inc_sending_ref_def Let_def bind_Some_iff server_simps intro!: calls_request split: if_splits)

lemma direct_write_calls: "direct_write os k data ss1 = (n, ss') \<Longrightarrow> calls ss ss' = calls ss ss1"
  by (auto simp: direct_write_def Let_def server_simps calls_syscall split: if_splits option.splits prod.splits)

lemma send_calls: "socket_server_send os buf ss = Some (n, ss') \<Longrightarrow> calls ss ss'"
proof -
  assume step: "socket_server_send os buf ss = Some (n, ss')"
  let ?k = "HASH_ID (sb_id buf)"
  obtain l ss1 where l: "syscall os (Try_Lock ?k) ss = (l, ss1)" by fastforce
  have c1: "calls ss ss1" using calls_syscall [OF l] by simp
  obtain d ss2 where d: "direct_write os ?k (sb_data buf) ss1 = (d, ss2)" by fastforce
  have c2: "calls ss ss2" using direct_write_calls [OF d] c1 by simp
  show "calls ss ss'"
    using step l d c1 c2 queue_send_calls [of High buf ss1 n ss'] queue_send_calls [of High buf ss n ss' ss]
    by (auto simp: socket_server_send_def Let_def server_simps split: if_splits option.splits intro!: calls_request)
qed

lemma send_lowpriority_calls: "socket_server_send_lowpriority buf ss = Some (n, ss') \<Longrightarrow> calls ss ss'"
  using queue_send_calls [of Low buf ss n ss' ss] by (auto simp: socket_server_send_lowpriority_def server_simps split: if_splits)

lemma udp_send_calls:
  assumes "socket_server_udp_send os addr buf ss = (n, ss')"
  shows "calls ss ss'"
proof -
  let ?k = "HASH_ID (sb_id buf)"
  obtain l ss1 where l: "syscall os (Try_Lock ?k) ss = (l, ss1)" by fastforce
  have c1: "calls ss ss1" using calls_syscall [OF l] by simp
  have c2: "calls ss ss2" if "syscall os c ss1 = (q, ss2)" for c q ss2 using calls_syscall [OF that] c1 by simp
  show ?thesis using assms l c1 c2
    by (auto simp: socket_server_udp_send_def Let_def server_simps split: if_splits option.splits prod.splits intro!: calls_request)
qed

lemma udp_connect_calls:
  assumes "socket_server_udp_connect os fd addr port ss = (n, ss')"
  shows "calls ss ss'"
proof -
  let ?ss1 = "upd_slot (HASH_ID fd) (so_udpconnecting_update (\<lambda>n. n + 1)) ss"
  obtain r ss2 where r: "syscall os (Sys_Getaddrinfo addr port) ?ss1 = (r, ss2)" by fastforce
  have "calls ss ss2" using calls_syscall [OF r] by (simp add: server_simps)
  then show ?thesis using assms r by (auto simp: socket_server_udp_connect_def Let_def split: if_splits prod.splits intro!: calls_request)
qed

lemma query_info_calls: "query_info os ntop k ss1 = (r, ss2) \<Longrightarrow> calls ss ss2 = calls ss ss1"
  by (auto simp: query_info_def Let_def calls_syscall split: socket_type.splits if_splits prod.splits)

lemma info_loop_calls: "info_loop os ntop ks si ss1 = (r, ss2) \<Longrightarrow> calls ss ss2 = calls ss ss1"
  by (induction os ntop ks si ss1 rule: info_loop.induct) (auto simp: query_info_calls split: prod.splits)

lemma do_bind_state: "do_bind os host port ss = (y, ss') \<Longrightarrow> ss_slot ss' = ss_slot ss \<and> ss_pipe ss' = ss_pipe ss"
  by (auto simp: do_bind_def Let_def server_simps dest!: syscall_eq split: prod.splits if_splits)

lemma do_listen_state: "do_listen os host port backlog ss = (y, ss') \<Longrightarrow> ss_slot ss' = ss_slot ss \<and> ss_pipe ss' = ss_pipe ss"
  by (auto simp: do_listen_def Let_def server_simps dest!: syscall_eq do_bind_state split: prod.splits if_splits)

text \<open>A call that hands out a number reserves the slot and writes the request that opens it.\<close>

definition hands_out :: "int \<Rightarrow> socket_server \<Rightarrow> socket_server \<Rightarrow> bool" where
  "hands_out fd ss ss' \<longleftrightarrow> so_type (ss_slot ss (HASH_ID fd)) = T_INVALID \<and>
     ss_slot ss' = (ss_slot ss)(HASH_ID fd := reserved fd (ss_slot ss (HASH_ID fd))) \<and>
     (\<exists>req. opens req \<and> request_id req = Some fd \<and> ss_pipe ss' = ss_pipe ss @ [req])"

lemma hands_out_request:
  assumes "reserve_id ss1 = (fd, ss2)" "\<not> fd < 0" "ss_slot ss1 = ss_slot ss" "ss_pipe ss1 = ss_pipe ss" "opens req" "request_id req = Some fd"
  shows "hands_out fd ss (send_request req ss2)"
  using reserve_id_result [OF assms(1)] assms(2-) by (auto simp: hands_out_def send_request_def)

lemma not_handed_out: "reserve_id ss1 = (fd, ss2) \<Longrightarrow> fd < 0 \<Longrightarrow> calls ss ss1 \<Longrightarrow> calls ss ss2"
  using reserve_id_result [of ss1 fd ss2] by (auto simp: calls_def)

lemma opens_simps [simp]: "opens (R_Open fd port q host)" "opens (R_Listen fd sock q)" "opens (R_Bind fd sock q)" "opens (R_Udp fd sock family q)"
  by (simp_all add: opens_def)

lemma connect_hands_out:
  "socket_server_connect os q addr port ss = (fd, ss') \<Longrightarrow> (0 \<le> fd \<longrightarrow> hands_out fd ss ss') \<and> (fd < 0 \<longrightarrow> calls ss ss')"
  by (auto simp: socket_server_connect_def Let_def server_simps not_handed_out split: if_splits prod.splits intro!: hands_out_request)

lemma bind_hands_out:
  "socket_server_bind q sock ss = (fd, ss') \<Longrightarrow> (0 \<le> fd \<longrightarrow> hands_out fd ss ss') \<and> (fd < 0 \<longrightarrow> calls ss ss')"
  by (auto simp: socket_server_bind_def Let_def server_simps not_handed_out split: if_splits prod.splits intro!: hands_out_request)

lemma state_calls: "ss_slot ss1 = ss_slot ss \<and> ss_pipe ss1 = ss_pipe ss \<Longrightarrow> calls ss ss1"
  by (simp add: calls_def)

lemma listen_hands_out:
  assumes "socket_server_listen os q addr port backlog ss = (fd, ss')"
  shows "(0 \<le> fd \<longrightarrow> hands_out fd ss ss') \<and> (fd < 0 \<longrightarrow> calls ss ss')"
proof -
  obtain sock ss1 where l: "do_listen os addr port backlog ss = (sock, ss1)" by fastforce
  note s = do_listen_state [OF l]
  obtain i ss2 where r: "reserve_id ss1 = (i, ss2)" by fastforce
  show ?thesis using assms l r s state_calls [OF s] not_handed_out [OF r _ state_calls [OF s]] hands_out_request [OF r, of ss]
    by (auto simp: socket_server_listen_def server_simps split: if_splits)
qed

lemma udp_hands_out:
  assumes "socket_server_udp os q addr port ss = (fd, ss')"
  shows "(0 \<le> fd \<longrightarrow> hands_out fd ss ss') \<and> (fd < 0 \<longrightarrow> calls ss ss')"
proof -
  obtain sock family ss1 where b: "(if port \<noteq> 0 \<or> addr \<noteq> None then do_bind os addr port ss
      else let (r, s1) = syscall os (Sys_Socket AF_INET) ss in ((sr_ret r, AF_INET), s1)) = ((sock, family), ss1)"
    by (metis prod.exhaust)
  have s: "ss_slot ss1 = ss_slot ss \<and> ss_pipe ss1 = ss_pipe ss"
    using b do_bind_state by (auto simp: server_simps dest!: syscall_eq split: if_splits prod.splits)
  obtain i ss2 where r: "reserve_id (call os (Sys_Nonblocking sock) ss1) = (i, ss2)" by fastforce
  have s': "ss_slot (call os (Sys_Nonblocking sock) ss1) = ss_slot ss \<and> ss_pipe (call os (Sys_Nonblocking sock) ss1) = ss_pipe ss"
    using s by (simp add: server_simps)
  show ?thesis using assms r state_calls [OF s] not_handed_out [OF r _ state_calls [OF s']] hands_out_request [OF r, of ss] s'
    unfolding socket_server_udp_def b by (auto simp: server_simps split: if_splits)
qed

end
