(* ===== verification/Socket_Run.thy ===== *)
theory Socket_Run
  imports Socket_Life
begin

text \<open>
  The socket thread and the threads that call it as one relation of steps, with the claims that hold
  of every run: a number is handed out when there is one, the end of a socket is told once, and a request
  that opens a socket finds its slot. At the end, where the code departs from its intent.
\<close>

subsection \<open>The server and its callers\<close>

datatype occurrence = Reports outcome | Hands_Out int | Sends sendbuffer int | Sends_Low sendbuffer int | Sends_Udp sendbuffer int | Called

text \<open>No request that waits in the pipe names the number.\<close>

definition unnamed :: "int \<Rightarrow> socket_server \<Rightarrow> bool" where
  "unnamed fd ss \<longleftrightarrow> (\<forall>req \<in> set (ss_pipe ss). request_id req \<noteq> Some fd)"

text \<open>
  One step: a round of the poll or a call by another thread. A number is handed out when no request
  names it: its holders of \<open>2\<^sup>3\<^sup>1\<close> numbers ago have their requests carried out.
\<close>

inductive server_step :: "system \<Rightarrow> socket_server \<Rightarrow> occurrence \<Rightarrow> socket_server \<Rightarrow> bool" for os :: system where
  poll: "poll_round os ss = Some ((r, more1), ss') \<Longrightarrow> server_step os ss (Reports r) ss'"
| connect: "socket_server_connect os q addr port ss = (fd, ss') \<Longrightarrow> unnamed fd ss \<Longrightarrow> server_step os ss (Hands_Out fd) ss'"
| listen: "socket_server_listen os q host port backlog ss = (fd, ss') \<Longrightarrow> unnamed fd ss \<Longrightarrow> server_step os ss (Hands_Out fd) ss'"
| bind: "socket_server_bind q sock ss = (fd, ss') \<Longrightarrow> unnamed fd ss \<Longrightarrow> server_step os ss (Hands_Out fd) ss'"
| udp: "socket_server_udp os q host port ss = (fd, ss') \<Longrightarrow> unnamed fd ss \<Longrightarrow> server_step os ss (Hands_Out fd) ss'"
| exit: "server_step os ss Called (socket_server_exit ss)"
| close: "server_step os ss Called (socket_server_close q fd ss)"
| shutdown: "server_step os ss Called (socket_server_shutdown q fd ss)"
| start: "server_step os ss Called (socket_server_start q fd ss)"
| pause: "server_step os ss Called (socket_server_pause q fd ss)"
| nodelay: "server_step os ss Called (socket_server_nodelay fd ss)"
| send: "socket_server_send os buf ss = Some (n, ss') \<Longrightarrow> server_step os ss (Sends buf n) ss'"
| send_low: "socket_server_send_lowpriority buf ss = Some (n, ss') \<Longrightarrow> server_step os ss (Sends_Low buf n) ss'"
| udp_send: "socket_server_udp_send os a buf ss = (n, ss') \<Longrightarrow> server_step os ss (Sends_Udp buf n) ss'"
| udp_connect: "socket_server_udp_connect os fd addr port ss = (n, ss') \<Longrightarrow> server_step os ss Called ss'"
| updatetime: "server_step os ss Called (socket_server_updatetime time ss)"
| info: "socket_server_info os ntop ss = (si, ss') \<Longrightarrow> server_step os ss Called ss'"

inductive server_run :: "system \<Rightarrow> socket_server \<Rightarrow> occurrence list \<Rightarrow> socket_server \<Rightarrow> bool" for os :: system where
  stop: "server_run os ss [] ss"
| run: "server_step os ss l ss1 \<Longrightarrow> server_run os ss1 ls ss2 \<Longrightarrow> server_run os ss (l # ls) ss2"

text \<open>A slot has the hash of its number; reserved slots and requests that open belong together.\<close>

definition numbered :: "socket_server \<Rightarrow> bool" where
  "numbered ss \<longleftrightarrow>
     (\<forall>k. so_type (ss_slot ss k) \<noteq> T_INVALID \<longrightarrow> HASH_ID (so_id (ss_slot ss k)) = k) \<and>
     (\<forall>k. so_type (ss_slot ss k) = T_RESERVE \<longrightarrow> so_protocol (ss_slot ss k) \<noteq> P_TCP \<and>
        (\<exists>req \<in> set (ss_pipe ss). opens req \<and> request_id req = Some (so_id (ss_slot ss k)))) \<and>
     (\<forall>req \<in> set (ss_pipe ss). \<forall>fd. opens req \<and> request_id req = Some fd \<longrightarrow>
        so_type (ss_slot ss (HASH_ID fd)) = T_RESERVE \<and> so_id (ss_slot ss (HASH_ID fd)) = fd) \<and>
     sorted_wrt (\<lambda>q req. opens req \<longrightarrow> request_id q \<noteq> request_id req) (ss_pipe ss)"

lemma numbered_hash: "numbered ss \<Longrightarrow> so_type (ss_slot ss k) \<noteq> T_INVALID \<Longrightarrow> HASH_ID (so_id (ss_slot ss k)) = k"
  by (simp add: numbered_def)

lemma numbered_reserved:
  "numbered ss \<Longrightarrow> so_type (ss_slot ss k) = T_RESERVE \<Longrightarrow>
    so_protocol (ss_slot ss k) \<noteq> P_TCP \<and> (\<exists>req \<in> set (ss_pipe ss). opens req \<and> request_id req = Some (so_id (ss_slot ss k)))"
  by (simp add: numbered_def)

lemma numbered_opens:
  "numbered ss \<Longrightarrow> req \<in> set (ss_pipe ss) \<Longrightarrow> opens req \<Longrightarrow> request_id req = Some fd \<Longrightarrow>
    so_type (ss_slot ss (HASH_ID fd)) = T_RESERVE \<and> so_id (ss_slot ss (HASH_ID fd)) = fd"
  by (simp add: numbered_def)

lemma numbered_sorted: "numbered ss \<Longrightarrow> sorted_wrt (\<lambda>q req. opens req \<longrightarrow> request_id q \<noteq> request_id req) (ss_pipe ss)"
  by (simp add: numbered_def)

text \<open>A socket that has not ended.\<close>

definition alive :: "int \<Rightarrow> socket_server \<Rightarrow> bool" where
  "alive fd ss \<longleftrightarrow> so_id (ss_slot ss (HASH_ID fd)) = fd \<and> \<not> ended (so_type (ss_slot ss (HASH_ID fd)))"

fun closes :: "int \<Rightarrow> occurrence \<Rightarrow> bool" where
  "closes fd (Reports (Some (SOCKET_CLOSE, m))) = (m_id m = fd)"
| "closes fd _ = False"

fun hands :: "int \<Rightarrow> occurrence \<Rightarrow> bool" where
  "hands fd (Hands_Out fd') = (fd' = fd)"
| "hands fd (Reports (Some (SOCKET_ACCEPT, m))) = (m_ud m = fd)"
| "hands fd _ = False"

definition counts :: "int \<Rightarrow> socket_server \<Rightarrow> occurrence \<Rightarrow> socket_server \<Rightarrow> bool" where
  "counts fd ss l ss' \<longleftrightarrow> of_bool (closes fd l) + of_bool (alive fd ss') \<le> of_bool (hands fd l) + (of_bool (alive fd ss) :: nat)"

lemma countsI:
  assumes "alive fd ss' \<longrightarrow> alive fd ss \<or> hands fd l" "closes fd l \<longrightarrow> alive fd ss \<and> \<not> alive fd ss'"
  shows "counts fd ss l ss'"
  using assms by (cases "alive fd ss'"; cases "alive fd ss"; cases "hands fd l"; cases "closes fd l") (simp_all add: counts_def)

lemma closes_iff: "closes fd l \<longleftrightarrow> (\<exists>m. l = Reports (Some (SOCKET_CLOSE, m)) \<and> m_id m = fd)"
  by (cases "(fd, l)" rule: closes.cases) auto

lemma opens_request_id: "opens req \<Longrightarrow> \<exists>fd. request_id req = Some fd"
  by (cases req) (simp_all add: opens_def)

text \<open>A step on one slot.\<close>

lemma lives_slots:
  assumes "lives k ss (r, ss')"
  shows "so_id (ss_slot ss' j) = so_id (ss_slot ss j)" "so_protocol (ss_slot ss' j) = so_protocol (ss_slot ss j)"
    "so_type (ss_slot ss' j) = T_RESERVE \<longleftrightarrow> so_type (ss_slot ss j) = T_RESERVE"
    "so_type (ss_slot ss j) = T_INVALID \<Longrightarrow> so_type (ss_slot ss' j) = T_INVALID"
    "ended (so_type (ss_slot ss j)) \<Longrightarrow> ended (so_type (ss_slot ss' j))" "ss_pipe ss' = ss_pipe ss"
  using assms by (cases "j = k"; simp add: lives_def socket_keeps_def only_slot_def)+

lemma lives_numbered:
  assumes "lives k ss (r, ss')" "numbered ss"
  shows "numbered ss'"
  using assms(2) lives_slots(4) [OF assms(1)] unfolding numbered_def lives_slots(1,2,3,6) [OF assms(1)] by blast

lemma lives_counts:
  assumes "lives k ss (r, ss')" "numbered ss"
  shows "counts fd ss (Reports r) ss'"
proof -
  have keep: "alive fd ss' \<Longrightarrow> alive fd ss"
    using lives_slots(1,5) [OF assms(1), of "HASH_ID fd"] unfolding alive_def by metis
  have told: "alive fd ss \<and> \<not> alive fd ss'" if cl: "closes fd (Reports r)"
  proof -
    obtain m where m: "r = Some (SOCKET_CLOSE, m)" "m_id m = fd" using cl unfolding closes_iff by blast
    have id: "so_id (ss_slot ss k) = fd" and e: "\<not> ended (so_type (ss_slot ss k))" "ended (so_type (ss_slot ss' k))"
      using assms(1) m unfolding lives_def by simp_all
    have k: "HASH_ID fd = k" using numbered_hash [OF assms(2), of k] e(1) unfolding id by simp
    show ?thesis unfolding alive_def k using id e by simp
  qed
  show ?thesis by (rule countsI) (use keep told in blast)+
qed

text \<open>A request is taken out of the pipe.\<close>

lemma pop_numbered:
  assumes "numbered ss" "ss_pipe ss = req # pipe" "\<not> opens req"
  shows "numbered (ss\<lparr>ss_pipe := pipe\<rparr>)"
    "request_id req = Some fd \<Longrightarrow> so_id (ss_slot ss (HASH_ID fd)) = fd \<Longrightarrow> so_type (ss_slot ss (HASH_ID fd)) \<noteq> T_RESERVE"
proof -
  show "numbered (ss\<lparr>ss_pipe := pipe\<rparr>)" using assms by (simp add: numbered_def)
  show "so_type (ss_slot ss (HASH_ID fd)) \<noteq> T_RESERVE" if req: "request_id req = Some fd" and id: "so_id (ss_slot ss (HASH_ID fd)) = fd"
  proof
    assume "so_type (ss_slot ss (HASH_ID fd)) = T_RESERVE"
    then obtain q where q: "q \<in> set (ss_pipe ss)" "opens q" "request_id q = Some fd" using numbered_reserved [OF assms(1), of "HASH_ID fd"] unfolding id by auto
    then have "q \<in> set pipe" using assms(2,3) by auto
    then show False using numbered_sorted [OF assms(1)] assms(2) q req by fastforce
  qed
qed

lemma opened_numbered:
  assumes "numbered ss" "ss_pipe ss = req # pipe" "opens req" "request_id req = Some fd" "opened fd (ss\<lparr>ss_pipe := pipe\<rparr>) (r, ss')"
  shows "numbered ss'" "counts i ss (Reports r) ss'"
proof -
  let ?k = "HASH_ID fd"
  have old: "so_type (ss_slot ss ?k) = T_RESERVE" "so_id (ss_slot ss ?k) = fd" using numbered_opens [OF assms(1) _ assms(3,4)] assms(2) by simp_all
  have pipe: "ss_pipe ss' = pipe" and other: "\<And>j. j \<noteq> ?k \<Longrightarrow> ss_slot ss' j = ss_slot ss j"
    using assms(5) by (auto simp: opened_def only_slot_def)
  have new: "so_type (ss_slot ss' ?k) \<noteq> T_RESERVE" "so_type (ss_slot ss' ?k) \<noteq> T_INVALID \<Longrightarrow> so_id (ss_slot ss' ?k) = fd"
    using assms(5) by (auto simp: opened_def fresh_def)
  have diff: "HASH_ID fd' \<noteq> ?k" if "q \<in> set pipe" "opens q" "request_id q = Some fd'" for q fd'
  proof -
    have "request_id req \<noteq> request_id q" using numbered_sorted [OF assms(1)] assms(2) that(1,2) by (simp del: that(3))
    moreover have "so_id (ss_slot ss (HASH_ID fd')) = fd'" using numbered_opens [OF assms(1) _ that(2,3)] assms(2) that(1) by simp
    ultimately show ?thesis using old(2) assms(4) that(3) by auto
  qed
  have "HASH_ID (so_id (ss_slot ss' j)) = j" if "so_type (ss_slot ss' j) \<noteq> T_INVALID" for j
    using that new other [of j] numbered_hash [OF assms(1), of j] by (cases "j = ?k") simp_all
  moreover have "so_protocol (ss_slot ss' j) \<noteq> P_TCP \<and> (\<exists>q \<in> set pipe. opens q \<and> request_id q = Some (so_id (ss_slot ss' j)))"
    if res: "so_type (ss_slot ss' j) = T_RESERVE" for j
  proof -
    have j: "j \<noteq> ?k" using res new by auto
    then have t: "so_type (ss_slot ss j) = T_RESERVE" using res other by simp
    obtain q where q: "q \<in> set (ss_pipe ss)" "opens q" "request_id q = Some (so_id (ss_slot ss j))" "so_protocol (ss_slot ss j) \<noteq> P_TCP"
      using numbered_reserved [OF assms(1) t] by blast
    have "q \<noteq> req" using q(3) assms(4) numbered_hash [OF assms(1), of j] t j by auto
    then show ?thesis using q other [OF j] assms(2) by auto
  qed
  moreover have "so_type (ss_slot ss' (HASH_ID fd')) = T_RESERVE \<and> so_id (ss_slot ss' (HASH_ID fd')) = fd'"
    if "q \<in> set pipe" "opens q" "request_id q = Some fd'" for q fd'
    using numbered_opens [OF assms(1) _ that(2,3)] that(1) diff [OF that] other assms(2) by simp
  moreover have "sorted_wrt (\<lambda>q req. opens req \<longrightarrow> request_id q \<noteq> request_id req) pipe" using numbered_sorted [OF assms(1)] assms(2) by simp
  ultimately show "numbered ss'" by (simp add: numbered_def pipe)
  have "alive i ss' \<Longrightarrow> alive i ss"
    by (cases "HASH_ID i = ?k") (use old new other in \<open>simp_all add: alive_def\<close>)
  moreover have "\<not> closes i (Reports r)" using assms(5) by (auto simp: opened_def closes_iff)
  ultimately show "counts i ss (Reports r) ss'" by (intro countsI) blast+
qed

text \<open>A number is handed out, a connection is accepted, another call is made.\<close>

lemma hands_out_numbered:
  assumes "numbered ss" "hands_out fd ss ss'" "unnamed fd ss"
  shows "numbered ss'" "counts i ss (Hands_Out fd) ss'"
proof -
  let ?k = "HASH_ID fd"
  obtain req where req: "opens req" "request_id req = Some fd" "ss_pipe ss' = ss_pipe ss @ [req]" using assms(2) by (auto simp: hands_out_def)
  have other: "\<And>j. j \<noteq> ?k \<Longrightarrow> ss_slot ss' j = ss_slot ss j" and new: "so_type (ss_slot ss' ?k) = T_RESERVE" "so_id (ss_slot ss' ?k) = fd"
      "so_protocol (ss_slot ss' ?k) \<noteq> P_TCP" and old: "so_type (ss_slot ss ?k) = T_INVALID"
    using assms(2) by (auto simp: hands_out_def reserved_def)
  have "HASH_ID (so_id (ss_slot ss' j)) = j" if "so_type (ss_slot ss' j) \<noteq> T_INVALID" for j
    using that new other [of j] numbered_hash [OF assms(1), of j] by (cases "j = ?k") simp_all
  moreover have "so_protocol (ss_slot ss' j) \<noteq> P_TCP \<and> (\<exists>q \<in> set (ss_pipe ss'). opens q \<and> request_id q = Some (so_id (ss_slot ss' j)))"
    if "so_type (ss_slot ss' j) = T_RESERVE" for j
    using that new req other [of j] numbered_reserved [OF assms(1), of j] by (cases "j = ?k") auto
  moreover have "so_type (ss_slot ss' (HASH_ID fd')) = T_RESERVE \<and> so_id (ss_slot ss' (HASH_ID fd')) = fd'"
    if "q \<in> set (ss_pipe ss')" "opens q" "request_id q = Some fd'" for q fd'
  proof (cases "q = req")
    case True
    then show ?thesis using that req new by simp
  next
    case False
    then have "so_type (ss_slot ss (HASH_ID fd')) = T_RESERVE \<and> so_id (ss_slot ss (HASH_ID fd')) = fd'"
      using numbered_opens [OF assms(1) _ that(2,3)] that(1) req(3) by simp
    moreover from this have "HASH_ID fd' \<noteq> ?k" using old by auto
    ultimately show ?thesis using other by simp
  qed
  moreover have "sorted_wrt (\<lambda>q req. opens req \<longrightarrow> request_id q \<noteq> request_id req) (ss_pipe ss')"
    using numbered_sorted [OF assms(1)] assms(3) req by (simp add: unnamed_def sorted_wrt_append)
  ultimately show "numbered ss'" by (simp add: numbered_def)
  have "alive i ss' \<Longrightarrow> alive i ss \<or> i = fd" using new(2) other unfolding alive_def by metis
  then show "counts i ss (Hands_Out fd) ss'" by (intro countsI) auto
qed

lemma calls_numbered:
  assumes "numbered ss" "calls ss ss'" "\<not> closes i l"
  shows "numbered ss'" "counts i ss l ss'"
proof -
  have same: "so_id (ss_slot ss' j) = so_id (ss_slot ss j)" "so_type (ss_slot ss' j) = so_type (ss_slot ss j)"
    "so_protocol (ss_slot ss' j) = so_protocol (ss_slot ss j)" for j using assms(2) by (simp_all add: calls_def)
  obtain reqs where "ss_pipe ss' = ss_pipe ss @ reqs" "\<forall>req \<in> set reqs. \<not> opens req" using assms(2) by (auto simp: calls_def)
  moreover from this(2) have "sorted_wrt (\<lambda>q req. opens req \<longrightarrow> request_id q \<noteq> request_id req) reqs"
    by (induction reqs) auto
  ultimately show "numbered ss'" using assms(1) unfolding numbered_def same by (auto simp: sorted_wrt_append)
  show "counts i ss l ss'" using assms(3) by (simp add: counts_def alive_def same)
qed

lemma accept_numbered:
  assumes "numbered ss" "report_accept os k ss = Some ((n, m), ss')" "so_type (ss_slot ss k) \<noteq> T_INVALID"
  shows "numbered ss'" "counts i ss (Reports (if n > 0 then Some (SOCKET_ACCEPT, m) else if n < 0 then Some (SOCKET_ERR, m) else None)) ss'"
proof -
  let ?l = "Reports (if n > 0 then Some (SOCKET_ACCEPT, m) else if n < 0 then Some (SOCKET_ERR, m) else None)"
  note r = report_accept_result [OF assms(2,3)]
  have quiet: "\<not> closes i ?l" by (simp add: closes_iff)
  have "numbered ss' \<and> counts i ss ?l ss'"
  proof (cases "ss_slot ss' = ss_slot ss")
    case True
    then have "calls ss ss'" using r by (simp add: calls_def)
    then show ?thesis using calls_numbered [OF assms(1) _ quiet] by blast
  next
    case False
    then obtain fd where fd: "so_type (ss_slot ss (HASH_ID fd)) = T_INVALID" "\<And>j. j \<noteq> HASH_ID fd \<Longrightarrow> same_socket (ss_slot ss j) (ss_slot ss' j)"
        "n \<le> 0 \<and> so_type (ss_slot ss' (HASH_ID fd)) = T_INVALID \<or>
         n = 1 \<and> m_ud m = fd \<and> so_type (ss_slot ss' (HASH_ID fd)) = T_PACCEPT \<and> fresh fd (ss_slot ss' (HASH_ID fd))"
      using r by blast
    let ?k = "HASH_ID fd"
    have pipe: "ss_pipe ss' = ss_pipe ss" using r by simp
    note same = same_socket_fields [OF fd(2)]
    have new: "so_type (ss_slot ss' ?k) \<noteq> T_RESERVE" "so_type (ss_slot ss' ?k) \<noteq> T_INVALID \<Longrightarrow> so_id (ss_slot ss' ?k) = fd \<and> hands fd ?l"
      using fd(3) by (auto simp: fresh_def)
    have "HASH_ID (so_id (ss_slot ss' j)) = j" if "so_type (ss_slot ss' j) \<noteq> T_INVALID" for j
      using that new same [of j] numbered_hash [OF assms(1), of j] by (cases "j = ?k") simp_all
    moreover have "so_protocol (ss_slot ss' j) \<noteq> P_TCP \<and> (\<exists>q \<in> set (ss_pipe ss'). opens q \<and> request_id q = Some (so_id (ss_slot ss' j)))"
      if "so_type (ss_slot ss' j) = T_RESERVE" for j
      using that new same [of j] numbered_reserved [OF assms(1), of j] by (cases "j = ?k") (simp_all add: pipe)
    moreover have "so_type (ss_slot ss' (HASH_ID fd')) = T_RESERVE \<and> so_id (ss_slot ss' (HASH_ID fd')) = fd'"
      if "q \<in> set (ss_pipe ss')" "opens q" "request_id q = Some fd'" for q fd'
    proof -
      have old: "so_type (ss_slot ss (HASH_ID fd')) = T_RESERVE" "so_id (ss_slot ss (HASH_ID fd')) = fd'"
        using numbered_opens [OF assms(1) _ that(2,3)] that(1) by (simp_all add: pipe)
      then have "HASH_ID fd' \<noteq> ?k" using fd(1) by auto
      then show ?thesis using same [of "HASH_ID fd'"] old by simp
    qed
    ultimately have "numbered ss'" using numbered_sorted [OF assms(1)] by (simp add: numbered_def pipe)
    moreover have "alive i ss' \<longrightarrow> alive i ss \<or> hands i ?l"
    proof (cases "HASH_ID i = ?k")
      case True
      then show ?thesis using new(2) unfolding alive_def by auto
    next
      case False
      then show ?thesis using same [OF False] unfolding alive_def by simp
    qed
    ultimately show ?thesis using quiet countsI by blast
  qed
  then show "numbered ss'" "counts i ss ?l ss'" by simp_all
qed

text \<open>Only the slots and the pipe count.\<close>

lemma numbered_cong: "ss_slot ss' = ss_slot ss \<Longrightarrow> ss_pipe ss' = ss_pipe ss \<Longrightarrow> numbered ss' = numbered ss"
  by (simp add: numbered_def)

lemma alive_cong: "ss_slot ss' = ss_slot ss \<Longrightarrow> alive fd ss' = alive fd ss"
  by (simp add: alive_def)

lemma counts_cong: "ss_slot ss1 = ss_slot ss \<Longrightarrow> ss_slot ss1' = ss_slot ss' \<Longrightarrow> counts fd ss1 l ss1' = counts fd ss l ss'"
  by (simp add: counts_def alive_def)

lemma dispatch_numbered:
  assumes "posix os" "numbered ss" "dispatch_event os k e ss = Some (r, ss')"
  shows "numbered ss' \<and> counts i ss (Reports r) ss'"
proof (cases "so_type (ss_slot ss k) = T_LISTEN")
  case True
  then obtain n m where a: "report_accept os k ss = Some ((n, m), ss')"
      "r = (if n > 0 then Some (SOCKET_ACCEPT, m) else if n < 0 then Some (SOCKET_ERR, m) else None)"
    using assms(3) by (auto simp: dispatch_event_def bind_Some_iff split: if_splits)
  then show ?thesis using accept_numbered [OF assms(2) a(1)] True by simp
next
  case False
  have "active (ss_slot ss k)" if "so_type (ss_slot ss k) \<noteq> T_INVALID"
    using that numbered_reserved [OF assms(2), of k] by (auto simp: active_def)
  then have "steps k ss (r, ss')" using dispatch_event_steps [OF assms(1,3) False] by simp
  then have "lives k ss (r, ss')" by (simp add: steps_def keeps_def)
  then show ?thesis using lives_numbered [OF _ assms(2)] lives_counts [OF _ assms(2)] by blast
qed

lemma poll_event_numbered:
  assumes "posix os" "numbered ss" "poll_event os ss = Some (r, ss')"
  shows "numbered ss' \<and> counts i ss (Reports r) ss'"
proof -
  let ?e = "ss_ev ss ! ss_event_index ss" and ?ss1 = "ss\<lparr>ss_event_index := ss_event_index ss + 1\<rparr>"
  have n1: "numbered ?ss1" using assms(2) numbered_cong [of ?ss1 ss] by simp
  have c1: "counts i ?ss1 l ss' = counts i ss l ss'" for l by (rule counts_cong) simp_all
  show ?thesis
  proof (cases "ev_s ?e")
    case None
    then have "r = None" "ss' = ?ss1" using assms(3) by (auto simp: poll_event_def Let_def split: if_splits)
    then show ?thesis using n1 countsI [of i ss' ss] alive_cong [of ?ss1 ss] by (simp add: closes_iff)
  next
    case (Some k)
    then have "dispatch_event os k ?e ?ss1 = Some (r, ss')" using assms(3) by (auto simp: poll_event_def Let_def split: if_splits)
    then show ?thesis using dispatch_numbered [OF assms(1) n1, where i = i] c1 by blast
  qed
qed

lemma clear_closed_state [simp]: "ss_slot (clear_closed_event r ss) = ss_slot ss" "ss_pipe (clear_closed_event r ss) = ss_pipe ss"
  by (auto simp: clear_closed_event_def Let_def split: option.splits)

lemma ctrl_cmd_numbered:
  assumes "numbered ss" "ss_pipe ss = req # pipe" "ctrl_cmd os req (ss\<lparr>ss_pipe := pipe\<rparr>) = Some (r, ss')"
  shows "numbered ss' \<and> counts i ss (Reports r) ss'"
proof (cases "request_id req")
  case None
  then have req: "req = R_Exit" by (cases req) simp_all
  then have "r = Some (SOCKET_EXIT, exit_message)" "ss' = ss\<lparr>ss_pipe := pipe\<rparr>" using assms(3) by (auto simp: ctrl_cmd_def)
  then show ?thesis using pop_numbered(1) [OF assms(1,2)] countsI [of i ss' ss] alive_cong [of ss' ss] by (simp add: req closes_iff)
next
  case (Some fd)
  show ?thesis
  proof (cases "opens req")
    case True
    then show ?thesis using opened_numbered [OF assms(1,2) True Some ctrl_cmd_opened [OF assms(3) Some True]] by blast
  next
    case False
    note pop = pop_numbered [OF assms(1,2) False]
    have "lives (HASH_ID fd) (ss\<lparr>ss_pipe := pipe\<rparr>) (r, ss')"
      using ctrl_cmd_lives [OF assms(3) Some False] pop(2) [OF Some] by (simp add: socket_invalid_def)
    then have "numbered ss'" "counts i (ss\<lparr>ss_pipe := pipe\<rparr>) (Reports r) ss'"
      using lives_numbered [OF _ pop(1)] lives_counts [OF _ pop(1)] by blast+
    then show ?thesis using counts_cong [of "ss\<lparr>ss_pipe := pipe\<rparr>" ss ss' ss'] by simp
  qed
qed

lemma event_round_numbered:
  assumes "posix os" "numbered ss" "event_round os ss = Some ((r, more1), ss')"
  shows "numbered ss' \<and> counts i ss (Reports r) ss'"
proof (cases "ss_event_index ss = ss_event_n ss")
  case False
  then have "poll_event os ss = Some (r, ss')" using assms(3) by (auto simp: event_round_def bind_Some_iff)
  then show ?thesis using poll_event_numbered assms(1,2) by blast
next
  case True
  obtain q ss1 where q: "syscall os Poll_Wait ss = (q, ss1)" by fastforce
  define ss2 where "ss2 = ss1\<lparr>ss_checkctrl := True, ss_event_index := 0, ss_event_n := nat (sr_ret q), ss_ev := sr_events q\<rparr>"
  have same: "ss_slot ss2 = ss_slot ss" "ss_pipe ss2 = ss_pipe ss" using syscall_eq [OF q] by (simp_all add: ss2_def)
  show ?thesis
  proof (cases "sr_ret q \<le> 0")
    case wait: True
    then have "r = None" "ss_slot ss' = ss_slot ss" "ss_pipe ss' = ss_pipe ss"
      using assms(3) True q same by (auto simp: event_round_def Let_def ss2_def server_simps split: if_splits)
    then show ?thesis using numbered_cong [of ss' ss] assms(2) alive_cong [of ss' ss] countsI [of i ss' ss "Reports None"] by (simp add: closes_iff)
  next
    case False
    then have "poll_event os ss2 = Some (r, ss')" using assms(3) True q by (auto simp: event_round_def Let_def ss2_def bind_Some_iff)
    then show ?thesis
      using poll_event_numbered [OF assms(1) _ , of ss2 r ss' i] numbered_cong [OF same] assms(2) counts_cong [OF same(1), of ss' ss'] by simp
  qed
qed

lemma poll_round_numbered:
  assumes "posix os" "numbered ss" "poll_round os ss = Some ((r, more1), ss')"
  shows "numbered ss' \<and> counts i ss (Reports r) ss'"
proof (cases "ss_checkctrl ss")
  case False
  then show ?thesis using assms event_round_numbered by (simp add: poll_round_def)
next
  case True
  show ?thesis
  proof (cases "ss_pipe ss")
    case Nil
    let ?s = "ss\<lparr>ss_checkctrl := False\<rparr>"
    have "event_round os ?s = Some ((r, more1), ss')" using assms(3) True Nil by (simp add: poll_round_def)
    moreover have "numbered ?s" using numbered_cong [of ?s ss] assms(2) by simp
    ultimately have "numbered ss' \<and> counts i ?s (Reports r) ss'" using event_round_numbered [OF assms(1)] by blast
    then show ?thesis using counts_cong [of ?s ss ss' ss'] by simp
  next
    case (Cons req pipe)
    then obtain ss1 where c: "ctrl_cmd os req (ss\<lparr>ss_pipe := pipe\<rparr>) = Some (r, ss1)" "ss' = clear_closed_event r ss1"
      using assms(3) True by (auto simp: poll_round_def bind_Some_iff)
    have "numbered ss1 \<and> counts i ss (Reports r) ss1" by (rule ctrl_cmd_numbered [OF assms(2) Cons c(1)])
    then show ?thesis using numbered_cong [of ss' ss1] counts_cong [of ss ss ss' ss1] c(2) by simp
  qed
qed

lemma server_step_numbered:
  assumes "posix os" "server_step os ss l ss'" "numbered ss"
  shows "numbered ss' \<and> counts i ss l ss'"
proof -
  have call: ?thesis if "calls ss ss'" "\<nexists>r. l = Reports r"
    using calls_numbered [OF assms(3) that(1), of i l] that(2) by (auto simp: closes_iff)
  have hand: ?thesis if "(0 \<le> fd \<longrightarrow> hands_out fd ss ss') \<and> (fd < 0 \<longrightarrow> calls ss ss')" "unnamed fd ss" "l = Hands_Out fd" for fd
    using that hands_out_numbered [OF assms(3) _ that(2)] calls_numbered [OF assms(3), of ss' i l]
    by (cases "0 \<le> fd") (auto simp: closes_iff)
  have req: ?thesis if "\<not> opens q" "ss' = send_request q ss" "l = Called" for q
    using call calls_request [OF calls_refl that(1)] that(2,3) by auto
  show ?thesis using assms(2)
  proof cases
    case (poll r more1)
    then show ?thesis using poll_round_numbered [OF assms(1,3)] by blast
  next
    case (connect q addr port fd)
    then show ?thesis using hand connect_hands_out by blast
  next
    case (listen q host port backlog fd)
    then show ?thesis using hand listen_hands_out by blast
  next
    case (bind q sock fd)
    then show ?thesis using hand bind_hands_out by blast
  next
    case (udp q host port fd)
    then show ?thesis using hand udp_hands_out by blast
  next
    case (send buf n)
    then show ?thesis using call send_calls by blast
  next
    case (send_low buf n)
    then show ?thesis using call send_lowpriority_calls by blast
  next
    case (udp_send a buf n)
    then show ?thesis using call udp_send_calls by blast
  next
    case (udp_connect fd addr port n)
    then show ?thesis using call udp_connect_calls by blast
  next
    case (updatetime time)
    then show ?thesis using call by (simp add: calls_def socket_server_updatetime_def)
  next
    case (info ntop si)
    then show ?thesis using call info_loop_calls [of os ntop _ _ ss si ss' ss] by (simp add: socket_server_info_def)
  qed (use req in \<open>simp_all add: socket_server_exit_def socket_server_close_def socket_server_shutdown_def socket_server_start_def
    socket_server_pause_def socket_server_nodelay_def\<close>)
qed

lemma server_run_numbered:
  "server_run os ss ls ss' \<Longrightarrow> posix os \<Longrightarrow> numbered ss \<Longrightarrow>
    numbered ss' \<and> length (filter (closes fd) ls) + of_bool (alive fd ss') \<le> length (filter (hands fd) ls) + of_bool (alive fd ss)"
proof (induction rule: server_run.induct)
  case (run ss l ss1 ls ss2)
  then have n: "numbered ss1" "counts fd ss l ss1" using server_step_numbered by blast+
  have len: "length (filter P (l # ls)) = of_bool (P l) + length (filter P ls)" for P by simp
  have "numbered ss2" "length (filter (closes fd) ls) + of_bool (alive fd ss2) \<le> length (filter (hands fd) ls) + of_bool (alive fd ss1)"
    using run n(1) by simp_all
  then show ?case using n(2) unfolding counts_def len by linarith
qed simp

lemma create_numbered: "socket_server_create os time mem = Some (True, ss) \<Longrightarrow> numbered ss \<and> (\<forall>fd. \<not> alive fd ss)"
  by (auto simp: socket_server_create_def Let_def numbered_def alive_def empty_socket_def server_simps split: prod.splits if_splits)

lemma next_id_less: "fst (next_id alloc) < 2 ^ 31"
  unfolding next_id_eq by (simp add: zmod_int)

lemma reserve_loop_less: "reserve_loop n ss = (fd, ss') \<Longrightarrow> fd < 2 ^ 31"
proof (induction n ss arbitrary: ss' rule: reserve_loop.induct)
  case (2 n ss)
  obtain i alloc where i: "next_id (ss_alloc_id ss) = (i, alloc)" by fastforce
  show ?case
  proof (cases "so_type (ss_slot ss (HASH_ID i)) = T_INVALID")
    case True
    then show ?thesis using 2(2) i next_id_less [of "ss_alloc_id ss"] by auto
  next
    case False
    then show ?thesis using 2(1) [OF i [symmetric] refl refl] 2(2) i by simp
  qed
qed simp

text \<open>C38. A number is handed out if and only if one of the slots is free: it is not negative, its slot was free and
  is reserved for it, and the other slots are as they were.\<close>

theorem reserve_id_spec:
  "(case reserve_id ss of (fd, ss') \<Rightarrow>
     if \<exists>k. k < MAX_SOCKET \<and> so_type (ss_slot ss k) = T_INVALID
     then 0 \<le> fd \<and> fd < 2 ^ 31 \<and> so_type (ss_slot ss (HASH_ID fd)) = T_INVALID \<and> HASH_ID fd < MAX_SOCKET \<and>
       ss_slot ss' = (ss_slot ss)(HASH_ID fd := (ss_slot ss (HASH_ID fd))
         \<lparr>so_type := T_RESERVE, so_id := fd, so_protocol := P_UNKNOWN, so_udpconnecting := 0, so_fd := -1\<rparr>)
     else fd = -1 \<and> ss_slot ss' = ss_slot ss)"
proof -
  obtain fd ss' where r: "reserve_id ss = (fd, ss')" by fastforce
  have h: "HASH_ID fd < MAX_SOCKET" by (simp add: HASH_ID_def MAX_SOCKET_def)
  show ?thesis
  proof (cases "fd = -1")
    case True
    then show ?thesis using reserve_id_result [OF r] reserve_id_full [of ss ss'] r by auto
  next
    case False
    then show ?thesis using reserve_id_result [OF r] reserve_loop_less [OF r [unfolded reserve_id_def]] r h
      by (auto simp: reserved_def)
  qed
qed

text \<open>C5. Whatever the order of the calls and of the rounds of the poll, and whatever the system answers
  (but that a write writes no more than it was given), the end of a socket is told at most as often as its number
  was handed out: once for each socket.\<close>

theorem close_told_once:
  assumes "posix os" "socket_server_create os time mem = Some (True, ss)" "server_run os ss ls ss'"
  shows "length (filter (closes fd) ls) \<le> length (filter (hands fd) ls)"
  using server_run_numbered [OF assms(3,1), of fd] create_numbered [OF assms(2)] by simp

text \<open>C39. When a request that opens a socket is carried out, its slot is reserved for its number, as \<^verbatim>\<open>new_fd\<close>
  asserts.
\<close>

theorem opening_finds_slot:
  assumes "posix os" "socket_server_create os time mem = Some (True, ss)" "server_run os ss ls ss'"
    "req \<in> set (ss_pipe ss')" "opens req" "request_id req = Some fd"
  shows "so_type (ss_slot ss' (HASH_ID fd)) = T_RESERVE \<and> so_id (ss_slot ss' (HASH_ID fd)) = fd"
  using server_run_numbered [OF assms(3,1), of 0] create_numbered [OF assms(2)] numbered_opens [OF _ assms(4-6)] by simp

subsection \<open>A server that opens a socket and closes it\<close>

definition zero_result :: sys_result where
  "zero_result = \<lparr>sr_ret = 0, sr_value = 0, sr_value2 = 0, sr_errno = 0, sr_data = [], sr_name = None, sr_port = 0, sr_v4 = True,
     sr_address = [], sr_addrs = [], sr_events = []\<rparr>"

definition idle_system :: system where
  "idle_system = \<lparr>answer = (\<lambda>tr c. zero_result), strerror = (\<lambda>e. []), gai_strerror = (\<lambda>e. [])\<rparr>"

definition zero_socket :: socket where
  "zero_socket = \<lparr>so_opaque = 0, so_high = [], so_low = [], so_wb_size = 0, so_stat = zero_stat, so_sending = 0, so_fd = 0, so_id = 0,
     so_type = T_INVALID, so_protocol = P_TCP, so_reading = False, so_writing = False, so_closing = False, so_udpconnecting = 0,
     so_warn_size = 0, so_size = 0, so_udp_address = [], so_dw_offset = 0, so_dw_buffer = None\<rparr>"

definition zero_server :: socket_server where
  "zero_server = \<lparr>ss_time = 0, ss_reserve_fd = 0, ss_recvctrl_fd = 0, ss_sendctrl_fd = 0, ss_checkctrl = False, ss_event_fd = 0,
     ss_alloc_id = 0, ss_event_n = 0, ss_event_index = 0, ss_ev = [], ss_slot = (\<lambda>k. zero_socket), ss_pipe = [], ss_trace = [],
     ss_freed = []\<rparr>"

definition example_labels :: "occurrence list" where
  "example_labels = [Hands_Out 1, Reports (Some (SOCKET_OPEN, \<lparr>m_opaque = 7, m_id = 1, m_ud = 0, m_data = Text ''binding''\<rparr>)), Called,
     Reports (Some (SOCKET_CLOSE, \<lparr>m_opaque = 7, m_id = 1, m_ud = 0, m_data = No_Data\<rparr>))]"

lemma idle_syscall: "syscall idle_system c ss = (zero_result, ss\<lparr>ss_trace := ss_trace ss @ [(c, zero_result)]\<rparr>)"
  by (simp add: syscall_def idle_system_def Let_def)

lemma zero_result_simps [simp]: "sr_ret zero_result = 0" "sr_value zero_result = 0" "sr_value2 zero_result = 0"
  by (simp_all add: zero_result_def)

lemma reserve_id_free:
  "next_id (ss_alloc_id ss) = (fd, alloc) \<Longrightarrow> so_type (ss_slot ss (HASH_ID fd)) = T_INVALID \<Longrightarrow>
    reserve_id ss = (fd, put_slot (HASH_ID fd) (reserved fd (ss_slot ss (HASH_ID fd))) (ss\<lparr>ss_alloc_id := alloc\<rparr>))"
proof -
  have m: "reserve_id ss = reserve_loop (Suc 65535) ss" by (simp add: reserve_id_def MAX_SOCKET_def)
  assume "next_id (ss_alloc_id ss) = (fd, alloc)" "so_type (ss_slot ss (HASH_ID fd)) = T_INVALID"
  then show ?thesis unfolding m reserve_loop.simps(2) by (simp add: reserved_def)
qed

lemma example_server:
  obtains ss where "socket_server_create idle_system 0 zero_server = Some (True, ss)" "ss_pipe ss = []" "ss_alloc_id ss = 0" "ss_checkctrl ss"
    "ss_slot ss = (\<lambda>k. zero_socket)"
  by (simp add: socket_server_create_def idle_syscall Let_def call_def FD_SETSIZE_def empty_socket_def zero_server_def zero_socket_def)

lemma hash_one: "HASH_ID 1 = 1"
  by (simp add: HASH_ID_def MAX_SOCKET_def)

lemma example_bind:
  obtains ss s1 where "socket_server_create idle_system 0 zero_server = Some (True, ss)" "server_step idle_system ss (Hands_Out 1) s1"
    "ss_pipe s1 = [R_Bind 1 5 7]" "ss_slot s1 1 = reserved 1 zero_socket" "ss_checkctrl s1"
proof -
  obtain ss where ss: "socket_server_create idle_system 0 zero_server = Some (True, ss)" "ss_pipe ss = []" "ss_alloc_id ss = 0" "ss_checkctrl ss"
      "ss_slot ss = (\<lambda>k. zero_socket)" by (rule example_server)
  have r: "reserve_id ss = (1, put_slot 1 (reserved 1 zero_socket) (ss\<lparr>ss_alloc_id := 1\<rparr>))"
    using reserve_id_free [of ss 1 1] ss(3,5) by (simp add: next_id_def hash_one zero_socket_def)
  obtain s1 where s1: "socket_server_bind 7 5 ss = (1, s1)" "ss_pipe s1 = [R_Bind 1 5 7]" "ss_slot s1 1 = reserved 1 zero_socket" "ss_checkctrl s1"
    using r ss by (simp add: socket_server_bind_def send_request_def put_slot_def)
  have "server_step idle_system ss (Hands_Out 1) s1" by (rule server_step.bind [OF s1(1)]) (simp add: unnamed_def ss)
  then show thesis using that ss(1) s1(2-) by blast
qed

lemmas example_simps = poll_round_def ctrl_cmd_def bind_socket_def new_fd_def idle_syscall hash_one Let_def reserved_def zero_socket_def
  upd_slot_def put_slot_def enable_read_def clear_closed_event_def call_def set_type_def ID_TAG16_def MAX_SOCKET_P_def

lemma example_poll:
  assumes "ss_pipe s1 = R_Bind 1 5 7 # pipe" "ss_slot s1 1 = reserved 1 zero_socket" "ss_checkctrl s1"
  obtains s2 where "poll_round idle_system s1 = Some ((Some (SOCKET_OPEN, \<lparr>m_opaque = 7, m_id = 1, m_ud = 0, m_data = Text ''binding''\<rparr>), True), s2)"
    "ss_pipe s2 = pipe" "ss_checkctrl s2" "so_type (ss_slot s2 1) = T_BIND" "so_id (ss_slot s2 1) = 1" "so_opaque (ss_slot s2 1) = 7"
    "so_protocol (ss_slot s2 1) = P_TCP" "so_sending (ss_slot s2 1) = 0"
  using assms by (simp add: example_simps)

lemma example_run:
  "\<exists>ss ss'. socket_server_create idle_system 0 zero_server = Some (True, ss) \<and> server_run idle_system ss example_labels ss'"
proof -
  let ?cl = "\<lparr>m_opaque = 7, m_id = 1, m_ud = 0, m_data = No_Data\<rparr>"
  obtain ss s1 where s1: "socket_server_create idle_system 0 zero_server = Some (True, ss)" "server_step idle_system ss (Hands_Out 1) s1"
      "ss_pipe s1 = [R_Bind 1 5 7]" "ss_slot s1 1 = reserved 1 zero_socket" "ss_checkctrl s1" by (rule example_bind)
  obtain s2 where s2: "poll_round idle_system s1 = Some ((Some (SOCKET_OPEN, \<lparr>m_opaque = 7, m_id = 1, m_ud = 0, m_data = Text ''binding''\<rparr>), True), s2)"
      "ss_pipe s2 = []" "ss_checkctrl s2" "so_type (ss_slot s2 1) = T_BIND" "so_id (ss_slot s2 1) = 1" "so_opaque (ss_slot s2 1) = 7"
    using example_poll [OF s1(3-5)] by metis
  let ?s3 = "socket_server_shutdown 7 1 s2"
  have s3: "ss_pipe ?s3 = [R_Close 1 True 7]" "ss_slot ?s3 = ss_slot s2" "ss_checkctrl ?s3"
    using s2(2,3) by (simp_all add: socket_server_shutdown_def send_request_def)
  obtain s4 where s4: "poll_round idle_system ?s3 = Some ((Some (SOCKET_CLOSE, ?cl), True), s4)"
    using s3 s2(4-6) by (simp add: poll_round_def ctrl_cmd_def close_socket_def force_close_def socket_invalid_def hash_one Let_def message_of_def)
  have "server_run idle_system ss example_labels s4"
    unfolding example_labels_def
    by (rule server_run.run [OF s1(2) server_run.run [OF server_step.poll [OF s2(1)] server_run.run [OF server_step.shutdown
      server_run.run [OF server_step.poll [OF s4] server_run.stop]]]])
  then show ?thesis using s1(1) by blast
qed

lemma idle_posix: "posix idle_system"
  by (simp add: posix_def idle_system_def)

theorem close_told_once_witness:
  "length (filter (closes 1) example_labels) = 1 \<and> length (filter (closes 1) example_labels) \<le> length (filter (hands 1) example_labels)"
proof -
  obtain ss ss' where "socket_server_create idle_system 0 zero_server = Some (True, ss)" "server_run idle_system ss example_labels ss'"
    using example_run by blast
  then have "length (filter (closes 1) example_labels) \<le> length (filter (hands 1) example_labels)" by (rule close_told_once [OF idle_posix])
  then show ?thesis by (simp add: example_labels_def)
qed

theorem opening_finds_slot_witness:
  "\<exists>ss s1. socket_server_create idle_system 0 zero_server = Some (True, ss) \<and> server_step idle_system ss (Hands_Out 1) s1 \<and>
    ss_pipe s1 = [R_Bind 1 5 7] \<and> so_type (ss_slot s1 (HASH_ID 1)) = T_RESERVE \<and> so_id (ss_slot s1 (HASH_ID 1)) = 1"
proof -
  obtain ss s1 where s1: "socket_server_create idle_system 0 zero_server = Some (True, ss)" "server_step idle_system ss (Hands_Out 1) s1"
      "ss_pipe s1 = [R_Bind 1 5 7]" by (rule example_bind)
  have "so_type (ss_slot s1 (HASH_ID 1)) = T_RESERVE \<and> so_id (ss_slot s1 (HASH_ID 1)) = 1"
    by (rule opening_finds_slot [OF idle_posix s1(1) server_run.run [OF s1(2) server_run.stop], of "R_Bind 1 5 7"]) (simp_all add: s1(3))
  with s1 show ?thesis by blast
qed

subsection \<open>Departures\<close>

text \<open>
  A number is returned before its socket is opened; what is sent to it then is not counted by \<^verbatim>\<open>inc_sending_ref\<close>, but
  is counted down, and the assertion fails.
\<close>

lemma early_send_aborts:
  "\<exists>s1 s2 s3 r. ss_pipe s1 = [R_Bind 1 5 7] \<and> socket_server_send idle_system \<lparr>sb_id = 1, sb_kind = SOCKET_BUFFER_MEMORY, sb_data = [65], sb_same = True\<rparr> s1 = Some (0, s2) \<and>
    poll_round idle_system s2 = Some (r, s3) \<and> poll_round idle_system s3 = None"
proof -
  let ?buf = "\<lparr>sb_id = 1, sb_kind = SOCKET_BUFFER_MEMORY, sb_data = [65], sb_same = True\<rparr>"
  obtain ss s1 where "socket_server_create idle_system 0 zero_server = Some (True, ss)" "server_step idle_system ss (Hands_Out 1) s1"
      and s1: "ss_pipe s1 = [R_Bind 1 5 7]" "ss_slot s1 1 = reserved 1 zero_socket" "ss_checkctrl s1" by (rule example_bind)
  let ?s2 = "send_request (R_Send High 1 (clone_buffer ?buf)) s1"
  have s2: "socket_server_send idle_system ?buf s1 = Some (0, ?s2)"
    using s1(2) by (simp add: socket_server_send_def Let_def hash_one reserved_def zero_socket_def socket_invalid_def can_direct_write_def
      queue_send_def inc_sending_ref_def)
  have p: "ss_pipe ?s2 = R_Bind 1 5 7 # [R_Send High 1 (clone_buffer ?buf)]" "ss_slot ?s2 1 = reserved 1 zero_socket" "ss_checkctrl ?s2"
    using s1 by (simp_all add: send_request_def)
  obtain s3 where s3: "\<exists>r. poll_round idle_system ?s2 = Some (r, s3)" "ss_pipe s3 = [R_Send High 1 (clone_buffer ?buf)]" "ss_checkctrl s3"
      "so_id (ss_slot s3 1) = 1" "so_protocol (ss_slot s3 1) = P_TCP" "so_sending (ss_slot s3 1) = 0"
    using example_poll [OF p] by metis
  let ?s = "s3\<lparr>ss_pipe := []\<rparr>"
  obtain r ss4 where q: "send_socket idle_system 1 (clone_buffer ?buf) High None ?s = (r, ss4)" by fastforce
  have "keeps 1 ?s (r, ss4)" using send_socket_steps [OF q] by (simp add: appends_def hash_one)
  then have "dec_sending_ref 1 ss4 = None" using s3(4-6) by (simp add: dec_sending_ref_def Let_def hash_one keeps_def lives_def socket_keeps_def)
  then have "poll_round idle_system s3 = None" using s3(2,3) q by (simp add: poll_round_def ctrl_cmd_def)
  then show ?thesis using s1(1) s2 s3(1) by blast
qed

text \<open>The flag of a closing socket stays when its slot is reserved again, and data for the new socket are dropped.\<close>

lemma stale_closing_drops:
  assumes "reserve_id ss = (fd, ss')" "0 \<le> fd" "so_closing (ss_slot ss (HASH_ID fd))" "sb_id buf = fd"
  shows "socket_server_send os buf ss' = Some (-1, free_buffer buf ss')"
  using reserve_id_result [OF assms(1)] assms(2-4) by (auto simp: socket_server_send_def Let_def reserved_def)

text \<open>The number after the largest one is 0, which callers take for no socket.\<close>

lemma zero_handed_out: "next_id 0x7fffffff = (0, 0)"
  by (simp add: next_id_eq take_bit_eq_mod)

text \<open>An object with its data elsewhere cannot wait in the lower list.\<close>

lemma low_object_aborts:
  "so_low (ss_slot ss k) = wb # ws \<Longrightarrow> pl_user (wb_payload wb) \<Longrightarrow> \<not> pl_same (wb_payload wb) \<Longrightarrow> send_buffer_lists os k ss = None"
  by (simp add: send_buffer_lists_def list_uncomplete_def)

text \<open>A datagram that was not sent directly waits without the address that is read for it.\<close>

lemma datagram_without_address:
  "so_dw_buffer s = Some dw \<Longrightarrow> \<exists>wb. so_high (raise_direct s) = wb # so_high s \<and> wb_udp wb = []"
  by (simp add: raise_direct_def Let_def)

text \<open>A host that is not found leaves the socket without direct writing for ever.\<close>

lemma udp_connect_stuck:
  assumes "\<not> socket_invalid (ss_slot ss (HASH_ID fd)) fd" "\<And>tr. sr_ret (answer os tr (Sys_Getaddrinfo addr port)) \<noteq> 0"
    "0 \<le> so_udpconnecting (ss_slot ss (HASH_ID fd))"
  shows "\<exists>ss'. socket_server_udp_connect os fd addr port ss = (-1, ss') \<and> ss_pipe ss' = ss_pipe ss \<and>
    \<not> can_direct_write (ss_slot ss' (HASH_ID fd)) fd"
  using assms by (auto simp: socket_server_udp_connect_def Let_def syscall_def can_direct_write_def upd_slot_def put_slot_def)

text \<open>
  The end of a socket that has been told is not told again, and its event in the batch is not taken back; when the
  slot has been reserved, the event fails the assertion of \<^verbatim>\<open>force_close\<close>.
\<close>

lemma stale_event_aborts:
  "so_type (ss_slot ss (HASH_ID fd)) = T_HALFCLOSE_READ \<Longrightarrow> so_id (ss_slot ss (HASH_ID fd)) = fd \<Longrightarrow>
    \<exists>ss'. close_socket os fd True ss = Some (None, ss')"
  "so_type (ss_slot ss k) = T_RESERVE \<Longrightarrow> \<not> ev_read e \<Longrightarrow> \<not> ev_write e \<Longrightarrow> \<not> ev_error e \<Longrightarrow> ev_eof e \<Longrightarrow> dispatch_event os k e ss = None"
  using force_close_some [of ss "HASH_ID fd" os]
  by (auto simp: close_socket_def socket_invalid_def Let_def dispatch_event_def event_eof_def force_close_def)

end
