(* ===== verification/Socket_Write.thy ===== *)
theory Socket_Write
  imports Socket_Run
begin

text \<open>
  What is written to the file of a socket: which operations write nothing, and how a round of sending moves the
  data that wait in the socket to its file.
\<close>

subsection \<open>What is written\<close>

fun is_write :: "sys_call \<Rightarrow> bool" where
  "is_write (Sys_Write _ _) = True"
| "is_write _ = False"

lemma written_other: "\<not> is_write c \<Longrightarrow> written i (tr @ [(c, r)]) = written i tr"
  by (cases c) (simp_all add: written_append)

definition unwritten :: "socket_server \<Rightarrow> socket_server \<Rightarrow> bool" where
  "unwritten z ss \<longleftrightarrow> (\<forall>i. written i (ss_trace ss) = written i (ss_trace z))"

lemma unwritten_refl [simp]: "unwritten z z"
  by (simp add: unwritten_def)

named_theorems unwritten_simps

lemma unwritten_trace: "ss_trace ss1 = ss_trace ss \<Longrightarrow> unwritten z ss1 = unwritten z ss"
  by (simp add: unwritten_def)

lemma unwritten_base [unwritten_simps]:
  "unwritten z (free_payloads ps ss) = unwritten z ss" "unwritten z (upd_slot k f ss) = unwritten z ss" "unwritten z (put_slot k s ss) = unwritten z ss"
  "unwritten z (set_type k t ss) = unwritten z ss" "unwritten z (ss\<lparr>ss_pipe := p\<rparr>) = unwritten z ss" "unwritten z (ss\<lparr>ss_ev := es\<rparr>) = unwritten z ss"
  "unwritten z (ss\<lparr>ss_reserve_fd := d\<rparr>) = unwritten z ss" "unwritten z (ss\<lparr>ss_alloc_id := a\<rparr>) = unwritten z ss"
  "unwritten z (repeat_event ss) = unwritten z ss" "unwritten z (send_request req ss) = unwritten z ss" "unwritten z (ss\<lparr>ss_event_index := j\<rparr>) = unwritten z ss"
  "unwritten z (stat_read k n ss) = unwritten z ss" "unwritten z (stat_write k n ss) = unwritten z ss" "unwritten z (ss\<lparr>ss_checkctrl := b\<rparr>) = unwritten z ss"
  by (auto intro!: unwritten_trace simp: server_simps repeat_event_def send_request_def)

lemma unwritten_snd [unwritten_simps]: "\<not> is_write c \<Longrightarrow> unwritten z (snd (syscall os c ss)) = unwritten z ss"
  by (simp add: unwritten_def server_simps written_other)

lemma unwritten_syscall: "syscall os c ss = (r, ss') \<Longrightarrow> \<not> is_write c \<Longrightarrow> unwritten z ss' = unwritten z ss"
  using unwritten_snd [of c z os ss] by simp

lemma unwritten_call [unwritten_simps]: "\<not> is_write c \<Longrightarrow> unwritten z (call os c ss) = unwritten z ss"
  by (simp add: call_def unwritten_simps)

lemma unwritten_snd_enable [unwritten_simps]:
  "unwritten z (snd (enable_write os k b ss)) = unwritten z ss" "unwritten z (snd (enable_read os k b ss)) = unwritten z ss"
  by (simp_all add: enable_write_def enable_read_def Let_def split_beta unwritten_simps)

lemma unwritten_enable:
  "enable_write os k b ss = (e, ss') \<Longrightarrow> unwritten z ss' = unwritten z ss" "enable_read os k b ss = (e, ss') \<Longrightarrow> unwritten z ss' = unwritten z ss"
  using unwritten_snd_enable [of z os k b ss] by simp_all

lemmas unwritten_calls = unwritten_syscall unwritten_enable

lemma unwritten_force_close: "force_close os k ss = Some (m, ss') \<Longrightarrow> unwritten z ss' = unwritten z ss"
  by (auto simp: force_close_def Let_def unwritten_simps split: if_splits option.splits)

lemma unwritten_close_read: "close_read os k ss = (m, ss') \<Longrightarrow> unwritten z ss' = unwritten z ss"
  by (auto simp: close_read_def Let_def unwritten_simps)

lemma unwritten_close_write: "close_write os k ss = Some (r, ss') \<Longrightarrow> unwritten z ss' = unwritten z ss"
  by (auto simp: close_write_def Let_def bind_Some_iff unwritten_simps unwritten_calls unwritten_force_close split: if_splits prod.splits)

lemma unwritten_drop_udp [unwritten_simps]: "unwritten z (drop_udp k p tmp ss) = unwritten z ss"
  by (simp add: drop_udp_def unwritten_simps)

lemma unwritten_send_list_udp: "send_list_udp os k p n ss = (r, ss') \<Longrightarrow> unwritten z ss' = unwritten z ss"
  by (induction os k p n ss arbitrary: r ss' rule: send_list_udp.induct)
    (auto simp: Let_def unwritten_simps unwritten_calls split: list.splits option.splits prod.splits if_splits)

lemma unwritten_finish_sending: "finish_sending os k ss = Some (r, ss') \<Longrightarrow> unwritten z ss' = unwritten z ss"
  by (auto simp: finish_sending_def Let_def bind_Some_iff unwritten_simps unwritten_calls unwritten_force_close split: if_splits prod.splits)

lemma unwritten_check_warning: "check_warning k ss = (r, ss') \<Longrightarrow> unwritten z ss' = unwritten z ss"
  by (auto simp: check_warning_def Let_def unwritten_simps split: if_splits)

lemma unwritten_trigger_write: "trigger_write os fd ss = (r, ss') \<Longrightarrow> unwritten z ss' = unwritten z ss"
  by (auto simp: trigger_write_def Let_def unwritten_simps unwritten_calls split: if_splits prod.splits)

lemma unwritten_check [unwritten_simps]: "unwritten z (snd (check_warning k ss)) = unwritten z ss"
  using unwritten_check_warning [of k ss "fst (check_warning k ss)"] by (metis prod.collapse)

lemma unwritten_send_socket: "send_socket os fd buf p udp ss = (r, ss') \<Longrightarrow> unwritten z ss' = unwritten z ss"
  by (auto simp: send_socket_def Let_def unwritten_simps unwritten_calls unwritten_check_warning split: if_splits option.splits prod.splits)

lemma unwritten_dec: "dec_sending_ref fd ss = Some ss' \<Longrightarrow> unwritten z ss' = unwritten z ss"
  by (auto simp: dec_sending_ref_def Let_def unwritten_simps split: if_splits)

lemma unwritten_new_fd: "new_fd os fd sock proto q b ss = Some (a, ss') \<Longrightarrow> unwritten z ss' = unwritten z ss"
  by (auto simp: new_fd_def Let_def bind_Some_iff unwritten_simps unwritten_calls split: if_splits prod.splits)

lemma unwritten_connect_loop: "connect_loop os addrs i ss = (y, ss') \<Longrightarrow> unwritten z ss' = unwritten z ss"
  by (induction os addrs i ss arbitrary: y ss' rule: connect_loop.induct)
    (auto simp: Let_def unwritten_simps unwritten_calls split: if_splits prod.splits)

lemma unwritten_open_failed: "open_failed k m err ss = (r, ss') \<Longrightarrow> unwritten z ss' = unwritten z ss"
  by (auto simp: open_failed_def unwritten_simps)

lemma unwritten_open_socket: "open_socket os fd port q host ss = Some (r, ss') \<Longrightarrow> unwritten z ss' = unwritten z ss"
  by (auto simp: open_socket_def Let_def bind_Some_iff unwritten_simps unwritten_calls unwritten_connect_loop unwritten_new_fd
    dest!: unwritten_open_failed [where z = z] split: if_splits prod.splits)

lemma unwritten_listen_socket: "listen_socket os fd sock q ss = Some (r, ss') \<Longrightarrow> unwritten z ss' = unwritten z ss"
  by (auto simp: listen_socket_def Let_def bind_Some_iff unwritten_simps unwritten_calls unwritten_new_fd
    dest!: unwritten_open_failed [where z = z] split: if_splits prod.splits option.splits)

lemma unwritten_bind_socket: "bind_socket os fd sock q ss = Some (r, ss') \<Longrightarrow> unwritten z ss' = unwritten z ss"
  by (auto simp: bind_socket_def Let_def bind_Some_iff unwritten_simps unwritten_new_fd split: if_splits)

lemma unwritten_add_udp: "add_udp_socket os fd sock family q ss = Some (r, ss') \<Longrightarrow> unwritten z ss' = unwritten z ss"
  by (auto simp: add_udp_socket_def Let_def bind_Some_iff unwritten_simps unwritten_new_fd split: if_splits)

lemma unwritten_close_socket: "close_socket os fd b ss = Some (r, ss') \<Longrightarrow> unwritten z ss' = unwritten z ss"
  by (auto simp: close_socket_def Let_def bind_Some_iff unwritten_simps unwritten_force_close unwritten_close_read split: if_splits prod.splits)

lemma unwritten_resume: "resume_socket os fd q ss = (r, ss') \<Longrightarrow> unwritten z ss' = unwritten z ss"
  by (auto simp: resume_socket_def Let_def unwritten_simps unwritten_calls split: if_splits prod.splits)

lemma unwritten_pause: "pause_socket os fd ss = (r, ss') \<Longrightarrow> unwritten z ss' = unwritten z ss"
  by (auto simp: pause_socket_def Let_def unwritten_simps unwritten_calls split: if_splits prod.splits)

lemma unwritten_setopt: "unwritten z (setopt_socket os fd opt v ss) = unwritten z ss"
  by (simp add: setopt_socket_def Let_def unwritten_simps)

lemma unwritten_set_udp: "set_udp_address fd a ss = (r, ss') \<Longrightarrow> unwritten z ss' = unwritten z ss"
  by (auto simp: set_udp_address_def Let_def unwritten_simps split: if_splits)

lemma unwritten_ctrl: "ctrl_cmd os req ss = Some (r, ss') \<Longrightarrow> unwritten z ss' = unwritten z ss"
  by (auto simp: ctrl_cmd_def bind_Some_iff unwritten_resume unwritten_pause unwritten_bind_socket unwritten_listen_socket unwritten_close_socket
    unwritten_open_socket unwritten_trigger_write unwritten_send_socket unwritten_dec unwritten_set_udp unwritten_setopt unwritten_add_udp
    split: request.splits prod.splits)

lemma unwritten_tcp: "forward_message_tcp os k ss = Some (r, ss') \<Longrightarrow> unwritten z ss' = unwritten z ss"
  by (auto simp: forward_message_tcp_def Let_def bind_Some_iff unwritten_simps unwritten_calls unwritten_force_close unwritten_close_read
    split: if_splits prod.splits)

lemma unwritten_udp: "forward_message_udp os k ss = Some (r, ss') \<Longrightarrow> unwritten z ss' = unwritten z ss"
  by (auto simp: forward_message_udp_def Let_def bind_Some_iff unwritten_simps unwritten_calls unwritten_force_close split: if_splits prod.splits)

lemma unwritten_event_read: "event_read os k e ss = Some (r, ss') \<Longrightarrow> unwritten z ss' = unwritten z ss"
  by (auto simp: event_read_def Let_def bind_Some_iff unwritten_simps unwritten_tcp unwritten_udp split: if_splits)

lemma unwritten_event_error: "event_error os k ss = (r, ss') \<Longrightarrow> unwritten z ss' = unwritten z ss"
  by (auto simp: event_error_def Let_def unwritten_calls split: prod.splits)

lemma unwritten_event_eof: "event_eof os k ss = Some (r, ss') \<Longrightarrow> unwritten z ss' = unwritten z ss"
  by (auto simp: event_eof_def Let_def bind_Some_iff unwritten_force_close)

lemma unwritten_report_connect: "report_connect os k ss = Some (r, ss') \<Longrightarrow> unwritten z ss' = unwritten z ss"
  by (auto simp: report_connect_def Let_def bind_Some_iff unwritten_simps unwritten_calls unwritten_force_close split: if_splits prod.splits)

lemma unwritten_reserve_loop: "reserve_loop n ss = (fd, ss') \<Longrightarrow> unwritten z ss' = unwritten z ss"
  by (induction n ss rule: reserve_loop.induct) (auto simp: Let_def unwritten_simps split: if_splits prod.splits)

lemma unwritten_reserve: "reserve_id ss = (fd, ss') \<Longrightarrow> unwritten z ss' = unwritten z ss"
  by (simp add: reserve_id_def unwritten_reserve_loop)

lemma unwritten_report_accept: "report_accept os k ss = Some (r, ss') \<Longrightarrow> unwritten z ss' = unwritten z ss"
  by (auto simp: report_accept_def Let_def bind_Some_iff unwritten_simps unwritten_calls unwritten_reserve unwritten_new_fd split: if_splits prod.splits)

lemma unwritten_do_bind: "do_bind os host port ss = (y, ss') \<Longrightarrow> unwritten z ss' = unwritten z ss"
  by (auto simp: do_bind_def Let_def unwritten_simps unwritten_calls split: if_splits prod.splits)

lemma unwritten_do_listen: "do_listen os host port backlog ss = (y, ss') \<Longrightarrow> unwritten z ss' = unwritten z ss"
  by (auto simp: do_listen_def Let_def unwritten_simps unwritten_calls unwritten_do_bind split: if_splits prod.splits)

lemma unwritten_connect: "socket_server_connect os q addr port ss = (fd, ss') \<Longrightarrow> unwritten z ss' = unwritten z ss"
  by (auto simp: socket_server_connect_def Let_def unwritten_simps unwritten_reserve split: if_splits prod.splits)

lemma unwritten_listen: "socket_server_listen os q host port backlog ss = (fd, ss') \<Longrightarrow> unwritten z ss' = unwritten z ss"
  by (auto simp: socket_server_listen_def Let_def unwritten_simps unwritten_do_listen unwritten_reserve split: if_splits prod.splits)

lemma unwritten_bind: "socket_server_bind q sock ss = (fd, ss') \<Longrightarrow> unwritten z ss' = unwritten z ss"
  by (auto simp: socket_server_bind_def Let_def unwritten_simps unwritten_reserve split: if_splits prod.splits)

lemma unwritten_create_udp: "socket_server_udp os q host port ss = (fd, ss') \<Longrightarrow> unwritten z ss' = unwritten z ss"
  by (auto simp: socket_server_udp_def Let_def unwritten_simps unwritten_calls unwritten_do_bind dest!: unwritten_reserve [where z = z] split: if_splits prod.splits)

lemma unwritten_free_buffer [unwritten_simps]: "unwritten z (free_buffer buf ss) = unwritten z ss"
  by (simp add: free_buffer_def unwritten_simps)

lemma unwritten_queue: "queue_send p buf ss = Some (n, ss') \<Longrightarrow> unwritten z ss' = unwritten z ss"
  by (auto simp: queue_send_def inc_sending_ref_def Let_def bind_Some_iff unwritten_simps split: if_splits)

lemma unwritten_low: "socket_server_send_lowpriority buf ss = Some (n, ss') \<Longrightarrow> unwritten z ss' = unwritten z ss"
  by (auto simp: socket_server_send_lowpriority_def unwritten_simps unwritten_queue split: if_splits)

lemma unwritten_udp_send: "socket_server_udp_send os a buf ss = (n, ss') \<Longrightarrow> unwritten z ss' = unwritten z ss"
  by (auto simp: socket_server_udp_send_def Let_def unwritten_simps unwritten_calls split: if_splits prod.splits option.splits)

lemma unwritten_udp_connect: "socket_server_udp_connect os fd addr port ss = (n, ss') \<Longrightarrow> unwritten z ss' = unwritten z ss"
  by (auto simp: socket_server_udp_connect_def Let_def unwritten_simps unwritten_calls split: if_splits prod.splits)

lemma unwritten_query: "query_info os ntop k ss = (r, ss') \<Longrightarrow> unwritten z ss' = unwritten z ss"
  by (auto simp: query_info_def Let_def unwritten_calls split: socket_type.splits if_splits prod.splits)

lemma unwritten_info: "info_loop os ntop ks si ss = (r, ss') \<Longrightarrow> unwritten z ss' = unwritten z ss"
  by (induction os ntop ks si ss rule: info_loop.induct) (auto simp: unwritten_query split: prod.splits)

subsection \<open>What waits\<close>

text \<open>The data that wait in a socket, in their order, and those of the requests in the pipe.\<close>

definition direct_rest :: "socket \<Rightarrow> bytes" where
  "direct_rest s = (case so_dw_buffer s of None \<Rightarrow> [] | Some dw \<Rightarrow> drop (so_dw_offset s) (pl_data dw))"

definition waiting :: "socket \<Rightarrow> bytes" where
  "waiting s = direct_rest s @ concat (map wb_rest (so_high s))"

fun send_for :: "int \<Rightarrow> request \<Rightarrow> bytes option" where
  "send_for fd (R_Send p fd' buf) = (if fd' = fd then Some (pl_data buf) else None)"
| "send_for fd _ = None"

definition queued :: "int \<Rightarrow> request list \<Rightarrow> bytes" where
  "queued fd reqs = concat (map (\<lambda>req. case send_for fd req of None \<Rightarrow> [] | Some d \<Rightarrow> d) reqs)"

definition sends_in :: "int \<Rightarrow> request list \<Rightarrow> nat" where
  "sends_in fd reqs = length (filter (\<lambda>req. send_for fd req \<noteq> None) reqs)"

text \<open>Only requests of the upper priority, and no datagrams, are in the pipe for the stream.\<close>

fun orderly :: "int \<Rightarrow> request \<Rightarrow> bool" where
  "orderly fd (R_Send p fd' buf) = (fd' = fd \<longrightarrow> p = High)"
| "orderly fd (R_Send_Udp fd' buf a) = (fd' \<noteq> fd)"
| "orderly fd _ = True"

text \<open>A stream that is open, whose file no other socket has.\<close>

definition streaming :: "int \<Rightarrow> socket_server \<Rightarrow> bool" where
  "streaming fd ss \<longleftrightarrow> so_id (ss_slot ss (HASH_ID fd)) = fd \<and> so_type (ss_slot ss (HASH_ID fd)) = T_CONNECTED \<and>
     so_protocol (ss_slot ss (HASH_ID fd)) = P_TCP \<and> \<not> so_closing (ss_slot ss (HASH_ID fd)) \<and>
     (\<forall>j. j \<noteq> HASH_ID fd \<and> open_type (so_type (ss_slot ss j)) \<longrightarrow> so_fd (ss_slot ss j) \<noteq> so_fd (ss_slot ss (HASH_ID fd)))"

text \<open>The state of the stream: \<open>acc\<close> was accepted.\<close>

definition flow :: "int \<Rightarrow> int \<Rightarrow> bytes \<Rightarrow> socket_server \<Rightarrow> bool" where
  "flow fd f acc ss \<longleftrightarrow> (let s = ss_slot ss (HASH_ID fd) in
     so_fd s = f \<and> core s \<and> so_low s = [] \<and> so_sending s = ID_TAG16 fd * 65536 + sends_in fd (ss_pipe ss) \<and> sends_in fd (ss_pipe ss) < 65536 \<and>
     (\<forall>req \<in> set (ss_pipe ss). orderly fd req) \<and>
     acc = written f (ss_trace ss) @ waiting s @ queued fd (ss_pipe ss))"

lemma queued_simps [simp]: "queued fd [] = []" "queued fd (req # reqs) = (case send_for fd req of None \<Rightarrow> [] | Some d \<Rightarrow> d) @ queued fd reqs"
    "queued fd (xs @ ys) = queued fd xs @ queued fd ys"
  by (simp_all add: queued_def)

lemma sends_in_simps [simp]: "sends_in fd [] = 0" "sends_in fd (req # reqs) = of_bool (send_for fd req \<noteq> None) + sends_in fd reqs"
    "sends_in fd (xs @ ys) = sends_in fd xs + sends_in fd ys"
  by (simp_all add: sends_in_def)

lemma no_sends_queued: "sends_in fd reqs = 0 \<Longrightarrow> queued fd reqs = []"
  by (induction reqs) (auto split: option.splits)

text \<open>Steps that leave the stream as it is.\<close>

definition same_stream :: "socket \<Rightarrow> socket \<Rightarrow> bool" where
  "same_stream s s' \<longleftrightarrow> so_high s' = so_high s \<and> so_low s' = so_low s \<and> so_dw_buffer s' = so_dw_buffer s \<and> so_dw_offset s' = so_dw_offset s \<and>
     so_fd s' = so_fd s \<and> so_sending s' = so_sending s"

lemma same_stream_refl [simp]: "same_stream s s"
  by (simp add: same_stream_def)

lemma same_stream_waiting: "same_stream s s' \<Longrightarrow> waiting s' = waiting s"
  by (cases "so_dw_buffer s") (simp_all add: same_stream_def waiting_def direct_rest_def)

lemma flow_keep:
  assumes "flow fd f acc ss" "same_stream (ss_slot ss (HASH_ID fd)) (ss_slot ss' (HASH_ID fd))" "core (ss_slot ss' (HASH_ID fd))"
    "queued fd (ss_pipe ss') = queued fd (ss_pipe ss)" "sends_in fd (ss_pipe ss') = sends_in fd (ss_pipe ss)"
    "\<forall>req \<in> set (ss_pipe ss'). orderly fd req"
    "written (so_fd (ss_slot ss (HASH_ID fd))) (ss_trace ss') = written (so_fd (ss_slot ss (HASH_ID fd))) (ss_trace ss)"
  shows "flow fd f acc ss'"
  using assms same_stream_waiting [OF assms(2)] by (auto simp: flow_def Let_def same_stream_def)

subsection \<open>The socket thread writes\<close>

lemma wb_rest_part: "wb_rest (tmp\<lparr>wb_ptr := wb_ptr tmp + n, wb_sz := wb_sz tmp - n\<rparr>) = drop n (wb_rest tmp)"
  by (simp add: wb_rest_def drop_take add.commute)

lemma wb_rest_all: "n = wb_sz tmp \<Longrightarrow> take n (wb_rest tmp) = wb_rest tmp"
  by (simp add: wb_rest_def)

text \<open>What a list of a stream sends: other files are not written; what was written is taken off the list.\<close>

definition sent_from :: "nat \<Rightarrow> priority \<Rightarrow> socket_server \<Rightarrow> outcome \<times> socket_server \<Rightarrow> bool" where
  "sent_from k p ss x \<longleftrightarrow>
     (\<forall>i. i \<noteq> so_fd (ss_slot ss k) \<longrightarrow> written i (ss_trace (snd x)) = written i (ss_trace ss)) \<and>
     (so_type (ss_slot (snd x) k) = T_CONNECTED \<longrightarrow>
        written (so_fd (ss_slot ss k)) (ss_trace (snd x)) @ concat (map wb_rest (get_list p (ss_slot (snd x) k))) =
          written (so_fd (ss_slot ss k)) (ss_trace ss) @ concat (map wb_rest (get_list p (ss_slot ss k))) \<and>
        (\<forall>q. q \<noteq> p \<longrightarrow> get_list q (ss_slot (snd x) k) = get_list q (ss_slot ss k)) \<and> direct_rest (ss_slot (snd x) k) = direct_rest (ss_slot ss k))"

lemma get_list_simps [server_simps]:
  "get_list p (s\<lparr>so_wb_size := w\<rparr>) = get_list p s" "get_list p (s\<lparr>so_stat := z\<rparr>) = get_list p s"
  "q \<noteq> p \<Longrightarrow> get_list q (set_list p ws s) = get_list q s"
  by (cases p; cases q; simp add: get_list_def set_list_def)+

lemma direct_rest_simps [server_simps]:
  "direct_rest (s\<lparr>so_wb_size := w\<rparr>) = direct_rest s" "direct_rest (s\<lparr>so_stat := z\<rparr>) = direct_rest s" "direct_rest (set_list p ws s) = direct_rest s"
  "direct_rest (s\<lparr>so_writing := b\<rparr>) = direct_rest s" "direct_rest (s\<lparr>so_warn_size := i\<rparr>) = direct_rest s"
  by (cases p; simp add: direct_rest_def set_list_def split: option.splits)+

lemma close_write_type: "close_write os k ss = Some (r, ss') \<Longrightarrow> so_type (ss_slot ss k) \<noteq> T_INVALID \<Longrightarrow> so_type (ss_slot ss' k) \<noteq> T_CONNECTED"
  by (auto simp: close_write_def Let_def bind_Some_iff server_simps split_beta split: if_splits dest!: force_close_steps(3))

lemma send_list_tcp_sent:
  assumes "posix os" "send_list_tcp os k p ss = Some x"
  shows "so_type (ss_slot ss k) \<noteq> T_INVALID \<longrightarrow> sent_from k p ss x"
proof -
  have "posix os \<longrightarrow> so_type (ss_slot ss k) \<noteq> T_INVALID \<longrightarrow> sent_from k p ss x"
  proof (rule send_list_tcp.raw_induct [where P = "\<lambda>os k p ss x. posix os \<longrightarrow> so_type (ss_slot ss k) \<noteq> T_INVALID \<longrightarrow> sent_from k p ss x", OF _ assms(2)],
      intro impI)
    fix f os k p ss and x :: "outcome \<times> socket_server"
    assume IH: "\<And>os k p ss x. f os k p ss = Some x \<Longrightarrow> posix os \<longrightarrow> so_type (ss_slot ss k) \<noteq> T_INVALID \<longrightarrow> sent_from k p ss x"
      and step: "(case get_list p (ss_slot ss k) of
          [] \<Rightarrow> Some (None, ss)
        | tmp # rest \<Rightarrow> do {
            (r, ss1) \<leftarrow> write_retry os (so_fd (ss_slot ss k)) (wb_rest tmp) ss;
            if sr_ret r < 0 then if sr_errno r = EAGAIN then Some (None, ss1) else close_write os k ss1
            else do {
              let n = nat (sr_ret r);
              let ss2 = upd_slot k (\<lambda>s. s\<lparr>so_wb_size := so_wb_size s - sr_ret r\<rparr>) (stat_write k (sr_ret r) ss1);
              if n \<noteq> wb_sz tmp
              then Some (None, upd_slot k (set_list p (tmp\<lparr>wb_ptr := wb_ptr tmp + n, wb_sz := wb_sz tmp - n\<rparr> # rest)) ss2)
              else f os k p (free_payloads [wb_payload tmp] (upd_slot k (set_list p rest) ss2))
            }
          }) = Some x"
      and posix: "posix os" and "so_type (ss_slot ss k) \<noteq> T_INVALID"
    then have live: "so_type (ss_slot ss k) \<noteq> T_INVALID" by simp
    show "sent_from k p ss x"
    proof (cases "get_list p (ss_slot ss k)")
      case Nil
      then show ?thesis using step by (auto simp: sent_from_def)
    next
      case (Cons tmp rest)
      then obtain r ss1 where w: "write_retry os (so_fd (ss_slot ss k)) (wb_rest tmp) ss = Some (r, ss1)" using step by (auto simp: bind_Some_iff)
      note wr = write_retry_result [OF posix w]
      have slot1: "ss_slot ss1 = ss_slot ss" using wr by blast
      have other: "written i (ss_trace ss1) = written i (ss_trace ss)" if "i \<noteq> so_fd (ss_slot ss k)" for i using wr [of i] that by auto
      have mine: "written (so_fd (ss_slot ss k)) (ss_trace ss1) = written (so_fd (ss_slot ss k)) (ss_trace ss) @ (if 0 \<le> sr_ret r then take (nat (sr_ret r)) (wb_rest tmp) else [])"
        using wr [of "so_fd (ss_slot ss k)"] by simp
      consider "sr_ret r < 0" "sr_errno r = EAGAIN" | "sr_ret r < 0" "sr_errno r \<noteq> EAGAIN" | "0 \<le> sr_ret r" "nat (sr_ret r) \<noteq> wb_sz tmp"
        | "0 \<le> sr_ret r" "nat (sr_ret r) = wb_sz tmp" by linarith
      then show ?thesis
      proof cases
        case 1
        then have "x = (None, ss1)" using step Cons w by simp
        then show ?thesis using other mine 1 slot1 by (simp add: sent_from_def)
      next
        case 2
        then have c: "close_write os k ss1 = Some x" using step Cons w by simp
        then have "so_type (ss_slot (snd x) k) \<noteq> T_CONNECTED" "unwritten ss1 (snd x)"
          using close_write_type [of os k ss1 "fst x" "snd x"] unwritten_close_write [of os k ss1 "fst x" "snd x" ss1] live slot1 by simp_all
        then show ?thesis using other by (simp add: sent_from_def unwritten_def)
      next
        case 3
        then have "x = (None, upd_slot k (set_list p (tmp\<lparr>wb_ptr := wb_ptr tmp + nat (sr_ret r), wb_sz := wb_sz tmp - nat (sr_ret r)\<rparr> # rest))
            (upd_slot k (\<lambda>s. s\<lparr>so_wb_size := so_wb_size s - sr_ret r\<rparr>) (stat_write k (sr_ret r) ss1)))"
          using step Cons w by (simp add: Let_def)
        then show ?thesis using other mine 3 slot1 Cons by (simp add: sent_from_def server_simps wb_rest_part)
      next
        case 4
        let ?ss3 = "free_payloads [wb_payload tmp] (upd_slot k (set_list p rest)
          (upd_slot k (\<lambda>s. s\<lparr>so_wb_size := so_wb_size s - sr_ret r\<rparr>) (stat_write k (sr_ret r) ss1)))"
        have "f os k p ?ss3 = Some x" using step Cons w 4 by (simp add: Let_def)
        then have "sent_from k p ?ss3 x" using IH posix live slot1 by (auto simp: server_simps)
        moreover have "written (so_fd (ss_slot ss k)) (ss_trace ?ss3) = written (so_fd (ss_slot ss k)) (ss_trace ss) @ wb_rest tmp"
          using mine 4 wb_rest_all [of "wb_sz tmp" tmp] by (simp add: server_simps)
        ultimately show ?thesis using other slot1 Cons by (simp add: sent_from_def server_simps)
      qed
    qed
  qed
  then show ?thesis using assms(1) by simp
qed

text \<open>Only the file of the socket is written, and that only when the socket is open.\<close>

definition foreign :: "int \<Rightarrow> socket \<Rightarrow> bool" where
  "foreign i s \<longleftrightarrow> (open_type (so_type s) \<longrightarrow> so_fd s \<noteq> i)"

lemma unwritten_written: "unwritten ss ss' \<Longrightarrow> written i (ss_trace ss') = written i (ss_trace ss)"
  by (simp add: unwritten_def)

lemma keeps_foreign: "keeps k ss (r, ss') \<Longrightarrow> foreign i (ss_slot ss k) \<Longrightarrow> foreign i (ss_slot ss' k)"
  by (auto simp: foreign_def keeps_def lives_def socket_keeps_def)

lemma send_list_foreign:
  assumes "posix os" "send_list os k p ss = Some (r, ss')" "active (ss_slot ss k)" "foreign i (ss_slot ss k)"
  shows "written i (ss_trace ss') = written i (ss_trace ss)"
proof (cases "so_protocol (ss_slot ss k) = P_TCP")
  case True
  then have "send_list_tcp os k p ss = Some (r, ss')" "i \<noteq> so_fd (ss_slot ss k)" "so_type (ss_slot ss k) \<noteq> T_INVALID"
    using assms(2-4) by (auto simp: send_list_def active_def foreign_def)
  then show ?thesis using send_list_tcp_sent [OF assms(1), of k p ss "(r, ss')"] by (simp add: sent_from_def)
next
  case False
  then have "send_list_udp os k p (length (get_list p (ss_slot ss k))) ss = (r, ss')" using assms(2) by (simp add: send_list_def)
  then have "unwritten ss ss'" using unwritten_send_list_udp [of os k p _ ss r ss' ss] by simp
  then show ?thesis by (rule unwritten_written)
qed

lemma send_low_foreign:
  assumes "posix os" "send_low os k ss = Some (r, ss')" "active (ss_slot ss k)" "foreign i (ss_slot ss k)"
  shows "written i (ss_trace ss') = written i (ss_trace ss)"
proof (cases "so_low (ss_slot ss k) = []")
  case True
  then have "unwritten ss ss'" using assms(2) unwritten_finish_sending [of os k ss r ss' ss] by (simp add: send_low_def)
  then show ?thesis by (rule unwritten_written)
next
  case False
  then obtain ret ss1 where sl: "send_list os k Low ss = Some (ret, ss1)" using assms(2) by (auto simp: send_low_def bind_Some_iff)
  have "written i (ss_trace ss1) = written i (ss_trace ss)" by (rule send_list_foreign [OF assms(1) sl assms(3,4)])
  moreover have "unwritten ss1 ss'"
    using assms(2) False sl by (auto simp: send_low_def bind_Some_iff unwritten_simps unwritten_finish_sending split: if_splits)
  ultimately show ?thesis using unwritten_written by metis
qed

lemma send_buffer_foreign:
  assumes "posix os" "send_buffer os k ss = Some (r, ss')" "active (ss_slot ss k)" "foreign i (ss_slot ss k)"
  shows "written i (ss_trace ss') = written i (ss_trace ss)"
proof -
  obtain l ss1 where l: "syscall os (Try_Lock k) ss = (l, ss1)" by fastforce
  have w1: "written i (ss_trace ss1) = written i (ss_trace ss)" using unwritten_syscall [OF l, of ss] by (simp add: unwritten_def)
  show ?thesis
  proof (cases "sr_ret l = 0")
    case True
    then show ?thesis using assms(2) l w1 by (auto simp: send_buffer_def)
  next
    case False
    let ?ss2 = "upd_slot k raise_direct ss1"
    have s2: "active (ss_slot ?ss2 k)" "foreign i (ss_slot ?ss2 k)" "ss_trace ?ss2 = ss_trace ss1"
      using assms(3,4) syscall_eq [OF l] by (auto simp: active_def foreign_def raise_direct_def Let_def server_simps split: option.splits)
    have "send_buffer_lists os k ?ss2 = Some (r, ss')" using assms(2) l False by (simp add: send_buffer_def)
    then obtain ret ss3 where sl: "send_list os k High ?ss2 = Some (ret, ss3)"
        and ss': "if ret = None \<and> so_high (ss_slot ss3 k) = [] then send_low os k ss3 = Some (r, ss') else ss' = ss3"
      by (auto simp: send_buffer_lists_def bind_Some_iff split: if_splits)
    have w3: "written i (ss_trace ss3) = written i (ss_trace ss1)" using send_list_foreign [OF assms(1) sl s2(1,2)] s2(3) by simp
    show ?thesis
    proof (cases "ret = None \<and> so_high (ss_slot ss3 k) = []")
      case True
      note ks = send_list_steps [OF assms(1) sl s2(1)]
      have "active (ss_slot ss3 k)" using ks(1,3) True s2(1) keeps_active [of k ?ss2 ret ss3] by (auto simp: active_def)
      moreover have "foreign i (ss_slot ss3 k)" using keeps_foreign [OF _ s2(2)] ks(1) by simp
      ultimately show ?thesis using send_low_foreign [OF assms(1)] ss' True w1 w3 by simp
    next
      case False
      then show ?thesis using ss' w1 w3 by auto
    qed
  qed
qed

text \<open>A round of sending for the stream.\<close>

lemma waiting_raise: "waiting (raise_direct s) = waiting s" "so_low (raise_direct s) = so_low s" "direct_rest (raise_direct s) = []"
    "so_type (raise_direct s) = so_type s" "so_protocol (raise_direct s) = so_protocol s" "so_fd (raise_direct s) = so_fd s"
  by (cases "so_dw_buffer s"; simp add: waiting_def direct_rest_def raise_direct_def Let_def wb_rest_def)+

lemma finish_sending_stream:
  assumes "finish_sending os k ss = Some (r, ss')" "so_type (ss_slot ss' k) = T_CONNECTED"
  shows "waiting (ss_slot ss' k) = waiting (ss_slot ss k) \<and> so_low (ss_slot ss' k) = so_low (ss_slot ss k)"
proof (cases "so_closing (ss_slot ss k)")
  case True
  then obtain m where "force_close os k ss = Some (m, ss')" using assms(1) by (auto simp: finish_sending_def Let_def bind_Some_iff split: if_splits)
  then show ?thesis using force_close_steps(3) assms(2) by fastforce
next
  case False
  obtain e ss1 where e: "enable_write os k False ss = (e, ss1)" by fastforce
  have "ss_slot ss1 k = (ss_slot ss k)\<lparr>so_writing := False\<rparr>" using enable_slot(1) [of os k False ss] e by simp
  then show ?thesis using assms(1) False e
    by (auto simp: finish_sending_def Let_def waiting_def server_simps split: if_splits)
qed

lemma send_buffer_stream:
  assumes "posix os" "send_buffer os k ss = Some (r, ss')" "so_type (ss_slot ss k) = T_CONNECTED" "so_protocol (ss_slot ss k) = P_TCP"
    "so_low (ss_slot ss k) = []" "so_type (ss_slot ss' k) = T_CONNECTED"
  shows "written (so_fd (ss_slot ss k)) (ss_trace ss') @ waiting (ss_slot ss' k) = written (so_fd (ss_slot ss k)) (ss_trace ss) @ waiting (ss_slot ss k)"
    "so_low (ss_slot ss' k) = []"
proof -
  let ?f = "so_fd (ss_slot ss k)"
  obtain l ss1 where l: "syscall os (Try_Lock k) ss = (l, ss1)" by fastforce
  have w1: "written ?f (ss_trace ss1) = written ?f (ss_trace ss)" "ss_slot ss1 = ss_slot ss"
    using unwritten_syscall [OF l, of ss] syscall_eq [OF l] by (simp_all add: unwritten_def)
  have "written ?f (ss_trace ss') @ waiting (ss_slot ss' k) = written ?f (ss_trace ss) @ waiting (ss_slot ss k) \<and> so_low (ss_slot ss' k) = []"
  proof (cases "sr_ret l = 0")
    case True
    then show ?thesis using assms(2,5) l w1 by (auto simp: send_buffer_def)
  next
    case False
    let ?ss2 = "upd_slot k raise_direct ss1"
    have s2: "ss_slot ?ss2 k = raise_direct (ss_slot ss k)" "ss_trace ?ss2 = ss_trace ss1" by (simp_all add: server_simps w1(2))
    have "send_buffer_lists os k ?ss2 = Some (r, ss')" using assms(2) l False by (simp add: send_buffer_def)
    then obtain ret ss3 where sl: "send_list os k High ?ss2 = Some (ret, ss3)"
        and ss': "if ret = None \<and> so_high (ss_slot ss3 k) = [] then send_low os k ss3 = Some (r, ss') else ss' = ss3"
      by (auto simp: send_buffer_lists_def bind_Some_iff split: if_splits)
    have "send_list_tcp os k High ?ss2 = Some (ret, ss3)" using sl assms(4) by (simp add: send_list_def s2(1) waiting_raise)
    then have sent: "sent_from k High ?ss2 (ret, ss3)" using send_list_tcp_sent [OF assms(1)] assms(3) by (simp add: s2(1) waiting_raise)
    have mid: "written ?f (ss_trace ss3) @ waiting (ss_slot ss3 k) = written ?f (ss_trace ss) @ waiting (ss_slot ss k) \<and> so_low (ss_slot ss3 k) = []"
      if "so_type (ss_slot ss3 k) = T_CONNECTED"
    proof -
      have "written ?f (ss_trace ss3) @ concat (map wb_rest (so_high (ss_slot ss3 k))) = written ?f (ss_trace ss1) @ concat (map wb_rest (so_high (raise_direct (ss_slot ss k))))"
          "so_low (ss_slot ss3 k) = so_low (ss_slot ss k)" "direct_rest (ss_slot ss3 k) = []"
        using sent that by (auto simp: sent_from_def s2 w1(2) waiting_raise get_list_def server_simps split: priority.splits)
      then show ?thesis using w1(1) assms(5) waiting_raise(1,3) [of "ss_slot ss k"] by (simp add: waiting_def)
    qed
    show ?thesis
    proof (cases "ret = None \<and> so_high (ss_slot ss3 k) = []")
      case True
      have "so_type (ss_slot ss3 k) = T_CONNECTED"
        using send_list_steps(3) [OF assms(1) sl, of] True assms(3) by (auto simp: s2(1) waiting_raise active_def)
      note m = mid [OF this]
      then have f: "finish_sending os k ss3 = Some (r, ss')" using ss' True by (simp add: send_low_def)
      moreover have "unwritten ss3 ss'" using unwritten_finish_sending [OF f, of ss3] by simp
      ultimately show ?thesis using finish_sending_stream [OF f assms(6)] m by (simp add: unwritten_def)
    next
      case False
      then show ?thesis using ss' mid assms(6) by auto
    qed
  qed
  then show "written ?f (ss_trace ss') @ waiting (ss_slot ss' k) = written ?f (ss_trace ss) @ waiting (ss_slot ss k)" "so_low (ss_slot ss' k) = []" by simp_all
qed

end
