(* ===== verification/Socket_Stream.thy ===== *)
theory Socket_Stream
  imports Socket_Write
begin

text \<open>
  The stream of a connection: the data that \<^verbatim>\<open>socket_server_send\<close> accepts are written to the file of the
  socket in their order, each byte once, whichever thread writes them.
\<close>

subsection \<open>Requests and events for the stream\<close>

lemma same_stream_fields [simp]:
  "same_stream s (so_writing_update b s)" "same_stream s (so_reading_update b s)" "same_stream s (so_stat_update z s)"
  "same_stream s (so_warn_size_update w s)" "same_stream s (so_size_update n s)" "same_stream s (so_closing_update b s)"
  "same_stream s (so_opaque_update q s)" "same_stream s (so_udp_address_update a s)" "same_stream s (so_udpconnecting_update u s)"
  "same_stream s (so_type_update t s)"
  by (simp_all add: same_stream_def)

lemma same_stream_trans: "same_stream s s' \<Longrightarrow> same_stream s' s'' \<Longrightarrow> same_stream s s''"
  by (simp add: same_stream_def)

lemma enable_same: "enable_write os k b ss = (e, ss') \<Longrightarrow> same_stream (ss_slot ss k) (ss_slot ss' k)"
    "enable_read os k b ss = (e, ss') \<Longrightarrow> same_stream (ss_slot ss k) (ss_slot ss' k)"
  using enable_slot(1,2) [of os k b ss] by simp_all

lemma append_high: "append_sendbuffer High buf a s = s\<lparr>so_high := so_high s @ [\<lparr>wb_payload = buf, wb_ptr = 0, wb_sz = length (pl_data buf), wb_udp = a\<rparr>],
    so_wb_size := so_wb_size s + int (length (pl_data buf))\<rparr>"
  by (simp add: append_sendbuffer_def Let_def set_list_def get_list_def)

lemma waiting_append:
  "waiting (append_sendbuffer High buf a s) = waiting s @ pl_data buf" "so_low (append_sendbuffer High buf a s) = so_low s"
  by (cases "so_dw_buffer s"; simp add: append_high waiting_def direct_rest_def wb_rest_def)+

lemma check_same: "check_warning k ss = (r, ss') \<Longrightarrow> same_stream (ss_slot ss k) (ss_slot ss' k)"
  by (auto simp: check_warning_def Let_def server_simps split: if_splits)

lemma send_socket_stream:
  assumes "send_socket os fd buf High None ss = (r, ss')" "so_id (ss_slot ss (HASH_ID fd)) = fd" "so_type (ss_slot ss (HASH_ID fd)) = T_CONNECTED"
    "so_protocol (ss_slot ss (HASH_ID fd)) = P_TCP" "\<not> so_closing (ss_slot ss (HASH_ID fd))"
  shows "waiting (ss_slot ss' (HASH_ID fd)) = waiting (ss_slot ss (HASH_ID fd)) @ pl_data buf \<and>
    so_low (ss_slot ss' (HASH_ID fd)) = so_low (ss_slot ss (HASH_ID fd))"
proof -
  let ?k = "HASH_ID fd"
  let ?ss1 = "upd_slot ?k (append_sendbuffer High buf []) ss"
  have w: "waiting (ss_slot ?ss1 ?k) = waiting (ss_slot ss ?k) @ pl_data buf" "so_low (ss_slot ?ss1 ?k) = so_low (ss_slot ss ?k)"
    by (simp_all add: server_simps waiting_append)
  have "same_stream (ss_slot ?ss1 ?k) (ss_slot ss' ?k)"
  proof (cases "send_buffer_empty (ss_slot ss ?k)")
    case True
    obtain e ss2 where e: "enable_write os ?k True ?ss1 = (e, ss2)" by fastforce
    have "same_stream (ss_slot ?ss1 ?k) (ss_slot ss2 ?k)" by (rule enable_same(1) [OF e])
    moreover have "same_stream (ss_slot ss2 ?k) (ss_slot ss' ?k)"
      using assms True e check_same [of ?k ss2 r ss'] by (auto simp: send_socket_def Let_def split: if_splits)
    ultimately show ?thesis by (rule same_stream_trans)
  next
    case False
    then show ?thesis using assms check_same [of ?k ?ss1 r ss'] by (simp add: send_socket_def Let_def)
  qed
  then show ?thesis using w same_stream_waiting [of "ss_slot ?ss1 ?k" "ss_slot ss' ?k"] by (simp add: same_stream_def)
qed

text \<open>A request for the stream after which it is still open.\<close>

lemma ctrl_cmd_same:
  assumes "ctrl_cmd os req ss = Some (r, ss')" "request_id req = Some fd" "\<not> opens req" "send_for fd req = None" "orderly fd req"
    "so_id (ss_slot ss (HASH_ID fd)) = fd" "so_type (ss_slot ss (HASH_ID fd)) = T_CONNECTED"
    "so_type (ss_slot ss' (HASH_ID fd)) = T_CONNECTED"
  shows "same_stream (ss_slot ss (HASH_ID fd)) (ss_slot ss' (HASH_ID fd))"
proof (cases req)
  case (R_Close fd' shut q)
  then have "close_socket os fd shut ss = Some (r, ss')" using assms(1,2) by (simp add: ctrl_cmd_def)
  then show ?thesis using assms(6-8)
    by (auto simp: close_socket_def socket_invalid_def Let_def bind_Some_iff close_read_def server_simps split: if_splits dest!: force_close_steps(3))
next
  case (R_Resume fd' q)
  obtain e ss1 where e: "enable_read os (HASH_ID fd) True ss = (e, ss1)" by fastforce
  show ?thesis using R_Resume assms(1,2,6,7) enable_same(2) [OF e]
    by (auto simp: ctrl_cmd_def resume_socket_def socket_invalid_def Let_def e server_simps same_stream_def split: if_splits)
next
  case (R_Pause fd' q)
  obtain e ss1 where e: "enable_read os (HASH_ID fd) False ss = (e, ss1)" by fastforce
  show ?thesis using R_Pause assms(1,2,6,7) enable_same(2) [OF e]
    by (auto simp: ctrl_cmd_def pause_socket_def socket_invalid_def Let_def e split: if_splits)
next
  case (R_Trigger fd')
  obtain e ss1 where e: "enable_write os (HASH_ID fd) True ss = (e, ss1)" by fastforce
  show ?thesis using R_Trigger assms(1,2,6,7) enable_same(1) [OF e]
    by (auto simp: ctrl_cmd_def trigger_write_def socket_invalid_def Let_def e split: if_splits)
qed (use assms in \<open>auto simp: ctrl_cmd_def opens_def setopt_socket_def set_udp_address_def Let_def server_simps same_stream_def split: if_splits\<close>)

text \<open>A request for another number with the same slot.\<close>

lemma ctrl_cmd_invalid:
  assumes "ctrl_cmd os req ss = Some (r, ss')" "request_id req = Some fd" "\<not> opens req" "so_id (ss_slot ss (HASH_ID fd)) \<noteq> fd"
  shows "ss_slot ss' = ss_slot ss"
proof (cases req)
  case (R_Resume fd' q)
  then show ?thesis using assms by (auto simp: ctrl_cmd_def resume_socket_def socket_invalid_def Let_def)
next
  case (R_Send p fd' buf)
  then show ?thesis using assms by (auto simp: ctrl_cmd_def send_socket_def dec_sending_ref_def Let_def bind_Some_iff server_simps split: if_splits)
qed (use assms in \<open>auto simp: ctrl_cmd_def opens_def pause_socket_def setopt_socket_def set_udp_address_def close_socket_def trigger_write_def
  send_socket_def socket_invalid_def Let_def server_simps split: if_splits\<close>)

text \<open>Reading and the other events.\<close>

lemma tcp_same:
  assumes "forward_message_tcp os k ss = Some (r, ss')" "so_type (ss_slot ss k) = T_CONNECTED" "\<not> so_closing (ss_slot ss k)"
    "so_type (ss_slot ss' k) = T_CONNECTED"
  shows "same_stream (ss_slot ss k) (ss_slot ss' k)"
proof -
  let ?s = "ss_slot ss k"
  obtain q ss1 where q: "syscall os (Sys_Read (so_fd ?s) (so_size ?s)) ss = (q, ss1)" by fastforce
  have same: "ss_slot ss1 = ss_slot ss" using syscall_eq [OF q] by simp
  note step = assms(1) [unfolded forward_message_tcp_def Let_def q, simplified]
  consider "sr_ret q < 0" | "sr_ret q = 0" | "sr_ret q > 0" by linarith
  then show ?thesis
  proof cases
    case 1
    then show ?thesis using step same by (auto split: if_splits)
  next
    case 2
    then have "close_read os k ss1 = (the (map_option snd r), ss')" using step assms(2,3) by (auto split: prod.splits)
    then show ?thesis using assms(4) by (auto simp: close_read_def Let_def server_simps)
  next
    case 3
    have "same_stream ?s (ss_slot (upd_slot k (so_size_update f) (stat_read k n ss1)) k)" "same_stream ?s (ss_slot (stat_read k n ss1) k)" for f n
      by (simp_all add: server_simps same same_stream_def)
    then show ?thesis using step 3 same by (auto split: if_splits)
  qed
qed

lemma dispatch_same:
  assumes "dispatch_event os k e ss = Some (r, ss')" "so_type (ss_slot ss k) = T_CONNECTED" "\<not> so_closing (ss_slot ss k)" "so_protocol (ss_slot ss k) = P_TCP"
    "so_type (ss_slot ss' k) = T_CONNECTED" "ev_read e \<or> \<not> ev_write e"
  shows "same_stream (ss_slot ss k) (ss_slot ss' k)"
proof (cases "ev_read e")
  case True
  then have "event_read os k e ss = Some (r, ss')" using assms(1,2) by (simp add: dispatch_event_def)
  then obtain q ss1 where "forward_message_tcp os k ss = Some (q, ss1)" "ss_slot ss' = ss_slot ss1"
    using assms(4) by (auto simp: event_read_def Let_def bind_Some_iff repeat_event_def split: if_splits)
  then show ?thesis using tcp_same [of os k ss q ss1] assms(2,3,5) by simp
next
  case False
  then show ?thesis using assms
    by (auto simp: dispatch_event_def event_error_def event_eof_def Let_def bind_Some_iff server_simps
      split: if_splits prod.splits dest!: force_close_steps(3) syscall_eq)
qed

subsection \<open>Calls that send\<close>

lemma queue_flow:
  assumes "queue_send High buf ss = Some (n, ss')" "flow fd f acc ss" "so_protocol (ss_slot ss (HASH_ID fd)) = P_TCP" "sb_id buf = fd"
  shows "flow fd f (acc @ sb_data buf) ss'" "n = 0"
proof -
  let ?k = "HASH_ID fd"
  let ?s = "ss_slot ss ?k" and ?m = "sends_in fd (ss_pipe ss)"
  have f: "so_sending ?s = ID_TAG16 fd * 65536 + ?m" "?m < 65536" using assms(2) by (simp_all add: flow_def Let_def)
  have tag: "so_sending ?s div 65536 = ID_TAG16 fd" "so_sending ?s mod 65536 = ?m" using f by simp_all
  have n: "?m \<noteq> 65535" "n = 0" "ss' = send_request (R_Send High fd (clone_buffer buf)) (upd_slot ?k (so_sending_update (\<lambda>n. n + 1)) ss)"
    using assms(1,3,4) tag by (auto simp: queue_send_def inc_sending_ref_def Let_def bind_Some_iff split: if_splits)
  then show "flow fd f (acc @ sb_data buf) ss'" "n = 0"
    using assms(2) by (auto simp: flow_def Let_def send_request_def server_simps core_def waiting_def direct_rest_def clone_buffer_def split: option.splits)
qed

lemma send_flow:
  assumes "posix os" "socket_server_send os buf ss = Some (n, ss')" "sb_id buf = fd" "streaming fd ss" "flow fd f acc ss"
  shows "flow fd f (acc @ sb_data buf) ss'" "n = 0"
proof -
  let ?k = "HASH_ID fd" and ?data = "sb_data buf"
  let ?s = "ss_slot ss ?k"
  have st: "so_id ?s = fd" "so_type ?s = T_CONNECTED" "so_protocol ?s = P_TCP" "\<not> so_closing ?s" using assms(4) by (simp_all add: streaming_def)
  obtain l ss1 where l: "syscall os (Try_Lock ?k) ss = (l, ss1)" by fastforce
  note e1 = syscall_eq [OF l]
  have f1: "flow fd f acc ss1"
    by (rule flow_keep [OF assms(5)]) (use e1 assms(5) in \<open>simp_all add: flow_def Let_def written_other\<close>)
  have "flow fd f (acc @ ?data) ss' \<and> n = 0"
  proof (cases "can_direct_write ?s fd \<and> sr_ret l \<noteq> 0")
    case False
    then have "queue_send High buf ss = Some (n, ss') \<or> queue_send High buf ss1 = Some (n, ss')"
      using assms(2,3) st l by (auto simp: socket_server_send_def socket_invalid_def Let_def split: if_splits)
    then show ?thesis using queue_flow [of buf ss n ss' fd f acc] queue_flow [of buf ss1 n ss' fd f acc] assms(3,5) f1 st e1 by auto
  next
    case True
    then have empty: "so_high ?s = []" "so_low ?s = []" "so_dw_buffer ?s = None" "so_sending ?s mod 65536 = 0"
      using st by (auto simp: can_direct_write_def nomore_sending_data_def send_buffer_empty_def)
    have "sends_in fd (ss_pipe ss) = 0" using empty(4) assms(5) by (auto simp: flow_def Let_def)
    then have q: "queued fd (ss_pipe ss) = []" by (rule no_sends_queued)
    have acc: "acc = written (so_fd ?s) (ss_trace ss1)"
      using f1 empty q e1 by (simp add: flow_def Let_def waiting_def direct_rest_def)
    obtain w ss2 where w: "syscall os (Sys_Write (so_fd ?s) ?data) ss1 = (w, ss2)" by fastforce
    note e2 = syscall_eq [OF w]
    have le: "sr_ret w \<le> int (length ?data)" using w assms(1) by (auto simp: syscall_def posix_def Let_def)
    define m where "m = (if sr_ret w < 0 then 0 else sr_ret w)"
    have m: "0 \<le> m" "m \<le> int (length ?data)" using le by (auto simp: m_def)
    have wr: "written (so_fd ?s) (ss_trace ss2) = acc @ take (nat m) ?data" using e2 acc by (simp add: written_append m_def)
    have dw: "direct_write os ?k ?data ss1 = (Some m, ss2)" using w e1 st by (simp add: direct_write_def m_def)
    let ?ss3 = "stat_write ?k m ss2"
    have slot3: "ss_slot ?ss3 ?k = ?s\<lparr>so_stat := so_stat (ss_slot ?ss3 ?k)\<rparr>" "ss_pipe ?ss3 = ss_pipe ss" "ss_trace ?ss3 = ss_trace ss2"
      using e1 e2 by (simp_all add: server_simps)
    show ?thesis
    proof (cases "m = int (length ?data)")
      case all: True
      then have "n = 0" "ss' = free_buffer buf ?ss3" using assms(2,3) st l True dw by (auto simp: socket_server_send_def socket_invalid_def Let_def)
      then show ?thesis using assms(5) wr all empty q e1 e2
        by (simp add: flow_def Let_def free_buffer_def server_simps waiting_def direct_rest_def core_def)
    next
      case part: False
      then have "n = 0" and ss': "ss' = send_request (R_Trigger fd) (upd_slot ?k (\<lambda>s. s\<lparr>so_dw_buffer := Some (clone_buffer buf), so_dw_offset := nat m\<rparr>) ?ss3)"
        using assms(2,3) st l True dw by (auto simp: socket_server_send_def socket_invalid_def Let_def)
      have "nat m \<le> length ?data" using m by simp
      then show ?thesis using \<open>n = 0\<close> assms(5) wr empty q e1 e2
        by (simp add: ss' flow_def Let_def send_request_def server_simps waiting_def direct_rest_def core_def clone_buffer_def)
    qed
  qed
  then show "flow fd f (acc @ ?data) ss'" "n = 0" by simp_all
qed

text \<open>A call that sends for another number.\<close>

definition elsewhere :: "int \<Rightarrow> socket_server \<Rightarrow> socket_server \<Rightarrow> bool" where
  "elsewhere fd ss ss' \<longleftrightarrow> same_stream (ss_slot ss (HASH_ID fd)) (ss_slot ss' (HASH_ID fd)) \<and>
     (core (ss_slot ss (HASH_ID fd)) \<longrightarrow> core (ss_slot ss' (HASH_ID fd))) \<and>
     (\<exists>reqs. ss_pipe ss' = ss_pipe ss @ reqs \<and> (\<forall>req \<in> set reqs. send_for fd req = None \<and> orderly fd req)) \<and>
     written (so_fd (ss_slot ss (HASH_ID fd))) (ss_trace ss') = written (so_fd (ss_slot ss (HASH_ID fd))) (ss_trace ss)"

lemma elsewhere_flow: "elsewhere fd ss ss' \<Longrightarrow> flow fd f acc ss \<Longrightarrow> flow fd f acc ss'"
proof -
  assume e: "elsewhere fd ss ss'" and f: "flow fd f acc ss"
  then obtain reqs where r: "ss_pipe ss' = ss_pipe ss @ reqs" "\<forall>req \<in> set reqs. send_for fd req = None \<and> orderly fd req" by (auto simp: elsewhere_def)
  have "queued fd reqs = []" "sends_in fd reqs = 0" using r(2) by (induction reqs) auto
  then show ?thesis
    by (intro flow_keep [OF f]) (use e f r in \<open>auto simp: elsewhere_def flow_def Let_def\<close>)
qed

lemma elsewhere_state:
  "ss_slot ss' = ss_slot ss \<Longrightarrow> ss_pipe ss' = ss_pipe ss \<Longrightarrow> unwritten ss ss' \<Longrightarrow> elsewhere fd ss ss'"
  by (simp add: elsewhere_def unwritten_def)

lemma elsewhere_request:
  "elsewhere fd ss ss1 \<Longrightarrow> send_for fd req = None \<Longrightarrow> orderly fd req \<Longrightarrow> elsewhere fd ss (send_request req ss1)"
  by (force simp: elsewhere_def send_request_def)

lemma elsewhere_slot:
  "elsewhere fd ss ss1 \<Longrightarrow> k \<noteq> HASH_ID fd \<Longrightarrow> elsewhere fd ss (upd_slot k f ss1)"
  by (simp add: elsewhere_def server_simps)

lemma elsewhere_refl [simp]: "elsewhere fd ss ss"
  by (simp add: elsewhere_state)

lemma elsewhere_cong:
  "ss_slot ss2 = ss_slot ss1 \<Longrightarrow> ss_pipe ss2 = ss_pipe ss1 \<Longrightarrow> unwritten ss1 ss2 \<Longrightarrow> elsewhere fd ss ss2 = elsewhere fd ss ss1"
  by (simp add: elsewhere_def unwritten_def)

lemma elsewhere_free: "elsewhere fd ss (free_buffer buf ss1) = elsewhere fd ss ss1"
  by (rule elsewhere_cong) (simp_all add: free_buffer_def server_simps unwritten_simps)

lemma elsewhere_syscall: "syscall os c ss1 = (r, ss2) \<Longrightarrow> \<not> is_write c \<Longrightarrow> elsewhere fd ss ss2 = elsewhere fd ss ss1"
  by (rule elsewhere_cong) (simp_all add: unwritten_syscall syscall_eq)

lemma elsewhere_call: "\<not> is_write c \<Longrightarrow> elsewhere fd ss (call os c ss1) = elsewhere fd ss ss1"
  by (rule elsewhere_cong) (simp_all add: server_simps unwritten_simps)

lemma elsewhere_stat: "k \<noteq> HASH_ID fd \<Longrightarrow> elsewhere fd ss ss1 \<Longrightarrow> elsewhere fd ss (stat_write k n ss1)"
  by (simp add: stat_write_def elsewhere_slot)

lemma other_slot:
  assumes "streaming fd ss" "i \<noteq> fd" "\<not> socket_invalid (ss_slot ss (HASH_ID i)) i"
  shows "HASH_ID i \<noteq> HASH_ID fd"
proof
  assume "HASH_ID i = HASH_ID fd"
  then show False using assms by (simp add: streaming_def socket_invalid_def)
qed

lemma queue_elsewhere:
  assumes "queue_send p buf ss1 = Some (n, ss')" "elsewhere fd ss ss1" "HASH_ID (sb_id buf) \<noteq> HASH_ID fd"
  shows "elsewhere fd ss ss'"
proof -
  obtain ss2 where i: "inc_sending_ref (sb_id buf) ss1 = Some ss2" "ss' = send_request (R_Send p (sb_id buf) (clone_buffer buf)) ss2"
    using assms(1) by (auto simp: queue_send_def bind_Some_iff)
  have "ss2 = ss1 \<or> ss2 = upd_slot (HASH_ID (sb_id buf)) (so_sending_update (\<lambda>n. n + 1)) ss1"
    using i(1) by (auto simp: inc_sending_ref_def Let_def split: if_splits)
  then have "elsewhere fd ss ss2" using elsewhere_slot [OF assms(2,3)] assms(2) by auto
  then show ?thesis using i(2) assms(3) by (auto intro!: elsewhere_request)
qed

lemma send_elsewhere:
  assumes "socket_server_send os buf ss = Some (n, ss')" "sb_id buf \<noteq> fd" "streaming fd ss"
  shows "elsewhere fd ss ss'"
proof (cases "socket_invalid (ss_slot ss (HASH_ID (sb_id buf))) (sb_id buf) \<or> so_closing (ss_slot ss (HASH_ID (sb_id buf)))")
  case True
  then show ?thesis using assms(1) by (auto simp: socket_server_send_def Let_def elsewhere_free)
next
  case False
  let ?k = "HASH_ID (sb_id buf)"
  let ?s = "ss_slot ss ?k"
  have k: "?k \<noteq> HASH_ID fd" using other_slot [OF assms(3,2)] False by simp
  obtain l ss1 where l: "syscall os (Try_Lock ?k) ss = (l, ss1)" by fastforce
  have e1: "elsewhere fd ss ss1" "ss_slot ss1 = ss_slot ss" using elsewhere_syscall [OF l] syscall_eq [OF l] by simp_all
  show ?thesis
  proof (cases "can_direct_write ?s (sb_id buf) \<and> sr_ret l \<noteq> 0")
    case queue: False
    then have "queue_send High buf ss = Some (n, ss') \<or> queue_send High buf ss1 = Some (n, ss')"
      using assms(1) False l by (auto simp: socket_server_send_def Let_def split: if_splits)
    then show ?thesis using queue_elsewhere [OF _ _ k] e1(1) elsewhere_refl by blast
  next
    case True
    then have "so_type ?s = T_CONNECTED" by (auto simp: can_direct_write_def)
    then have fd: "so_fd ?s \<noteq> so_fd (ss_slot ss (HASH_ID fd))" using assms(3) k by (simp add: streaming_def)
    obtain d ss2 where d: "direct_write os ?k (sb_data buf) ss1 = (d, ss2)" by fastforce
    have e2: "elsewhere fd ss ss2"
    proof (cases "so_protocol ?s = P_TCP")
      case True
      then obtain w where "syscall os (Sys_Write (so_fd ?s) (sb_data buf)) ss1 = (w, ss2)" using d e1(2) by (auto simp: direct_write_def Let_def split: prod.splits)
      then show ?thesis using e1(1) syscall_eq fd by (fastforce simp: elsewhere_def written_append)
    next
      case False
      then show ?thesis using d e1 by (auto simp: direct_write_def Let_def elsewhere_syscall elsewhere_call split: prod.splits option.splits)
    qed
    have "ss' = free_buffer buf ss2 \<or> (\<exists>m. ss' = free_buffer buf (stat_write ?k m ss2)) \<or>
        (\<exists>m f. ss' = send_request (R_Trigger (sb_id buf)) (upd_slot ?k f (stat_write ?k m ss2)))"
      using assms(1) False l True d by (auto simp: socket_server_send_def Let_def split: option.splits if_splits)
    moreover have "elsewhere fd ss (stat_write ?k m ss2)" for m by (rule elsewhere_stat [OF k e2])
    ultimately show ?thesis using e2 elsewhere_slot [OF _ k] by (auto simp: elsewhere_free intro!: elsewhere_request)
  qed
qed

lemma send_low_elsewhere:
  assumes "socket_server_send_lowpriority buf ss = Some (n, ss')" "sb_id buf \<noteq> fd" "streaming fd ss"
  shows "elsewhere fd ss ss'"
proof (cases "socket_invalid (ss_slot ss (HASH_ID (sb_id buf))) (sb_id buf)")
  case True
  then show ?thesis using assms(1) by (auto simp: socket_server_send_lowpriority_def elsewhere_free)
next
  case False
  then have "queue_send Low buf ss = Some (n, ss')" using assms(1) by (simp add: socket_server_send_lowpriority_def)
  then show ?thesis using queue_elsewhere elsewhere_refl other_slot [OF assms(3,2) False] by blast
qed

lemma udp_send_elsewhere:
  assumes "socket_server_udp_send os a buf ss = (n, ss')" "sb_id buf \<noteq> fd" "streaming fd ss"
  shows "elsewhere fd ss ss'"
proof (cases "socket_invalid (ss_slot ss (HASH_ID (sb_id buf))) (sb_id buf)")
  case True
  then show ?thesis using assms(1) by (auto simp: socket_server_udp_send_def Let_def elsewhere_free)
next
  case False
  let ?k = "HASH_ID (sb_id buf)"
  have k: "?k \<noteq> HASH_ID fd" by (rule other_slot [OF assms(3,2) False])
  obtain l ss1 where l: "syscall os (Try_Lock ?k) ss = (l, ss1)" by fastforce
  have e1: "elsewhere fd ss ss1" using elsewhere_syscall [OF l] by simp
  have q: "elsewhere fd ss (send_request (R_Send_Udp (sb_id buf) p b) s)" if "elsewhere fd ss s" for p b s
    using that assms(2) by (intro elsewhere_request) simp_all
  show ?thesis using assms(1) False l e1 q elsewhere_stat [OF k]
    by (auto simp: socket_server_udp_send_def Let_def elsewhere_free elsewhere_syscall split: if_splits option.splits prod.splits)
qed

lemma udp_connect_elsewhere:
  assumes "socket_server_udp_connect os i addr port ss = (n, ss')"
  shows "elsewhere fd ss ss'"
proof -
  let ?ss1 = "upd_slot (HASH_ID i) (so_udpconnecting_update (\<lambda>n. n + 1)) ss"
  have e1: "elsewhere fd ss ?ss1" by (cases "HASH_ID i = HASH_ID fd") (auto simp: elsewhere_def server_simps core_def same_stream_def)
  obtain r ss2 where r: "syscall os (Sys_Getaddrinfo addr port) ?ss1 = (r, ss2)" by fastforce
  have "elsewhere fd ss ss2" using elsewhere_syscall [OF r] e1 by simp
  then show ?thesis using assms r e1 by (auto simp: socket_server_udp_connect_def Let_def split: if_splits prod.splits intro!: elsewhere_request)
qed

lemma hands_out_elsewhere:
  assumes "hands_out i ss ss'" "streaming fd ss" "unwritten ss ss'"
  shows "elsewhere fd ss ss'"
proof -
  have k: "HASH_ID i \<noteq> HASH_ID fd"
  proof
    assume "HASH_ID i = HASH_ID fd"
    then show False using assms(1,2) by (simp add: hands_out_def streaming_def)
  qed
  obtain req where "ss_pipe ss' = ss_pipe ss @ [req]" "opens req" using assms(1) by (auto simp: hands_out_def)
  moreover from this(2) have "send_for fd req = None" "orderly fd req" by (cases req; simp add: opens_def)+
  ultimately show ?thesis using assms(1,3) k by (auto simp: elsewhere_def hands_out_def unwritten_def)
qed

subsection \<open>Rounds of the poll\<close>

lemma flow_core: "flow fd f acc ss \<Longrightarrow> core (ss_slot ss (HASH_ID fd))"
  by (simp add: flow_def Let_def)

lemma ctrl_cmd_flow:
  assumes "numbered ss" "ss_pipe ss = req # pipe" "ctrl_cmd os req (ss\<lparr>ss_pipe := pipe\<rparr>) = Some (r, ss')"
    "streaming fd ss" "streaming fd ss'" "flow fd f acc ss"
  shows "flow fd f acc ss'"
proof -
  let ?k = "HASH_ID fd" and ?s0 = "ss\<lparr>ss_pipe := pipe\<rparr>"
  have wr: "written i (ss_trace ss') = written i (ss_trace ss)" for i
    using unwritten_ctrl [OF assms(3), of ss] by (simp add: unwritten_simps) (simp add: unwritten_def)
  have ord: "\<forall>q \<in> set pipe. orderly fd q" "orderly fd req" using assms(2,6) by (simp_all add: flow_def Let_def)
  have keep: "flow fd f acc ss'" if "send_for fd req = None" "ss_pipe ss' = pipe"
      "same_stream (ss_slot ss ?k) (ss_slot ss' ?k)" "core (ss_slot ss' ?k)"
    by (rule flow_keep [OF assms(6) that(3,4)]) (use that assms(2) ord wr in simp_all)
  have untouched: "flow fd f acc ss'" if "send_for fd req = None" "ss_pipe ss' = pipe" "ss_slot ss' ?k = ss_slot ss ?k"
    by (rule keep [OF that(1,2)]) (use that(3) flow_core [OF assms(6)] in simp_all)
  show ?thesis
  proof (cases "request_id req")
    case None
    then have "req = R_Exit" by (cases req) simp_all
    then show ?thesis using untouched assms(3) by (auto simp: ctrl_cmd_def)
  next
    case (Some i)
    show ?thesis
    proof (cases "opens req")
      case True
      have "so_type (ss_slot ss (HASH_ID i)) = T_RESERVE" using numbered_opens [OF assms(1) _ True Some] assms(2) by simp
      then have k: "?k \<noteq> HASH_ID i" using assms(4) by (auto simp: streaming_def)
      have "send_for fd req = None" using True by (cases req) (simp_all add: opens_def)
      then show ?thesis using untouched ctrl_cmd_opened [OF assms(3) Some True] k by (simp add: opened_def only_slot_def)
    next
      case False
      note pop = pop_numbered [OF assms(1,2) False]
      have inv: "\<not> socket_invalid (ss_slot ?s0 (HASH_ID i)) i \<Longrightarrow> so_type (ss_slot ?s0 (HASH_ID i)) \<noteq> T_RESERVE"
        using pop(2) [OF Some] by (simp add: socket_invalid_def)
      have only: "only_slot (HASH_ID i) ?s0 ss'" using ctrl_cmd_lives [OF assms(3) Some False inv] by (simp add: lives_def)
      then have p': "ss_pipe ss' = pipe" by (simp add: only_slot_def)
      have s: "so_id (ss_slot ss ?k) = fd" "so_type (ss_slot ss ?k) = T_CONNECTED" "so_protocol (ss_slot ss ?k) = P_TCP"
          "\<not> so_closing (ss_slot ss ?k)" "so_type (ss_slot ss' ?k) = T_CONNECTED"
        using assms(4,5) by (simp_all add: streaming_def)
      show ?thesis
      proof (cases "i = fd")
        case other: False
        have "send_for fd req = None" using Some other by (cases req) simp_all
        moreover have "ss_slot ss' ?k = ss_slot ss ?k"
        proof (cases "HASH_ID i = ?k")
          case True
          then show ?thesis using ctrl_cmd_invalid [OF assms(3) Some False] s(1) other by simp
        next
          case False
          then show ?thesis using only by (simp add: only_slot_def)
        qed
        ultimately show ?thesis using untouched p' by blast
      next
        case True
        note Some = Some [unfolded True] and inv = inv [unfolded True]
        show ?thesis
        proof (cases "send_for fd req")
          case None
          then have "\<nexists>p buf. req = R_Send p fd buf" by auto
          then have "steps ?k ?s0 (r, ss')" using ctrl_cmd_steps [OF assms(3) Some False _ inv] by blast
          then have "core (ss_slot ss' ?k)" using flow_core [OF assms(6)] by (simp add: steps_def)
          moreover have "same_stream (ss_slot ss ?k) (ss_slot ss' ?k)"
            using ctrl_cmd_same [OF assms(3) Some False None ord(2)] s by simp
          ultimately show ?thesis using keep None p' by blast
        next
          case (Some d)
          then obtain buf where req: "req = R_Send High fd buf" "d = pl_data buf" using ord(2) by (cases req) (auto split: if_splits)
          then obtain ss1 where snd: "send_socket os fd buf High None ?s0 = (r, ss1)" "dec_sending_ref fd ss1 = Some ss'"
            using assms(3) by (auto simp: ctrl_cmd_def bind_Some_iff split: prod.splits)
          have st: "steps ?k ?s0 (r, ss1)" using send_socket_steps [OF snd(1)] by (simp add: appends_def)
          have s1: "core (ss_slot ss1 ?k)" "so_id (ss_slot ss1 ?k) = fd" "so_protocol (ss_slot ss1 ?k) = P_TCP" "so_fd (ss_slot ss1 ?k) = so_fd (ss_slot ss ?k)"
              "so_sending (ss_slot ss1 ?k) = so_sending (ss_slot ss ?k)" "ss_pipe ss1 = pipe"
            using st flow_core [OF assms(6)] s by (simp_all add: steps_def keeps_def lives_def socket_keeps_def only_slot_def)
          have w: "waiting (ss_slot ss1 ?k) = waiting (ss_slot ss ?k) @ d" "so_low (ss_slot ss1 ?k) = so_low (ss_slot ss ?k)"
            using send_socket_stream [OF snd(1)] s req(2) by simp_all
          have dec: "ss' = upd_slot ?k (so_sending_update (\<lambda>n. n - 1)) ss1"
            using snd(2) s1(2,3) by (auto simp: dec_sending_ref_def Let_def split: if_splits)
          show ?thesis using assms(2,6) s1 w wr req ord(1)
            by (auto simp: flow_def Let_def dec server_simps core_def waiting_def direct_rest_def split: option.splits)
        qed
      qed
    qed
  qed
qed


lemma unwritten_dispatch:
  assumes "dispatch_event os k e ss = Some (r, ss')" "\<not> (ev_write e \<and> \<not> ev_read e)"
  shows "unwritten z ss' = unwritten z ss"
proof (cases "ev_read e")
  case True
  then show ?thesis using assms(1)
    by (auto simp: dispatch_event_def bind_Some_iff unwritten_report_connect unwritten_report_accept unwritten_event_read unwritten_simps
      split: socket_type.splits)
next
  case False
  then show ?thesis using assms
    by (auto simp: dispatch_event_def bind_Some_iff unwritten_report_connect unwritten_report_accept unwritten_event_error unwritten_event_eof unwritten_simps
      split: socket_type.splits if_splits)
qed

lemma steps_flow:
  assumes "flow fd f acc ss" "steps (HASH_ID fd) ss (r, ss')" "same_stream (ss_slot ss (HASH_ID fd)) (ss_slot ss' (HASH_ID fd))" "unwritten ss ss'"
  shows "flow fd f acc ss'"
proof (rule flow_keep [OF assms(1,3)])
  show "core (ss_slot ss' (HASH_ID fd))" using assms(1,2) by (simp add: steps_def flow_def Let_def)
  show "queued fd (ss_pipe ss') = queued fd (ss_pipe ss)" "sends_in fd (ss_pipe ss') = sends_in fd (ss_pipe ss)" "\<forall>req\<in>set (ss_pipe ss'). orderly fd req"
    using assms(1,2) by (simp_all add: steps_def keeps_def lives_def only_slot_def flow_def Let_def)
qed (use assms(4) in \<open>simp add: unwritten_def\<close>)

lemma dispatch_flow:
  assumes "posix os" "numbered ss" "dispatch_event os k e ss = Some (r, ss')" "streaming fd ss" "streaming fd ss'" "flow fd f acc ss"
  shows "flow fd f acc ss'"
proof -
  let ?k = "HASH_ID fd"
  have s: "so_type (ss_slot ss ?k) = T_CONNECTED" "so_protocol (ss_slot ss ?k) = P_TCP" "\<not> so_closing (ss_slot ss ?k)" "so_type (ss_slot ss' ?k) = T_CONNECTED"
    using assms(4,5) by (simp_all add: streaming_def)
  have low: "so_low (ss_slot ss ?k) = []" using assms(6) by (simp add: flow_def Let_def)
  have act: "active (ss_slot ss k)" if "so_type (ss_slot ss k) \<noteq> T_INVALID"
    using that numbered_reserved [OF assms(2), of k] by (auto simp: active_def)
  show ?thesis
  proof (cases "k = ?k")
    case True
    have st: "steps ?k ss (r, ss')" using dispatch_event_steps [OF assms(1,3)] True s act by simp
    show ?thesis
    proof (cases "ev_write e \<and> \<not> ev_read e")
      case False
      then have "same_stream (ss_slot ss ?k) (ss_slot ss' ?k)" using dispatch_same [OF assms(3)] s True by auto
      moreover have "unwritten ss ss'" using unwritten_dispatch [OF assms(3) False] by simp
      ultimately show ?thesis by (rule steps_flow [OF assms(6) st])
    next
      case w: True
      have "send_buffer os k ss = Some (r, ss')" using assms(3) w True s(1) by (simp add: dispatch_event_def)
      note stream = send_buffer_stream [OF assms(1) this [unfolded True] s(1,2) low s(4)]
      then show ?thesis using st assms(6) stream
        by (auto simp: flow_def Let_def steps_def keeps_def lives_def only_slot_def socket_keeps_def)
    qed
  next
    case other: False
    show ?thesis
    proof (cases "so_type (ss_slot ss k) = T_LISTEN")
      case True
      then obtain n m where a: "report_accept os k ss = Some ((n, m), ss')" using assms(3) by (auto simp: dispatch_event_def bind_Some_iff split: if_splits)
      have "unwritten ss ss'" using unwritten_report_accept [OF a, of ss] by simp
      moreover note ra = report_accept_result [OF a]
      have free: "so_type (ss_slot ss (HASH_ID i)) = T_INVALID \<Longrightarrow> ?k \<noteq> HASH_ID i" for i using s(1) by auto
      have "ss_pipe ss' = ss_pipe ss" "same_socket (ss_slot ss ?k) (ss_slot ss' ?k)"
        using ra True same_socket_simps(1) [of "ss_slot ss ?k"] free by (metis socket_type.distinct(1) socket_type.simps)+
      then have "elsewhere fd ss ss'" using \<open>unwritten ss ss'\<close>
        by (cases "ss_slot ss ?k"; cases "ss_slot ss' ?k") (auto simp: elsewhere_def same_socket_def same_stream_def core_def unwritten_def)
      then show ?thesis using assms(6) elsewhere_flow by blast
    next
      case False
      have st: "steps k ss (r, ss')" using dispatch_event_steps [OF assms(1,3) False] act by blast
      have "written (so_fd (ss_slot ss ?k)) (ss_trace ss') = written (so_fd (ss_slot ss ?k)) (ss_trace ss)"
      proof (cases "ev_write e \<and> \<not> ev_read e \<and> so_type (ss_slot ss k) \<noteq> T_INVALID \<and> so_type (ss_slot ss k) \<noteq> T_CONNECTING")
        case w: True
        then have "send_buffer os k ss = Some (r, ss')" using assms(3) False by (simp add: dispatch_event_def split: socket_type.splits)
        moreover have "foreign (so_fd (ss_slot ss ?k)) (ss_slot ss k)" using assms(4) other by (simp add: foreign_def streaming_def)
        ultimately show ?thesis using send_buffer_foreign [OF assms(1)] act w by blast
      next
        case w: False
        have "unwritten ss ss'"
        proof (cases "ev_write e \<and> \<not> ev_read e")
          case True
          then show ?thesis using assms(3) w by (auto simp: dispatch_event_def unwritten_report_connect unwritten_simps)
        next
          case False
          then show ?thesis using unwritten_dispatch [OF assms(3) False] by simp
        qed
        then show ?thesis by (simp add: unwritten_def)
      qed
      then have "elsewhere fd ss ss'" using st other by (simp add: elsewhere_def steps_def keeps_def lives_def only_slot_def)
      then show ?thesis using assms(6) elsewhere_flow by blast
    qed
  qed
qed

lemma flow_cong: "ss_slot ss' = ss_slot ss \<Longrightarrow> ss_pipe ss' = ss_pipe ss \<Longrightarrow> unwritten ss ss' \<Longrightarrow> flow fd f acc ss' = flow fd f acc ss"
  by (simp add: flow_def unwritten_def)

lemma streaming_cong: "ss_slot ss' = ss_slot ss \<Longrightarrow> streaming fd ss' = streaming fd ss"
  by (simp add: streaming_def)

lemma poll_event_flow:
  assumes "posix os" "numbered ss" "poll_event os ss = Some (r, ss')" "streaming fd ss" "streaming fd ss'" "flow fd f acc ss"
  shows "flow fd f acc ss'"
proof -
  let ?e = "ss_ev ss ! ss_event_index ss" and ?ss1 = "ss\<lparr>ss_event_index := ss_event_index ss + 1\<rparr>"
  have f1: "numbered ?ss1" "streaming fd ?ss1" "flow fd f acc ?ss1"
    using assms(2,4,6) numbered_cong [of ?ss1 ss] streaming_cong [of ?ss1 ss] flow_cong [of ?ss1 ss] by (simp_all add: unwritten_simps)
  show ?thesis
  proof (cases "ev_s ?e")
    case None
    then show ?thesis using assms(3) f1(3) by (auto simp: poll_event_def Let_def split: if_splits)
  next
    case (Some k)
    then have "dispatch_event os k ?e ?ss1 = Some (r, ss')" using assms(3) by (auto simp: poll_event_def Let_def split: if_splits)
    then show ?thesis using dispatch_flow [OF assms(1) f1(1) _ f1(2) assms(5) f1(3)] by blast
  qed
qed

lemma event_round_flow:
  assumes "posix os" "numbered ss" "event_round os ss = Some ((r, more1), ss')" "streaming fd ss" "streaming fd ss'" "flow fd f acc ss"
  shows "flow fd f acc ss'"
proof (cases "ss_event_index ss = ss_event_n ss")
  case False
  then have "poll_event os ss = Some (r, ss')" using assms(3) by (auto simp: event_round_def bind_Some_iff)
  then show ?thesis using poll_event_flow assms by blast
next
  case True
  obtain q ss1 where q: "syscall os Poll_Wait ss = (q, ss1)" by fastforce
  define ss2 where "ss2 = ss1\<lparr>ss_checkctrl := True, ss_event_index := 0, ss_event_n := nat (sr_ret q), ss_ev := sr_events q\<rparr>"
  have same: "ss_slot ss2 = ss_slot ss" "ss_pipe ss2 = ss_pipe ss" "unwritten ss ss2"
    using syscall_eq [OF q] by (simp_all add: ss2_def unwritten_def written_other)
  show ?thesis
  proof (cases "sr_ret q \<le> 0")
    case wait: True
    have "ss' = (if sr_errno q \<noteq> EINTR then call os (Log (strerror os (sr_errno q))) ss2 else ss2)"
      using assms(3) True q wait by (auto simp: event_round_def Let_def ss2_def)
    then have "ss_slot ss' = ss_slot ss" "ss_pipe ss' = ss_pipe ss" "unwritten ss ss'"
      using same by (simp_all add: server_simps unwritten_simps)
    then show ?thesis using flow_cong assms(6) by blast
  next
    case False
    then have "poll_event os ss2 = Some (r, ss')" using assms(3) True q by (auto simp: event_round_def Let_def ss2_def bind_Some_iff)
    then show ?thesis
      using poll_event_flow [OF assms(1)] numbered_cong [OF same(1,2)] streaming_cong [OF same(1)] flow_cong [OF same] assms(2,4-6) by blast
  qed
qed

lemma poll_round_flow:
  assumes "posix os" "numbered ss" "poll_round os ss = Some ((r, more1), ss')" "streaming fd ss" "streaming fd ss'" "flow fd f acc ss"
  shows "flow fd f acc ss'"
proof (cases "ss_checkctrl ss")
  case False
  then show ?thesis using assms event_round_flow by (simp add: poll_round_def)
next
  case True
  show ?thesis
  proof (cases "ss_pipe ss")
    case Nil
    let ?s = "ss\<lparr>ss_checkctrl := False\<rparr>"
    have "event_round os ?s = Some ((r, more1), ss')" using assms(3) True Nil by (simp add: poll_round_def)
    moreover have "numbered ?s" "streaming fd ?s" "flow fd f acc ?s"
      using numbered_cong [of ?s ss] streaming_cong [of ?s ss] flow_cong [of ?s ss] assms(2,4,6) by (simp_all add: unwritten_simps)
    ultimately show ?thesis using event_round_flow [OF assms(1)] assms(5) by blast
  next
    case (Cons req pipe)
    then obtain ss1 where c: "ctrl_cmd os req (ss\<lparr>ss_pipe := pipe\<rparr>) = Some (r, ss1)" "ss' = clear_closed_event r ss1"
      using assms(3) True by (auto simp: poll_round_def bind_Some_iff)
    have "unwritten ss1 ss'" by (auto simp: c(2) clear_closed_event_def Let_def unwritten_simps split: option.splits)
    then have "flow fd f acc ss' = flow fd f acc ss1" "streaming fd ss' = streaming fd ss1"
      using flow_cong [of ss' ss1] streaming_cong [of ss' ss1] by (simp_all add: c(2))
    then show ?thesis using ctrl_cmd_flow [OF assms(2) Cons c(1)] assms(4-6) by blast
  qed
qed

subsection \<open>Runs\<close>

text \<open>A call that hands out a number, or none.\<close>

lemma not_handed_elsewhere:
  assumes "reserve_id ss1 = (i, ss2)" "i < 0" "elsewhere fd ss ss1"
  shows "elsewhere fd ss ss2"
proof -
  have "ss_slot ss2 = ss_slot ss1" "ss_pipe ss2 = ss_pipe ss1" using reserve_id_result [OF assms(1)] assms(2) by auto
  moreover have "unwritten ss1 ss2" using unwritten_reserve [OF assms(1), of ss1] by simp
  ultimately show ?thesis using elsewhere_cong assms(3) by blast
qed

lemma connect_elsewhere: "socket_server_connect os q addr port ss = (i, ss') \<Longrightarrow> i < 0 \<Longrightarrow> elsewhere fd ss ss'"
  by (auto simp: socket_server_connect_def elsewhere_call not_handed_elsewhere split: if_splits prod.splits)

lemma bind_elsewhere: "socket_server_bind q sock ss = (i, ss') \<Longrightarrow> i < 0 \<Longrightarrow> elsewhere fd ss ss'"
  by (auto simp: socket_server_bind_def not_handed_elsewhere split: if_splits prod.splits)

lemma listen_elsewhere:
  assumes "socket_server_listen os q host port backlog ss = (i, ss')" "i < 0"
  shows "elsewhere fd ss ss'"
proof -
  obtain sock ss1 where l: "do_listen os host port backlog ss = (sock, ss1)" by fastforce
  have "elsewhere fd ss ss1" using do_listen_state [OF l] unwritten_do_listen [OF l, of ss] by (simp add: elsewhere_state)
  then show ?thesis using assms l by (auto simp: socket_server_listen_def elsewhere_call not_handed_elsewhere split: if_splits prod.splits)
qed

lemma udp_elsewhere:
  assumes "socket_server_udp os q host port ss = (i, ss')" "i < 0"
  shows "elsewhere fd ss ss'"
proof -
  obtain sock family ss1 where b: "(if port \<noteq> 0 \<or> host \<noteq> None then do_bind os host port ss
      else let (r, s1) = syscall os (Sys_Socket AF_INET) ss in ((sr_ret r, AF_INET), s1)) = ((sock, family), ss1)"
    by (metis prod.exhaust)
  have "ss_slot ss1 = ss_slot ss \<and> ss_pipe ss1 = ss_pipe ss"
    using b do_bind_state by (auto simp: server_simps dest!: syscall_eq split: if_splits prod.splits)
  moreover have "unwritten ss ss1"
    using b unwritten_do_bind by (auto simp: unwritten_calls split: if_splits prod.splits)
  ultimately have "elsewhere fd ss ss1" by (simp add: elsewhere_state)
  then show ?thesis using assms unfolding socket_server_udp_def b
    by (auto simp: elsewhere_call not_handed_elsewhere split: if_splits prod.splits)
qed

lemma query_info_state: "query_info os ntop k ss = (r, ss') \<Longrightarrow> ss_slot ss' = ss_slot ss \<and> ss_pipe ss' = ss_pipe ss"
  by (auto simp: query_info_def Let_def dest!: syscall_eq split: socket_type.splits if_splits prod.splits)

lemma info_loop_state: "info_loop os ntop ks si ss = (r, ss') \<Longrightarrow> ss_slot ss' = ss_slot ss \<and> ss_pipe ss' = ss_pipe ss"
proof (induction os ntop ks si ss rule: info_loop.induct)
  case (2 os ntop k ks si ss)
  obtain q ss1 where q: "query_info os ntop k ss = (q, ss1)" by fastforce
  then show ?case using 2(1) [OF q [symmetric]] 2(2) query_info_state [OF q] by simp
qed simp

text \<open>The data that a call took over for the stream; other ways to send are not used for it.\<close>

fun accepted :: "int \<Rightarrow> occurrence \<Rightarrow> bytes" where
  "accepted fd (Sends buf n) = (if sb_id buf = fd \<and> n = 0 then sb_data buf else [])"
| "accepted fd _ = []"

fun only_sends :: "int \<Rightarrow> occurrence \<Rightarrow> bool" where
  "only_sends fd (Sends_Low buf n) = (sb_id buf \<noteq> fd)"
| "only_sends fd (Sends_Udp buf n) = (sb_id buf \<noteq> fd)"
| "only_sends fd _ = True"

lemma server_step_flow:
  assumes "posix os" "numbered ss" "server_step os ss l ss'" "only_sends fd l" "streaming fd ss" "streaming fd ss'" "flow fd f acc ss"
  shows "flow fd f (acc @ accepted fd l) ss'"
proof -
  have other: ?thesis if "elsewhere fd ss ss'" "accepted fd l = []" using elsewhere_flow [OF that(1) assms(7)] that(2) by simp
  have req: ?thesis if "send_for fd q = None" "orderly fd q" "ss' = send_request q ss" "l = Called" for q
    using other elsewhere_request [OF elsewhere_refl that(1,2)] that(3,4) by simp
  have hand: ?thesis if "(0 \<le> i \<longrightarrow> hands_out i ss ss') \<and> (i < 0 \<longrightarrow> calls ss ss')" "i < 0 \<Longrightarrow> elsewhere fd ss ss'" "unwritten ss ss'" "l = Hands_Out i" for i
    using that hands_out_elsewhere [OF _ assms(5) that(3)] other by (cases "0 \<le> i") simp_all
  show ?thesis using assms(3)
  proof cases
    case (poll r more1)
    then show ?thesis using poll_round_flow [OF assms(1,2) _ assms(5-7)] by simp
  next
    case (connect q addr port i)
    then show ?thesis using hand [OF connect_hands_out connect_elsewhere] unwritten_connect [of os q addr port ss i ss' ss] by simp
  next
    case (listen q host port backlog i)
    then show ?thesis using hand [OF listen_hands_out listen_elsewhere] unwritten_listen [of os q host port backlog ss i ss' ss] by simp
  next
    case (bind q sock i)
    then show ?thesis using hand [OF bind_hands_out bind_elsewhere] unwritten_bind [of q sock ss i ss' ss] by simp
  next
    case (udp q host port i)
    then show ?thesis using hand [OF udp_hands_out udp_elsewhere] unwritten_create_udp [of os q host port ss i ss' ss] by simp
  next
    case (send buf n)
    show ?thesis
    proof (cases "sb_id buf = fd")
      case True
      then show ?thesis using send send_flow [OF assms(1) send(2) True assms(5,7)] by simp
    next
      case False
      then show ?thesis using send other send_elsewhere [OF send(2) False assms(5)] by simp
    qed
  next
    case (send_low buf n)
    then show ?thesis using other send_low_elsewhere [OF send_low(2) _ assms(5)] assms(4) by simp
  next
    case (udp_send a buf n)
    then show ?thesis using other udp_send_elsewhere [OF udp_send(2) _ assms(5)] assms(4) by simp
  next
    case (udp_connect i addr port n)
    then show ?thesis using other udp_connect_elsewhere by simp
  next
    case (updatetime time)
    have "elsewhere fd ss ss'" by (rule elsewhere_state) (simp_all add: updatetime socket_server_updatetime_def unwritten_def)
    then show ?thesis using other updatetime by simp
  next
    case (info ntop si)
    then have i: "info_loop os ntop [0..<MAX_SOCKET] [] ss = (si, ss')" by (simp add: socket_server_info_def)
    have "elsewhere fd ss ss'" using info_loop_state [OF i] unwritten_info [OF i, of ss] by (simp add: elsewhere_state)
    then show ?thesis using other info by simp
  qed (use req in \<open>simp_all add: socket_server_exit_def socket_server_close_def socket_server_shutdown_def socket_server_start_def
    socket_server_pause_def socket_server_nodelay_def\<close>)
qed

text \<open>A run while the stream is open.\<close>

inductive stream_run :: "system \<Rightarrow> int \<Rightarrow> socket_server \<Rightarrow> occurrence list \<Rightarrow> socket_server \<Rightarrow> bool" for os :: system and fd :: int where
  stop: "streaming fd ss \<Longrightarrow> stream_run os fd ss [] ss"
| run: "streaming fd ss \<Longrightarrow> server_step os ss l ss1 \<Longrightarrow> only_sends fd l \<Longrightarrow> stream_run os fd ss1 ls ss2 \<Longrightarrow> stream_run os fd ss (l # ls) ss2"

lemma stream_run_start: "stream_run os fd ss ls ss' \<Longrightarrow> streaming fd ss"
  by (erule stream_run.cases) simp_all

lemma stream_run_flow:
  "stream_run os fd ss ls ss' \<Longrightarrow> posix os \<Longrightarrow> numbered ss \<Longrightarrow> flow fd f acc ss \<Longrightarrow> flow fd f (acc @ concat (map (accepted fd) ls)) ss'"
proof (induction arbitrary: acc rule: stream_run.induct)
  case (run ss l ss1 ls ss2)
  have "numbered ss1" using server_step_numbered [OF run.prems(1) run.hyps(2) run.prems(2)] by blast
  moreover have "flow fd f (acc @ accepted fd l) ss1"
    by (rule server_step_flow [OF run.prems(1,2) run.hyps(2,3,1) stream_run_start [OF run.hyps(4)] run.prems(3)])
  ultimately show ?case using run.IH [OF run.prems(1)] by fastforce
qed simp

text \<open>A socket that was just opened, for which nothing is in the pipe.\<close>

lemma unnamed_flow:
  assumes "fresh fd (ss_slot ss (HASH_ID fd))" "unnamed fd ss"
  shows "flow fd (so_fd (ss_slot ss (HASH_ID fd))) (written (so_fd (ss_slot ss (HASH_ID fd))) (ss_trace ss)) ss"
proof -
  have other: "\<forall>req \<in> set (ss_pipe ss). send_for fd req = None \<and> orderly fd req"
  proof
    fix req assume "req \<in> set (ss_pipe ss)"
    then have "request_id req \<noteq> Some fd" using assms(2) by (simp add: unnamed_def)
    then show "send_for fd req = None \<and> orderly fd req" by (cases req) simp_all
  qed
  then have "sends_in fd (ss_pipe ss) = 0" by (simp add: sends_in_def filter_empty_conv)
  moreover from this have "queued fd (ss_pipe ss) = []" by (rule no_sends_queued)
  ultimately show ?thesis using assms(1) other by (simp add: flow_def Let_def fresh_def core_def waiting_def direct_rest_def)
qed

text \<open>C4. While a connection is open, the data that \<^verbatim>\<open>socket_server_send\<close> took over for it since it was opened are,
  in their order and each once, the bytes that were written to its file, then those that wait in the socket, then
  those of the requests in the pipe: whichever thread writes, and however much of it the system writes.
\<close>

theorem stream_order:
  assumes "posix os" "socket_server_create os time mem = Some (True, ss0)" "server_run os ss0 ls0 ss"
    "fresh fd (ss_slot ss (HASH_ID fd))" "unnamed fd ss" "stream_run os fd ss ls ss'"
  shows "so_fd (ss_slot ss' (HASH_ID fd)) = so_fd (ss_slot ss (HASH_ID fd)) \<and>
    written (so_fd (ss_slot ss (HASH_ID fd))) (ss_trace ss') @ waiting (ss_slot ss' (HASH_ID fd)) @ queued fd (ss_pipe ss') =
      written (so_fd (ss_slot ss (HASH_ID fd))) (ss_trace ss) @ concat (map (accepted fd) ls)"
proof -
  have "numbered ss" using server_run_numbered [OF assms(3,1), of 0] create_numbered [OF assms(2)] by simp
  from stream_run_flow [OF assms(6,1) this unnamed_flow [OF assms(4,5)]] show ?thesis by (simp add: flow_def Let_def)
qed

subsection \<open>A stream of which a part is written\<close>

fun partial_answer :: "sys_call \<Rightarrow> sys_result" where
  "partial_answer (Sys_Getaddrinfo host port) = zero_result\<lparr>sr_addrs := [(2, None, [])]\<rparr>"
| "partial_answer (Sys_Socket family) = zero_result\<lparr>sr_ret := 5\<rparr>"
| "partial_answer (Try_Lock k) = zero_result\<lparr>sr_ret := 1\<rparr>"
| "partial_answer (Sys_Write fd data) = zero_result\<lparr>sr_ret := of_bool (data \<noteq> [])\<rparr>"
| "partial_answer _ = zero_result"

definition partial_system :: system where
  "partial_system = \<lparr>answer = (\<lambda>tr. partial_answer), strerror = (\<lambda>e. []), gai_strerror = (\<lambda>e. [])\<rparr>"

abbreviation bytes_for :: "int \<Rightarrow> bytes \<Rightarrow> sendbuffer" where
  "bytes_for fd data \<equiv> \<lparr>sb_id = fd, sb_kind = SOCKET_BUFFER_MEMORY, sb_data = data, sb_same = True\<rparr>"

lemma partial_posix: "posix partial_system"
  by (auto simp: posix_def partial_system_def neq_Nil_conv)

lemma partial_syscall: "syscall partial_system c ss = (partial_answer c, ss\<lparr>ss_trace := ss_trace ss @ [(c, partial_answer c)]\<rparr>)"
  by (simp add: syscall_def partial_system_def Let_def)

lemma partial_create:
  "\<exists>ss. socket_server_create partial_system 0 zero_server = Some (True, ss) \<and> ss_pipe ss = [] \<and> ss_alloc_id ss = 0 \<and> ss_checkctrl ss \<and>
    ss_slot ss = (\<lambda>k. zero_socket) \<and> written 5 (ss_trace ss) = []"
  by (simp add: socket_server_create_def partial_syscall Let_def call_def FD_SETSIZE_def empty_socket_def zero_server_def zero_socket_def)

lemma partial_open:
  "\<exists>ss0 ss. socket_server_create partial_system 0 zero_server = Some (True, ss0) \<and>
    server_run partial_system ss0 [Hands_Out 1, Reports (Some (SOCKET_OPEN, \<lparr>m_opaque = 7, m_id = 1, m_ud = 0, m_data = No_Data\<rparr>))] ss \<and>
    fresh 1 (ss_slot ss 1) \<and> ss_pipe ss = [] \<and> so_type (ss_slot ss 1) = T_CONNECTED \<and> so_protocol (ss_slot ss 1) = P_TCP \<and>
    so_fd (ss_slot ss 1) = 5 \<and> so_udpconnecting (ss_slot ss 1) = 0 \<and> (\<forall>j. j \<noteq> 1 \<longrightarrow> ss_slot ss j = zero_socket) \<and> written 5 (ss_trace ss) = []"
proof -
  obtain ss0 where ss0: "socket_server_create partial_system 0 zero_server = Some (True, ss0)" "ss_pipe ss0 = []" "ss_alloc_id ss0 = 0" "ss_checkctrl ss0"
      "ss_slot ss0 = (\<lambda>k. zero_socket)" "written 5 (ss_trace ss0) = []" using partial_create by blast
  have r: "reserve_id ss0 = (1, put_slot 1 (reserved 1 zero_socket) (ss0\<lparr>ss_alloc_id := 1\<rparr>))"
    using reserve_id_free [of ss0 1 1] ss0(3,5) by (simp add: next_id_def hash_one zero_socket_def)
  obtain s1 where s1: "socket_server_connect partial_system 7 ''h'' 80 ss0 = (1, s1)" "ss_pipe s1 = [R_Open 1 80 7 ''h'']" "ss_checkctrl s1"
      "ss_slot s1 = (\<lambda>k. zero_socket)(1 := reserved 1 zero_socket)" "written 5 (ss_trace s1) = []"
    using r ss0 by (simp add: socket_server_connect_def send_request_def put_slot_def)
  have "server_step partial_system ss0 (Hands_Out 1) s1" by (rule server_step.connect [OF s1(1)]) (simp add: unnamed_def ss0)
  moreover obtain s2 where s2: "poll_round partial_system s1 = Some ((Some (SOCKET_OPEN, \<lparr>m_opaque = 7, m_id = 1, m_ud = 0, m_data = No_Data\<rparr>), True), s2)"
      "fresh 1 (ss_slot s2 1)" "ss_pipe s2 = []" "so_type (ss_slot s2 1) = T_CONNECTED" "so_protocol (ss_slot s2 1) = P_TCP" "so_fd (ss_slot s2 1) = 5"
      "so_udpconnecting (ss_slot s2 1) = 0" "\<forall>j. j \<noteq> 1 \<longrightarrow> ss_slot s2 j = zero_socket" "written 5 (ss_trace s2) = []"
    using s1 by (simp add: poll_round_def ctrl_cmd_def open_socket_def new_fd_def partial_syscall hash_one Let_def reserved_def zero_socket_def
      upd_slot_def put_slot_def enable_read_def clear_closed_event_def call_def set_type_def ID_TAG16_def fresh_def data_of_def written_append)
  ultimately have "server_run partial_system ss0 [Hands_Out 1, Reports (Some (SOCKET_OPEN, \<lparr>m_opaque = 7, m_id = 1, m_ud = 0, m_data = No_Data\<rparr>))] s2"
    by (blast intro: server_run.intros server_step.poll)
  with ss0(1) s2(2-) show ?thesis by blast
qed

lemma partial_streaming:
  assumes "so_id (ss_slot ss 1) = 1" "so_type (ss_slot ss 1) = T_CONNECTED" "so_protocol (ss_slot ss 1) = P_TCP" "\<not> so_closing (ss_slot ss 1)"
    "\<forall>j. j \<noteq> 1 \<longrightarrow> ss_slot ss j = zero_socket"
  shows "streaming 1 ss"
proof -
  have "so_type (ss_slot ss j) = T_INVALID" if "j \<noteq> 1" for j using assms(5) that by (simp add: zero_socket_def)
  then show ?thesis using assms(1-4) unfolding streaming_def hash_one by blast
qed

definition stream_labels :: "occurrence list" where
  "stream_labels = [Sends (bytes_for 1 [65, 66]) 0, Sends (bytes_for 1 [67]) 0]"

theorem stream_order_witness:
  "\<exists>ss ss'. stream_run partial_system 1 ss stream_labels ss' \<and> written 5 (ss_trace ss) = [] \<and>
    written 5 (ss_trace ss') = [65] \<and> waiting (ss_slot ss' 1) = [66] \<and> queued 1 (ss_pipe ss') = [67] \<and>
    written 5 (ss_trace ss') @ waiting (ss_slot ss' 1) @ queued 1 (ss_pipe ss') = written 5 (ss_trace ss) @ concat (map (accepted 1) stream_labels)"
proof -
  obtain ss0 ss where ss: "socket_server_create partial_system 0 zero_server = Some (True, ss0)"
      "server_run partial_system ss0 [Hands_Out 1, Reports (Some (SOCKET_OPEN, \<lparr>m_opaque = 7, m_id = 1, m_ud = 0, m_data = No_Data\<rparr>))] ss"
      "fresh 1 (ss_slot ss 1)" "ss_pipe ss = []" "so_type (ss_slot ss 1) = T_CONNECTED" "so_protocol (ss_slot ss 1) = P_TCP"
      "so_fd (ss_slot ss 1) = 5" "so_udpconnecting (ss_slot ss 1) = 0" "\<forall>j. j \<noteq> 1 \<longrightarrow> ss_slot ss j = zero_socket" "written 5 (ss_trace ss) = []"
    using partial_open by blast
  note f = ss(3) [unfolded fresh_def]
  obtain s1 where s1: "socket_server_send partial_system (bytes_for 1 [65, 66]) ss = Some (0, s1)" "ss_pipe s1 = [R_Trigger 1]"
      "written 5 (ss_trace s1) = [65]" "waiting (ss_slot s1 1) = [66]" "so_dw_buffer (ss_slot s1 1) \<noteq> None" "so_sending (ss_slot s1 1) = 0"
      "so_id (ss_slot s1 1) = 1" "so_type (ss_slot s1 1) = T_CONNECTED" "so_protocol (ss_slot s1 1) = P_TCP" "\<not> so_closing (ss_slot s1 1)"
      "\<forall>j. j \<noteq> 1 \<longrightarrow> ss_slot s1 j = zero_socket"
    using ss(4-) f by (simp add: socket_server_send_def partial_syscall Let_def hash_one socket_invalid_def can_direct_write_def nomore_sending_data_def
      send_buffer_empty_def direct_write_def send_request_def server_simps written_append waiting_def direct_rest_def clone_buffer_def ID_TAG16_def MAX_SOCKET_P_def)
  then obtain dw where dw: "so_dw_buffer (ss_slot s1 1) = Some dw" by blast
  have busy: "\<not> can_direct_write (ss_slot s1 1) 1" using s1(5) by (simp add: can_direct_write_def nomore_sending_data_def send_buffer_empty_def)
  obtain s2 where s2: "socket_server_send partial_system (bytes_for 1 [67]) s1 = Some (0, s2)" "ss_pipe s2 = [R_Trigger 1, R_Send High 1 (clone_buffer (bytes_for 1 [67]))]"
      "ss_trace s2 = ss_trace s1" "waiting (ss_slot s2 1) = [66]"
      "so_id (ss_slot s2 1) = 1" "so_type (ss_slot s2 1) = T_CONNECTED" "so_protocol (ss_slot s2 1) = P_TCP" "\<not> so_closing (ss_slot s2 1)"
      "\<forall>j. j \<noteq> 1 \<longrightarrow> ss_slot s2 j = zero_socket"
    using s1(2-4,6-) dw busy by (simp add: socket_server_send_def Let_def hash_one socket_invalid_def queue_send_def inc_sending_ref_def send_request_def server_simps waiting_def direct_rest_def ID_TAG16_def MAX_SOCKET_P_def)
  have run: "stream_run partial_system 1 ss stream_labels s2"
    unfolding stream_labels_def
    by (rule stream_run.run [OF _ server_step.send [OF s1(1)] _ stream_run.run [OF _ server_step.send [OF s2(1)] _ stream_run.stop]])
      (use ss f s1(7-) s2(5-) in \<open>simp_all add: partial_streaming\<close>)
  have "written 5 (ss_trace s2) @ waiting (ss_slot s2 1) @ queued 1 (ss_pipe s2) = written 5 (ss_trace ss) @ concat (map (accepted 1) stream_labels)"
    using stream_order [OF partial_posix ss(1,2) _ _ run] ss(3,4,7) by (simp add: hash_one unnamed_def)
  moreover have "queued 1 (ss_pipe s2) = [67]" by (simp add: s2(2) clone_buffer_def)
  moreover have "written 5 (ss_trace s2) = [65]" using s1(3) s2(3) by simp
  ultimately show ?thesis using run ss(10) s2(4) by blast
qed

end
