(* ===== verification/Socket_Type.thy ===== *)
theory Socket_Type
  imports Socket_Run
begin

text \<open>
  The form of the messages of the poll: which codes it returns, and with each code what kind of data. The socket
  layer above frees the data of some codes and copies those of others as a text.
\<close>

text \<open>
  A read stores as many bytes as it returns, and no more than it was asked for; the address of a datagram is complete.
\<close>

definition fills :: "system \<Rightarrow> bool" where
  "fills os \<longleftrightarrow>
     (\<forall>tr fd n. sr_ret (answer os tr (Sys_Read fd n)) \<le> int n \<and>
        sr_ret (answer os tr (Sys_Read fd n)) \<le> int (length (sr_data (answer os tr (Sys_Read fd n))))) \<and>
     (\<forall>tr fd n. sr_ret (answer os tr (Sys_Recvfrom fd n)) \<le> int n \<and>
        sr_ret (answer os tr (Sys_Recvfrom fd n)) \<le> int (length (sr_data (answer os tr (Sys_Recvfrom fd n)))) \<and>
        (if sr_v4 (answer os tr (Sys_Recvfrom fd n)) then 6 else 18) \<le> length (sr_address (answer os tr (Sys_Recvfrom fd n))))"

lemma fillsD:
  assumes "fills os"
  shows "sr_ret (answer os tr (Sys_Read fd n)) \<le> int (length (sr_data (answer os tr (Sys_Read fd n))))"
    "sr_ret (answer os tr (Sys_Recvfrom fd n)) \<le> int n \<and>
      sr_ret (answer os tr (Sys_Recvfrom fd n)) \<le> int (length (sr_data (answer os tr (Sys_Recvfrom fd n)))) \<and>
      (if sr_v4 (answer os tr (Sys_Recvfrom fd n)) then 6 else 18) \<le> length (sr_address (answer os tr (Sys_Recvfrom fd n)))"
  using assms unfolding fills_def by blast+

text \<open>Data in a block of their own; a constant text or none; none.\<close>

fun typed :: "socket_code \<Rightarrow> server_message \<Rightarrow> bool" where
  "typed SOCKET_DATA m = (case m_data m of Bytes bs \<Rightarrow> 0 < m_ud m \<and> m_ud m = int (length bs) | _ \<Rightarrow> False)"
| "typed SOCKET_UDP m = (case m_data m of Bytes bs \<Rightarrow> 0 \<le> m_ud m \<and> m_ud m \<le> int MAX_UDP_PACKAGE \<and>
      (\<exists>n. (n = 7 \<or> n = 19) \<and> int (length bs) = m_ud m + int n \<and> udp_address_size (drop (nat (m_ud m)) bs) = Some n) | _ \<Rightarrow> False)"
| "typed SOCKET_OPEN m = (case m_data m of Bytes bs \<Rightarrow> False | _ \<Rightarrow> True)"
| "typed SOCKET_ERR m = (case m_data m of Bytes bs \<Rightarrow> False | _ \<Rightarrow> True)"
| "typed SOCKET_ACCEPT m = (case m_data m of Bytes bs \<Rightarrow> False | _ \<Rightarrow> True)"
| "typed SOCKET_CLOSE m = (m_data m = No_Data)"
| "typed SOCKET_WARNING m = (m_data m = No_Data)"
| "typed SOCKET_EXIT m = True"
| "typed SOCKET_RST m = False"
| "typed SOCKET_MORE m = False"

definition typed_outcome :: "outcome \<Rightarrow> bool" where
  "typed_outcome r \<longleftrightarrow> (case r of None \<Rightarrow> True | Some (c, m) \<Rightarrow> typed c m)"

lemma typed_outcome_simps [simp]: "typed_outcome None" "typed_outcome (Some (c, m)) = typed c m"
  by (simp_all add: typed_outcome_def)

lemma message_of_data [simp]: "m_data (message_of s d) = d"
  by (simp add: message_of_def)

lemma data_of_typed [simp]: "case_message_data True (\<lambda>t. True) (\<lambda>bs. False) (data_of t)"
  by (simp add: data_of_def split: option.split)

lemma report_typed [simp]: "typed_outcome (report_error s err)"
  by (simp add: report_error_def)

lemma force_close_data: "force_close os k ss = Some (m, ss') \<Longrightarrow> m_data m = No_Data"
  using force_close_slot [of os k ss m ss'] by simp

lemma close_read_data: "close_read os k ss = (m, ss') \<Longrightarrow> m_data m = No_Data"
  by (auto simp: close_read_def Let_def)

lemma check_typed: "check_warning k ss = (r, ss') \<Longrightarrow> typed_outcome r"
  by (auto simp: check_warning_def Let_def split: if_splits)

lemma finish_typed: "finish_sending os k ss = Some (r, ss') \<Longrightarrow> typed_outcome r"
  by (auto simp: finish_sending_def Let_def bind_Some_iff split: if_splits prod.splits)

text \<open>Of a list only errors are passed on.\<close>

definition error_data :: "outcome \<Rightarrow> bool" where
  "error_data r \<longleftrightarrow> (\<forall>m. r = Some (SOCKET_ERR, m) \<longrightarrow> typed SOCKET_ERR m)"

lemma error_data_simps [simp]: "error_data None" "error_data (Some (SOCKET_RST, m))" "error_data (report_error s err)"
  by (simp_all add: error_data_def report_error_def)

lemma sent_typed: "error_data r \<Longrightarrow> typed_outcome (sent_result r)"
  by (auto simp: error_data_def sent_result_def split: option.splits socket_code.splits)

lemma close_write_error: "close_write os k ss = Some (r, ss') \<Longrightarrow> error_data r"
  by (auto simp: close_write_def Let_def bind_Some_iff split: if_splits prod.splits)

lemma send_list_tcp_error: "send_list_tcp os k p ss = Some x \<Longrightarrow> error_data (fst x)"
proof (erule send_list_tcp.raw_induct [where P = "\<lambda>os k p ss x. error_data (fst x)", rotated])
  fix f os k p ss and x :: "outcome \<times> socket_server"
  assume IH: "\<And>os k p ss x. f os k p ss = Some x \<Longrightarrow> error_data (fst x)"
    and step: "(case get_list p (ss_slot ss k) of
        [] \<Rightarrow> Some (None, ss)
      | tmp # rest \<Rightarrow> do {
          (r, ss1) \<leftarrow> write_retry os (so_fd (ss_slot ss k)) (wb_rest tmp) ss;
          if sr_ret r < 0 then if sr_errno r = EAGAIN then Some (None, ss1) else close_write os k ss1
          else do {
            let n = nat (sr_ret r);
            let ss2 = upd_slot k (\<lambda>s. s\<lparr>so_wb_size := so_wb_size s - sr_ret r\<rparr>) (stat_write k (sr_ret r) ss1);
            if n \<noteq> wb_sz tmp
            then Some (None, upd_slot k (set_list p (tmp\<lparr>wb_ptr := wb_ptr tmp + n, wb_sz := wb_sz tmp - n\<rparr> # rest)) ss2)
            else f os k p (free_payloads [wb_payload tmp] (upd_slot k (set_list p rest) ss2))
          }
        }) = Some x"
  show "error_data (fst x)"
  proof (cases "get_list p (ss_slot ss k)")
    case Nil
    then show ?thesis using step by auto
  next
    case (Cons tmp rest)
    then obtain r ss1 where w: "write_retry os (so_fd (ss_slot ss k)) (wb_rest tmp) ss = Some (r, ss1)" using step by (auto simp: bind_Some_iff)
    show ?thesis
    proof (cases "sr_ret r < 0")
      case True
      then show ?thesis using step Cons w close_write_error [of os k ss1 "fst x" "snd x"] by (auto split: if_splits)
    next
      case False
      then show ?thesis using step Cons w IH by (auto simp: Let_def split: if_splits)
    qed
  qed
qed

lemma send_list_udp_none: "send_list_udp os k p n ss = (r, ss') \<Longrightarrow> r = None"
  by (induction os k p n ss arbitrary: r ss' rule: send_list_udp.induct)
    (auto simp: Let_def split: list.splits option.splits prod.splits if_splits)

lemma send_list_error: "send_list os k p ss = Some (r, ss') \<Longrightarrow> error_data r"
  using send_list_tcp_error [of os k p ss "(r, ss')"]
  by (auto simp: send_list_def split: if_splits dest!: send_list_udp_none)

lemma send_low_typed: "send_low os k ss = Some (r, ss') \<Longrightarrow> typed_outcome r"
  by (auto simp: send_low_def bind_Some_iff finish_typed sent_typed send_list_error split: if_splits)

lemma send_buffer_typed: "send_buffer os k ss = Some (r, ss') \<Longrightarrow> typed_outcome r"
  by (auto simp: send_buffer_def send_buffer_lists_def bind_Some_iff send_low_typed sent_typed send_list_error split: if_splits prod.splits)

subsection \<open>Requests\<close>

lemma trigger_typed: "trigger_write os fd ss = (r, ss') \<Longrightarrow> typed_outcome r"
  by (auto simp: trigger_write_def Let_def split: if_splits prod.splits)

lemma send_socket_typed: "send_socket os fd buf p udp ss = (r, ss') \<Longrightarrow> typed_outcome r"
  by (auto simp: send_socket_def Let_def check_typed split: if_splits option.splits prod.splits)

lemma open_failed_typed: "typed_outcome (fst (open_failed k m err ss))"
  by (simp add: open_failed_def)

lemma open_failed_outcome: "open_failed k m err ss = (r, ss') \<Longrightarrow> typed_outcome r"
  using open_failed_typed [of k m err ss] by simp

lemma open_socket_typed: "open_socket os fd port q host ss = Some (r, ss') \<Longrightarrow> typed_outcome r"
  by (auto simp: open_socket_def Let_def bind_Some_iff open_failed_outcome split: if_splits prod.splits)

lemma listen_socket_typed: "listen_socket os fd sock q ss = Some (r, ss') \<Longrightarrow> typed_outcome r"
  by (auto simp: listen_socket_def Let_def bind_Some_iff open_failed_outcome split: if_splits prod.splits option.splits)

lemma bind_socket_typed: "bind_socket os fd sock q ss = Some (r, ss') \<Longrightarrow> typed_outcome r"
  by (auto simp: bind_socket_def Let_def bind_Some_iff split: if_splits)

lemma add_udp_typed: "add_udp_socket os fd sock family q ss = Some (r, ss') \<Longrightarrow> typed_outcome r"
  by (auto simp: add_udp_socket_def Let_def bind_Some_iff split: if_splits)

lemma close_socket_typed: "close_socket os fd b ss = Some (r, ss') \<Longrightarrow> typed_outcome r"
  by (auto simp: close_socket_def Let_def bind_Some_iff force_close_data close_read_data split: if_splits prod.splits)

lemma resume_typed: "resume_socket os fd q ss = (r, ss') \<Longrightarrow> typed_outcome r"
  by (auto simp: resume_socket_def Let_def split: if_splits prod.splits)

lemma pause_typed: "pause_socket os fd ss = (r, ss') \<Longrightarrow> typed_outcome r"
  by (auto simp: pause_socket_def Let_def split: if_splits prod.splits)

lemma set_udp_typed: "set_udp_address fd a ss = (r, ss') \<Longrightarrow> typed_outcome r"
  by (auto simp: set_udp_address_def Let_def split: if_splits)

lemma ctrl_cmd_typed: "ctrl_cmd os req ss = Some (r, ss') \<Longrightarrow> typed_outcome r"
  by (auto simp: ctrl_cmd_def bind_Some_iff resume_typed pause_typed bind_socket_typed listen_socket_typed close_socket_typed open_socket_typed
    trigger_typed send_socket_typed set_udp_typed add_udp_typed split: request.splits prod.splits)

subsection \<open>Events\<close>

text \<open>What is read from a stream; the code \<open>SOCKET_MORE\<close> is turned into \<open>SOCKET_DATA\<close>.\<close>

definition read_outcome :: "outcome \<Rightarrow> bool" where
  "read_outcome r \<longleftrightarrow> (\<forall>c m. r = Some (c, m) \<longrightarrow> typed (if c = SOCKET_MORE then SOCKET_DATA else c) m)"

lemma read_outcome_typed: "typed_outcome r \<Longrightarrow> read_outcome r"
  by (auto simp: read_outcome_def)

lemma tcp_typed:
  assumes "fills os" "forward_message_tcp os k ss = Some (r, ss')"
  shows "read_outcome r"
proof -
  let ?s = "ss_slot ss k"
  obtain q ss1 where q: "syscall os (Sys_Read (so_fd ?s) (so_size ?s)) ss = (q, ss1)" by fastforce
  have len: "sr_ret q \<le> int (length (sr_data q))" using q assms(1) by (auto simp: syscall_def Let_def fills_def)
  note step = assms(2) [unfolded forward_message_tcp_def Let_def q, simplified]
  consider "sr_ret q < 0" | "sr_ret q = 0" | "sr_ret q > 0" by linarith
  then show ?thesis
  proof cases
    case 1
    then show ?thesis using step by (auto intro: read_outcome_typed split: if_splits)
  next
    case 2
    then have "typed_outcome r" using step
      by (auto simp: bind_Some_iff force_close_data close_read_data split: if_splits prod.splits)
    then show ?thesis by (rule read_outcome_typed)
  next
    case 3
    then show ?thesis using step len by (auto simp: read_outcome_def split: if_splits)
  qed
qed

lemma address_size: "6 \<le> length sa \<Longrightarrow> udp_address_size (gen_udp_address P_UDP sa) = Some 7 \<and> length (gen_udp_address P_UDP sa) = 7"
    "18 \<le> length sa \<Longrightarrow> udp_address_size (gen_udp_address P_UDPv6 sa) = Some 19 \<and> length (gen_udp_address P_UDPv6 sa) = 19"
  by (simp_all add: gen_udp_address_def udp_address_size_def)

lemma udp_typed:
  assumes "fills os" "forward_message_udp os k ss = Some (r, ss')"
  shows "typed_outcome r"
proof -
  let ?s = "ss_slot ss k"
  obtain q ss1 where q: "syscall os (Sys_Recvfrom (so_fd ?s) MAX_UDP_PACKAGE) ss = (q, ss1)" by fastforce
  have len: "sr_ret q \<le> int MAX_UDP_PACKAGE" "sr_ret q \<le> int (length (sr_data q))" "(if sr_v4 q then 6 else 18) \<le> length (sr_address q)"
  proof -
    have "q = answer os (ss_trace ss) (Sys_Recvfrom (so_fd ?s) MAX_UDP_PACKAGE)" using q by (simp add: syscall_def Let_def)
    then show "sr_ret q \<le> int MAX_UDP_PACKAGE" "sr_ret q \<le> int (length (sr_data q))" "(if sr_v4 q then 6 else 18) \<le> length (sr_address q)"
      using fillsD(2) [OF assms(1)] by blast+
  qed
  note step = assms(2) [unfolded forward_message_udp_def Let_def q, simplified]
  show ?thesis
  proof (cases "sr_ret q < 0")
    case True
    then show ?thesis using step by (auto simp: bind_Some_iff split: if_splits)
  next
    case False
    let ?proto = "if sr_v4 q then P_UDP else P_UDPv6"
    have "typed SOCKET_UDP \<lparr>m_opaque = a, m_id = i, m_ud = sr_ret q, m_data = Bytes (take (nat (sr_ret q)) (sr_data q) @ gen_udp_address ?proto (sr_address q))\<rparr>" for a i
      using False len address_size [of "sr_address q"] by (cases "sr_v4 q") auto
    then show ?thesis using step False by (auto split: if_splits)
  qed
qed

lemma event_read_typed:
  assumes "fills os" "event_read os k e ss = Some (r, ss')"
  shows "typed_outcome r"
proof -
  obtain q ss1 where q: "(if so_protocol (ss_slot ss k) = P_TCP then forward_message_tcp os k ss else forward_message_udp os k ss) = Some (q, ss1)"
    using assms(2) unfolding event_read_def bind_Some_iff by force
  have r: "r = (if map_option fst q = Some SOCKET_MORE then map_option (\<lambda>(c, m). (SOCKET_DATA, m)) q else q)"
    using assms(2) by (simp add: event_read_def q Let_def split: if_splits)
  have "read_outcome q" using q tcp_typed [OF assms(1)] udp_typed [OF assms(1)] read_outcome_typed by (auto split: if_splits)
  then show ?thesis using r by (cases q) (auto simp: read_outcome_def)
qed

lemma event_error_typed: "event_error os k ss = (r, ss') \<Longrightarrow> typed_outcome r"
  by (auto simp: event_error_def Let_def split: prod.splits)

lemma event_eof_typed: "event_eof os k ss = Some (r, ss') \<Longrightarrow> typed_outcome r"
  by (auto simp: event_eof_def Let_def bind_Some_iff force_close_data)

lemma report_connect_typed: "report_connect os k ss = Some (r, ss') \<Longrightarrow> typed_outcome r"
  by (auto simp: report_connect_def Let_def bind_Some_iff split: if_splits prod.splits)

lemma report_accept_typed: "report_accept os k ss = Some ((n, m), ss') \<Longrightarrow> typed SOCKET_ACCEPT m"
  by (auto simp: report_accept_def Let_def bind_Some_iff split: if_splits prod.splits)

lemma dispatch_typed: "fills os \<Longrightarrow> dispatch_event os k e ss = Some (r, ss') \<Longrightarrow> typed_outcome r"
  by (auto simp: dispatch_event_def bind_Some_iff report_connect_typed event_read_typed send_buffer_typed event_error_typed event_eof_typed
    split: socket_type.splits if_splits dest!: report_accept_typed)

lemma poll_round_typed:
  assumes "fills os" "poll_round os ss = Some ((r, more1), ss')"
  shows "typed_outcome r"
proof -
  have event: "poll_event os s1 = Some (r1, s2) \<Longrightarrow> typed_outcome r1" for s1 r1 s2
    using dispatch_typed [OF assms(1)] by (auto simp: poll_event_def Let_def split: if_splits option.splits)
  have "event_round os s1 = Some ((r1, b), s2) \<Longrightarrow> typed_outcome r1" for s1 r1 b s2
    using event by (auto simp: event_round_def Let_def bind_Some_iff split: if_splits prod.splits)
  then show ?thesis using assms(2) ctrl_cmd_typed by (auto simp: poll_round_def bind_Some_iff split: if_splits list.splits)
qed

lemma poll_typed:
  assumes "fills os" "socket_server_poll os go ss = Some (((c, m), more1), ss')"
  shows "typed c m"
proof -
  have "fills os \<longrightarrow> typed_outcome (Some (fst (fst (((c, m), more1), ss'))))"
  proof (rule socket_server_poll.raw_induct [where P = "\<lambda>os go ss x. fills os \<longrightarrow> typed_outcome (Some (fst (fst x)))", OF _ assms(2)], intro impI)
    fix f os go ss and x :: "((socket_code \<times> server_message) \<times> bool) \<times> socket_server"
    assume IH: "\<And>os go ss x. f os go ss = Some x \<Longrightarrow> fills os \<longrightarrow> typed_outcome (Some (fst (fst x)))" and fill: "fills os"
      and step: "(case poll_round os ss of
          None \<Rightarrow> None
        | Some ((Some r, more1), ss1) \<Rightarrow> Some ((r, go \<and> more1), ss1)
        | Some ((None, more1), ss1) \<Rightarrow> f os (go \<and> more1) ss1) = Some x"
    show "typed_outcome (Some (fst (fst x)))"
      using step IH fill by (auto split: option.splits prod.splits dest!: poll_round_typed [OF fill])
  qed
  then show ?thesis using assms(1) by simp
qed

text \<open>C40. With each code the socket server returns data of one kind: data and datagrams in a block of their own of the size that
  is told (a datagram with its address behind it), the opening, accepting and failing of a socket with a constant text
  or none, the end and the warning with none. The two internal codes are never returned.\<close>

theorem poll_result_typed:
  assumes "fills os" "socket_server_poll os go ss = Some (((code, m), more1), ss')"
  shows "typed code m \<and> code \<noteq> SOCKET_RST \<and> code \<noteq> SOCKET_MORE"
  using poll_typed [OF assms] by (cases code) auto

subsection \<open>A server that opens a socket\<close>

text \<open>A binding that was requested, of the service 1.\<close>

definition full_system :: system where
  "full_system = \<lparr>answer = (\<lambda>tr c. zero_result\<lparr>sr_address := replicate 18 0\<rparr>), strerror = (\<lambda>e. []), gai_strerror = (\<lambda>e. [])\<rparr>"

lemma full_syscall: "syscall full_system c ss =
    (zero_result\<lparr>sr_address := replicate 18 0\<rparr>, ss\<lparr>ss_trace := ss_trace ss @ [(c, zero_result\<lparr>sr_address := replicate 18 0\<rparr>)]\<rparr>)"
  by (simp add: syscall_def full_system_def Let_def)

lemma full_fills: "fills full_system"
  by (simp add: fills_def full_system_def)

definition bound_server :: socket_server where
  "bound_server = zero_server\<lparr>ss_checkctrl := True, ss_pipe := [R_Bind 1 5 1], ss_slot := (\<lambda>k. zero_socket)(1 := reserved 1 zero_socket)\<rparr>"

abbreviation bound_message :: server_message where
  "bound_message \<equiv> \<lparr>m_opaque = 1, m_id = 1, m_ud = 0, m_data = Text ''binding''\<rparr>"

lemma bound_poll: "\<exists>ss1. socket_server_poll full_system True bound_server = Some (((SOCKET_OPEN, bound_message), True), ss1)"
proof -
  obtain ss1 where "poll_round full_system bound_server = Some ((Some (SOCKET_OPEN, bound_message), True), ss1)"
    by (simp add: example_simps full_syscall bound_server_def zero_server_def)
  then show ?thesis by (simp add: socket_server_poll.simps)
qed

theorem poll_result_typed_witness:
  "\<exists>ss1. socket_server_poll full_system True bound_server = Some (((SOCKET_OPEN, bound_message), True), ss1) \<and> typed SOCKET_OPEN bound_message"
  using bound_poll poll_result_typed [OF full_fills] by blast

end
