(* ===== verification/Skynet_Socket.thy ===== *)
theory Skynet_Socket
  imports Context Gate Socket_Type
begin

text \<open>
  \<^verbatim>\<open>skynet_socket.c\<close>: the socket server of the process, what it tells as messages to the services,
  and the calls of the services to it.
\<close>

subsection \<open>State\<close>

text \<open>
  The services, the static pointer \<^verbatim>\<open>SOCKET_SERVER\<close>, and the blocks of data that this file frees itself.
\<close>

record process =
  p_node :: node
  p_sockets :: "socket_server option"
  p_freed :: "bytes list"

definition put_sockets :: "socket_server \<Rightarrow> process \<Rightarrow> process" where
  "put_sockets ss p = p\<lparr>p_sockets := Some ss\<rparr>"

definition skynet_socket_init :: "system \<Rightarrow> socket_server \<Rightarrow> process \<Rightarrow> process option" where
  "skynet_socket_init os mem p = do {
     (made, ss) \<leftarrow> socket_server_create os (skynet_now (TI (p_node p))) mem;
     Some (p\<lparr>p_sockets := (if made then Some ss else None)\<rparr>)
   }"

definition skynet_socket_exit :: "process \<Rightarrow> process option" where
  "skynet_socket_exit p = do { ss \<leftarrow> p_sockets p; Some (put_sockets (socket_server_exit ss) p) }"

definition skynet_socket_free :: "system \<Rightarrow> process \<Rightarrow> process option" where
  "skynet_socket_free os p = do { ss \<leftarrow> p_sockets p; ss1 \<leftarrow> socket_server_release os ss; Some (p\<lparr>p_sockets := None\<rparr>) }"

definition skynet_socket_updatetime :: "process \<Rightarrow> process option" where
  "skynet_socket_updatetime p = do {
     ss \<leftarrow> p_sockets p;
     Some (put_sockets (socket_server_updatetime (skynet_now (TI (p_node p))) ss) p)
   }"

subsection \<open>Messages\<close>

text \<open>The size of \<^verbatim>\<open>struct skynet_socket_message\<close> on a 64-bit machine.\<close>

definition SOCKET_MESSAGE_SIZE :: nat where "SOCKET_MESSAGE_SIZE = 24"

text \<open>
  The text behind the structure; a text is cut to 128 characters. A text must be a C string, and data that are not
  copied must be a block of their own, which the receiver frees: anything else is an error.
\<close>

definition message_text :: "bool \<Rightarrow> message_data \<Rightarrow> bytes option" where
  "message_text padding data =
     (if padding then (case data of No_Data \<Rightarrow> Some [] | Text t \<Rightarrow> Some (to_bytes (take 128 (c_string t))) | message_data.Bytes bs \<Rightarrow> None)
      else Some [])"

definition message_buffer :: "bool \<Rightarrow> message_data \<Rightarrow> bytes option option" where
  "message_buffer padding data =
     (if padding then Some None else (case data of No_Data \<Rightarrow> Some None | Text t \<Rightarrow> None | message_data.Bytes bs \<Rightarrow> Some (Some bs)))"

definition forward_message :: "nat \<Rightarrow> bool \<Rightarrow> server_message \<Rightarrow> process \<Rightarrow> process option" where
  "forward_message type padding result p = do {
     text \<leftarrow> message_text padding (m_data result);
     buffer \<leftarrow> message_buffer padding (m_data result);
     let sm = \<lparr>sm_type = type, sm_id = word_of_int (m_id result), sm_ud = m_ud result, sm_buffer = buffer, sm_padding = text\<rparr>;
     (r, s) \<leftarrow> skynet_context_push (ucast (m_opaque result))
       \<lparr>msg_source = 0, msg_session = 0, msg_data = Some (Of_Socket sm),
        msg_sz = of_nat (SOCKET_MESSAGE_SIZE + length text) OR push_bit MESSAGE_TYPE_SHIFT (ucast PTYPE_SOCKET)\<rparr> (p_node p);
     Some (p\<lparr>p_node := s, p_freed := p_freed p @ (if r \<noteq> 0 then (case buffer of None \<Rightarrow> [] | Some b \<Rightarrow> [b]) else [])\<rparr>)
   }"

fun code_number :: "socket_code \<Rightarrow> int" where
  "code_number SOCKET_DATA = 0"
| "code_number SOCKET_CLOSE = 1"
| "code_number SOCKET_OPEN = 2"
| "code_number SOCKET_ACCEPT = 3"
| "code_number SOCKET_ERR = 4"
| "code_number SOCKET_EXIT = 5"
| "code_number SOCKET_UDP = 6"
| "code_number SOCKET_WARNING = 7"
| "code_number SOCKET_RST = 8"
| "code_number SOCKET_MORE = 9"

definition skynet_socket_poll :: "system \<Rightarrow> process \<Rightarrow> (int \<times> process) option" where
  "skynet_socket_poll os p = do {
     ss \<leftarrow> p_sockets p;
     (((code, result), more1), ss1) \<leftarrow> socket_server_poll os True ss;
     let p1 = put_sockets ss1 p;
     let forward = (\<lambda>type padding. do { p2 \<leftarrow> forward_message type padding result p1; Some (if more1 then -1 else 1, p2) });
     case code of
       SOCKET_EXIT \<Rightarrow> Some (0, p1)
     | SOCKET_DATA \<Rightarrow> forward SKYNET_SOCKET_TYPE_DATA False
     | SOCKET_CLOSE \<Rightarrow> forward SKYNET_SOCKET_TYPE_CLOSE False
     | SOCKET_OPEN \<Rightarrow> forward SKYNET_SOCKET_TYPE_CONNECT True
     | SOCKET_ERR \<Rightarrow> forward SKYNET_SOCKET_TYPE_ERROR True
     | SOCKET_ACCEPT \<Rightarrow> forward SKYNET_SOCKET_TYPE_ACCEPT True
     | SOCKET_UDP \<Rightarrow> forward SKYNET_SOCKET_TYPE_UDP False
     | SOCKET_WARNING \<Rightarrow> forward SKYNET_SOCKET_TYPE_WARNING False
     | _ \<Rightarrow> do {
         s \<leftarrow> skynet_error 0 (''Unknown socket message type '' @ fmt_int (code_number code) @ ''.'') (p_node p1);
         Some (-1, p1\<lparr>p_node := s\<rparr>)
       }
   }"

subsection \<open>Calls of the services\<close>

text \<open>The service is given by the address of its context; its handle goes with the request.\<close>

definition skynet_context_handle :: "addr \<Rightarrow> process \<Rightarrow> u64 option" where
  "skynet_context_handle ctx p = map_option (\<lambda>c. ucast (cx_handle c)) (ctxs (p_node p) ctx)"

definition returns :: "'a \<times> socket_server \<Rightarrow> process \<Rightarrow> ('a \<times> process) option" where
  "returns x p = Some (fst x, put_sockets (snd x) p)"

definition skynet_socket_sendbuffer :: "system \<Rightarrow> sendbuffer \<Rightarrow> process \<Rightarrow> (int \<times> process) option" where
  "skynet_socket_sendbuffer os buffer p = do { ss \<leftarrow> p_sockets p; x \<leftarrow> socket_server_send os buffer ss; returns x p }"

definition skynet_socket_sendbuffer_lowpriority :: "sendbuffer \<Rightarrow> process \<Rightarrow> (int \<times> process) option" where
  "skynet_socket_sendbuffer_lowpriority buffer p = do { ss \<leftarrow> p_sockets p; x \<leftarrow> socket_server_send_lowpriority buffer ss; returns x p }"

definition skynet_socket_listen :: "system \<Rightarrow> addr \<Rightarrow> string option \<Rightarrow> int \<Rightarrow> int \<Rightarrow> process \<Rightarrow> (int \<times> process) option" where
  "skynet_socket_listen os ctx host port backlog p = do {
     source \<leftarrow> skynet_context_handle ctx p;
     ss \<leftarrow> p_sockets p;
     returns (socket_server_listen os source host port backlog ss) p
   }"

definition skynet_socket_connect :: "system \<Rightarrow> addr \<Rightarrow> string \<Rightarrow> int \<Rightarrow> process \<Rightarrow> (int \<times> process) option" where
  "skynet_socket_connect os ctx host port p = do {
     source \<leftarrow> skynet_context_handle ctx p;
     ss \<leftarrow> p_sockets p;
     returns (socket_server_connect os source host port ss) p
   }"

definition skynet_socket_bind :: "addr \<Rightarrow> int \<Rightarrow> process \<Rightarrow> (int \<times> process) option" where
  "skynet_socket_bind ctx fd p = do {
     source \<leftarrow> skynet_context_handle ctx p;
     ss \<leftarrow> p_sockets p;
     returns (socket_server_bind source fd ss) p
   }"

definition skynet_socket_close :: "addr \<Rightarrow> int \<Rightarrow> process \<Rightarrow> process option" where
  "skynet_socket_close ctx fd p = do {
     source \<leftarrow> skynet_context_handle ctx p;
     ss \<leftarrow> p_sockets p;
     Some (put_sockets (socket_server_close source fd ss) p)
   }"

definition skynet_socket_shutdown :: "addr \<Rightarrow> int \<Rightarrow> process \<Rightarrow> process option" where
  "skynet_socket_shutdown ctx fd p = do {
     source \<leftarrow> skynet_context_handle ctx p;
     ss \<leftarrow> p_sockets p;
     Some (put_sockets (socket_server_shutdown source fd ss) p)
   }"

definition skynet_socket_start :: "addr \<Rightarrow> int \<Rightarrow> process \<Rightarrow> process option" where
  "skynet_socket_start ctx fd p = do {
     source \<leftarrow> skynet_context_handle ctx p;
     ss \<leftarrow> p_sockets p;
     Some (put_sockets (socket_server_start source fd ss) p)
   }"

definition skynet_socket_pause :: "addr \<Rightarrow> int \<Rightarrow> process \<Rightarrow> process option" where
  "skynet_socket_pause ctx fd p = do {
     source \<leftarrow> skynet_context_handle ctx p;
     ss \<leftarrow> p_sockets p;
     Some (put_sockets (socket_server_pause source fd ss) p)
   }"

definition skynet_socket_nodelay :: "int \<Rightarrow> process \<Rightarrow> process option" where
  "skynet_socket_nodelay fd p = do { ss \<leftarrow> p_sockets p; Some (put_sockets (socket_server_nodelay fd ss) p) }"

definition skynet_socket_udp :: "system \<Rightarrow> addr \<Rightarrow> string option \<Rightarrow> int \<Rightarrow> process \<Rightarrow> (int \<times> process) option" where
  "skynet_socket_udp os ctx address port p = do {
     source \<leftarrow> skynet_context_handle ctx p;
     ss \<leftarrow> p_sockets p;
     returns (socket_server_udp os source address port ss) p
   }"

definition skynet_socket_udp_connect :: "system \<Rightarrow> int \<Rightarrow> string \<Rightarrow> int \<Rightarrow> process \<Rightarrow> (int \<times> process) option" where
  "skynet_socket_udp_connect os fd address port p = do { ss \<leftarrow> p_sockets p; returns (socket_server_udp_connect os fd address port ss) p }"

definition skynet_socket_udp_sendbuffer :: "system \<Rightarrow> bytes \<Rightarrow> sendbuffer \<Rightarrow> process \<Rightarrow> (int \<times> process) option" where
  "skynet_socket_udp_sendbuffer os address buffer p = do { ss \<leftarrow> p_sockets p; returns (socket_server_udp_send os address buffer ss) p }"

text \<open>The address of a datagram and its length; \<open>None\<close> is a null pointer.\<close>

definition skynet_socket_udp_address :: "socket_message \<Rightarrow> (bytes \<times> nat) option" where
  "skynet_socket_udp_address msg =
     (if sm_type msg \<noteq> SKYNET_SOCKET_TYPE_UDP then None
      else socket_server_udp_address \<lparr>m_opaque = 0, m_id = sint (sm_id msg), m_ud = sm_ud msg,
        m_data = (case sm_buffer msg of None \<Rightarrow> No_Data | Some b \<Rightarrow> message_data.Bytes b)\<rparr>)"

definition skynet_socket_info :: "system \<Rightarrow> (bytes \<Rightarrow> string) \<Rightarrow> process \<Rightarrow> (socket_info list \<times> process) option" where
  "skynet_socket_info os ntop p = do { ss \<leftarrow> p_sockets p; returns (socket_server_info os ntop ss) p }"

subsection \<open>What a service receives\<close>

text \<open>The type and the structure of the message for a result of the poll.\<close>

fun forwarded_type :: "socket_code \<Rightarrow> nat" where
  "forwarded_type SOCKET_DATA = 1"
| "forwarded_type SOCKET_OPEN = 2"
| "forwarded_type SOCKET_CLOSE = 3"
| "forwarded_type SOCKET_ACCEPT = 4"
| "forwarded_type SOCKET_ERR = 5"
| "forwarded_type SOCKET_UDP = 6"
| "forwarded_type SOCKET_WARNING = 7"
| "forwarded_type _ = 0"

definition forwarded :: "socket_code \<Rightarrow> server_message \<Rightarrow> socket_message" where
  "forwarded code m = \<lparr>sm_type = forwarded_type code, sm_id = word_of_int (m_id m), sm_ud = m_ud m,
     sm_buffer = (case m_data m of message_data.Bytes bs \<Rightarrow> Some bs | _ \<Rightarrow> None),
     sm_padding = (case m_data m of Text t \<Rightarrow> to_bytes (take 128 (c_string t)) | _ \<Rightarrow> [])\<rparr>"

definition mail :: "socket_message \<Rightarrow> message" where
  "mail sm = \<lparr>msg_source = 0, msg_session = 0, msg_data = Some (Of_Socket sm),
     msg_sz = of_nat (SOCKET_MESSAGE_SIZE + length (sm_padding sm)) OR push_bit MESSAGE_TYPE_SHIFT (ucast PTYPE_SOCKET)\<rparr>"

text \<open>What the receiver, or else the forwarding, has to free.\<close>

definition own_block :: "socket_message \<Rightarrow> bytes list" where
  "own_block sm = (case sm_buffer sm of None \<Rightarrow> [] | Some b \<Rightarrow> [b])"

lemma skynet_socket_poll_typed:
  assumes "p_sockets p = Some ss" "socket_server_poll os True ss = Some (((code, m), more1), ss1)" "typed code m" "code \<noteq> SOCKET_EXIT"
  shows "skynet_socket_poll os p = do {
      (r, s) \<leftarrow> skynet_context_push (ucast (m_opaque m)) (mail (forwarded code m)) (p_node p);
      Some (if more1 then -1 else 1, p\<lparr>p_node := s, p_sockets := Some ss1, p_freed := p_freed p @ (if r \<noteq> 0 then own_block (forwarded code m) else [])\<rparr>)
    }"
  using assms
  by (cases code; cases "m_data m")
    (auto simp: skynet_socket_poll_def forward_message_def message_text_def message_buffer_def forwarded_def mail_def own_block_def put_sockets_def
      SKYNET_SOCKET_TYPE_DATA_def SKYNET_SOCKET_TYPE_CONNECT_def SKYNET_SOCKET_TYPE_CLOSE_def SKYNET_SOCKET_TYPE_ACCEPT_def
      SKYNET_SOCKET_TYPE_ERROR_def SKYNET_SOCKET_TYPE_UDP_def SKYNET_SOCKET_TYPE_WARNING_def Let_def split: Option.bind_splits)

text \<open>C6. Every result of the socket server but the exit becomes exactly one message at the end of the mailbox of
  the service that owns the socket, with the type, number and data of the result, whichever of the ten codes it has; the
  mailboxes of other services do not change. When that service is gone, nothing is sent and the block of data
  is freed.\<close>

theorem socket_poll_delivers:
  assumes "fills os" "p_sockets p = Some ss" "socket_server_poll os True ss = Some (((code, m), more1), ss1)" "code \<noteq> SOCKET_EXIT"
    and "node_ok (p_node p)" "roomy 1 (MQ (p_node p))"
  shows "case skynet_handle_grab (hof (p_node p)) (ucast (m_opaque m)) (HS (p_node p)) of
      None \<Rightarrow> skynet_socket_poll os p =
        Some (if more1 then -1 else 1, p\<lparr>p_sockets := Some ss1, p_freed := p_freed p @ own_block (forwarded code m)\<rparr>)
    | Some a \<Rightarrow> \<exists>c mq. ctxs (p_node p) a = Some c \<and>
        skynet_socket_poll os p = Some (if more1 then -1 else 1, p\<lparr>p_node := (p_node p)\<lparr>MQ := mq\<rparr>, p_sockets := Some ss1\<rparr>) \<and>
        node_ok ((p_node p)\<lparr>MQ := mq\<rparr>) \<and>
        mailbox (cx_queue c) mq = mailbox (cx_queue c) (MQ (p_node p)) @ [mail (forwarded code m)] \<and>
        (\<forall>b. b \<noteq> cx_queue c \<longrightarrow> mailbox b mq = mailbox b (MQ (p_node p)))"
proof -
  note poll = skynet_socket_poll_typed [OF assms(2,3) poll_typed [OF assms(1,3)] assms(4)]
  show ?thesis
  proof (cases "skynet_handle_grab (hof (p_node p)) (ucast (m_opaque m)) (HS (p_node p))")
    case None
    then show ?thesis using poll context_push_missing [OF None] by simp
  next
    case (Some a)
    obtain c where c: "ctxs (p_node p) a = Some c"
      using Some grab_iff [OF node_okD(1) [OF assms(5)]] node_okD(3) [OF assms(5)] by blast
    obtain mq where mq: "skynet_context_push (ucast (m_opaque m)) (mail (forwarded code m)) (p_node p) = Some (0, (p_node p)\<lparr>MQ := mq\<rparr>)"
        "node_ok ((p_node p)\<lparr>MQ := mq\<rparr>)"
        "mailbox (cx_queue c) mq = mailbox (cx_queue c) (MQ (p_node p)) @ [mail (forwarded code m)]"
        "\<forall>b. b \<noteq> cx_queue c \<longrightarrow> mailbox b mq = mailbox b (MQ (p_node p))"
      using context_push_result [OF assms(5,6) Some c] by blast
    then show ?thesis using poll Some c by auto
  qed
qed

definition bound_process :: process where
  "bound_process = \<lparr>p_node = demo_node, p_sockets = Some bound_server, p_freed = []\<rparr>"

theorem socket_poll_delivers_witness:
  "\<exists>p. skynet_socket_poll full_system bound_process = Some (-1, p) \<and>
    mailbox 0 (MQ (p_node p)) = [mail \<lparr>sm_type = 2, sm_id = 1, sm_ud = 0, sm_buffer = None, sm_padding = to_bytes ''binding''\<rparr>]"
proof -
  obtain ss1 where ss1: "socket_server_poll full_system True bound_server = Some (((SOCKET_OPEN, bound_message), True), ss1)"
    using bound_poll by blast
  have empty: "mailbox 0 (MQ demo_node) = []" by (simp add: mailbox_def demo_node_def mq_wf_new)
  have "forwarded SOCKET_OPEN bound_message = \<lparr>sm_type = 2, sm_id = 1, sm_ud = 0, sm_buffer = None, sm_padding = to_bytes ''binding''\<rparr>"
    by (simp add: forwarded_def c_string_def)
  with socket_poll_delivers [OF full_fills _ ss1, of bound_process] empty demo_node_ok demo_roomy [of 1] demo_grab
  show ?thesis by (auto simp: bound_process_def demo_ctx_def)
qed

end
