(* ===== verification/Receive_Buffer.thy ===== *)
theory Receive_Buffer
  imports Prelude "HOL-Library.Multiset"
begin

text \<open>
  The buffers in which a Lua service keeps what it has received, \<^verbatim>\<open>lua-socket.c\<close>. A buffer is a linked
  list of nodes; the nodes of all buffers of a service come from one pool and go back to it. Nodes are
  addresses in a heap; \<open>None\<close> is a failed \<^verbatim>\<open>assert\<close>, an overflow of \<^verbatim>\<open>int\<close>, an access
  outside a block or through a null pointer, or a loop that does not end.
\<close>

subsection \<open>Data\<close>

record buffer_node =
  bn_msg :: "bytes option"
  bn_sz :: int
  bn_next :: "nat option"

record receive_buffer =
  rb_size :: int
  rb_offset :: int
  rb_head :: "nat option"
  rb_tail :: "nat option"

text \<open>
  The pool: the heap of nodes, the next address that the allocator hands out, the first entry of the table (the free
  nodes), its length, the blocks of data that were freed, and the warnings.
\<close>

record node_pool =
  np_node :: "nat \<Rightarrow> buffer_node"
  np_brk :: nat
  np_free :: "nat option"
  np_len :: nat
  np_freed :: "bytes list"
  np_warned :: "nat list"

definition LARGE_PAGE_NODE :: nat where "LARGE_PAGE_NODE = 12"
definition POOL_SIZE_WARNING :: nat where "POOL_SIZE_WARNING = 32"

definition lnewbuffer :: receive_buffer where
  "lnewbuffer = \<lparr>rb_size = 0, rb_offset = 0, rb_head = None, rb_tail = None\<rparr>"

definition put_node :: "nat \<Rightarrow> buffer_node \<Rightarrow> node_pool \<Rightarrow> node_pool" where
  "put_node a n P = P\<lparr>np_node := (np_node P)(a := n)\<rparr>"

subsection \<open>The pool\<close>

definition lnewpool :: "nat \<Rightarrow> node_pool \<Rightarrow> nat \<times> node_pool" where
  "lnewpool sz P =
     (let k = np_brk P
      in (k, P\<lparr>np_node := (\<lambda>a. if k \<le> a \<and> a < k + sz
                             then \<lparr>bn_msg = None, bn_sz = 0, bn_next = (if a = k + sz - 1 then None else Some (a + 1))\<rparr>
                             else np_node P a),
               np_brk := k + sz\<rparr>))"

text \<open>A free node, of a new chunk when there is none.\<close>

definition take_free_node :: "node_pool \<Rightarrow> nat \<times> node_pool" where
  "take_free_node P =
     (case np_free P of
        Some a \<Rightarrow> (a, P)
      | None \<Rightarrow>
          let tsz = (if np_len P = 0 then 1 else np_len P);
              size = (if tsz \<le> LARGE_PAGE_NODE - 3 then 8 * 2 ^ tsz else 8 * 2 ^ (LARGE_PAGE_NODE - 3));
              (a, P1) = lnewpool size P
          in (a, P1\<lparr>np_len := tsz + 1, np_warned := np_warned P1 @ (if tsz > POOL_SIZE_WARNING then [tsz] else [])\<rparr>))"

definition int_range :: "int \<Rightarrow> bool" where
  "int_range x \<longleftrightarrow> - (2 ^ 31) \<le> x \<and> x < 2 ^ 31"

text \<open>The size of the buffer is returned.\<close>

definition lpushbuffer :: "bytes \<Rightarrow> int \<Rightarrow> receive_buffer \<Rightarrow> node_pool \<Rightarrow> (int \<times> receive_buffer \<times> node_pool) option" where
  "lpushbuffer msg sz b P =
     (let (a, P1) = take_free_node P; P2 = P1\<lparr>np_free := bn_next (np_node P1 a)\<rparr>;
          P3 = put_node a \<lparr>bn_msg = Some msg, bn_sz = sz, bn_next = None\<rparr> P2
      in do {
        (b1, P4) \<leftarrow> (case rb_head b of
            None \<Rightarrow> do { c_assert (rb_tail b = None); Some (b\<lparr>rb_head := Some a, rb_tail := Some a\<rparr>, P3) }
          | Some h \<Rightarrow> do {
              t \<leftarrow> rb_tail b;
              Some (b\<lparr>rb_tail := Some a\<rparr>, put_node t ((np_node P3 t)\<lparr>bn_next := Some a\<rparr>) P3)
            });
        c_assert (int_range (rb_size b + sz));
        Some (rb_size b + sz, b1\<lparr>rb_size := rb_size b + sz\<rparr>, P4)
      })"

definition return_free_node :: "receive_buffer \<Rightarrow> node_pool \<Rightarrow> (receive_buffer \<times> node_pool) option" where
  "return_free_node b P = do {
     a \<leftarrow> rb_head b;
     let n = np_node P a;
     let b1 = b\<lparr>rb_offset := 0, rb_head := bn_next n, rb_tail := (if bn_next n = None then None else rb_tail b)\<rparr>;
     let P1 = put_node a \<lparr>bn_msg = None, bn_sz = 0, bn_next = np_free P\<rparr> P;
     Some (b1, P1\<lparr>np_free := Some a, np_freed := np_freed P @ (case bn_msg n of None \<Rightarrow> [] | Some m \<Rightarrow> [m])\<rparr>)
   }"

subsection \<open>Reading\<close>

text \<open>Some bytes of a block.\<close>

definition block_part :: "bytes option \<Rightarrow> int \<Rightarrow> int \<Rightarrow> bytes option" where
  "block_part msg off len = do {
     m \<leftarrow> msg;
     c_assert (0 \<le> off \<and> 0 \<le> len \<and> off + len \<le> int (length m));
     Some (take (nat len) (drop (nat off) m))
   }"

partial_function (option) pop_string_loop :: "int \<Rightarrow> int \<Rightarrow> bytes \<Rightarrow> receive_buffer \<Rightarrow> node_pool \<Rightarrow> (bytes \<times> receive_buffer \<times> node_pool) option" where
  "pop_string_loop sz skip acc b P =
     (case rb_head b of
        None \<Rightarrow> None
      | Some a \<Rightarrow>
          let n = np_node P a; bytes = bn_sz n - rb_offset b
          in if bytes \<ge> sz then do {
               s \<leftarrow> (if sz > skip then block_part (bn_msg n) (rb_offset b) (sz - skip) else Some []);
               let b1 = b\<lparr>rb_offset := rb_offset b + sz\<rparr>;
               if bytes = sz then do { (b2, P2) \<leftarrow> return_free_node b1 P; Some (acc @ s, b2, P2) } else Some (acc @ s, b1, P)
             }
             else do {
               s \<leftarrow> (if sz - skip > 0 then block_part (bn_msg n) (rb_offset b) (if sz - skip < bytes then sz - skip else bytes) else Some []);
               (b1, P1) \<leftarrow> return_free_node b P;
               if sz - bytes = 0 then Some (acc @ s, b1, P1) else pop_string_loop (sz - bytes) skip (acc @ s) b1 P1
             })"

text \<open>\<open>sz\<close> bytes are taken out, the last \<open>skip\<close> of which are not part of the result.\<close>

definition pop_lstring :: "int \<Rightarrow> int \<Rightarrow> receive_buffer \<Rightarrow> node_pool \<Rightarrow> (bytes \<times> receive_buffer \<times> node_pool) option" where
  "pop_lstring sz skip b P = do {
     a \<leftarrow> rb_head b;
     let n = np_node P a;
     if sz < bn_sz n - rb_offset b then do {
       s \<leftarrow> block_part (bn_msg n) (rb_offset b) (sz - skip);
       Some (s, b\<lparr>rb_offset := rb_offset b + sz\<rparr>, P)
     }
     else if sz = bn_sz n - rb_offset b then do {
       s \<leftarrow> block_part (bn_msg n) (rb_offset b) (sz - skip);
       (b1, P1) \<leftarrow> return_free_node b P;
       Some (s, b1, P1)
     }
     else pop_string_loop sz skip [] b P
   }"

text \<open>The number that some bytes are, the highest first.\<close>

definition lheader :: "bytes \<Rightarrow> int option" where
  "lheader s = (if length s > 4 \<or> length s < 1 then None else Some (int (foldl (\<lambda>sz x. sz * 256 + unat x) 0 s)))"

text \<open>The bytes, or nothing (\<^verbatim>\<open>nil\<close>) when there are too few, and the size that is left.\<close>

definition lpopbuffer :: "int \<Rightarrow> receive_buffer \<Rightarrow> node_pool \<Rightarrow> ((bytes option \<times> int) \<times> receive_buffer \<times> node_pool) option" where
  "lpopbuffer sz b P =
     (if rb_size b < sz \<or> sz = 0 then Some ((None, rb_size b), b, P)
      else do {
        (s, b1, P1) \<leftarrow> pop_lstring sz 0 b P;
        c_assert (int_range (rb_size b - sz));
        Some ((Some s, rb_size b - sz), b1\<lparr>rb_size := rb_size b - sz\<rparr>, P1)
      })"

partial_function (option) clear_loop :: "receive_buffer \<Rightarrow> node_pool \<Rightarrow> (receive_buffer \<times> node_pool) option" where
  "clear_loop b P =
     (if rb_head b = None then Some (b, P) else do { (b1, P1) \<leftarrow> return_free_node b P; clear_loop b1 P1 })"

definition lclearbuffer :: "receive_buffer \<Rightarrow> node_pool \<Rightarrow> (receive_buffer \<times> node_pool) option" where
  "lclearbuffer b P = do { (b1, P1) \<leftarrow> clear_loop b P; Some (b1\<lparr>rb_size := 0\<rparr>, P1) }"

partial_function (option) readall_loop :: "bytes \<Rightarrow> receive_buffer \<Rightarrow> node_pool \<Rightarrow> (bytes \<times> receive_buffer \<times> node_pool) option" where
  "readall_loop acc b P =
     (case rb_head b of
        None \<Rightarrow> Some (acc, b, P)
      | Some a \<Rightarrow> do {
          s \<leftarrow> block_part (bn_msg (np_node P a)) (rb_offset b) (bn_sz (np_node P a) - rb_offset b);
          (b1, P1) \<leftarrow> return_free_node b P;
          readall_loop (acc @ s) b1 P1
        })"

definition lreadall :: "receive_buffer \<Rightarrow> node_pool \<Rightarrow> (bytes \<times> receive_buffer \<times> node_pool) option" where
  "lreadall b P = do { (s, b1, P1) \<leftarrow> readall_loop [] b P; Some (s, b1\<lparr>rb_size := 0\<rparr>, P1) }"

subsection \<open>Lines\<close>

partial_function (option) check_sep :: "node_pool \<Rightarrow> nat option \<Rightarrow> int \<Rightarrow> bytes \<Rightarrow> bool option" where
  "check_sep P p from sep =
     (case p of
        None \<Rightarrow> None
      | Some a \<Rightarrow>
          let n = np_node P a; sz = bn_sz n - from
          in if sz \<ge> int (length sep) then do { s \<leftarrow> block_part (bn_msg n) from (int (length sep)); Some (s = sep) }
             else do {
               c_assert (sz \<ge> 0);
               same \<leftarrow> (if sz > 0 then do { s \<leftarrow> block_part (bn_msg n) from sz; Some (s = take (nat sz) sep) } else Some True);
               if \<not> same then Some False else check_sep P (bn_next n) 0 (drop (nat sz) sep)
             })"

text \<open>The position of the separator, which is searched at \<open>k\<close> positions.\<close>

fun line_loop :: "node_pool \<Rightarrow> bytes \<Rightarrow> nat \<Rightarrow> nat \<Rightarrow> nat \<Rightarrow> int \<Rightarrow> int \<Rightarrow> nat option option" where
  "line_loop P sep 0 i current from bytes = Some None"
| "line_loop P sep (Suc k) i current from bytes = do {
     found \<leftarrow> check_sep P (Some current) from sep;
     if found then Some (Some i)
     else if bytes - 1 = 0 then
       (case bn_next (np_node P current) of
          None \<Rightarrow> Some None
        | Some a \<Rightarrow> line_loop P sep k (i + 1) a 0 (bn_sz (np_node P a)))
     else line_loop P sep k (i + 1) current (from + 1) (bytes - 1)
   }"

definition find_line :: "bytes \<Rightarrow> receive_buffer \<Rightarrow> node_pool \<Rightarrow> nat option option" where
  "find_line sep b P =
     (case rb_head b of
        None \<Rightarrow> Some None
      | Some a \<Rightarrow> line_loop P sep (nat (rb_size b - int (length sep) + 1)) 0 a (rb_offset b) (bn_sz (np_node P a) - rb_offset b))"

text \<open>The line without its separator, or nothing; with \<open>check\<close> only whether there is one.\<close>

definition lreadline :: "bytes \<Rightarrow> receive_buffer \<Rightarrow> node_pool \<Rightarrow> (bytes option \<times> receive_buffer \<times> node_pool) option" where
  "lreadline sep b P = do {
     found \<leftarrow> find_line sep b P;
     (case found of
        None \<Rightarrow> Some (None, b, P)
      | Some i \<Rightarrow> do {
          (s, b1, P1) \<leftarrow> pop_lstring (int (i + length sep)) (int (length sep)) b P;
          Some (Some s, b1\<lparr>rb_size := rb_size b - int (i + length sep)\<rparr>, P1)
        })
   }"

definition lcheckline :: "bytes \<Rightarrow> receive_buffer \<Rightarrow> node_pool \<Rightarrow> bool option" where
  "lcheckline sep b P = map_option (\<lambda>found. found \<noteq> None) (find_line sep b P)"

text \<open>The blocks of the nodes of a chunk are freed with the pool.\<close>

definition lfreepool :: "nat \<Rightarrow> nat \<Rightarrow> node_pool \<Rightarrow> node_pool" where
  "lfreepool a sz P =
     fold (\<lambda>i P. case bn_msg (np_node P i) of None \<Rightarrow> P | Some m \<Rightarrow> put_node i ((np_node P i)\<lparr>bn_msg := None\<rparr>) P\<lparr>np_freed := np_freed P @ [m]\<rparr>)
       [a..<a + sz] P"

declare pop_string_loop.simps [code] clear_loop.simps [code] readall_loop.simps [code] check_sep.simps [code]

subsection \<open>The lists of the buffer and of the pool\<close>

definition nx :: "node_pool \<Rightarrow> nat \<Rightarrow> nat option" where
  "nx P a = bn_next (np_node P a)"

lemma nx_free [simp]: "nx (P\<lparr>np_free := x\<rparr>) = nx P"
  by (simp add: nx_def fun_eq_iff)

definition holds_msg :: "node_pool \<Rightarrow> nat \<Rightarrow> bytes \<Rightarrow> bool" where
  "holds_msg P a m \<longleftrightarrow> bn_msg (np_node P a) = Some m \<and> bn_sz (np_node P a) = int (length m) \<and> m \<noteq> []"

text \<open>The nodes \<open>ns\<close> of a buffer with their blocks, the free nodes \<open>fl\<close>: all different.\<close>

definition linked :: "node_pool \<Rightarrow> nat list \<Rightarrow> receive_buffer \<Rightarrow> (nat \<times> bytes) list \<Rightarrow> bool" where
  "linked P fl b ns \<longleftrightarrow>
     chain (nx P) (rb_head b) (map fst ns) \<and> rb_tail b = (if ns = [] then None else Some (fst (last ns))) \<and>
     (\<forall>(a, m) \<in> set ns. holds_msg P a m) \<and>
     chain (nx P) (np_free P) fl \<and> (\<forall>a \<in> set fl. bn_msg (np_node P a) = None) \<and>
     distinct (fl @ map fst ns) \<and> (\<forall>a \<in> set (fl @ map fst ns). a < np_brk P)"

definition offset_in :: "receive_buffer \<Rightarrow> (nat \<times> bytes) list \<Rightarrow> bool" where
  "offset_in b ns \<longleftrightarrow> 0 \<le> rb_offset b \<and> (case ns of [] \<Rightarrow> rb_offset b = 0 | (a, m) # _ \<Rightarrow> rb_offset b < int (length m))"

definition content_of :: "receive_buffer \<Rightarrow> (nat \<times> bytes) list \<Rightarrow> bytes" where
  "content_of b ns = drop (nat (rb_offset b)) (concat (map snd ns))"

text \<open>What reading changes: nodes of other buffers stay; blocks are freed in their order.\<close>

definition apart :: "node_pool \<Rightarrow> nat list \<Rightarrow> (nat \<times> bytes) list \<Rightarrow> node_pool \<Rightarrow> nat list \<Rightarrow> (nat \<times> bytes) list \<Rightarrow> bool" where
  "apart P fl ns P' fl' ns' \<longleftrightarrow> np_brk P \<le> np_brk P' \<and>
     set (fl' @ map fst ns') \<subseteq> set (fl @ map fst ns) \<union> {np_brk P..<np_brk P'} \<and>
     (\<forall>a. a < np_brk P \<and> a \<notin> set (fl @ map fst ns) \<longrightarrow> np_node P' a = np_node P a)"

definition reads :: "node_pool \<Rightarrow> nat list \<Rightarrow> (nat \<times> bytes) list \<Rightarrow> node_pool \<Rightarrow> nat list \<Rightarrow> (nat \<times> bytes) list \<Rightarrow> bool" where
  "reads P fl ns P' fl' ns' \<longleftrightarrow> apart P fl ns P' fl' ns' \<and> np_freed P' @ map snd ns' = np_freed P @ map snd ns"

lemma apart_refl [simp]: "apart P fl ns P fl ns"
  by (auto simp: apart_def)

lemma reads_refl [simp]: "reads P fl ns P fl ns"
  by (simp add: reads_def)

lemma apart_trans:
  assumes "apart P fl ns P1 fl1 ns1" "apart P1 fl1 ns1 P2 fl2 ns2"
  shows "apart P fl ns P2 fl2 ns2"
proof -
  define S S1 S2 where "S = set (fl @ map fst ns)" and "S1 = set (fl1 @ map fst ns1)" and "S2 = set (fl2 @ map fst ns2)"
  have a: "np_brk P \<le> np_brk P1" "S1 \<subseteq> S \<union> {np_brk P..<np_brk P1}" "\<And>x. x < np_brk P \<Longrightarrow> x \<notin> S \<Longrightarrow> np_node P1 x = np_node P x"
    using assms(1) by (auto simp only: apart_def S_def S1_def)
  have b: "np_brk P1 \<le> np_brk P2" "S2 \<subseteq> S1 \<union> {np_brk P1..<np_brk P2}" "\<And>x. x < np_brk P1 \<Longrightarrow> x \<notin> S1 \<Longrightarrow> np_node P2 x = np_node P1 x"
    using assms(2) by (auto simp only: apart_def S1_def S2_def)
  have "x \<notin> S1" if "x < np_brk P" "x \<notin> S" for x using a(2) that by auto
  then have "np_node P2 x = np_node P x" if "x < np_brk P" "x \<notin> S" for x using a(1,3) b(3) that by simp
  moreover have "S2 \<subseteq> S \<union> {np_brk P..<np_brk P2}"
  proof
    fix x assume "x \<in> S2"
    then have "x \<in> S \<or> np_brk P \<le> x \<and> x < np_brk P1 \<or> np_brk P1 \<le> x \<and> x < np_brk P2" using a(2) b(2) by fastforce
    then show "x \<in> S \<union> {np_brk P..<np_brk P2}" using a(1) b(1) by auto
  qed
  ultimately show ?thesis using a(1) b(1) by (simp add: apart_def S_def S2_def)
qed

lemma reads_trans: "reads P fl ns P1 fl1 ns1 \<Longrightarrow> reads P1 fl1 ns1 P2 fl2 ns2 \<Longrightarrow> reads P fl ns P2 fl2 ns2"
  by (auto simp: reads_def intro: apart_trans)

lemma linked_offset: "linked P fl (b\<lparr>rb_offset := i\<rparr>) ns = linked P fl b ns" "linked P fl (b\<lparr>rb_size := n\<rparr>) ns = linked P fl b ns"
  by (simp_all add: linked_def)

text \<open>A buffer does not depend on the nodes of others.\<close>

lemma linked_frame:
  assumes "linked P fl b ns" "\<And>x. x \<in> set (map fst ns) \<Longrightarrow> np_node P' x = np_node P x"
  shows "chain (nx P') (rb_head b) (map fst ns)" "\<forall>(x, m) \<in> set ns. holds_msg P' x m"
proof -
  show "chain (nx P') (rb_head b) (map fst ns)"
    using assms chain_cong [of "map fst ns" "nx P'" "nx P" "rb_head b"] by (simp add: linked_def nx_def)
  show "\<forall>(x, m) \<in> set ns. holds_msg P' x m"
  proof (intro ballI, clarify)
    fix x m assume xm: "(x, m) \<in> set ns"
    then have "np_node P' x = np_node P x" using assms(2) by force
    then show "holds_msg P' x m" using assms(1) xm by (auto simp: linked_def holds_msg_def)
  qed
qed

lemma return_free_node_linked:
  assumes "linked P fl b ((a, m) # ns)"
  shows "\<exists>b' P'. return_free_node b P = Some (b', P') \<and> linked P' (a # fl) b' ns \<and> rb_offset b' = 0 \<and> rb_size b' = rb_size b \<and>
    reads P fl ((a, m) # ns) P' (a # fl) ns"
proof -
  let ?n = "np_node P a"
  let ?b = "b\<lparr>rb_offset := 0, rb_head := bn_next ?n, rb_tail := (if bn_next ?n = None then None else rb_tail b)\<rparr>"
  let ?P = "put_node a \<lparr>bn_msg = None, bn_sz = 0, bn_next = np_free P\<rparr> P\<lparr>np_free := Some a, np_freed := np_freed P @ [m]\<rparr>"
  have l: "rb_head b = Some a" "chain (nx P) (bn_next ?n) (map fst ns)" "rb_tail b = Some (fst (last ((a, m) # ns)))"
      "\<forall>(a, m) \<in> set ns. holds_msg P a m" "bn_msg ?n = Some m" "chain (nx P) (np_free P) fl" "\<forall>a \<in> set fl. bn_msg (np_node P a) = None"
      "distinct (fl @ map fst ns)" "a \<notin> set fl" "a \<notin> fst ` set ns" "\<forall>a \<in> set (fl @ map fst ns). a < np_brk P" "a < np_brk P"
    using assms by (auto simp: linked_def holds_msg_def nx_def [of P a])
  have r: "return_free_node b P = Some (?b, ?P)" using l(1,5) by (simp add: return_free_node_def Let_def)
  have nx: "nx ?P = (nx P)(a := np_free P)" by (simp add: nx_def put_node_def fun_eq_iff)
  have c1: "chain (nx ?P) (bn_next ?n) (map fst ns)" "chain (nx ?P) (Some a) (a # fl)"
    using l(2,6,9,10) by (simp_all add: nx)
  have c2: "(bn_next ?n = None) = (ns = [])" using l(2) by (cases ns) auto
  have c3: "\<forall>(x, y) \<in> set ns. holds_msg ?P x y" using l(4,10) by (force simp: holds_msg_def put_node_def)
  have c4: "\<forall>x \<in> set (a # fl). bn_msg (np_node ?P x) = None" using l(7) by (simp add: put_node_def)
  have "linked ?P (a # fl) ?b ns"
    using c1 c2 c3 c4 l(3,8-12) by (simp add: linked_def put_node_def)
  moreover have "reads P fl ((a, m) # ns) ?P (a # fl) ns" by (auto simp: reads_def apart_def put_node_def)
  ultimately show ?thesis using r by (intro exI [of _ ?b] exI [of _ ?P]) simp
qed

lemma linked_head: "linked P fl b ((a, m) # ns) \<Longrightarrow> rb_head b = Some a \<and> bn_msg (np_node P a) = Some m \<and> bn_sz (np_node P a) = int (length m)"
  by (simp add: linked_def holds_msg_def)

lemma block_part_some: "0 \<le> off \<Longrightarrow> 0 \<le> n \<Longrightarrow> off + n \<le> int (length m) \<Longrightarrow> block_part (Some m) off n = Some (take (nat n) (drop (nat off) m))"
  by (simp add: block_part_def)

lemma offset_zero: "linked P fl b ns \<Longrightarrow> rb_offset b = 0 \<Longrightarrow> offset_in b ns"
  by (auto simp: offset_in_def linked_def holds_msg_def split: list.split)

lemma content_Cons: "content_of b ((a, m) # ns) = drop (nat (rb_offset b)) m @ drop (nat (rb_offset b) - length m) (concat (map snd ns))"
  by (simp add: content_of_def)

text \<open>What is left after \<open>sz\<close> bytes.\<close>

definition leaves :: "node_pool \<Rightarrow> nat list \<Rightarrow> (nat \<times> bytes) list \<Rightarrow> receive_buffer \<Rightarrow> bytes \<Rightarrow> receive_buffer \<Rightarrow> node_pool \<Rightarrow> bool" where
  "leaves P fl ns b rest b' P' \<longleftrightarrow> (\<exists>fl' ns'. linked P' fl' b' ns' \<and> offset_in b' ns' \<and> content_of b' ns' = rest \<and> rb_size b' = rb_size b \<and> reads P fl ns P' fl' ns')"

lemma leaves_offset:
  assumes "linked P fl b ((a, m) # ns)" "offset_in b ((a, m) # ns)" "0 \<le> sz" "sz < int (length m) - rb_offset b"
  shows "leaves P fl ((a, m) # ns) b (drop (nat sz) (content_of b ((a, m) # ns))) (b\<lparr>rb_offset := rb_offset b + sz\<rparr>) P"
proof -
  have "content_of (b\<lparr>rb_offset := rb_offset b + sz\<rparr>) ((a, m) # ns) = drop (nat sz) (content_of b ((a, m) # ns))"
    using assms(2-4) by (simp add: content_of_def offset_in_def nat_add_distrib add.commute)
  then show ?thesis using assms by (auto simp: leaves_def linked_offset offset_in_def intro!: exI [of _ fl] exI [of _ "(a, m) # ns"])
qed

lemma leaves_return:
  assumes "linked P fl b ((a, m) # ns)" "rb_offset b \<le> int (length m)"
  shows "\<exists>b' P'. return_free_node (b\<lparr>rb_offset := i\<rparr>) P = Some (b', P') \<and> return_free_node b P = Some (b', P') \<and>
    linked P' (a # fl) b' ns \<and> offset_in b' ns \<and>
    rb_offset b' = 0 \<and> rb_size b' = rb_size b \<and> reads P fl ((a, m) # ns) P' (a # fl) ns \<and>
    content_of b ((a, m) # ns) = drop (nat (rb_offset b)) m @ content_of b' ns"
proof -
  obtain b' P' where r: "return_free_node b P = Some (b', P')" "linked P' (a # fl) b' ns" "rb_offset b' = 0" "rb_size b' = rb_size b"
      "reads P fl ((a, m) # ns) P' (a # fl) ns" using return_free_node_linked [OF assms(1)] by blast
  have "return_free_node (b\<lparr>rb_offset := i\<rparr>) P = return_free_node b P"
    by (cases "rb_head b") (simp_all add: return_free_node_def Let_def)
  moreover have "content_of b ((a, m) # ns) = drop (nat (rb_offset b)) m @ content_of b' ns" using assms(2) r(3) by (simp add: content_of_def)
  ultimately show ?thesis using r offset_zero [OF r(2,3)] by auto
qed

lemma pop_loop_leaves:
  "linked P fl b ns \<Longrightarrow> offset_in b ns \<Longrightarrow> 0 < sz \<Longrightarrow> sz \<le> int (length (content_of b ns)) \<Longrightarrow> 0 \<le> skip \<Longrightarrow>
    \<exists>b' P'. pop_string_loop sz skip acc b P = Some (acc @ take (nat (sz - skip)) (content_of b ns), b', P') \<and> leaves P fl ns b (drop (nat sz) (content_of b ns)) b' P'"
proof (induction ns arbitrary: P fl b sz acc)
  case Nil
  then show ?case by (simp add: content_of_def)
next
  case (Cons x ns)
  obtain a m where x: "x = (a, m)" by (cases x)
  note lk = Cons.prems(1) [unfolded x] and off = Cons.prems(2) [unfolded x]
  note h = linked_head [OF lk]
  have o: "0 \<le> rb_offset b" "rb_offset b < int (length m)" using off by (simp_all add: offset_in_def)
  obtain b1 P1 where ret: "return_free_node (b\<lparr>rb_offset := rb_offset b + sz\<rparr>) P = Some (b1, P1)" "return_free_node b P = Some (b1, P1)"
      "linked P1 (a # fl) b1 ns" "offset_in b1 ns" "rb_offset b1 = 0" "rb_size b1 = rb_size b" "reads P fl ((a, m) # ns) P1 (a # fl) ns"
      "content_of b ((a, m) # ns) = drop (nat (rb_offset b)) m @ content_of b1 ns"
    using leaves_return [OF lk, of "rb_offset b + sz"] o(2) by auto
  let ?bytes = "int (length m) - rb_offset b"
  let ?d = "drop (nat (rb_offset b)) m"
  have len: "int (length ?d) = ?bytes" using o by simp
  show ?case
  proof (cases "?bytes \<ge> sz")
    case True
    have part: "(if sz > skip then block_part (bn_msg (np_node P a)) (rb_offset b) (sz - skip) else Some []) = Some (take (nat (sz - skip)) (content_of b (x # ns)))"
    proof (cases "sz > skip")
      case s: True
      have "nat (sz - skip) \<le> length ?d" using len True Cons.prems(5) by linarith
      then show ?thesis using s h o True Cons.prems(5) by (simp add: block_part_some x ret(8))
    qed simp
    show ?thesis
    proof (cases "?bytes = sz")
      case eq: True
      have "drop (nat sz) (content_of b (x # ns)) = content_of b1 ns" using eq len by (simp add: x ret(8))
      then have "leaves P fl (x # ns) b (drop (nat sz) (content_of b (x # ns))) b1 P1" using ret x by (auto simp: leaves_def)
      then show ?thesis using part True eq h ret(1) by (subst pop_string_loop.simps) (simp add: Let_def)
    next
      case False
      then have "leaves P fl (x # ns) b (drop (nat sz) (content_of b (x # ns))) (b\<lparr>rb_offset := rb_offset b + sz\<rparr>) P"
        using leaves_offset [OF lk off, of sz] True Cons.prems(3) x by simp
      then show ?thesis using part True False h by (subst pop_string_loop.simps) (simp add: Let_def)
    qed
  next
    case False
    have "0 < sz - ?bytes" "sz - ?bytes \<le> int (length (content_of b1 ns))" using False Cons.prems(4) len o(1) by (simp_all add: x ret(8))
    then obtain b2 P2 where IH: "pop_string_loop (sz - ?bytes) skip (acc @ take (nat (sz - skip)) ?d) b1 P1 =
          Some ((acc @ take (nat (sz - skip)) ?d) @ take (nat (sz - ?bytes - skip)) (content_of b1 ns), b2, P2)"
        "leaves P1 (a # fl) ns b1 (drop (nat (sz - ?bytes)) (content_of b1 ns)) b2 P2"
      using Cons.IH [OF ret(3,4) _ _ Cons.prems(5)] by blast
    have part: "(if sz - skip > 0 then block_part (bn_msg (np_node P a)) (rb_offset b) (if sz - skip < bn_sz (np_node P a) - rb_offset b then sz - skip else bn_sz (np_node P a) - rb_offset b) else Some []) =
        Some (take (nat (sz - skip)) ?d)"
      using h o by (auto simp: block_part_some)
    have eqs: "take (nat (sz - skip)) (content_of b (x # ns)) = take (nat (sz - skip)) ?d @ take (nat (sz - ?bytes - skip)) (content_of b1 ns)"
        "drop (nat sz) (content_of b (x # ns)) = drop (nat (sz - ?bytes)) (content_of b1 ns)"
    proof -
      have "nat (sz - skip) - length ?d = nat (sz - ?bytes - skip)" "nat sz - length ?d = nat (sz - ?bytes)" "length ?d \<le> nat sz" using len False by linarith+
      then show "take (nat (sz - skip)) (content_of b (x # ns)) = take (nat (sz - skip)) ?d @ take (nat (sz - ?bytes - skip)) (content_of b1 ns)"
        "drop (nat sz) (content_of b (x # ns)) = drop (nat (sz - ?bytes)) (content_of b1 ns)" by (simp_all add: x ret(8)) linarith?
    qed
    have "leaves P fl (x # ns) b (drop (nat sz) (content_of b (x # ns))) b2 P2"
      using IH(2) reads_trans [OF ret(7)] ret(6) x unfolding leaves_def eqs(2) by metis
    moreover have "pop_string_loop sz skip acc b P = Some (acc @ take (nat (sz - skip)) (content_of b (x # ns)), b2, P2)"
      using part False h ret(2) IH(1) eqs(1) by (subst pop_string_loop.simps) (simp add: Let_def split del: if_split)
    ultimately show ?thesis by blast
  qed
qed

lemma pop_lstring_leaves:
  assumes "linked P fl b ns" "offset_in b ns" "0 < sz" "sz \<le> int (length (content_of b ns))" "0 \<le> skip" "skip \<le> sz"
  shows "\<exists>b' P'. pop_lstring sz skip b P = Some (take (nat (sz - skip)) (content_of b ns), b', P') \<and> leaves P fl ns b (drop (nat sz) (content_of b ns)) b' P'"
proof (cases ns)
  case Nil
  then show ?thesis using assms(3,4) by (simp add: content_of_def)
next
  case (Cons x ns')
  obtain a m where x: "x = (a, m)" by (cases x)
  note lk = assms(1) [unfolded Cons x] and off = assms(2) [unfolded Cons x]
  note h = linked_head [OF lk]
  have o: "0 \<le> rb_offset b" "rb_offset b < int (length m)" using off by (simp_all add: offset_in_def)
  let ?d = "drop (nat (rb_offset b)) m"
  have len: "int (length ?d) = int (length m) - rb_offset b" using o by simp
  have part: "block_part (bn_msg (np_node P a)) (rb_offset b) (sz - skip) = Some (take (nat (sz - skip)) (content_of b ns))" if "sz \<le> int (length m) - rb_offset b"
  proof -
    have "nat (sz - skip) \<le> length ?d" using len that assms(5) by linarith
    moreover have "content_of b ns = ?d @ concat (map snd ns')" using o by (simp add: Cons x content_Cons)
    ultimately show ?thesis using h o that assms(5,6) by (simp add: block_part_some)
  qed
  consider "sz < int (length m) - rb_offset b" | "sz = int (length m) - rb_offset b" | "sz > int (length m) - rb_offset b" by linarith
  then show ?thesis
  proof cases
    case 1
    then have "leaves P fl ns b (drop (nat sz) (content_of b ns)) (b\<lparr>rb_offset := rb_offset b + sz\<rparr>) P"
      using leaves_offset [OF lk off, of sz] assms(3) by (simp add: Cons x)
    then show ?thesis using 1 part h by (simp add: pop_lstring_def Let_def)
  next
    case 2
    obtain b1 P1 where ret: "return_free_node b P = Some (b1, P1)"
        "linked P1 (a # fl) b1 ns'" "offset_in b1 ns'" "rb_size b1 = rb_size b" "reads P fl ((a, m) # ns') P1 (a # fl) ns'"
        "content_of b ((a, m) # ns') = ?d @ content_of b1 ns'"
      using leaves_return [OF lk, of 0] o(2) by auto
    have "drop (nat sz) (content_of b ns) = content_of b1 ns'" using 2 len by (simp add: Cons x ret(6))
    then have "leaves P fl ns b (drop (nat sz) (content_of b ns)) b1 P1" using ret Cons x by (auto simp: leaves_def)
    then show ?thesis using 2 part h ret(1) by (simp add: pop_lstring_def Let_def)
  next
    case 3
    then show ?thesis using pop_loop_leaves [OF assms(1-5), of "[]"] h by (simp add: pop_lstring_def Let_def)
  qed
qed

subsection \<open>Pushing\<close>

lemma chunk_chain: "0 < n \<Longrightarrow> (\<And>a. k \<le> a \<Longrightarrow> a < k + n \<Longrightarrow> f a = (if a = k + n - 1 then None else Some (a + 1))) \<Longrightarrow> chain f (Some k) [k..<k + n]"
proof (induction n arbitrary: k)
  case (Suc n)
  show ?case
  proof (cases "n = 0")
    case True
    then show ?thesis using Suc.prems(2) [of k] by simp
  next
    case False
    have "chain f (Some (k + 1)) [k + 1..<k + 1 + n]" using False Suc.prems(2) by (intro Suc.IH) auto
    moreover have "f k = Some (k + 1)" using Suc.prems(2) [of k] False by simp
    moreover have "[k..<k + Suc n] = k # [k + 1..<k + 1 + n]" by (simp add: upt_conv_Cons del: upt_Suc)
    ultimately show ?thesis by simp
  qed
qed simp

lemma free_node_linked:
  assumes "linked P fl b ns" "take_free_node P = (a, P1)"
  shows "\<exists>fl1. linked (P1\<lparr>np_free := Some a\<rparr>) (a # fl1) b ns \<and> apart P fl ns (P1\<lparr>np_free := Some a\<rparr>) (a # fl1) ns \<and> np_freed P1 = np_freed P"
proof (cases "np_free P")
  case (Some x)
  then have x: "a = x" "P1 = P" using assms(2) by (simp_all add: take_free_node_def)
  obtain fl1 where "fl = a # fl1" using assms(1) Some x by (auto simp: linked_def chain_Some)
  moreover have "P1\<lparr>np_free := Some a\<rparr> = P" using Some x by simp
  ultimately show ?thesis using assms(1) x by (auto simp: apart_def)
next
  case None
  then have fl: "fl = []" using assms(1) by (simp add: linked_def)
  let ?k = "np_brk P"
  define tsz where "tsz = (if np_len P = 0 then 1 else np_len P)"
  define n :: nat where "n = (if tsz \<le> LARGE_PAGE_NODE - 3 then 8 * 2 ^ tsz else 8 * 2 ^ (LARGE_PAGE_NODE - 3))"
  have P1: "a = ?k" "P1 = snd (lnewpool n P)\<lparr>np_len := tsz + 1, np_warned := np_warned P @ (if tsz > POOL_SIZE_WARNING then [tsz] else [])\<rparr>"
    using assms(2) None unfolding take_free_node_def Let_def tsz_def [symmetric] n_def [symmetric] by (auto simp: lnewpool_def Let_def)
  have n: "0 < n" "a = ?k" "np_brk P1 = ?k + n" "np_freed P1 = np_freed P"
    "\<And>x. np_node P1 x = (if ?k \<le> x \<and> x < ?k + n then \<lparr>bn_msg = None, bn_sz = 0, bn_next = (if x = ?k + n - 1 then None else Some (x + 1))\<rparr> else np_node P x)"
    using P1 by (simp_all add: lnewpool_def Let_def) (simp add: n_def)
  let ?P = "P1\<lparr>np_free := Some a\<rparr>"
  have old: "np_node ?P x = np_node P x" if "x < ?k" for x using that n(5) by simp
  have ns: "\<forall>x \<in> set (map fst ns). x < ?k" using assms(1) by (simp add: linked_def)
  have c: "chain (nx ?P) (rb_head b) (map fst ns)" "\<forall>(x, m) \<in> set ns. holds_msg ?P x m"
    using linked_frame [OF assms(1), of ?P] ns old by blast+
  have "chain (nx ?P) (Some ?k) [?k..<?k + n]" by (rule chunk_chain [OF n(1)]) (simp add: nx_def n(5))
  moreover have split: "[?k..<?k + n] = a # [?k + 1..<?k + n]" using n(1,2) by (simp add: upt_conv_Cons)
  moreover have "\<forall>x \<in> set [?k..<?k + n]. bn_msg (np_node ?P x) = None" by (simp add: n(5))
  moreover have "set [?k..<?k + n] \<inter> set (map fst ns) = {}" using ns by auto
  moreover have "\<forall>x \<in> set ([?k..<?k + n] @ map fst ns). x < np_brk ?P" using ns n(3) by auto
  ultimately have "linked ?P (a # [?k + 1..<?k + n]) b ns"
    using assms(1) c n(2) unfolding linked_def split [symmetric] by simp
  moreover have "apart P fl ns ?P (a # [?k + 1..<?k + n]) ns"
    using n(3) old unfolding apart_def split [symmetric] by auto
  ultimately show ?thesis using n(4) by blast
qed

lemma lpushbuffer_linked:
  assumes "linked P fl b ns" "msg \<noteq> []" "int_range (rb_size b + int (length msg))"
  shows "\<exists>b' P' fl' a. lpushbuffer msg (int (length msg)) b P = Some (rb_size b + int (length msg), b', P') \<and> linked P' fl' b' (ns @ [(a, msg)]) \<and>
    rb_offset b' = rb_offset b \<and> rb_size b' = rb_size b + int (length msg) \<and> apart P fl ns P' fl' (ns @ [(a, msg)]) \<and> np_freed P' = np_freed P"
proof -
  obtain a P1 where f: "take_free_node P = (a, P1)" by fastforce
  obtain fl1 where l1: "linked (P1\<lparr>np_free := Some a\<rparr>) (a # fl1) b ns" "apart P fl ns (P1\<lparr>np_free := Some a\<rparr>) (a # fl1) ns" "np_freed P1 = np_freed P"
    using free_node_linked [OF assms(1) f] by blast
  let ?new = "\<lparr>bn_msg = Some msg, bn_sz = int (length msg), bn_next = None\<rparr>"
  let ?P3 = "put_node a ?new (P1\<lparr>np_free := bn_next (np_node P1 a)\<rparr>)"
  have l: "chain (nx P1) (rb_head b) (map fst ns)" "rb_tail b = (if ns = [] then None else Some (fst (last ns)))" "\<forall>(a, m) \<in> set ns. holds_msg P1 a m"
      "chain (nx P1) (bn_next (np_node P1 a)) fl1" "\<forall>x \<in> set fl1. bn_msg (np_node P1 x) = None" "distinct (fl1 @ map fst ns)" "a \<notin> set fl1" "a \<notin> fst ` set ns"
      "\<forall>x \<in> set (fl1 @ map fst ns). x < np_brk P1" "a < np_brk P1"
    using l1(1) by (auto simp: linked_def nx_def holds_msg_def)
  have tail_new: "linked P4 fl1 b' (ns @ [(a, msg)])"
    if nodes: "\<And>x. bn_msg (np_node P4 x) = bn_msg (np_node ?P3 x)" "\<And>x. bn_sz (np_node P4 x) = bn_sz (np_node ?P3 x)"
      and rest: "np_free P4 = bn_next (np_node P1 a)" "np_brk P4 = np_brk P1" and nexts: "\<And>x. x \<notin> set (map fst ns) \<Longrightarrow> x \<noteq> a \<Longrightarrow> nx P4 x = nx P1 x"
      and ch: "chain (nx P4) (rb_head b') (map fst ns @ [a])" and tl: "rb_tail b' = Some a" for P4 b'
  proof -
    have "nx P4 x = nx P1 x" if "x \<in> set fl1" for x using l(6,7) that by (intro nexts) auto
    then have "chain (nx P4) (np_free P4) fl1" using l(4) rest(1) chain_cong [of fl1 "nx P4" "nx P1"] by simp
    moreover have "\<forall>x \<in> set fl1. bn_msg (np_node P4 x) = None" using l(5,7) nodes(1) by (auto simp: put_node_def)
    moreover have "\<forall>(x, m) \<in> set (ns @ [(a, msg)]). holds_msg P4 x m" using l(3,8) nodes assms(2) by (force simp: holds_msg_def put_node_def)
    ultimately show ?thesis using l(6-10) rest(2) ch tl by (simp add: linked_def)
  qed
  have apart_new: "apart P fl ns P4 fl1 (ns @ [(a, msg)])"
    if "np_brk P4 = np_brk P1" "\<And>x. x < np_brk P1 \<Longrightarrow> x \<notin> set (map fst ns) \<Longrightarrow> x \<noteq> a \<Longrightarrow> np_node P4 x = np_node P1 x" for P4
    using that by (intro apart_trans [OF l1(2)]) (auto simp: apart_def)
  show ?thesis
  proof (cases "ns = []")
    case True
    let ?b = "b\<lparr>rb_head := Some a, rb_tail := Some a, rb_size := rb_size b + int (length msg)\<rparr>"
    have "lpushbuffer msg (int (length msg)) b P = Some (rb_size b + int (length msg), ?b, ?P3)"
      using True l(1,2) assms(3) f by (simp add: lpushbuffer_def Let_def)
    moreover have "linked ?P3 fl1 ?b (ns @ [(a, msg)])" by (rule tail_new) (simp_all add: True put_node_def nx_def)
    moreover have "apart P fl ns ?P3 fl1 (ns @ [(a, msg)])" by (rule apart_new) (simp_all add: put_node_def)
    ultimately show ?thesis using l1(3) by (intro exI [of _ ?b] exI [of _ ?P3] exI [of _ fl1] exI [of _ a]) (simp add: put_node_def)
  next
    case False
    then obtain h where h: "rb_head b = Some h" using l(1) by (cases ns) auto
    let ?t = "fst (last ns)"
    let ?P4 = "put_node ?t ((np_node ?P3 ?t)\<lparr>bn_next := Some a\<rparr>) ?P3"
    let ?b = "b\<lparr>rb_tail := Some a, rb_size := rb_size b + int (length msg)\<rparr>"
    have t: "?t \<in> set (map fst ns)" "?t \<noteq> a" "last (map fst ns) = ?t" using False l(8) by (auto simp: last_map)
    have "lpushbuffer msg (int (length msg)) b P = Some (rb_size b + int (length msg), ?b, ?P4)"
      using False h l(2) assms(3) f by (simp add: lpushbuffer_def Let_def)
    moreover have "linked ?P4 fl1 ?b (ns @ [(a, msg)])"
    proof (rule tail_new)
      have "nx ?P4 = (nx P1)(?t := Some a, a := None)" using t(2) by (auto simp: nx_def put_node_def fun_eq_iff)
      then show "chain (nx ?P4) (rb_head ?b) (map fst ns @ [a])"
        using chain_snoc [of "map fst ns" a "nx P1" "rb_head b"] l(1,6,8) False t(3) by simp
    qed (use t in \<open>auto simp: put_node_def nx_def\<close>)
    moreover have "apart P fl ns ?P4 fl1 (ns @ [(a, msg)])" by (rule apart_new) (use t in \<open>auto simp: put_node_def\<close>)
    ultimately show ?thesis using l1(3) by (intro exI [of _ ?b] exI [of _ ?P4] exI [of _ fl1] exI [of _ a]) (simp add: put_node_def)
  qed
qed

subsection \<open>Emptying\<close>

lemma clear_loop_linked:
  "linked P fl b ns \<Longrightarrow> \<exists>b' P' fl'. clear_loop b P = Some (b', P') \<and> linked P' fl' b' [] \<and> (ns = [] \<or> rb_offset b' = 0) \<and> (ns = [] \<longrightarrow> rb_offset b' = rb_offset b) \<and>
    rb_size b' = rb_size b \<and> reads P fl ns P' fl' []"
proof (induction ns arbitrary: P fl b)
  case Nil
  then have "rb_head b = None" by (simp add: linked_def)
  then have "clear_loop b P = Some (b, P)" by (subst clear_loop.simps) simp
  then show ?case using Nil reads_refl [of P fl "[]"] by blast
next
  case (Cons x ns)
  obtain a m where x: "x = (a, m)" by (cases x)
  obtain b1 P1 where r: "return_free_node b P = Some (b1, P1)" "linked P1 (a # fl) b1 ns" "rb_offset b1 = 0" "rb_size b1 = rb_size b"
      "reads P fl ((a, m) # ns) P1 (a # fl) ns" using return_free_node_linked Cons.prems x by blast
  obtain b2 P2 fl2 where IH: "clear_loop b1 P1 = Some (b2, P2)" "linked P2 fl2 b2 []" "ns = [] \<or> rb_offset b2 = 0" "ns = [] \<longrightarrow> rb_offset b2 = rb_offset b1"
      "rb_size b2 = rb_size b1" "reads P1 (a # fl) ns P2 fl2 []" using Cons.IH [OF r(2)] by blast
  have "rb_head b = Some a" using linked_head [of P fl b a m ns] Cons.prems x by simp
  then have "clear_loop b P = Some (b2, P2)" using r(1) IH(1) by (subst clear_loop.simps) simp
  then show ?case using IH r x reads_trans [OF r(5) IH(6)] by auto
qed

lemma lclearbuffer_linked:
  assumes "linked P fl b ns" "offset_in b ns"
  shows "\<exists>b' P' fl'. lclearbuffer b P = Some (b', P') \<and> linked P' fl' b' [] \<and> offset_in b' [] \<and> rb_size b' = 0 \<and> reads P fl ns P' fl' []"
proof -
  obtain b' P' fl' where c: "clear_loop b P = Some (b', P')" "linked P' fl' b' []" "ns = [] \<or> rb_offset b' = 0" "ns = [] \<longrightarrow> rb_offset b' = rb_offset b"
      "reads P fl ns P' fl' []" using clear_loop_linked [OF assms(1)] by blast
  have "rb_offset b' = 0" using c(3,4) assms(2) by (auto simp: offset_in_def)
  then show ?thesis using c by (intro exI [of _ "b'\<lparr>rb_size := 0\<rparr>"] exI [of _ P'] exI [of _ fl']) (simp add: lclearbuffer_def linked_offset offset_in_def)
qed

lemma readall_loop_linked:
  "linked P fl b ns \<Longrightarrow> offset_in b ns \<Longrightarrow> \<exists>b' P' fl'. readall_loop acc b P = Some (acc @ content_of b ns, b', P') \<and> linked P' fl' b' [] \<and> offset_in b' [] \<and>
    reads P fl ns P' fl' []"
proof (induction ns arbitrary: P fl b acc)
  case Nil
  then have "rb_head b = None" by (simp add: linked_def)
  then have "readall_loop acc b P = Some (acc, b, P)" by (subst readall_loop.simps) simp
  then show ?case using Nil reads_refl [of P fl "[]"] by (auto simp: content_of_def)
next
  case (Cons x ns)
  obtain a m where x: "x = (a, m)" by (cases x)
  note lk = Cons.prems(1) [unfolded x] and off = Cons.prems(2) [unfolded x]
  note h = linked_head [OF lk]
  have o: "0 \<le> rb_offset b" "rb_offset b < int (length m)" using off by (simp_all add: offset_in_def)
  obtain b1 P1 where ret: "return_free_node b P = Some (b1, P1)" "linked P1 (a # fl) b1 ns" "offset_in b1 ns" "reads P fl ((a, m) # ns) P1 (a # fl) ns"
      "content_of b ((a, m) # ns) = drop (nat (rb_offset b)) m @ content_of b1 ns"
    using leaves_return [OF lk, of 0] o(2) by auto
  obtain b2 P2 fl2 where IH: "readall_loop (acc @ drop (nat (rb_offset b)) m) b1 P1 = Some ((acc @ drop (nat (rb_offset b)) m) @ content_of b1 ns, b2, P2)"
      "linked P2 fl2 b2 []" "offset_in b2 []" "reads P1 (a # fl) ns P2 fl2 []" using Cons.IH [OF ret(2,3)] by blast
  have "block_part (bn_msg (np_node P a)) (rb_offset b) (bn_sz (np_node P a) - rb_offset b) = Some (drop (nat (rb_offset b)) m)"
    using h o by (simp add: block_part_some)
  then have "readall_loop acc b P = Some (acc @ content_of b (x # ns), b2, P2)"
    using h ret(1,5) IH(1) x by (subst readall_loop.simps) simp
  then show ?case using IH(2,3) reads_trans [OF ret(4) IH(4)] x by blast
qed

subsection \<open>Searching\<close>

lemma prefix_split: "n \<le> length xs \<Longrightarrow> n \<le> length sep \<Longrightarrow> take (length sep) (xs @ ys) = sep \<longleftrightarrow> take n xs = take n sep \<and> take (length sep - n) (drop n xs @ ys) = drop n sep"
proof -
  assume n: "n \<le> length xs" "n \<le> length sep"
  have "take (length sep) (xs @ ys) = take n xs @ take (length sep - n) (drop n xs @ ys)"
    using n take_add [of n "length sep - n" "xs @ ys"] by simp
  moreover have "sep = take n sep @ drop n sep" by simp
  ultimately show ?thesis using n append_eq_append_conv [of "take n xs" "take n sep"] by (metis length_take min_absorb2)
qed

lemma check_sep_linked:
  "chain (nx P) p (map fst ns) \<Longrightarrow> \<forall>(a, m) \<in> set ns. holds_msg P a m \<Longrightarrow> ns \<noteq> [] \<longrightarrow> from \<le> length (snd (hd ns)) \<Longrightarrow> sep \<noteq> [] \<Longrightarrow>
    length sep \<le> length (drop from (concat (map snd ns))) \<Longrightarrow>
    check_sep P p (int from) sep = Some (take (length sep) (drop from (concat (map snd ns))) = sep)"
proof (induction ns arbitrary: p "from" sep)
  case (Cons x ns)
  obtain a m where x: "x = (a, m)" by (cases x)
  have h: "p = Some a" "bn_msg (np_node P a) = Some m" "bn_sz (np_node P a) = int (length m)" "chain (nx P) (bn_next (np_node P a)) (map fst ns)"
    using Cons.prems(1,2) by (simp_all add: x holds_msg_def nx_def [of P a])
  have le: "from \<le> length m" using Cons.prems(3) by (simp add: x)
  let ?d = "drop from m"
  have c: "drop from (concat (map snd (x # ns))) = ?d @ concat (map snd ns)" using le by (simp add: x)
  show ?case
  proof (cases "length sep \<le> length ?d")
    case True
    then have "block_part (Some m) (int from) (int (length sep)) = Some (take (length sep) ?d)" using le by (simp add: block_part_some)
    moreover have "int (length sep) \<le> int (length m) - int from" using True le by simp
    ultimately show ?thesis using h(1-3) True c by (subst check_sep.simps) (simp add: Let_def)
  next
    case False
    obtain n where n: "length m = from + n" using le le_Suc_ex by blast
    have less: "n < length sep" "length ?d = n" using False n by simp_all
    have part: "block_part (Some m) (int from) (int n) = Some ?d" using n by (simp add: block_part_some)
    have step: "check_sep P p (int from) sep = (if ?d = take n sep then check_sep P (bn_next (np_node P a)) 0 (drop n sep) else Some False)"
      using h less part n by (subst check_sep.simps) (cases "n = 0"; simp add: Let_def)
    have "check_sep P (bn_next (np_node P a)) (int 0) (drop n sep) = Some (take (length (drop n sep)) (drop 0 (concat (map snd ns))) = drop n sep)"
      using Cons.prems(2,5) less c by (intro Cons.IH [OF h(4)]) (auto simp: x)
    moreover have "take (length sep) (?d @ concat (map snd ns)) = sep \<longleftrightarrow> ?d = take n sep \<and> take (length sep - n) (concat (map snd ns)) = drop n sep"
      using prefix_split [of n ?d sep "concat (map snd ns)"] less by simp
    ultimately show ?thesis using step c by simp
  qed
qed simp

text \<open>The first of \<open>k\<close> positions at which the separator is found.\<close>

fun find_at :: "bytes \<Rightarrow> nat \<Rightarrow> bytes \<Rightarrow> nat option" where
  "find_at sep 0 c = None"
| "find_at sep (Suc k) c = (if take (length sep) c = sep then Some 0 else map_option Suc (find_at sep k (tl c)))"

lemma line_loop_linked:
  "chain (nx P) (Some a) (map fst ns) \<Longrightarrow> \<forall>(a, m) \<in> set ns. holds_msg P a m \<Longrightarrow> from < length (snd (hd ns)) \<Longrightarrow> sep \<noteq> [] \<Longrightarrow>
    k + length sep \<le> length (drop from (concat (map snd ns))) + 1 \<Longrightarrow>
    line_loop P sep k i a (int from) (int (length (snd (hd ns))) - int from) = Some (map_option (\<lambda>j. i + j) (find_at sep k (drop from (concat (map snd ns)))))"
proof (induction k arbitrary: i a "from" ns)
  case (Suc k)
  let ?c = "drop from (concat (map snd ns))"
  obtain m ns' where ns: "ns = (a, m) # ns'" using Suc.prems(1) by (cases ns) auto
  have h: "bn_sz (np_node P a) = int (length m)" "chain (nx P) (bn_next (np_node P a)) (map fst ns')" using Suc.prems(1,2) by (simp_all add: ns holds_msg_def nx_def [of P a])
  have f: "from < length m" using Suc.prems(3) by (simp add: ns)
  have chk: "check_sep P (Some a) (int from) sep = Some (take (length sep) ?c = sep)"
    using Suc.prems f by (intro check_sep_linked) (auto simp: ns)
  have c: "?c = m ! from # drop (Suc from) m @ concat (map snd ns')" using f by (simp add: ns Cons_nth_drop_Suc)
  show ?case
  proof (cases "take (length sep) ?c = sep")
    case True
    then show ?thesis using chk by simp
  next
    case no: False
    show ?thesis
    proof (cases "Suc from = length m")
      case False
      then have next1: "line_loop P sep k (i + 1) a (int (Suc from)) (int (length (snd (hd ns))) - int (Suc from)) =
          Some (map_option (\<lambda>j. i + 1 + j) (find_at sep k (drop (Suc from) (concat (map snd ns)))))"
        using Suc.prems f by (intro Suc.IH) (auto simp: ns)
      have "tl ?c = drop (Suc from) (concat (map snd ns))" by (simp add: drop_Suc tl_drop)
      moreover have "int (length m) - int from - 1 \<noteq> 0" using False f by simp
      ultimately show ?thesis using chk no next1 by (simp add: ns option.map_comp comp_def algebra_simps)
    next
      case last: True
      then have tl: "tl ?c = concat (map snd ns')" "int (length m) - int from - 1 = 0" using c by simp_all
      show ?thesis
      proof (cases ns')
        case Nil
        then have "bn_next (np_node P a) = None" using h(2) by simp
        moreover have "k = 0" using Suc.prems(4,5) c last Nil by (cases sep) simp_all
        ultimately show ?thesis using chk no tl by (simp add: ns)
      next
        case (Cons y ns'')
        obtain a1 m1 where y: "y = (a1, m1)" by (cases y)
        have n1: "bn_next (np_node P a) = Some a1" "bn_sz (np_node P a1) = int (length m1)" "m1 \<noteq> []" using h(2) Suc.prems(2) by (simp_all add: ns Cons y holds_msg_def)
        have "line_loop P sep k (i + 1) a1 (int 0) (int (length (snd (hd ns'))) - int 0) = Some (map_option (\<lambda>j. i + 1 + j) (find_at sep k (drop 0 (concat (map snd ns')))))"
          using Suc.prems h(2) n1 c last by (intro Suc.IH) (auto simp: ns Cons y)
        then show ?thesis using chk no tl n1 by (simp add: ns Cons y option.map_comp comp_def algebra_simps)
      qed
    qed
  qed
qed simp

text \<open>The text up to the first separator and what comes behind it.\<close>

fun split_line :: "bytes \<Rightarrow> bytes \<Rightarrow> (bytes \<times> bytes) option" where
  "split_line sep [] = None"
| "split_line sep (x # xs) =
     (if take (length sep) (x # xs) = sep then Some ([], drop (length sep) (x # xs))
      else map_option (\<lambda>(line, rest). (x # line, rest)) (split_line sep xs))"

lemma split_line_append: "split_line sep c = Some (line, rest) \<Longrightarrow> c = line @ sep @ rest"
proof (induction c arbitrary: line rest)
  case (Cons x xs)
  show ?case
  proof (cases "take (length sep) (x # xs) = sep")
    case True
    then show ?thesis using Cons.prems append_take_drop_id [of "length sep" "x # xs"] by simp
  next
    case False
    then show ?thesis using Cons by auto
  qed
qed simp

lemma split_line_short: "length c < length sep \<Longrightarrow> split_line sep c = None"
proof (induction c)
  case (Cons x xs)
  then have "take (length sep) (x # xs) \<noteq> sep" by (metis length_take min.strict_order_iff nat_less_le min.commute)
  then show ?case using Cons by simp
qed simp

lemma find_at_split: "sep \<noteq> [] \<Longrightarrow> find_at sep (length c + 1 - length sep) c = map_option (\<lambda>(line, rest). length line) (split_line sep c)"
proof (induction c)
  case Nil
  then show ?case by (cases sep) simp_all
next
  case (Cons x xs)
  show ?case
  proof (cases "length (x # xs) < length sep")
    case True
    then show ?thesis using split_line_short [OF True] by simp
  next
    case False
    then have "length (x # xs) + 1 - length sep = Suc (length xs + 1 - length sep)" by simp
    then show ?thesis using Cons by (simp add: option.map_comp comp_def case_prod_unfold)
  qed
qed

lemma find_line_linked:
  assumes "linked P fl b ns" "offset_in b ns" "rb_size b = int (length (content_of b ns))" "sep \<noteq> []"
  shows "find_line sep b P = Some (map_option (\<lambda>(line, rest). length line) (split_line sep (content_of b ns)))"
proof (cases ns)
  case Nil
  then show ?thesis using assms(1) by (simp add: find_line_def linked_def content_of_def)
next
  case (Cons x ns')
  obtain a m where x: "x = (a, m)" by (cases x)
  have o: "0 \<le> rb_offset b" "rb_offset b < int (length m)" using assms(2) by (simp_all add: offset_in_def Cons x)
  have h: "rb_head b = Some a" "bn_sz (np_node P a) = int (length m)" using linked_head [of P fl b a m ns'] assms(1) by (simp_all add: Cons x)
  have c: "content_of b ns = drop (nat (rb_offset b)) (concat (map snd ns))" by (simp add: content_of_def)
  have k: "nat (rb_size b - int (length sep) + 1) = length (content_of b ns) + 1 - length sep" using assms(3) by simp
  show ?thesis
  proof (cases "length sep \<le> length (content_of b ns)")
    case True
    have "line_loop P sep (length (content_of b ns) + 1 - length sep) 0 a (int (nat (rb_offset b))) (int (length (snd (hd ns))) - int (nat (rb_offset b))) =
        Some (map_option (\<lambda>j. 0 + j) (find_at sep (length (content_of b ns) + 1 - length sep) (content_of b ns)))"
      unfolding c
    proof (rule line_loop_linked)
      show "length (drop (nat (rb_offset b)) (concat (map snd ns))) + 1 - length sep + length sep \<le> length (drop (nat (rb_offset b)) (concat (map snd ns))) + 1"
        using True unfolding c by simp
    qed (use assms o in \<open>auto simp: linked_def Cons x\<close>)
    then show ?thesis using h o k find_at_split [OF assms(4)] by (simp add: find_line_def Cons x option.map_comp comp_def)
  next
    case False
    then show ?thesis using h k split_line_short [of "content_of b ns" sep] by (simp add: find_line_def)
  qed
qed

subsection \<open>The operations on strings of bytes\<close>

datatype buffer_op = Push_Data bytes | Pop_Data int | Read_All | Clear_All | Read_Line bytes | Check_Line bytes

datatype buffer_reply = Size int | Data "bytes option" int | All bytes | Cleared | Line "bytes option" | Found bool

text \<open>A call by the Lua code, and what it means for the bytes that wait.\<close>

fun buffer_call :: "buffer_op \<Rightarrow> receive_buffer \<Rightarrow> node_pool \<Rightarrow> (buffer_reply \<times> receive_buffer \<times> node_pool) option" where
  "buffer_call (Push_Data m) b P = do { (n, b1, P1) \<leftarrow> lpushbuffer m (int (length m)) b P; Some (Size n, b1, P1) }"
| "buffer_call (Pop_Data sz) b P = do { ((s, n), b1, P1) \<leftarrow> lpopbuffer sz b P; Some (Data s n, b1, P1) }"
| "buffer_call Read_All b P = do { (s, b1, P1) \<leftarrow> lreadall b P; Some (All s, b1, P1) }"
| "buffer_call Clear_All b P = do { (b1, P1) \<leftarrow> lclearbuffer b P; Some (Cleared, b1, P1) }"
| "buffer_call (Read_Line sep) b P = do { (s, b1, P1) \<leftarrow> lreadline sep b P; Some (Line s, b1, P1) }"
| "buffer_call (Check_Line sep) b P = do { f \<leftarrow> lcheckline sep b P; Some (Found f, b, P) }"

fun bytes_call :: "buffer_op \<Rightarrow> bytes \<Rightarrow> buffer_reply \<times> bytes" where
  "bytes_call (Push_Data m) c = (Size (int (length (c @ m))), c @ m)"
| "bytes_call (Pop_Data sz) c =
     (if int (length c) < sz \<or> sz = 0 then (Data None (int (length c)), c)
      else (Data (Some (take (nat sz) c)) (int (length c) - sz), drop (nat sz) c))"
| "bytes_call Read_All c = (All c, [])"
| "bytes_call Clear_All c = (Cleared, [])"
| "bytes_call (Read_Line sep) c = (case split_line sep c of None \<Rightarrow> (Line None, c) | Some (line, rest) \<Rightarrow> (Line (Some line), rest))"
| "bytes_call (Check_Line sep) c = (Found (split_line sep c \<noteq> None), c)"

text \<open>No empty blocks, no negative sizes, no empty separators; less than 2 GB wait.\<close>

fun valid_call :: "buffer_op \<Rightarrow> bytes \<Rightarrow> bool" where
  "valid_call (Push_Data m) c = (m \<noteq> [] \<and> length c + length m < 2 ^ 31)"
| "valid_call (Pop_Data sz) c = (0 \<le> sz)"
| "valid_call (Read_Line sep) c = (sep \<noteq> [])"
| "valid_call (Check_Line sep) c = (sep \<noteq> [])"
| "valid_call _ c = True"

fun pushed :: "buffer_op \<Rightarrow> bytes list" where
  "pushed (Push_Data m) = [m]"
| "pushed _ = []"

definition represents :: "node_pool \<Rightarrow> nat list \<Rightarrow> receive_buffer \<Rightarrow> (nat \<times> bytes) list \<Rightarrow> bytes \<Rightarrow> bool" where
  "represents P fl b ns c \<longleftrightarrow> linked P fl b ns \<and> offset_in b ns \<and> content_of b ns = c \<and> rb_size b = int (length c)"

lemma size_only: "offset_in (b\<lparr>rb_size := n\<rparr>) ns = offset_in b ns" "content_of (b\<lparr>rb_size := n\<rparr>) ns = content_of b ns"
  by (cases ns; simp add: offset_in_def content_of_def case_prod_unfold)+

lemma leaves_represents:
  "leaves P fl ns b c b' P' \<Longrightarrow> n = int (length c) \<Longrightarrow> \<exists>fl' ns'. represents P' fl' (b'\<lparr>rb_size := n\<rparr>) ns' c \<and> reads P fl ns P' fl' ns'"
  by (auto simp: leaves_def represents_def linked_offset size_only)

lemma readall_result:
  assumes "represents P fl b ns c"
  shows "\<exists>b' P' fl'. lreadall b P = Some (c, b', P') \<and> represents P' fl' b' [] [] \<and> reads P fl ns P' fl' []"
proof -
  obtain b' P' fl' where r: "readall_loop [] b P = Some (c, b', P')" "linked P' fl' b' []" "offset_in b' []" "reads P fl ns P' fl' []"
    using readall_loop_linked [of P fl b ns "[]"] assms by (auto simp: represents_def)
  then show ?thesis
    by (intro exI [of _ "b'\<lparr>rb_size := 0\<rparr>"] exI [of _ P'] exI [of _ fl']) (simp add: lreadall_def represents_def linked_offset offset_in_def content_of_def)
qed

lemma pop_result:
  assumes "represents P fl b ns c" "0 < sz" "sz \<le> int (length c)" "length c < 2 ^ 31"
  shows "\<exists>b' P' fl' ns'. lpopbuffer sz b P = Some ((Some (take (nat sz) c), int (length c) - sz), b', P') \<and> represents P' fl' b' ns' (drop (nat sz) c) \<and>
    reads P fl ns P' fl' ns'"
proof -
  have r: "linked P fl b ns" "offset_in b ns" "content_of b ns = c" "rb_size b = int (length c)" using assms(1) by (simp_all add: represents_def)
  obtain b' P' where p: "pop_lstring sz 0 b P = Some (take (nat sz) c, b', P')" "leaves P fl ns b (drop (nat sz) c) b' P'"
    using pop_lstring_leaves [OF r(1,2) assms(2), of 0] assms(2,3) r(3) by auto
  have "int_range (int (length c) - sz)" using assms(2-4) by (simp add: int_range_def)
  moreover obtain fl' ns' where "represents P' fl' (b'\<lparr>rb_size := int (length c) - sz\<rparr>) ns' (drop (nat sz) c)" "reads P fl ns P' fl' ns'"
    using leaves_represents [OF p(2)] assms(2,3) by (metis of_nat_diff length_drop nat_le_iff nat_int nat_0_le le_less)
  ultimately show ?thesis using p(1) r(4) assms(2,3) by (auto simp: lpopbuffer_def)
qed

lemma line_result:
  assumes "represents P fl b ns c" "sep \<noteq> []"
  shows "\<exists>b' P' fl' ns'. lreadline sep b P = Some (map_option fst (split_line sep c), b', P') \<and>
    represents P' fl' b' ns' (case split_line sep c of None \<Rightarrow> c | Some (line, rest) \<Rightarrow> rest) \<and> reads P fl ns P' fl' ns'"
proof -
  have r: "linked P fl b ns" "offset_in b ns" "content_of b ns = c" "rb_size b = int (length c)" using assms(1) by (simp_all add: represents_def)
  have f: "find_line sep b P = Some (map_option (\<lambda>(line, rest). length line) (split_line sep c))"
    using find_line_linked [OF r(1,2) _ assms(2)] r(3,4) by simp
  show ?thesis
  proof (cases "split_line sep c")
    case None
    then show ?thesis using f assms(1) reads_refl by (fastforce simp: lreadline_def)
  next
    case (Some x)
    obtain line rest where x: "x = (line, rest)" by (cases x)
    have c: "c = line @ sep @ rest" using split_line_append Some x by simp
    let ?n = "int (length line + length sep)"
    have "0 < ?n" using assms(2) by (cases sep) simp_all
    then obtain b' P' where p: "pop_lstring ?n (int (length sep)) b P = Some (line, b', P')" "leaves P fl ns b rest b' P'"
      using pop_lstring_leaves [OF r(1,2), of ?n "int (length sep)"] unfolding r(3) by (auto simp: c nat_add_distrib)
    obtain fl' ns' where "represents P' fl' (b'\<lparr>rb_size := rb_size b - ?n\<rparr>) ns' rest" "reads P fl ns P' fl' ns'"
      using leaves_represents [OF p(2), of "rb_size b - ?n"] r(4) c by auto
    then show ?thesis using f p(1) Some x by (auto simp: lreadline_def)
  qed
qed

lemma buffer_call_ok:
  assumes "represents P fl b ns c" "valid_call op c" "length c < 2 ^ 31"
  shows "\<exists>b' P' fl' ns'. buffer_call op b P = Some (fst (bytes_call op c), b', P') \<and> represents P' fl' b' ns' (snd (bytes_call op c)) \<and>
    apart P fl ns P' fl' ns' \<and> np_freed P' @ map snd ns' = np_freed P @ map snd ns @ pushed op"
proof (cases op)
  case (Push_Data m)
  have r: "linked P fl b ns" "offset_in b ns" "content_of b ns = c" "rb_size b = int (length c)" using assms(1) by (simp_all add: represents_def)
  have "int_range (rb_size b + int (length m))" using r(4) assms(2) Push_Data by (simp add: int_range_def)
  moreover have "m \<noteq> []" using assms(2) Push_Data by simp
  ultimately obtain b' P' fl' a where p: "lpushbuffer m (int (length m)) b P = Some (rb_size b + int (length m), b', P')" "linked P' fl' b' (ns @ [(a, m)])"
      "rb_offset b' = rb_offset b" "rb_size b' = rb_size b + int (length m)" "apart P fl ns P' fl' (ns @ [(a, m)])" "np_freed P' = np_freed P"
    using lpushbuffer_linked [OF r(1), of m] by blast
  have "offset_in b' (ns @ [(a, m)])" "content_of b' (ns @ [(a, m)]) = c @ m"
    using r(2,3) p(3) \<open>m \<noteq> []\<close> by (cases ns; auto simp: offset_in_def content_of_def)+
  then have "represents P' fl' b' (ns @ [(a, m)]) (c @ m)" using p(2,4) r(4) by (simp add: represents_def)
  then show ?thesis using p r(4) Push_Data
    by (intro exI [of _ b'] exI [of _ P'] exI [of _ fl'] exI [of _ "ns @ [(a, m)]"]) simp
next
  case (Pop_Data sz)
  show ?thesis
  proof (cases "int (length c) < sz \<or> sz = 0")
    case True
    then have "lpopbuffer sz b P = Some ((None, int (length c)), b, P)" using assms(1) by (auto simp: lpopbuffer_def represents_def)
    then show ?thesis using True assms(1) Pop_Data
      by (intro exI [of _ b] exI [of _ P] exI [of _ fl] exI [of _ ns]) auto
  next
    case False
    then show ?thesis using pop_result [OF assms(1), of sz] assms(2,3) Pop_Data by (fastforce simp: reads_def)
  qed
next
  case Read_All
  then show ?thesis using readall_result [OF assms(1)] by (fastforce simp: reads_def)
next
  case Clear_All
  obtain b' P' fl' where "lclearbuffer b P = Some (b', P')" "linked P' fl' b' []" "offset_in b' []" "rb_size b' = 0" "reads P fl ns P' fl' []"
    using lclearbuffer_linked [of P fl b ns] assms(1) by (auto simp: represents_def)
  then show ?thesis using Clear_All
    by (intro exI [of _ b'] exI [of _ P'] exI [of _ fl'] exI [of _ "[]"]) (simp add: reads_def represents_def content_of_def)
next
  case (Read_Line sep)
  then show ?thesis using line_result [OF assms(1), of sep] assms(2) by (fastforce simp: reads_def split: option.splits)
next
  case (Check_Line sep)
  then have "lcheckline sep b P = Some (split_line sep c \<noteq> None)"
    using find_line_linked [of P fl b ns sep] assms(1,2) by (simp add: lcheckline_def represents_def)
  then show ?thesis using assms(1) Check_Line reads_refl [of P fl ns]
    by (intro exI [of _ b] exI [of _ P] exI [of _ fl] exI [of _ ns]) (simp add: reads_def)
qed

subsection \<open>The buffers of a service\<close>

definition new_pool :: node_pool where
  "new_pool = \<lparr>np_node = (\<lambda>a. \<lparr>bn_msg = None, bn_sz = 0, bn_next = None\<rparr>), np_brk = 0, np_free = None, np_len = 0, np_freed = [], np_warned = []\<rparr>"

text \<open>A run of calls for several buffers that share the pool, and what it means.\<close>

fun buffer_calls :: "(nat \<times> buffer_op) list \<Rightarrow> receive_buffer list \<Rightarrow> node_pool \<Rightarrow> (buffer_reply list \<times> receive_buffer list \<times> node_pool) option" where
  "buffer_calls [] bs P = Some ([], bs, P)"
| "buffer_calls ((i, op) # ops) bs P = do {
     (r, b, P1) \<leftarrow> buffer_call op (bs ! i) P;
     (rs, bs2, P2) \<leftarrow> buffer_calls ops (bs[i := b]) P1;
     Some (r # rs, bs2, P2)
   }"

fun bytes_calls :: "(nat \<times> buffer_op) list \<Rightarrow> bytes list \<Rightarrow> buffer_reply list \<times> bytes list" where
  "bytes_calls [] cs = ([], cs)"
| "bytes_calls ((i, op) # ops) cs =
     (let (r, c) = bytes_call op (cs ! i); (rs, cs2) = bytes_calls ops (cs[i := c]) in (r # rs, cs2))"

fun valid_calls :: "(nat \<times> buffer_op) list \<Rightarrow> bytes list \<Rightarrow> bool" where
  "valid_calls [] cs = True"
| "valid_calls ((i, op) # ops) cs = (i < length cs \<and> valid_call op (cs ! i) \<and> valid_calls ops (cs[i := snd (bytes_call op (cs ! i))]))"

text \<open>Every buffer represents its bytes in nodes of its own.\<close>

definition family :: "node_pool \<Rightarrow> nat list \<Rightarrow> receive_buffer list \<Rightarrow> (nat \<times> bytes) list list \<Rightarrow> bytes list \<Rightarrow> bool" where
  "family P fl bs nss cs \<longleftrightarrow> length bs = length cs \<and> length nss = length cs \<and>
     (\<forall>i < length cs. represents P fl (bs ! i) (nss ! i) (cs ! i) \<and> length (cs ! i) < 2 ^ 31) \<and>
     (\<forall>i < length cs. \<forall>j < length cs. i \<noteq> j \<longrightarrow> fst ` set (nss ! i) \<inter> fst ` set (nss ! j) = {})"

lemma family_D:
  assumes "family P fl bs nss cs"
  shows "length bs = length cs" "length nss = length cs" "i < length cs \<Longrightarrow> represents P fl (bs ! i) (nss ! i) (cs ! i)"
    "i < length cs \<Longrightarrow> length (cs ! i) < 2 ^ 31"
    "i < length cs \<Longrightarrow> j < length cs \<Longrightarrow> i \<noteq> j \<Longrightarrow> fst ` set (nss ! i) \<inter> fst ` set (nss ! j) = {}"
  using assms unfolding family_def by blast+

lemma represents_frame:
  assumes "represents P fl b ns c" "apart P fl ns0 P' fl' ns1" "fst ` set ns0 \<inter> fst ` set ns = {}" "linked P' fl' b' ns1"
  shows "represents P' fl' b ns c" "fst ` set ns1 \<inter> fst ` set ns = {}"
proof -
  have l: "linked P fl b ns" using assms(1) by (simp add: represents_def)
  have out: "x < np_brk P \<and> x \<notin> set fl \<and> x \<notin> fst ` set ns0" if "x \<in> fst ` set ns" for x using l assms(3) that by (auto simp: linked_def)
  then have same: "x \<in> set (map fst ns) \<Longrightarrow> np_node P' x = np_node P x" for x using assms(2) by (simp add: apart_def)
  have "x \<notin> set (fl' @ map fst ns1)" "x < np_brk P'" if "x \<in> fst ` set ns" for x
    using out [OF that] assms(2) by (auto simp: apart_def)
  then show "fst ` set ns1 \<inter> fst ` set ns = {}" by auto
  have "set fl' \<inter> fst ` set ns = {}" "\<forall>x \<in> fst ` set ns. x < np_brk P'" using \<open>\<And>x. x \<in> fst ` set ns \<Longrightarrow> x \<notin> set (fl' @ map fst ns1)\<close> \<open>\<And>x. x \<in> fst ` set ns \<Longrightarrow> x < np_brk P'\<close> by auto
  then have "linked P' fl' b ns" using l assms(4) linked_frame [OF l same] by (auto simp: linked_def)
  then show "represents P' fl' b ns c" using assms(1) by (simp add: represents_def)
qed

lemma concat_update:
  "i < length nss \<Longrightarrow> mset (concat (map (map snd) (nss[i := ns]))) + mset (map snd (nss ! i)) = mset (concat (map (map snd) nss)) + mset (map snd ns)"
proof (induction nss arbitrary: i)
  case (Cons x nss)
  then show ?case by (cases i) (simp_all add: ac_simps)
qed simp

lemma mset_swap:
  fixes a a' b b' f f' :: "bytes multiset"
  assumes "f' + a' = f + a + p" "b' + a = b + a'"
  shows "f' + b' = f + b + p"
proof -
  have "(f' + b') + (a + a') = (f + b + p) + (a + a')"
    using arg_cong2 [of "f' + a'" "f + a + p" "b' + a" "b + a'" "(+)", OF assms] by (simp only: ac_simps)
  then show ?thesis by (rule add_right_imp_eq)
qed

lemma bytes_call_short: "valid_call op c \<Longrightarrow> length c < 2 ^ 31 \<Longrightarrow> length (snd (bytes_call op c)) < 2 ^ 31"
proof (cases op)
  case (Read_Line sep)
  assume "length c < 2 ^ 31"
  then show ?thesis using Read_Line split_line_append [of sep c] by (cases "split_line sep c") fastforce+
qed auto

lemma buffer_calls_ok:
  "family P fl bs nss cs \<Longrightarrow> valid_calls ops cs \<Longrightarrow>
    \<exists>bs' P' fl' nss'. buffer_calls ops bs P = Some (fst (bytes_calls ops cs), bs', P') \<and> family P' fl' bs' nss' (snd (bytes_calls ops cs)) \<and>
      mset (np_freed P') + mset (concat (map (map snd) nss')) =
        mset (np_freed P) + mset (concat (map (map snd) nss)) + mset (concat (map (pushed \<circ> snd) ops))"
proof (induction ops arbitrary: P fl bs nss cs)
  case Nil
  then show ?case by auto
next
  case (Cons x ops)
  obtain i op where x: "x = (i, op)" by (cases x)
  let ?c = "cs ! i" and ?c' = "snd (bytes_call op (cs ! i))"
  have v: "i < length cs" "valid_call op ?c" "valid_calls ops (cs[i := ?c'])" using Cons.prems(2) by (simp_all add: x)
  have f: "length bs = length cs" "length nss = length cs" "represents P fl (bs ! i) (nss ! i) ?c" "length ?c < 2 ^ 31"
    using family_D [OF Cons.prems(1)] v(1) by simp_all
  obtain b' P1 fl1 ns1 where s: "buffer_call op (bs ! i) P = Some (fst (bytes_call op ?c), b', P1)" "represents P1 fl1 b' ns1 ?c'"
      "apart P fl (nss ! i) P1 fl1 ns1" "np_freed P1 @ map snd ns1 = np_freed P @ map snd (nss ! i) @ pushed op"
    using buffer_call_ok [OF f(3) v(2) f(4)] by blast
  have l1: "linked P1 fl1 b' ns1" using s(2) by (simp add: represents_def)
  have rest: "represents P1 fl1 (bs ! j) (nss ! j) (cs ! j) \<and> fst ` set ns1 \<inter> fst ` set (nss ! j) = {}" if "j < length cs" "j \<noteq> i" for j
  proof -
    have "represents P fl (bs ! j) (nss ! j) (cs ! j)" "fst ` set (nss ! i) \<inter> fst ` set (nss ! j) = {}"
      by (rule family_D(3) [OF Cons.prems(1) that(1)], rule family_D(5) [OF Cons.prems(1) v(1) that(1) that(2) [symmetric]])
    then show ?thesis using represents_frame [OF _ s(3) _ l1, of "bs ! j" "nss ! j" "cs ! j"] by simp
  qed
  have fam: "family P1 fl1 (bs[i := b']) (nss[i := ns1]) (cs[i := ?c'])"
    unfolding family_def
  proof (intro conjI allI impI)
    fix j assume j: "j < length (cs[i := ?c'])"
    show "represents P1 fl1 (bs[i := b'] ! j) (nss[i := ns1] ! j) (cs[i := ?c'] ! j)"
      using rest [of j] s(2) j f(1,2) by (cases "j = i") auto
    show "length (cs[i := ?c'] ! j) < 2 ^ 31"
      using family_D(4) [OF Cons.prems(1)] j bytes_call_short [OF v(2) f(4)] by (cases "j = i") simp_all
    fix k assume k: "k < length (cs[i := ?c'])" "j \<noteq> k"
    consider "j = i" | "k = i" | "j \<noteq> i" "k \<noteq> i" by blast
    then show "fst ` set (nss[i := ns1] ! j) \<inter> fst ` set (nss[i := ns1] ! k) = {}"
    proof cases
      case 1
      then show ?thesis using rest [of k] k f(2) v(1) by simp
    next
      case 2
      then show ?thesis using rest [of j] j k f(2) v(1) by (simp add: Int_commute)
    next
      case 3
      then show ?thesis using family_D(5) [OF Cons.prems(1)] j k by simp
    qed
  qed (simp_all add: f)
  obtain bs2 P2 fl2 nss2 where IH: "buffer_calls ops (bs[i := b']) P1 = Some (fst (bytes_calls ops (cs[i := ?c'])), bs2, P2)"
      "family P2 fl2 bs2 nss2 (snd (bytes_calls ops (cs[i := ?c'])))"
      "mset (np_freed P2) + mset (concat (map (map snd) nss2)) =
        mset (np_freed P1) + mset (concat (map (map snd) (nss[i := ns1]))) + mset (concat (map (pushed \<circ> snd) ops))"
    using Cons.IH [OF fam v(3)] by blast
  have "mset (np_freed P1) + mset (map snd ns1) = mset (np_freed P) + mset (map snd (nss ! i)) + mset (pushed op)"
    using arg_cong [OF s(4), of mset] by (simp only: mset_append ac_simps)
  moreover have "mset (concat (map (map snd) (nss[i := ns1]))) + mset (map snd (nss ! i)) = mset (concat (map (map snd) nss)) + mset (map snd ns1)"
    by (rule concat_update) (simp add: v(1) f(2))
  ultimately have "mset (np_freed P1) + mset (concat (map (map snd) (nss[i := ns1]))) = mset (np_freed P) + mset (concat (map (map snd) nss)) + mset (pushed op)"
    by (rule mset_swap)
  then have m: "mset (np_freed P2) + mset (concat (map (map snd) nss2)) =
      mset (np_freed P) + mset (concat (map (map snd) nss)) + mset (concat (map (pushed \<circ> snd) ((i, op) # ops)))"
    using IH(3) by (simp add: add.assoc)
  have fin: "buffer_calls ((i, op) # ops) bs P = Some (fst (bytes_calls ((i, op) # ops) cs), bs2, P2)"
      "snd (bytes_calls ((i, op) # ops) cs) = snd (bytes_calls ops (cs[i := ?c']))"
    using s(1) IH(1) by (simp_all add: case_prod_beta Let_def)
  show ?case using fin(1) IH(2) m unfolding x fin(2) by blast
qed

lemma represents_Nil:
  assumes "represents P fl b ns []"
  shows "ns = []"
proof (cases ns)
  case (Cons x ns')
  then show ?thesis using assms by (cases x) (auto simp: represents_def offset_in_def content_of_def)
qed

lemma new_family: "family new_pool [] (replicate n lnewbuffer) (replicate n []) (replicate n [])"
  by (simp add: family_def represents_def linked_def offset_in_def content_of_def new_pool_def lnewbuffer_def)

text \<open>C7. The buffers of a service behave like strings of bytes: in every run of valid calls on any number of buffers that
  share a pool, no access is outside a block, no assertion fails, every loop ends, every answer (the size, the
  bytes, the line up to the separator) is that for the string, and a call for one buffer does not change another.
  Each block that was pushed is freed at most once, and when nothing waits each was freed exactly once.\<close>

theorem receive_buffers_refine:
  assumes "valid_calls ops (replicate n [])"
  shows "\<exists>bs P held. buffer_calls ops (replicate n lnewbuffer) new_pool = Some (fst (bytes_calls ops (replicate n [])), bs, P) \<and>
    mset (np_freed P) + mset held = mset (concat (map (pushed \<circ> snd) ops)) \<and>
    (snd (bytes_calls ops (replicate n [])) = replicate n [] \<longrightarrow> held = [])"
proof -
  let ?cs = "snd (bytes_calls ops (replicate n []))"
  obtain bs P fl nss where r: "buffer_calls ops (replicate n lnewbuffer) new_pool = Some (fst (bytes_calls ops (replicate n [])), bs, P)" "family P fl bs nss ?cs"
      "mset (np_freed P) + mset (concat (map (map snd) nss)) = mset (concat (map (pushed \<circ> snd) ops))"
    using buffer_calls_ok [OF new_family assms] by (auto simp: new_pool_def)
  have "concat (map (map snd) nss) = []" if e: "?cs = replicate n []"
  proof -
    have "nss ! i = []" if i: "i < length nss" for i
    proof -
      have "represents P fl (bs ! i) (nss ! i) []" using family_D(2,3) [OF r(2)] e that by simp
      then show ?thesis by (rule represents_Nil)
    qed
    then show ?thesis by (auto simp: in_set_conv_nth)
  qed
  then show ?thesis using r(1,3) by blast
qed

theorem receive_buffers_refine_witness:
  "\<exists>bs P. buffer_calls [(0, Push_Data [1, 2]), (1, Push_Data [9]), (0, Push_Data [3, 10, 4]), (0, Read_Line [3, 10]), (0, Pop_Data 1), (1, Clear_All)]
      (replicate 2 lnewbuffer) new_pool = Some ([Size 2, Size 1, Size 5, Line (Some [1, 2]), Data (Some [4]) 0, Cleared], bs, P) \<and>
    mset (np_freed P) = {#[1, 2], [9], [3, 10, 4]#}"
proof -
  let ?ops = "[(0, Push_Data [1, 2]), (1, Push_Data [9]), (0, Push_Data [3, 10, 4]), (0, Read_Line [3, 10]), (0, Pop_Data 1), (1, Clear_All)] :: (nat \<times> buffer_op) list"
  have cs: "bytes_calls ?ops (replicate 2 []) = ([Size 2, Size 1, Size 5, Line (Some [1, 2]), Data (Some [4]) 0, Cleared], replicate 2 [])"
    by (simp add: numeral_2_eq_2)
  have "replicate 2 [] = [[], [] :: bytes]" by (simp add: numeral_2_eq_2)
  then have "valid_calls ?ops (replicate 2 [])" by simp
  from receive_buffers_refine [OF this] show ?thesis unfolding cs by auto
qed

end
